(* ===== verification/CBase.thy ===== *)
theory CBase
  imports Main "HOL-Library.Word" "HOL-Library.Monad_Syntax"
begin

text \<open>
  Prelude of the development: bytes and C strings, the collections of facts the
  components share, and generic lemmas on lists, options and words.

  A C \<open>char\<close> or \<open>unsigned char\<close> is a \<open>byte\<close>, an \<open>8 word\<close>; a buffer is a list of
  bytes; a NUL terminated string is modelled by the bytes before the NUL. Reading a
  buffer out of its bounds is undefined behaviour in C and the value \<open>None\<close> here.
\<close>

unbundle bit_operations_syntax

named_theorems model_simps \<open>defining equations of small operations that proofs unfold\<close>
named_theorems bounds \<open>length and range facts\<close>

type_synonym byte = "8 word"
type_synonym bytes = "byte list"

text \<open>A string literal of the source as its bytes.\<close>

definition str :: "string \<Rightarrow> bytes" where
  "str s = map of_char s"

lemma str_Nil [simp]: "str [] = []"
  by (simp add: str_def)

lemma str_Cons [simp]: "str (c # s) = of_char c # str s"
  by (simp add: str_def)

lemma length_str [simp]: "length (str s) = length s"
  by (simp add: str_def)

lemma str_append [simp]: "str (s @ t) = str s @ str t"
  by (simp add: str_def)

text \<open>A checked read of one byte.\<close>

definition at :: "'a list \<Rightarrow> nat \<Rightarrow> 'a option" where
  "at xs i = (if i < length xs then Some (xs ! i) else None)"

lemma at_Cons_0 [simp]: "at (x # xs) 0 = Some x"
  by (simp add: at_def)

lemma at_Cons_Suc [simp]: "at (x # xs) (Suc i) = at xs i"
  by (simp add: at_def)

lemma at_Nil [simp]: "at [] i = None"
  by (simp add: at_def)

lemma at_append_left: "i < length xs \<Longrightarrow> at (xs @ ys) i = at xs i"
  by (simp add: at_def nth_append)

lemma at_append_right: "at (xs @ ys) (length xs + i) = at ys i"
  by (simp add: at_def)

lemma at_Cons_numeral [simp]: "at (x # xs) (numeral k) = at xs (pred_numeral k)"
  by (simp add: numeral_eq_Suc)

lemma at_Some_iff: "at xs i = Some x \<longleftrightarrow> i < length xs \<and> xs ! i = x"
  by (simp add: at_def)

text \<open>Two bytes are equal when their eight bits are.\<close>

lemma byte_eqI:
  fixes x y :: byte
  assumes "bit x 0 = bit y 0" "bit x 1 = bit y 1" "bit x 2 = bit y 2" "bit x 3 = bit y 3"
    "bit x 4 = bit y 4" "bit x 5 = bit y 5" "bit x 6 = bit y 6" "bit x 7 = bit y 7"
  shows "x = y"
proof (rule bit_word_eqI)
  fix n assume "n < LENGTH(8)"
  then have "n = 0 \<or> n = 1 \<or> n = 2 \<or> n = 3 \<or> n = 4 \<or> n = 5 \<or> n = 6 \<or> n = 7"
    by simp arith
  with assms show "bit x n = bit y n" by (elim disjE) (simp_all only:)
qed

lemma byte_bit_ge [simp]: "8 \<le> n \<Longrightarrow> \<not> bit (x :: byte) n"
  by (auto dest: bit_imp_le_length)

text \<open>
  A C string in a buffer: the bytes before the first NUL. The searches of the C library work
  on strings in this form.
\<close>

definition cstr :: "bytes \<Rightarrow> bytes" where
  "cstr m = takeWhile (\<lambda>c. c \<noteq> 0) m"

fun prefix_of :: "bytes \<Rightarrow> bytes \<Rightarrow> bool" where
  "prefix_of [] s \<longleftrightarrow> True"
| "prefix_of (c # p) [] \<longleftrightarrow> False"
| "prefix_of (c # p) (d # s) \<longleftrightarrow> c = d \<and> prefix_of p s"

text \<open>The offset of the first occurrence that \<open>strstr\<close> finds.\<close>

fun strstr :: "bytes \<Rightarrow> bytes \<Rightarrow> nat option" where
  "strstr [] p = (if p = [] then Some 0 else None)"
| "strstr (c # s) p = (if prefix_of p (c # s) then Some 0 else map_option Suc (strstr s p))"

definition isspace :: "byte \<Rightarrow> bool" where
  "isspace c \<longleftrightarrow> c = 32 \<or> 9 \<le> c \<and> c \<le> 13"

definition isdigit :: "byte \<Rightarrow> bool" where
  "isdigit c \<longleftrightarrow> of_char (CHR ''0'') \<le> c \<and> c \<le> of_char (CHR ''9'')"

definition tolower :: "byte \<Rightarrow> byte" where
  "tolower c = (if of_char (CHR ''A'') \<le> c \<and> c \<le> of_char (CHR ''Z'') then c + 32 else c)"

lemma prefix_of_iff: "prefix_of p s \<longleftrightarrow> take (length p) s = p"
  by (induction p s rule: prefix_of.induct) auto

lemma strstr_Some_iff:
  "strstr s p = Some i \<longleftrightarrow>
     i \<le> length s \<and> prefix_of p (drop i s) \<and> (\<forall>j < i. \<not> prefix_of p (drop j s))"
proof (induction s arbitrary: i)
  case Nil
  then show ?case by (cases p) auto
next
  case (Cons c s)
  show ?case
  proof (cases i)
    case (Suc k)
    with Cons show ?thesis by (auto simp: less_Suc_eq_0_disj)
  qed auto
qed

lemma strstr_bound: "strstr s p = Some i \<Longrightarrow> i + length p \<le> length s"
  by (auto simp: strstr_Some_iff prefix_of_iff dest: arg_cong [where f = length])

lemma cstr_nonzero: "0 \<notin> set (cstr m)"
  by (auto simp: cstr_def dest: set_takeWhileD)

lemma cstr_id: "0 \<notin> set s \<Longrightarrow> cstr s = s"
  by (induction s) (auto simp: cstr_def)

lemma length_cstr: "length (cstr m) \<le> length m"
  by (simp add: cstr_def length_takeWhile_le)

text \<open>
  Addition of two values of type \<open>int\<close>: signed overflow is undefined behaviour.
\<close>

definition int_add :: "int \<Rightarrow> int \<Rightarrow> int option" where
  "int_add a b = (if - (2 ^ 31) \<le> a + b \<and> a + b < 2 ^ 31 then Some (a + b) else None)"

text \<open>Conversion of a wider integer to \<open>int\<close>.\<close>

definition to_int32 :: "int \<Rightarrow> int" where
  "to_int32 n = (n + 2 ^ 31) mod 2 ^ 32 - 2 ^ 31"

lemma to_int32_id: "- (2 ^ 31) \<le> n \<Longrightarrow> n < 2 ^ 31 \<Longrightarrow> to_int32 n = n"
  by (simp add: to_int32_def)

lemma to_int32_range: "- (2 ^ 31) \<le> to_int32 n \<and> to_int32 n < 2 ^ 31"
  by (simp add: to_int32_def)

lemma fold_upt_Suc: "fold f [0..<Suc n] x = f n (fold f [0..<n] x)"
  by simp

text \<open>\<open>sprintf (buff, "%d", n)\<close>.\<close>

fun dec_nat :: "nat \<Rightarrow> bytes" where
  "dec_nat n = (if n < 10 then [of_nat (48 + n)] else dec_nat (n div 10) @ [of_nat (48 + n mod 10)])"

declare dec_nat.simps [simp del]

definition dec_int :: "int \<Rightarrow> bytes" where
  "dec_int n = (if n < 0 then of_char (CHR ''-'') # dec_nat (nat (- n)) else dec_nat (nat n))"

end
