(* ===== verification/LinkedList.thy ===== *)
theory LinkedList
  imports CBase
begin

text \<open>
  The intrusive circular lists of include/linkedlist.h. Every list of the program (the
  write buffers of an HTTP session, the ready, wait and send queues of the LDAP client,
  the user list of the directory server, the host list of rauthen) is a ring of nodes
  threaded through their \<open>prev\<close> and \<open>next\<close> fields. The macros are modelled as they are
  written, assignment by assignment, on a heap of these two fields; a dereference of NULL
  is \<open>None\<close>. The ring invariant and the refinement to HOL lists follow, and the locale
  at the end states the contract that the other components use.
\<close>

section \<open>The macros on a heap of nodes\<close>

record 'n links =
  prev :: "'n \<Rightarrow> 'n option"
  nexT :: "'n \<Rightarrow> 'n option"

definition null_links :: "'n links" where
  "null_links = \<lparr>prev = (\<lambda>_. None), nexT = (\<lambda>_. None)\<rparr>"

definition set_prev :: "'n \<Rightarrow> 'n option \<Rightarrow> 'n links \<Rightarrow> 'n links" where
  "set_prev x v h = h\<lparr>prev := (prev h)(x := v)\<rparr>"

definition set_next :: "'n \<Rightarrow> 'n option \<Rightarrow> 'n links \<Rightarrow> 'n links" where
  "set_next x v h = h\<lparr>nexT := (nexT h)(x := v)\<rparr>"

lemma prev_set_prev [simp]: "prev (set_prev x v h) = (prev h)(x := v)"
  by (simp add: set_prev_def)

lemma next_set_prev [simp]: "nexT (set_prev x v h) = nexT h"
  by (simp add: set_prev_def)

lemma prev_set_next [simp]: "prev (set_next x v h) = prev h"
  by (simp add: set_next_def)

lemma next_set_next [simp]: "nexT (set_next x v h) = (nexT h)(x := v)"
  by (simp add: set_next_def)

definition LINKEDLIST_PREPEND ::
    "'n option \<Rightarrow> 'n \<Rightarrow> 'n links \<Rightarrow> ('n option \<times> 'n links) option" where
  "LINKEDLIST_PREPEND first item h =
     (case first of
        None \<Rightarrow> Some (Some item, set_prev item (Some item) (set_next item (Some item) h))
      | Some f \<Rightarrow> do {
          let h = set_prev item (prev h f) h;
          let h = set_next item (Some f) h;
          p \<leftarrow> prev h f;
          let h = set_next p (Some item) h;
          let h = set_prev f (Some item) h;
          Some (Some item, h)
        })"

definition LINKEDLIST_APPEND ::
    "'n option \<Rightarrow> 'n \<Rightarrow> 'n links \<Rightarrow> ('n option \<times> 'n links) option" where
  "LINKEDLIST_APPEND first item h =
     (case first of
        None \<Rightarrow> Some (Some item, set_prev item (Some item) (set_next item (Some item) h))
      | Some f \<Rightarrow> do {
          let h = set_prev item (prev h f) h;
          let h = set_next item (Some f) h;
          p \<leftarrow> prev h f;
          let h = set_next p (Some item) h;
          let h = set_prev f (Some item) h;
          Some (Some f, h)
        })"

definition LINKEDLIST_REMOVE ::
    "'n option \<Rightarrow> 'n \<Rightarrow> 'n links \<Rightarrow> ('n option \<times> 'n links) option" where
  "LINKEDLIST_REMOVE first item h = do {
     (first, h) \<leftarrow>
       (if prev h item = None \<or> nexT h item = None then Some (first, h)
        else if first = Some item then
          (if nexT h item = Some item then Some (None, h)
           else do {
             let first = nexT h item;
             n \<leftarrow> nexT h item;
             let h = set_prev n (prev h item) h;
             p \<leftarrow> prev h item;
             let h = set_next p (nexT h item) h;
             Some (first, h)
           })
        else do {
          n \<leftarrow> nexT h item;
          let h = set_prev n (prev h item) h;
          p \<leftarrow> prev h item;
          let h = set_next p (nexT h item) h;
          Some (first, h)
        });
     Some (first, set_prev item None (set_next item None h))
   }"

text \<open>
  The common tail of the two branches of \<open>LINKEDLIST_SHUFFLE\<close>: unlink the item, then
  link it before the (possibly new) first node.
\<close>

definition shuffle_relink ::
    "'n option \<Rightarrow> 'n \<Rightarrow> 'n links \<Rightarrow> ('n option \<times> 'n links) option" where
  "shuffle_relink first item h = do {
     n \<leftarrow> nexT h item;
     let h = set_prev n (prev h item) h;
     p \<leftarrow> prev h item;
     let h = set_next p (nexT h item) h;
     f \<leftarrow> first;
     let h = set_prev item (prev h f) h;
     let h = set_next item first h;
     q \<leftarrow> prev h f;
     let h = set_next q (Some item) h;
     let h = set_prev f (Some item) h;
     Some (first, h)
   }"

definition LINKEDLIST_SHUFFLE ::
    "'n option \<Rightarrow> 'n \<Rightarrow> 'n links \<Rightarrow> ('n option \<times> 'n links) option" where
  "LINKEDLIST_SHUFFLE first item h =
     (if first = Some item then
        (if nexT h item = Some item then Some (first, h)
         else shuffle_relink (nexT h item) item h)
      else shuffle_relink first item h)"

section \<open>Rings\<close>

text \<open>Consecutive nodes of the sequence point at each other.\<close>

fun linked :: "'n links \<Rightarrow> 'n list \<Rightarrow> bool" where
  "linked h (x # y # zs) \<longleftrightarrow> nexT h x = Some y \<and> prev h y = Some x \<and> linked h (y # zs)"
| "linked h _ \<longleftrightarrow> True"

definition cyc :: "'n links \<Rightarrow> 'n list \<Rightarrow> bool" where
  "cyc h xs \<longleftrightarrow> xs = [] \<or> distinct xs \<and> linked h (xs @ [hd xs])"

text \<open>The ring of the nodes \<open>xs\<close>, entered at its first node.\<close>

definition ring :: "'n links \<Rightarrow> 'n option \<Rightarrow> 'n list \<Rightarrow> bool" where
  "ring h first xs \<longleftrightarrow> first = (if xs = [] then None else Some (hd xs)) \<and> cyc h xs"

text \<open>Two heaps agree on the nodes outside a set: the frame of an operation.\<close>

definition same_off :: "'n set \<Rightarrow> 'n links \<Rightarrow> 'n links \<Rightarrow> bool" where
  "same_off A h h' \<longleftrightarrow> (\<forall>y. y \<notin> A \<longrightarrow> prev h' y = prev h y \<and> nexT h' y = nexT h y)"

lemma linked_append: "linked h (xs @ y # ys) \<longleftrightarrow> linked h (xs @ [y]) \<and> linked h (y # ys)"
  by (induction h xs rule: linked.induct) simp_all

lemma linked_cong:
  assumes "\<And>y. y \<in> set (butlast xs) \<Longrightarrow> nexT h' y = nexT h y"
    and "\<And>y. y \<in> set (tl xs) \<Longrightarrow> prev h' y = prev h y"
  shows "linked h' xs = linked h xs"
  using assms by (induction h xs rule: linked.induct) auto

lemma cyc_Nil [simp]: "cyc h []"
  by (simp add: cyc_def)

lemma cyc_single [simp]: "cyc h [x] \<longleftrightarrow> nexT h x = Some x \<and> prev h x = Some x"
  by (simp add: cyc_def)

lemma cyc_distinct: "cyc h xs \<Longrightarrow> distinct xs"
  by (auto simp: cyc_def)

lemma ring_Nil [simp]: "ring h first [] \<longleftrightarrow> first = None"
  by (simp add: ring_def)

lemma ring_None [simp]: "ring h None xs \<longleftrightarrow> xs = []"
  by (simp add: ring_def)

lemma ring_Some: "ring h (Some f) xs \<longleftrightarrow> xs \<noteq> [] \<and> hd xs = f \<and> cyc h xs"
  by (auto simp: ring_def)

lemma ring_distinct: "ring h first xs \<Longrightarrow> distinct xs"
  by (auto simp: ring_def dest: cyc_distinct)

text \<open>Only the entry point distinguishes a ring from its rotations.\<close>

lemma cyc_rotate: "cyc h (ys @ zs) \<longleftrightarrow> cyc h (zs @ ys)"
proof (cases "ys = [] \<or> zs = []")
  case False
  then obtain y ys' z zs' where "ys = y # ys'" and "zs = z # zs'"
    by (meson list.exhaust)
  then have "linked h ((ys @ zs) @ [hd (ys @ zs)]) = linked h ((zs @ ys) @ [hd (zs @ ys)])"
    using linked_append [of h ys z "zs' @ [y]"] linked_append [of h zs y "ys' @ [z]"] by auto
  with False show ?thesis by (auto simp: cyc_def)
qed auto

lemma cyc_snocD:
  assumes "cyc h (us @ [l])"
  shows "nexT h l = Some (hd (us @ [l]))" "prev h (hd (us @ [l])) = Some l"
    "linked h (us @ [l])" "distinct (us @ [l])"
  using assms linked_append [of h us l "[hd (us @ [l])]"] by (auto simp: cyc_def)

lemma set_tl_distinct: "distinct xs \<Longrightarrow> y \<in> set (tl xs) \<Longrightarrow> y \<in> set xs \<and> y \<noteq> hd xs"
  by (cases xs) auto

lemma set_butlast_distinct: "distinct xs \<Longrightarrow> y \<in> set (butlast xs) \<Longrightarrow> y \<in> set xs \<and> y \<noteq> last xs"
  by (induction xs) (auto split: if_splits)

lemma cyc_same_off:
  assumes "cyc h xs" "same_off A h h'" "set xs \<inter> A = {}"
  shows "cyc h' xs"
proof (cases "xs = []")
  case False
  have "linked h' (xs @ [hd xs]) = linked h (xs @ [hd xs])"
  proof (rule linked_cong)
    fix y assume "y \<in> set (tl (xs @ [hd xs]))"
    then have "y \<in> set xs" using False by (cases xs) auto
    then show "prev h' y = prev h y" using assms(2,3) by (auto simp: same_off_def)
  qed (use assms(2,3) in \<open>auto simp: same_off_def\<close>)
  with assms(1) show ?thesis by (simp add: cyc_def)
qed simp

lemma ring_same_off:
  "ring h first xs \<Longrightarrow> same_off A h h' \<Longrightarrow> set xs \<inter> A = {} \<Longrightarrow> ring h' first xs"
  by (auto simp: ring_def dest: cyc_same_off)

text \<open>The two changes of shape: a node linked in at the end, the last node linked out.\<close>

lemma cyc_link:
  assumes c: "cyc h (us @ [l])" and x: "x \<notin> set (us @ [l])"
    and f: "f = hd (us @ [l])"
    and h': "prev h' = (prev h)(x := Some l, f := Some x)"
      "nexT h' = (nexT h)(x := Some f, l := Some x)"
  shows "cyc h' (us @ [l, x])"
proof -
  note ll = cyc_snocD [OF c]
  have fin: "f \<in> set (us @ [l])" unfolding f by (rule list.set_sel) simp
  have "linked h' (us @ [l]) = linked h (us @ [l])"
  proof (rule linked_cong)
    fix y assume "y \<in> set (tl (us @ [l]))"
    from set_tl_distinct [OF ll(4) this] show "prev h' y = prev h y"
      using x f h' by auto
  qed (use ll(4) x h' in auto)
  then have "linked h' (us @ [l, x, f])"
    using ll(3) fin x h' linked_append [of h' us l "[x, f]"] by auto
  then show ?thesis
    using ll(4) x f by (auto simp: cyc_def hd_append)
qed

lemma cyc_unlink:
  assumes c: "cyc h (us @ [l, x])" and f: "f = hd (us @ [l])"
    and h': "prev h' = (prev h)(f := Some l)" "nexT h' = (nexT h)(l := Some f)"
  shows "cyc h' (us @ [l])"
proof -
  have lk: "linked h (us @ [l])" and d: "distinct (us @ [l])"
    using cyc_snocD [of h "us @ [l]" x] c linked_append [of h us l "[x]"] by auto
  have "linked h' (us @ [l]) = linked h (us @ [l])"
  proof (rule linked_cong)
    fix y assume "y \<in> set (tl (us @ [l]))"
    from set_tl_distinct [OF d this] show "prev h' y = prev h y"
      using f h' by auto
  qed (use d h' in auto)
  with lk have "linked h' (us @ [l, f])"
    using h' linked_append [of h' us l "[f]"] by simp
  with d f show ?thesis by (simp add: cyc_def)
qed

section \<open>The macros refine list operations\<close>

lemma snoc_hd_last: "xs \<noteq> [] \<Longrightarrow> \<exists>us l. xs = us @ [l]"
  by (cases xs rule: rev_cases) auto

lemma append_ring:
  assumes r: "ring h first xs" and x: "x \<notin> set xs"
  shows "\<exists>f' h'. LINKEDLIST_APPEND first x h = Some (f', h') \<and> ring h' f' (xs @ [x]) \<and>
           same_off (insert x (set xs)) h h'"
proof (cases xs rule: rev_cases)
  case Nil
  with r show ?thesis
    by (simp add: LINKEDLIST_APPEND_def ring_def same_off_def)
next
  case (snoc us l)
  define f where "f = hd (us @ [l])"
  have c: "cyc h (us @ [l])" and first: "first = Some f"
    using r snoc f_def by (auto simp: ring_def)
  have fin: "f \<in> set (us @ [l])" unfolding f_def by (rule list.set_sel) simp
  note ll = cyc_snocD [OF c, folded f_def]
  let ?h' = "set_prev f (Some x) (set_next l (Some x) (set_next x (Some f) (set_prev x (Some l) h)))"
  have op: "LINKEDLIST_APPEND first x h = Some (Some f, ?h')"
    using first ll fin x snoc by (auto simp: LINKEDLIST_APPEND_def)
  have "cyc ?h' (us @ [l, x])"
    by (rule cyc_link [OF c _ f_def]) (use x snoc in auto)
  then have "ring ?h' (Some f) (xs @ [x])"
    using snoc f_def by (simp add: ring_def hd_append)
  with op fin snoc show ?thesis
    by (auto simp: same_off_def)
qed

lemma prepend_ring:
  assumes r: "ring h first xs" and x: "x \<notin> set xs"
  shows "\<exists>h'. LINKEDLIST_PREPEND first x h = Some (Some x, h') \<and> ring h' (Some x) (x # xs) \<and>
           same_off (insert x (set xs)) h h'"
proof -
  obtain f' h' where a: "LINKEDLIST_APPEND first x h = Some (f', h')" "ring h' f' (xs @ [x])"
    and so: "same_off (insert x (set xs)) h h'"
    using append_ring [OF r x] by blast
  have "LINKEDLIST_PREPEND first x h = Some (Some x, h')"
    using a(1) by (auto simp: LINKEDLIST_APPEND_def LINKEDLIST_PREPEND_def Let_def
        split: option.splits Option.bind_splits)
  moreover have "ring h' (Some x) (x # xs)"
    using a(2) cyc_rotate [of h' xs "[x]"] by (auto simp: ring_def)
  ultimately show ?thesis using so by blast
qed

text \<open>Facts about a node somewhere in a ring: its neighbours.\<close>

lemma ring_neighbours:
  assumes "cyc h (us @ x # vs)" "vs @ us = ws @ [l]"
  shows "prev h x = Some l" "nexT h x = Some (hd (ws @ [l]))" "cyc h (ws @ [l, x])"
proof -
  have e: "vs @ (us @ [x]) = ws @ [l, x]"
    using assms(2) by (metis append.assoc append_Cons append_Nil)
  have c: "cyc h (ws @ [l, x])"
    using assms(1) cyc_rotate [of h "us @ [x]" vs] by (simp add: e)
  show "cyc h (ws @ [l, x])" by (rule c)
  from cyc_snocD [of h "ws @ [l]" x] c linked_append [of h ws l "[x]"]
  show "prev h x = Some l" "nexT h x = Some (hd (ws @ [l]))" by (auto simp: hd_append)
qed

lemma remove_ring:
  assumes r: "ring h first xs" and x: "x \<in> set xs"
  shows "\<exists>f' h'. LINKEDLIST_REMOVE first x h = Some (f', h') \<and> ring h' f' (remove1 x xs) \<and>
           same_off (set xs) h h' \<and> prev h' x = None \<and> nexT h' x = None"
proof -
  obtain us vs where xs: "xs = us @ x # vs" using x by (meson split_list)
  have c: "cyc h (us @ x # vs)" using r xs by (simp add: ring_def)
  have d: "distinct xs" using r by (rule ring_distinct)
  have rm: "remove1 x xs = us @ vs" using d xs by (simp add: remove1_append)
  show ?thesis
  proof (cases "vs @ us" rule: rev_cases)
    case Nil
    with r xs show ?thesis
      by (simp add: LINKEDLIST_REMOVE_def ring_def same_off_def)
  next
    case (snoc ws l)
    note nb = ring_neighbours [OF c snoc]
    define n where "n = hd (ws @ [l])"
    have nin: "n \<in> set (ws @ [l])" unfolding n_def by (rule list.set_sel) simp
    have sets: "set (ws @ [l]) = set us \<union> set vs" using arg_cong [OF snoc, of set] by auto
    have nx: "n \<noteq> x" "l \<noteq> x" using nin d xs sets by auto
    let ?h1 = "set_next l (Some n) (set_prev n (Some l) h)"
    let ?h' = "set_prev x None (set_next x None ?h1)"
    have "cyc ?h1 (ws @ [l])" by (rule cyc_unlink [OF nb(3) n_def]) auto
    then have "cyc ?h' (vs @ us)" unfolding snoc
      by (rule cyc_same_off [where A = "{x}"]) (use d xs sets in \<open>auto simp: same_off_def\<close>)
    then have c': "cyc ?h' (us @ vs)" by (simp add: cyc_rotate)
    have f: "first = Some (if us = [] then x else hd us)"
      using r xs by (auto simp: ring_def)
    let ?f' = "Some (hd (us @ vs))"
    have "LINKEDLIST_REMOVE first x h = Some (?f', ?h')"
    proof (cases "us = []")
      case True
      with snoc have "vs = ws @ [l]" by simp
      with True f nb nx n_def show ?thesis
        by (auto simp: LINKEDLIST_REMOVE_def)
    next
      case False
      then have "hd us \<noteq> x" using d xs by (cases us) auto
      with False f nb nx n_def show ?thesis
        by (auto simp: LINKEDLIST_REMOVE_def)
    qed
    moreover have "us @ vs \<noteq> []" using snoc by (cases us) auto
    ultimately show ?thesis
      using c' rm xs nin sets by (auto simp: ring_def same_off_def)
  qed
qed


lemma shuffle_ring:
  assumes r: "ring h first xs" and x: "x \<in> set xs"
  shows "\<exists>f' h'. LINKEDLIST_SHUFFLE first x h = Some (f', h') \<and> ring h' f' (remove1 x xs @ [x]) \<and>
           same_off (set xs) h h'"
proof -
  obtain us vs where xs: "xs = us @ x # vs" using x by (meson split_list)
  have c: "cyc h (us @ x # vs)" using r xs by (simp add: ring_def)
  have d: "distinct xs" using r by (rule ring_distinct)
  have rm: "remove1 x xs = us @ vs" using d xs by (simp add: remove1_append)
  show ?thesis
  proof (cases "vs @ us" rule: rev_cases)
    case Nil
    with r xs show ?thesis
      by (simp add: LINKEDLIST_SHUFFLE_def ring_def same_off_def)
  next
    case (snoc ws l)
    note nb = ring_neighbours [OF c snoc]
    define n where "n = hd (ws @ [l])"
    have nin: "n \<in> set (ws @ [l])" unfolding n_def by (rule list.set_sel) simp
    have sets: "set (ws @ [l]) = set us \<union> set vs" using arg_cong [OF snoc, of set] by auto
    have nx: "n \<noteq> x" "l \<noteq> x" using nin d xs sets by auto
    let ?h1 = "set_next l (Some n) (set_prev n (Some l) h)"
    have "cyc ?h1 (ws @ [l])" by (rule cyc_unlink [OF nb(3) n_def]) auto
    then have c1: "cyc ?h1 (us @ vs)" using cyc_rotate snoc by metis
    define f where "f = hd (us @ vs)"
    have ne: "us @ vs \<noteq> []" using snoc by (cases us) auto
    then have r1: "ring ?h1 (Some f) (us @ vs)" using c1 by (simp add: ring_def f_def)
    have fx: "f \<noteq> x" using ne d xs by (cases us) (auto simp: f_def)
    have nex: "x \<notin> set (us @ vs)" using d xs by auto
    obtain f' h' where a: "LINKEDLIST_APPEND (Some f) x ?h1 = Some (f', h')"
      "ring h' f' ((us @ vs) @ [x])" "same_off (insert x (set (us @ vs))) ?h1 h'"
      using append_ring [OF r1 nex] by blast
    have rel: "shuffle_relink (Some f) x h = Some (f', h')"
      using a(1) nb(1,2) nx fx unfolding n_def [symmetric]
      by (auto simp: shuffle_relink_def LINKEDLIST_APPEND_def Let_def fun_upd_apply
          split: Option.bind_splits if_splits)
    have "LINKEDLIST_SHUFFLE first x h = Some (f', h')"
    proof (cases "us = []")
      case True
      with snoc have "vs = ws @ [l]" by simp
      with True r xs nb nx n_def f_def rel show ?thesis
        by (auto simp: LINKEDLIST_SHUFFLE_def ring_def)
    next
      case False
      then have "first = Some f" "first \<noteq> Some x" using r xs fx f_def by (auto simp: ring_def)
      with rel show ?thesis by (simp add: LINKEDLIST_SHUFFLE_def)
    qed
    then show ?thesis
      using a(2,3) rm xs nin sets by (auto simp: same_off_def)
  qed
qed

section \<open>The queue contract\<close>

text \<open>
  What the components that keep a queue rely on: the four operations act on the represented
  sequence of nodes, and touch no node outside it.
\<close>

primrec enq_all ::
    "('f \<Rightarrow> 'n \<Rightarrow> 's \<Rightarrow> ('f \<times> 's) option) \<Rightarrow> 'f \<Rightarrow> 's \<Rightarrow> 'n list \<Rightarrow> ('f \<times> 's) option" where
  "enq_all ap f s [] = Some (f, s)"
| "enq_all ap f s (x # xs) = do { (f, s) \<leftarrow> ap f x s; enq_all ap f s xs }"

text \<open>The loop \<open>while (first != NULL) { item = first; REMOVE(first, item); ... }\<close>, with fuel.\<close>

primrec drain ::
    "('n option \<Rightarrow> 'n \<Rightarrow> 's \<Rightarrow> ('n option \<times> 's) option) \<Rightarrow> nat \<Rightarrow> 'n option \<Rightarrow> 's \<Rightarrow>
       ('n list \<times> 'n option \<times> 's) option" where
  "drain rm 0 f s = Some ([], f, s)"
| "drain rm (Suc k) f s =
     (case f of
        None \<Rightarrow> Some ([], f, s)
      | Some x \<Rightarrow> do {
          (f, s) \<leftarrow> rm f x s;
          (ys, r) \<leftarrow> drain rm k f s;
          Some (x # ys, r)
        })"

locale ring_queue =
  fixes rep :: "'s \<Rightarrow> 'n option \<Rightarrow> 'n list \<Rightarrow> bool"
    and prepend append remove shuffle :: "'n option \<Rightarrow> 'n \<Rightarrow> 's \<Rightarrow> ('n option \<times> 's) option"
    and frame :: "'n set \<Rightarrow> 's \<Rightarrow> 's \<Rightarrow> bool"
  assumes rep_empty: "rep s None []"
    and rep_head: "rep s f xs \<Longrightarrow> f = (if xs = [] then None else Some (hd xs))"
    and rep_distinct: "rep s f xs \<Longrightarrow> distinct xs"
    and rep_frame: "rep s f xs \<Longrightarrow> frame A s s' \<Longrightarrow> set xs \<inter> A = {} \<Longrightarrow> rep s' f xs"
    and prepend_law: "rep s f xs \<Longrightarrow> x \<notin> set xs \<Longrightarrow>
      \<exists>f' s'. prepend f x s = Some (f', s') \<and> rep s' f' (x # xs) \<and> frame (insert x (set xs)) s s'"
    and append_law: "rep s f xs \<Longrightarrow> x \<notin> set xs \<Longrightarrow>
      \<exists>f' s'. append f x s = Some (f', s') \<and> rep s' f' (xs @ [x]) \<and> frame (insert x (set xs)) s s'"
    and remove_law: "rep s f xs \<Longrightarrow> x \<in> set xs \<Longrightarrow>
      \<exists>f' s'. remove f x s = Some (f', s') \<and> rep s' f' (remove1 x xs) \<and> frame (set xs) s s'"
    and shuffle_law: "rep s f xs \<Longrightarrow> x \<in> set xs \<Longrightarrow>
      \<exists>f' s'. shuffle f x s = Some (f', s') \<and> rep s' f' (remove1 x xs @ [x]) \<and> frame (set xs) s s'"
begin

lemma enq_all_rep:
  "rep s f xs \<Longrightarrow> distinct (xs @ ys) \<Longrightarrow>
   \<exists>f' s'. enq_all append f s ys = Some (f', s') \<and> rep s' f' (xs @ ys)"
proof (induction ys arbitrary: f s xs)
  case (Cons y ys)
  then have "y \<notin> set xs" by auto
  with Cons.prems(1) obtain f1 s1 where 1: "append f y s = Some (f1, s1)" "rep s1 f1 (xs @ [y])"
    using append_law by blast
  with Cons.IH [OF 1(2)] Cons.prems(2) show ?case by auto
qed auto

lemma drain_rep:
  "rep s f xs \<Longrightarrow> length xs \<le> k \<Longrightarrow> \<exists>s'. drain remove k f s = Some (xs, None, s') \<and> rep s' None []"
proof (induction k arbitrary: f s xs)
  case 0
  then show ?case using rep_head [of s f xs] by auto
next
  case (Suc k)
  show ?case
  proof (cases xs)
    case Nil
    with Suc.prems rep_head [of s f xs] show ?thesis by auto
  next
    case (Cons x ys)
    with Suc.prems obtain f1 s1 where 1: "remove f x s = Some (f1, s1)" "rep s1 f1 ys"
      using remove_law [of s f xs x] by auto
    moreover have "f = Some x" using Suc.prems Cons rep_head by fastforce
    moreover obtain s' where "drain remove k f1 s1 = Some (ys, None, s')" "rep s' None []"
      using Suc.IH [OF 1(2)] Suc.prems(2) Cons by auto
    ultimately show ?thesis using Cons by auto
  qed
qed

lemma fifo:
  assumes "rep s f xs" "distinct (xs @ ys)" "length (xs @ ys) \<le> k"
  shows "\<exists>f' s' s''. enq_all append f s ys = Some (f', s') \<and>
           drain remove k f' s' = Some (xs @ ys, None, s'') \<and> rep s'' None []"
  using enq_all_rep [OF assms(1,2)] drain_rep [OF _ assms(3)] by blast

text \<open>Two queues of one store: removing a node from one leaves the other as it was.\<close>

lemma remove_other:
  assumes "rep s f xs" "rep s g ys" "set xs \<inter> set ys = {}" "x \<in> set xs"
  shows "\<exists>f' s'. remove f x s = Some (f', s') \<and> rep s' f' (remove1 x xs) \<and> rep s' g ys"
proof -
  obtain f' s' where "remove f x s = Some (f', s')" "rep s' f' (remove1 x xs)" "frame (set xs) s s'"
    using remove_law [OF assms(1,4)] by blast
  with rep_frame [OF assms(2)] assms(3) show ?thesis by auto
qed

text \<open>A node moved from the queue \<open>f\<close> to the end of the queue \<open>g\<close>.\<close>

lemma move:
  assumes "rep s f xs" "rep s g ys" "set xs \<inter> set ys = {}" "x \<in> set xs"
  shows "\<exists>f' s' g' s''. remove f x s = Some (f', s') \<and> append g x s' = Some (g', s'') \<and>
           rep s'' f' (remove1 x xs) \<and> rep s'' g' (ys @ [x])"
proof -
  obtain f' s' where 1: "remove f x s = Some (f', s')" "rep s' f' (remove1 x xs)" "rep s' g ys"
    using remove_other [OF assms] by blast
  have "x \<notin> set ys" using assms(3,4) by auto
  then obtain g' s'' where 2: "append g x s' = Some (g', s'')" "rep s'' g' (ys @ [x])"
    "frame (insert x (set ys)) s' s''"
    using append_law [OF 1(3)] by blast
  have "set (remove1 x xs) \<inter> insert x (set ys) = {}"
    using assms(3) rep_distinct [OF assms(1)] by auto
  with rep_frame [OF 1(2) 2(3)] 1 2 show ?thesis by blast
qed

end

interpretation rq: ring_queue ring LINKEDLIST_PREPEND LINKEDLIST_APPEND LINKEDLIST_REMOVE
    LINKEDLIST_SHUFFLE same_off
proof unfold_locales
  fix h :: "'a links" and f xs x
  assume "ring h f xs" "x \<notin> set xs"
  then show "\<exists>f' h'. LINKEDLIST_PREPEND f x h = Some (f', h') \<and> ring h' f' (x # xs) \<and>
      same_off (insert x (set xs)) h h'"
    using prepend_ring [of h f xs x] by blast
next
  fix h :: "'a links" and f xs x
  assume "ring h f xs" "x \<in> set xs"
  then show "\<exists>f' h'. LINKEDLIST_REMOVE f x h = Some (f', h') \<and> ring h' f' (remove1 x xs) \<and>
      same_off (set xs) h h'"
    using remove_ring [of h f xs x] by blast
qed (simp, simp add: ring_def, rule ring_distinct, assumption, rule ring_same_off, assumption+,
    rule append_ring, assumption+, rule shuffle_ring, assumption+)

text \<open>
  A node removed through the entry pointer of a queue it is not in: the other queue's entry
  pointer still names the node, whose links are NULL, so that the next append to that queue
  dereferences NULL.
\<close>

lemma remove_foreign:
  assumes "ring h (Some x) (x # xs)" "first \<noteq> Some x"
  shows "\<exists>h'. LINKEDLIST_REMOVE first x h = Some (first, h') \<and> prev h' x = None \<and>
           (\<forall>y. y \<noteq> x \<longrightarrow> LINKEDLIST_APPEND (Some x) y h' = None)"
proof -
  obtain us l where "x # xs = us @ [l]" by (metis append_butlast_last_id list.distinct(1))
  with assms(1) have c: "cyc h (us @ [l])" and hd: "hd (us @ [l]) = x" by (auto simp: ring_def)
  note ll = cyc_snocD [OF c, unfolded hd]
  obtain n where n: "nexT h x = Some n"
    using assms(1) by (cases xs) (auto simp: ring_def cyc_def)
  show ?thesis
    using assms(2) ll(2) n by (auto simp: LINKEDLIST_REMOVE_def LINKEDLIST_APPEND_def)
qed

section \<open>Properties\<close>

text \<open>A ring of three nodes, for the witnesses.\<close>

definition ring3 :: "nat links" where
  "ring3 = \<lparr>prev = [1 \<mapsto> 3, 2 \<mapsto> 1, 3 \<mapsto> 2], nexT = [1 \<mapsto> 2, 2 \<mapsto> 3, 3 \<mapsto> 1]\<rparr>"

lemma ring3: "ring ring3 (Some 1) [1, 2, 3]"
  by (simp add: ring3_def ring_def cyc_def)

text \<open>
  C22. On a ring that represents the list \<open>xs\<close>, the macros never dereference NULL and compute
  the list operations: prepending and appending a new node, removing a node anywhere in the
  ring, and moving a node to the back; they touch no node outside the ring.
\<close>

theorem LINKEDLIST_refines_lists:
  assumes "ring h first xs"
  shows "(x \<notin> set xs \<longrightarrow>
           (\<exists>f' h'. LINKEDLIST_PREPEND first x h = Some (f', h') \<and>
              ring h' f' (x # xs) \<and> same_off (insert x (set xs)) h h') \<and>
           (\<exists>f' h'. LINKEDLIST_APPEND first x h = Some (f', h') \<and>
              ring h' f' (xs @ [x]) \<and> same_off (insert x (set xs)) h h')) \<and>
         (x \<in> set xs \<longrightarrow>
           (\<exists>f' h'. LINKEDLIST_REMOVE first x h = Some (f', h') \<and>
              ring h' f' (remove1 x xs) \<and> same_off (set xs) h h' \<and>
              prev h' x = None \<and> nexT h' x = None) \<and>
           (\<exists>f' h'. LINKEDLIST_SHUFFLE first x h = Some (f', h') \<and>
              ring h' f' (remove1 x xs @ [x]) \<and> same_off (set xs) h h'))"
  using rq.prepend_law [OF assms] rq.append_law [OF assms] remove_ring [OF assms]
    rq.shuffle_law [OF assms] by blast

theorem LINKEDLIST_refines_lists_witness:
  "(\<exists>f' h'. LINKEDLIST_APPEND (Some 1) 4 ring3 = Some (f', h') \<and> ring h' f' [1, 2, 3, 4]) \<and>
   (\<exists>f' h'. LINKEDLIST_REMOVE (Some 1) 1 ring3 = Some (f', h') \<and> ring h' f' [2, 3]) \<and>
   (\<exists>f' h'. LINKEDLIST_SHUFFLE (Some 1) 2 ring3 = Some (f', h') \<and> ring h' f' [1, 3, 2])"
  using LINKEDLIST_refines_lists [OF ring3, of 4] LINKEDLIST_refines_lists [OF ring3, of 1]
    LINKEDLIST_refines_lists [OF ring3, of 2] by auto

text \<open>
  A queue is first in, first out: nodes appended to a queue that holds \<open>xs\<close> leave it,
  removed one by one at the entry pointer, after the nodes of \<open>xs\<close> and in the order in which
  they were appended, and the queue is then empty.
\<close>

theorem LINKEDLIST_fifo:
  assumes "ring h first xs" "distinct (xs @ ys)"
  shows "\<exists>f' h' h''. enq_all LINKEDLIST_APPEND first h ys = Some (f', h') \<and>
           drain LINKEDLIST_REMOVE (length (xs @ ys)) f' h' = Some (xs @ ys, None, h'')"
  using rq.fifo [OF assms order_refl] by blast

theorem LINKEDLIST_fifo_witness:
  "\<exists>f' h' h''. enq_all LINKEDLIST_APPEND (Some 1) ring3 [7, 5] = Some (f', h') \<and>
     drain LINKEDLIST_REMOVE 5 f' h' = Some ([1, 2, 3, 7, 5], None, h'')"
  using LINKEDLIST_fifo [OF ring3, of "[7, 5]"] by (simp add: eval_nat_numeral)

end
