(* ===== verification/Base64.thy ===== *)
theory Base64
  imports CBase
begin

text \<open>
  libs/codecs/base64/base64.c. The four arguments \<open>in\<close>, \<open>ilen\<close>, \<open>out\<close>, \<open>olen\<close> that the two
  functions update are a record: \<open>src\<close> is the memory from \<open>*in\<close> on (also beyond \<open>ilen\<close>, for
  the encoder reads there), \<open>dst\<close> the bytes written before \<open>*out\<close>. Reading past \<open>src\<close> is
  \<open>None\<close>. The macros are functions on the memory at their pointer.
\<close>

section \<open>The macros\<close>

definition BASE64_PAD_CHAR :: byte where
  "BASE64_PAD_CHAR = of_char (CHR ''='')"

definition base64_charcters :: bytes where
  "base64_charcters =
     str ''ABCDEFGHIJKLMNOPQRSTUVWXYZabcdefghijklmnopqrstuvwxyz0123456789+/''"

definition BASE64_ENCODE :: "bytes \<Rightarrow> int \<Rightarrow> bytes option" where
  "BASE64_ENCODE i ilen = do {
     i0 \<leftarrow> at i 0;
     o0 \<leftarrow> at base64_charcters (unat (drop_bit 2 i0));
     i1 \<leftarrow> at i 1;
     o1 \<leftarrow> at base64_charcters (unat (push_bit 4 (i0 AND 0x03) OR drop_bit 4 (i1 AND 0xF0)));
     o2 \<leftarrow> (if ilen \<le> 1 then Some BASE64_PAD_CHAR
           else do {
             i2 \<leftarrow> at i 2;
             at base64_charcters (unat (push_bit 2 (i1 AND 0x0F) OR drop_bit 6 (i2 AND 0xC0)))
           });
     o3 \<leftarrow> (if ilen \<le> 2 then Some BASE64_PAD_CHAR
           else do {
             i2 \<leftarrow> at i 2;
             at base64_charcters (unat (i2 AND 0x3F))
           });
     Some [o0, o1, o2, o3]
   }"

definition BASE64_DECODE_CHAR :: "byte \<Rightarrow> byte" where
  "BASE64_DECODE_CHAR c =
     (if of_char (CHR ''A'') \<le> c \<and> c \<le> of_char (CHR ''Z'') then c - of_char (CHR ''A'')
      else if of_char (CHR ''a'') \<le> c \<and> c \<le> of_char (CHR ''z'') then c - of_char (CHR ''a'') + 26
      else if of_char (CHR ''0'') \<le> c \<and> c \<le> of_char (CHR ''9'') then c - of_char (CHR ''0'') + 26 + 26
      else if c = of_char (CHR ''+'') then 26 + 26 + 10
      else if c = of_char (CHR ''/'') then 26 + 26 + 10 + 1
      else 0xFF)"

text \<open>
  The bytes written at the output pointer and the value left in \<open>_olen\<close>. In the errors -3 and -4
  one or two bytes have been written; the callers leave \<open>*out\<close> before them, so that they are not
  part of \<open>dst\<close>.
\<close>

definition BASE64_DECODE :: "bytes \<Rightarrow> (bytes \<times> int) option" where
  "BASE64_DECODE i = do {
     i0 \<leftarrow> at i 0;
     let l = BASE64_DECODE_CHAR i0;
     if l \<ge> 64 then Some ([], -1)
     else do {
       let h = push_bit 2 l;
       i1 \<leftarrow> at i 1;
       let l = BASE64_DECODE_CHAR i1;
       if l \<ge> 64 then Some ([], -2)
       else do {
         let o0 = h OR drop_bit 4 l;
         let h = push_bit 4 l;
         i2 \<leftarrow> at i 2;
         pad \<leftarrow> (if i2 = BASE64_PAD_CHAR then do { i3 \<leftarrow> at i 3; Some (i3 = BASE64_PAD_CHAR) }
                else Some False);
         if pad then Some ([o0], 1)
         else do {
           let l = BASE64_DECODE_CHAR i2;
           if l \<ge> 64 then Some ([o0], -3)
           else do {
             let o1 = h OR drop_bit 2 l;
             let h = push_bit 6 l;
             i3 \<leftarrow> at i 3;
             if i3 = BASE64_PAD_CHAR then Some ([o0, o1], 2)
             else do {
               let l = BASE64_DECODE_CHAR i3;
               if l \<ge> 64 then Some ([o0, o1], -4)
               else Some ([o0, o1, h OR l], 3)
             }
           }
         }
       }
     }
   }"

section \<open>The two functions\<close>

record b64 =
  src :: bytes
  ilen :: int
  dst :: bytes
  olen :: int

function base64_encode :: "b64 \<Rightarrow> b64 option" where
  "base64_encode s =
     (if ilen s > 0 \<and> olen s \<ge> 4 then do {
        cs \<leftarrow> BASE64_ENCODE (src s) (ilen s);
        base64_encode
          ((if ilen s < 3 then s\<lparr>src := drop (nat (ilen s)) (src s), ilen := 0\<rparr>
            else s\<lparr>src := drop 3 (src s), ilen := ilen s - 3\<rparr>)
           \<lparr>dst := dst s @ cs, olen := olen s - 4\<rparr>)
      }
      else Some s)"
  by pat_completeness auto
termination by (relation "measure (\<lambda>s. nat (ilen s))") auto

declare base64_encode.simps [simp del]

text \<open>The part of \<open>base64_decode\<close> after its loop.\<close>

definition base64_decode_rest :: "b64 \<Rightarrow> (int \<times> b64) option" where
  "base64_decode_rest s =
     (if ilen s \<le> 0 then Some (0, s)
      else if ilen s < 4 then Some (-1, s)
      else if olen s > 0 then do {
        (temp, n) \<leftarrow> BASE64_DECODE (src s);
        if n \<le> 0 then Some (-1, s)
        else if n \<le> olen s then
          Some (0, s\<lparr>dst := dst s @ take (nat n) temp, olen := olen s - n,
                     src := drop 4 (src s), ilen := ilen s - 4\<rparr>)
        else Some (0, s)
      }
      else Some (0, s))"

function base64_decode :: "b64 \<Rightarrow> (int \<times> b64) option" where
  "base64_decode s =
     (if ilen s \<ge> 4 \<and> olen s \<ge> 3 then do {
        (bs, n) \<leftarrow> BASE64_DECODE (src s);
        if n \<le> 0 then Some (-1, s)
        else do {
          let s = s\<lparr>dst := dst s @ take (nat n) bs, olen := olen s - n,
                    src := drop 4 (src s), ilen := ilen s - 4\<rparr>;
          if n < 3 then Some (0, s) else base64_decode s
        }
      }
      else base64_decode_rest s)"
  by pat_completeness auto
termination by (relation "measure (\<lambda>s. nat (ilen s))") auto

declare base64_decode.simps [simp del]

lemma decode_charcters:
  "k < 64 \<Longrightarrow> \<exists>c. at base64_charcters k = Some c \<and> BASE64_DECODE_CHAR c = of_nat k \<and>
                c \<noteq> BASE64_PAD_CHAR"
proof -
  have "\<forall>k \<in> set [0..<64]. case at base64_charcters k of None \<Rightarrow> False
      | Some c \<Rightarrow> BASE64_DECODE_CHAR c = of_nat k \<and> c \<noteq> BASE64_PAD_CHAR"
    by code_simp
  then show "k < 64 \<Longrightarrow> ?thesis" by (fastforce split: option.splits)
qed

lemma decode_charcters_word:
  "w < 64 \<Longrightarrow> \<exists>c. at base64_charcters (unat w) = Some c \<and> BASE64_DECODE_CHAR c = w \<and>
                c \<noteq> BASE64_PAD_CHAR" for w :: byte
  using decode_charcters [of "unat w"] by (simp add: word_less_nat_alt)

text \<open>The four six-bit groups of three bytes, and the three bytes of four groups.\<close>

definition sextet :: "nat \<Rightarrow> byte \<Rightarrow> byte \<Rightarrow> byte" where
  "sextet k a b =
     (if k = 0 then drop_bit 2 a
      else if k = 1 then push_bit 4 (a AND 0x03) OR drop_bit 4 (b AND 0xF0)
      else if k = 2 then push_bit 2 (a AND 0x0F) OR drop_bit 6 (b AND 0xC0)
      else a AND 0x3F)"

lemma sextet_less: "sextet k a b < 64"
proof -
  have lt: "w < 64" if "\<not> bit w 6" "\<not> bit w 7" for w :: byte
  proof -
    have "w = w AND 0x3F" using that by (intro byte_eqI) (simp_all add: bit_simps)
    also have "\<dots> \<le> 0x3F" by (rule word_and_le1)
    finally show ?thesis by (rule le_less_trans) simp
  qed
  show ?thesis by (rule lt) (simp_all add: sextet_def bit_simps)
qed

lemma regroup [unfolded One_nat_def]:
  "push_bit 2 (sextet 0 a z) OR drop_bit 4 (sextet 1 a b) = a"
  "push_bit 4 (sextet 1 a b) OR drop_bit 2 (sextet 2 b c) = b"
  "push_bit 6 (sextet 2 b c) OR sextet 3 c z = c"
  by (rule byte_eqI; simp add: sextet_def bit_simps)+

lemma sextet_char:
  obtains x where "at base64_charcters (unat (sextet k a b)) = Some x"
    "BASE64_DECODE_CHAR x = sextet k a b" "x \<noteq> BASE64_PAD_CHAR" "BASE64_DECODE_CHAR x < 64"
  using decode_charcters_word [OF sextet_less [of k a b]] sextet_less [of k a b] by auto

lemma BASE64_ENCODE_sextets:
  "BASE64_ENCODE (a # b # xs) n = do {
     o0 \<leftarrow> at base64_charcters (unat (sextet 0 a 0));
     o1 \<leftarrow> at base64_charcters (unat (sextet 1 a b));
     o2 \<leftarrow> (if n \<le> 1 then Some BASE64_PAD_CHAR
           else do { c \<leftarrow> at xs 0; at base64_charcters (unat (sextet 2 b c)) });
     o3 \<leftarrow> (if n \<le> 2 then Some BASE64_PAD_CHAR
           else do { c \<leftarrow> at xs 0; at base64_charcters (unat (sextet 3 c 0)) });
     Some [o0, o1, o2, o3]
   }"
  by (simp add: BASE64_ENCODE_def sextet_def)

lemma encode_decode3:
  assumes "n \<ge> 3"
  shows "\<exists>o0 o1 o2 o3. BASE64_ENCODE (a # b # c # xs) n = Some [o0, o1, o2, o3] \<and>
     (\<forall>ys. BASE64_DECODE (o0 # o1 # o2 # o3 # ys) = Some ([a, b, c], 3))"
proof -
  obtain o0 where "at base64_charcters (unat (sextet 0 a 0)) = Some o0"
    "BASE64_DECODE_CHAR o0 = sextet 0 a 0" "BASE64_DECODE_CHAR o0 < 64" by (rule sextet_char)
  moreover obtain o1 where "at base64_charcters (unat (sextet 1 a b)) = Some o1"
    "BASE64_DECODE_CHAR o1 = sextet 1 a b" "BASE64_DECODE_CHAR o1 < 64" by (rule sextet_char)
  moreover obtain o2 where "at base64_charcters (unat (sextet 2 b c)) = Some o2"
    "BASE64_DECODE_CHAR o2 = sextet 2 b c" "o2 \<noteq> BASE64_PAD_CHAR" "BASE64_DECODE_CHAR o2 < 64"
    by (rule sextet_char)
  moreover obtain o3 where "at base64_charcters (unat (sextet 3 c 0)) = Some o3"
    "BASE64_DECODE_CHAR o3 = sextet 3 c 0" "o3 \<noteq> BASE64_PAD_CHAR" "BASE64_DECODE_CHAR o3 < 64"
    by (rule sextet_char)
  ultimately show ?thesis using assms
    by (simp add: BASE64_ENCODE_sextets BASE64_DECODE_def Let_def not_le regroup)
qed

lemma encode_decode2:
  "\<exists>o0 o1 o2. BASE64_ENCODE (a # b # c # xs) 2 = Some [o0, o1, o2, BASE64_PAD_CHAR] \<and>
     (\<forall>ys. BASE64_DECODE (o0 # o1 # o2 # BASE64_PAD_CHAR # ys) = Some ([a, b], 2))"
proof -
  obtain o0 where "at base64_charcters (unat (sextet 0 a 0)) = Some o0"
    "BASE64_DECODE_CHAR o0 = sextet 0 a 0" "BASE64_DECODE_CHAR o0 < 64" by (rule sextet_char)
  moreover obtain o1 where "at base64_charcters (unat (sextet 1 a b)) = Some o1"
    "BASE64_DECODE_CHAR o1 = sextet 1 a b" "BASE64_DECODE_CHAR o1 < 64" by (rule sextet_char)
  moreover obtain o2 where "at base64_charcters (unat (sextet 2 b c)) = Some o2"
    "BASE64_DECODE_CHAR o2 = sextet 2 b c" "o2 \<noteq> BASE64_PAD_CHAR" "BASE64_DECODE_CHAR o2 < 64"
    by (rule sextet_char)
  ultimately show ?thesis
    by (simp add: BASE64_ENCODE_sextets BASE64_DECODE_def Let_def not_le regroup)
qed

lemma encode_decode1:
  "\<exists>o0 o1. BASE64_ENCODE (a # b # xs) 1 = Some [o0, o1, BASE64_PAD_CHAR, BASE64_PAD_CHAR] \<and>
     (\<forall>ys. BASE64_DECODE (o0 # o1 # BASE64_PAD_CHAR # BASE64_PAD_CHAR # ys) = Some ([a], 1))"
proof -
  obtain o0 where "at base64_charcters (unat (sextet 0 a 0)) = Some o0"
    "BASE64_DECODE_CHAR o0 = sextet 0 a 0" "BASE64_DECODE_CHAR o0 < 64" by (rule sextet_char)
  moreover obtain o1 where "at base64_charcters (unat (sextet 1 a b)) = Some o1"
    "BASE64_DECODE_CHAR o1 = sextet 1 a b" "BASE64_DECODE_CHAR o1 < 64" by (rule sextet_char)
  ultimately show ?thesis
    by (simp add: BASE64_ENCODE_sextets BASE64_DECODE_def Let_def not_le regroup)
qed

definition BASE64_ENCODE_SIZE :: "int \<Rightarrow> int" where
  "BASE64_ENCODE_SIZE len = (len + (3 - 1)) div 3 * 4"

lemma ENCODE_SIZE_simps [simp]:
  "BASE64_ENCODE_SIZE 0 = 0" "BASE64_ENCODE_SIZE 1 = 4" "BASE64_ENCODE_SIZE 2 = 4"
  "BASE64_ENCODE_SIZE (n + 3) = BASE64_ENCODE_SIZE n + 4"
  "BASE64_ENCODE_SIZE (3 + n) = BASE64_ENCODE_SIZE n + 4"
proof -
  have "(n + 5) div 3 = (n + 2) div 3 + 1" by presburger
  then show "BASE64_ENCODE_SIZE (n + 3) = BASE64_ENCODE_SIZE n + 4"
    "BASE64_ENCODE_SIZE (3 + n) = BASE64_ENCODE_SIZE n + 4"
    by (simp_all add: BASE64_ENCODE_SIZE_def add.commute [of 5])
qed (simp_all add: BASE64_ENCODE_SIZE_def)

lemma encode_stop: "ilen s \<le> 0 \<or> olen s < 4 \<Longrightarrow> base64_encode s = Some s"
  by (subst base64_encode.simps) auto

lemma encode_step:
  "0 < n \<Longrightarrow> 4 \<le> k \<Longrightarrow> BASE64_ENCODE m n = Some cs \<Longrightarrow>
   base64_encode \<lparr>src = m, ilen = n, dst = d, olen = k\<rparr> =
   base64_encode (if n < 3 then \<lparr>src = drop (nat n) m, ilen = 0, dst = d @ cs, olen = k - 4\<rparr>
                  else \<lparr>src = drop 3 m, ilen = n - 3, dst = d @ cs, olen = k - 4\<rparr>)"
  by (subst base64_encode.simps) simp

lemma decode_step:
  "4 \<le> n \<Longrightarrow> 3 \<le> k \<Longrightarrow> BASE64_DECODE m = Some (bs, 3) \<Longrightarrow>
   base64_decode \<lparr>src = m, ilen = n, dst = d, olen = k\<rparr> =
   base64_decode \<lparr>src = drop 4 m, ilen = n - 4, dst = d @ take 3 bs, olen = k - 3\<rparr>"
  by (subst base64_decode.simps) simp

lemma decode_last:
  "BASE64_DECODE m = Some (bs, r) \<Longrightarrow> 0 < r \<Longrightarrow> r < 3 \<Longrightarrow> r \<le> k \<Longrightarrow>
   base64_decode \<lparr>src = m, ilen = 4, dst = d, olen = k\<rparr> =
   Some (0, \<lparr>src = drop 4 m, ilen = 0, dst = d @ take (nat r) bs, olen = k - r\<rparr>)"
  by (subst base64_decode.simps) (simp add: base64_decode_rest_def)

lemma roundtrip_aux:
  assumes "pad \<noteq> []" "BASE64_ENCODE_SIZE (int (length xs)) \<le> k" "int (length xs) \<le> k'"
  shows "\<exists>cs. int (length cs) = BASE64_ENCODE_SIZE (int (length xs)) \<and>
     (\<forall>d. base64_encode \<lparr>src = xs @ pad, ilen = int (length xs), dst = d, olen = k\<rparr> =
        Some \<lparr>src = pad, ilen = 0, dst = d @ cs, olen = k - int (length cs)\<rparr>) \<and>
     (\<forall>d. base64_decode \<lparr>src = cs @ ys, ilen = int (length cs), dst = d, olen = k'\<rparr> =
        Some (0, \<lparr>src = ys, ilen = 0, dst = d @ xs, olen = k' - int (length xs)\<rparr>))"
  using assms(2,3)
proof (induction xs arbitrary: k k' rule: length_induct)
  case (1 xs)
  obtain p pad' where pad: "pad = p # pad'" using assms(1) by (cases pad) auto
  consider "xs = []" | a where "xs = [a]" | a b where "xs = [a, b]"
    | a b c zs where "xs = a # b # c # zs"
    by (metis list.exhaust)
  then show ?case
  proof cases
    case 1
    then show ?thesis
      by (intro exI [of _ "[]"]) (auto simp: encode_stop base64_decode.simps base64_decode_rest_def)
  next
    case (2 a)
    obtain o0 o1 where "BASE64_ENCODE (a # p # pad') 1 = Some [o0, o1, BASE64_PAD_CHAR, BASE64_PAD_CHAR]"
      "\<And>ys. BASE64_DECODE (o0 # o1 # BASE64_PAD_CHAR # BASE64_PAD_CHAR # ys) = Some ([a], 1)"
      using encode_decode1 [of a p pad'] by blast
    then show ?thesis using 2 1(2,3) pad
      by (intro exI [of _ "[o0, o1, BASE64_PAD_CHAR, BASE64_PAD_CHAR]"])
        (auto simp: encode_step encode_stop decode_last)
  next
    case (3 a b)
    obtain o0 o1 o2 where "BASE64_ENCODE (a # b # p # pad') 2 = Some [o0, o1, o2, BASE64_PAD_CHAR]"
      "\<And>ys. BASE64_DECODE (o0 # o1 # o2 # BASE64_PAD_CHAR # ys) = Some ([a, b], 2)"
      using encode_decode2 [of a b p pad'] by blast
    then show ?thesis using 3 1(2,3) pad
      by (intro exI [of _ "[o0, o1, o2, BASE64_PAD_CHAR]"])
        (auto simp: encode_step encode_stop decode_last)
  next
    case (4 a b c zs)
    have len: "int (length xs) = int (length zs) + 3" using 4 by simp
    then have "length zs < length xs" "BASE64_ENCODE_SIZE (int (length zs)) \<le> k - 4"
      "int (length zs) \<le> k' - 3"
      using 4 1(2,3) by simp_all
    then obtain cs where cs: "int (length cs) = BASE64_ENCODE_SIZE (int (length zs))"
      "\<And>d. base64_encode \<lparr>src = zs @ pad, ilen = int (length zs), dst = d, olen = k - 4\<rparr> =
        Some \<lparr>src = pad, ilen = 0, dst = d @ cs, olen = k - 4 - int (length cs)\<rparr>"
      "\<And>d. base64_decode \<lparr>src = cs @ ys, ilen = int (length cs), dst = d, olen = k' - 3\<rparr> =
        Some (0, \<lparr>src = ys, ilen = 0, dst = d @ zs, olen = k' - 3 - int (length zs)\<rparr>)"
      using 1(1) by blast
    obtain o0 o1 o2 o3 where
      "BASE64_ENCODE (a # b # c # zs @ pad) (int (length xs)) = Some [o0, o1, o2, o3]"
      "BASE64_DECODE (o0 # o1 # o2 # o3 # cs @ ys) = Some ([a, b, c], 3)"
      using encode_decode3 [of "int (length xs)" a b c "zs @ pad"] 4 by auto
    moreover have "0 \<le> BASE64_ENCODE_SIZE (int (length zs))" by (simp add: BASE64_ENCODE_SIZE_def)
    ultimately show ?thesis using 4 1(2,3) cs
      by (intro exI [of _ "[o0, o1, o2, o3] @ cs"])
        (auto simp: encode_step decode_step algebra_simps)
  qed
qed


section \<open>Properties\<close>

text \<open>
  C30. Encoding any bytes into a buffer of \<open>BASE64_ENCODE_SIZE\<close> characters, with one readable
  byte after the input, consumes the input and writes exactly that many characters; decoding
  them into a buffer that has just room for the original bytes returns 0 and those bytes.
\<close>

theorem base64_roundtrip:
  assumes "n = int (length xs)" "BASE64_ENCODE_SIZE n \<le> k" "n \<le> k'" "pad \<noteq> []"
  shows "\<exists>cs. int (length cs) = BASE64_ENCODE_SIZE n \<and>
     base64_encode \<lparr>src = xs @ pad, ilen = n, dst = [], olen = k\<rparr> =
       Some \<lparr>src = pad, ilen = 0, dst = cs, olen = k - BASE64_ENCODE_SIZE n\<rparr> \<and>
     base64_decode \<lparr>src = cs @ ys, ilen = int (length cs), dst = [], olen = k'\<rparr> =
       Some (0, \<lparr>src = ys, ilen = 0, dst = xs, olen = k' - n\<rparr>)"
proof -
  have "\<exists>cs. int (length cs) = BASE64_ENCODE_SIZE n \<and>
     (\<forall>d. base64_encode \<lparr>src = xs @ pad, ilen = n, dst = d, olen = k\<rparr> =
        Some \<lparr>src = pad, ilen = 0, dst = d @ cs, olen = k - int (length cs)\<rparr>) \<and>
     (\<forall>d. base64_decode \<lparr>src = cs @ ys, ilen = int (length cs), dst = d, olen = k'\<rparr> =
        Some (0, \<lparr>src = ys, ilen = 0, dst = d @ xs, olen = k' - n\<rparr>))"
    unfolding assms(1) by (rule roundtrip_aux) (use assms in auto)
  then show ?thesis by (metis append_Nil)
qed

theorem base64_roundtrip_witness:
  "\<exists>cs. length cs = 8 \<and>
     base64_encode \<lparr>src = str ''Hello'' @ [0], ilen = 5, dst = [], olen = 8\<rparr> =
       Some \<lparr>src = [0], ilen = 0, dst = cs, olen = 0\<rparr> \<and>
     base64_decode \<lparr>src = cs, ilen = 8, dst = [], olen = 5\<rparr> =
       Some (0, \<lparr>src = [], ilen = 0, dst = str ''Hello'', olen = 0\<rparr>)"
  using base64_roundtrip [of 5 "str ''Hello''" 8 5 "[0]" "[]"]
  by (auto simp: BASE64_ENCODE_SIZE_def simp del: str_Cons)

lemma BASE64_DECODE_cases:
  assumes "4 \<le> length m"
  shows "\<exists>bs r. BASE64_DECODE m = Some (bs, r) \<and> r \<le> 3 \<and> (r > 0 \<longrightarrow> length bs = nat r)"
proof -
  obtain a b c d xs where "m = a # b # c # d # xs"
    using assms by (auto simp: numeral_eq_Suc Suc_le_length_iff)
  then show ?thesis by (auto simp: BASE64_DECODE_def Let_def)
qed

text \<open>
  No call writes more than three bytes, those of a group that is refused included: the loop, which
  goes on while there is room for three, stays inside the output also where \<open>dst\<close> does not show it.
\<close>

lemma BASE64_DECODE_written: "BASE64_DECODE m = Some (bs, r) \<Longrightarrow> length bs \<le> 3"
  by (auto simp: BASE64_DECODE_def Let_def split: bind_splits if_splits)

text \<open>What a run of the decoder may do to its four arguments.\<close>

definition decode_ok :: "b64 \<Rightarrow> (int \<times> b64) option \<Rightarrow> bool" where
  "decode_ok s res \<longleftrightarrow> (\<exists>r s' bs. res = Some (r, s') \<and> r \<in> {0, -1} \<and> dst s' = dst s @ bs \<and>
     olen s' = olen s - int (length bs) \<and> (0 \<le> olen s \<longrightarrow> 0 \<le> olen s') \<and>
     ilen s' \<le> ilen s \<and> (0 \<le> ilen s \<longrightarrow> 0 \<le> ilen s') \<and>
     src s' = drop (nat (ilen s - ilen s')) (src s))"

lemma decode_rest_ok: "ilen s \<le> int (length (src s)) \<Longrightarrow> decode_ok s (base64_decode_rest s)"
  using BASE64_DECODE_cases [of "src s"]
  by (auto simp: decode_ok_def base64_decode_rest_def)

lemma decode_ok_step:
  assumes "decode_ok (s\<lparr>dst := dst s @ bs, olen := olen s - int (length bs),
                        src := drop 4 (src s), ilen := ilen s - 4\<rparr>) res"
    "4 \<le> ilen s" "3 \<le> olen s" "length bs \<le> 3"
  shows "decode_ok s res"
proof -
  from assms(1) obtain r s' cs where 1: "res = Some (r, s')" "r \<in> {0, -1}"
    "dst s' = dst s @ bs @ cs" "olen s' = olen s - int (length bs) - int (length cs)"
    "0 \<le> olen s - int (length bs) \<longrightarrow> 0 \<le> olen s'" "ilen s' \<le> ilen s - 4"
    "0 \<le> ilen s - 4 \<longrightarrow> 0 \<le> ilen s'" "src s' = drop (nat (ilen s - 4 - ilen s')) (drop 4 (src s))"
    by (auto simp: decode_ok_def)
  moreover have "nat (ilen s - ilen s') = nat (ilen s - 4 - ilen s') + 4"
    using 1(6) by simp
  ultimately show ?thesis
    using assms(2-4) by (auto simp: decode_ok_def intro!: exI [of _ "bs @ cs"])
qed

lemma decode_ok: "ilen s \<le> int (length (src s)) \<Longrightarrow> decode_ok s (base64_decode s)"
proof (induction s rule: base64_decode.induct)
  case (1 s)
  show ?case
  proof (cases "4 \<le> ilen s \<and> 3 \<le> olen s")
    case False
    with decode_rest_ok [OF 1(2)] show ?thesis by (subst base64_decode.simps) auto
  next
    case True
    with 1(2) obtain bs r where d: "BASE64_DECODE (src s) = Some (bs, r)" "r \<le> 3"
      "r > 0 \<longrightarrow> length bs = nat r"
      using BASE64_DECODE_cases [of "src s"] by auto
    let ?s = "s\<lparr>dst := dst s @ bs, olen := olen s - r, src := drop 4 (src s), ilen := ilen s - 4\<rparr>"
    consider "r \<le> 0" | "0 < r" "r < 3" | "r = 3" using d(2) by linarith
    then show ?thesis
    proof cases
      case 1
      with True d show ?thesis by (subst base64_decode.simps) (auto simp: decode_ok_def)
    next
      case 2
      then have "decode_ok ?s (Some (0, ?s))" by (simp add: decode_ok_def)
      with 2 True d show ?thesis
        using decode_ok_step [of s bs] by (subst base64_decode.simps) simp
    next
      case 3
      with True d 1(2) have "decode_ok ?s (base64_decode ?s)"
        using 1(1) [OF _ d(1)] by (simp add: Let_def)
      with 3 True d show ?thesis
        using decode_ok_step [of s bs] by (subst base64_decode.simps) simp
    qed
  qed
qed

text \<open>
  C36. The decoder is memory safe on every input, valid or not: when \<open>ilen\<close> bytes are readable
  it returns 0 or -1, never reads past them, never writes more than \<open>olen\<close> bytes, and leaves
  the four arguments consistent with what it consumed and wrote.
\<close>

theorem base64_decode_safe:
  assumes "ilen s \<le> int (length (src s))" "0 \<le> ilen s" "0 \<le> olen s"
  shows "\<exists>r s' bs. base64_decode s = Some (r, s') \<and> r \<in> {0, -1} \<and> dst s' = dst s @ bs \<and>
     int (length bs) = olen s - olen s' \<and> int (length bs) \<le> olen s \<and>
     0 \<le> ilen s' \<and> ilen s' \<le> ilen s \<and> src s' = drop (nat (ilen s - ilen s')) (src s)"
  using decode_ok [OF assms(1)] assms(2,3) by (auto simp: decode_ok_def)

theorem base64_decode_safe_witness:
  "\<exists>r s' bs. base64_decode \<lparr>src = str ''QUJDRA*='', ilen = 8, dst = [], olen = 4\<rparr> = Some (r, s') \<and>
     dst s' = bs \<and> length bs \<le> 4 \<and> ilen s' \<le> 8"
  using base64_decode_safe [of "\<lparr>src = str ''QUJDRA*='', ilen = 8, dst = [], olen = 4\<rparr>"] by auto

text \<open>
  The encoder reads the byte after its input when the length is not a multiple of three: with
  nothing readable there its behaviour is undefined.
\<close>

lemma base64_encode_overread:
  "base64_encode \<lparr>src = [x], ilen = 1, dst = [], olen = 4\<rparr> = None"
  "base64_encode \<lparr>src = [x, y], ilen = 2, dst = [], olen = 4\<rparr> = None"
proof -
  obtain o0 where o0: "at base64_charcters (unat (sextet 0 x 0)) = Some o0" by (rule sextet_char)
  obtain o1 where o1: "at base64_charcters (unat (sextet 1 x y)) = Some o1" by (rule sextet_char)
  show "base64_encode \<lparr>src = [x], ilen = 1, dst = [], olen = 4\<rparr> = None"
    using o0 by (subst base64_encode.simps) (simp add: BASE64_ENCODE_def sextet_def)
  show "base64_encode \<lparr>src = [x, y], ilen = 2, dst = [], olen = 4\<rparr> = None"
    using o0 o1 by (subst base64_encode.simps) (simp add: BASE64_ENCODE_sextets)
qed

end
