(* ===== verification/Md5.thy ===== *)
theory Md5
  imports CBase
begin

text \<open>
  The MD5 codec of codecs/md5/md5.c: the message is given in pieces, the digest is that of
  RFC 1321 for the message as a whole, whatever the pieces are.
\<close>

section \<open>The code\<close>

type_synonym md5_word = "32 word"

text \<open>The local variables \<open>a\<close> to \<open>d\<close>, and the indices 0 to 3 of the array \<open>abcd\<close>.\<close>

datatype md5_reg = Ra | Rb | Rc | Rd

type_synonym md5_regs = "md5_reg \<Rightarrow> md5_word"

record md5_state =
  count0 :: md5_word
  count1 :: md5_word
  abcd :: md5_regs
  md5_buf :: bytes

definition T_MASK :: md5_word where
  "T_MASK = NOT 0"

definition md5_T :: "md5_word list" where
  "md5_T = [
     T_MASK XOR 0x28955b87, T_MASK XOR 0x173848a9, 0x242070db, T_MASK XOR 0x3e423111,
     T_MASK XOR 0x0a83f050, 0x4787c62a, T_MASK XOR 0x57cfb9ec, T_MASK XOR 0x02b96afe,
     0x698098d8, T_MASK XOR 0x74bb0850, T_MASK XOR 0x0000a44e, T_MASK XOR 0x76a32841,
     0x6b901122, T_MASK XOR 0x02678e6c, T_MASK XOR 0x5986bc71, 0x49b40821,
     T_MASK XOR 0x09e1da9d, T_MASK XOR 0x3fbf4cbf, 0x265e5a51, T_MASK XOR 0x16493855,
     T_MASK XOR 0x29d0efa2, 0x02441453, T_MASK XOR 0x275e197e, T_MASK XOR 0x182c0437,
     0x21e1cde6, T_MASK XOR 0x3cc8f829, T_MASK XOR 0x0b2af278, 0x455a14ed,
     T_MASK XOR 0x561c16fa, T_MASK XOR 0x03105c07, 0x676f02d9, T_MASK XOR 0x72d5b375,
     T_MASK XOR 0x0005c6bd, T_MASK XOR 0x788e097e, 0x6d9d6122, T_MASK XOR 0x021ac7f3,
     T_MASK XOR 0x5b4115bb, 0x4bdecfa9, T_MASK XOR 0x0944b49f, T_MASK XOR 0x4140438f,
     0x289b7ec6, T_MASK XOR 0x155ed805, T_MASK XOR 0x2b10cf7a, 0x04881d05,
     T_MASK XOR 0x262b2fc6, T_MASK XOR 0x1924661a, 0x1fa27cf8, T_MASK XOR 0x3b53a99a,
     T_MASK XOR 0x0bd6ddbb, 0x432aff97, T_MASK XOR 0x546bdc58, T_MASK XOR 0x036c5fc6,
     0x655b59c3, T_MASK XOR 0x70f3336d, T_MASK XOR 0x00100b82, T_MASK XOR 0x7a7ba22e,
     0x6fa87e4f, T_MASK XOR 0x01d3191f, T_MASK XOR 0x5cfebceb, 0x4e0811a1,
     T_MASK XOR 0x08ac817d, T_MASK XOR 0x42c50dca, 0x2ad7d2bb, T_MASK XOR 0x14792c6e]"

definition T :: "nat \<Rightarrow> md5_word" where
  "T i = md5_T ! (i - 1)"

definition ROTATE_LEFT :: "md5_word \<Rightarrow> nat \<Rightarrow> md5_word" where
  "ROTATE_LEFT x n = push_bit n x OR drop_bit (32 - n) x"

definition md5_F :: "md5_word \<Rightarrow> md5_word \<Rightarrow> md5_word \<Rightarrow> md5_word" where
  "md5_F x y z = (x AND y) OR (NOT x AND z)"

definition md5_G :: "md5_word \<Rightarrow> md5_word \<Rightarrow> md5_word \<Rightarrow> md5_word" where
  "md5_G x y z = (x AND z) OR (y AND NOT z)"

definition md5_H :: "md5_word \<Rightarrow> md5_word \<Rightarrow> md5_word \<Rightarrow> md5_word" where
  "md5_H x y z = x XOR y XOR z"

definition md5_I :: "md5_word \<Rightarrow> md5_word \<Rightarrow> md5_word \<Rightarrow> md5_word" where
  "md5_I x y z = y XOR (x OR NOT z)"

text \<open>
  \<open>SET\<close> assigns to the variable named first. The rounds are the sixteen lines of the code each.
\<close>

type_synonym md5_instr = "md5_reg \<times> md5_reg \<times> md5_reg \<times> md5_reg \<times> nat \<times> nat \<times> md5_word"

definition SET :: "(md5_word \<Rightarrow> md5_word \<Rightarrow> md5_word \<Rightarrow> md5_word) \<Rightarrow> md5_word list \<Rightarrow> md5_instr \<Rightarrow> md5_regs \<Rightarrow> md5_regs" where
  "SET f X = (\<lambda>(a, b, c, d, k, s, Ti) v.
     let t = v a + f (v b) (v c) (v d) + X ! k + Ti in v(a := ROTATE_LEFT t s + v b))"

definition md5_round1 :: "md5_instr list" where
  "md5_round1 = [
     (Ra, Rb, Rc, Rd, 0, 7, T 1), (Rd, Ra, Rb, Rc, 1, 12, T 2),
     (Rc, Rd, Ra, Rb, 2, 17, T 3), (Rb, Rc, Rd, Ra, 3, 22, T 4),
     (Ra, Rb, Rc, Rd, 4, 7, T 5), (Rd, Ra, Rb, Rc, 5, 12, T 6),
     (Rc, Rd, Ra, Rb, 6, 17, T 7), (Rb, Rc, Rd, Ra, 7, 22, T 8),
     (Ra, Rb, Rc, Rd, 8, 7, T 9), (Rd, Ra, Rb, Rc, 9, 12, T 10),
     (Rc, Rd, Ra, Rb, 10, 17, T 11), (Rb, Rc, Rd, Ra, 11, 22, T 12),
     (Ra, Rb, Rc, Rd, 12, 7, T 13), (Rd, Ra, Rb, Rc, 13, 12, T 14),
     (Rc, Rd, Ra, Rb, 14, 17, T 15), (Rb, Rc, Rd, Ra, 15, 22, T 16)]"

definition md5_round2 :: "md5_instr list" where
  "md5_round2 = [
     (Ra, Rb, Rc, Rd, 1, 5, T 17), (Rd, Ra, Rb, Rc, 6, 9, T 18),
     (Rc, Rd, Ra, Rb, 11, 14, T 19), (Rb, Rc, Rd, Ra, 0, 20, T 20),
     (Ra, Rb, Rc, Rd, 5, 5, T 21), (Rd, Ra, Rb, Rc, 10, 9, T 22),
     (Rc, Rd, Ra, Rb, 15, 14, T 23), (Rb, Rc, Rd, Ra, 4, 20, T 24),
     (Ra, Rb, Rc, Rd, 9, 5, T 25), (Rd, Ra, Rb, Rc, 14, 9, T 26),
     (Rc, Rd, Ra, Rb, 3, 14, T 27), (Rb, Rc, Rd, Ra, 8, 20, T 28),
     (Ra, Rb, Rc, Rd, 13, 5, T 29), (Rd, Ra, Rb, Rc, 2, 9, T 30),
     (Rc, Rd, Ra, Rb, 7, 14, T 31), (Rb, Rc, Rd, Ra, 12, 20, T 32)]"

definition md5_round3 :: "md5_instr list" where
  "md5_round3 = [
     (Ra, Rb, Rc, Rd, 5, 4, T 33), (Rd, Ra, Rb, Rc, 8, 11, T 34),
     (Rc, Rd, Ra, Rb, 11, 16, T 35), (Rb, Rc, Rd, Ra, 14, 23, T 36),
     (Ra, Rb, Rc, Rd, 1, 4, T 37), (Rd, Ra, Rb, Rc, 4, 11, T 38),
     (Rc, Rd, Ra, Rb, 7, 16, T 39), (Rb, Rc, Rd, Ra, 10, 23, T 40),
     (Ra, Rb, Rc, Rd, 13, 4, T 41), (Rd, Ra, Rb, Rc, 0, 11, T 42),
     (Rc, Rd, Ra, Rb, 3, 16, T 43), (Rb, Rc, Rd, Ra, 6, 23, T 44),
     (Ra, Rb, Rc, Rd, 9, 4, T 45), (Rd, Ra, Rb, Rc, 12, 11, T 46),
     (Rc, Rd, Ra, Rb, 15, 16, T 47), (Rb, Rc, Rd, Ra, 2, 23, T 48)]"

definition md5_round4 :: "md5_instr list" where
  "md5_round4 = [
     (Ra, Rb, Rc, Rd, 0, 6, T 49), (Rd, Ra, Rb, Rc, 7, 10, T 50),
     (Rc, Rd, Ra, Rb, 14, 15, T 51), (Rb, Rc, Rd, Ra, 5, 21, T 52),
     (Ra, Rb, Rc, Rd, 12, 6, T 53), (Rd, Ra, Rb, Rc, 3, 10, T 54),
     (Rc, Rd, Ra, Rb, 10, 15, T 55), (Rb, Rc, Rd, Ra, 1, 21, T 56),
     (Ra, Rb, Rc, Rd, 8, 6, T 57), (Rd, Ra, Rb, Rc, 15, 10, T 58),
     (Rc, Rd, Ra, Rb, 6, 15, T 59), (Rb, Rc, Rd, Ra, 13, 21, T 60),
     (Ra, Rb, Rc, Rd, 4, 6, T 61), (Rd, Ra, Rb, Rc, 11, 10, T 62),
     (Rc, Rd, Ra, Rb, 2, 15, T 63), (Rb, Rc, Rd, Ra, 9, 21, T 64)]"

text \<open>The words of a block, the least significant byte first.\<close>

definition xbuf :: "bytes \<Rightarrow> md5_word list" where
  "xbuf xp = map (\<lambda>i. ucast (xp ! (4 * i)) + push_bit 8 (ucast (xp ! (4 * i + 1))) +
     push_bit 16 (ucast (xp ! (4 * i + 2))) + push_bit 24 (ucast (xp ! (4 * i + 3)))) [0..<16]"

definition md5_process :: "md5_regs \<Rightarrow> bytes \<Rightarrow> md5_regs" where
  "md5_process abcd0 data = (
     let X = xbuf data;
         v = fold (SET md5_F X) md5_round1 abcd0;
         v = fold (SET md5_G X) md5_round2 v;
         v = fold (SET md5_H X) md5_round3 v;
         v = fold (SET md5_I X) md5_round4 v
     in (\<lambda>r. abcd0 r + v r))"

definition md5_init :: "md5_state \<Rightarrow> md5_state" where
  "md5_init pms = pms\<lparr>count0 := 0, count1 := 0,
     abcd := (\<lambda>r. case r of Ra \<Rightarrow> 0x67452301 | Rb \<Rightarrow> T_MASK XOR 0x10325476 | Rc \<Rightarrow> T_MASK XOR 0x67452301
       | Rd \<Rightarrow> 0x10325476)\<rparr>"

text \<open>The loop over full blocks; what is left of the data.\<close>

fun md5_blocks :: "md5_regs \<Rightarrow> bytes \<Rightarrow> md5_regs \<times> bytes" where
  "md5_blocks v p = (if length p \<ge> 64 then md5_blocks (md5_process v (take 64 p)) (drop 64 p) else (v, p))"

declare md5_blocks.simps [simp del]

text \<open>The length of the message, with the carry from the low to the high word.\<close>

definition md5_count :: "md5_state \<Rightarrow> int \<Rightarrow> md5_state" where
  "md5_count pms nbytes = (
     let nbits = word_of_int (nbytes * 8);
         pms = pms\<lparr>count1 := count1 pms + word_of_int (nbytes div 2 ^ 29)\<rparr>;
         pms = pms\<lparr>count0 := count0 pms + nbits\<rparr>
     in if count0 pms < nbits then pms\<lparr>count1 := count1 pms + 1\<rparr> else pms)"

text \<open>\<open>memcpy (pms->buf + offset, p, copy)\<close>.\<close>

definition md5_fill :: "md5_state \<Rightarrow> nat \<Rightarrow> bytes \<Rightarrow> nat \<Rightarrow> md5_state" where
  "md5_fill pms offset p copy =
     pms\<lparr>md5_buf := take offset (md5_buf pms) @ take copy p @ drop (offset + copy) (md5_buf pms)\<rparr>"

text \<open>Full blocks, and a final partial block.\<close>

definition md5_tail :: "md5_state \<Rightarrow> bytes \<Rightarrow> md5_state" where
  "md5_tail pms p = (
     let (v, p) = md5_blocks (abcd pms) p;
         pms = pms\<lparr>abcd := v\<rparr>
     in if p \<noteq> [] then md5_fill pms 0 p (length p) else pms)"

text \<open>
  \<open>nbytes << 3\<close> is undefined when it overflows and when \<open>nbytes\<close> is negative; \<open>data\<close> are the bytes
  that can be read.
\<close>

definition md5_append :: "md5_state \<Rightarrow> bytes \<Rightarrow> int \<Rightarrow> md5_state option" where
  "md5_append pms data nbytes =
     (if nbytes < 0 \<or> nbytes * 8 \<ge> 2 ^ 31 \<or> nbytes > int (length data) then None
      else
        let p = take (nat nbytes) data;
            offset = unat (drop_bit 3 (count0 pms) AND 63) in
        if nbytes \<le> 0 then Some pms
        else
          let pms = md5_count pms nbytes in
          if offset \<noteq> 0 then
            let copy = (if offset + nat nbytes > 64 then 64 - offset else nat nbytes);
                pms = md5_fill pms offset p copy in
            if offset + copy < 64 then Some pms
            else Some (md5_tail (pms\<lparr>abcd := md5_process (abcd pms) (md5_buf pms)\<rparr>) (drop copy p))
          else Some (md5_tail pms p))"

definition md5_pad :: bytes where
  "md5_pad = 0x80 # replicate 63 0"

definition md5_length_bytes :: "md5_state \<Rightarrow> bytes" where
  "md5_length_bytes pms = map (\<lambda>i. ucast (drop_bit (8 * (i mod 4)) (if i div 4 = 0 then count0 pms else count1 pms))) [0..<8]"

definition md5_digest :: "md5_regs \<Rightarrow> bytes" where
  "md5_digest v = map (\<lambda>i. ucast (drop_bit (8 * (i mod 4)) (v ([Ra, Rb, Rc, Rd] ! (i div 4))))) [0..<16]"

definition md5_finish :: "md5_state \<Rightarrow> (md5_state \<times> bytes) option" where
  "md5_finish pms = do {
     let data = md5_length_bytes pms;
     pms \<leftarrow> md5_append pms md5_pad (uint ((55 - drop_bit 3 (count0 pms)) AND 63) + 1);
     pms \<leftarrow> md5_append pms data 8;
     Some (pms, md5_digest (abcd pms))
   }"

section \<open>RFC 1321\<close>

text \<open>Section 3.4: the table of sines, the order of the words and the shifts.\<close>

definition rfc_T :: "md5_word list" where
  "rfc_T = [
     0xd76aa478, 0xe8c7b756, 0x242070db, 0xc1bdceee, 0xf57c0faf, 0x4787c62a, 0xa8304613, 0xfd469501,
     0x698098d8, 0x8b44f7af, 0xffff5bb1, 0x895cd7be, 0x6b901122, 0xfd987193, 0xa679438e, 0x49b40821,
     0xf61e2562, 0xc040b340, 0x265e5a51, 0xe9b6c7aa, 0xd62f105d, 0x02441453, 0xd8a1e681, 0xe7d3fbc8,
     0x21e1cde6, 0xc33707d6, 0xf4d50d87, 0x455a14ed, 0xa9e3e905, 0xfcefa3f8, 0x676f02d9, 0x8d2a4c8a,
     0xfffa3942, 0x8771f681, 0x6d9d6122, 0xfde5380c, 0xa4beea44, 0x4bdecfa9, 0xf6bb4b60, 0xbebfbc70,
     0x289b7ec6, 0xeaa127fa, 0xd4ef3085, 0x04881d05, 0xd9d4d039, 0xe6db99e5, 0x1fa27cf8, 0xc4ac5665,
     0xf4292244, 0x432aff97, 0xab9423a7, 0xfc93a039, 0x655b59c3, 0x8f0ccc92, 0xffeff47d, 0x85845dd1,
     0x6fa87e4f, 0xfe2ce6e0, 0xa3014314, 0x4e0811a1, 0xf7537e82, 0xbd3af235, 0x2ad7d2bb, 0xeb86d391]"

definition rfc_k :: "nat \<Rightarrow> nat" where
  "rfc_k i = (if i < 16 then i else if i < 32 then 5 * i + 1 else if i < 48 then 3 * i + 5 else 7 * i) mod 16"

definition rfc_s :: "nat \<Rightarrow> nat" where
  "rfc_s i = [[7, 12, 17, 22], [5, 9, 14, 20], [4, 11, 16, 23], [6, 10, 15, 21]] ! (i div 16) ! (i mod 4)"

definition rfc_f :: "nat \<Rightarrow> md5_word \<Rightarrow> md5_word \<Rightarrow> md5_word \<Rightarrow> md5_word" where
  "rfc_f i x y z =
     (if i < 16 then (x AND y) OR (NOT x AND z) else if i < 32 then (x AND z) OR (y AND NOT z)
      else if i < 48 then x XOR y XOR z else y XOR (x OR NOT z))"

definition rfc_step :: "md5_word list \<Rightarrow> nat \<Rightarrow> md5_word \<times> md5_word \<times> md5_word \<times> md5_word \<Rightarrow>
    md5_word \<times> md5_word \<times> md5_word \<times> md5_word" where
  "rfc_step X i = (\<lambda>(a, b, c, d).
     (d, b + word_rotl (rfc_s i) (a + rfc_f i b c d + X ! rfc_k i + rfc_T ! i), b, c))"

text \<open>Section 2: a word from four bytes, the low-order byte first.\<close>

fun rfc_words :: "bytes \<Rightarrow> md5_word list" where
  "rfc_words (b0 # b1 # b2 # b3 # bs) =
     word_of_int (uint b0 + 256 * (uint b1 + 256 * (uint b2 + 256 * uint b3))) # rfc_words bs"
| "rfc_words _ = []"

definition rfc_block :: "bytes \<Rightarrow> md5_word \<times> md5_word \<times> md5_word \<times> md5_word \<Rightarrow>
    md5_word \<times> md5_word \<times> md5_word \<times> md5_word" where
  "rfc_block block = (\<lambda>(A, B, C, D).
     let (a, b, c, d) = fold (rfc_step (rfc_words block)) [0..<64] (A, B, C, D) in (A + a, B + b, C + c, D + d))"

fun rfc_blocks :: "bytes \<Rightarrow> md5_word \<times> md5_word \<times> md5_word \<times> md5_word \<Rightarrow>
    md5_word \<times> md5_word \<times> md5_word \<times> md5_word" where
  "rfc_blocks m st = (if length m < 64 then st else rfc_blocks (drop 64 m) (rfc_block (take 64 m) st))"

declare rfc_blocks.simps [simp del]

text \<open>Sections 3.1 and 3.2: a one bit, zeros up to 56 bytes modulo 64, the length in bits in 64 bits.\<close>

definition rfc_padded :: "bytes \<Rightarrow> bytes" where
  "rfc_padded m = m @ 0x80 # replicate (nat ((55 - int (length m)) mod 64)) 0 @
     map (\<lambda>i. word_of_int (8 * int (length m) div 256 ^ i)) [0..<8]"

definition rfc_bytes :: "md5_word \<Rightarrow> bytes" where
  "rfc_bytes w = map (\<lambda>i. word_of_int (uint w div 256 ^ i)) [0..<4]"

definition rfc_md5 :: "bytes \<Rightarrow> bytes" where
  "rfc_md5 m = (
     let (a, b, c, d) = rfc_blocks (rfc_padded m) (0x67452301, 0xefcdab89, 0x98badcfe, 0x10325476)
     in rfc_bytes a @ rfc_bytes b @ rfc_bytes c @ rfc_bytes d)"

section \<open>Equivalence\<close>

subsection \<open>Blocks\<close>

lemma ROTATE_LEFT_rotl: "0 < n \<Longrightarrow> n < 32 \<Longrightarrow> ROTATE_LEFT x n = word_rotl n x"
proof (rule bit_word_eqI)
  fix i assume n: "0 < n" "n < 32" and "i < LENGTH(32)"
  then have i: "i < 32" by simp
  show "bit (ROTATE_LEFT x n) i = bit (word_rotl n x) i"
  proof (cases "n \<le> i")
    case True
    with n i have "(i + (32 - n)) mod 32 = i - n" by (simp add: mod_if)
    moreover from True have "\<not> bit x (32 - n + i)" by (auto dest: bit_imp_le_length)
    ultimately show ?thesis using True n i
      by (simp add: ROTATE_LEFT_def bit_word_rotl_iff bit_or_iff bit_push_bit_iff bit_drop_bit_eq)
  next
    case False
    with n i have "(i + (32 - n)) mod 32 = 32 - n + i" by (subst mod_less) simp_all
    with False n i show ?thesis
      by (simp add: ROTATE_LEFT_def bit_word_rotl_iff bit_or_iff bit_push_bit_iff bit_drop_bit_eq)
  qed
qed

text \<open>The variables that stand for \<open>a\<close>, \<open>b\<close>, \<open>c\<close> and \<open>d\<close> of the RFC in step \<open>i\<close>.\<close>

fun rot :: "nat \<Rightarrow> md5_reg \<times> md5_reg \<times> md5_reg \<times> md5_reg" where
  "rot 0 = (Ra, Rb, Rc, Rd)"
| "rot (Suc i) = (let (a, b, c, d) = rot i in (d, a, b, c))"

definition view :: "nat \<Rightarrow> md5_regs \<Rightarrow> md5_word \<times> md5_word \<times> md5_word \<times> md5_word" where
  "view i v = (let (a, b, c, d) = rot i in (v a, v b, v c, v d))"

definition instr :: "nat \<Rightarrow> md5_instr" where
  "instr i = (let (a, b, c, d) = rot i in (a, b, c, d, rfc_k i, rfc_s i, rfc_T ! i))"

lemma rounds_table:
  "md5_round1 = map instr [0..<16]" "md5_round2 = map instr [16..<32]"
  "md5_round3 = map instr [32..<48]" "md5_round4 = map instr [48..<64]"
  by code_simp+

lemma rot_distinct: "rot i = (a, b, c, d) \<Longrightarrow> distinct [a, b, c, d]"
  by (induction i arbitrary: a b c d) (auto simp: Let_def split: prod.splits)

lemma rfc_s_range: "i < 64 \<Longrightarrow> 0 < rfc_s i \<and> rfc_s i < 32"
proof -
  have "\<forall>i \<in> set [0..<64]. 0 < rfc_s i \<and> rfc_s i < 32" by code_simp
  then show "i < 64 \<Longrightarrow> ?thesis" by simp
qed

lemma view_step:
  assumes i: "i < 64" and f: "f = rfc_f i"
  shows "view (Suc i) (SET f X (instr i) v) = rfc_step X i (view i v)"
proof -
  obtain a b c d where r: "rot i = (a, b, c, d)" by (cases "rot i") auto
  then show ?thesis using rot_distinct [OF r] rfc_s_range [OF i]
    by (auto simp: view_def SET_def instr_def rfc_step_def f Let_def ROTATE_LEFT_rotl add.commute)
qed

lemma view_fold:
  "m \<le> n \<Longrightarrow> n \<le> 64 \<Longrightarrow> \<forall>i. m \<le> i \<and> i < n \<longrightarrow> f = rfc_f i \<Longrightarrow>
   view n (fold (SET f X) (map instr [m..<n]) v) = fold (rfc_step X) [m..<n] (view m v)"
  by (induction n) (auto simp: le_Suc_eq view_step)

lemma rfc_f_rounds: "i < 16 \<Longrightarrow> rfc_f i = md5_F" "16 \<le> i \<Longrightarrow> i < 32 \<Longrightarrow> rfc_f i = md5_G"
  "32 \<le> i \<Longrightarrow> i < 48 \<Longrightarrow> rfc_f i = md5_H" "48 \<le> i \<Longrightarrow> rfc_f i = md5_I"
  by (auto simp: fun_eq_iff rfc_f_def md5_F_def md5_G_def md5_H_def md5_I_def)

lemma list_64: "length bs = 4 * n \<Longrightarrow> rfc_words bs = map (\<lambda>i. word_of_int (uint (bs ! (4 * i)) + 256 * (uint (bs ! (4 * i + 1)) +
    256 * (uint (bs ! (4 * i + 2)) + 256 * uint (bs ! (4 * i + 3)))))) [0..<n]"
proof (induction n arbitrary: bs)
  case (Suc n)
  have "length bs = Suc (Suc (Suc (Suc (4 * n))))" using Suc.prems by simp
  then obtain b0 b1 b2 b3 cs where bs: "bs = b0 # b1 # b2 # b3 # cs" "length cs = 4 * n"
    unfolding length_Suc_conv by blast
  have "rfc_words cs = map (\<lambda>i. word_of_int (uint (cs ! (4 * i)) + 256 * (uint (cs ! (4 * i + 1)) +
    256 * (uint (cs ! (4 * i + 2)) + 256 * uint (cs ! (4 * i + 3)))))) [0..<n]" by (rule Suc.IH [OF bs(2)])
  then show ?case by (simp add: bs(1) upt_conv_Cons map_Suc_upt [symmetric] comp_def add.commute del: upt_Suc)
qed simp

lemma word_bytes:
  "word_of_int (uint (b0 :: byte) + 256 * (uint (b1 :: byte) + 256 * (uint (b2 :: byte) + 256 * uint (b3 :: byte)))) =
   (ucast b0 + push_bit 8 (ucast b1) + push_bit 16 (ucast b2) + push_bit 24 (ucast b3) :: md5_word)"
  by (simp add: push_bit_eq_mult algebra_simps)

lemma xbuf_words: "length bs = 64 \<Longrightarrow> xbuf bs = rfc_words bs"
proof -
  assume "length bs = 64"
  then have "length bs = 4 * 16" by simp
  from list_64 [OF this] show ?thesis by (simp only: xbuf_def word_bytes)
qed

lemma md5_process_view: "length bs = 64 \<Longrightarrow> view 0 (md5_process v bs) = rfc_block bs (view 0 v)"
proof -
  assume l: "length bs = 64"
  define X where "X = rfc_words bs"
  define w where "w = fold (SET md5_I X) md5_round4 (fold (SET md5_H X) md5_round3
    (fold (SET md5_G X) md5_round2 (fold (SET md5_F X) md5_round1 v)))"
  have r: "view 16 (fold (SET md5_F X) (map instr [0..<16]) u) = fold (rfc_step X) [0..<16] (view 0 u)"
    "view 32 (fold (SET md5_G X) (map instr [16..<32]) u) = fold (rfc_step X) [16..<32] (view 16 u)"
    "view 48 (fold (SET md5_H X) (map instr [32..<48]) u) = fold (rfc_step X) [32..<48] (view 32 u)"
    "view 64 (fold (SET md5_I X) (map instr [48..<64]) u) = fold (rfc_step X) [48..<64] (view 48 u)" for u
    by (rule view_fold; simp add: rfc_f_rounds)+
  have "view 64 w = fold (rfc_step X) [48..<64] (fold (rfc_step X) [32..<48]
      (fold (rfc_step X) [16..<32] (fold (rfc_step X) [0..<16] (view 0 v))))"
    unfolding w_def rounds_table by (simp only: r)
  also have "\<dots> = fold (rfc_step X) ([0..<16] @ [16..<32] @ [32..<48] @ [48..<64]) (view 0 v)"
    by (simp only: fold_append comp_apply)
  also have "[0..<16] @ [16..<32] @ [32..<48] @ [48..<64] = [0..<64 :: nat]"
    by code_simp
  finally have w: "view 64 w = fold (rfc_step X) [0..<64] (view 0 v)" .
  have "rot 64 = rot 0" by code_simp
  then have "view 64 w = (w Ra, w Rb, w Rc, w Rd)" by (simp add: view_def)
  with w show ?thesis
    by (simp add: md5_process_def xbuf_words [OF l] X_def [symmetric] w_def [symmetric] rfc_block_def view_def Let_def)
qed

subsection \<open>Pieces\<close>

text \<open>What is left of a message behind its full blocks.\<close>

definition rest :: "bytes \<Rightarrow> bytes" where
  "rest m = drop (64 * (length m div 64)) m"

lemma length_rest: "length (rest m) = length m mod 64"
  by (simp add: rest_def minus_mult_div_eq_mod)

lemma rest_short: "length m < 64 \<Longrightarrow> rest m = m"
  by (simp add: rest_def)

lemma rest_drop: "64 \<le> length m \<Longrightarrow> rest (drop 64 m) = rest m"
proof -
  assume "64 \<le> length m"
  then have "length m div 64 = Suc ((length m - 64) div 64)" using le_div_geq [of 64] by simp
  then show ?thesis by (simp add: rest_def add.commute)
qed

lemma rest_append: "rest (m @ d) = rest (rest m @ d)"
proof (induction "length m" arbitrary: m rule: less_induct)
  case less
  show ?case
  proof (cases "length m < 64")
    case False
    then have "rest (m @ d) = rest (drop 64 m @ d)" using rest_drop [of "m @ d"] by simp
    also have "\<dots> = rest (rest m @ d)" using less.hyps [of "drop 64 m"] False rest_drop [of m] by simp
    finally show ?thesis .
  qed (simp add: rest_short)
qed

lemma rfc_blocks_short: "length m < 64 \<Longrightarrow> rfc_blocks m st = st"
  by (simp add: rfc_blocks.simps)

lemma rfc_blocks_block: "64 \<le> length m \<Longrightarrow> rfc_blocks m st = rfc_blocks (drop 64 m) (rfc_block (take 64 m) st)"
  by (simp add: rfc_blocks.simps [of m])

lemma rfc_blocks_append: "rfc_blocks (m @ d) st = rfc_blocks (rest m @ d) (rfc_blocks m st)"
proof (induction "length m" arbitrary: m st rule: less_induct)
  case less
  show ?case
  proof (cases "length m < 64")
    case False
    then show ?thesis
      using less.hyps [of "drop 64 m"] rest_drop [of m] by (simp add: rfc_blocks_block [of m] rfc_blocks_block [of "m @ d"])
  qed (simp add: rest_short rfc_blocks_short)
qed

lemma md5_blocks_view: "md5_blocks v p = (w, r) \<Longrightarrow> view 0 w = rfc_blocks p (view 0 v) \<and> r = rest p"
proof (induction v p rule: md5_blocks.induct)
  case (1 v p)
  show ?case
  proof (cases "64 \<le> length p")
    case True
    with 1 have "view 0 w = rfc_blocks (drop 64 p) (view 0 (md5_process v (take 64 p))) \<and> r = rest (drop 64 p)"
      by (simp add: md5_blocks.simps [of v p])
    with True show ?thesis by (simp add: md5_process_view rfc_blocks_block [of p] rest_drop)
  next
    case False
    with 1(2) show ?thesis by (simp add: md5_blocks.simps [of v p] rest_short rfc_blocks_short)
  qed
qed

text \<open>The counters hold the length in bits modulo \<open>2 ^ 64\<close>.\<close>

lemma count_offset: "unat (drop_bit 3 (of_nat (8 * n) :: md5_word) AND 63) = n mod 64"
proof -
  have "drop_bit 3 (of_nat (8 * n) :: md5_word) AND 63 = take_bit 6 (drop_bit 3 (of_nat (8 * n)))"
    by (simp add: take_bit_eq_mask mask_eq_exp_minus_1)
  also have "unat \<dots> = (8 * n mod 2 ^ 32) div 8 mod 64"
    by (simp only: take_bit_eq_mod drop_bit_eq_div unat_mod unat_div unat_of_nat) simp
  also have "\<dots> = n mod 64"
  proof -
    have "8 * n mod 2 ^ 32 = 8 * (n mod 2 ^ 29)" by (simp add: mult_mod_right)
    then show ?thesis by (simp add: mod_mod_cancel)
  qed
  finally show ?thesis .
qed

lemma count_carry:
  "(B :: nat) < 2 ^ 32 \<Longrightarrow> (A + B) div 2 ^ 32 = A div 2 ^ 32 + (if (A + B) mod 2 ^ 32 < B then 1 else 0)"
proof -
  assume B: "B < 2 ^ 32"
  define q r where "q = A div 2 ^ 32" and "r = A mod 2 ^ 32"
  have A: "A = q * 2 ^ 32 + r" "r < 2 ^ 32" by (simp_all add: q_def r_def)
  show ?thesis
  proof (cases "r + B < 2 ^ 32")
    case True
    then show ?thesis using A by (simp add: add.assoc)
  next
    case False
    then have "A + B = (q + 1) * 2 ^ 32 + (r + B - 2 ^ 32)" "r + B - 2 ^ 32 < 2 ^ 32" "r + B - 2 ^ 32 < B"
      using A B by auto
    moreover from this have "(A + B) mod 2 ^ 32 = r + B - 2 ^ 32" "(A + B) div 2 ^ 32 = q + 1"
      by (simp_all only: mod_mult_self3 div_mult_self3) simp_all
    ultimately show ?thesis by (simp add: q_def)
  qed
qed

definition md5_init_words :: "md5_word \<times> md5_word \<times> md5_word \<times> md5_word" where
  "md5_init_words = (0x67452301, 0xefcdab89, 0x98badcfe, 0x10325476)"

text \<open>The state after the message \<open>m\<close>.\<close>

definition md5_absorbed :: "md5_state \<Rightarrow> bytes \<Rightarrow> bool" where
  "md5_absorbed pms m \<longleftrightarrow> length (md5_buf pms) = 64 \<and>
     count0 pms = of_nat (8 * length m) \<and> count1 pms = of_nat (8 * length m div 2 ^ 32) \<and>
     view 0 (abcd pms) = rfc_blocks m md5_init_words \<and> take (length m mod 64) (md5_buf pms) = rest m"

lemma md5_init_absorbed: "length (md5_buf pms) = 64 \<Longrightarrow> md5_absorbed (md5_init pms) []"
  by (simp add: md5_absorbed_def md5_init_def view_def md5_init_words_def rfc_blocks_short rest_short T_MASK_def)

lemma count_append:
  fixes n k :: nat
  assumes "k < 2 ^ 28"
  defines "c \<equiv> (of_nat (8 * n) :: md5_word) + word_of_int (int k * 8)"
  shows "c = of_nat (8 * (n + k))"
    and "of_nat (8 * n div 2 ^ 32) + word_of_int (int k div 2 ^ 29) + (if c < word_of_int (int k * 8) then 1 else 0) =
      (of_nat (8 * (n + k) div 2 ^ 32) :: md5_word)"
proof -
  have i: "word_of_int (int k * 8) = (of_nat (8 * k) :: md5_word)" by (simp add: mult.commute)
  show c: "c = of_nat (8 * (n + k))" unfolding c_def i by (simp add: algebra_simps)
  have k: "8 * k < 2 ^ 32" using assms(1) by simp
  have "unat c = (8 * n + 8 * k) mod 2 ^ 32" unfolding c distrib_left unat_of_nat by simp
  moreover have "unat (of_nat (8 * k) :: md5_word) = 8 * k" unfolding unat_of_nat by (rule mod_less) (use k in simp)
  ultimately have "c < word_of_int (int k * 8) \<longleftrightarrow> (8 * n + 8 * k) mod 2 ^ 32 < 8 * k"
    unfolding i word_less_nat_alt by (simp only:)
  moreover have "8 * (n + k) div 2 ^ 32 = 8 * n div 2 ^ 32 + (if (8 * n + 8 * k) mod 2 ^ 32 < 8 * k then 1 else 0)"
    unfolding distrib_left by (rule count_carry [OF k])
  moreover have "int k div 2 ^ 29 = 0" using assms(1) by simp
  ultimately show "of_nat (8 * n div 2 ^ 32) + word_of_int (int k div 2 ^ 29) +
      (if c < word_of_int (int k * 8) then 1 else 0) = (of_nat (8 * (n + k) div 2 ^ 32) :: md5_word)"
    by (simp only: of_int_0 of_nat_add if_distrib [of of_nat] of_nat_1 semiring_1_class.of_nat_0 add_0_right)
qed

lemma md5_count_eq:
  assumes "count0 pms = of_nat (8 * n)" "count1 pms = of_nat (8 * n div 2 ^ 32)" "k < 2 ^ 28"
  shows "md5_count pms (int k) = pms\<lparr>count1 := of_nat (8 * (n + k) div 2 ^ 32), count0 := of_nat (8 * (n + k))\<rparr>"
  unfolding md5_count_def Let_def
  using count_append [OF assms(3), of n] assms(1,2) by (auto simp: split: if_splits)

lemma md5_tail_absorbed:
  assumes "length (md5_buf pms) = 64"
  shows "view 0 (abcd (md5_tail pms p)) = rfc_blocks p (view 0 (abcd pms))"
    "length (md5_buf (md5_tail pms p)) = 64" "take (length p mod 64) (md5_buf (md5_tail pms p)) = rest p"
    "count0 (md5_tail pms p) = count0 pms" "count1 (md5_tail pms p) = count1 pms"
proof -
  obtain w q where b: "md5_blocks (abcd pms) p = (w, q)" by (cases "md5_blocks (abcd pms) p") auto
  from md5_blocks_view [OF this] have q: "view 0 w = rfc_blocks p (view 0 (abcd pms))" "q = rest p" by simp_all
  have l: "length p mod 64 = length q" "length q < 64" by (simp_all add: q(2) length_rest)
  show "view 0 (abcd (md5_tail pms p)) = rfc_blocks p (view 0 (abcd pms))"
    "length (md5_buf (md5_tail pms p)) = 64" "take (length p mod 64) (md5_buf (md5_tail pms p)) = rest p"
    "count0 (md5_tail pms p) = count0 pms" "count1 (md5_tail pms p) = count1 pms"
    using assms q l by (simp_all add: md5_tail_def b md5_fill_def Let_def)
qed

lemma md5_append_absorbed:
  assumes a: "md5_absorbed pms m" and l: "length d < 2 ^ 28"
  shows "\<exists>pms'. md5_append pms (d @ e) (int (length d)) = Some pms' \<and> md5_absorbed pms' (m @ d)"
proof (cases "d = []")
  case True
  with a show ?thesis by (simp add: md5_append_def)
next
  case False
  define n where "n = length m"
  define off where "off = n mod 64"
  have A: "length (md5_buf pms) = 64" "count0 pms = of_nat (8 * n)" "count1 pms = of_nat (8 * n div 2 ^ 32)"
    "view 0 (abcd pms) = rfc_blocks m md5_init_words" "take off (md5_buf pms) = rest m"
    using a by (simp_all add: md5_absorbed_def n_def off_def)
  have off: "unat (drop_bit 3 (count0 pms) AND 63) = off" by (simp only: A(2) count_offset off_def)
  have off': "off < 64" "length (rest m) = off" by (simp_all add: off_def length_rest n_def)
  define P where "P = md5_count pms (int (length d))"
  have P: "P = pms\<lparr>count1 := of_nat (8 * (n + length d) div 2 ^ 32), count0 := of_nat (8 * (n + length d))\<rparr>"
    unfolding P_def by (rule md5_count_eq [OF A(2,3) l])
  have mod: "length (m @ d) mod 64 = (off + length d) mod 64" by (simp add: off_def n_def mod_add_left_eq)
  have bl: "rfc_blocks (m @ d) md5_init_words = rfc_blocks (rest m @ d) (view 0 (abcd pms))"
    unfolding A(4) by (rule rfc_blocks_append)
  have abs: "md5_absorbed Q (m @ d)"
    if "length (md5_buf Q) = 64" "count0 Q = count0 P" "count1 Q = count1 P"
      "view 0 (abcd Q) = rfc_blocks (rest m @ d) (view 0 (abcd pms))"
      "take ((off + length d) mod 64) (md5_buf Q) = rest (rest m @ d)" for Q
    unfolding md5_absorbed_def mod bl rest_append [of m] using that by (simp add: P n_def)
  have len: "\<not> (int (length d) < 0 \<or> int (length d) * 8 \<ge> 2 ^ 31 \<or> int (length d) > int (length (d @ e)))"
    "\<not> int (length d) \<le> 0" using l False by auto
  define copy where "copy = (if off + length d > 64 then 64 - off else length d)"
  define Q where "Q = md5_fill P off d copy"
  have ap: "md5_append pms (d @ e) (int (length d)) = Some (
      if off \<noteq> 0 then if off + copy < 64 then Q
        else md5_tail (Q\<lparr>abcd := md5_process (abcd Q) (md5_buf Q)\<rparr>) (drop copy d)
      else md5_tail P d)"
    unfolding md5_append_def using len by (simp add: Let_def off P_def [symmetric] copy_def Q_def)
  have copy: "copy \<le> length d" "off + copy \<le> 64" using off'(1) by (auto simp: copy_def)
  have Q: "length (md5_buf Q) = 64" "take (off + copy) (md5_buf Q) = rest m @ take copy d" "abcd Q = abcd pms"
    "count0 Q = count0 P" "count1 Q = count1 P"
    using A(1,5) off' copy by (simp_all add: Q_def md5_fill_def P)
  consider "off = 0" | "off \<noteq> 0" "off + length d < 64" | "off \<noteq> 0" "64 \<le> off + length d" by linarith
  then show ?thesis
  proof cases
    case 1
    with off' md5_tail_absorbed [of P d] A(1) show ?thesis by (auto simp: ap P intro!: abs)
  next
    case 2
    then have "copy = length d" by (simp add: copy_def)
    with 2 Q off' show ?thesis by (auto simp: ap rfc_blocks_short rest_short intro!: abs)
  next
    case 3
    then have c: "copy = 64 - off" "off + copy = 64" using off' by (auto simp: copy_def)
    define R where "R = Q\<lparr>abcd := md5_process (abcd Q) (md5_buf Q)\<rparr>"
    have b: "md5_buf Q = take 64 (rest m @ d)" "drop copy d = drop 64 (rest m @ d)"
      using Q(1,2) off' c by simp_all
    have R: "view 0 (abcd R) = rfc_block (take 64 (rest m @ d)) (view 0 (abcd pms))" "length (md5_buf R) = 64"
      "count0 R = count0 P" "count1 R = count1 P"
      unfolding R_def using md5_process_view [OF Q(1)] Q b(1) by simp_all
    have "off + length d = length (drop copy d) + 64" using 3 c off' copy by simp
    then have md: "(off + length d) mod 64 = length (drop copy d) mod 64" by simp
    have l64: "64 \<le> length (rest m @ d)" using 3 off' by simp
    note t = md5_tail_absorbed [OF R(2), of "drop copy d"]
    have "md5_absorbed (md5_tail R (drop copy d)) (m @ d)"
      by (rule abs) (simp_all only: t md R rfc_blocks_block [OF l64] b(2) [symmetric] rest_drop [OF l64, symmetric])
    moreover have "md5_append pms (d @ e) (int (length d)) = Some (md5_tail R (drop copy d))"
      using 3(1) c(2) by (simp add: ap R_def)
    ultimately show ?thesis by blast
  qed
qed

subsection \<open>The digest\<close>

lemma byte_of_int:
  "j < 4 \<Longrightarrow> ucast (drop_bit (8 * j) (word_of_int A :: md5_word)) = (word_of_int (drop_bit (8 * j) A) :: byte)"
  by (rule bit_word_eqI) (auto simp: bit_simps bit_word_of_int_iff)

lemma drop_bytes: "A div 256 ^ i = drop_bit (8 * i) (A :: int)"
  by (simp add: drop_bit_eq_div power_mult)

lemma md5_digest_view:
  "view 0 v = (a, b, c, d) \<Longrightarrow> md5_digest v = rfc_bytes a @ rfc_bytes b @ rfc_bytes c @ rfc_bytes d"
proof -
  have "map (\<lambda>j. ucast (drop_bit (8 * j) w)) [0..<4] = rfc_bytes w" for w
    unfolding rfc_bytes_def drop_bytes by (rule map_cong) (auto simp: byte_of_int [symmetric])
  moreover have "md5_digest v = concat (map (\<lambda>r. map (\<lambda>j. ucast (drop_bit (8 * j) (v r))) [0..<4]) [Ra, Rb, Rc, Rd])"
    by (simp add: md5_digest_def upt_rec)
  ultimately show "view 0 v = (a, b, c, d) \<Longrightarrow> ?thesis" by (simp add: view_def)
qed

lemma md5_length_bytes_eq:
  assumes "md5_absorbed pms m"
  shows "md5_length_bytes pms = map (\<lambda>i. word_of_int (8 * int (length m) div 256 ^ i)) [0..<8]"
proof -
  define A where "A = 8 * int (length m)"
  have i: "A = int (8 * length m)" "drop_bit 32 A = int (8 * length m div 2 ^ 32)"
    by (simp_all add: A_def drop_bit_eq_div zdiv_int)
  have c: "count0 pms = word_of_int A" "count1 pms = word_of_int (drop_bit 32 A)"
    unfolding i(2) of_int_of_nat_eq using assms by (simp_all only: md5_absorbed_def i(1) of_int_of_nat_eq)
  have "ucast (drop_bit (8 * (i mod 4)) (if i div 4 = 0 then count0 pms else count1 pms)) =
      (word_of_int (A div 256 ^ i) :: byte)" if "i < 8" for i
  proof (cases "i < 4")
    case True
    then show ?thesis by (simp add: c(1) byte_of_int drop_bytes)
  next
    case False
    then have i: "i mod 4 = i - 4" "i div 4 \<noteq> 0" "8 * (i - 4) + 32 = 8 * i" using that by (auto simp: mod_if)
    have "ucast (drop_bit (8 * (i - 4)) (word_of_int (drop_bit 32 A) :: md5_word)) =
        (word_of_int (drop_bit (8 * (i - 4)) (drop_bit 32 A)) :: byte)"
      by (rule byte_of_int) (use that in arith)
    then show ?thesis using i by (simp add: c(2) drop_bytes drop_bit_drop_bit)
  qed
  then show ?thesis unfolding md5_length_bytes_def A_def [symmetric] by simp
qed

lemma md5_pad_eq:
  assumes "md5_absorbed pms m"
  defines "k \<equiv> nat ((55 - int (length m)) mod 64)"
  shows "uint ((55 - drop_bit 3 (count0 pms)) AND 63) + 1 = int (Suc k)" "take (Suc k) md5_pad = 0x80 # replicate k 0"
proof -
  define d where "d = drop_bit 3 (count0 pms)"
  have m: "uint (w AND 63) = uint w mod 64" for w :: md5_word
  proof -
    have "w AND 63 = w mod 64" by (simp add: take_bit_eq_mask mask_eq_exp_minus_1 flip: take_bit_eq_mod [of 6 w, simplified])
    then show ?thesis by (simp add: uint_mod)
  qed
  have "unat (d AND 63) = length m mod 64"
    unfolding d_def using assms count_offset [of "length m"] by (simp only: md5_absorbed_def)
  then have "uint (d AND 63) = int (length m) mod 64" by (simp add: uint_nat zmod_int)
  then have d: "uint d mod 64 = int (length m) mod 64" by (simp only: m)
  have "uint ((55 - d) AND 63) = (55 - uint d) mod 64"
    unfolding m by (simp add: uint_word_ariths mod_mod_cancel)
  also have "\<dots> = (55 - int (length m)) mod 64" using d by (metis mod_diff_right_eq)
  finally show "uint ((55 - drop_bit 3 (count0 pms)) AND 63) + 1 = int (Suc k)" by (simp add: d_def k_def)
  have "k < 64" unfolding k_def by (simp add: nat_less_iff)
  then show "take (Suc k) md5_pad = 0x80 # replicate k 0" by (simp add: md5_pad_def)
qed

lemma md5_finish_rfc:
  assumes "md5_absorbed pms m"
  shows "\<exists>pms'. md5_finish pms = Some (pms', rfc_md5 m)"
proof -
  define k where "k = nat ((55 - int (length m)) mod 64)"
  define P L where "P = 0x80 # replicate k (0 :: byte)" and "L = md5_length_bytes pms"
  note pad = md5_pad_eq [OF assms, folded k_def]
  have k: "k < 64" unfolding k_def by (simp add: nat_less_iff)
  have "md5_pad = P @ drop (Suc k) md5_pad" using append_take_drop_id [of "Suc k" md5_pad] pad(2) by (simp add: P_def)
  then obtain p1 where p1: "md5_append pms md5_pad (int (length P)) = Some p1" "md5_absorbed p1 (m @ P)"
    using md5_append_absorbed [OF assms, of P "drop (Suc k) md5_pad"] k by (auto simp: P_def)
  have LL: "length L = 8" by (simp add: L_def md5_length_bytes_def)
  then obtain p2 where p2: "md5_append p1 L 8 = Some p2" "md5_absorbed p2 ((m @ P) @ L)"
    using md5_append_absorbed [OF p1(2), of L "[]"] by auto
  have m: "(m @ P) @ L = rfc_padded m"
    by (simp add: rfc_padded_def P_def L_def k_def md5_length_bytes_eq [OF assms])
  obtain a b c d where v: "view 0 (abcd p2) = (a, b, c, d)" by (cases "view 0 (abcd p2)") auto
  have "md5_digest (abcd p2) = rfc_md5 m"
  proof -
    have "rfc_blocks (rfc_padded m) md5_init_words = (a, b, c, d)" using p2(2) v by (simp only: m md5_absorbed_def)
    then show ?thesis by (simp add: md5_digest_view [OF v] rfc_md5_def md5_init_words_def)
  qed
  moreover have "int (length P) = uint ((55 - drop_bit 3 (count0 pms)) AND 63) + 1" by (simp add: pad(1) P_def)
  ultimately show ?thesis using p1(1) p2(1) by (simp add: md5_finish_def L_def Let_def)
qed

subsection \<open>Any pieces\<close>

text \<open>The calls that give the pieces of a message one after the other.\<close>

fun md5_append_all :: "bytes list \<Rightarrow> md5_state \<Rightarrow> md5_state option" where
  "md5_append_all [] pms = Some pms"
| "md5_append_all (d # ds) pms = do { pms \<leftarrow> md5_append pms d (int (length d)); md5_append_all ds pms }"

lemma md5_append_all_absorbed:
  "md5_absorbed pms m \<Longrightarrow> \<forall>d \<in> set ds. length d < 2 ^ 28 \<Longrightarrow>
     \<exists>pms'. md5_append_all ds pms = Some pms' \<and> md5_absorbed pms' (m @ concat ds)"
proof (induction ds arbitrary: pms m)
  case (Cons d ds)
  then obtain p1 where "md5_append pms d (int (length d)) = Some p1" "md5_absorbed p1 (m @ d)"
    using md5_append_absorbed [OF Cons.prems(1), of d "[]"] by auto
  with Cons.IH [of p1 "m @ d"] Cons.prems(2) show ?case by auto
qed simp

text \<open>
  C24. The digest of a message given in any pieces of less than \<open>2 ^ 28\<close> bytes, of any length in all,
  is the one that RFC 1321 defines for the whole message, whatever the buffer held before.
\<close>

theorem md5_rfc1321:
  assumes "length (md5_buf pms) = 64" "\<forall>d \<in> set ds. length d < 2 ^ 28"
  shows "\<exists>p1 p2. md5_append_all ds (md5_init pms) = Some p1 \<and> md5_finish p1 = Some (p2, rfc_md5 (concat ds))"
  using md5_append_all_absorbed [OF md5_init_absorbed [OF assms(1)] assms(2)] md5_finish_rfc by fastforce

theorem md5_rfc1321_witness:
  "\<exists>p1 p2. md5_append_all [str ''ab'', [], str ''c'']
      (md5_init \<lparr>count0 = 1, count1 = 2, abcd = (\<lambda>_. 3), md5_buf = replicate 64 4\<rparr>) = Some p1 \<and>
    md5_finish p1 = Some (p2, rfc_md5 (str ''abc''))"
  using md5_rfc1321 [of "\<lparr>count0 = 1, count1 = 2, abcd = (\<lambda>_. 3), md5_buf = replicate 64 4\<rparr>"
      "[str ''ab'', [], str ''c'']"] by simp

end
