(* ===== verification/BaseEpoll.thy ===== *)
theory BaseEpoll
  imports CBase
begin

text \<open>
  The event loop of libs/base_epoll/base_epoll.c: a table of elements indexed by descriptor, kept
  beside the kernel's list of descriptors by \<open>epoll_ctl\<close>, and the dispatch of events to callbacks.
  What the kernel answers is a parameter; the calls of \<open>epoll_ctl\<close> are recorded with the answers.
  The limits and the table of events are global variables that all loops share, and the last one made
  sets them.
\<close>

section \<open>The table\<close>

datatype ctl_op = EPOLL_CTL_ADD | EPOLL_CTL_MOD | EPOLL_CTL_DEL

definition EPOLLIN :: "32 word" where "EPOLLIN = 0x001"

definition EPOLLOUT :: "32 word" where "EPOLLOUT = 0x004"

definition EPOLLERR :: "32 word" where "EPOLLERR = 0x008"

definition EPOLLHUP :: "32 word" where "EPOLLHUP = 0x010"

definition EPOLLRDHUP :: "32 word" where "EPOLLRDHUP = 0x2000"

definition EPOLLET :: "32 word" where "EPOLLET = 0x80000000"

text \<open>A callback and the user's data are pointers, 0 for \<open>NULL\<close>.\<close>

record epoll_event_element =
  e_fd :: int
  e_write :: nat
  e_read :: nat
  e_close :: nat
  e_data :: nat
  e_events :: "32 word"
  e_cur_event :: "32 word"

record base_epoll =
  ep_table :: "epoll_event_element list"
  ep_timeout :: int
  ep_fd :: int
  ep_ctl :: "(ctl_op \<times> int \<times> 32 word \<times> int) list"

text \<open>The globals. The table of events is \<open>NULL\<close>, allocated or freed.\<close>

datatype events_table = NoEvents | Events | FreedEvents

record epoll_globals =
  EPOLL_MAX_EVENT :: int
  EPOLL_MAX_SESSION :: int
  EPOLL_EVENTS :: events_table

definition globals_start :: epoll_globals where
  "globals_start = \<lparr>EPOLL_MAX_EVENT = 0, EPOLL_MAX_SESSION = 0, EPOLL_EVENTS = NoEvents\<rparr>"

definition free_element :: epoll_event_element where
  "free_element = \<lparr>e_fd = -1, e_write = 0, e_read = 0, e_close = 0, e_data = 0, e_events = 0, e_cur_event = 0\<rparr>"

definition epoll_ctl :: "int \<Rightarrow> ctl_op \<Rightarrow> int \<Rightarrow> 32 word \<Rightarrow> base_epoll \<Rightarrow> base_epoll" where
  "epoll_ctl ans op fd ev b = b\<lparr>ep_ctl := ep_ctl b @ [(op, fd, ev, ans)]\<rparr>"

text \<open>
  \<open>epoll\<close> is the descriptor that \<open>epoll_create\<close> returns, \<open>ans\<close> the answer to its registration with
  itself; \<open>mem\<close>, \<open>mem'\<close> and \<open>mem''\<close> tell whether there is memory for the loop, its table and the events.
\<close>

definition epoll_base_new ::
    "bool \<Rightarrow> bool \<Rightarrow> bool \<Rightarrow> int \<Rightarrow> int \<Rightarrow> int \<Rightarrow> int \<Rightarrow> int \<Rightarrow> epoll_globals \<Rightarrow> base_epoll option \<times> epoll_globals" where
  "epoll_base_new mem mem' mem'' epoll ans max_session max_event timeout g =
     (if \<not> mem \<or> \<not> mem' then (None, g)
      else (Some (epoll_ctl ans EPOLL_CTL_ADD epoll (EPOLLIN OR EPOLLOUT OR EPOLLET)
          \<lparr>ep_table = replicate (nat max_session) free_element, ep_timeout = timeout, ep_fd = epoll, ep_ctl = []\<rparr>),
        g\<lparr>EPOLL_MAX_EVENT := max_event, EPOLL_MAX_SESSION := max_session,
          EPOLL_EVENTS := if mem'' then Events else NoEvents\<rparr>))"

text \<open>The loop is freed, and with it the events that all loops use; freeing them again is undefined.\<close>

definition epoll_base_delete :: "epoll_globals \<Rightarrow> epoll_globals option" where
  "epoll_base_delete g =
     (case EPOLL_EVENTS g of
        NoEvents \<Rightarrow> Some g
      | Events \<Rightarrow> Some (g\<lparr>EPOLL_EVENTS := FreedEvents\<rparr>)
      | FreedEvents \<Rightarrow> None)"

definition epoll_element_new :: "int \<Rightarrow> epoll_event_element \<Rightarrow> 32 word \<Rightarrow> epoll_event_element option" where
  "epoll_element_new fd elem events =
     (if e_fd elem < 0 then Some (elem\<lparr>e_fd := fd, e_events := events\<rparr>) else None)"

text \<open>
  The return value, the index of the element that \<open>poll_element\<close> is set to, and the loop; outside
  the table \<open>None\<close>.
\<close>

definition epoll_event_add :: "int \<Rightarrow> epoll_globals \<Rightarrow> base_epoll \<Rightarrow> int \<Rightarrow> 32 word \<Rightarrow> (int \<times> nat option \<times> base_epoll) option" where
  "epoll_event_add ans g b fd flags =
     (if fd \<ge> EPOLL_MAX_SESSION g \<or> fd < 0 then Some (-1, None, b)
      else do {
        elem \<leftarrow> at (ep_table b) (nat fd);
        if e_fd elem \<ge> 0 then do {
          let elem = elem\<lparr>e_events := e_events elem OR flags\<rparr>;
          Some (ans, Some (nat fd), epoll_ctl ans EPOLL_CTL_MOD fd (e_events elem)
            (b\<lparr>ep_table := (ep_table b)[nat fd := elem]\<rparr>))
        }
        else case epoll_element_new fd elem flags of
          None \<Rightarrow> Some (-1, None, b)
        | Some elem \<Rightarrow> Some (ans, Some (nat fd), epoll_ctl ans EPOLL_CTL_ADD fd (e_events elem)
            (b\<lparr>ep_table := (ep_table b)[nat fd := elem]\<rparr>))
      })"

definition epoll_event_remove :: "int \<Rightarrow> epoll_globals \<Rightarrow> base_epoll \<Rightarrow> int \<Rightarrow> (int \<times> base_epoll) option" where
  "epoll_event_remove ans g b fd =
     (if fd \<ge> EPOLL_MAX_SESSION g \<or> fd < 0 then Some (-1, b)
      else do {
        _ \<leftarrow> at (ep_table b) (nat fd);
        Some (0, epoll_ctl ans EPOLL_CTL_DEL fd 0 (b\<lparr>ep_table := (ep_table b)[nat fd := free_element]\<rparr>))
      })"

datatype epoll_option = SET_READ_CALLBACK | SET_WRITE_CALLBACK | SET_CLOSE_CALLBACK | SET_USER_DATA

definition epoll_events_set_option :: "epoll_event_element \<Rightarrow> epoll_option \<Rightarrow> nat \<Rightarrow> epoll_event_element" where
  "epoll_events_set_option elem opt arg =
     (case opt of SET_READ_CALLBACK \<Rightarrow> elem\<lparr>e_read := arg\<rparr> | SET_WRITE_CALLBACK \<Rightarrow> elem\<lparr>e_write := arg\<rparr>
      | SET_CLOSE_CALLBACK \<Rightarrow> elem\<lparr>e_close := arg\<rparr> | SET_USER_DATA \<Rightarrow> elem\<lparr>e_data := arg\<rparr>)"

section \<open>Dispatch\<close>

text \<open>The program's loops by their number, \<open>None\<close> when it is freed, and the globals.\<close>

record epoll_state =
  es_globals :: epoll_globals
  es_loops :: "base_epoll option list"

definition the_loop :: "nat \<Rightarrow> epoll_state \<Rightarrow> base_epoll option" where
  "the_loop p st = do { b \<leftarrow> at (es_loops st) p; b }"

definition loop_upd :: "nat \<Rightarrow> base_epoll \<Rightarrow> epoll_state \<Rightarrow> epoll_state" where
  "loop_upd p b st = st\<lparr>es_loops := (es_loops st)[p := Some b]\<rparr>"

text \<open>
  \<open>run\<close> stands for the callbacks of the application: the pointer, the loop, the index of the element,
  the event, the element's descriptor and data, and the state, which the callback may change; it gives
  the return value and the state. The element is read again for each callback.
\<close>

type_synonym callbacks =
  "nat \<Rightarrow> nat \<Rightarrow> nat \<Rightarrow> int \<times> 32 word \<Rightarrow> int \<Rightarrow> nat \<Rightarrow> epoll_state \<Rightarrow> int \<times> epoll_state"

definition call :: "callbacks \<Rightarrow> (epoll_event_element \<Rightarrow> nat) \<Rightarrow> nat \<Rightarrow> nat \<Rightarrow> int \<times> 32 word \<Rightarrow> int \<Rightarrow> epoll_state \<Rightarrow>
    (int \<times> epoll_state) option" where
  "call run cb p i ev ret st = do {
     b \<leftarrow> the_loop p st;
     elem \<leftarrow> at (ep_table b) i;
     Some (if cb elem \<noteq> 0 then run (cb elem) p i ev (e_fd elem) (e_data elem) st else (ret, st))
   }"

definition dispatch :: "callbacks \<Rightarrow> nat \<Rightarrow> int \<times> 32 word \<Rightarrow> epoll_state \<Rightarrow> epoll_state option" where
  "dispatch run p ev st =
     (if fst ev \<ge> EPOLL_MAX_SESSION (es_globals st) \<or> fst ev < 0 then Some st
      else do {
        let i = nat (fst ev);
        (ret, st) \<leftarrow> (if snd ev AND EPOLLOUT \<noteq> 0 then call run e_write p i ev 0 st else Some (0, st));
        (ret, st) \<leftarrow> (if snd ev AND EPOLLIN \<noteq> 0 \<and> ret = 0 then call run e_read p i ev ret st else Some (ret, st));
        (ret, st) \<leftarrow> (if (snd ev AND EPOLLRDHUP \<noteq> 0 \<or> snd ev AND EPOLLERR \<noteq> 0 \<or> snd ev AND EPOLLHUP \<noteq> 0) \<and> ret \<noteq> 0
          then call run e_close p i ev ret st else Some (ret, st));
        Some st
      })"

fun dispatch_all :: "callbacks \<Rightarrow> nat \<Rightarrow> (int \<times> 32 word) list \<Rightarrow> epoll_state \<Rightarrow> epoll_state option" where
  "dispatch_all run p [] st = Some st"
| "dispatch_all run p (ev # evs) st = do { st \<leftarrow> dispatch run p ev st; dispatch_all run p evs st }"

text \<open>
  \<open>events\<close> is what \<open>epoll_wait\<close> fills in, \<open>None\<close> when it fails, as it does without a table of events. It
  must not fill in a table that is freed.
\<close>

definition epoll_event_process ::
    "callbacks \<Rightarrow> nat \<Rightarrow> (int \<times> 32 word) list option \<Rightarrow> epoll_state \<Rightarrow> (int \<times> epoll_state) option" where
  "epoll_event_process run p events st = do {
     _ \<leftarrow> the_loop p st;
     if EPOLL_EVENTS (es_globals st) = FreedEvents then None
     else case events of None \<Rightarrow> Some (-1, st)
        | Some evs \<Rightarrow> do { st \<leftarrow> dispatch_all run p evs st; Some (int (length evs), st) }
   }"

section \<open>The table and the kernel's list\<close>

text \<open>
  What the recorded calls have registered: the documented effect of each, where a descriptor that
  \<open>EPOLL_CTL_DEL\<close> names is not registered afterwards whatever the answer.
\<close>

fun ctl_effect :: "(int \<rightharpoonup> 32 word) \<Rightarrow> ctl_op \<times> int \<times> 32 word \<times> int \<Rightarrow> (int \<rightharpoonup> 32 word)" where
  "ctl_effect reg (EPOLL_CTL_DEL, fd, ev, ans) = reg(fd := None)"
| "ctl_effect reg (op, fd, ev, ans) = (if ans = 0 then reg(fd \<mapsto> ev) else reg)"

definition registered :: "base_epoll \<Rightarrow> int \<rightharpoonup> 32 word" where
  "registered b = foldl ctl_effect Map.empty (ep_ctl b)"

text \<open>No descriptor of the application was refused.\<close>

definition accepted :: "base_epoll \<Rightarrow> bool" where
  "accepted b \<longleftrightarrow> (\<forall>(op, fd, ev, ans) \<in> set (tl (ep_ctl b)). op = EPOLL_CTL_DEL \<or> ans = 0)"

definition slot_registered :: "base_epoll \<Rightarrow> nat \<Rightarrow> 32 word option" where
  "slot_registered b i = (if e_fd (ep_table b ! i) = -1 then None else Some (e_events (ep_table b ! i)))"

definition loop_inv :: "base_epoll \<Rightarrow> bool" where
  "loop_inv b \<longleftrightarrow> ep_ctl b \<noteq> [] \<and>
     (\<forall>i < length (ep_table b). e_fd (ep_table b ! i) = -1 \<or> e_fd (ep_table b ! i) = int i) \<and>
     (accepted b \<longrightarrow> (\<forall>fd. registered b fd =
        (if 0 \<le> fd \<and> fd < int (length (ep_table b)) then slot_registered b (nat fd) else None)))"

definition epoll_inv :: "epoll_state \<Rightarrow> bool" where
  "epoll_inv st \<longleftrightarrow> (\<forall>b. Some b \<in> set (es_loops st) \<longrightarrow> loop_inv b \<and> EPOLL_EVENTS (es_globals st) \<noteq> FreedEvents)"

text \<open>What an application may do with its loops between events, and so may a callback.\<close>

inductive epoll_op :: "epoll_state \<Rightarrow> epoll_state \<Rightarrow> bool" where
  add: "the_loop p st = Some b \<Longrightarrow> epoll_event_add ans (es_globals st) b fd flags = Some (r, e, b') \<Longrightarrow>
    epoll_op st (loop_upd p b' st)"
| remove: "the_loop p st = Some b \<Longrightarrow> epoll_event_remove ans (es_globals st) b fd = Some (r, b') \<Longrightarrow>
    epoll_op st (loop_upd p b' st)"
| set_option: "the_loop p st = Some b \<Longrightarrow> i < length (ep_table b) \<Longrightarrow>
    epoll_op st (loop_upd p (b\<lparr>ep_table := (ep_table b)[i := epoll_events_set_option (ep_table b ! i) opt arg]\<rparr>) st)"

text \<open>
  Making loops of any sizes, working with them, and deleting one when there is no other. The kernel
  refuses to register a loop with itself (\<open>EINVAL\<close>).
\<close>

inductive epoll_reachable :: "callbacks \<Rightarrow> epoll_state \<Rightarrow> bool" for run :: callbacks where
  start: "epoll_reachable run \<lparr>es_globals = globals_start, es_loops = []\<rparr>"
| new: "epoll_reachable run st \<Longrightarrow> ans \<noteq> 0 \<Longrightarrow>
    epoll_base_new mem mem' mem'' epoll ans max_session max_event timeout (es_globals st) = (Some b, g) \<Longrightarrow>
    epoll_reachable run (st\<lparr>es_globals := g, es_loops := es_loops st @ [Some b]\<rparr>)"
| op: "epoll_reachable run st \<Longrightarrow> epoll_op st st' \<Longrightarrow> epoll_reachable run st'"
| process: "epoll_reachable run st \<Longrightarrow> epoll_event_process run p events st = Some (n, st') \<Longrightarrow> epoll_reachable run st'"
| delete: "epoll_reachable run st \<Longrightarrow> the_loop p st = Some b \<Longrightarrow> \<forall>q. q \<noteq> p \<longrightarrow> the_loop q st = None \<Longrightarrow>
    epoll_base_delete (es_globals st) = Some g \<Longrightarrow>
    epoll_reachable run (st\<lparr>es_globals := g, es_loops := (es_loops st)[p := None]\<rparr>)"

lemma the_loop_mem: "Some b \<in> set (es_loops st) \<longleftrightarrow> (\<exists>p. the_loop p st = Some b)"
  by (auto simp: the_loop_def at_def in_set_conv_nth bind_eq_Some_conv split: if_splits)

lemma the_loop_upd:
  "the_loop p st = Some b \<Longrightarrow> the_loop q (loop_upd p b' st) = (if q = p then Some b' else the_loop q st)"
  by (auto simp: the_loop_def loop_upd_def at_def bind_eq_Some_conv split: if_splits)

lemma epoll_inv_loop: "epoll_inv st \<Longrightarrow> the_loop p st = Some b \<Longrightarrow> loop_inv b"
  using the_loop_mem by (auto simp: epoll_inv_def)

lemma epoll_inv_upd:
  assumes "epoll_inv st" "the_loop p st = Some b" "loop_inv b'"
  shows "epoll_inv (loop_upd p b' st)"
proof -
  have "loop_inv x" if "the_loop q (loop_upd p b' st) = Some x" for q x
    using that assms(3) epoll_inv_loop [OF assms(1), of q x] by (simp add: the_loop_upd [OF assms(2)] split: if_splits)
  moreover have "EPOLL_EVENTS (es_globals st) \<noteq> FreedEvents"
    using assms(1,2) the_loop_mem by (auto simp: epoll_inv_def)
  ultimately show ?thesis unfolding epoll_inv_def the_loop_mem by (auto simp: loop_upd_def)
qed

lemma epoll_base_new_inv:
  "epoll_base_new mem mem' mem'' epoll ans max_session max_event timeout g = (Some b, g') \<Longrightarrow> ans \<noteq> 0 \<Longrightarrow>
     loop_inv b \<and> EPOLL_EVENTS g' \<noteq> FreedEvents"
  by (auto simp: epoll_base_new_def loop_inv_def epoll_ctl_def registered_def slot_registered_def free_element_def
      split: if_splits)

text \<open>A call on a slot, with the element that it leaves there.\<close>

lemma slot_inv:
  assumes inv: "loop_inv b" and fd: "0 \<le> fd" "nat fd < length (ep_table b)"
    and e: "e_fd e = (if op = EPOLL_CTL_DEL then -1 else fd)" "op = EPOLL_CTL_DEL \<or> e_events e = ev"
  shows "loop_inv (epoll_ctl ans op fd ev (b\<lparr>ep_table := (ep_table b)[nat fd := e]\<rparr>))" (is "loop_inv ?b")
proof -
  have slots: "\<forall>i < length (ep_table ?b). e_fd (ep_table ?b ! i) = -1 \<or> e_fd (ep_table ?b ! i) = int i"
    using inv e(1) fd by (auto simp: loop_inv_def epoll_ctl_def nth_list_update)
  have "registered ?b fd' = (if 0 \<le> fd' \<and> fd' < int (length (ep_table ?b)) then slot_registered ?b (nat fd') else None)"
    if acc: "accepted ?b" for fd'
  proof -
    from acc inv have acc': "accepted b" "op = EPOLL_CTL_DEL \<or> ans = 0"
      by (auto simp: accepted_def epoll_ctl_def loop_inv_def)
    have r: "registered ?b = (registered b)(fd := if op = EPOLL_CTL_DEL then None else Some ev)"
      using acc'(2) by (cases op) (auto simp: registered_def epoll_ctl_def)
    have s: "slot_registered ?b (nat fd) = (if op = EPOLL_CTL_DEL then None else Some ev)"
      "fd' \<noteq> fd \<Longrightarrow> 0 \<le> fd' \<Longrightarrow> slot_registered ?b (nat fd') = slot_registered b (nat fd')"
      using e fd by (auto simp: slot_registered_def epoll_ctl_def nth_list_update)
    have "fd < int (length (ep_table b))" using fd by linarith
    with inv acc'(1) fd s show ?thesis unfolding r by (auto simp: loop_inv_def epoll_ctl_def)
  qed
  with inv slots show ?thesis by (simp add: loop_inv_def epoll_ctl_def)
qed

text \<open>Each operation keeps the invariant and the size of its loop.\<close>

lemma add_inv:
  assumes "epoll_event_add ans g b fd flags = Some (r, e, b')" "loop_inv b"
  shows "loop_inv b' \<and> length (ep_table b') = length (ep_table b)"
proof (cases "b' = b")
  case True
  with assms show ?thesis by simp
next
  case False
  with assms(1) have fd: "0 \<le> fd" "nat fd < length (ep_table b)"
    by (auto simp: epoll_event_add_def at_def bind_eq_Some_conv split: if_splits)
  with assms(2) have "e_fd (ep_table b ! nat fd) = -1 \<or> e_fd (ep_table b ! nat fd) = fd" by (auto simp: loop_inv_def)
  with assms fd slot_inv [OF assms(2) fd] show ?thesis
    by (auto simp: epoll_event_add_def epoll_element_new_def at_def Let_def epoll_ctl_def split: if_splits)
qed

lemma remove_inv:
  assumes "epoll_event_remove ans g b fd = Some (r, b')" "loop_inv b"
  shows "loop_inv b' \<and> length (ep_table b') = length (ep_table b)"
  using assms slot_inv [OF assms(2), of fd free_element EPOLL_CTL_DEL 0 ans]
  by (auto simp: epoll_event_remove_def free_element_def at_def epoll_ctl_def bind_eq_Some_conv split: if_splits)

lemma set_option_inv:
  assumes "loop_inv b" "i < length (ep_table b)"
  shows "loop_inv (b\<lparr>ep_table := (ep_table b)[i := epoll_events_set_option (ep_table b ! i) opt arg]\<rparr>)"
proof -
  have "e_fd (epoll_events_set_option e opt arg) = e_fd e \<and> e_events (epoll_events_set_option e opt arg) = e_events e" for e
    by (simp add: epoll_events_set_option_def split: epoll_option.splits)
  then show ?thesis using assms
    by (auto simp: loop_inv_def accepted_def registered_def slot_registered_def nth_list_update)
qed

text \<open>The globals and the loops with their sizes stay.\<close>

definition sizes :: "epoll_state \<Rightarrow> nat \<Rightarrow> nat option" where
  "sizes st p = map_option (\<lambda>b. length (ep_table b)) (the_loop p st)"

definition kept :: "epoll_state \<Rightarrow> epoll_state \<Rightarrow> bool" where
  "kept st st' \<longleftrightarrow> epoll_inv st' \<and> es_globals st' = es_globals st \<and> sizes st' = sizes st"

lemma upd_kept:
  assumes "epoll_inv st" "the_loop p st = Some b" "loop_inv b'" "length (ep_table b') = length (ep_table b)"
  shows "kept st (loop_upd p b' st)"
proof -
  have "sizes (loop_upd p b' st) q = sizes st q" for q
    using assms(2,4) by (simp add: sizes_def the_loop_upd [OF assms(2)])
  with epoll_inv_upd [OF assms(1-3)] show ?thesis by (auto simp: kept_def loop_upd_def)
qed

lemma epoll_op_kept:
  assumes "epoll_op st st'" "epoll_inv st"
  shows "kept st st'"
  using assms
proof (cases rule: epoll_op.cases)
  case (add p b ans fd flags r e b')
  with add_inv [OF add(3) epoll_inv_loop [OF assms(2) add(2)]] upd_kept [OF assms(2) add(2)] show ?thesis by simp
next
  case (remove p b ans fd r b')
  with remove_inv [OF remove(3) epoll_inv_loop [OF assms(2) remove(2)]] upd_kept [OF assms(2) remove(2)] show ?thesis by simp
next
  case (set_option p b i opt arg)
  with set_option_inv [OF epoll_inv_loop [OF assms(2) set_option(2)] set_option(3)] upd_kept [OF assms(2) set_option(2)]
  show ?thesis by simp
qed

lemma epoll_ops_kept: "epoll_op\<^sup>*\<^sup>* st st' \<Longrightarrow> epoll_inv st \<Longrightarrow> kept st st'"
proof (induction rule: rtranclp_induct)
  case base
  then show ?case by (simp add: kept_def)
next
  case (step y z)
  then have y: "kept st y" by simp
  then have "kept y z" using epoll_op_kept [OF step.hyps(2)] by (simp add: kept_def)
  with y show ?case by (simp add: kept_def)
qed

text \<open>Callbacks that use the loops by their operations.\<close>

definition callbacks_ok :: "callbacks \<Rightarrow> bool" where
  "callbacks_ok run \<longleftrightarrow> (\<forall>cb p i ev fd d st. epoll_op\<^sup>*\<^sup>* st (snd (run cb p i ev fd d st)))"

lemma call_ok:
  assumes run: "callbacks_ok run" and st: "kept a st" and i: "sizes a p = Some n" "i < n"
  shows "\<exists>r st'. call run cb p i ev ret st = Some (r, st') \<and> kept a st'"
proof -
  have "sizes st p = Some n" using st i(1) by (simp add: kept_def)
  then obtain b where b: "the_loop p st = Some b" "length (ep_table b) = n" by (auto simp: sizes_def)
  let ?e = "ep_table b ! i"
  have "epoll_op\<^sup>*\<^sup>* st (snd (run (cb ?e) p i ev (e_fd ?e) (e_data ?e) st))"
    using run unfolding callbacks_ok_def by blast
  then have "kept a (snd (run (cb ?e) p i ev (e_fd ?e) (e_data ?e) st))"
    using epoll_ops_kept st by (auto simp: kept_def)
  with b i(2) st show ?thesis
    by (cases "run (cb ?e) p i ev (e_fd ?e) (e_data ?e) st") (auto simp: call_def at_def)
qed

text \<open>A loop whose table has a slot for every descriptor below the limit.\<close>

definition roomy :: "nat \<Rightarrow> epoll_state \<Rightarrow> bool" where
  "roomy p st \<longleftrightarrow> (\<exists>n. sizes st p = Some n \<and> EPOLL_MAX_SESSION (es_globals st) \<le> int n)"

lemma dispatch_ok:
  assumes run: "callbacks_ok run" and inv: "epoll_inv st" and p: "roomy p st"
  shows "\<exists>st'. dispatch run p ev st = Some st' \<and> kept st st'"
proof (cases "fst ev \<ge> EPOLL_MAX_SESSION (es_globals st) \<or> fst ev < 0")
  case True
  then show ?thesis using inv by (auto simp: dispatch_def kept_def)
next
  case False
  obtain n where n: "sizes st p = Some n" "nat (fst ev) < n" using p False by (auto simp: roomy_def)
  have c: "\<exists>r st'. (if P then call run cb p (nat (fst ev)) ev ret st1 else Some (ret, st1)) = Some (r, st') \<and> kept st st'"
    if "kept st st1" for P cb ret st1
    using call_ok [OF run that n] that by simp
  have "kept st st" using inv by (simp add: kept_def)
  from c [OF this] obtain r1 st1 where 1: "(if snd ev AND EPOLLOUT \<noteq> 0 then call run e_write p (nat (fst ev)) ev 0 st
      else Some (0, st)) = Some (r1, st1)" "kept st st1" by blast
  from c [OF 1(2)] obtain r2 st2 where 2: "(if snd ev AND EPOLLIN \<noteq> 0 \<and> r1 = 0 then call run e_read p (nat (fst ev)) ev r1 st1
      else Some (r1, st1)) = Some (r2, st2)" "kept st st2" by blast
  from c [OF 2(2)] obtain r3 st3 where 3: "(if (snd ev AND EPOLLRDHUP \<noteq> 0 \<or> snd ev AND EPOLLERR \<noteq> 0 \<or>
      snd ev AND EPOLLHUP \<noteq> 0) \<and> r2 \<noteq> 0 then call run e_close p (nat (fst ev)) ev r2 st2
      else Some (r2, st2)) = Some (r3, st3)" "kept st st3" by blast
  have "dispatch run p ev st = Some st3"
    unfolding dispatch_def Let_def using False by (simp only: if_False 1(1) 2(1) 3(1) bind.bind_lunit prod.case)
  with 3(2) show ?thesis by blast
qed

lemma dispatch_all_ok:
  "callbacks_ok run \<Longrightarrow> epoll_inv st \<Longrightarrow> roomy p st \<Longrightarrow> \<exists>st'. dispatch_all run p evs st = Some st' \<and> kept st st'"
proof (induction evs arbitrary: st)
  case Nil
  then show ?case by (simp add: kept_def)
next
  case (Cons ev evs)
  from dispatch_ok [OF Cons.prems, of ev] obtain st1 where 1: "dispatch run p ev st = Some st1" "kept st st1" by blast
  then have "epoll_inv st1" "roomy p st1" using Cons.prems(3) by (auto simp: kept_def roomy_def)
  from Cons.IH [OF Cons.prems(1) this] 1 show ?case by (auto simp: kept_def)
qed

lemma process_ok:
  assumes "callbacks_ok run" "epoll_inv st" "roomy p st"
  shows "\<exists>n st'. epoll_event_process run p events st = Some (n, st') \<and> kept st st'"
proof -
  obtain b where b: "the_loop p st = Some b" using assms(3) by (auto simp: roomy_def sizes_def)
  then have "EPOLL_EVENTS (es_globals st) \<noteq> FreedEvents" using assms(2) the_loop_mem by (auto simp: epoll_inv_def)
  note e = epoll_event_process_def [of run p events st, unfolded b bind.bind_lunit if_not_P [OF this]]
  show ?thesis
  proof (cases events)
    case None
    then show ?thesis unfolding e using assms(2) by (simp add: kept_def)
  next
    case (Some evs)
    obtain st' where "dispatch_all run p evs st = Some st'" "kept st st'" using dispatch_all_ok [OF assms] by blast
    with Some show ?thesis unfolding e by simp
  qed
qed

text \<open>The invariant survives events on any loop that the code comes through, roomy or not.\<close>

lemma call_inv:
  assumes "callbacks_ok run" "epoll_inv st" "call run cb p i ev ret st = Some (r, st')"
  shows "epoll_inv st'"
proof -
  obtain b e where "the_loop p st = Some b" "at (ep_table b) i = Some e"
    using assms(3) by (auto simp: call_def bind_eq_Some_conv)
  moreover have "epoll_op\<^sup>*\<^sup>* st (snd (run (cb e) p i ev (e_fd e) (e_data e) st))"
    using assms(1) unfolding callbacks_ok_def by blast
  ultimately have "epoll_op\<^sup>*\<^sup>* st st'"
    using assms(3) by (auto simp: call_def split: if_splits)
  then show ?thesis using epoll_ops_kept assms(2) by (auto simp: kept_def)
qed

lemma dispatch_inv:
  "callbacks_ok run \<Longrightarrow> epoll_inv st \<Longrightarrow> dispatch run p ev st = Some st' \<Longrightarrow> epoll_inv st'"
  by (auto simp: dispatch_def Let_def bind_eq_Some_conv split: if_splits dest: call_inv)

lemma dispatch_all_inv:
  "callbacks_ok run \<Longrightarrow> epoll_inv st \<Longrightarrow> dispatch_all run p evs st = Some st' \<Longrightarrow> epoll_inv st'"
  by (induction evs arbitrary: st) (auto simp: bind_eq_Some_conv dest: dispatch_inv)

lemma epoll_reachable_inv: "epoll_reachable run st \<Longrightarrow> callbacks_ok run \<Longrightarrow> epoll_inv st"
proof (induction rule: epoll_reachable.induct)
  case start
  then show ?case by (simp add: epoll_inv_def)
next
  case (new st ans mem mem' mem'' epoll max_session max_event timeout b g)
  then show ?case using epoll_base_new_inv [OF new(3,2)] by (auto simp: epoll_inv_def)
next
  case (op st st')
  then show ?case using epoll_op_kept by (auto simp: kept_def)
next
  case (process st p events n st')
  then show ?case
    by (auto simp: epoll_event_process_def bind_eq_Some_conv split: if_splits option.splits dest: dispatch_all_inv)
next
  case (delete st p b g)
  have "the_loop q (st\<lparr>es_globals := g, es_loops := (es_loops st)[p := None]\<rparr>) = None" for q
    using delete(2,3) by (cases "q = p") (auto simp: the_loop_def at_def bind_eq_Some_conv split: if_splits)
  then show ?case unfolding epoll_inv_def the_loop_mem by auto
qed

text \<open>
  C23. In every state that the operations on any number of loops, made with any sizes, and their
  callbacks lead to, in any order, every slot of each table is free or holds its own descriptor, and as
  long as the kernel has refused no descriptor of a loop its list is exactly the table: the same
  descriptors with the same events. The limit that the operations check is the one of the loop made
  last: on a loop whose table is at least as long no operation, whatever the descriptor, and no event,
  whatever descriptor it names, reaches outside the table (for another see \<open>larger_loop_overruns\<close>).
  Callbacks use the operations on any loop and make no new ones; a loop is deleted only when it is the
  last one (see \<open>delete_frees_shared\<close>).
\<close>

theorem epoll_table_registered:
  assumes "epoll_reachable run st" "callbacks_ok run" "the_loop p st = Some b"
  shows "(\<forall>i < length (ep_table b). e_fd (ep_table b ! i) = -1 \<or> e_fd (ep_table b ! i) = int i) \<and>
    (accepted b \<longrightarrow> (\<forall>fd. registered b fd =
      (if 0 \<le> fd \<and> fd < int (length (ep_table b)) then slot_registered b (nat fd) else None))) \<and>
    (EPOLL_MAX_SESSION (es_globals st) \<le> int (length (ep_table b)) \<longrightarrow>
      epoll_event_add ans (es_globals st) b fd flags \<noteq> None \<and> epoll_event_remove ans (es_globals st) b fd \<noteq> None \<and>
      epoll_event_process run p events st \<noteq> None)"
proof -
  have inv: "epoll_inv st" by (rule epoll_reachable_inv [OF assms(1,2)])
  have l: "loop_inv b" by (rule epoll_inv_loop [OF inv assms(3)])
  have "epoll_event_add ans (es_globals st) b fd flags \<noteq> None \<and> epoll_event_remove ans (es_globals st) b fd \<noteq> None \<and>
      epoll_event_process run p events st \<noteq> None"
    if r: "EPOLL_MAX_SESSION (es_globals st) \<le> int (length (ep_table b))"
  proof -
    have "at (ep_table b) (nat fd) \<noteq> None" if "0 \<le> fd" "fd < EPOLL_MAX_SESSION (es_globals st)"
      using that r by (auto simp: at_def)
    then have "epoll_event_add ans (es_globals st) b fd flags \<noteq> None" "epoll_event_remove ans (es_globals st) b fd \<noteq> None"
      by (auto simp: epoll_event_add_def epoll_event_remove_def split: option.splits)
    moreover have "roomy p st" using r assms(3) by (simp add: roomy_def sizes_def)
    ultimately show ?thesis using process_ok [OF assms(2) inv, of p events] by auto
  qed
  with l show ?thesis unfolding loop_inv_def by blast
qed

text \<open>Two loops, with a descriptor in the first and a callback that removes it.\<close>

definition demo_callback :: callbacks where
  "demo_callback cb p i ev fd d st =
     (case the_loop p st of
        None \<Rightarrow> (1, st)
      | Some b \<Rightarrow> (case epoll_event_remove 0 (es_globals st) b fd of Some (r, b') \<Rightarrow> (1, loop_upd p b' st) | None \<Rightarrow> (1, st)))"

lemma demo_callback_ok: "callbacks_ok demo_callback"
proof -
  have "epoll_op\<^sup>*\<^sup>* st (snd (demo_callback cb p i ev fd d st))" for cb p i ev fd d st
    by (auto simp: demo_callback_def split: option.splits intro: epoll_op.remove)
  then show ?thesis unfolding callbacks_ok_def by blast
qed

theorem epoll_table_registered_witness:
  "\<exists>st b. epoll_reachable demo_callback st \<and> the_loop 0 st = Some b \<and> the_loop 1 st \<noteq> None \<and> accepted b \<and>
     registered b 5 = Some EPOLLIN \<and> epoll_event_process demo_callback 0 (Some [(5, EPOLLIN)]) st \<noteq> None"
proof -
  obtain b0 g0 where b0: "epoll_base_new True True True 3 (-1) 8 8 100 globals_start = (Some b0, g0)"
    "ep_table b0 = replicate 8 free_element" "EPOLL_MAX_SESSION g0 = 8" "tl (ep_ctl b0) = []" "ep_ctl b0 \<noteq> []"
    by (simp add: epoll_base_new_def epoll_ctl_def)
  obtain b1 g1 where b1: "epoll_base_new True True True 4 (-1) 8 8 100 g0 = (Some b1, g1)" "EPOLL_MAX_SESSION g1 = 8"
    by (simp add: epoll_base_new_def epoll_ctl_def)
  obtain b where b: "epoll_event_add 0 g1 b0 5 EPOLLIN = Some (0, Some 5, b)" "accepted b"
    "slot_registered b 5 = Some EPOLLIN" "length (ep_table b) = 8"
    using b0(2-5) b1(2) by (auto simp: epoll_event_add_def epoll_element_new_def at_def epoll_ctl_def free_element_def
        accepted_def slot_registered_def)
  define st where "st = \<lparr>es_globals = g1, es_loops = [Some b, Some b1]\<rparr>"
  have "epoll_reachable demo_callback \<lparr>es_globals = g0, es_loops = [Some b0]\<rparr>"
    using epoll_reachable.new [OF epoll_reachable.start, of "-1" True True True 3 8 8 100 b0 g0] b0(1) by simp
  from epoll_reachable.new [OF this, of "-1" True True True 4 8 8 100 b1 g1] b1(1)
  have "epoll_reachable demo_callback \<lparr>es_globals = g1, es_loops = [Some b0, Some b1]\<rparr>" by simp
  moreover have "epoll_op \<lparr>es_globals = g1, es_loops = [Some b0, Some b1]\<rparr> st"
    using epoll_op.add [of 0 "\<lparr>es_globals = g1, es_loops = [Some b0, Some b1]\<rparr>" b0 0 5 EPOLLIN 0 "Some 5" b] b(1)
    by (simp add: st_def the_loop_def at_def loop_upd_def)
  ultimately have r: "epoll_reachable demo_callback st" by (rule epoll_reachable.op)
  have l: "the_loop 0 st = Some b" "the_loop 1 st = Some b1" by (simp_all add: st_def the_loop_def at_def)
  from epoll_table_registered [OF r demo_callback_ok l(1), of 0 5 0 "Some [(5, EPOLLIN)]"] b(2-4) b1(2) r l show ?thesis
    by (intro exI [of _ st] exI [of _ b]) (simp add: st_def)
qed

subsection \<open>Where they part\<close>

text \<open>
  The limit of the loop made last holds for all: a descriptor that an earlier loop with a shorter table
  is given is written behind that table, and one that a longer table has room for is refused.
\<close>

lemma larger_loop_overruns:
  assumes "epoll_base_new True True m epoll ans large e t g = (Some b', g')" "length (ep_table b) \<le> nat fd" "0 \<le> fd" "fd < large"
  shows "epoll_event_add a g' b fd flags = None" "epoll_event_remove a g' b fd = None"
  using assms by (auto simp: epoll_base_new_def epoll_event_add_def epoll_event_remove_def at_def)

lemma smaller_loop_refuses:
  assumes "epoll_base_new True True m epoll ans small e t g = (Some b', g')" "small \<le> fd"
  shows "epoll_event_add a g' b fd flags = Some (-1, None, b)"
  using assms by (auto simp: epoll_base_new_def epoll_event_add_def)

text \<open>Deleting a loop frees the events of the others, and deleting the next one frees them again.\<close>

lemma delete_frees_shared:
  assumes "EPOLL_EVENTS (es_globals st) = Events" "epoll_base_delete (es_globals st) = Some g"
  shows "epoll_event_process run p events (st\<lparr>es_globals := g\<rparr>) = None" "epoll_base_delete g = None"
  using assms by (auto simp: epoll_base_delete_def epoll_event_process_def the_loop_def split: bind_splits)

text \<open>A descriptor that the kernel refuses keeps its slot, so that a second attempt modifies what is not there.\<close>

lemma refused_keeps_slot:
  assumes "0 \<le> fd" "fd < EPOLL_MAX_SESSION g" "nat fd < length (ep_table b)" "e_fd (ep_table b ! nat fd) = -1"
  shows "\<exists>i b'. epoll_event_add (-1) g b fd flags = Some (-1, i, b') \<and>
    e_fd (ep_table b' ! nat fd) = fd \<and> registered b' = registered b"
  using assms
  by (auto simp: epoll_event_add_def epoll_element_new_def epoll_ctl_def Let_def at_def registered_def)

text \<open>
  The callback for closing is only called when another one has returned an error: a descriptor that
  hangs up without being readable or writable is never reported.
\<close>

lemma hangup_unreported:
  "snd ev AND EPOLLIN = 0 \<Longrightarrow> snd ev AND EPOLLOUT = 0 \<Longrightarrow> dispatch run p ev st = Some st"
  by (simp add: dispatch_def Let_def)

end
