(* ===== verification/SessionTable.thy ===== *)
theory SessionTable
  imports CBase
begin

text \<open>
  What the HTTP server and the directory server share: a table of session slots, free when
  their socket is negative, with a count of the open slots and the greatest index in use, and
  the calls to the operating system that opening and closing a session makes. The locale
  states the contract of such a table; both servers interpret it.
\<close>

section \<open>The operating system\<close>

text \<open>What an operation does to a file descriptor, in order.\<close>

datatype os_event = FdClear int | Shutdown int | CloseFd int

datatype errno = EINTR | EPROTO | ECONNABORTED | E_OTHER

text \<open>A connected peer: the address, the name it resolves to, its text form and the port.\<close>

record peer =
  s_addr :: "32 word"
  h_name :: "bytes option"
  ntoa :: bytes
  sin_port :: "16 word"

text \<open>The results that successive calls of \<open>accept\<close> give.\<close>

datatype accepted = Conn int peer | AcceptErr errno

text \<open>The loop at the label \<open>accept_again\<close>; \<open>None\<close> while \<open>accept\<close> has not returned otherwise.\<close>

fun accept_again :: "accepted list \<Rightarrow> accepted option" where
  "accept_again [] = None"
| "accept_again (AcceptErr EINTR # rs) = accept_again rs"
| "accept_again (r # rs) = Some r"

text \<open>A descriptor that \<open>accept\<close> returns is not negative.\<close>

definition accepts_ok :: "accepted list \<Rightarrow> bool" where
  "accepts_ok as \<longleftrightarrow> list_all (\<lambda>a. case a of Conn sk _ \<Rightarrow> 0 \<le> sk | AcceptErr _ \<Rightarrow> True) as"

lemma accept_again_ok: "accepts_ok as \<Longrightarrow> accept_again as = Some (Conn sk p) \<Longrightarrow> 0 \<le> sk"
  by (induction as rule: accept_again.induct) (auto simp: accepts_ok_def)

text \<open>The calls made on a descriptor that is closed: the callback, when there is one, comes first.\<close>

definition clear_events :: "bool \<Rightarrow> int \<Rightarrow> os_event list" where
  "clear_events cb fd = (if cb then [FdClear fd] else [])"

definition close_events :: "bool \<Rightarrow> int \<Rightarrow> os_event list" where
  "close_events cb sk = (if sk \<ge> 0 then clear_events cb sk @ [Shutdown sk, CloseFd sk] else [])"

lemma concat_map_extend:
  assumes "m \<le> N" "\<And>i. m \<le> i \<Longrightarrow> i < N \<Longrightarrow> f i = []"
  shows "concat (map f [0..<N]) = concat (map f [0..<m])"
proof -
  have "[0..<N] = [0..<m] @ [m..<N]" using assms(1) by (metis le_add_diff_inverse upt_add_eq_append zero_le)
  moreover have "concat (map f [m..<N]) = []" using assms(2) by simp
  ultimately show ?thesis by simp
qed

section \<open>Scans over the table\<close>

text \<open>\<open>for (i = 0; i < max_session; ++i) if (session[i].sock < 0) break;\<close>\<close>

fun find_free :: "(nat \<Rightarrow> int) \<Rightarrow> nat \<Rightarrow> nat \<Rightarrow> nat" where
  "find_free sock i 0 = i"
| "find_free sock i (Suc k) = (if sock i < 0 then i else find_free sock (Suc i) k)"

text \<open>\<open>while (--last >= 0 && session[last].sock < 0);\<close> started at \<open>last = n\<close>.\<close>

fun scan_back :: "(nat \<Rightarrow> int) \<Rightarrow> nat \<Rightarrow> int" where
  "scan_back sock 0 = -1"
| "scan_back sock (Suc k) = (if sock k < 0 then scan_back sock k else int k)"

lemma find_free_bounds: "i \<le> find_free sock i k \<and> find_free sock i k \<le> i + k"
  by (induction sock i k rule: find_free.induct) auto

lemma find_free_before: "i \<le> j \<Longrightarrow> j < find_free sock i k \<Longrightarrow> 0 \<le> sock j"
proof (induction sock i k rule: find_free.induct)
  case (2 sock i k)
  then show ?case by (cases "j = i") (auto split: if_splits)
qed simp

lemma find_free_free: "find_free sock i k < i + k \<Longrightarrow> sock (find_free sock i k) < 0"
  by (induction sock i k rule: find_free.induct) (auto split: if_splits)

lemma find_free_full: "i + k \<le> find_free sock i k \<longleftrightarrow> (\<forall>j. i \<le> j \<and> j < i + k \<longrightarrow> 0 \<le> sock j)"
proof
  assume "i + k \<le> find_free sock i k"
  then show "\<forall>j. i \<le> j \<and> j < i + k \<longrightarrow> 0 \<le> sock j"
    using find_free_before [of i _ sock k] by (meson less_le_trans)
next
  assume *: "\<forall>j. i \<le> j \<and> j < i + k \<longrightarrow> 0 \<le> sock j"
  show "i + k \<le> find_free sock i k"
  proof (rule ccontr)
    assume "\<not> i + k \<le> find_free sock i k"
    then have "find_free sock i k < i + k" by simp
    with * find_free_free [OF this] find_free_bounds [of i sock k] show False by fastforce
  qed
qed

lemma scan_back_bounds: "-1 \<le> scan_back sock n \<and> scan_back sock n < int n"
  by (induction n) auto

lemma scan_back_open: "0 \<le> scan_back sock n \<Longrightarrow> 0 \<le> sock (nat (scan_back sock n))"
  by (induction n) auto

lemma scan_back_above: "int i > scan_back sock n \<Longrightarrow> i < n \<Longrightarrow> sock i < 0"
proof (induction n)
  case (Suc n)
  then show ?case by (cases "i = n") (auto split: if_splits)
qed simp

lemma scan_back_cong: "(\<And>i. i < n \<Longrightarrow> sock' i = sock i) \<Longrightarrow> scan_back sock' n = scan_back sock n"
  by (induction n) auto

section \<open>The contract\<close>

text \<open>
  The table invariant for \<open>N\<close> slots: the count is the number of open slots, and the last
  session is the greatest open one, or -1.
\<close>

definition table_ok :: "nat \<Rightarrow> (nat \<Rightarrow> int) \<Rightarrow> int \<Rightarrow> int \<Rightarrow> bool" where
  "table_ok N sock lst cnt \<longleftrightarrow>
     cnt = int (card {i. i < N \<and> 0 \<le> sock i}) \<and> -1 \<le> lst \<and> lst < int N \<and>
     (\<forall>i < N. 0 \<le> sock i \<longrightarrow> int i \<le> lst) \<and> (0 \<le> lst \<longrightarrow> 0 \<le> sock (nat lst))"

lemma table_ok_empty: "(\<And>i. i < N \<Longrightarrow> sock i < 0) \<Longrightarrow> table_ok N sock (-1) 0"
proof -
  assume "\<And>i. i < N \<Longrightarrow> sock i < 0"
  then have "\<And>i. i < N \<Longrightarrow> \<not> 0 \<le> sock i" by (simp add: not_le)
  then have "{i. i < N \<and> 0 \<le> sock i} = {}" "\<forall>i < N. 0 \<le> sock i \<longrightarrow> int i \<le> -1" by blast+
  then show ?thesis unfolding table_ok_def by simp
qed

lemma open_set_insert:
  "i < N \<Longrightarrow> 0 \<le> sk \<Longrightarrow> {j. j < N \<and> 0 \<le> (sock(i := sk)) j} = insert i {j. j < N \<and> 0 \<le> (sock j :: int)}"
  by auto

lemma open_set_remove:
  "{j. j < N \<and> 0 \<le> (sock(i := -1)) j} = {j. j < N \<and> 0 \<le> (sock j :: int)} - {i}"
  by auto

lemma table_ok_open:
  assumes t: "table_ok N sock lst cnt" and i: "i < N" "sock i < 0" "0 \<le> sk"
  shows "table_ok N (sock(i := sk)) (max lst (int i)) (cnt + 1)"
proof -
  have "card {j. j < N \<and> 0 \<le> (sock(i := sk)) j} = Suc (card {j. j < N \<and> 0 \<le> sock j})"
    unfolding open_set_insert [OF i(1,3)] using i(2) by (subst card_insert_disjoint) auto
  then show ?thesis using t i unfolding table_ok_def by (auto simp: max_def)
qed

lemma table_ok_close:
  assumes t: "table_ok N sock lst cnt" and i: "i < N" "0 \<le> sock i"
  shows "table_ok N (sock(i := -1)) (if lst = int i then scan_back sock i else lst) (cnt - 1)"
proof -
  have "i \<in> {j. j < N \<and> 0 \<le> sock j}" using i by simp
  then have "card {j. j < N \<and> 0 \<le> (sock(i := -1)) j} = card {j. j < N \<and> 0 \<le> sock j} - 1"
    "card {j. j < N \<and> 0 \<le> sock j} > 0"
    unfolding open_set_remove by (auto simp: card_gt_0_iff)
  moreover have "int j \<le> scan_back sock i" if "lst = int i" "j < N" "0 \<le> sock j" "j \<noteq> i" for j
  proof -
    have "j \<le> i" using t that by (auto simp: table_ok_def)
    with that have "j < i" by simp
    with that scan_back_above [of sock i j] show ?thesis by force
  qed
  ultimately show ?thesis
    using t i scan_back_bounds [of sock i] scan_back_open [of sock i]
    unfolding table_ok_def by (auto simp: nat_eq_iff)
qed

locale session_table =
  fixes sock :: "'s \<Rightarrow> nat \<Rightarrow> int" and lst :: "'s \<Rightarrow> int" and cnt :: "'s \<Rightarrow> int"
    and cap :: "'s \<Rightarrow> nat"
    and opens :: "'s \<Rightarrow> nat \<Rightarrow> 's \<Rightarrow> bool"
    and closes :: "'s \<Rightarrow> nat \<Rightarrow> 's \<Rightarrow> bool"
  assumes opens_law: "opens s i s' \<Longrightarrow> i < cap s \<and> sock s i < 0 \<and> (\<forall>j < i. 0 \<le> sock s j) \<and>
      (\<exists>sk. 0 \<le> sk \<and> sock s' = (sock s)(i := sk)) \<and>
      lst s' = max (lst s) (int i) \<and> cnt s' = cnt s + 1 \<and> cap s' = cap s"
    and closes_law: "closes s i s' \<Longrightarrow> 0 \<le> sock s i \<and> sock s' = (sock s)(i := -1) \<and>
      lst s' = (if lst s = int i then scan_back (sock s) i else lst s) \<and>
      cnt s' = cnt s - 1 \<and> cap s' = cap s"
begin

abbreviation ok :: "nat \<Rightarrow> 's \<Rightarrow> bool" where
  "ok N s \<equiv> table_ok N (sock s) (lst s) (cnt s)"

lemma opens_ok: "opens s i s' \<Longrightarrow> ok N s \<Longrightarrow> cap s \<le> N \<Longrightarrow> ok N s'"
  using opens_law [of s i s'] table_ok_open [of N "sock s" "lst s" "cnt s" i] by auto

lemma closes_ok: "closes s i s' \<Longrightarrow> ok N s \<Longrightarrow> i < N \<Longrightarrow> ok N s'"
  using closes_law [of s i s'] table_ok_close [of N "sock s" "lst s" "cnt s" i] by auto

text \<open>Opening takes the first free slot, and the last slot in use bounds every open one.\<close>

lemma opens_least: "opens s i s' \<Longrightarrow> sock s j < 0 \<Longrightarrow> i \<le> j"
  using opens_law [of s i s'] by (meson leI less_le_not_le)

lemma count_bound: "ok N s \<Longrightarrow> 0 \<le> cnt s \<and> cnt s \<le> lst s + 1"
proof -
  assume o: "ok N s"
  then have "{i. i < N \<and> 0 \<le> sock s i} \<subseteq> {..<nat (lst s + 1)}"
    by (auto simp: table_ok_def)
  from card_mono [OF _ this] have "card {i. i < N \<and> 0 \<le> sock s i} \<le> nat (lst s + 1)" by simp
  moreover have "cnt s = int (card {i. i < N \<and> 0 \<le> sock s i})" "-1 \<le> lst s"
    using o by (auto simp: table_ok_def)
  ultimately show ?thesis by linarith
qed

lemma open_close_id:
  assumes "opens s i s1" "closes s1 i s2" "sock s i = -1"
  shows "sock s2 = sock s \<and> cnt s2 = cnt s"
  using opens_law [OF assms(1)] closes_law [OF assms(2)] assms(3) by auto

end

end
