(* ===== verification/Http.thy ===== *)
theory Http
  imports CBase SessionTable
begin

text \<open>
  libs/stacks/http: the data of the HTTP server (http.h), its buffers, its options and its
  life cycle (http.c). A \<open>HTTP_t *\<close> argument is the record itself; the callers' NULL is outside
  the type, so that the \<open>hs==NULL\<close> test at the head of each function has no counterpart.
  Texts written to \<open>error\<close> are not modelled. The timestamps, I/O totals and formats that only
  d03 uses are left out of the session.
\<close>

section \<open>Constants\<close>

abbreviation (input) HTTP_RET_ERR_UNKNOWN :: int where "HTTP_RET_ERR_UNKNOWN \<equiv> -1000"
abbreviation (input) HTTP_RET_ERR_PARAMETER :: int where "HTTP_RET_ERR_PARAMETER \<equiv> -999"
abbreviation (input) HTTP_RET_ERR_CONNECT :: int where "HTTP_RET_ERR_CONNECT \<equiv> -998"
abbreviation (input) HTTP_RET_ERR_UNAVAILABLE :: int where "HTTP_RET_ERR_UNAVAILABLE \<equiv> -997"
abbreviation (input) HTTP_RET_ERR_AUTHEN :: int where "HTTP_RET_ERR_AUTHEN \<equiv> -996"
abbreviation (input) HTTP_RET_ERR_SEND :: int where "HTTP_RET_ERR_SEND \<equiv> -994"
abbreviation (input) HTTP_RET_ERR_RECEIVE :: int where "HTTP_RET_ERR_RECEIVE \<equiv> -993"
abbreviation (input) HTTP_RET_ERR_DECODE :: int where "HTTP_RET_ERR_DECODE \<equiv> -991"
abbreviation (input) HTTP_RET_ERR_READ :: int where "HTTP_RET_ERR_READ \<equiv> -990"
abbreviation (input) HTTP_RET_ERR_CLOSE :: int where "HTTP_RET_ERR_CLOSE \<equiv> -988"
abbreviation (input) HTTP_RET_OK :: int where "HTTP_RET_OK \<equiv> 0"
abbreviation (input) HTTP_RET_DATA_AVAILABLE :: int where "HTTP_RET_DATA_AVAILABLE \<equiv> 1"
abbreviation (input) HTTP_RET_ERROR_AVAILABLE :: int where "HTTP_RET_ERROR_AVAILABLE \<equiv> 2"
abbreviation (input) HTTP_RET_WAIT_MORE_DATA :: int where "HTTP_RET_WAIT_MORE_DATA \<equiv> 3"
abbreviation (input) HTTP_RET_MAX_SESSION :: int where "HTTP_RET_MAX_SESSION \<equiv> 4"
abbreviation (input) HTTP_RET_SENT :: int where "HTTP_RET_SENT \<equiv> 6"
abbreviation (input) HTTP_RET_SENT_CLOSE :: int where "HTTP_RET_SENT_CLOSE \<equiv> 7"
abbreviation (input) HTTP_RET_SENT_FRAGMENT :: int where "HTTP_RET_SENT_FRAGMENT \<equiv> 8"
abbreviation (input) HTTP_RET_TIMEOUT :: int where "HTTP_RET_TIMEOUT \<equiv> 9"

abbreviation (input) HTTP_MAX_SESSION :: int where "HTTP_MAX_SESSION \<equiv> 4096"
abbreviation (input) HTTP_MAX_HEADER_SIZE :: int where "HTTP_MAX_HEADER_SIZE \<equiv> 16384"
abbreviation (input) HTTP_MAX_QUERY_STRING_LEN :: int where "HTTP_MAX_QUERY_STRING_LEN \<equiv> 1024"
abbreviation (input) HTTP_DATA_BUFFER :: int where "HTTP_DATA_BUFFER \<equiv> 65536"

section \<open>Data\<close>

text \<open>
  A buffer: \<open>d_data\<close> holds the bytes from the start of the data up to the last one written
  since the memory was cleared; the bytes after it are zero. \<open>d_len\<close> is the length in use,
  which may be less.
\<close>

record HSDATA =
  d_size :: int
  d_len :: int
  d_data :: bytes

datatype HTTP_METHOD_TYPE = HTTP_METHOD_POST | HTTP_METHOD_GET | HTTP_METHOD_PUT
  | HTTP_METHOD_DELETE | HTTP_METHOD_TRACE | HTTP_METHOD_OPTIONS | HTTP_METHOD_HEAD
  | HTTP_METHOD_CONNECT

text \<open>The write buffers are a ring of include/linkedlist.h, here the list of its nodes.\<close>

record HSSESSION =
  s_version :: "32 word"
  s_no :: int
  s_sock :: int
  s_r_buffer :: "HSDATA option"
  s_w_curr :: int
  s_w_buffer :: "HSDATA list"
  s_header_length :: int
  s_body_length :: int
  s_read_time :: int
  s_write_time :: int
  s_active_time :: int
  s_remote_ip :: bytes
  s_remote_port :: "16 word"
  s_request_uri :: "bytes option"
  s_http_method :: HTTP_METHOD_TYPE
  s_error_response :: int
  s_block_request :: int
  s_header_version :: bytes
  s_recv_count :: "8 word"
  s_write_count :: "8 word"

record CMD_STATUS =
  c_recv_msg_count :: "64 word"
  c_sent_msg_count :: "64 word"
  c_error_msg_count :: "64 word"
  c_total_response_time :: "64 word"
  c_max_response_time :: "64 word"
  c_avg_response_time :: "64 word"
  c_min_response_time :: "64 word"

record HTTP_t =
  h_version :: "32 word"
  h_port :: int
  h_listen_sock :: int
  h_backlog :: int
  h_session_count :: int
  h_last_session :: int
  h_max_session :: int
  h_header_version :: bytes
  h_session :: "nat \<Rightarrow> HSSESSION"
  h_recv_msg_count :: "64 word"
  h_sent_msg_count :: "64 word"
  h_error_msg_count :: "64 word"
  h_busy_msg_count :: "64 word"
  h_max_response_time :: "64 word"
  h_avg_response_time :: "64 word"
  h_min_response_time :: "64 word"
  h_total_response_time :: "64 word"
  h_GET_status :: CMD_STATUS
  h_PUT_status :: CMD_STATUS
  h_POST_status :: CMD_STATUS
  h_DELETE_status :: CMD_STATUS
  h_METHOD_status :: CMD_STATUS
  h_read_timeout :: int
  h_write_timeout :: int
  h_idle_timeout :: int
  h_max_w_len :: int

text \<open>The structures after \<open>memset\<close> with zero.\<close>

definition session_zero :: HSSESSION where
  "session_zero = \<lparr>s_version = 0, s_no = 0, s_sock = 0, s_r_buffer = None, s_w_curr = 0,
     s_w_buffer = [], s_header_length = 0, s_body_length = 0, s_read_time = 0, s_write_time = 0,
     s_active_time = 0, s_remote_ip = [], s_remote_port = 0, s_request_uri = None,
     s_http_method = HTTP_METHOD_POST, s_error_response = 0, s_block_request = 0,
     s_header_version = [], s_recv_count = 0, s_write_count = 0\<rparr>"

definition status_zero :: CMD_STATUS where
  "status_zero = \<lparr>c_recv_msg_count = 0, c_sent_msg_count = 0, c_error_msg_count = 0,
     c_total_response_time = 0, c_max_response_time = 0, c_avg_response_time = 0,
     c_min_response_time = 0\<rparr>"

section \<open>Buffers\<close>

text \<open>\<open>ADJUST_SIZE\<close>: round up to a multiple; the remainder of a negative number is not positive.\<close>

definition ADJUST_SIZE :: "int \<Rightarrow> int \<Rightarrow> int" where
  "ADJUST_SIZE l s =
     (let r = (if 0 \<le> l then l mod s else - ((- l) mod s)) in if r > 0 then l + (s - r) else l)"

text \<open>\<open>mem_ok\<close> tells whether \<open>malloc\<close> or \<open>realloc\<close> succeeds.\<close>

definition http_alloc_buffer :: "bool \<Rightarrow> HSDATA option \<Rightarrow> int \<Rightarrow> (int \<times> HSDATA option) option" where
  "http_alloc_buffer mem_ok buf len =
     (case buf of
        None \<Rightarrow>
          if mem_ok then Some (0, Some \<lparr>d_size = ADJUST_SIZE len HTTP_DATA_BUFFER, d_len = 0, d_data = []\<rparr>)
          else Some (-1, None)
      | Some d \<Rightarrow> do {
          n \<leftarrow> int_add (d_len d) len;
          if n > d_size d then
            if mem_ok then
              Some (0, Some (d\<lparr>d_size := ADJUST_SIZE n HTTP_DATA_BUFFER,
                               d_data := take (nat (d_len d)) (d_data d)\<rparr>))
            else Some (-1, buf)
          else Some (0, buf)
        })"

text \<open>Reading and writing the memory of a buffer.\<close>

definition mem_read :: "bytes \<Rightarrow> nat \<Rightarrow> byte" where
  "mem_read m j = (if j < length m then m ! j else 0)"

definition mem_write :: "nat \<Rightarrow> bytes \<Rightarrow> bytes \<Rightarrow> bytes" where
  "mem_write p bs m = take p (m @ replicate (p - length m) 0) @ bs @ drop (p + length bs) m"

section \<open>Options\<close>

definition int_of_ulong :: "64 word \<Rightarrow> int" where
  "int_of_ulong w = to_int32 (uint w)"

datatype HTTP_OPTION =
    HTTP_OPTION_PORT
  | HTTP_OPTION_BACKLOG
  | HTTP_OPTION_MAX_SESSION
  | HTTP_OPTION_CONNECT_TIMEOUT
  | HTTP_OPTION_IDLE_TIMEOUT
  | HTTP_OPTION_READ_TIMEOUT
  | HTTP_OPTION_WRITE_TIMEOUT
  | HTTP_OPTION_MAX_WRITE_LENGHT
  | HTTP_OPTION_LISTENER
  | HTTP_OPTION_SESSION_COUNT
  | HTTP_OPTION_SENT_COUNT
  | HTTP_OPTION_RECV_COUNT
  | HTTP_OPTION_ERROR_COUNT
  | HTTP_OPTION_BUSY_COUNT
  | HTTP_OPTION_MAX_RESPONSE
  | HTTP_OPTION_MIN_RESPONSE
  | HTTP_OPTION_AVG_RESPONSE
  | HTTP_OPTION_RECV_GET_COUNT
  | HTTP_OPTION_RECV_PUT_COUNT
  | HTTP_OPTION_RECV_POST_COUNT
  | HTTP_OPTION_RECV_DELETE_COUNT
  | HTTP_OPTION_RECV_METHOD_COUNT
  | HTTP_OPTION_SENT_GET_COUNT
  | HTTP_OPTION_SENT_PUT_COUNT
  | HTTP_OPTION_SENT_POST_COUNT
  | HTTP_OPTION_SENT_DELETE_COUNT
  | HTTP_OPTION_SENT_METHOD_COUNT
  | HTTP_OPTION_MAX_GET_RESPONSE
  | HTTP_OPTION_MAX_PUT_RESPONSE
  | HTTP_OPTION_MAX_POST_RESPONSE
  | HTTP_OPTION_MAX_DELETE_RESPONSE
  | HTTP_OPTION_MAX_METHOD_RESPONSE
  | HTTP_OPTION_MIN_GET_RESPONSE
  | HTTP_OPTION_MIN_PUT_RESPONSE
  | HTTP_OPTION_MIN_POST_RESPONSE
  | HTTP_OPTION_MIN_DELETE_RESPONSE
  | HTTP_OPTION_MIN_METHOD_RESPONSE
  | HTTP_OPTION_AVG_GET_RESPONSE
  | HTTP_OPTION_AVG_PUT_RESPONSE
  | HTTP_OPTION_AVG_POST_RESPONSE
  | HTTP_OPTION_AVG_DELETE_RESPONSE
  | HTTP_OPTION_AVG_METHOD_RESPONSE
  | HTTP_OPTION_RESERVED

definition HTTP_svr_get_option :: "HTTP_t \<Rightarrow> HTTP_OPTION \<Rightarrow> int" where
  "HTTP_svr_get_option hs opt =
     (case opt of
        HTTP_OPTION_MAX_SESSION \<Rightarrow> h_max_session hs
      | HTTP_OPTION_PORT \<Rightarrow> h_port hs
      | HTTP_OPTION_LISTENER \<Rightarrow> h_listen_sock hs
      | HTTP_OPTION_SESSION_COUNT \<Rightarrow> h_session_count hs
      | HTTP_OPTION_SENT_COUNT \<Rightarrow> int_of_ulong (h_sent_msg_count hs)
      | HTTP_OPTION_SENT_GET_COUNT \<Rightarrow> int_of_ulong (c_sent_msg_count (h_GET_status hs))
      | HTTP_OPTION_SENT_PUT_COUNT \<Rightarrow> int_of_ulong (c_sent_msg_count (h_PUT_status hs))
      | HTTP_OPTION_SENT_POST_COUNT \<Rightarrow> int_of_ulong (c_sent_msg_count (h_POST_status hs))
      | HTTP_OPTION_SENT_DELETE_COUNT \<Rightarrow> int_of_ulong (c_sent_msg_count (h_DELETE_status hs))
      | HTTP_OPTION_SENT_METHOD_COUNT \<Rightarrow> int_of_ulong (c_sent_msg_count (h_METHOD_status hs))
      | HTTP_OPTION_RECV_COUNT \<Rightarrow> int_of_ulong (h_recv_msg_count hs)
      | HTTP_OPTION_RECV_GET_COUNT \<Rightarrow> int_of_ulong (c_recv_msg_count (h_GET_status hs))
      | HTTP_OPTION_RECV_PUT_COUNT \<Rightarrow> int_of_ulong (c_recv_msg_count (h_PUT_status hs))
      | HTTP_OPTION_RECV_POST_COUNT \<Rightarrow> int_of_ulong (c_recv_msg_count (h_POST_status hs))
      | HTTP_OPTION_RECV_DELETE_COUNT \<Rightarrow> int_of_ulong (c_recv_msg_count (h_DELETE_status hs))
      | HTTP_OPTION_RECV_METHOD_COUNT \<Rightarrow> int_of_ulong (c_recv_msg_count (h_METHOD_status hs))
      | HTTP_OPTION_ERROR_COUNT \<Rightarrow> int_of_ulong (h_error_msg_count hs)
      | HTTP_OPTION_BUSY_COUNT \<Rightarrow> int_of_ulong (h_busy_msg_count hs)
      | HTTP_OPTION_MAX_RESPONSE \<Rightarrow> int_of_ulong (h_max_response_time hs)
      | HTTP_OPTION_MAX_GET_RESPONSE \<Rightarrow> int_of_ulong (c_max_response_time (h_GET_status hs))
      | HTTP_OPTION_MAX_PUT_RESPONSE \<Rightarrow> int_of_ulong (c_max_response_time (h_PUT_status hs))
      | HTTP_OPTION_MAX_POST_RESPONSE \<Rightarrow> int_of_ulong (c_max_response_time (h_POST_status hs))
      | HTTP_OPTION_MAX_DELETE_RESPONSE \<Rightarrow> int_of_ulong (c_max_response_time (h_DELETE_status hs))
      | HTTP_OPTION_MAX_METHOD_RESPONSE \<Rightarrow> int_of_ulong (c_max_response_time (h_METHOD_status hs))
      | HTTP_OPTION_MIN_RESPONSE \<Rightarrow> int_of_ulong (h_min_response_time hs)
      | HTTP_OPTION_MIN_GET_RESPONSE \<Rightarrow> int_of_ulong (c_min_response_time (h_GET_status hs))
      | HTTP_OPTION_MIN_PUT_RESPONSE \<Rightarrow> int_of_ulong (c_min_response_time (h_PUT_status hs))
      | HTTP_OPTION_MIN_POST_RESPONSE \<Rightarrow> int_of_ulong (c_min_response_time (h_POST_status hs))
      | HTTP_OPTION_MIN_DELETE_RESPONSE \<Rightarrow> int_of_ulong (c_min_response_time (h_DELETE_status hs))
      | HTTP_OPTION_MIN_METHOD_RESPONSE \<Rightarrow> int_of_ulong (c_min_response_time (h_METHOD_status hs))
      | HTTP_OPTION_AVG_RESPONSE \<Rightarrow> int_of_ulong (h_avg_response_time hs)
      | HTTP_OPTION_AVG_GET_RESPONSE \<Rightarrow> int_of_ulong (c_avg_response_time (h_GET_status hs))
      | HTTP_OPTION_AVG_PUT_RESPONSE \<Rightarrow> int_of_ulong (c_avg_response_time (h_PUT_status hs))
      | HTTP_OPTION_AVG_POST_RESPONSE \<Rightarrow> int_of_ulong (c_avg_response_time (h_POST_status hs))
      | HTTP_OPTION_AVG_DELETE_RESPONSE \<Rightarrow> int_of_ulong (c_avg_response_time (h_DELETE_status hs))
      | HTTP_OPTION_AVG_METHOD_RESPONSE \<Rightarrow> int_of_ulong (c_avg_response_time (h_METHOD_status hs))
      | _ \<Rightarrow> -1)"

definition set_option :: "HTTP_t \<Rightarrow> HTTP_OPTION \<Rightarrow> int \<Rightarrow> int \<times> HTTP_t" where
  "set_option hs opt n =
     (case opt of
        HTTP_OPTION_PORT \<Rightarrow>
          if n > 0xFFFF then (HTTP_RET_ERR_PARAMETER, hs) else (HTTP_RET_OK, hs\<lparr>h_port := n\<rparr>)
      | HTTP_OPTION_MAX_SESSION \<Rightarrow>
          if n > HTTP_MAX_SESSION then (HTTP_RET_ERR_PARAMETER, hs) else (HTTP_RET_OK, hs\<lparr>h_max_session := n\<rparr>)
      | HTTP_OPTION_IDLE_TIMEOUT \<Rightarrow> (HTTP_RET_OK, hs\<lparr>h_idle_timeout := n\<rparr>)
      | HTTP_OPTION_READ_TIMEOUT \<Rightarrow> (HTTP_RET_OK, hs\<lparr>h_read_timeout := n\<rparr>)
      | HTTP_OPTION_WRITE_TIMEOUT \<Rightarrow> (HTTP_RET_OK, hs\<lparr>h_write_timeout := n\<rparr>)
      | HTTP_OPTION_MAX_WRITE_LENGHT \<Rightarrow> (HTTP_RET_OK, hs\<lparr>h_max_w_len := n\<rparr>)
      | HTTP_OPTION_SENT_COUNT \<Rightarrow>
          (HTTP_RET_OK, hs\<lparr>h_sent_msg_count := word_of_int n\<rparr>)
      | HTTP_OPTION_RECV_COUNT \<Rightarrow>
          (HTTP_RET_OK, hs\<lparr>h_recv_msg_count := word_of_int n\<rparr>)
      | HTTP_OPTION_ERROR_COUNT \<Rightarrow>
          (HTTP_RET_OK, hs\<lparr>h_error_msg_count := word_of_int n\<rparr>)
      | HTTP_OPTION_BUSY_COUNT \<Rightarrow>
          (HTTP_RET_OK, hs\<lparr>h_busy_msg_count := word_of_int n\<rparr>)
      | HTTP_OPTION_SENT_GET_COUNT \<Rightarrow>
          (HTTP_RET_OK, hs\<lparr>h_GET_status := h_GET_status hs\<lparr>c_sent_msg_count := word_of_int n\<rparr>\<rparr>)
      | HTTP_OPTION_SENT_PUT_COUNT \<Rightarrow>
          (HTTP_RET_OK, hs\<lparr>h_PUT_status := h_PUT_status hs\<lparr>c_sent_msg_count := word_of_int n\<rparr>\<rparr>)
      | HTTP_OPTION_SENT_POST_COUNT \<Rightarrow>
          (HTTP_RET_OK, hs\<lparr>h_POST_status := h_POST_status hs\<lparr>c_sent_msg_count := word_of_int n\<rparr>\<rparr>)
      | HTTP_OPTION_SENT_DELETE_COUNT \<Rightarrow>
          (HTTP_RET_OK, hs\<lparr>h_DELETE_status := h_DELETE_status hs\<lparr>c_sent_msg_count := word_of_int n\<rparr>\<rparr>)
      | HTTP_OPTION_SENT_METHOD_COUNT \<Rightarrow>
          (HTTP_RET_OK, hs\<lparr>h_METHOD_status := h_METHOD_status hs\<lparr>c_sent_msg_count := word_of_int n\<rparr>\<rparr>)
      | HTTP_OPTION_RECV_GET_COUNT \<Rightarrow>
          (HTTP_RET_OK, hs\<lparr>h_GET_status := h_GET_status hs\<lparr>c_recv_msg_count := word_of_int n\<rparr>\<rparr>)
      | HTTP_OPTION_RECV_PUT_COUNT \<Rightarrow>
          (HTTP_RET_OK, hs\<lparr>h_PUT_status := h_PUT_status hs\<lparr>c_recv_msg_count := word_of_int n\<rparr>\<rparr>)
      | HTTP_OPTION_RECV_POST_COUNT \<Rightarrow>
          (HTTP_RET_OK, hs\<lparr>h_POST_status := h_POST_status hs\<lparr>c_recv_msg_count := word_of_int n\<rparr>\<rparr>)
      | HTTP_OPTION_RECV_DELETE_COUNT \<Rightarrow>
          (HTTP_RET_OK, hs\<lparr>h_DELETE_status := h_DELETE_status hs\<lparr>c_recv_msg_count := word_of_int n\<rparr>\<rparr>)
      | HTTP_OPTION_RECV_METHOD_COUNT \<Rightarrow>
          (HTTP_RET_OK, hs\<lparr>h_METHOD_status := h_METHOD_status hs\<lparr>c_recv_msg_count := word_of_int n\<rparr>\<rparr>)
      | HTTP_OPTION_MAX_RESPONSE \<Rightarrow>
          (HTTP_RET_OK, hs\<lparr>h_max_response_time := word_of_int n\<rparr>)
      | HTTP_OPTION_MAX_GET_RESPONSE \<Rightarrow>
          (HTTP_RET_OK, hs\<lparr>h_GET_status := h_GET_status hs\<lparr>c_max_response_time := word_of_int n\<rparr>\<rparr>)
      | HTTP_OPTION_MAX_PUT_RESPONSE \<Rightarrow>
          (HTTP_RET_OK, hs\<lparr>h_PUT_status := h_PUT_status hs\<lparr>c_max_response_time := word_of_int n\<rparr>\<rparr>)
      | HTTP_OPTION_MAX_POST_RESPONSE \<Rightarrow>
          (HTTP_RET_OK, hs\<lparr>h_POST_status := h_POST_status hs\<lparr>c_max_response_time := word_of_int n\<rparr>\<rparr>)
      | HTTP_OPTION_MAX_DELETE_RESPONSE \<Rightarrow>
          (HTTP_RET_OK, hs\<lparr>h_DELETE_status := h_DELETE_status hs\<lparr>c_max_response_time := word_of_int n\<rparr>\<rparr>)
      | HTTP_OPTION_MAX_METHOD_RESPONSE \<Rightarrow>
          (HTTP_RET_OK, hs\<lparr>h_METHOD_status := h_METHOD_status hs\<lparr>c_max_response_time := word_of_int n\<rparr>\<rparr>)
      | HTTP_OPTION_MIN_RESPONSE \<Rightarrow>
          (HTTP_RET_OK, hs\<lparr>h_min_response_time := word_of_int n\<rparr>)
      | HTTP_OPTION_MIN_GET_RESPONSE \<Rightarrow>
          (HTTP_RET_OK, hs\<lparr>h_GET_status := h_GET_status hs\<lparr>c_min_response_time := word_of_int n\<rparr>\<rparr>)
      | HTTP_OPTION_MIN_PUT_RESPONSE \<Rightarrow>
          (HTTP_RET_OK, hs\<lparr>h_PUT_status := h_PUT_status hs\<lparr>c_min_response_time := word_of_int n\<rparr>\<rparr>)
      | HTTP_OPTION_MIN_POST_RESPONSE \<Rightarrow>
          (HTTP_RET_OK, hs\<lparr>h_POST_status := h_POST_status hs\<lparr>c_min_response_time := word_of_int n\<rparr>\<rparr>)
      | HTTP_OPTION_MIN_DELETE_RESPONSE \<Rightarrow>
          (HTTP_RET_OK, hs\<lparr>h_DELETE_status := h_DELETE_status hs\<lparr>c_min_response_time := word_of_int n\<rparr>\<rparr>)
      | HTTP_OPTION_MIN_METHOD_RESPONSE \<Rightarrow>
          (HTTP_RET_OK, hs\<lparr>h_METHOD_status := h_METHOD_status hs\<lparr>c_min_response_time := word_of_int n\<rparr>\<rparr>)
      | HTTP_OPTION_AVG_RESPONSE \<Rightarrow>
          (HTTP_RET_OK, hs\<lparr>h_avg_response_time := word_of_int n\<rparr>)
      | HTTP_OPTION_AVG_GET_RESPONSE \<Rightarrow>
          (HTTP_RET_OK, hs\<lparr>h_GET_status := h_GET_status hs\<lparr>c_avg_response_time := word_of_int n\<rparr>\<rparr>)
      | HTTP_OPTION_AVG_PUT_RESPONSE \<Rightarrow>
          (HTTP_RET_OK, hs\<lparr>h_PUT_status := h_PUT_status hs\<lparr>c_avg_response_time := word_of_int n\<rparr>\<rparr>)
      | HTTP_OPTION_AVG_POST_RESPONSE \<Rightarrow>
          (HTTP_RET_OK, hs\<lparr>h_POST_status := h_POST_status hs\<lparr>c_avg_response_time := word_of_int n\<rparr>\<rparr>)
      | HTTP_OPTION_AVG_DELETE_RESPONSE \<Rightarrow>
          (HTTP_RET_OK, hs\<lparr>h_DELETE_status := h_DELETE_status hs\<lparr>c_avg_response_time := word_of_int n\<rparr>\<rparr>)
      | HTTP_OPTION_AVG_METHOD_RESPONSE \<Rightarrow>
          (HTTP_RET_OK, hs\<lparr>h_METHOD_status := h_METHOD_status hs\<lparr>c_avg_response_time := word_of_int n\<rparr>\<rparr>)
      | _ \<Rightarrow> (HTTP_RET_ERR_PARAMETER, hs))"

section \<open>Life cycle of the server\<close>

definition slot_init :: "nat \<Rightarrow> HSSESSION \<Rightarrow> HSSESSION" where
  "slot_init i s = s\<lparr>s_no := int i, s_sock := -1, s_r_buffer := None, s_w_buffer := [],
     s_request_uri := Some [], s_http_method := HTTP_METHOD_POST, s_error_response := 0,
     s_block_request := 0\<rparr>"

text \<open>
  \<open>rnd\<close> is the result of \<open>SDF_random\<close>, \<open>uri_ok i\<close> whether the allocation of the \<open>i\<close>-th
  \<open>request_uri\<close> succeeds (it is cleared unchecked). The inner \<open>None\<close> is the NULL returned when
  the first allocation fails; \<open>http_version\<close> is \<open>None\<close> for NULL and must fit its 32 bytes.
\<close>

definition HTTP_svr_init ::
    "bool \<Rightarrow> 32 word \<Rightarrow> (nat \<Rightarrow> bool) \<Rightarrow> int \<Rightarrow> int \<Rightarrow> int \<Rightarrow> bytes option \<Rightarrow> HTTP_t option option" where
  "HTTP_svr_init mem_ok rnd uri_ok port backlog max_session http_version =
     (if \<not> mem_ok then Some None
      else
        (let maxs = (if max_session < HTTP_MAX_SESSION then max_session else HTTP_MAX_SESSION);
             hv = (case http_version of None \<Rightarrow> [] | Some v \<Rightarrow> v)
         in
         if length hv \<ge> 32 \<or> \<not> list_all uri_ok [0..<nat maxs] then None
         else Some (Some \<lparr>h_version = rnd, h_port = port, h_listen_sock = 0, h_backlog = backlog,
           h_session_count = 0, h_last_session = -1, h_max_session = maxs, h_header_version = hv,
           h_session = (\<lambda>i. if int i < maxs then slot_init i session_zero else session_zero),
           h_recv_msg_count = 0, h_sent_msg_count = 0, h_error_msg_count = 0,
           h_busy_msg_count = 0, h_max_response_time = 0, h_avg_response_time = 0,
           h_min_response_time = 0, h_total_response_time = 0, h_GET_status = status_zero,
           h_PUT_status = status_zero, h_POST_status = status_zero, h_DELETE_status = status_zero,
           h_METHOD_status = status_zero, h_read_timeout = 0, h_write_timeout = 0,
           h_idle_timeout = 0, h_max_w_len = 0\<rparr>)))"

text \<open>
  \<open>HTTP_svr_open\<close>: the results of \<open>socket\<close>, \<open>setsockopt\<close>, \<open>bind\<close> and \<open>listen\<close> are parameters; the
  result is the return value, the server and the events on descriptors.
\<close>

definition HTTP_svr_open ::
    "int \<Rightarrow> int \<Rightarrow> int \<Rightarrow> int \<Rightarrow> HTTP_t \<Rightarrow> int \<times> HTTP_t \<times> os_event list" where
  "HTTP_svr_open sk opt_r bind_r listen_r hs =
     (if sk < 0 then (HTTP_RET_ERR_CONNECT, hs, [])
      else if opt_r \<noteq> 0 then (HTTP_RET_ERR_CONNECT, hs, [CloseFd sk])
      else if bind_r \<noteq> 0 then (HTTP_RET_ERR_CONNECT, hs, [CloseFd sk])
      else if listen_r \<noteq> 0 then (HTTP_RET_ERR_CONNECT, hs, [CloseFd sk])
      else (HTTP_RET_OK, hs\<lparr>h_listen_sock := sk\<rparr>, []))"

definition HTTP_svr_close_listener ::
    "bool \<Rightarrow> (int \<Rightarrow> int) \<Rightarrow> HTTP_t \<Rightarrow> int \<times> HTTP_t \<times> os_event list" where
  "HTTP_svr_close_listener cb close_r hs =
     (if h_listen_sock hs \<ge> 0 then
        (if close_r (h_listen_sock hs) \<noteq> 0 then -1 else HTTP_RET_OK,
         hs\<lparr>h_listen_sock := -1\<rparr>,
         clear_events cb (h_listen_sock hs) @ [CloseFd (h_listen_sock hs)])
      else (HTTP_RET_OK, hs, []))"

text \<open>One iteration of the loop of \<open>HTTP_svr_close\<close> on the slot \<open>i\<close>.\<close>

definition svr_close_slot ::
    "bool \<Rightarrow> (int \<Rightarrow> int) \<Rightarrow> nat \<Rightarrow> int \<times> HTTP_t \<times> os_event list \<Rightarrow> int \<times> HTTP_t \<times> os_event list" where
  "svr_close_slot cb close_r i st =
     (let (ret, hs, ev) = st;
          s = (h_session hs i)\<lparr>s_r_buffer := None, s_w_buffer := []\<rparr>
      in
      if s_sock s \<ge> 0 then
        (if close_r (s_sock s) \<noteq> 0 then -1 else ret,
         hs\<lparr>h_session := (h_session hs)(i := s\<lparr>s_sock := -1\<rparr>)\<rparr>,
         ev @ clear_events cb (s_sock s) @ [Shutdown (s_sock s), CloseFd (s_sock s)])
      else (ret, hs\<lparr>h_session := (h_session hs)(i := s)\<rparr>, ev))"

definition HTTP_svr_close ::
    "bool \<Rightarrow> (int \<Rightarrow> int) \<Rightarrow> HTTP_t \<Rightarrow> int \<times> HTTP_t \<times> os_event list" where
  "HTTP_svr_close cb close_r hs =
     (let (ret, hs, ev) =
        fold (svr_close_slot cb close_r) [0..<nat (h_last_session hs + 1)] (HTTP_RET_OK, hs, []);
          hs = hs\<lparr>h_last_session := -1, h_session_count := 0\<rparr>;
          (r, hs, ev') = HTTP_svr_close_listener cb close_r hs
      in (if r \<noteq> 0 then -1 else ret, hs, ev @ ev'))"

section \<open>Properties\<close>

lemma int_of_ulong_of_int: "- (2 ^ 31) \<le> n \<Longrightarrow> n < 2 ^ 31 \<Longrightarrow> int_of_ulong (word_of_int n) = n"
proof -
  assume n: "- (2 ^ 31) \<le> n" "n < 2 ^ 31"
  have "uint (word_of_int n :: 64 word) = n mod 2 ^ 64" by (simp add: uint_word_of_int)
  then have "int_of_ulong (word_of_int n) = (n mod 2 ^ 64 + 2 ^ 31) mod 2 ^ 32 - 2 ^ 31"
    by (simp add: int_of_ulong_def to_int32_def)
  also have "(n mod 2 ^ 64 + 2 ^ 31) mod 2 ^ 32 = (n + 2 ^ 31) mod (2 ^ 32 :: int)"
  proof -
    have "n mod 2 ^ 64 mod 2 ^ 32 = n mod (2 ^ 32 :: int)"
      by (rule mod_mod_cancel) (simp add: le_imp_power_dvd)
    then show ?thesis by (metis mod_add_left_eq)
  qed
  also have "\<dots> - 2 ^ 31 = n" using n by simp
  finally show ?thesis .
qed

text \<open>The options that \<open>HTTP_svr_get_option\<close> does not know although they can be set.\<close>

definition set_only :: "HTTP_OPTION \<Rightarrow> bool" where
  "set_only opt \<longleftrightarrow> opt \<in> {HTTP_OPTION_IDLE_TIMEOUT, HTTP_OPTION_READ_TIMEOUT,
     HTTP_OPTION_WRITE_TIMEOUT, HTTP_OPTION_MAX_WRITE_LENGHT}"

lemma set_option_get:
  assumes "set_option hs opt n = (HTTP_RET_OK, hs')" "- (2 ^ 31) \<le> n" "n < 2 ^ 31"
  shows "\<not> set_only opt \<Longrightarrow> HTTP_svr_get_option hs' opt = n"
  using assms(1) int_of_ulong_of_int [OF assms(2,3)]
  by (cases opt) (auto simp: set_option_def HTTP_svr_get_option_def set_only_def split: if_splits)

lemma set_option_other:
  assumes "opt' \<noteq> opt"
  shows "HTTP_svr_get_option (snd (set_option hs opt n)) opt' = HTTP_svr_get_option hs opt'"
proof -
  have "opt' \<noteq> opt \<longrightarrow>
      HTTP_svr_get_option (snd (set_option hs opt n)) opt' = HTTP_svr_get_option hs opt'"
    by (cases opt; simp only: set_option_def HTTP_OPTION.case if_split snd_conv; cases opt';
        simp add: HTTP_svr_get_option_def)
  then show ?thesis using assms by simp
qed

text \<open>
  An option that is set reads back the value it was set to, for every value of type
  \<open>int\<close> (the counters are kept as unsigned long); setting one option changes the value that
  is read of no other, and a rejected value changes nothing.
\<close>

theorem http_option_roundtrip:
  assumes "set_option hs opt n = (r, hs')" "- (2 ^ 31) \<le> n" "n < 2 ^ 31"
  shows "(r = HTTP_RET_OK \<and> \<not> set_only opt \<longrightarrow> HTTP_svr_get_option hs' opt = n) \<and>
     (\<forall>opt'. opt' \<noteq> opt \<longrightarrow> HTTP_svr_get_option hs' opt' = HTTP_svr_get_option hs opt') \<and>
     (r = HTTP_RET_OK \<or> r = HTTP_RET_ERR_PARAMETER \<and> hs' = hs)"
proof -
  have "r = HTTP_RET_OK \<or> r = HTTP_RET_ERR_PARAMETER \<and> hs' = hs"
    using assms(1) by (cases opt) (auto simp: set_option_def split: if_splits)
  then show ?thesis
    using set_option_get [OF _ assms(2,3), of hs opt hs'] set_option_other [of _ opt hs n] assms(1)
    by auto
qed

definition demo_server :: "int \<Rightarrow> HTTP_t" where
  "demo_server m =
     (case HTTP_svr_init True 7 (\<lambda>_. True) 8080 5 m (Some (str ''HTTP/1.1'')) of Some (Some hs) \<Rightarrow> hs)"

theorem http_option_roundtrip_witness:
  "HTTP_svr_get_option (snd (set_option (demo_server 3) HTTP_OPTION_SENT_PUT_COUNT (-5)))
     HTTP_OPTION_SENT_PUT_COUNT = -5"
  using http_option_roundtrip [of "demo_server 3" HTTP_OPTION_SENT_PUT_COUNT "-5"]
  by (auto simp: set_option_def set_only_def)

text \<open>The sockets of the slots as a table.\<close>

abbreviation h_sock :: "HTTP_t \<Rightarrow> nat \<Rightarrow> int" where
  "h_sock hs i \<equiv> s_sock (h_session hs i)"

lemma svr_close_loop:
  "fold (svr_close_slot cb cr) [0..<n] (ret, hs, ev) =
     (if \<exists>i < n. 0 \<le> h_sock hs i \<and> cr (h_sock hs i) \<noteq> 0 then -1 else ret,
      hs\<lparr>h_session := (\<lambda>i. if i < n then (h_session hs i)
           \<lparr>s_r_buffer := None, s_w_buffer := [],
             s_sock := if 0 \<le> h_sock hs i then -1 else h_sock hs i\<rparr> else h_session hs i)\<rparr>,
      ev @ concat (map (\<lambda>i. close_events cb (h_sock hs i)) [0..<n]))"
proof (induction n)
  case 0
  show ?case by simp
next
  case (Suc n)
  show ?case unfolding fold_upt_Suc unfolding Suc unfolding svr_close_slot_def
    by (auto simp: Let_def close_events_def less_Suc_eq fun_eq_iff)
qed

text \<open>
  C39. When the table invariant holds for \<open>N\<close> slots, \<open>HTTP_svr_close\<close> clears, shuts down and
  closes every open socket of the table exactly once and in slot order, then the listener, and
  nothing else; it leaves an empty table, and returns 0 exactly when every \<open>close\<close> succeeded.
\<close>

theorem http_svr_close_all:
  assumes "table_ok N (h_sock hs) (h_last_session hs) (h_session_count hs)"
    and "HTTP_svr_close cb cr hs = (ret, hs', ev)"
  shows "ev = concat (map (\<lambda>i. close_events cb (h_sock hs i)) [0..<N]) @
       (if h_listen_sock hs \<ge> 0
        then clear_events cb (h_listen_sock hs) @ [CloseFd (h_listen_sock hs)] else []) \<and>
     (\<forall>i < N. h_sock hs' i < 0) \<and> h_listen_sock hs' < 0 \<and>
     table_ok N (h_sock hs') (h_last_session hs') (h_session_count hs') \<and>
     (ret = HTTP_RET_OK \<longleftrightarrow>
        (\<forall>i < N. 0 \<le> h_sock hs i \<longrightarrow> cr (h_sock hs i) = 0) \<and>
        (0 \<le> h_listen_sock hs \<longrightarrow> cr (h_listen_sock hs) = 0))"
proof -
  define m where "m = nat (h_last_session hs + 1)"
  have m: "m \<le> N" "\<And>i. m \<le> i \<Longrightarrow> i < N \<Longrightarrow> h_sock hs i < 0"
    using assms(1) unfolding table_ok_def m_def by (auto simp: not_le [symmetric])
  have open_lt: "i < m" if "i < N" "0 \<le> h_sock hs i" for i
    using m(2) [of i] that by (cases "m \<le> i") auto
  have cc: "concat (map (\<lambda>i. close_events cb (h_sock hs i)) [0..<N]) =
      concat (map (\<lambda>i. close_events cb (h_sock hs i)) [0..<m])"
    by (rule concat_map_extend [OF m(1)]) (use m(2) in \<open>force simp: close_events_def\<close>)
  have neg: "h_sock hs' i < 0" if "i < N" for i
    using assms(2) m(2) [of i] that
    by (auto simp: HTTP_svr_close_def svr_close_loop Let_def m_def [symmetric]
        HTTP_svr_close_listener_def not_le split: if_splits)
  then have tab: "table_ok N (h_sock hs') (-1) 0" by (rule table_ok_empty)
  from assms(2) have ev: "ev = concat (map (\<lambda>i. close_events cb (h_sock hs i)) [0..<m]) @
       (if h_listen_sock hs \<ge> 0
        then clear_events cb (h_listen_sock hs) @ [CloseFd (h_listen_sock hs)] else [])"
    and rest: "h_listen_sock hs' < 0" "h_last_session hs' = -1" "h_session_count hs' = 0"
    and ret: "ret = 0 \<longleftrightarrow> (\<forall>i < m. 0 \<le> h_sock hs i \<longrightarrow> cr (h_sock hs i) = 0) \<and>
        (0 \<le> h_listen_sock hs \<longrightarrow> cr (h_listen_sock hs) = 0)"
    by (auto simp: HTTP_svr_close_def svr_close_loop Let_def m_def [symmetric]
        HTTP_svr_close_listener_def split: if_splits)
  have "(\<forall>i < m. 0 \<le> h_sock hs i \<longrightarrow> cr (h_sock hs i) = 0) \<longleftrightarrow>
      (\<forall>i < N. 0 \<le> h_sock hs i \<longrightarrow> cr (h_sock hs i) = 0)"
    using m(1) open_lt by (meson less_le_trans)
  then show ?thesis unfolding cc ev [symmetric] using neg tab rest ret by simp
qed

lemma init_table:
  assumes "HTTP_svr_init True rnd (\<lambda>_. True) port backlog m hv = Some (Some hs)"
  shows "table_ok (nat (h_max_session hs)) (h_sock hs) (h_last_session hs) (h_session_count hs) \<and>
    h_max_session hs = min m HTTP_MAX_SESSION"
proof -
  have "h_sock hs i < 0" if "i < nat (h_max_session hs)" for i
    using assms that by (auto simp: HTTP_svr_init_def Let_def slot_init_def split: if_splits)
  from table_ok_empty [of _ "h_sock hs", OF this] show ?thesis
    using assms by (auto simp: HTTP_svr_init_def Let_def min_def split: if_splits)
qed

lemma demo_server_init: "HTTP_svr_init True 7 (\<lambda>_. True) 8080 5 3 (Some (str ''HTTP/1.1'')) =
    Some (Some (demo_server 3))"
  by (simp add: demo_server_def HTTP_svr_init_def Let_def list_all_iff)

theorem http_svr_close_all_witness:
  "\<exists>ret hs' ev. HTTP_svr_close True (\<lambda>_. 0) (demo_server 3) = (ret, hs', ev) \<and> ret = 0 \<and>
     h_listen_sock hs' < 0 \<and> h_sock hs' 2 < 0"
proof -
  have t: "table_ok 3 (h_sock (demo_server 3)) (h_last_session (demo_server 3))
      (h_session_count (demo_server 3))" and "h_max_session (demo_server 3) = 3"
    using init_table [OF demo_server_init] by auto
  obtain ret hs' ev where c: "HTTP_svr_close True (\<lambda>_. 0) (demo_server 3) = (ret, hs', ev)"
    by (cases "HTTP_svr_close True (\<lambda>_. 0) (demo_server 3)")
  from http_svr_close_all [OF t c] have "\<forall>i<3. h_sock hs' i < 0" "h_listen_sock hs' < 0" "ret = 0"
    by simp_all
  with c show ?thesis by auto
qed

text \<open>
  A server that is closed without having been opened: the listening socket of a new server is 0,
  which passes for a descriptor, so that the process's standard input is closed.
\<close>

lemma http_close_unopened:
  "\<exists>ret hs' ev. HTTP_svr_close cb cr (demo_server 3) = (ret, hs', ev) \<and> CloseFd 0 \<in> set ev"
  by (simp add: HTTP_svr_close_def HTTP_svr_close_listener_def demo_server_def HTTP_svr_init_def Let_def list_all_iff)

end
