(* ===== verification/Rauthen.thy ===== *)
theory Rauthen
  imports CBase
begin

text \<open>
  libs/stacks/rauthen/rauthen.c: the list of trusted hosts and the check of a remote address
  against it. The list of \<open>HOST_EQUIV\<close> nodes is a ring of include/linkedlist.h and appears
  here as the list of the \<open>data\<close> fields in ring order (theory LinkedList justifies this); the
  name service (\<open>innetgr\<close>, \<open>inet_addr\<close>, \<open>gethostbyname\<close>), the password and group files and the
  file system are parameters.
\<close>

section \<open>Checking a host\<close>

record resolver =
  innetgr :: "bytes \<Rightarrow> bytes \<Rightarrow> int"
  inet_addr :: "bytes \<Rightarrow> 32 word"
  gethostbyname :: "bytes \<Rightarrow> 32 word list option"

definition RAUTHEN_FAIL :: int where "RAUTHEN_FAIL = 0"

definition RAUTHEN_PASS :: int where "RAUTHEN_PASS = 1"

definition rauthen_checkhost :: "resolver \<Rightarrow> 32 word \<Rightarrow> bytes \<Rightarrow> bytes \<Rightarrow> int" where
  "rauthen_checkhost env raddr lhost rhost =
     (if prefix_of (str ''+@'') lhost then innetgr env (drop 2 lhost) rhost
      else if prefix_of (str ''-@'') lhost then - innetgr env (drop 2 lhost) rhost
      else if \<not> prefix_of (str ''-'') lhost \<and> lhost = str ''+'' then 1
      else
        (let (negate, lhost) =
           (if prefix_of (str ''-'') lhost then (-1, drop 1 lhost) else (1, lhost))
         in
         if lhost \<noteq> [] \<and> isdigit (hd lhost) \<and> inet_addr env lhost \<noteq> -1
         then negate * (if raddr XOR inet_addr env lhost = 0 then 1 else 0)
         else
           (case gethostbyname env lhost of
              None \<Rightarrow> 0
            | Some addrs \<Rightarrow> if raddr \<in> set addrs then negate else 0)))"

text \<open>The loop over the ring visits every node once and stops at the first that passes.\<close>

fun rauthen_loop :: "resolver \<Rightarrow> 32 word \<Rightarrow> bytes \<Rightarrow> bytes list \<Rightarrow> int" where
  "rauthen_loop env raddr rhost [] = RAUTHEN_FAIL"
| "rauthen_loop env raddr rhost (he # hl) =
     (if rauthen_checkhost env raddr he rhost = 1 then RAUTHEN_PASS
      else rauthen_loop env raddr rhost hl)"

definition rauthen_verify :: "resolver \<Rightarrow> bytes list \<Rightarrow> 32 word \<Rightarrow> bytes \<Rightarrow> int" where
  "rauthen_verify env hl raddr rhost =
     (if hl = [] then RAUTHEN_FAIL else rauthen_loop env raddr rhost hl)"

section \<open>Reading the host files\<close>

definition INIT_RHOST_BUFFER :: nat where "INIT_RHOST_BUFFER = 256"

definition RAUTHEN_MAX_LINE_LENGTH :: nat where "RAUTHEN_MAX_LINE_LENGTH = 64"

text \<open>\<open>fgets (pbuf, n, f)\<close>: at most \<open>n - 1\<close> bytes, up to and with the first newline.\<close>

definition fgets :: "nat \<Rightarrow> bytes \<Rightarrow> bytes \<times> bytes" where
  "fgets n f =
     (let k = length (takeWhile (\<lambda>c. c \<noteq> 10) (take (n - 1) f));
          m = (if k < length (take (n - 1) f) then k + 1 else k)
      in (take m f, drop m f))"

text \<open>The macro \<open>_IS_EMPTY\<close> on a line.\<close>

definition IS_EMPTY :: "bytes \<Rightarrow> bool" where
  "IS_EMPTY p = (case dropWhile isspace p of [] \<Rightarrow> True | c # _ \<Rightarrow> c = of_char (CHR ''#''))"

text \<open>
  The host name that a line stores: the part before the first white space, in lower case
  (what follows is cut off by the NUL written over the white space).
\<close>

definition line_host :: "bytes \<Rightarrow> bytes" where
  "line_host p = map tolower (takeWhile (\<lambda>c. \<not> isspace c) p)"

text \<open>
  The read loop. \<open>strcpy\<close> into the 64 bytes of \<open>data\<close> is undefined when the name with its NUL
  is longer.
\<close>

function rauthen_read :: "bytes \<Rightarrow> bytes list \<Rightarrow> bytes list option" where
  "rauthen_read hostf hl =
     (if hostf = [] then Some hl
      else
        (let (line, rest) = fgets INIT_RHOST_BUFFER hostf; p = cstr line in
         if IS_EMPTY p then rauthen_read rest hl
         else if (10 :: byte) \<notin> set p then
           rauthen_read (drop 1 (dropWhile (\<lambda>c. c \<noteq> 10) rest)) hl
         else if length (line_host p) < RAUTHEN_MAX_LINE_LENGTH then
           rauthen_read rest (hl @ [line_host p])
         else None))"
  by pat_completeness auto
termination
proof (relation "measure (\<lambda>(f, _). length f)")
  have *: "length (snd (fgets INIT_RHOST_BUFFER f)) < length f" if "f \<noteq> []" for f
    using that by (cases f) (auto simp: fgets_def INIT_RHOST_BUFFER_def Let_def)
  show "((rest, hl), hostf, hl) \<in> measure (\<lambda>(f, _). length f)"
    if "hostf \<noteq> []" "x = fgets INIT_RHOST_BUFFER hostf" "(line, rest) = x" for hostf hl x line rest
    using * [OF that(1)] that by (metis in_measure prod.case snd_conv)
  then show "((rest, hl @ [line_host p]), hostf, hl) \<in> measure (\<lambda>(f, _). length f)"
    if "hostf \<noteq> []" "x = fgets INIT_RHOST_BUFFER hostf" "(line, rest) = x" for hostf hl x line rest p
    using that by simp
  show "((drop 1 (dropWhile (\<lambda>c. c \<noteq> 10) rest), hl), hostf, hl) \<in> measure (\<lambda>(f, _). length f)"
    if "hostf \<noteq> []" "x = fgets INIT_RHOST_BUFFER hostf" "(line, rest) = x" for hostf hl x line rest
    using * [OF that(1)] that length_dropWhile_le [of "\<lambda>c. c \<noteq> 10" rest]
    by (metis (no_types, lifting) in_measure prod.case snd_conv length_drop le_less_trans diff_le_self)
qed simp_all

declare rauthen_read.simps [simp del]

text \<open>
  What \<open>rauthen_init\<close> asks of the system: the files, the user and group entries and the ids
  of the process. A user's \<open>.rhosts\<close> has the result of \<open>lstat\<close> (\<open>None\<close> when it fails, else
  whether the file is regular) and of \<open>fstat\<close>.
\<close>

record passwd =
  pw_name :: bytes
  pw_dir :: bytes
  pw_uid :: nat

record fstatus =
  st_uid :: nat
  st_gid :: nat
  st_iwoth :: bool
  st_iwgrp :: bool

record rhosts =
  rh_lstat :: "bool option"
  rh_fstat :: "fstatus option"
  rh_data :: bytes

record sysenv =
  hosts_equiv :: "bytes option"
  getuid :: nat
  getpwuid :: "nat \<Rightarrow> passwd option"
  fopen :: "bytes \<Rightarrow> rhosts option"
  getgrgid :: "nat \<Rightarrow> (bytes option \<times> bytes list option) option"

definition USER_RHOSTS_FILE :: bytes where "USER_RHOSTS_FILE = str ''/.rhosts''"

text \<open>The checks on the owner and the mode of the file; \<open>False\<close> is the jump to the exit.\<close>

definition rhosts_trusted :: "sysenv \<Rightarrow> passwd \<Rightarrow> rhosts \<Rightarrow> bool" where
  "rhosts_trusted env pwd rh =
     (if rh_lstat rh \<noteq> Some True then False
      else
        (case rh_fstat rh of
           None \<Rightarrow> False
         | Some sb \<Rightarrow>
             if st_uid sb \<noteq> 0 \<and> st_uid sb \<noteq> pw_uid pwd then False
             else if st_iwoth sb then False
             else if st_iwgrp sb then
               (case getgrgid env (st_gid sb) of
                  None \<Rightarrow> False
                | Some (None, _) \<Rightarrow> False
                | Some (Some gr_name, gr_mem) \<Rightarrow>
                    if pw_name pwd \<noteq> gr_name then False
                    else
                      (case gr_mem of
                         None \<Rightarrow> True
                       | Some members \<Rightarrow> list_all (\<lambda>m. m = pw_name pwd) members))
             else True))"

text \<open>
  Which file is read, if any, and the effective user id afterwards: it is set to the user's
  before the file is opened and restored at the exit unless it was 0.
\<close>

definition rauthen_open :: "sysenv \<Rightarrow> nat \<Rightarrow> bytes option \<times> nat" where
  "rauthen_open env euid =
     (case hosts_equiv env of
        Some f \<Rightarrow> (Some f, euid)
      | None \<Rightarrow>
          let uid = getuid env in
          (case getpwuid env uid of
             None \<Rightarrow> (None, if uid \<noteq> 0 then uid else euid)
           | Some pwd \<Rightarrow>
               if length (pw_dir pwd) + (length USER_RHOSTS_FILE + 1) + 2 \<ge> INIT_RHOST_BUFFER
               then (None, if uid \<noteq> 0 then uid else euid)
               else
                 let uid = euid; euid = pw_uid pwd; back = (if uid \<noteq> 0 then uid else euid) in
                 (case fopen env (pw_dir pwd @ USER_RHOSTS_FILE) of
                    None \<Rightarrow> (None, back)
                  | Some rh \<Rightarrow> (if rhosts_trusted env pwd rh then Some (rh_data rh) else None, back))))"

text \<open>
  \<open>rauthen_init\<close> frees the old list, reads the file and returns 1 in every case: the result
  is the value, the new list and the effective user id. \<open>None\<close> is the overflow of \<open>strcpy\<close>.
\<close>

definition rauthen_init :: "sysenv \<Rightarrow> nat \<Rightarrow> bytes list \<Rightarrow> (int \<times> bytes list \<times> nat) option" where
  "rauthen_init env euid hl =
     (let (hostf, euid) = rauthen_open env euid in
      case hostf of
        None \<Rightarrow> Some (1, [], euid)
      | Some f \<Rightarrow> map_option (\<lambda>hl. (1, hl, euid)) (rauthen_read f []))"

definition rauthen_free :: "bytes list \<Rightarrow> bytes list" where
  "rauthen_free hl = []"

section \<open>Properties\<close>

lemma rauthen_loop_iff:
  "rauthen_loop env raddr rhost hl = RAUTHEN_PASS \<longleftrightarrow>
     (\<exists>he \<in> set hl. rauthen_checkhost env raddr he rhost = 1)"
  by (induction hl) (auto simp: RAUTHEN_PASS_def RAUTHEN_FAIL_def)

text \<open>
  What the lines of the list mean: \<open>+\<close> lets every host in, \<open>+@group\<close> the hosts of a group, and any other
  line without a minus in front the host with that address, if it is the text of one, or with a name
  that resolves to the address of the peer.
\<close>

definition address_of :: "resolver \<Rightarrow> bytes \<Rightarrow> 32 word \<Rightarrow> bool" where
  "address_of env h raddr \<longleftrightarrow>
     (if h \<noteq> [] \<and> isdigit (hd h) \<and> inet_addr env h \<noteq> -1 then inet_addr env h = raddr
      else (\<exists>addrs. gethostbyname env h = Some addrs \<and> raddr \<in> set addrs))"

definition denying :: "bytes \<Rightarrow> bool" where
  "denying line \<longleftrightarrow> take 1 line = str ''-''"

definition line_allows :: "resolver \<Rightarrow> 32 word \<Rightarrow> bytes \<Rightarrow> bytes \<Rightarrow> bool" where
  "line_allows env raddr rhost line \<longleftrightarrow> line = str ''+'' \<or>
     (if take 2 line = str ''+@'' then innetgr env (drop 2 line) rhost = 1
      else \<not> denying line \<and> address_of env line raddr)"

lemma checkhost_allows:
  assumes "\<forall>g h. innetgr env g h = 0 \<or> innetgr env g h = 1"
  shows "rauthen_checkhost env raddr line rhost = 1 \<longleftrightarrow> line_allows env raddr rhost line"
proof -
  have "- innetgr env g h \<noteq> 1" for g h using assms [rule_format, of g h] by auto
  moreover have p: "prefix_of (str ''+@'') line \<longleftrightarrow> take 2 line = str ''+@''" "prefix_of (str ''-'') line \<longleftrightarrow> denying line"
    "prefix_of (str ''-@'') line \<Longrightarrow> denying line"
    by (auto simp: prefix_of_iff denying_def) (cases line; simp)+
  moreover have "denying line \<Longrightarrow> take 2 line \<noteq> str ''+@'' \<and> line \<noteq> str ''+''"
    by (cases line) (auto simp: denying_def)
  moreover have "raddr XOR a = 0 \<longleftrightarrow> a = raddr" for a :: "32 word"
    by (metis bit.xor_cancel_right xor.right_neutral xor.assoc xor_self_eq)
  ultimately show ?thesis
    by (auto simp: rauthen_checkhost_def line_allows_def address_of_def split: option.splits)
qed

text \<open>
  C25. A peer passes exactly when some line of the list lets it in: the line \<open>+\<close>, the line of a group of
  which it is a member, or a line, not beginning with a minus, with its address or a name of it. Neither
  the order of the lines matters nor do the lines with a minus, that is, a line that is to deny a host
  takes nothing away from what the others grant. \<open>innetgr\<close> answers 0 or 1, as it is documented to.
\<close>

theorem rauthen_verify_iff:
  assumes "\<forall>g h. innetgr env g h = 0 \<or> innetgr env g h = 1"
  shows "rauthen_verify env hl raddr rhost =
     (if \<exists>line \<in> set hl. line_allows env raddr rhost line then RAUTHEN_PASS else RAUTHEN_FAIL) \<and>
    rauthen_verify env (filter (\<lambda>line. \<not> denying line) hl) raddr rhost = rauthen_verify env hl raddr rhost"
proof -
  have v: "rauthen_verify env hl raddr rhost =
     (if \<exists>line \<in> set hl. line_allows env raddr rhost line then RAUTHEN_PASS else RAUTHEN_FAIL)" for hl
  proof -
    have "rauthen_loop env raddr rhost hl \<in> {RAUTHEN_PASS, RAUTHEN_FAIL}" by (induction hl) auto
    then show ?thesis
      using rauthen_loop_iff [of env raddr rhost hl] checkhost_allows [OF assms]
      by (auto simp: rauthen_verify_def RAUTHEN_PASS_def RAUTHEN_FAIL_def)
  qed
  have "\<not> line_allows env raddr rhost line" if "denying line" for line
    using that by (cases line) (auto simp: line_allows_def denying_def)
  then show ?thesis unfolding v by auto
qed

text \<open>A resolver that knows one name and one group, for the witness.\<close>

definition demo_resolver :: resolver where
  "demo_resolver = \<lparr>innetgr = (\<lambda>g h. if g = str ''ops'' then 1 else 0), inet_addr = (\<lambda>_. -1),
     gethostbyname = (\<lambda>h. if h = str ''node1'' then Some [7] else None)\<rparr>"

theorem rauthen_verify_iff_witness:
  "rauthen_verify demo_resolver [str ''-node1'', str ''node2'', str ''node1''] 7 (str ''n'') = RAUTHEN_PASS \<and>
   rauthen_verify demo_resolver [str ''-node1'', str ''node2''] 7 (str ''n'') = RAUTHEN_FAIL"
proof -
  have r: "\<forall>g h. innetgr demo_resolver g h = 0 \<or> innetgr demo_resolver g h = 1" by (simp add: demo_resolver_def)
  have a: "line_allows demo_resolver 7 (str ''n'') (str ''node1'')" "\<not> line_allows demo_resolver 7 (str ''n'') (str ''-node1'')"
    "\<not> line_allows demo_resolver 7 (str ''n'') (str ''node2'')"
    by (simp_all add: line_allows_def address_of_def denying_def demo_resolver_def isdigit_def)
  from rauthen_verify_iff [OF r, THEN conjunct1] a show ?thesis by simp
qed

lemma rauthen_deny_ignored:
  assumes "rauthen_checkhost env raddr deny rhost = -1"
    and "rauthen_checkhost env raddr allow rhost = 1"
  shows "rauthen_verify env [deny, allow] raddr rhost = RAUTHEN_PASS"
  using assms by (simp add: rauthen_verify_def)

definition host_ok :: "bytes \<Rightarrow> bool" where
  "host_ok h \<longleftrightarrow> length h < RAUTHEN_MAX_LINE_LENGTH \<and>
     (\<forall>c \<in> set h. \<not> isspace c \<and> c \<noteq> 0 \<and> tolower c = c)"

lemma tolower_cases:
  "tolower c = c \<and> \<not> (65 \<le> c \<and> c \<le> 90) \<or> (65 \<le> c \<and> c \<le> 90 \<and> 97 \<le> tolower c \<and> tolower c \<le> 122)"
  unfolding tolower_def by simp (unat_arith, auto)
lemma tolower_facts:
  "\<not> isspace c \<Longrightarrow> c \<noteq> 0 \<Longrightarrow> \<not> isspace (tolower c) \<and> tolower c \<noteq> 0 \<and> tolower (tolower c) = tolower c"
proof -
  have "tolower d = d \<and> \<not> isspace d \<and> d \<noteq> 0" if "97 \<le> d" "d \<le> 122" for d
    using that unfolding tolower_def isspace_def by (auto simp: word_le_nat_alt)
  then show "\<not> isspace c \<Longrightarrow> c \<noteq> 0 \<Longrightarrow> ?thesis"
    using tolower_cases [of c] by auto
qed
lemma line_host_ok:
  assumes "length (line_host (cstr l)) < RAUTHEN_MAX_LINE_LENGTH"
  shows "host_ok (line_host (cstr l))"
proof -
  have "\<not> isspace c \<and> c \<noteq> 0 \<and> tolower c = c" if "c \<in> set (line_host (cstr l))" for c
  proof -
    from that obtain d where d: "c = tolower d" "d \<in> set (takeWhile (\<lambda>c. \<not> isspace c) (cstr l))"
      by (auto simp: line_host_def)
    then have "\<not> isspace d" "d \<noteq> 0"
      using cstr_nonzero [of l] by (auto dest: set_takeWhileD)
    with d(1) show ?thesis using tolower_facts [of d] by simp
  qed
  with assms show ?thesis by (auto simp: host_ok_def)
qed

lemma rauthen_read_ok:
  "rauthen_read f hl = Some hl' \<Longrightarrow> list_all host_ok hl \<Longrightarrow> list_all host_ok hl'"
proof (induction f hl rule: rauthen_read.induct)
  case (1 f hl)
  show ?case
  proof (cases "f = []")
    case True
    with 1 show ?thesis by (simp add: rauthen_read.simps)
  next
    case False
    obtain line rest where lr: "fgets INIT_RHOST_BUFFER f = (line, rest)" by fastforce
    note IH = 1(1-3) [OF False lr [symmetric] refl refl]
    from 1(4) False lr show ?thesis
      by (subst (asm) rauthen_read.simps)
        (use IH 1(5) line_host_ok [of line] in \<open>auto simp: Let_def split: if_splits\<close>)
  qed
qed

text \<open>Any list that is built holds only names that fit the field of a node, in lower case and without white space.\<close>

lemma rauthen_init_safe: "rauthen_init env euid hl = Some (r, hl', euid') \<Longrightarrow> r = 1 \<and> list_all host_ok hl'"
  using rauthen_read_ok [of _ "[]" hl'] by (auto simp: rauthen_init_def split: prod.splits option.splits)

text \<open>Lines of a file, and an end without a newline.\<close>

definition short_line :: "bytes \<Rightarrow> bool" where
  "short_line l \<longleftrightarrow> length l < 255 \<and> 10 \<notin> set l \<and> 0 \<notin> set l"

definition file_of :: "bytes list \<Rightarrow> bytes \<Rightarrow> bytes" where
  "file_of ls end = concat (map (\<lambda>l. l @ [10]) ls) @ end"

definition hosts_of :: "bytes list \<Rightarrow> bytes list" where
  "hosts_of ls = map line_host (filter (\<lambda>l. \<not> IS_EMPTY l) ls)"

lemma fgets_line: "short_line l \<Longrightarrow> fgets INIT_RHOST_BUFFER (l @ 10 # r) = (l @ [10], r)"
proof -
  assume l: "short_line l"
  then obtain k where k: "255 - length l = Suc k" by (cases "255 - length l") (simp_all add: short_line_def)
  have "takeWhile (\<lambda>c. c \<noteq> 10) (l @ 10 # take k r) = l" using l by (auto simp: short_line_def takeWhile_append)
  with k show ?thesis by (simp add: fgets_def INIT_RHOST_BUFFER_def Let_def)
qed

lemma line_with_newline:
  assumes "short_line l"
  shows "cstr (l @ [10]) = l @ [10]" "IS_EMPTY (l @ [10]) = IS_EMPTY l" "line_host (l @ [10]) = line_host l"
proof -
  have s: "isspace 10" by (simp add: isspace_def)
  show "cstr (l @ [10]) = l @ [10]" using assms by (simp add: cstr_id short_line_def)
  show "IS_EMPTY (l @ [10]) = IS_EMPTY l"
  proof (cases "\<forall>c \<in> set l. isspace c")
    case True
    then have "dropWhile isspace l = []" by simp
    with s True show ?thesis by (simp add: IS_EMPTY_def dropWhile_append del: dropWhile_eq_Nil_conv)
  next
    case False
    then obtain c u where "dropWhile isspace l = c # u" by (cases "dropWhile isspace l") auto
    with s False show ?thesis by (auto simp: IS_EMPTY_def dropWhile_append)
  qed
  show "line_host (l @ [10]) = line_host l"
    using s by (simp add: line_host_def takeWhile_append cong: takeWhile_cong) (metis takeWhile_eq_all_conv)
qed

lemma rauthen_read_end: "10 \<notin> set f \<Longrightarrow> rauthen_read f hl = Some hl"
proof (induction f hl rule: rauthen_read.induct)
  case (1 f hl)
  show ?case
  proof (cases "f = []")
    case True
    then show ?thesis by (simp add: rauthen_read.simps)
  next
    case False
    obtain line rest where lr: "fgets INIT_RHOST_BUFFER f = (line, rest)" by fastforce
    then have "f = line @ rest" by (auto simp: fgets_def Let_def)
    then have n: "10 \<notin> set (cstr line)" "10 \<notin> set rest" "10 \<notin> set (drop 1 (dropWhile (\<lambda>c. c \<noteq> 10) rest))"
      using 1(4) by (auto simp: cstr_def dest!: set_takeWhileD in_set_dropD set_dropWhileD)
    note IH = 1(1,2) [OF False lr [symmetric] refl refl]
    show ?thesis by (subst rauthen_read.simps) (use IH n False lr in \<open>auto simp: Let_def\<close>)
  qed
qed

lemma rauthen_read_lines:
  "\<forall>l \<in> set ls. short_line l \<Longrightarrow> 10 \<notin> set end \<Longrightarrow> rauthen_read (file_of ls end) hl =
     (if \<forall>h \<in> set (hosts_of ls). length h < RAUTHEN_MAX_LINE_LENGTH then Some (hl @ hosts_of ls) else None)"
proof (induction ls arbitrary: hl)
  case Nil
  then show ?case by (simp add: file_of_def hosts_of_def rauthen_read_end)
next
  case (Cons l ls)
  have f: "file_of (l # ls) end = l @ 10 # file_of ls end" by (simp add: file_of_def)
  have l: "short_line l" using Cons.prems by simp
  show ?case unfolding f
    by (subst rauthen_read.simps) (use Cons line_with_newline [OF l] fgets_line [OF l] in \<open>auto simp: hosts_of_def\<close>)
qed


text \<open>A system with a two-line hosts.equiv, and one without, for the witnesses.\<close>

definition demo_env :: sysenv where
  "demo_env = \<lparr>hosts_equiv = Some (str ''# trusted'' @ [10] @ str ''Node1 root'' @ [10]), getuid = 5,
     getpwuid = (\<lambda>_. Some \<lparr>pw_name = str ''u'', pw_dir = str ''/u'', pw_uid = 5\<rparr>),
     fopen = (\<lambda>_. None), getgrgid = (\<lambda>_. None)\<rparr>"

lemma demo_init: "rauthen_init demo_env 0 [] = Some (1, [str ''node1''], 0)"
  by code_simp


text \<open>
  Three defects. A host name of 64 characters or more overflows the node's field; what a comment of
  more than 255 characters holds behind them is read as the next line, and trusted; and a process
  that starts with effective user id 0 and another real user id is left with the user's id.
\<close>

lemma rauthen_init_overflow:
  "rauthen_init (demo_env\<lparr>hosts_equiv := Some (replicate 64 97 @ [10])\<rparr>) 0 [] = None"
  by code_simp

lemma rauthen_long_comment:
  "rauthen_init (demo_env\<lparr>hosts_equiv := Some (str ''#'' @ replicate 254 97 @ str ''evil'' @ [10])\<rparr>) 0 [] =
     Some (1, [str ''evil''], 0)"
  by code_simp

lemma rauthen_init_euid:
  "rauthen_init (demo_env\<lparr>hosts_equiv := None\<rparr>) 0 [] = Some (1, [], 5)"
  by code_simp

end
