(* ===== verification/HttpConn.thy ===== *)
theory HttpConn
  imports Http Rauthen
begin

text \<open>
  The connections of the HTTP server (libs/stacks/http/http.c): opening and closing a session,
  reading and writing its socket, and the search for sessions that have timed out. A session
  pointer is the index of its slot. Results of system calls are parameters; an access outside
  the array of slots and a NULL buffer are \<open>None\<close>.
\<close>

section \<open>Opening and closing\<close>

definition upd_sess :: "nat \<Rightarrow> HSSESSION \<Rightarrow> HTTP_t \<Rightarrow> HTTP_t" where
  "upd_sess i s hs = hs\<lparr>h_session := (h_session hs)(i := s)\<rparr>"

text \<open>The fields of a slot that a new connection sets.\<close>

definition sess_fresh :: "int \<Rightarrow> 32 word \<Rightarrow> peer \<Rightarrow> int \<Rightarrow> HSDATA option \<Rightarrow> HSSESSION \<Rightarrow> HSSESSION" where
  "sess_fresh sk ver p now buf s = s\<lparr>s_sock := sk, s_version := ver, s_r_buffer := buf,
     s_w_buffer := [], s_w_curr := 0, s_active_time := now, s_read_time := 0, s_write_time := 0,
     s_header_length := -1, s_body_length := -1, s_remote_ip := ntoa p, s_remote_port := sin_port p,
     s_request_uri := map_option (\<lambda>_. []) (s_request_uri s), s_http_method := HTTP_METHOD_POST,
     s_error_response := 0, s_block_request := 0\<rparr>"

text \<open>The result: return value, slot stored in \<open>*sess\<close>, server, events on descriptors.\<close>

definition HTTP_sess_open ::
    "resolver \<Rightarrow> bytes list \<Rightarrow> accepted list \<Rightarrow> bool \<Rightarrow> int \<Rightarrow> HTTP_t \<Rightarrow>
       (int \<times> nat option \<times> HTTP_t \<times> os_event list) option" where
  "HTTP_sess_open env authen accepts mem_ok now hs =
     (let i = find_free (h_sock hs) 0 (nat (h_max_session hs)) in
      if int i \<ge> h_max_session hs then Some (HTTP_RET_MAX_SESSION, None, hs, [])
      else do {
        a \<leftarrow> accept_again accepts;
        case a of
          AcceptErr e \<Rightarrow>
            if e = EPROTO then Some (0, None, hs, [])
            else if e = ECONNABORTED then Some (0, None, hs, [])
            else Some (HTTP_RET_ERR_CONNECT, None, hs, [])
        | Conn sk p \<Rightarrow>
            let remote_address = (case h_name p of Some n \<Rightarrow> n | None \<Rightarrow> ntoa p) in
            if rauthen_verify env authen (s_addr p) remote_address \<noteq> RAUTHEN_PASS
            then Some (HTTP_RET_ERR_AUTHEN, None, hs, [CloseFd sk])
            else do {
              let ver = h_version hs + 1;
              let s = h_session hs i;
              (_, buf) \<leftarrow> http_alloc_buffer mem_ok (s_r_buffer s) HTTP_DATA_BUFFER;
              let hs = upd_sess i (sess_fresh sk ver p now buf s) (hs\<lparr>h_version := ver\<rparr>);
              let hs = (if h_last_session hs < int i then hs\<lparr>h_last_session := int i\<rparr> else hs);
              Some (HTTP_RET_OK, Some i, hs\<lparr>h_session_count := h_session_count hs + 1\<rparr>, [])
            }
      })"

definition HTTP_sess_close ::
    "bool \<Rightarrow> (int \<Rightarrow> int) \<Rightarrow> int \<Rightarrow> HTTP_t \<Rightarrow> (int \<times> HTTP_t \<times> os_event list) option" where
  "HTTP_sess_close cb close_r no hs =
     (if \<not> (0 \<le> no \<and> no < HTTP_MAX_SESSION) then None
      else
        let hs = (if h_last_session hs = no
                  then hs\<lparr>h_last_session := scan_back (h_sock hs) (nat no)\<rparr> else hs);
            s = h_session hs (nat no)
        in
        if s_sock s < 0 then Some (HTTP_RET_ERR_UNAVAILABLE, hs, [])
        else
          let sk = s_sock s;
              s = s\<lparr>s_r_buffer := None, s_w_buffer := [], s_block_request := 0, s_sock := -1\<rparr>
          in
          Some (if close_r sk \<noteq> 0 then HTTP_RET_ERR_UNKNOWN else HTTP_RET_OK,
                (upd_sess (nat no) s hs)\<lparr>h_session_count := h_session_count hs - 1\<rparr>,
                clear_events cb sk @ [Shutdown sk, CloseFd sk]))"

section \<open>Reading\<close>

text \<open>
  \<open>recv n\<close> is the result of \<open>recv\<close> with \<open>n\<close> bytes of room and the bytes it stores.
\<close>

definition HTTP_sess_read ::
    "bool \<Rightarrow> (int \<Rightarrow> int \<times> bytes) \<Rightarrow> int \<Rightarrow> nat \<Rightarrow> HTTP_t \<Rightarrow> (int \<times> HTTP_t) option" where
  "HTTP_sess_read mem_ok recv now i hs = do {
     let s = h_session hs i;
     hb \<leftarrow> int_add (s_header_length s) (s_body_length s);
     d \<leftarrow> s_r_buffer s;
     (r, buf) \<leftarrow> (if hb > d_len d then http_alloc_buffer mem_ok (s_r_buffer s) hb
                 else Some (0, s_r_buffer s));
     let s = s\<lparr>s_r_buffer := buf\<rparr>;
     if r \<noteq> 0 then Some (HTTP_RET_ERR_RECEIVE, upd_sess i s hs)
     else do {
       d \<leftarrow> buf;
       let (r, bs) = recv (d_size d - d_len d);
       if r < 0 then Some (HTTP_RET_ERR_READ, upd_sess i s hs)
       else if r = 0 then Some (HTTP_RET_ERR_CLOSE, upd_sess i s hs)
       else
         Some (HTTP_RET_OK,
           upd_sess i
             (s\<lparr>s_recv_count := s_recv_count s + 1,
                s_r_buffer := Some (d\<lparr>d_data := mem_write (nat (d_len d)) bs (d_data d),
                                      d_len := d_len d + r\<rparr>),
                s_active_time := now, s_read_time := now\<rparr>) hs)
     }
   }"

section \<open>Writing\<close>

definition mem_slice :: "bytes \<Rightarrow> nat \<Rightarrow> nat \<Rightarrow> bytes" where
  "mem_slice m p n = map (mem_read m) [p..<p + n]"

text \<open>
  \<open>send bs\<close> is the result of \<open>send\<close> on the bytes \<open>bs\<close>, \<open>fd_set_write\<close> that of the callback,
  if there is one. The result holds the return value, the server and the bytes offered to \<open>send\<close>.
\<close>

definition HTTP_sess_write ::
    "(bytes \<Rightarrow> int) \<Rightarrow> int option \<Rightarrow> int \<Rightarrow> nat \<Rightarrow> HTTP_t \<Rightarrow> (int \<times> HTTP_t \<times> bytes) option" where
  "HTTP_sess_write send fd_set_write now i hs =
     (let s = h_session hs i in
      case s_w_buffer s of
        [] \<Rightarrow> Some (0, upd_sess i (s\<lparr>s_write_time := 0\<rparr>) hs, [])
      | w # ws \<Rightarrow>
          let n = d_len w - s_w_curr s;
              n = (if h_max_w_len hs > 0 \<and> n > h_max_w_len hs then h_max_w_len hs else n)
          in
          if n < 0 \<or> s_w_curr s < 0 then None
          else
            let bs = mem_slice (d_data w) (nat (s_w_curr s)) (nat n);
                r = send bs
            in
            if r < 0 then Some (HTTP_RET_ERR_SEND, hs, bs)
            else
              let s = s\<lparr>s_w_curr := s_w_curr s + r, s_active_time := now, s_write_time := now\<rparr>;
                  hs = hs\<lparr>h_sent_msg_count := h_sent_msg_count hs + 1\<rparr>
              in
              if s_w_curr s \<ge> d_len w then
                let s = s\<lparr>s_w_curr := 0, s_w_buffer := ws\<rparr>;
                    s = (if ws = [] then s\<lparr>s_write_time := 0\<rparr> else s)
                in Some (if h_idle_timeout hs = 0 then HTTP_RET_SENT_CLOSE else HTTP_RET_SENT,
                         upd_sess i s hs, bs)
              else
                (case fd_set_write of
                   Some e \<Rightarrow>
                     if e \<noteq> 0 then Some (HTTP_RET_ERR_SEND, upd_sess i s hs, bs)
                     else Some (HTTP_RET_SENT_FRAGMENT,
                                upd_sess i (s\<lparr>s_write_count := s_write_count s + 1\<rparr>) hs, bs)
                 | None \<Rightarrow>
                     Some (HTTP_RET_SENT_FRAGMENT,
                           upd_sess i (s\<lparr>s_write_count := s_write_count s + 1\<rparr>) hs, bs)))"

section \<open>Timeouts\<close>

definition HS_IS_SESSION_IDLE :: "HSSESSION \<Rightarrow> bool" where
  "HS_IS_SESSION_IDLE s \<longleftrightarrow> s_w_buffer s = [] \<and> s_header_length s < 0 \<and>
     (case s_r_buffer s of None \<Rightarrow> True | Some d \<Rightarrow> d_len d \<le> 0)"

text \<open>The three tests on an open session, in their order.\<close>

definition timed_out :: "HTTP_t \<Rightarrow> int \<Rightarrow> HSSESSION \<Rightarrow> bool" where
  "timed_out hs ct s \<longleftrightarrow>
     (if s_read_time s > 0 \<and> h_read_timeout hs > 0 \<and> ct - s_read_time s \<ge> h_read_timeout hs then True
      else if s_write_time s > 0 \<and> h_write_timeout hs > 0 \<and> ct - s_write_time s \<ge> h_write_timeout hs
      then True
      else HS_IS_SESSION_IDLE s \<and> h_idle_timeout hs > 0 \<and>
           ct - s_active_time s \<ge> h_idle_timeout hs)"

fun verify_loop ::
    "bool \<Rightarrow> (int \<Rightarrow> int) \<Rightarrow> int \<Rightarrow> nat list \<Rightarrow> HTTP_t \<Rightarrow> (int \<times> HTTP_t \<times> os_event list) option" where
  "verify_loop cb close_r ct [] hs = Some (HTTP_RET_OK, hs, [])"
| "verify_loop cb close_r ct (i # is) hs =
     (if h_sock hs i \<ge> 0 \<and> timed_out hs ct (h_session hs i) then do {
        (_, hs, ev) \<leftarrow> HTTP_sess_close cb close_r (s_no (h_session hs i)) hs;
        Some (HTTP_RET_TIMEOUT, hs, ev)
      }
      else verify_loop cb close_r ct is hs)"

definition HTTP_verify_connection ::
    "bool \<Rightarrow> (int \<Rightarrow> int) \<Rightarrow> int \<Rightarrow> HTTP_t \<Rightarrow> (int \<times> HTTP_t \<times> os_event list) option" where
  "HTTP_verify_connection cb close_r ct hs =
     (if h_last_session hs \<ge> HTTP_MAX_SESSION then None
      else verify_loop cb close_r ct [0..<nat (h_last_session hs + 1)] hs)"

section \<open>The session table of the server\<close>

lemma upd_sess_simps [simp]:
  "h_session (upd_sess i s hs) = (h_session hs)(i := s)"
  "h_last_session (upd_sess i s hs) = h_last_session hs"
  "h_session_count (upd_sess i s hs) = h_session_count hs"
  "h_max_session (upd_sess i s hs) = h_max_session hs"
  "h_listen_sock (upd_sess i s hs) = h_listen_sock hs"
  by (simp_all add: upd_sess_def)

lemma sess_fresh_sock [simp]: "s_sock (sess_fresh sk ver p now buf s) = sk"
  and sess_fresh_no [simp]: "s_no (sess_fresh sk ver p now buf s) = s_no s"
  by (simp_all add: sess_fresh_def)

definition http_opens :: "HTTP_t \<Rightarrow> nat \<Rightarrow> HTTP_t \<Rightarrow> bool" where
  "http_opens hs i hs' \<longleftrightarrow> (\<exists>env authen as mem_ok now r ev. accepts_ok as \<and>
     HTTP_sess_open env authen as mem_ok now hs = Some (r, Some i, hs', ev))"

definition http_closes :: "HTTP_t \<Rightarrow> nat \<Rightarrow> HTTP_t \<Rightarrow> bool" where
  "http_closes hs i hs' \<longleftrightarrow> (\<exists>cb cr r ev. 0 \<le> h_sock hs i \<and>
     HTTP_sess_close cb cr (int i) hs = Some (r, hs', ev))"

lemma sess_open_cases:
  assumes "HTTP_sess_open env authen as mem_ok now hs = Some (r, slot, hs', ev)"
  obtains (refused) "slot = None" "hs' = hs" "r \<in> {HTTP_RET_MAX_SESSION, 0, HTTP_RET_ERR_CONNECT}" "ev = []"
  | (denied) sk p where "slot = None" "hs' = hs" "r = HTTP_RET_ERR_AUTHEN" "ev = [CloseFd sk]"
      "accept_again as = Some (Conn sk p)"
  | (opened) i sk p buf s where "slot = Some i" "r = HTTP_RET_OK" "ev = []"
      "accept_again as = Some (Conn sk p)"
      "i = find_free (h_sock hs) 0 (nat (h_max_session hs))" "int i < h_max_session hs"
      "rauthen_verify env authen (s_addr p) (case h_name p of Some n \<Rightarrow> n | None \<Rightarrow> ntoa p) = RAUTHEN_PASS"
      "h_session hs' = (h_session hs)(i := s)" "s = sess_fresh sk (h_version hs + 1) p now buf (h_session hs i)"
      "h_last_session hs' = max (h_last_session hs) (int i)"
      "h_session_count hs' = h_session_count hs + 1" "h_max_session hs' = h_max_session hs"
      "mem_ok \<longrightarrow> buf \<noteq> None"
proof -
  define i where "i = find_free (h_sock hs) 0 (nat (h_max_session hs))"
  note def = HTTP_sess_open_def [of env authen as mem_ok now hs, folded i_def]
  show thesis
  proof (cases "int i \<ge> h_max_session hs")
    case True
    then show thesis using assms refused by (simp add: def)
  next
    case False
    then obtain a where a: "accept_again as = Some a"
      using assms by (auto simp: def Let_def split: Option.bind_splits)
    show thesis
    proof (cases a)
      case (AcceptErr e)
      then show thesis using assms False a refused by (auto simp: def Let_def split: if_splits)
    next
      case (Conn sk p)
      show thesis
      proof (cases "rauthen_verify env authen (s_addr p)
          (case h_name p of Some n \<Rightarrow> n | None \<Rightarrow> ntoa p) = RAUTHEN_PASS")
        case pass: False
        then show thesis using assms False a Conn denied by (auto simp: def Let_def)
      next
        case pass: True
        obtain q where q: "http_alloc_buffer mem_ok (s_r_buffer (h_session hs i)) 65536 = Some q"
          using assms False a Conn pass by (auto simp: def Let_def split: Option.bind_splits)
        obtain ar buf where ab: "q = (ar, buf)" by (cases q)
        have "mem_ok \<longrightarrow> buf \<noteq> None"
          using q ab by (auto simp: http_alloc_buffer_def split: option.splits if_splits Option.bind_splits)
            (metis option.distinct(1))+
        moreover have "h_session hs' = (h_session hs)(i := sess_fresh sk (h_version hs + 1) p now buf (h_session hs i))"
          "h_last_session hs' = max (h_last_session hs) (int i)" "slot = Some i" "r = 0" "ev = []"
          "h_session_count hs' = h_session_count hs + 1" "h_max_session hs' = h_max_session hs"
          using assms False a Conn pass q ab by (auto simp: def Let_def split: if_splits)
        ultimately show thesis using opened [OF _ _ _ _ i_def] False a Conn pass by simp
      qed
    qed
  qed
qed

lemma sess_close_cases:
  assumes "HTTP_sess_close cb cr no hs = Some (r, hs', ev)"
  obtains (unused) "0 \<le> no" "no < HTTP_MAX_SESSION" "h_sock hs (nat no) < 0" "r = HTTP_RET_ERR_UNAVAILABLE" "ev = []"
      "h_session hs' = h_session hs" "h_session_count hs' = h_session_count hs"
      "h_max_session hs' = h_max_session hs"
      "h_last_session hs' = (if h_last_session hs = no then scan_back (h_sock hs) (nat no) else h_last_session hs)"
  | (closed) s where "0 \<le> no" "no < HTTP_MAX_SESSION" "0 \<le> h_sock hs (nat no)"
      "r = (if cr (h_sock hs (nat no)) \<noteq> 0 then HTTP_RET_ERR_UNKNOWN else HTTP_RET_OK)"
      "ev = close_events cb (h_sock hs (nat no))"
      "h_session hs' = (h_session hs)(nat no := s)" "s_sock s = -1" "s_no s = s_no (h_session hs (nat no))"
      "s_r_buffer s = None" "s_w_buffer s = []" "s_block_request s = 0"
      "h_session_count hs' = h_session_count hs - 1" "h_max_session hs' = h_max_session hs"
      "h_last_session hs' = (if h_last_session hs = no then scan_back (h_sock hs) (nat no) else h_last_session hs)"
proof -
  define hs1 where "hs1 = (if h_last_session hs = no
      then hs\<lparr>h_last_session := scan_back (h_sock hs) (nat no)\<rparr> else hs)"
  have hs1: "h_session hs1 = h_session hs" "h_session_count hs1 = h_session_count hs"
    "h_max_session hs1 = h_max_session hs"
    "h_last_session hs1 = (if h_last_session hs = no then scan_back (h_sock hs) (nat no) else h_last_session hs)"
    by (simp_all add: hs1_def)
  have no: "0 \<le> no" "no < 4096"
    using assms by (auto simp: HTTP_sess_close_def split: if_splits)
  show thesis
  proof (cases "h_sock hs (nat no) < 0")
    case True
    then have "hs' = hs1" "r = HTTP_RET_ERR_UNAVAILABLE" "ev = []"
      using assms no by (auto simp: HTTP_sess_close_def Let_def hs1_def [symmetric] hs1)
    with True show thesis using no hs1 by (intro unused) simp_all
  next
    case False
    let ?s = "(h_session hs (nat no))
      \<lparr>s_r_buffer := None, s_w_buffer := [], s_block_request := 0, s_sock := -1\<rparr>"
    from False have "hs' = (upd_sess (nat no) ?s hs1)\<lparr>h_session_count := h_session_count hs - 1\<rparr>"
      "r = (if cr (h_sock hs (nat no)) \<noteq> 0 then HTTP_RET_ERR_UNKNOWN else HTTP_RET_OK)"
      "ev = close_events cb (h_sock hs (nat no))"
      using assms no
      by (auto simp: HTTP_sess_close_def Let_def hs1_def [symmetric] hs1 close_events_def)
    with False show thesis using no hs1 by (intro closed [of ?s]) simp_all
  qed
qed

interpretation hst: session_table h_sock h_last_session h_session_count
    "\<lambda>hs. nat (h_max_session hs)" http_opens http_closes
proof
  fix hs i hs'
  assume "http_opens hs i hs'"
  then obtain env authen as mem_ok now r ev where as: "accepts_ok as"
    and o: "HTTP_sess_open env authen as mem_ok now hs = Some (r, Some i, hs', ev)"
    by (auto simp: http_opens_def)
  from o show "i < nat (h_max_session hs) \<and> h_sock hs i < 0 \<and> (\<forall>j < i. 0 \<le> h_sock hs j) \<and>
      (\<exists>sk. 0 \<le> sk \<and> h_sock hs' = (h_sock hs)(i := sk)) \<and>
      h_last_session hs' = max (h_last_session hs) (int i) \<and>
      h_session_count hs' = h_session_count hs + 1 \<and> nat (h_max_session hs') = nat (h_max_session hs)"
  proof (cases rule: sess_open_cases)
    case (opened k sk p buf s)
    have sk: "0 \<le> sk" using as opened(4) by (rule accept_again_ok)
    have i: "i = find_free (h_sock hs) 0 (nat (h_max_session hs))" using opened by simp
    have lt: "i < nat (h_max_session hs)" using opened by simp
    have "h_sock hs i < 0" using find_free_free [of "h_sock hs" 0 "nat (h_max_session hs)"] lt i by simp
    moreover have "\<forall>j < i. 0 \<le> h_sock hs j"
      using find_free_before [of 0 _ "h_sock hs" "nat (h_max_session hs)"] i by simp
    moreover have "h_sock hs' = (h_sock hs)(i := sk)" using opened by (auto simp: fun_eq_iff)
    ultimately show ?thesis using opened lt sk by auto
  qed simp_all
next
  fix hs i hs'
  assume "http_closes hs i hs'"
  then obtain cb cr r ev where o: "0 \<le> h_sock hs i" "HTTP_sess_close cb cr (int i) hs = Some (r, hs', ev)"
    by (auto simp: http_closes_def)
  from o(2) show "0 \<le> h_sock hs i \<and> h_sock hs' = (h_sock hs)(i := -1) \<and>
      h_last_session hs' = (if h_last_session hs = int i then scan_back (h_sock hs) i else h_last_session hs) \<and>
      h_session_count hs' = h_session_count hs - 1 \<and> nat (h_max_session hs') = nat (h_max_session hs)"
  proof (cases rule: sess_close_cases)
    case (closed s)
    then show ?thesis using o(1) by (auto simp: fun_eq_iff)
  qed (use o in simp)
qed

section \<open>Properties of opening and closing\<close>

text \<open>
  Opening keeps the table invariant, whatever the network and the host list answer. A
  session is handed out only for an accepted connection whose peer passed the host check; it is
  the first free slot, below the configured maximum, and no other slot changes. In every other
  case the server is unchanged, and a connection that was accepted but denied is closed.
\<close>

theorem http_sess_open_table:
  assumes "table_ok N (h_sock hs) (h_last_session hs) (h_session_count hs)"
    and "h_max_session hs \<le> int N" and "accepts_ok as"
    and "HTTP_sess_open env authen as mem_ok now hs = Some (r, slot, hs', ev)"
  shows "table_ok N (h_sock hs') (h_last_session hs') (h_session_count hs') \<and>
    (case slot of
       None \<Rightarrow> hs' = hs \<and> r \<in> {HTTP_RET_MAX_SESSION, 0, HTTP_RET_ERR_CONNECT, HTTP_RET_ERR_AUTHEN} \<and>
         (\<forall>sk. CloseFd sk \<in> set ev \<longrightarrow>
            r = HTTP_RET_ERR_AUTHEN \<and> (\<exists>p. accept_again as = Some (Conn sk p)))
     | Some i \<Rightarrow> r = HTTP_RET_OK \<and> ev = [] \<and> int i < h_max_session hs \<and> h_sock hs i < 0 \<and>
         (\<forall>j < i. 0 \<le> h_sock hs j) \<and> (\<forall>j. j \<noteq> i \<longrightarrow> h_session hs' j = h_session hs j) \<and>
         (\<exists>sk p. accept_again as = Some (Conn sk p) \<and> h_sock hs' i = sk \<and>
            rauthen_verify env authen (s_addr p)
              (case h_name p of Some n \<Rightarrow> n | None \<Rightarrow> ntoa p) = RAUTHEN_PASS))"
  using assms(4)
proof (cases rule: sess_open_cases)
  case refused
  then show ?thesis using assms(1) by auto
next
  case denied
  then show ?thesis using assms(1) by auto
next
  case (opened i sk p buf s)
  have "http_opens hs i hs'"
    unfolding http_opens_def using assms(3,4) opened(1) by blast
  note law = hst.opens_law [OF this] and ok = hst.opens_ok [OF this assms(1)]
  have "table_ok N (h_sock hs') (h_last_session hs') (h_session_count hs')"
    using assms(2) by (intro ok) simp
  moreover have "h_sock hs i < 0 \<and> (\<forall>j < i. 0 \<le> h_sock hs j)" using law by blast
  moreover have "h_sock hs' i = sk" "\<forall>j. j \<noteq> i \<longrightarrow> h_session hs' j = h_session hs j"
    using opened(8,9) by simp_all
  ultimately show ?thesis
    using opened(1-4,6,7) by auto
qed

text \<open>
  Closing keeps the table invariant too. On an open session it returns the slot and its
  buffers, closes exactly that session's socket, and recomputes the last session; on a slot that
  is not open it reports that and changes nothing.
\<close>

theorem http_sess_close_table:
  assumes "table_ok N (h_sock hs) (h_last_session hs) (h_session_count hs)" and "no < int N"
    and "HTTP_sess_close cb cr no hs = Some (r, hs', ev)"
  shows "table_ok N (h_sock hs') (h_last_session hs') (h_session_count hs') \<and>
    (if h_sock hs (nat no) < 0 then r = HTTP_RET_ERR_UNAVAILABLE \<and> ev = [] \<and>
       h_session hs' = h_session hs \<and> h_last_session hs' = h_last_session hs
     else (r = HTTP_RET_OK \<longleftrightarrow> cr (h_sock hs (nat no)) = 0) \<and>
       ev = close_events cb (h_sock hs (nat no)) \<and> h_sock hs' (nat no) = -1 \<and>
       s_r_buffer (h_session hs' (nat no)) = None \<and> s_w_buffer (h_session hs' (nat no)) = [] \<and>
       (\<forall>j. j \<noteq> nat no \<longrightarrow> h_session hs' j = h_session hs j))"
  using assms(3)
proof (cases rule: sess_close_cases)
  case unused
  have "h_last_session hs \<noteq> no" using assms(1) unused unfolding table_ok_def by auto
  then show ?thesis using assms(1) unused by simp
next
  case (closed s)
  have "http_closes hs (nat no) hs'"
    unfolding http_closes_def using assms(3) closed(1,3) by auto
  from hst.closes_ok [OF this assms(1)] show ?thesis
    using closed assms(2) by auto
qed

definition demo_net :: resolver where
  "demo_net = \<lparr>innetgr = (\<lambda>_ _. 0), inet_addr = (\<lambda>_. -1), gethostbyname = (\<lambda>_. None)\<rparr>"

definition demo_peer :: peer where
  "demo_peer = \<lparr>s_addr = 1, h_name = Some (str ''client''), ntoa = str ''0.0.0.1'', sin_port = 99\<rparr>"

lemma demo_table: "table_ok 3 (h_sock (demo_server 3)) (h_last_session (demo_server 3))
    (h_session_count (demo_server 3)) \<and> h_max_session (demo_server 3) = 3"
  using init_table [OF demo_server_init] by auto

text \<open>The first connection of the demonstration server.\<close>

definition demo_open :: "int \<times> nat option \<times> HTTP_t \<times> os_event list" where
  "demo_open = (case HTTP_sess_open demo_net [str ''+''] [AcceptErr EINTR, Conn 11 demo_peer] True 1000
     (demo_server 3) of Some x \<Rightarrow> x)"

lemma demo_open: "HTTP_sess_open demo_net [str ''+''] [AcceptErr EINTR, Conn 11 demo_peer] True 1000
     (demo_server 3) = Some demo_open"
  and demo_open_slot: "fst (snd demo_open) = Some 0" "h_sock (fst (snd (snd demo_open))) 0 = 11"
  and demo_open_max: "h_max_session (fst (snd (snd demo_open))) = 3"
  by (simp_all add: demo_open_def HTTP_sess_open_def demo_server_def HTTP_svr_init_def Let_def
      list_all_iff slot_init_def session_zero_def rauthen_verify_def rauthen_checkhost_def
      RAUTHEN_PASS_def http_alloc_buffer_def demo_peer_def sess_fresh_def eval_nat_numeral)

theorem http_sess_open_table_witness:
  "table_ok 3 (h_sock (fst (snd (snd demo_open)))) (h_last_session (fst (snd (snd demo_open))))
     (h_session_count (fst (snd (snd demo_open)))) \<and> fst demo_open = 0"
proof -
  obtain r slot hs' ev where d: "demo_open = (r, slot, hs', ev)" by (cases demo_open)
  have slot: "slot = Some 0" using demo_open_slot(1) [unfolded d] by simp
  have m: "h_max_session (demo_server 3) \<le> int 3" using demo_table by simp
  have ok: "accepts_ok [AcceptErr EINTR, Conn 11 demo_peer]" by (simp add: accepts_ok_def)
  show ?thesis
    using http_sess_open_table [OF demo_table [THEN conjunct1] m ok demo_open [unfolded d]] slot
    unfolding d by simp
qed

theorem http_sess_close_table_witness:
  "\<exists>hs'. HTTP_sess_close True (\<lambda>_. 0) 2 (demo_server 3) = Some (HTTP_RET_ERR_UNAVAILABLE, hs', []) \<and>
     table_ok 3 (h_sock hs') (h_last_session hs') (h_session_count hs')"
proof -
  have s: "h_sock (demo_server 3) 2 = -1"
    by (simp add: demo_server_def HTTP_svr_init_def Let_def list_all_iff slot_init_def)
  have "HTTP_sess_close True (\<lambda>_. 0) 2 (demo_server 3) \<noteq> None"
    by (simp add: HTTP_sess_close_def Let_def)
  then obtain r hs' ev where c: "HTTP_sess_close True (\<lambda>_. 0) 2 (demo_server 3) = Some (r, hs', ev)"
    by (metis not_None_eq prod_cases3)
  from http_sess_close_table [OF demo_table [THEN conjunct1] _ this] c s show ?thesis by auto
qed

text \<open>
  When \<open>accept\<close> fails with \<open>EPROTO\<close> or \<open>ECONNABORTED\<close> the function returns 0, which is
  \<open>HTTP_RET_OK\<close>, although no session was opened and \<open>*sess\<close> was not set.
\<close>

lemma http_sess_open_aborted:
  "h_sock hs 0 < 0 \<Longrightarrow> 1 \<le> h_max_session hs \<Longrightarrow>
   HTTP_sess_open env authen [AcceptErr ECONNABORTED] mem_ok now hs = Some (HTTP_RET_OK, None, hs, [])"
  by (cases "nat (h_max_session hs)") (auto simp: HTTP_sess_open_def Let_def)

text \<open>
  Raising \<open>HTTP_OPTION_MAX_SESSION\<close> on a running server gains nothing: the slots beyond the
  initial maximum hold socket 0, which counts as open.
\<close>

lemma http_max_session_raised:
  assumes "HTTP_svr_init True rnd (\<lambda>_. True) port backlog m hv = Some (Some hs)" "0 \<le> m" "m < n" "n \<le> HTTP_MAX_SESSION"
  shows "\<exists>hs'. set_option hs HTTP_OPTION_MAX_SESSION n = (HTTP_RET_OK, hs') \<and>
    (\<forall>i. m \<le> int i \<and> int i < n \<longrightarrow> h_sock hs' i = 0)"
  using assms by (auto simp: set_option_def HTTP_svr_init_def Let_def session_zero_def split: if_splits)

section \<open>Properties of reading and writing\<close>

text \<open>The bytes in use of a buffer, and the invariant of a read buffer.\<close>

definition contents :: "HSDATA \<Rightarrow> bytes" where
  "contents d = mem_slice (d_data d) 0 (nat (d_len d))"

definition buf_ok :: "HSDATA \<Rightarrow> bool" where
  "buf_ok d \<longleftrightarrow> 0 \<le> d_len d \<and> d_len d \<le> d_size d \<and> d_size d < 2 ^ 31"

lemma length_mem_slice [simp]: "length (mem_slice m p n) = n"
  by (simp add: mem_slice_def)

lemma mem_slice_append: "mem_slice m p (n + k) = mem_slice m p n @ mem_slice m (p + n) k"
  using upt_add_eq_append [of p "p + n" k] by (simp add: mem_slice_def add.assoc)

lemma take_mem_slice: "n \<le> k \<Longrightarrow> take n (mem_slice m p k) = mem_slice m p n"
  by (simp add: mem_slice_def take_map)

lemma drop_mem_slice: "drop n (mem_slice m p k) = mem_slice m (p + n) (k - n)"
proof (cases "n \<le> k")
  case True
  then show ?thesis by (simp add: mem_slice_def drop_map)
next
  case False
  then show ?thesis by (simp add: mem_slice_def)
qed

lemma mem_read_write:
  "mem_read (mem_write p bs m) j = (if p \<le> j \<and> j < p + length bs then bs ! (j - p) else mem_read m j)"
  unfolding mem_read_def mem_write_def
  by (auto simp: nth_append min_def nth_drop)

lemma mem_slice_write_before:
  "p + n \<le> q \<Longrightarrow> mem_slice (mem_write q bs m) p n = mem_slice m p n"
  by (simp add: mem_slice_def mem_read_write)

lemma mem_slice_write_same: "mem_slice (mem_write p bs m) p (length bs) = bs"
  by (rule nth_equalityI) (simp_all add: mem_slice_def mem_read_write)

lemma contents_append:
  assumes "0 \<le> d_len d"
  shows "contents (d\<lparr>d_data := mem_write (nat (d_len d)) bs (d_data d), d_len := d_len d + int (length bs)\<rparr>)
    = contents d @ bs"
  using assms
  by (simp add: contents_def nat_add_distrib mem_slice_append mem_slice_write_before mem_slice_write_same)

lemma mem_slice_take: "p + n \<le> k \<Longrightarrow> mem_slice (take k m) p n = mem_slice m p n"
  by (simp add: mem_slice_def mem_read_def)

text \<open>Growing a buffer keeps its contents and gives the room that was asked for.\<close>

lemma ADJUST_SIZE_ge: "0 \<le> l \<Longrightarrow> 0 < s \<Longrightarrow> l \<le> ADJUST_SIZE l s \<and> ADJUST_SIZE l s < l + s \<and>
    s dvd ADJUST_SIZE l s"
proof -
  assume a: "0 \<le> l" "0 < s"
  then have m: "0 \<le> l mod s" "l mod s < s" by simp_all
  show ?thesis
  proof (cases "l mod s = 0")
    case True
    with a show ?thesis by (auto simp: ADJUST_SIZE_def Let_def)
  next
    case False
    have "s dvd (l - l mod s) + s" by (intro dvd_add dvd_minus_mod dvd_refl)
    with False a m show ?thesis by (simp add: ADJUST_SIZE_def Let_def algebra_simps)
  qed
qed

lemma alloc_buffer_grow:
  assumes "http_alloc_buffer mem_ok (Some d) len = Some (r, buf)" "buf_ok d" "0 \<le> len"
  shows "\<exists>d'. buf = Some d' \<and> d_len d' = d_len d \<and> contents d' = contents d \<and>
     (r = 0 \<longrightarrow> d_len d + len \<le> d_size d') \<and> (r \<noteq> 0 \<longrightarrow> d' = d) \<and>
     (r = 0 \<longrightarrow> d_size d \<le> d_size d')"
proof -
  obtain n where n: "int_add (d_len d) len = Some n" "n = d_len d + len"
    using assms(1) by (auto simp: http_alloc_buffer_def int_add_def split: if_splits)
  have "n \<le> ADJUST_SIZE n 65536" using ADJUST_SIZE_ge [of n 65536] assms(2,3) n by (simp add: buf_ok_def)
  then show ?thesis
    using assms n
    by (auto simp: http_alloc_buffer_def contents_def mem_slice_take buf_ok_def split: if_splits)
qed

text \<open>
  Reading appends what the socket delivered to the contents of the session's buffer,
  never past the end of the buffer, and keeps what was there; a session that still waits for
  part of its body always offers \<open>recv\<close> room for at least that part, so that the end of the
  connection (0) is never confused with a full buffer. Errors leave the contents unchanged.
\<close>

theorem http_sess_read_appends:
  assumes "s_r_buffer (h_session hs i) = Some d" "buf_ok d"
    and "\<And>n. 0 \<le> n \<Longrightarrow> fst (recv n) \<le> n \<and> (0 < fst (recv n) \<longrightarrow> int (length (snd (recv n))) = fst (recv n))"
    and "HTTP_sess_read mem_ok recv now i hs = Some (r, hs')"
    and "hb = s_header_length (h_session hs i) + s_body_length (h_session hs i)"
  shows "\<exists>d' room. s_r_buffer (h_session hs' i) = Some d' \<and> 0 \<le> d_len d' \<and> d_len d' \<le> d_size d' \<and>
     (r = HTTP_RET_OK \<longrightarrow> contents d' = contents d @ snd (recv room) \<and> 0 < fst (recv room) \<and>
        d_len d' = d_len d + fst (recv room) \<and>
        s_read_time (h_session hs' i) = now \<and> s_active_time (h_session hs' i) = now) \<and>
     (r \<noteq> HTTP_RET_OK \<longrightarrow> contents d' = contents d) \<and>
     (r = HTTP_RET_ERR_CLOSE \<longrightarrow> fst (recv room) = 0) \<and>
     (hb > d_len d \<and> r \<noteq> HTTP_RET_ERR_RECEIVE \<longrightarrow> hb \<le> room) \<and>
     (\<forall>j. j \<noteq> i \<longrightarrow> h_session hs' j = h_session hs j)"
proof -
  let ?s = "h_session hs i"
  obtain r1 buf where g: "(if hb > d_len d then http_alloc_buffer mem_ok (Some d) hb else Some (0, Some d))
      = Some (r1, buf)"
    using assms(1,4,5) by (auto simp: HTTP_sess_read_def Let_def int_add_def split: if_splits Option.bind_splits)
  have d: "0 \<le> d_len d" "d_len d \<le> d_size d" using assms(2) by (auto simp: buf_ok_def)
  obtain d1 where d1: "buf = Some d1" "d_len d1 = d_len d" "contents d1 = contents d"
    "d_len d \<le> d_size d1" "hb > d_len d \<and> r1 = 0 \<longrightarrow> d_len d + hb \<le> d_size d1"
  proof (cases "hb > d_len d")
    case True
    then obtain d1 where "buf = Some d1" "d_len d1 = d_len d" "contents d1 = contents d"
      "r1 = 0 \<longrightarrow> d_len d + hb \<le> d_size d1" "r1 \<noteq> 0 \<longrightarrow> d1 = d" "r1 = 0 \<longrightarrow> d_size d \<le> d_size d1"
      using alloc_buffer_grow [of mem_ok d hb r1 buf] g assms(2) d by auto
    with that True d show thesis by (cases "r1 = 0") auto
  next
    case False
    with g that d show thesis by auto
  qed
  define room where "room = d_size d1 - d_len d1"
  have room: "0 \<le> room" using d1 d by (simp add: room_def)
  obtain k bs where kb: "recv room = (k, bs)" by (cases "recv room")
  have k: "k \<le> room" "0 < k \<longrightarrow> int (length bs) = k" using assms(3) [OF room] kb by auto
  have eq: "HTTP_sess_read mem_ok recv now i hs =
    (if r1 \<noteq> 0 then Some (HTTP_RET_ERR_RECEIVE, upd_sess i (?s\<lparr>s_r_buffer := Some d1\<rparr>) hs)
     else if k < 0 then Some (HTTP_RET_ERR_READ, upd_sess i (?s\<lparr>s_r_buffer := Some d1\<rparr>) hs)
     else if k = 0 then Some (HTTP_RET_ERR_CLOSE, upd_sess i (?s\<lparr>s_r_buffer := Some d1\<rparr>) hs)
     else Some (HTTP_RET_OK, upd_sess i (?s\<lparr>s_recv_count := s_recv_count ?s + 1,
            s_r_buffer := Some (d1
            \<lparr>d_data := mem_write (nat (d_len d1)) bs (d_data d1), d_len := d_len d1 + k\<rparr>),
            s_active_time := now, s_read_time := now\<rparr>) hs))"
    using assms(1,4,5) g d1(1) kb
    by (auto simp: HTTP_sess_read_def Let_def int_add_def room_def split: if_splits)
  have app: "contents (d1\<lparr>d_data := mem_write (nat (d_len d1)) bs (d_data d1), d_len := d_len d1 + k\<rparr>)
      = contents d @ bs" if "0 < k"
    using contents_append [of d1 bs] d1 d k that by simp
  show ?thesis
    using assms(4)[unfolded eq] d1 d k kb app
    by (intro exI [of _ "if r1 = 0 \<and> 0 < k then (d1\<lparr>d_data := mem_write (nat (d_len d1)) bs (d_data d1),
        d_len := d_len d1 + k\<rparr>) else d1"] exI [of _ room]) (auto simp: room_def split: if_splits)
qed

theorem http_sess_read_appends_witness:
  "\<exists>d' hs'. HTTP_sess_read True (\<lambda>n. (3, str ''GET'')) 1005 0 (fst (snd (snd demo_open))) = Some (0, hs') \<and>
     s_r_buffer (h_session hs' 0) = Some d' \<and> contents d' = str ''GET''"
proof -
  let ?hs = "fst (snd (snd demo_open))"
  let ?d = "\<lparr>d_size = 65536, d_len = 0, d_data = []\<rparr>"
  let ?recv = "\<lambda>n :: int. if 3 \<le> n then (3 :: int, str ''GET'') else (0, [])"
  have s: "s_r_buffer (h_session ?hs 0) = Some ?d" "s_header_length (h_session ?hs 0) = -1"
    "s_body_length (h_session ?hs 0) = -1"
    by (simp_all add: demo_open_def HTTP_sess_open_def demo_server_def HTTP_svr_init_def Let_def
      list_all_iff slot_init_def session_zero_def rauthen_verify_def rauthen_checkhost_def
      RAUTHEN_PASS_def http_alloc_buffer_def demo_peer_def sess_fresh_def eval_nat_numeral
      ADJUST_SIZE_def)
  have b: "buf_ok ?d" by (simp add: buf_ok_def)
  have rd: "HTTP_sess_read True f 1005 0 ?hs = Some (0, upd_sess 0 ((h_session ?hs 0)
      \<lparr>s_recv_count := s_recv_count (h_session ?hs 0) + 1,
       s_r_buffer := Some \<lparr>d_size = 65536, d_len = 3, d_data = str ''GET''\<rparr>,
       s_active_time := 1005, s_read_time := 1005\<rparr>) ?hs)"
    if "f 65536 = (3, str ''GET'')" for f
    using s that by (simp add: HTTP_sess_read_def int_add_def mem_write_def Let_def)
  have r: "HTTP_sess_read True ?recv 1005 0 ?hs = Some (0, upd_sess 0 ((h_session ?hs 0)
      \<lparr>s_recv_count := s_recv_count (h_session ?hs 0) + 1,
       s_r_buffer := Some \<lparr>d_size = 65536, d_len = 3, d_data = str ''GET''\<rparr>,
       s_active_time := 1005, s_read_time := 1005\<rparr>) ?hs)"
    by (rule rd) simp
  have rc: "fst (?recv n) \<le> n \<and> (0 < fst (?recv n) \<longrightarrow> int (length (snd (?recv n))) = fst (?recv n))"
    if "0 \<le> n" for n
    using that by simp
  from http_sess_read_appends [OF s(1) b rc r refl] obtain d' room where
    d': "s_r_buffer (h_session (upd_sess 0 ((h_session ?hs 0)
      \<lparr>s_recv_count := s_recv_count (h_session ?hs 0) + 1,
       s_r_buffer := Some \<lparr>d_size = 65536, d_len = 3, d_data = str ''GET''\<rparr>,
       s_active_time := 1005, s_read_time := 1005\<rparr>) ?hs) 0) = Some d'"
    "contents d' = contents ?d @ snd (?recv room)" "0 < fst (?recv room)"
    by auto
  then have "contents d' = str ''GET''"
    by (auto simp: contents_def mem_slice_def split: if_splits)
  with d'(1) rd [of "\<lambda>n. (3, str ''GET'')"] show ?thesis by auto
qed

text \<open>What a session has still to send.\<close>

definition pending :: "HSSESSION \<Rightarrow> bytes" where
  "pending s = (case s_w_buffer s of [] \<Rightarrow> []
     | w # ws \<Rightarrow> drop (nat (s_w_curr s)) (contents w) @ concat (map contents ws))"

definition out_ok :: "HSSESSION \<Rightarrow> bool" where
  "out_ok s \<longleftrightarrow> list_all (\<lambda>w. 0 \<le> d_len w) (s_w_buffer s) \<and> 0 \<le> s_w_curr s \<and>
     (case s_w_buffer s of [] \<Rightarrow> s_w_curr s = 0 | w # _ \<Rightarrow> s_w_curr s \<le> d_len w)"

lemma length_contents [simp]: "length (contents d) = nat (d_len d)"
  by (simp add: contents_def)

lemma drop_contents: "0 \<le> c \<Longrightarrow> drop (nat c) (contents w) = mem_slice (d_data w) (nat c) (nat (d_len w - c))"
  by (cases "c \<le> d_len w") (simp_all add: contents_def nat_diff_distrib mem_slice_def drop_map)

lemma sess_write_Cons:
  assumes "s_w_buffer (h_session hs i) = w # ws" "out_ok (h_session hs i)"
    and send: "\<And>bs. send bs \<le> int (length bs)"
    and wr: "HTTP_sess_write send fw now i hs = Some (r, hs', bs)"
  defines "s \<equiv> h_session hs i" and "s' \<equiv> h_session hs' i"
  shows "pending s = take (nat (send bs)) bs @ pending s'" "out_ok s'"
    "send bs < 0 \<longrightarrow> r = HTTP_RET_ERR_SEND \<and> hs' = hs"
    "r \<in> {HTTP_RET_SENT, HTTP_RET_SENT_CLOSE} \<longrightarrow> s_w_buffer s' = ws"
    "r \<notin> {HTTP_RET_SENT, HTTP_RET_SENT_CLOSE} \<longrightarrow> s_w_buffer s' = w # ws"
    "s_w_curr s < d_len w \<longrightarrow> bs \<noteq> []" "\<forall>j. j \<noteq> i \<longrightarrow> h_session hs' j = h_session hs j"
    "0 \<le> send bs \<and> s_w_curr s + send bs = d_len w \<longrightarrow> s_w_buffer s' = ws"
proof -
  define n where "n = (if h_max_w_len hs > 0 \<and> d_len w - s_w_curr s > h_max_w_len hs
    then h_max_w_len hs else d_len w - s_w_curr s)"
  have w: "0 \<le> s_w_curr s" "s_w_curr s \<le> d_len w" "0 \<le> d_len w" "list_all (\<lambda>w. 0 \<le> d_len w) ws"
    using assms(1,2) by (auto simp: out_ok_def s_def)
  have n: "0 \<le> n" "n \<le> d_len w - s_w_curr s" "s_w_curr s < d_len w \<longrightarrow> 0 < n"
    using w by (auto simp: n_def)
  have bs: "bs = mem_slice (d_data w) (nat (s_w_curr s)) (nat n)"
    using wr assms(1) w n(1)
    by (auto simp: HTTP_sess_write_def Let_def n_def [symmetric] s_def [symmetric] split: if_splits option.splits)
  have k: "send bs \<le> n" using send [of bs] bs n(1) by simp
  have pend: "pending s = drop (nat (s_w_curr s)) (contents w) @ concat (map contents ws)"
    using assms(1) by (simp add: pending_def s_def)
  have split_: "drop (nat (s_w_curr s)) (contents w) =
      take (nat (send bs)) bs @ drop (nat (s_w_curr s + send bs)) (contents w)" if "0 \<le> send bs"
  proof -
    have "take (nat (send bs)) (drop (nat (s_w_curr s)) (contents w)) = take (nat (send bs)) bs"
      using w(1) n k that by (simp add: drop_contents bs take_mem_slice)
    moreover have "nat (s_w_curr s + send bs) = nat (send bs) + nat (s_w_curr s)"
      using w(1) that by (simp add: nat_add_distrib)
    ultimately show ?thesis by (metis append_take_drop_id drop_drop)
  qed
  show "s_w_curr s < d_len w \<longrightarrow> bs \<noteq> []" using n(3) bs by (auto simp flip: length_0_conv)
  consider (err) "send bs < 0" "hs' = hs" "r = HTTP_RET_ERR_SEND"
    | (fin) "0 \<le> send bs" "s_w_curr s + send bs = d_len w" "s_w_curr s' = 0" "s_w_buffer s' = ws"
      "r \<in> {HTTP_RET_SENT, HTTP_RET_SENT_CLOSE}" "\<forall>j. j \<noteq> i \<longrightarrow> h_session hs' j = h_session hs j"
    | (part) "0 \<le> send bs" "s_w_curr s + send bs < d_len w" "s_w_curr s' = s_w_curr s + send bs"
      "s_w_buffer s' = w # ws" "r \<notin> {HTTP_RET_SENT, HTTP_RET_SENT_CLOSE}"
      "\<forall>j. j \<noteq> i \<longrightarrow> h_session hs' j = h_session hs j"
    using wr assms(1) w n k
    by (auto simp: HTTP_sess_write_def Let_def n_def [symmetric] s_def [symmetric] bs [symmetric] s'_def
        split: if_splits option.splits)
  note cases = this
  then show "pending s = take (nat (send bs)) bs @ pending s'"
  proof cases
    case err
    then show ?thesis by (simp add: s_def s'_def)
  next
    case fin
    then have "pending s' = concat (map contents ws)" by (auto simp: pending_def split: list.splits)
    with fin split_ pend show ?thesis by simp
  next
    case part
    with split_ pend show ?thesis by (simp add: pending_def)
  qed
  from cases show "out_ok s'"
    by cases (use assms(2) w in \<open>auto simp: out_ok_def s_def s'_def split: list.splits\<close>)
  from cases show "send bs < 0 \<longrightarrow> r = HTTP_RET_ERR_SEND \<and> hs' = hs" by cases auto
  from cases show "r \<in> {HTTP_RET_SENT, HTTP_RET_SENT_CLOSE} \<longrightarrow> s_w_buffer s' = ws" by cases auto
  from cases show "r \<notin> {HTTP_RET_SENT, HTTP_RET_SENT_CLOSE} \<longrightarrow> s_w_buffer s' = w # ws"
    by cases (use assms(1) in \<open>auto simp: s'_def\<close>)
  from cases show "\<forall>j. j \<noteq> i \<longrightarrow> h_session hs' j = h_session hs j" by cases auto
  from cases show "0 \<le> send bs \<and> s_w_curr s + send bs = d_len w \<longrightarrow> s_w_buffer s' = ws" by cases auto
qed


text \<open>
  C21. The bytes leave in the order in which they were queued, none lost and none sent twice:
  after each call the bytes that \<open>send\<close> accepted, followed by what is still pending, are what was
  pending before. A buffer leaves the queue when, and only when, its last byte is sent; a failed
  \<open>send\<close> changes nothing.
\<close>

theorem http_sess_write_stream:
  assumes "out_ok (h_session hs i)" and "\<And>bs. send bs \<le> int (length bs)"
    and "HTTP_sess_write send fw now i hs = Some (r, hs', bs)"
  shows "pending (h_session hs i) = take (nat (send bs)) bs @ pending (h_session hs' i) \<and>
    out_ok (h_session hs' i) \<and>
    s_w_buffer (h_session hs' i) =
      (if r \<in> {HTTP_RET_SENT, HTTP_RET_SENT_CLOSE} then tl (s_w_buffer (h_session hs i))
       else s_w_buffer (h_session hs i)) \<and>
    (s_w_buffer (h_session hs i) \<noteq> [] \<and> send bs < 0 \<longrightarrow> r = HTTP_RET_ERR_SEND \<and> hs' = hs) \<and>
    (\<forall>j. j \<noteq> i \<longrightarrow> h_session hs' j = h_session hs j)"
proof (cases "s_w_buffer (h_session hs i)")
  case Nil
  then show ?thesis using assms(1,3)
    by (auto simp: HTTP_sess_write_def pending_def out_ok_def)
next
  case (Cons w ws)
  from sess_write_Cons [OF this assms] Cons show ?thesis by simp
qed

primrec write_run ::
    "(bytes \<Rightarrow> int) \<Rightarrow> int option \<Rightarrow> int \<Rightarrow> nat \<Rightarrow> nat \<Rightarrow> HTTP_t \<Rightarrow> (bytes \<times> HTTP_t) option" where
  "write_run send fw now i 0 hs = Some ([], hs)"
| "write_run send fw now i (Suc k) hs = do {
     (_, hs, bs) \<leftarrow> HTTP_sess_write send fw now i hs;
     (out, hs) \<leftarrow> write_run send fw now i k hs;
     Some (take (nat (send bs)) bs @ out, hs)
   }"

lemma sess_write_Some: "out_ok (h_session hs i) \<Longrightarrow> \<exists>r hs' bs. HTTP_sess_write send fw now i hs = Some (r, hs', bs)"
  by (auto simp: HTTP_sess_write_def out_ok_def Let_def split: list.splits option.splits)

lemma write_run_Nil:
  "s_w_buffer (h_session hs i) = [] \<Longrightarrow>
   \<exists>hs'. write_run send fw now i k hs = Some ([], hs') \<and> s_w_buffer (h_session hs' i) = []"
proof (induction k arbitrary: hs)
  case (Suc k)
  obtain hs1 where "HTTP_sess_write send fw now i hs = Some (0, hs1, [])" "s_w_buffer (h_session hs1 i) = []"
    using Suc.prems by (auto simp: HTTP_sess_write_def Let_def)
  with Suc.IH [OF this(2)] show ?case by auto
qed simp

lemma write_run_drains:
  assumes send: "\<And>bs. send bs \<le> int (length bs) \<and> (bs \<noteq> [] \<longrightarrow> 0 < send bs) \<and> 0 \<le> send bs"
  shows "out_ok (h_session hs i) \<Longrightarrow>
    length (pending (h_session hs i)) + length (s_w_buffer (h_session hs i)) \<le> k \<Longrightarrow>
    \<exists>hs'. write_run send fw now i k hs = Some (pending (h_session hs i), hs') \<and>
      s_w_buffer (h_session hs' i) = []"
proof (induction k arbitrary: hs)
  case 0
  then show ?case by (auto simp: pending_def)
next
  case (Suc k)
  show ?case
  proof (cases "s_w_buffer (h_session hs i)")
    case Nil
    from write_run_Nil [OF this, of send fw now "Suc k"] show ?thesis
      by (simp add: pending_def Nil del: write_run.simps)
  next
    case (Cons w ws)
    obtain r hs1 bs where wr: "HTTP_sess_write send fw now i hs = Some (r, hs1, bs)"
      using sess_write_Some [OF Suc.prems(1)] by blast
    have send': "\<And>bs. send bs \<le> int (length bs)" using send by blast
    note st = sess_write_Cons [OF Cons Suc.prems(1) send' wr]
    have "length (take (nat (send bs)) bs) = nat (send bs)"
      using send [of bs] by (simp add: min_def) linarith
    then have len: "length (pending (h_session hs i)) = nat (send bs) + length (pending (h_session hs1 i))"
      unfolding st(1) by simp
    have "length (pending (h_session hs1 i)) + length (s_w_buffer (h_session hs1 i)) \<le> k"
    proof (cases "s_w_curr (h_session hs i) < d_len w")
      case True
      then have "0 < send bs" using st(6) send by blast
      moreover have "length (s_w_buffer (h_session hs1 i)) \<le> length (w # ws)"
        using st(4,5) by (cases "r \<in> {HTTP_RET_SENT, HTTP_RET_SENT_CLOSE}") auto
      ultimately show ?thesis using len Suc.prems(2) Cons by simp
    next
      case False
      then have "s_w_curr (h_session hs i) = d_len w"
        using Suc.prems(1) Cons by (auto simp: out_ok_def)
      moreover from this have "bs = []"
        using wr Cons Suc.prems(1)
        by (auto simp: HTTP_sess_write_def Let_def out_ok_def mem_slice_def split: if_splits option.splits)
      ultimately have "s_w_buffer (h_session hs1 i) = ws"
        using st(8) send [of bs] by simp
      then show ?thesis using len Suc.prems(2) Cons by simp
    qed
    from Suc.IH [OF st(2) this] obtain hs' where
      "write_run send fw now i k hs1 = Some (pending (h_session hs1 i), hs')"
      "s_w_buffer (h_session hs' i) = []" by blast
    with wr st(1) show ?thesis by simp
  qed
qed

text \<open>
  C40. Every queued byte is eventually sent: if \<open>send\<close> accepts at least one byte of each non-empty
  offer, then as many calls as there are bytes and buffers send exactly the pending bytes and
  leave the queue empty.
\<close>

theorem http_sess_write_drains:
  assumes "\<And>bs. send bs \<le> int (length bs) \<and> (bs \<noteq> [] \<longrightarrow> 0 < send bs) \<and> 0 \<le> send bs"
    and "out_ok (h_session hs i)"
    and "k = length (pending (h_session hs i)) + length (s_w_buffer (h_session hs i))"
  shows "\<exists>hs'. write_run send fw now i k hs = Some (pending (h_session hs i), hs') \<and>
    s_w_buffer (h_session hs' i) = []"
  by (rule write_run_drains [OF assms(1,2)]) (simp_all add: assms(3))

definition demo_out :: HTTP_t where
  "demo_out = upd_sess 1 (session_zero\<lparr>s_sock := 4, s_w_curr := 1,
     s_w_buffer := [\<lparr>d_size = 9, d_len = 3, d_data = str ''abc''\<rparr>, \<lparr>d_size = 9, d_len = 2, d_data = str ''de''\<rparr>]\<rparr>)
     (demo_server 3)"

lemma demo_out: "out_ok (h_session demo_out 1)" "pending (h_session demo_out 1) = str ''bcde''"
  "length (s_w_buffer (h_session demo_out 1)) = 2"
  by (simp_all add: demo_out_def out_ok_def pending_def contents_def mem_slice_def mem_read_def upt_rec
      numeral_2_eq_2)

theorem http_sess_write_stream_witness:
  "\<exists>r hs' bs. HTTP_sess_write (\<lambda>bs. 1) None 7 1 demo_out = Some (r, hs', bs) \<and>
     str ''bcde'' = take 1 bs @ pending (h_session hs' 1)"
proof -
  let ?send = "\<lambda>bs :: bytes. if bs = [] then 0 else 1"
  obtain r hs' bs where w: "HTTP_sess_write ?send None 7 1 demo_out = Some (r, hs', bs)"
    using sess_write_Some [OF demo_out(1)] by blast
  then have ne: "bs \<noteq> []" and "HTTP_sess_write (\<lambda>bs. 1) None 7 1 demo_out = Some (r, hs', bs)"
    by (auto simp: HTTP_sess_write_def Let_def demo_out_def mem_slice_def upt_rec split: if_splits)
  have "?send b \<le> int (length b)" for b by (cases b) auto
  from http_sess_write_stream [OF demo_out(1) this w] demo_out(2) \<open>bs \<noteq> []\<close>
    \<open>HTTP_sess_write (\<lambda>bs. 1) None 7 1 demo_out = Some (r, hs', bs)\<close>
  show ?thesis by auto
qed

theorem http_sess_write_drains_witness:
  "\<exists>hs'. write_run (\<lambda>bs. int (length (take 3 bs))) None 7 1 6 demo_out = Some (str ''bcde'', hs') \<and>
     s_w_buffer (h_session hs' 1) = []"
  using http_sess_write_drains [OF _ demo_out(1), of "\<lambda>bs. int (length (take 3 bs))" 6 None 7] demo_out
  by (simp add: eval_nat_numeral)

section \<open>Properties of the timeouts\<close>

lemma verify_loop_first:
  assumes "verify_loop cb cr ct is hs = Some (r, hs', ev)"
  shows "(if \<exists>i \<in> set is. 0 \<le> h_sock hs i \<and> timed_out hs ct (h_session hs i)
    then r = HTTP_RET_TIMEOUT \<and> (\<exists>us i vs r'. is = us @ i # vs \<and>
        (\<forall>j \<in> set us. \<not> (0 \<le> h_sock hs j \<and> timed_out hs ct (h_session hs j))) \<and>
        0 \<le> h_sock hs i \<and> timed_out hs ct (h_session hs i) \<and>
        HTTP_sess_close cb cr (s_no (h_session hs i)) hs = Some (r', hs', ev))
    else r = HTTP_RET_OK \<and> hs' = hs \<and> ev = [])"
  using assms
proof (induction "is")
  case (Cons i "is")
  show ?case
  proof (cases "0 \<le> h_sock hs i \<and> timed_out hs ct (h_session hs i)")
    case True
    with Cons.prems have "r = HTTP_RET_TIMEOUT \<and>
        (\<exists>r'. HTTP_sess_close cb cr (s_no (h_session hs i)) hs = Some (r', hs', ev))"
      by (auto split: Option.bind_splits)
    with True show ?thesis by (auto intro!: exI [of _ "[]"])
  next
    case False
    with Cons have IH: "if \<exists>i \<in> set is. 0 \<le> h_sock hs i \<and> timed_out hs ct (h_session hs i)
      then r = HTTP_RET_TIMEOUT \<and> (\<exists>us i vs r'. is = us @ i # vs \<and>
        (\<forall>j \<in> set us. \<not> (0 \<le> h_sock hs j \<and> timed_out hs ct (h_session hs j))) \<and>
        0 \<le> h_sock hs i \<and> timed_out hs ct (h_session hs i) \<and>
        HTTP_sess_close cb cr (s_no (h_session hs i)) hs = Some (r', hs', ev))
      else r = HTTP_RET_OK \<and> hs' = hs \<and> ev = []"
      by simp
    show ?thesis
    proof (cases "\<exists>i \<in> set is. 0 \<le> h_sock hs i \<and> timed_out hs ct (h_session hs i)")
      case True
      with IH obtain us k vs r' where "is = us @ k # vs" "r = HTTP_RET_TIMEOUT"
        "\<forall>j \<in> set us. \<not> (0 \<le> h_sock hs j \<and> timed_out hs ct (h_session hs j))"
        "0 \<le> h_sock hs k" "timed_out hs ct (h_session hs k)"
        "HTTP_sess_close cb cr (s_no (h_session hs k)) hs = Some (r', hs', ev)"
        by auto
      with False have "i # is = (i # us) @ k # vs" "\<forall>j \<in> set (i # us). \<not> (0 \<le> h_sock hs j \<and> timed_out hs ct (h_session hs j))"
        by auto
      with \<open>r = HTTP_RET_TIMEOUT\<close> \<open>0 \<le> h_sock hs k\<close> \<open>timed_out hs ct (h_session hs k)\<close>
        \<open>HTTP_sess_close cb cr (s_no (h_session hs k)) hs = Some (r', hs', ev)\<close> True
      show ?thesis by (metis list.set_intros(2))
    next
      case False': False
      with IH False show ?thesis by auto
    qed
  qed
qed simp

end
