(* ===== verification/UrlEncode.thy ===== *)
theory UrlEncode
  imports CBase
begin

text \<open>
  libs/codecs/urlencode/urlencode.c. A string is its bytes before the NUL; the two functions
  return the bytes they write before the final NUL. \<open>SUPPORT_HTML5\<close> is not defined by the
  build, so its branches are not compiled. \<open>isdigit\<close>, \<open>isalnum\<close> and \<open>tolower\<close> are those of the
  C locale.
\<close>

section \<open>The functions\<close>

definition isalnum :: "byte \<Rightarrow> bool" where
  "isalnum c \<longleftrightarrow> isdigit c \<or> of_char (CHR ''A'') \<le> c \<and> c \<le> of_char (CHR ''Z'') \<or>
     of_char (CHR ''a'') \<le> c \<and> c \<le> of_char (CHR ''z'')"

definition from_hex :: "byte \<Rightarrow> byte" where
  "from_hex ch = (if isdigit ch then ch - of_char (CHR ''0'')
                  else tolower ch - of_char (CHR ''a'') + 10)"

definition to_hex :: "byte \<Rightarrow> byte" where
  "to_hex code = str ''0123456789abcdef'' ! unat (code AND 15)"

definition percent :: byte where
  "percent = of_char (CHR ''%'')"

fun url_encode_init :: "bytes \<Rightarrow> bytes" where
  "url_encode_init [] = []"
| "url_encode_init (c # pstr) =
     (if isalnum c \<or> c = of_char (CHR ''-'') \<or> c = of_char (CHR ''_'') \<or> c = of_char (CHR ''.'')
         \<or> c = of_char (CHR ''~'')
      then c # url_encode_init pstr
      else percent # to_hex (signed_drop_bit 4 c) # to_hex (c AND 15) # url_encode_init pstr)"

fun url_decode_init :: "bytes \<Rightarrow> bytes" where
  "url_decode_init [] = []"
| "url_decode_init [c] = (if c = percent then [] else [c])"
| "url_decode_init [c, a] =
     (if c = percent then url_decode_init [a] else c # url_decode_init [a])"
| "url_decode_init (c # a # b # pstr) =
     (if c = percent then (push_bit 4 (from_hex a) OR from_hex b) # url_decode_init pstr
      else c # url_decode_init (a # b # pstr))"

section \<open>Properties\<close>

text \<open>The characters that \<open>url_encode_init\<close> may write.\<close>

definition url_safe :: "byte \<Rightarrow> bool" where
  "url_safe c \<longleftrightarrow> isalnum c \<or> c \<in> set (str ''-_.~%'')"

lemma to_hex_less16:
  "w < 16 \<Longrightarrow> from_hex (to_hex w) = w \<and> isalnum (to_hex w)" for w :: byte
proof -
  have all: "\<forall>k \<in> set [0..<16]. from_hex (to_hex (of_nat k)) = of_nat k \<and> isalnum (to_hex (of_nat k))"
    by code_simp
  assume "w < 16"
  then have "unat w \<in> set [0..<16]" by (simp add: word_less_nat_alt)
  from bspec [OF all this] show ?thesis by simp
qed

lemma to_hex_AND: "to_hex w = to_hex (w AND 15)"
  by (simp add: to_hex_def and.assoc)

lemma nibble_less: "w AND 15 < (16 :: byte)"
  by (rule le_less_trans [OF word_and_le1]) simp

lemma from_to_hex: "from_hex (to_hex w) = w AND 15" and isalnum_to_hex [simp]: "isalnum (to_hex w)"
  using to_hex_less16 [OF nibble_less [of w]] to_hex_AND [of w] by simp_all

lemma nibbles: "push_bit 4 (signed_drop_bit 4 c AND 15) OR (c AND 15) = (c :: byte)"
  by (rule byte_eqI; simp add: bit_simps)

lemma decode_plain: "c \<noteq> percent \<Longrightarrow> url_decode_init (c # s) = c # url_decode_init s"
  by (cases s rule: url_decode_init.cases) simp_all

lemma isalnum_not_percent: "isalnum c \<Longrightarrow> c \<noteq> percent"
  by (auto simp: isalnum_def isdigit_def percent_def)

text \<open>
  C37. Decoding an encoded string returns it, for every string of bytes; the encoding is at most
  three times as long, so that it fits the buffer of \<open>3 * strlen + 1\<close> bytes with its NUL, and
  consists of unreserved characters and percent signs only.
\<close>

theorem url_roundtrip:
  "url_decode_init (url_encode_init s) = s \<and> length (url_encode_init s) \<le> 3 * length s \<and>
   list_all url_safe (url_encode_init s)"
proof (induction s)
  case (Cons c s)
  have "c \<noteq> percent" if "isalnum c \<or> c = of_char (CHR ''-'') \<or> c = of_char (CHR ''_'') \<or>
      c = of_char (CHR ''.'') \<or> c = of_char (CHR ''~'')"
    using that isalnum_not_percent [of c] by (auto simp: percent_def)
  moreover have "url_safe percent" by (simp add: url_safe_def percent_def)
  ultimately show ?case using Cons
    by (auto simp: decode_plain from_to_hex nibbles [simplified] url_safe_def)
qed simp

text \<open>
  The decoder stays inside its buffer of \<open>strlen + 1\<close> bytes on every input, copies what
  contains no percent sign, and drops a percent sign that fewer than two characters follow.
\<close>

theorem url_decode_bounds:
  "length (url_decode_init s) \<le> length s \<and>
   (percent \<notin> set s \<longrightarrow> url_decode_init s = s \<and> url_decode_init (s @ [percent]) = s)"
proof (induction s rule: url_decode_init.induct)
  case (3 c a)
  then show ?case by (auto simp: decode_plain)
next
  case (4 c a b s)
  then show ?case by (cases "c = percent") (auto simp: decode_plain)
qed auto

theorem url_decode_bounds_witness:
  "length (url_decode_init (str ''a%4'')) \<le> 3 \<and> url_decode_init (str ''ab'') = str ''ab'' \<and>
   url_decode_init (str ''ab%'') = str ''ab''"
  using url_decode_bounds [of "str ''a%4''"] url_decode_bounds [of "str ''ab''"]
  by (simp add: percent_def)

end
