(* ===== verification/HttpDecode.thy ===== *)
theory HttpDecode
  imports HttpConn UrlEncode
begin

text \<open>
  \<open>HTTP_sess_decode\<close> of libs/stacks/http/http.c: the parser of a request, in the steps of the
  function. It works on the memory of the read buffer, which it changes in place (it removes
  leading line ends and cuts the header from the body with a NUL). \<open>strtol\<close> is the function
  of the C library for base 10. Signed overflow is \<open>None\<close>.
\<close>

section \<open>The steps\<close>

definition CR :: byte where "CR = 13"
definition LF :: byte where "LF = 10"

definition CRLF :: bytes where "CRLF = [13, 10]"

text \<open>
  Skip extra line ends. The result is the buffer and whether nothing else was in it.
\<close>

definition skip_crlf :: "HSDATA \<Rightarrow> HSDATA \<times> bool" where
  "skip_crlf d =
     (let used = contents d; i = length (takeWhile (\<lambda>c. c = CR \<or> c = LF) used) in
      if i > 0 then
        if int i \<ge> d_len d then (d\<lparr>d_len := 0\<rparr>, True)
        else
          let d = d\<lparr>d_data := mem_write 0 (drop i used) (d_data d), d_len := d_len d - int i\<rparr>
          in (d\<lparr>d_data := mem_write (nat (d_len d)) [0] (d_data d)\<rparr>, False)
      else (d, False))"

text \<open>
  The method: the name that stands at the start of the first nine bytes, tested in the order
  of the code, with its length including the blank.
\<close>

definition method_of :: "bytes \<Rightarrow> (HTTP_METHOD_TYPE \<times> nat) option" where
  "method_of m =
     (let s = cstr (mem_slice m 0 9) in
      if strstr s (str ''GET '') = Some 0 then Some (HTTP_METHOD_GET, 4)
      else if strstr s (str ''TRACE '') = Some 0 then Some (HTTP_METHOD_TRACE, 6)
      else if strstr s (str ''HEAD '') = Some 0 then Some (HTTP_METHOD_HEAD, 5)
      else if strstr s (str ''DELETE '') = Some 0 then Some (HTTP_METHOD_DELETE, 7)
      else if strstr s (str ''POST '') = Some 0 then Some (HTTP_METHOD_POST, 5)
      else if strstr s (str ''PUT '') = Some 0 then Some (HTTP_METHOD_PUT, 4)
      else if strstr s (str ''OPTIONS '') = Some 0 then Some (HTTP_METHOD_OPTIONS, 8)
      else if strstr s (str ''CONNECT '') = Some 0 then Some (HTTP_METHOD_CONNECT, 8)
      else None)"

definition count_method :: "HTTP_METHOD_TYPE \<Rightarrow> HTTP_t \<Rightarrow> HTTP_t" where
  "count_method mt hs =
     (case mt of
        HTTP_METHOD_GET \<Rightarrow> hs\<lparr>h_GET_status := (h_GET_status hs)
          \<lparr>c_recv_msg_count := c_recv_msg_count (h_GET_status hs) + 1\<rparr>\<rparr>
      | HTTP_METHOD_DELETE \<Rightarrow> hs\<lparr>h_DELETE_status := (h_DELETE_status hs)
          \<lparr>c_recv_msg_count := c_recv_msg_count (h_DELETE_status hs) + 1\<rparr>\<rparr>
      | HTTP_METHOD_POST \<Rightarrow> hs\<lparr>h_POST_status := (h_POST_status hs)
          \<lparr>c_recv_msg_count := c_recv_msg_count (h_POST_status hs) + 1\<rparr>\<rparr>
      | HTTP_METHOD_PUT \<Rightarrow> hs\<lparr>h_PUT_status := (h_PUT_status hs)
          \<lparr>c_recv_msg_count := c_recv_msg_count (h_PUT_status hs) + 1\<rparr>\<rparr>
      | _ \<Rightarrow> hs)"

text \<open>
  \<open>strtol (s, \<dots>, 10)\<close>: the value and what follows the number; without digits the value is 0
  and nothing is consumed. A value outside the range of \<open>long\<close> is its nearest bound.
\<close>

definition LONG_MAX :: int where "LONG_MAX = 2 ^ 63 - 1"

definition digits_value :: "bytes \<Rightarrow> int" where
  "digits_value ds = fold (\<lambda>c n. n * 10 + (uint c - 48)) ds 0"

definition strtol :: "bytes \<Rightarrow> int \<times> bytes" where
  "strtol s =
     (let t = dropWhile isspace s;
          (neg, t) = (case t of [] \<Rightarrow> (False, [])
             | c # u \<Rightarrow> if c = of_char (CHR ''-'') then (True, u)
                        else if c = of_char (CHR ''+'') then (False, u) else (False, t));
          ds = takeWhile isdigit t
      in if ds = [] then (0, s)
         else
           let v = (if neg then - digits_value ds else digits_value ds)
           in (max (- LONG_MAX - 1) (min LONG_MAX v), dropWhile isdigit t))"

text \<open>
  The value of the \<open>Content-Length\<close> field of the header: \<open>None\<close> when the field is missing,
  \<open>Some None\<close> when its value is invalid.
\<close>

definition content_length :: "bytes \<Rightarrow> int option option" where
  "content_length hdr =
     (case strstr hdr (str ''Content-Length:'') of
        None \<Rightarrow> None
      | Some p \<Rightarrow>
          let pp = drop (p + 15) hdr;
              pp = (if pp \<noteq> [] \<and> hd pp = 32 then tl pp else pp);
              (ll, pp) = strtol pp
          in Some (if ll = LONG_MAX \<or> \<not> prefix_of CRLF pp then None else Some (to_int32 ll)))"

section \<open>The function\<close>

text \<open>
  The part after the method: the version, the request URI and, for PUT and POST, the length of
  the body. \<open>mp\<close> is the offset behind the method and its blank. The result is \<open>Inl\<close> of a
  return value, or \<open>Inr\<close> to go on with the check of the body.
\<close>

type_synonym step = "int option \<times> HTTP_t \<times> HSSESSION"

definition bad_request :: "HTTP_t \<Rightarrow> HSSESSION \<Rightarrow> step" where
  "bad_request hs s = (Some HTTP_RET_ERROR_AVAILABLE,
     hs\<lparr>h_error_msg_count := h_error_msg_count hs + 1\<rparr>, s\<lparr>s_error_response := 400\<rparr>)"

definition decode_length :: "HSDATA \<Rightarrow> HTTP_t \<Rightarrow> HSSESSION \<Rightarrow> step" where
  "decode_length d hs s =
     (case content_length (cstr (d_data d)) of
        None \<Rightarrow> (Some HTTP_RET_ERR_DECODE, hs, s\<lparr>s_body_length := 0\<rparr>)
      | Some None \<Rightarrow> (Some HTTP_RET_ERR_DECODE, hs, s)
      | Some (Some n) \<Rightarrow> (None, hs, s\<lparr>s_body_length := n\<rparr>))"

definition decode_uri :: "HSDATA \<Rightarrow> nat \<Rightarrow> HTTP_t \<Rightarrow> HSSESSION \<Rightarrow> step" where
  "decode_uri d mp hs s =
     (case strstr (cstr (drop mp (d_data d))) (str '' HTTP/1.'') of
        None \<Rightarrow>
          let d = d\<lparr>d_data := mem_write (nat (s_header_length s)) [0] (d_data d)\<rparr>
          in bad_request hs (s\<lparr>s_r_buffer := Some d\<rparr>)
      | Some k \<Rightarrow>
          let s = s\<lparr>s_header_version := mem_write 0 (mem_slice (d_data d) (mp + k + 1) 8) (s_header_version s)\<rparr>;
              s = s\<lparr>s_request_uri := map_option (\<lambda>_. str ''/'') (s_request_uri s)\<rparr>
          in
          if 1 \<le> k \<and> int k < HTTP_MAX_QUERY_STRING_LEN then
            if s_request_uri s \<noteq> None then
              let uri = url_decode_init (take k (drop mp (d_data d)));
                  s = s\<lparr>s_request_uri := Some (cstr uri)\<rparr>
              in
              if s_http_method s \<noteq> HTTP_METHOD_PUT \<and> s_http_method s \<noteq> HTTP_METHOD_POST then
                (Some HTTP_RET_DATA_AVAILABLE,
                 hs\<lparr>h_recv_msg_count := h_recv_msg_count hs + 1\<rparr>, s\<lparr>s_body_length := 0\<rparr>)
              else decode_length d hs s
            else (Some HTTP_RET_ERR_DECODE, hs, s)
          else bad_request hs s)"

text \<open>The header, once its end has been found at the offset \<open>e\<close>.\<close>

definition decode_header :: "HSDATA \<Rightarrow> nat \<Rightarrow> HTTP_t \<Rightarrow> HSSESSION \<Rightarrow> step" where
  "decode_header d e hs s =
     (let d = d\<lparr>d_data := mem_write (e + 2) [0] (d_data d)\<rparr>;
          s = s\<lparr>s_r_buffer := Some d, s_header_length := int e + 4\<rparr>
      in
      if s_header_length s < 10 then (Some HTTP_RET_ERR_DECODE, hs, s)
      else
        let s = s\<lparr>s_error_response := 0\<rparr> in
        (case method_of (d_data d) of
           None \<Rightarrow>
             let d = d\<lparr>d_data := mem_write (nat (s_header_length s)) [0] (d_data d)\<rparr>
             in (Some HTTP_RET_ERROR_AVAILABLE,
                 hs\<lparr>h_error_msg_count := h_error_msg_count hs + 1\<rparr>,
                 s\<lparr>s_r_buffer := Some d, s_error_response := 501\<rparr>)
         | Some (mt, mlen) \<Rightarrow> decode_uri d mlen (count_method mt hs) (s\<lparr>s_http_method := mt\<rparr>)))"

text \<open>The search for the header in a buffer that is not empty.\<close>

definition decode_start :: "HSDATA \<Rightarrow> HTTP_t \<Rightarrow> HSSESSION \<Rightarrow> step" where
  "decode_start d hs s =
     (let (d, only_crlf) = skip_crlf d; s = s\<lparr>s_r_buffer := Some d\<rparr> in
      if only_crlf then (Some HTTP_RET_WAIT_MORE_DATA, hs, s\<lparr>s_read_time := 0\<rparr>)
      else if d_len d \<le> 0 then (Some HTTP_RET_WAIT_MORE_DATA, hs, s)
      else
        (case strstr (cstr (d_data d)) (CRLF @ CRLF) of
           None \<Rightarrow>
             if d_len d \<ge> HTTP_MAX_HEADER_SIZE then (Some HTTP_RET_ERR_DECODE, hs, s)
             else (Some HTTP_RET_WAIT_MORE_DATA, hs, s)
         | Some e \<Rightarrow> decode_header d e hs s))"

definition HTTP_sess_decode :: "nat \<Rightarrow> HTTP_t \<Rightarrow> (int \<times> HTTP_t) option" where
  "HTTP_sess_decode i hs = do {
     let s = h_session hs i;
     d \<leftarrow> s_r_buffer s;
     if d_len d \<le> 0 then Some (HTTP_RET_WAIT_MORE_DATA, hs)
     else do {
       let (r, hs, s) = (if s_header_length s < 0 then decode_start d hs s else (None, hs, s));
       let hs = upd_sess i s hs;
       case r of
         Some r \<Rightarrow> Some (r, hs)
       | None \<Rightarrow> do {
           d \<leftarrow> s_r_buffer s;
           hb \<leftarrow> int_add (s_header_length s) (s_body_length s);
           if d_len d < hb then Some (HTTP_RET_WAIT_MORE_DATA, hs)
           else Some (HTTP_RET_DATA_AVAILABLE, hs\<lparr>h_recv_msg_count := h_recv_msg_count hs + 1\<rparr>)
         }
     }
   }"

section \<open>Facts about the search functions\<close>

lemma strstr_append_left: "strstr s p = Some i \<Longrightarrow> p \<noteq> [] \<Longrightarrow> strstr (s @ t) p = Some i"
proof -
  assume a: "strstr s p = Some i" "p \<noteq> []"
  have b: "j + length p \<le> length s" if "j \<le> i" for j
    using strstr_bound [OF a(1)] that by simp
  have "prefix_of p (drop j (s @ t)) = prefix_of p (drop j s)" if "j \<le> i" for j
    using b [OF that] a(2) by (simp add: prefix_of_iff)
  then show ?thesis using a(1) strstr_bound [OF a(1)] by (auto simp: strstr_Some_iff)
qed

lemma strstr_prefix_None:
  assumes "strstr (s @ t) p = Some i" "length s < i + length p"
  shows "strstr s p = None"
proof (rule ccontr)
  assume "strstr s p \<noteq> None"
  then obtain j where j: "strstr s p = Some j" by blast
  have "p \<noteq> []" using assms by (auto simp: strstr_Some_iff)
  with strstr_append_left [OF j this, of t] assms(1) have "j = i" by simp
  with strstr_bound [OF j] assms(2) show False by simp
qed

lemma strstr_unique: "c \<notin> set s \<Longrightarrow> strstr (s @ (c # q) @ t) (c # q) = Some (length s)"
  by (induction s) (auto simp: prefix_of_iff)

lemma cstr_append: "0 \<notin> set s \<Longrightarrow> cstr (s @ t) = s @ cstr t"
  by (induction s) (auto simp: cstr_def)

lemma cstr_append_zero: "0 \<notin> set s \<Longrightarrow> cstr (s @ 0 # t) = s"
  by (induction s) (auto simp: cstr_def)

lemma strstr_0: "strstr s p = Some 0 \<longleftrightarrow> prefix_of p s"
  by (cases s; cases p) auto

lemma mem_slice_full: "mem_slice m 0 (length m) = m"
  by (rule nth_equalityI) (simp_all add: mem_slice_def mem_read_def)

lemma mem_slice_middle: "mem_slice (a @ b @ c) (length a) (length b) = b"
  by (rule nth_equalityI) (simp_all add: mem_slice_def mem_read_def nth_append)

lemma mem_write_middle: "length b = length b' \<Longrightarrow> mem_write (length a) b' (a @ b @ c) = a @ b' @ c"
  by (simp add: mem_write_def)

section \<open>Requests\<close>

fun method_name :: "HTTP_METHOD_TYPE \<Rightarrow> bytes" where
  "method_name HTTP_METHOD_GET = str ''GET ''"
| "method_name HTTP_METHOD_POST = str ''POST ''"
| "method_name HTTP_METHOD_PUT = str ''PUT ''"
| "method_name HTTP_METHOD_DELETE = str ''DELETE ''"
| "method_name HTTP_METHOD_TRACE = str ''TRACE ''"
| "method_name HTTP_METHOD_OPTIONS = str ''OPTIONS ''"
| "method_name HTTP_METHOD_HEAD = str ''HEAD ''"
| "method_name HTTP_METHOD_CONNECT = str ''CONNECT ''"

lemma method_of_name:
  "0 \<notin> set (take 9 (method_name mt @ s)) \<Longrightarrow>
   method_of (method_name mt @ s) = Some (mt, length (method_name mt))"
  by (cases mt)
    (auto simp: method_of_def strstr_0 cstr_def mem_slice_def mem_read_def upt_rec Let_def split: if_splits)

text \<open>
  The header of a request up to its empty line: the method, the URI, the version and the header
  lines; the empty line is the first one.
\<close>

definition head_of :: "HTTP_METHOD_TYPE \<Rightarrow> bytes \<Rightarrow> bytes \<Rightarrow> bytes" where
  "head_of mt uri rest = method_name mt @ uri @ str '' HTTP/1.'' @ rest"

definition request_ok :: "HTTP_METHOD_TYPE \<Rightarrow> bytes \<Rightarrow> bytes \<Rightarrow> bool" where
  "request_ok mt uri rest \<longleftrightarrow>
     0 \<notin> set (head_of mt uri rest) \<and> 32 \<notin> set uri \<and> 1 \<le> length uri \<and> length uri < 1024 \<and>
     strstr (head_of mt uri rest @ CRLF @ CRLF) (CRLF @ CRLF) = Some (length (head_of mt uri rest)) \<and>
     length (head_of mt uri rest) + 4 < 16384"

definition has_body :: "HTTP_METHOD_TYPE \<Rightarrow> bool" where
  "has_body mt \<longleftrightarrow> mt = HTTP_METHOD_PUT \<or> mt = HTTP_METHOD_POST"

text \<open>The session after a header was read, with the part \<open>body\<close> behind it in the buffer.\<close>

definition decoded :: "HTTP_METHOD_TYPE \<Rightarrow> bytes \<Rightarrow> bytes \<Rightarrow> bytes \<Rightarrow> HSSESSION \<Rightarrow> HSSESSION" where
  "decoded mt uri rest body s =
     (let h = head_of mt uri rest; d = the (s_r_buffer s) in
      s\<lparr>s_r_buffer := Some (d\<lparr>d_data := h @ CRLF @ [0, 10] @ body\<rparr>),
        s_header_length := int (length h) + 4, s_error_response := 0, s_http_method := mt,
        s_header_version :=
          mem_write 0 (mem_slice (h @ CRLF @ [0, 10] @ body) (length (method_name mt) + length uri + 1) 8)
            (s_header_version s),
        s_request_uri := Some (cstr (url_decode_init uri))\<rparr>)"

lemma head_first: "\<exists>c t. head_of mt uri rest = c # t \<and> c \<noteq> CR \<and> c \<noteq> LF \<and> 12 \<le> length t"
  if "1 \<le> length uri"
  using that by (cases mt; cases uri) (auto simp: head_of_def CR_def LF_def)

lemma skip_crlf_none:
  "d_data d = c # t \<Longrightarrow> 0 < d_len d \<Longrightarrow> c \<noteq> CR \<Longrightarrow> c \<noteq> LF \<Longrightarrow> skip_crlf d = (d, False)"
  by (cases "nat (d_len d)")
    (auto simp: skip_crlf_def contents_def mem_slice_def mem_read_def upt_conv_Cons Let_def simp del: upt_Suc)

lemma decode_start_request:
  assumes req: "request_ok mt uri rest"
    and d: "s_r_buffer s = Some d" "d_data d = head_of mt uri rest @ CRLF @ CRLF @ body"
      "d_len d = int (length (d_data d))"
    and uri: "s_request_uri s \<noteq> None"
  shows "decode_start d hs s =
    (if has_body mt
     then decode_length (the (s_r_buffer (decoded mt uri rest body s))) (count_method mt hs) (decoded mt uri rest body s)
     else (Some HTTP_RET_DATA_AVAILABLE, (count_method mt hs)
             \<lparr>h_recv_msg_count := h_recv_msg_count (count_method mt hs) + 1\<rparr>,
           (decoded mt uri rest body s)\<lparr>s_body_length := 0\<rparr>))"
proof -
  define h where "h = head_of mt uri rest"
  note r = req [unfolded request_ok_def, folded h_def]
  obtain c t where ct: "h = c # t" "c \<noteq> CR" "c \<noteq> LF" "12 \<le> length t"
    using head_first [of uri mt rest] r unfolding h_def by auto
  have skip: "skip_crlf d = (d, False)"
    using d(2,3) ct by (intro skip_crlf_none [of d c]) (auto simp: h_def [symmetric])
  have nz: "0 \<notin> set (h @ CRLF @ CRLF)" using r by (simp add: CRLF_def)
  have "strstr (cstr (d_data d)) (CRLF @ CRLF) = Some (length h)"
  proof -
    have "cstr (d_data d) = (h @ CRLF @ CRLF) @ cstr body"
      using cstr_append [OF nz, of body] unfolding d(2) h_def [symmetric] by simp
    moreover have "strstr ((h @ CRLF @ CRLF) @ cstr body) (CRLF @ CRLF) = Some (length h)"
      by (rule strstr_append_left) (use r in \<open>simp_all add: CRLF_def\<close>)
    ultimately show ?thesis by simp
  qed
  moreover have "s\<lparr>s_r_buffer := Some d\<rparr> = s" using d(1) by (cases s) simp
  ultimately have start: "decode_start d hs s = decode_header d (length h) hs s"
    using skip d(3) ct(1) d(2) unfolding decode_start_def by (simp add: h_def [symmetric])
  define m where "m = h @ CRLF @ [0, 10] @ body"
  define d' where "d' = d\<lparr>d_data := m\<rparr>"
  have cut: "mem_write (length h + 2) [0] (d_data d) = m"
    using mem_write_middle [of "[13]" "[0]" "h @ CRLF" "10 # body"]
    by (simp add: d(2) h_def [symmetric] CRLF_def m_def)
  let ?mp = "length (method_name mt)"
  have hm: "h = method_name mt @ uri @ str '' HTTP/1.'' @ rest" by (simp add: h_def head_of_def)
  have meth: "method_of m = Some (mt, ?mp)"
  proof -
    have "take 9 m = take 9 h" using ct by (simp add: m_def)
    moreover have "0 \<notin> set (take 9 h)" using r by (auto dest: in_set_takeD)
    ultimately show ?thesis
      using method_of_name [of mt "uri @ str '' HTTP/1.'' @ rest @ CRLF @ [0, 10] @ body"]
      by (simp add: m_def hm)
  qed
  have tail: "drop ?mp m = uri @ str '' HTTP/1.'' @ rest @ CRLF @ [0, 10] @ body"
    by (simp add: m_def hm)
  have "cstr (drop ?mp m) = uri @ str '' HTTP/1.'' @ rest @ CRLF"
    unfolding tail using cstr_append_zero [of "uri @ str '' HTTP/1.'' @ rest @ CRLF" "10 # body"] r
    by (simp add: hm CRLF_def)
  then have ver: "strstr (cstr (drop ?mp m)) (str '' HTTP/1.'') = Some (length uri)"
    using strstr_unique [of 32 uri "str ''HTTP/1.''" "rest @ CRLF"] r by simp
  have dec: "decoded mt uri rest body s = s\<lparr>s_r_buffer := Some d', s_header_length := int (length h) + 4,
      s_error_response := 0, s_http_method := mt,
      s_header_version := mem_write 0 (mem_slice m (?mp + length uri + 1) 8) (s_header_version s),
      s_request_uri := Some (cstr (url_decode_init uri))\<rparr>"
    using d(1) by (simp add: decoded_def Let_def h_def [symmetric] m_def d'_def)
  have dm: "d_data d' = m" by (simp add: d'_def)
  have "\<not> int (length h) + 4 < 10" using ct by simp
  then have hdr: "decode_header d (length h) hs s = decode_uri d' ?mp (count_method mt hs)
      (s\<lparr>s_r_buffer := Some d', s_header_length := int (length h) + 4, s_error_response := 0,
         s_http_method := mt\<rparr>)"
    unfolding decode_header_def cut d'_def [symmetric] Let_def using meth by (simp add: dm)
  show ?thesis
    unfolding start hdr decode_uri_def dm ver dec
    using tail r uri by (auto simp: Let_def has_body_def simp del: str_Cons)
qed

lemma upd_sess_same [simp]: "upd_sess i (h_session hs i) hs = hs"
  by (simp add: upd_sess_def)

lemma count_method_session [simp]: "h_session (count_method mt hs) = h_session hs"
  by (cases mt) (simp_all add: count_method_def)

lemma decoded_simps [simp]:
  "s_header_length (decoded mt uri rest body s) = int (length (head_of mt uri rest)) + 4"
  "s_http_method (decoded mt uri rest body s) = mt"
  "s_request_uri (decoded mt uri rest body s) = Some (cstr (url_decode_init uri))"
  "s_error_response (decoded mt uri rest body s) = 0"
  by (simp_all add: decoded_def Let_def)

lemma decoded_buffer:
  "s_r_buffer s = Some d \<Longrightarrow> s_r_buffer (decoded mt uri rest body s) =
     Some (d\<lparr>d_data := head_of mt uri rest @ CRLF @ [0, 10] @ body\<rparr>)"
  by (simp add: decoded_def Let_def)

lemma decode_request_aux:
  assumes req: "request_ok mt uri rest"
    and d: "s_r_buffer (h_session hs i) = Some d" "d_data d = head_of mt uri rest @ CRLF @ CRLF @ body"
      "d_len d = int (length (d_data d))"
    and s: "s_header_length (h_session hs i) < 0" "s_request_uri (h_session hs i) \<noteq> None"
  defines "s' \<equiv> decoded mt uri rest body (h_session hs i)"
  shows "\<not> has_body mt \<Longrightarrow> \<exists>hs'. HTTP_sess_decode i hs = Some (HTTP_RET_DATA_AVAILABLE, hs') \<and>
      h_session hs' = (h_session hs)(i := s'\<lparr>s_body_length := 0\<rparr>)"
    and "has_body mt \<Longrightarrow> content_length (head_of mt uri rest @ CRLF) \<in> {None, Some None} \<Longrightarrow>
      \<exists>hs'. HTTP_sess_decode i hs = Some (HTTP_RET_ERR_DECODE, hs')"
    and "has_body mt \<Longrightarrow> content_length (head_of mt uri rest @ CRLF) = Some (Some n) \<Longrightarrow>
      int (length (head_of mt uri rest)) + 4 + n < 2 ^ 31 \<Longrightarrow>
      \<exists>hs'. HTTP_sess_decode i hs = Some (if int (length body) < n then HTTP_RET_WAIT_MORE_DATA
          else HTTP_RET_DATA_AVAILABLE, hs') \<and>
        h_session hs' = (h_session hs)(i := s'\<lparr>s_body_length := n\<rparr>)"
proof -
  define h where "h = head_of mt uri rest"
  have len: "0 < d_len d" using d(2,3) by (simp add: CRLF_def)
  note start = decode_start_request [OF req d s(2), of hs, folded s'_def]
  have buf: "s_r_buffer s' = Some (d\<lparr>d_data := h @ CRLF @ [0, 10] @ body\<rparr>)"
    using decoded_buffer [OF d(1)] by (simp add: s'_def h_def)
  have "0 \<notin> set (h @ CRLF)" using req by (simp add: request_ok_def h_def CRLF_def)
  then have cs: "cstr (d_data (the (s_r_buffer s'))) = h @ CRLF"
    using cstr_append_zero [of "h @ CRLF" "10 # body"] buf by simp
  show "\<exists>hs'. HTTP_sess_decode i hs = Some (HTTP_RET_DATA_AVAILABLE, hs') \<and>
      h_session hs' = (h_session hs)(i := s'\<lparr>s_body_length := 0\<rparr>)" if "\<not> has_body mt"
    using that start d(1) len s(1) by (simp add: HTTP_sess_decode_def)
  show "\<exists>hs'. HTTP_sess_decode i hs = Some (HTTP_RET_ERR_DECODE, hs')"
    if "has_body mt" "content_length (head_of mt uri rest @ CRLF) \<in> {None, Some None}"
    using that start d(1) len s(1) cs
    by (auto simp: HTTP_sess_decode_def decode_length_def h_def)
  show "\<exists>hs'. HTTP_sess_decode i hs = Some (if int (length body) < n then HTTP_RET_WAIT_MORE_DATA
          else HTTP_RET_DATA_AVAILABLE, hs') \<and>
        h_session hs' = (h_session hs)(i := s'\<lparr>s_body_length := n\<rparr>)"
    if b: "has_body mt" "content_length (head_of mt uri rest @ CRLF) = Some (Some n)"
      "int (length (head_of mt uri rest)) + 4 + n < 2 ^ 31"
  proof -
    have n: "- (2 ^ 31) \<le> n"
      using b(2) to_int32_range
      by (auto simp: content_length_def Let_def split: option.splits if_splits prod.splits)
    have hl: "s_header_length s' = int (length h) + 4" by (simp add: s'_def h_def)
    have add: "int_add (s_header_length s') n = Some (int (length h) + 4 + n)"
      using b(3) n hl by (simp add: int_add_def h_def)
    have "(d_len d < int (length h) + 4 + n) = (int (length body) < n)"
      using d(2,3) by (simp add: h_def CRLF_def)
    then show ?thesis
      using b start d(1) len s(1) cs buf add
      by (simp add: HTTP_sess_decode_def decode_length_def h_def [symmetric] Let_def)
  qed
qed

section \<open>Properties\<close>

text \<open>
  C7. A complete request is decoded to its parts: the method, the URI with its escapes
  decoded, the offset of the body and, for PUT and POST, the announced length; the bytes of the
  body stay in place behind the header. A request without a body is available at once, one with
  a body as soon as the announced number of bytes is there; a missing or malformed
  \<open>Content-Length\<close> of a PUT or POST is an error.
\<close>

theorem http_decode_request:
  assumes "request_ok mt uri rest"
    and "s_r_buffer (h_session hs i) = Some d"
    and "d_data d = head_of mt uri rest @ CRLF @ CRLF @ body" "d_len d = int (length (d_data d))"
    and "s_header_length (h_session hs i) < 0" "s_request_uri (h_session hs i) \<noteq> None"
    and "cl = content_length (head_of mt uri rest @ CRLF)"
    and "\<And>n. cl = Some (Some n) \<Longrightarrow> int (length (head_of mt uri rest)) + 4 + n < 2 ^ 31"
  shows "\<exists>r hs'. HTTP_sess_decode i hs = Some (r, hs') \<and>
    (if has_body mt then
       (case cl of Some (Some n) \<Rightarrow>
          r = (if int (length body) < n then HTTP_RET_WAIT_MORE_DATA else HTTP_RET_DATA_AVAILABLE) \<and>
          s_body_length (h_session hs' i) = n
        | _ \<Rightarrow> r = HTTP_RET_ERR_DECODE)
     else r = HTTP_RET_DATA_AVAILABLE \<and> s_body_length (h_session hs' i) = 0) \<and>
    (r \<noteq> HTTP_RET_ERR_DECODE \<longrightarrow>
       s_http_method (h_session hs' i) = mt \<and>
       s_request_uri (h_session hs' i) = Some (cstr (url_decode_init uri)) \<and>
       s_header_length (h_session hs' i) = int (length (head_of mt uri rest)) + 4 \<and>
       s_error_response (h_session hs' i) = 0 \<and>
       (\<exists>d'. s_r_buffer (h_session hs' i) = Some d' \<and> d_len d' = d_len d \<and>
          drop (nat (s_header_length (h_session hs' i))) (d_data d') = body) \<and>
       (\<forall>j. j \<noteq> i \<longrightarrow> h_session hs' j = h_session hs j))"
proof -
  note aux = decode_request_aux [OF assms(1-6)]
  note buf = decoded_buffer [OF assms(2), of mt uri rest body]
  have len: "nat (int (length (head_of mt uri rest)) + 4) = length (head_of mt uri rest) + 4" by simp
  show ?thesis
  proof (cases "has_body mt")
    case False
    from aux(1) [OF False] show ?thesis using False buf len by (auto simp: CRLF_def)
  next
    case True
    show ?thesis
    proof (cases "\<exists>n. cl = Some (Some n)")
      case sm: True
      then obtain n where n: "cl = Some (Some n)" by blast
      from aux(3) [OF True n [unfolded assms(7)] assms(8) [OF n]]
      show ?thesis using True n buf len by (auto simp: CRLF_def)
    next
      case False
      then have "cl \<in> {None, Some None}" by (cases cl) (auto simp: not_None_eq)
      with aux(2) [OF True] assms(7) show ?thesis using True by (auto split: option.splits)
    qed
  qed
qed

definition demo_sess :: "bytes \<Rightarrow> HTTP_t" where
  "demo_sess m = upd_sess 0 ((slot_init 0 session_zero)\<lparr>s_sock := 4, s_header_length := -1,
     s_body_length := -1, s_r_buffer := Some \<lparr>d_size = 65536, d_len = int (length m), d_data = m\<rparr>\<rparr>)
     (demo_server 3)"

lemma demo_post_ok: "request_ok HTTP_METHOD_POST (str ''/a%20b'') (str ''1'' @ CRLF @ str ''Content-Length: 3'')"
  by code_simp

lemma demo_post_length: "content_length (head_of HTTP_METHOD_POST (str ''/a%20b'')
    (str ''1'' @ CRLF @ str ''Content-Length: 3'') @ CRLF) = Some (Some 3)"
  by code_simp

theorem http_decode_request_witness:
  "\<exists>hs'. HTTP_sess_decode 0 (demo_sess (head_of HTTP_METHOD_POST (str ''/a%20b'')
      (str ''1'' @ CRLF @ str ''Content-Length: 3'') @ CRLF @ CRLF @ str ''xyz'')) =
      Some (HTTP_RET_DATA_AVAILABLE, hs') \<and> s_body_length (h_session hs' 0) = 3 \<and>
    s_http_method (h_session hs' 0) = HTTP_METHOD_POST"
proof -
  let ?m = "head_of HTTP_METHOD_POST (str ''/a%20b'') (str ''1'' @ CRLF @ str ''Content-Length: 3'') @
    CRLF @ CRLF @ str ''xyz''"
  have s: "s_r_buffer (h_session (demo_sess ?m) 0) = Some \<lparr>d_size = 65536, d_len = int (length ?m), d_data = ?m\<rparr>"
    "s_header_length (h_session (demo_sess ?m) 0) < 0" "s_request_uri (h_session (demo_sess ?m) 0) \<noteq> None"
    by (simp_all add: demo_sess_def slot_init_def)
  from http_decode_request [OF demo_post_ok s(1) _ _ s(2,3) demo_post_length [symmetric]]
  show ?thesis by (auto simp: has_body_def head_of_def CRLF_def)
qed

text \<open>Bytes that arrive on the socket, as a successful \<open>HTTP_sess_read\<close> stores them.\<close>

definition feed :: "nat \<Rightarrow> bytes \<Rightarrow> HTTP_t \<Rightarrow> HTTP_t" where
  "feed i c hs = upd_sess i ((h_session hs i)\<lparr>s_r_buffer := map_option (\<lambda>d.
     d\<lparr>d_data := mem_write (nat (d_len d)) c (d_data d), d_len := d_len d + int (length c)\<rparr>)
     (s_r_buffer (h_session hs i))\<rparr>) hs"

text \<open>The chunks are read one by one and each is followed by a try to decode.\<close>

fun feed_run :: "nat \<Rightarrow> bytes list \<Rightarrow> HTTP_t \<Rightarrow> (int \<times> HTTP_t \<times> bytes list) option" where
  "feed_run i [] hs = Some (HTTP_RET_WAIT_MORE_DATA, hs, [])"
| "feed_run i (c # cs) hs = do {
     (r, hs) \<leftarrow> HTTP_sess_decode i (feed i c hs);
     if r = HTTP_RET_WAIT_MORE_DATA then feed_run i cs hs else Some (r, hs, cs)
   }"

lemma mem_write_end: "mem_write (length m) c m = m @ c"
  by (simp add: mem_write_def)

lemma feed_session:
  assumes "s_r_buffer (h_session hs i) = Some d" "d_len d = int (length (d_data d))"
  shows "h_session (feed i c hs) i = (h_session hs i)\<lparr>s_r_buffer :=
      Some (d\<lparr>d_data := d_data d @ c, d_len := int (length (d_data d @ c))\<rparr>)\<rparr>"
  using assms by (simp add: feed_def mem_write_end)

lemma decode_body:
  assumes "0 \<le> s_header_length (h_session hs i)" "s_r_buffer (h_session hs i) = Some d" "0 < d_len d"
    "int_add (s_header_length (h_session hs i)) (s_body_length (h_session hs i)) = Some hb"
  shows "\<exists>hs'. HTTP_sess_decode i hs = Some (if d_len d < hb then HTTP_RET_WAIT_MORE_DATA
      else HTTP_RET_DATA_AVAILABLE, hs') \<and> h_session hs' = h_session hs"
  using assms by (auto simp: HTTP_sess_decode_def Let_def)

lemma feed_run_body:
  assumes "0 \<le> s_header_length (h_session hs i)" "s_r_buffer (h_session hs i) = Some d"
    "d_len d = int (length (d_data d))"
    "int_add (s_header_length (h_session hs i)) (s_body_length (h_session hs i)) = Some hb"
    "d_len d < hb" "d_len d + int (length (concat cs)) = hb" "[] \<notin> set cs"
  shows "\<exists>hs'. feed_run i cs hs = Some (HTTP_RET_DATA_AVAILABLE, hs', []) \<and>
    h_session hs' i = (h_session hs i)\<lparr>s_r_buffer := Some (d\<lparr>d_data := d_data d @ concat cs, d_len := hb\<rparr>)\<rparr>"
  using assms
proof (induction cs arbitrary: hs d)
  case (Cons c cs)
  let ?d = "d\<lparr>d_data := d_data d @ c, d_len := int (length (d_data d @ c))\<rparr>"
  let ?hs = "feed i c hs"
  note fs = feed_session [OF Cons.prems(2,3), of c]
  have c: "c \<noteq> []" using Cons.prems(7) by auto
  have b: "s_r_buffer (h_session ?hs i) = Some ?d" by (simp add: fs)
  have pos: "0 < d_len ?d" using c by (cases c) auto
  obtain hs1 where d1: "HTTP_sess_decode i ?hs = Some (if d_len ?d < hb then HTTP_RET_WAIT_MORE_DATA
      else HTTP_RET_DATA_AVAILABLE, hs1)" "h_session hs1 = h_session ?hs"
    using decode_body [OF _ b pos, of hb] Cons.prems(1,4) fs by auto
  show ?case
  proof (cases "d_len ?d < hb")
    case True
    have "\<exists>hs'. feed_run i cs hs1 = Some (HTTP_RET_DATA_AVAILABLE, hs', []) \<and>
      h_session hs' i = (h_session hs1 i)\<lparr>s_r_buffer := Some (?d\<lparr>d_data := d_data ?d @ concat cs, d_len := hb\<rparr>)\<rparr>"
      by (rule Cons.IH) (use Cons.prems True d1(2) fs in auto)
    with True d1 fs show ?thesis by auto
  next
    case False
    with Cons.prems(3,6) have "concat cs = []" "int (length (d_data d @ c)) = hb" by auto
    moreover from this have "cs = []" using Cons.prems(7) by (cases cs) auto
    ultimately show ?thesis using False d1 fs by auto
  qed
qed simp

lemma decode_prefix:
  assumes req: "request_ok mt uri rest"
    and p: "p @ q = head_of mt uri rest @ CRLF @ CRLF @ body"
      "length p < length (head_of mt uri rest) + 4"
    and d: "s_r_buffer (h_session hs i) = Some d" "d_data d = p" "d_len d = int (length p)"
    and s: "s_header_length (h_session hs i) < 0"
  shows "HTTP_sess_decode i hs = Some (HTTP_RET_WAIT_MORE_DATA, hs)"
proof (cases p)
  case Nil
  with d show ?thesis by (simp add: HTTP_sess_decode_def)
next
  case (Cons c t)
  obtain c' t' where h: "head_of mt uri rest = c' # t'" "c' \<noteq> CR" "c' \<noteq> LF"
    using head_first [of uri mt rest] req by (auto simp: request_ok_def)
  with p(1) Cons have c: "c \<noteq> CR" "c \<noteq> LF" by auto
  have skip: "skip_crlf d = (d, False)"
    using d Cons c by (intro skip_crlf_none [of d c t]) auto
  let ?h = "head_of mt uri rest"
  have ph: "p = take (length p) (?h @ CRLF @ CRLF)"
  proof -
    have "length p \<le> length (?h @ CRLF @ CRLF)" using p(2) by (simp add: CRLF_def)
    then have "take (length p) ((?h @ CRLF @ CRLF) @ body) = take (length p) (?h @ CRLF @ CRLF)"
      by (simp only: take_append) simp
    moreover have "p @ q = (?h @ CRLF @ CRLF) @ body" using p(1) by simp
    ultimately show ?thesis by (metis append_eq_conv_conj)
  qed
  have "(?h @ CRLF @ CRLF) = p @ drop (length p) (?h @ CRLF @ CRLF)"
    using ph append_take_drop_id [of "length p" "?h @ CRLF @ CRLF"] by simp
  moreover have "strstr (?h @ CRLF @ CRLF) (CRLF @ CRLF) = Some (length ?h)"
    using req by (simp add: request_ok_def)
  ultimately have none: "strstr p (CRLF @ CRLF) = None"
    using strstr_prefix_None [of p "drop (length p) (?h @ CRLF @ CRLF)" "CRLF @ CRLF" "length ?h"] p(2)
    by (simp add: CRLF_def)
  have "0 \<notin> set (?h @ CRLF @ CRLF)" using req by (simp add: request_ok_def CRLF_def)
  then have "0 \<notin> set p" using ph by (metis in_set_takeD)
  then have "cstr p = p" by (rule cstr_id)
  moreover have "upd_sess i ((h_session hs i)\<lparr>s_r_buffer := Some d\<rparr>) hs = hs"
  proof -
    have "(h_session hs i)\<lparr>s_r_buffer := Some d\<rparr> = h_session hs i"
      using d(1) by (cases "h_session hs i") simp
    then show ?thesis by simp
  qed
  moreover have "int (length p) < 16384" using p(2) req by (simp add: request_ok_def)
  ultimately show ?thesis
    using skip none d s Cons by (simp add: HTTP_sess_decode_def decode_start_def Let_def)
qed


lemma append_split:
  "xs @ ys = as @ bs \<Longrightarrow> length as \<le> length xs \<Longrightarrow>
   xs = as @ drop (length as) xs \<and> drop (length as) xs @ ys = bs"
  by (metis append_eq_append_conv_if append_eq_conv_conj append_take_drop_id drop_append drop_all
      append_Nil diff_is_0_eq drop_0)

lemma feed_run_request:
  assumes req: "request_ok mt uri rest"
    and body: "if has_body mt then content_length (head_of mt uri rest @ CRLF) = Some (Some (int (length body)))
      else body = []"
    and small: "int (length (head_of mt uri rest)) + 4 + int (length body) < 2 ^ 31"
  shows "s_r_buffer (h_session hs i) = Some d \<Longrightarrow> d_data d @ concat cs = head_of mt uri rest @ CRLF @ CRLF @ body \<Longrightarrow>
    length (d_data d) < length (head_of mt uri rest) + 4 \<Longrightarrow>
    d_len d = int (length (d_data d)) \<Longrightarrow> [] \<notin> set cs \<Longrightarrow> s_header_length (h_session hs i) < 0 \<Longrightarrow>
    s_request_uri (h_session hs i) \<noteq> None \<Longrightarrow>
    \<exists>hs' d'. feed_run i cs hs = Some (HTTP_RET_DATA_AVAILABLE, hs', []) \<and>
      s_r_buffer (h_session hs' i) = Some d' \<and>
      d_data d' = head_of mt uri rest @ CRLF @ [0, 10] @ body \<and>
      s_http_method (h_session hs' i) = mt \<and>
      s_request_uri (h_session hs' i) = Some (cstr (url_decode_init uri)) \<and>
      s_header_length (h_session hs' i) = int (length (head_of mt uri rest)) + 4 \<and>
      s_body_length (h_session hs' i) = int (length body)"
proof (induction cs arbitrary: hs d)
  case Nil
  then have "length (d_data d) = length (head_of mt uri rest) + 4 + length body" by (simp add: CRLF_def)
  with Nil show ?case by simp
next
  case (Cons c cs)
  let ?h = "head_of mt uri rest"
  let ?d = "d\<lparr>d_data := d_data d @ c, d_len := int (length (d_data d @ c))\<rparr>"
  let ?hs = "feed i c hs"
  note fs = feed_session [OF Cons.prems(1,4), of c]
  have b: "s_r_buffer (h_session ?hs i) = Some ?d" "d_len ?d = int (length (d_data d @ c))"
    and hl: "s_header_length (h_session ?hs i) < 0" "s_request_uri (h_session ?hs i) \<noteq> None"
    using Cons.prems(6,7) by (simp_all add: fs)
  show ?case
  proof (cases "length (d_data d @ c) < length ?h + 4")
    case True
    have "HTTP_sess_decode i ?hs = Some (HTTP_RET_WAIT_MORE_DATA, ?hs)"
      by (rule decode_prefix [OF req _ True b(1) _ b(2) hl(1), of "concat cs" body])
        (use Cons.prems(2) in simp_all)
    moreover have "\<exists>hs' d'. feed_run i cs ?hs = Some (HTTP_RET_DATA_AVAILABLE, hs', []) \<and>
      s_r_buffer (h_session hs' i) = Some d' \<and> d_data d' = ?h @ CRLF @ [0, 10] @ body \<and>
      s_http_method (h_session hs' i) = mt \<and>
      s_request_uri (h_session hs' i) = Some (cstr (url_decode_init uri)) \<and>
      s_header_length (h_session hs' i) = int (length ?h) + 4 \<and>
      s_body_length (h_session hs' i) = int (length body)"
      by (rule Cons.IH [OF b(1)]) (use Cons.prems(2,5) True hl in auto)
    ultimately show ?thesis by simp
  next
    case False
    define b1 where "b1 = drop (length ?h + 4) (d_data d @ c)"
    have total: "(d_data d @ c) @ concat cs = (?h @ CRLF @ CRLF) @ body" using Cons.prems(2) by simp
    have lh: "length (?h @ CRLF @ CRLF) = length ?h + 4" by (simp add: CRLF_def)
    have "length (?h @ CRLF @ CRLF) \<le> length (d_data d @ c)" using False lh by linarith
    from append_split [OF total this]
    have dc: "d_data d @ c = ?h @ CRLF @ CRLF @ b1" and bb: "b1 @ concat cs = body"
      unfolding lh b1_def [symmetric] by (simp_all only: append_assoc)
    have dd: "d_data ?d = ?h @ CRLF @ CRLF @ b1" "d_len ?d = int (length (d_data ?d))" using dc by simp_all
    note aux = decode_request_aux [OF req b(1) dd hl]
    note buf = decoded_buffer [OF b(1), of mt uri rest b1]
    show ?thesis
    proof (cases "has_body mt")
      case False
      then have "b1 = []" "cs = []" "body = []" using body bb Cons.prems(5) by (cases cs; auto)+
      with aux(1) [OF False] buf show ?thesis by auto
    next
      case True
      with body have cl: "content_length (?h @ CRLF) = Some (Some (int (length body)))" by simp
      obtain hs1 where d1: "HTTP_sess_decode i ?hs = Some (if int (length b1) < int (length body)
          then HTTP_RET_WAIT_MORE_DATA else HTTP_RET_DATA_AVAILABLE, hs1)"
        "h_session hs1 = (h_session ?hs)(i := (decoded mt uri rest b1 (h_session ?hs i))\<lparr>s_body_length := int (length body)\<rparr>)"
        using aux(3) [OF True cl small] by blast
      let ?d1 = "?d\<lparr>d_data := ?h @ CRLF @ [0, 10] @ b1\<rparr>"
      have buf1: "s_r_buffer (h_session hs1 i) = Some ?d1" using d1(2) buf by simp
      show ?thesis
      proof (cases "length b1 < length body")
        case True
        have add: "int_add (s_header_length (h_session hs1 i)) (s_body_length (h_session hs1 i)) =
            Some (int (length ?h) + 4 + int (length body))"
          using small d1(2) by (simp add: int_add_def)
        have hl1: "0 \<le> s_header_length (h_session hs1 i)" using d1(2) by simp
        have len1: "d_len ?d1 = int (length (d_data ?d1))" using dc by (simp add: CRLF_def)
        have lt: "d_len ?d1 < int (length ?h) + 4 + int (length body)"
          using True unfolding len1 by (simp add: CRLF_def)
        have eq: "d_len ?d1 + int (length (concat cs)) = int (length ?h) + 4 + int (length body)"
          unfolding len1 bb [symmetric] by (simp add: CRLF_def)
        have ne: "[] \<notin> set cs" using Cons.prems(5) by simp
        from feed_run_body [OF hl1 buf1 len1 add lt eq ne] d1 True bb
        show ?thesis by auto
      next
        case False
        then have "length b1 = length body" using bb by auto
        then have "concat cs = []" "b1 = body" using bb by auto
        then have "cs = []" using Cons.prems(5) by (cases cs) auto
        then show ?thesis using d1 buf1 False \<open>b1 = body\<close> by auto
      qed
    qed
  qed
qed

text \<open>
  C8. The result does not depend on how the network cuts a request into pieces: whatever
  non-empty chunks the bytes of a request arrive in, decoding after each chunk waits until the
  last one and then yields the same method, URI, lengths and body.
\<close>

theorem http_decode_fragmentation:
  assumes "request_ok mt uri rest"
    and "if has_body mt then content_length (head_of mt uri rest @ CRLF) = Some (Some (int (length body)))
      else body = []"
    and "int (length (head_of mt uri rest)) + 4 + int (length body) < 2 ^ 31"
    and "concat chunks = head_of mt uri rest @ CRLF @ CRLF @ body" "[] \<notin> set chunks"
    and "s_r_buffer (h_session hs i) = Some \<lparr>d_size = sz, d_len = 0, d_data = []\<rparr>"
    and "s_header_length (h_session hs i) < 0" "s_request_uri (h_session hs i) \<noteq> None"
  shows "\<exists>hs' d'. feed_run i chunks hs = Some (HTTP_RET_DATA_AVAILABLE, hs', []) \<and>
      s_r_buffer (h_session hs' i) = Some d' \<and>
      drop (nat (s_header_length (h_session hs' i))) (d_data d') = body \<and>
      s_http_method (h_session hs' i) = mt \<and>
      s_request_uri (h_session hs' i) = Some (cstr (url_decode_init uri)) \<and>
      s_header_length (h_session hs' i) = int (length (head_of mt uri rest)) + 4 \<and>
      s_body_length (h_session hs' i) = int (length body)"
proof -
  have "nat (int (length (head_of mt uri rest)) + 4) = length (head_of mt uri rest) + 4" by simp
  then show ?thesis
    using feed_run_request [OF assms(1-3,6), of chunks] assms(4,5,7,8) by (auto simp: CRLF_def)
qed

theorem http_decode_fragmentation_witness:
  "\<exists>hs'. feed_run 0 [str ''POST /a%2'', str ''0b HTTP/1.1'' @ CRLF @ str ''Content-Length: 3'' @ CRLF,
      CRLF @ str ''x'', str ''yz''] (demo_sess []) = Some (HTTP_RET_DATA_AVAILABLE, hs', []) \<and>
    s_request_uri (h_session hs' 0) = Some (str ''/a b'')"
proof -
  have c: "concat [str ''POST /a%2'', str ''0b HTTP/1.1'' @ CRLF @ str ''Content-Length: 3'' @ CRLF,
      CRLF @ str ''x'', str ''yz''] = head_of HTTP_METHOD_POST (str ''/a%20b'')
      (str ''1'' @ CRLF @ str ''Content-Length: 3'') @ CRLF @ CRLF @ str ''xyz''"
    by (simp add: head_of_def CRLF_def)
  have b: "if has_body HTTP_METHOD_POST then content_length (head_of HTTP_METHOD_POST (str ''/a%20b'')
      (str ''1'' @ CRLF @ str ''Content-Length: 3'') @ CRLF) = Some (Some (int (length (str ''xyz''))))
      else str ''xyz'' = []"
    using demo_post_length by (simp add: has_body_def)
  have u: "cstr (url_decode_init (str ''/a%20b'')) = str ''/a b''" by code_simp
  have len: "int (length (head_of HTTP_METHOD_POST (str ''/a%20b'')
      (str ''1'' @ CRLF @ str ''Content-Length: 3''))) + 4 + int (length (str ''xyz'')) < 2 ^ 31"
    by (simp add: head_of_def CRLF_def)
  have ne: "[] \<notin> set [str ''POST /a%2'', str ''0b HTTP/1.1'' @ CRLF @ str ''Content-Length: 3'' @ CRLF,
      CRLF @ str ''x'', str ''yz'']"
    by (simp add: CRLF_def)
  have s: "s_r_buffer (h_session (demo_sess []) 0) = Some \<lparr>d_size = 65536, d_len = 0, d_data = []\<rparr>"
    "s_header_length (h_session (demo_sess []) 0) < 0" "s_request_uri (h_session (demo_sess []) 0) \<noteq> None"
    by (simp_all add: demo_sess_def slot_init_def)
  from http_decode_fragmentation [OF demo_post_ok b len c ne s] show ?thesis
    unfolding u by blast
qed

text \<open>
  Two defects of the length: a negative \<open>Content-Length\<close> is accepted, and the request passes for
  complete although its header alone is longer; a length near the largest \<open>int\<close> overflows the sum
  with the length of the header.
\<close>

lemma content_length_negative: "content_length (str ''Content-Length: -5'' @ CRLF) = Some (Some (-5))"
  by code_simp

lemma decode_length_overflow:
  "s_header_length (h_session hs i) = 100 \<Longrightarrow> s_body_length (h_session hs i) = 2147483600 \<Longrightarrow>
   s_r_buffer (h_session hs i) = Some d \<Longrightarrow> 0 < d_len d \<Longrightarrow> HTTP_sess_decode i hs = None"
  by (simp add: HTTP_sess_decode_def int_add_def Let_def)

end
