(* ===== verification/HttpPage.thy ===== *)
theory HttpPage
  imports HttpDecode
begin

text \<open>
  The pages and headers that the HTTP server generates (libs/stacks/http/http.c): strings
  stored one after the other behind the contents of a buffer that grows as needed.
\<close>

section \<open>Storing strings\<close>

text \<open>
  The macros \<open>_HGH_STORE_STRING\<close> and \<open>_HGH_STORE_STRING_CONST\<close>. Every use makes room and may
  fail: \<open>mem_ok k\<close> tells whether the \<open>k\<close>-th allocation of the page succeeds.
\<close>

fun store_all :: "(nat \<Rightarrow> bool) \<Rightarrow> nat \<Rightarrow> bytes list \<Rightarrow> HSDATA option \<Rightarrow> (int \<times> HSDATA option) option" where
  "store_all mem_ok k [] buf = Some (0, buf)"
| "store_all mem_ok k (t # ts) buf = do {
     (r, buf) \<leftarrow> http_alloc_buffer (mem_ok k) buf (int (length t));
     if r \<noteq> 0 then Some (-1, buf)
     else do {
       d \<leftarrow> buf;
       store_all mem_ok (Suc k) ts
         (Some (d\<lparr>d_data := mem_write (nat (d_len d)) t (d_data d), d_len := d_len d + int (length t)\<rparr>))
     }
   }"

text \<open>\<open>SDF_VERSION\<close> comes from the build and is a parameter.\<close>

definition server_version :: "bytes \<Rightarrow> bytes" where
  "server_version sdf_version = str ''Server: Damocles/'' @ sdf_version"

definition http_gen_success_header ::
    "(nat \<Rightarrow> bool) \<Rightarrow> bytes \<Rightarrow> HSSESSION \<Rightarrow> HSDATA option \<Rightarrow> (int \<times> HSDATA option) option" where
  "http_gen_success_header mem_ok sdf_version sess = store_all mem_ok 0
     [cstr (s_header_version sess), str '' 200 OK'' @ CRLF, server_version sdf_version, CRLF,
      str ''Content-Type: application/json'' @ CRLF, str ''Connection: close'' @ CRLF]"

definition http_gen_created_header ::
    "(nat \<Rightarrow> bool) \<Rightarrow> bytes \<Rightarrow> HSSESSION \<Rightarrow> HSDATA option \<Rightarrow> (int \<times> HSDATA option) option" where
  "http_gen_created_header mem_ok sdf_version sess = store_all mem_ok 0
     [cstr (s_header_version sess), str '' 201 Created'' @ CRLF, server_version sdf_version, CRLF,
      str ''Content-Type: application/json'' @ CRLF, str ''Connection: close'' @ CRLF]"

definition http_gen_forbidden_page ::
    "(nat \<Rightarrow> bool) \<Rightarrow> HSSESSION \<Rightarrow> HSDATA option \<Rightarrow> (int \<times> HSDATA option) option" where
  "http_gen_forbidden_page mem_ok sess = store_all mem_ok 0
     [cstr (s_header_version sess), str '' 403 Forbidden'' @ CRLF @ CRLF]"

definition http_gen_internal_error_page ::
    "(nat \<Rightarrow> bool) \<Rightarrow> HSSESSION \<Rightarrow> HSDATA option \<Rightarrow> (int \<times> HSDATA option) option" where
  "http_gen_internal_error_page mem_ok sess = store_all mem_ok 0
     [cstr (s_header_version sess), str '' 500 Internal Server Error'' @ CRLF @ CRLF]"

definition http_gen_not_implemented_page ::
    "(nat \<Rightarrow> bool) \<Rightarrow> HSSESSION \<Rightarrow> HSDATA option \<Rightarrow> (int \<times> HSDATA option) option" where
  "http_gen_not_implemented_page mem_ok sess = store_all mem_ok 0
     [cstr (s_header_version sess), str '' 501 Method Not Implemented'' @ CRLF @ CRLF]"

definition http_gen_busy_page ::
    "(nat \<Rightarrow> bool) \<Rightarrow> HSSESSION \<Rightarrow> HSDATA option \<Rightarrow> (int \<times> HSDATA option) option" where
  "http_gen_busy_page mem_ok sess = store_all mem_ok 0
     [cstr (s_header_version sess), str '' 503 Service Unavailable'' @ CRLF @ CRLF]"

definition http_gen_gateway_timeout_page ::
    "(nat \<Rightarrow> bool) \<Rightarrow> HSSESSION \<Rightarrow> HSDATA option \<Rightarrow> (int \<times> HSDATA option) option" where
  "http_gen_gateway_timeout_page mem_ok sess = store_all mem_ok 0
     [cstr (s_header_version sess), str '' 504 Gateway Timeout'' @ CRLF @ CRLF]"

section \<open>Error pages\<close>

definition status_texts :: "(int \<times> bytes) list" where
  "status_texts =
    [(100, str ''100 Continue''),
     (101, str ''101 Switching Protocols''),
     (300, str ''300 Multiple Choices''),
     (301, str ''301 Moved Permanently''),
     (302, str ''302 Found''),
     (303, str ''303 See Other''),
     (304, str ''304 Not Modified''),
     (305, str ''305 Use Proxy''),
     (306, str ''306 Unused''),
     (307, str ''307 Temporary Redirect''),
     (400, str ''400 Bad Request''),
     (401, str ''401 Unauthorized''),
     (402, str ''402 Payment Required''),
     (403, str ''403 Forbidden''),
     (404, str ''404 Not Found''),
     (405, str ''405 Method Not Allowed''),
     (406, str ''406 Not Acceptable''),
     (407, str ''407 Proxy Authentication Required''),
     (408, str ''408 Request Timeout''),
     (409, str ''409 Conflict''),
     (410, str ''410 Gone''),
     (411, str ''411 Length Required''),
     (412, str ''412 Precondition Failed''),
     (413, str ''413 Request Entity Too Large''),
     (414, str ''414 Request-url Too Long''),
     (415, str ''415 Unsupported Media Type''),
     (417, str ''417 Expectation Failed''),
     (500, str ''500 Internal Server Error''),
     (501, str ''501 Not Implemented''),
     (502, str ''502 Bad Gateway''),
     (503, str ''503 Service Unavailable''),
     (504, str ''504 Gateway Timeout''),
     (505, str ''505 HTTP Version Not Supported'')]"

definition http_status_to_string :: "int \<Rightarrow> bytes" where
  "http_status_to_string status =
     (case map_of status_texts status of Some t \<Rightarrow> t | None \<Rightarrow> dec_int status)"

text \<open>The text is built in a buffer of 1028 bytes, which a longer description overflows.\<close>

definition http_gen_error_page ::
    "(nat \<Rightarrow> bool) \<Rightarrow> bytes \<Rightarrow> HSSESSION \<Rightarrow> int \<Rightarrow> bytes option \<Rightarrow> HSDATA option \<Rightarrow> (int \<times> HSDATA option) option" where
  "http_gen_error_page mem_ok sdf_version sess status desc buf =
     (let text = (case desc of None \<Rightarrow> http_status_to_string status
                  | Some t \<Rightarrow> dec_int status @ str '' '' @ t)
      in
      if length text \<ge> 1028 then None
      else
        store_all mem_ok 0
          [cstr (s_header_version sess), str '' '', text, CRLF, server_version sdf_version, CRLF,
           str ''Content-Type: text/plain; charset=utf-8'' @ CRLF, str ''Connection: close'' @ CRLF] buf)"

definition http_method_to_string :: "HTTP_METHOD_TYPE \<Rightarrow> bytes" where
  "http_method_to_string method =
     (case method of
        HTTP_METHOD_GET \<Rightarrow> str ''GET''
      | HTTP_METHOD_POST \<Rightarrow> str ''POST''
      | HTTP_METHOD_PUT \<Rightarrow> str ''PUT''
      | HTTP_METHOD_DELETE \<Rightarrow> str ''DELETE''
      | _ \<Rightarrow> str ''UNKNOWN'')"

section \<open>Properties\<close>

lemma alloc_None:
  "0 \<le> len \<Longrightarrow> len + 65536 \<le> 2 ^ 31 \<Longrightarrow> http_alloc_buffer True None len =
     Some (0, Some \<lparr>d_size = ADJUST_SIZE len 65536, d_len = 0, d_data = []\<rparr>) \<and>
   buf_ok \<lparr>d_size = ADJUST_SIZE len 65536, d_len = 0, d_data = []\<rparr> \<and> len \<le> ADJUST_SIZE len 65536"
  using ADJUST_SIZE_ge [of len 65536] by (auto simp: http_alloc_buffer_def buf_ok_def)

lemma alloc_Some:
  assumes "buf_ok d" "0 \<le> len" "d_len d + len + 65536 \<le> 2 ^ 31"
  shows "\<exists>r d'. http_alloc_buffer ok (Some d) len = Some (r, Some d') \<and> d_len d' = d_len d \<and>
    contents d' = contents d \<and> buf_ok d' \<and> (r = 0 \<longrightarrow> d_len d + len \<le> d_size d') \<and> (r \<noteq> 0 \<longrightarrow> \<not> ok)"
proof -
  have "int_add (d_len d) len = Some (d_len d + len)"
    using assms by (auto simp: int_add_def buf_ok_def)
  moreover have "d_len d + len \<le> ADJUST_SIZE (d_len d + len) 65536"
    "ADJUST_SIZE (d_len d + len) 65536 < d_len d + len + 65536"
    using ADJUST_SIZE_ge [of "d_len d + len" 65536] assms by (auto simp: buf_ok_def)
  ultimately show ?thesis
    using assms by (auto simp: http_alloc_buffer_def contents_def mem_slice_take buf_ok_def)
qed

lemma store_all_Some:
  "buf_ok d \<Longrightarrow> d_len d + int (length (concat ts)) + 65536 \<le> 2 ^ 31 \<Longrightarrow>
   \<exists>r d' n. store_all mem_ok k ts (Some d) = Some (r, Some d') \<and> buf_ok d' \<and>
     contents d' = contents d @ concat (take n ts) \<and> r \<in> {0, -1} \<and>
     (r = 0 \<longrightarrow> n = length ts) \<and> (r \<noteq> 0 \<longrightarrow> (\<exists>j. \<not> mem_ok j))"
proof (induction ts arbitrary: k d)
  case (Cons t ts)
  obtain r1 d1 where a: "http_alloc_buffer (mem_ok k) (Some d) (int (length t)) = Some (r1, Some d1)"
    "d_len d1 = d_len d" "contents d1 = contents d" "buf_ok d1"
    "r1 = 0 \<longrightarrow> d_len d + int (length t) \<le> d_size d1" "r1 \<noteq> 0 \<longrightarrow> \<not> mem_ok k"
    using alloc_Some [of d "int (length t)" "mem_ok k"] Cons.prems by auto
  show ?case
  proof (cases "r1 = 0")
    case False
    with a(6) have "\<exists>j. \<not> mem_ok j" by blast
    with a False show ?thesis
      by (intro exI [of _ "-1"] exI [of _ d1] exI [of _ 0]) simp
  next
    case True
    let ?d = "d1\<lparr>d_data := mem_write (nat (d_len d1)) t (d_data d1), d_len := d_len d1 + int (length t)\<rparr>"
    have c: "contents ?d = contents d @ t"
      using contents_append [of d1 t] a(3,4) by (simp add: buf_ok_def)
    have "buf_ok ?d" using a True by (auto simp: buf_ok_def)
    moreover have "d_len ?d + int (length (concat ts)) + 65536 \<le> 2 ^ 31"
      using Cons.prems(2) a(2) by simp
    ultimately obtain r d' n where "store_all mem_ok (Suc k) ts (Some ?d) = Some (r, Some d')" "buf_ok d'"
      "contents d' = contents ?d @ concat (take n ts)" "r \<in> {0, -1}" "r = 0 \<longrightarrow> n = length ts"
      "r \<noteq> 0 \<longrightarrow> (\<exists>j. \<not> mem_ok j)"
      using Cons.IH [of ?d "Suc k"] by blast
    with a True c show ?thesis by (auto intro!: exI [of _ "Suc n"])
  qed
qed (auto intro!: exI [of _ "0 :: nat"])

text \<open>
  An error page is stored behind what the buffer holds: the version of the request, the
  status line, the server line and the two fields, complete when memory suffices. When an
  allocation fails the result is -1 and the buffer is still valid and holds a prefix of the
  page; the old contents are never touched.
\<close>

theorem http_error_page_contents:
  assumes "buf_ok d" "text = (case desc of None \<Rightarrow> http_status_to_string status
      | Some t \<Rightarrow> dec_int status @ str '' '' @ t)" "length text < 1028"
    and "page = [cstr (s_header_version sess), str '' '', text, CRLF, server_version ver, CRLF,
           str ''Content-Type: text/plain; charset=utf-8'' @ CRLF, str ''Connection: close'' @ CRLF]"
    and "d_len d + int (length (concat page)) + 65536 \<le> 2 ^ 31"
  shows "\<exists>r d' n. http_gen_error_page mem_ok ver sess status desc (Some d) = Some (r, Some d') \<and>
    buf_ok d' \<and> contents d' = contents d @ concat (take n page) \<and>
    (r = 0 \<longrightarrow> n = length page) \<and> (r \<noteq> 0 \<longrightarrow> r = -1 \<and> (\<exists>j. \<not> mem_ok j))"
proof -
  have "http_gen_error_page mem_ok ver sess status desc (Some d) = store_all mem_ok 0 page (Some d)"
    unfolding http_gen_error_page_def assms(2) [symmetric] Let_def assms(4) using assms(3) by simp
  with store_all_Some [OF assms(1,5), of mem_ok 0] show ?thesis by auto
qed

theorem http_error_page_contents_witness:
  "\<exists>r d'. http_gen_error_page (\<lambda>_. True) (str ''1'') (session_zero\<lparr>s_header_version := str ''HTTP/1.1''\<rparr>)
      404 None (Some \<lparr>d_size = 0, d_len = 0, d_data = []\<rparr>) = Some (r, Some d') \<and>
    take 22 (contents d') = str ''HTTP/1.1 404 Not Found''"
proof -
  let ?s = "session_zero\<lparr>s_header_version := str ''HTTP/1.1''\<rparr>"
  let ?d = "\<lparr>d_size = 0, d_len = 0, d_data = []\<rparr>"
  let ?page = "[cstr (s_header_version ?s), str '' '', str ''404 Not Found'', CRLF, server_version (str ''1''), CRLF,
    str ''Content-Type: text/plain; charset=utf-8'' @ CRLF, str ''Connection: close'' @ CRLF]"
  have d: "buf_ok ?d" by (simp add: buf_ok_def)
  have t: "str ''404 Not Found'' = (case None of None \<Rightarrow> http_status_to_string 404
      | Some t \<Rightarrow> dec_int 404 @ str '' '' @ t)"
    by (simp add: http_status_to_string_def status_texts_def)
  have len: "d_len ?d + int (length (concat ?page)) + 65536 \<le> 2 ^ 31"
    by (simp add: cstr_def server_version_def CRLF_def)
  obtain r d' n where r: "http_gen_error_page (\<lambda>_. True) (str ''1'') ?s 404 None (Some ?d) = Some (r, Some d')"
    "contents d' = contents ?d @ concat (take n ?page)" "r = 0 \<longrightarrow> n = length ?page" "r = 0"
    using http_error_page_contents [OF d t _ refl len] by fastforce
  then have "contents d' = concat ?page" by (simp add: contents_def mem_slice_def)
  then have "take 22 (contents d') = str ''HTTP/1.1 404 Not Found''"
    by (simp add: cstr_def)
  with r(1) show ?thesis by blast
qed

end
