(* ===== verification/HttpServer.thy ===== *)
theory HttpServer
  imports HttpPage
begin

text \<open>
  The HTTP server as a state machine: the operations of libs/stacks/http as steps, in any order
  and with any answers of the operating system, and the invariant of the reachable states.
\<close>

section \<open>Steps\<close>

text \<open>
  \<open>N\<close> is the number of slots that were initialised. A caller passes slots of the table, queues
  output only on an open session, with \<open>LINKEDLIST_APPEND\<close>, and does not raise the
  maximum over \<open>N\<close>.
\<close>

inductive http_step :: "nat \<Rightarrow> HTTP_t \<Rightarrow> HTTP_t \<Rightarrow> bool" for N where
  opn: "accepts_ok as \<Longrightarrow> HTTP_sess_open env authen as mem_ok now hs = Some (r, slot, hs', ev) \<Longrightarrow>
    http_step N hs hs'"
| cls: "no < int N \<Longrightarrow> HTTP_sess_close cb cr no hs = Some (r, hs', ev) \<Longrightarrow> http_step N hs hs'"
| rd: "i < N \<Longrightarrow> HTTP_sess_read mem_ok recv now i hs = Some (r, hs') \<Longrightarrow> http_step N hs hs'"
| wr: "i < N \<Longrightarrow> HTTP_sess_write send fw now i hs = Some (r, hs', bs) \<Longrightarrow> http_step N hs hs'"
| dec: "i < N \<Longrightarrow> HTTP_sess_decode i hs = Some (r, hs') \<Longrightarrow> http_step N hs hs'"
| enq: "i < N \<Longrightarrow> 0 \<le> h_sock hs i \<Longrightarrow>
    http_step N hs (upd_sess i ((h_session hs i)\<lparr>s_w_buffer := s_w_buffer (h_session hs i) @ [d]\<rparr>) hs)"
| tmo: "HTTP_verify_connection cb cr ct hs = Some (r, hs', ev) \<Longrightarrow> http_step N hs hs'"
| opt: "opt = HTTP_OPTION_MAX_SESSION \<longrightarrow> n \<le> int N \<Longrightarrow> set_option hs opt n = (r, hs') \<Longrightarrow> http_step N hs hs'"
| lst: "HTTP_svr_open sk opt_r bind_r listen_r hs = (r, hs', ev) \<Longrightarrow> http_step N hs hs'"
| down: "HTTP_svr_close cb cr hs = (r, hs', ev) \<Longrightarrow> http_step N hs hs'"

inductive http_reachable :: "nat \<Rightarrow> HTTP_t \<Rightarrow> bool" for N where
  init: "HTTP_svr_init True rnd (\<lambda>_. True) port backlog (int N) hv = Some (Some hs) \<Longrightarrow> N \<le> 4096 \<Longrightarrow>
    http_reachable N hs"
| step: "http_reachable N hs \<Longrightarrow> http_step N hs hs' \<Longrightarrow> http_reachable N hs'"

inductive_cases http_stepE: "http_step N hs hs'"

text \<open>
  The invariant: the table is consistent, every slot knows its number, and a slot that is not
  open holds no buffer.
\<close>

definition http_inv :: "nat \<Rightarrow> HTTP_t \<Rightarrow> bool" where
  "http_inv N hs \<longleftrightarrow> N \<le> 4096 \<and> h_max_session hs \<le> int N \<and>
     table_ok N (h_sock hs) (h_last_session hs) (h_session_count hs) \<and>
     (\<forall>i < N. s_no (h_session hs i) = int i \<and>
        (h_sock hs i < 0 \<longrightarrow> s_r_buffer (h_session hs i) = None \<and> s_w_buffer (h_session hs i) = []))"

text \<open>A step that changes only a slot and keeps its socket and number.\<close>

definition slot_local :: "nat \<Rightarrow> HTTP_t \<Rightarrow> HTTP_t \<Rightarrow> bool" where
  "slot_local i hs hs' \<longleftrightarrow> h_last_session hs' = h_last_session hs \<and>
     h_session_count hs' = h_session_count hs \<and> h_max_session hs' = h_max_session hs \<and>
     (\<forall>j. j \<noteq> i \<longrightarrow> h_session hs' j = h_session hs j) \<and> h_sock hs' i = h_sock hs i \<and>
     s_no (h_session hs' i) = s_no (h_session hs i) \<and>
     (s_r_buffer (h_session hs i) = None \<longrightarrow> s_r_buffer (h_session hs' i) = None) \<and>
     (s_w_buffer (h_session hs i) = [] \<and> h_sock hs i < 0 \<longrightarrow> s_w_buffer (h_session hs' i) = [])"

lemma slot_local_inv: "slot_local i hs hs' \<Longrightarrow> http_inv N hs \<Longrightarrow> http_inv N hs'"
proof -
  assume l: "slot_local i hs hs'" and v: "http_inv N hs"
  have s: "h_sock hs' j = h_sock hs j" "s_no (h_session hs' j) = s_no (h_session hs j)" for j
    using l by (cases "j = i"; simp add: slot_local_def)+
  have "h_sock hs' = h_sock hs" by (rule ext) (rule s)
  moreover have "s_r_buffer (h_session hs' j) = None \<and> s_w_buffer (h_session hs' j) = []"
    if "j < N" "h_sock hs j < 0" for j
    using l v that unfolding slot_local_def http_inv_def by (cases "j = i") auto
  ultimately show ?thesis using l v s unfolding http_inv_def slot_local_def by auto
qed

lemma read_local: "HTTP_sess_read mem_ok recv now i hs = Some (r, hs') \<Longrightarrow> slot_local i hs hs'"
  by (auto simp: HTTP_sess_read_def slot_local_def Let_def split: Option.bind_splits prod.splits if_splits)

lemma write_local: "HTTP_sess_write send fw now i hs = Some (r, hs', bs) \<Longrightarrow> slot_local i hs hs'"
  by (auto simp: HTTP_sess_write_def slot_local_def Let_def split: list.splits option.splits if_splits)

text \<open>What the steps of the decoder keep.\<close>

definition keeps :: "HTTP_t \<Rightarrow> HSSESSION \<Rightarrow> step \<Rightarrow> bool" where
  "keeps hs s st \<longleftrightarrow> (case st of (r, hs', s') \<Rightarrow>
     h_session hs' = h_session hs \<and> h_last_session hs' = h_last_session hs \<and>
     h_session_count hs' = h_session_count hs \<and> h_max_session hs' = h_max_session hs \<and>
     s_sock s' = s_sock s \<and> s_no s' = s_no s \<and> s_w_buffer s' = s_w_buffer s)"

lemma keeps_trans:
  "keeps hs1 s1 st \<Longrightarrow> h_session hs1 = h_session hs \<Longrightarrow> h_last_session hs1 = h_last_session hs \<Longrightarrow>
   h_session_count hs1 = h_session_count hs \<Longrightarrow> h_max_session hs1 = h_max_session hs \<Longrightarrow>
   s_sock s1 = s_sock s \<Longrightarrow> s_no s1 = s_no s \<Longrightarrow> s_w_buffer s1 = s_w_buffer s \<Longrightarrow> keeps hs s st"
  by (simp add: keeps_def split: prod.splits)

lemma keeps_tuple:
  "h_session hs' = h_session hs \<Longrightarrow> h_last_session hs' = h_last_session hs \<Longrightarrow>
   h_session_count hs' = h_session_count hs \<Longrightarrow> h_max_session hs' = h_max_session hs \<Longrightarrow>
   s_sock s' = s_sock s \<Longrightarrow> s_no s' = s_no s \<Longrightarrow> s_w_buffer s' = s_w_buffer s \<Longrightarrow> keeps hs s (r, hs', s')"
  by (simp add: keeps_def)

lemma count_method_keeps:
  "h_last_session (count_method mt hs) = h_last_session hs"
  "h_session_count (count_method mt hs) = h_session_count hs"
  "h_max_session (count_method mt hs) = h_max_session hs"
  by (cases mt; simp add: count_method_def)+

lemma decode_length_keeps: "keeps hs s (decode_length d hs s)"
  by (simp add: decode_length_def keeps_def split: option.splits)

lemma bad_request_keeps: "keeps hs s (bad_request hs s)"
  by (simp add: bad_request_def keeps_def)

lemma decode_uri_keeps: "keeps hs s (decode_uri d mp hs s)"
proof (cases "strstr (cstr (drop mp (d_data d))) (str '' HTTP/1.'')")
  case None
  then show ?thesis
    unfolding decode_uri_def Let_def by (auto intro: keeps_trans [OF bad_request_keeps])
next
  case (Some k)
  then show ?thesis
    unfolding decode_uri_def Let_def
    by (auto intro!: keeps_trans [OF bad_request_keeps] keeps_trans [OF decode_length_keeps] keeps_tuple)
qed

lemma decode_header_keeps: "keeps hs s (decode_header d e hs s)"
  unfolding decode_header_def Let_def
  by (auto intro!: keeps_trans [OF decode_uri_keeps] keeps_tuple simp: count_method_keeps split: option.splits)

lemma decode_start_keeps: "keeps hs s (decode_start d hs s)"
  unfolding decode_start_def Let_def
  by (auto intro!: keeps_trans [OF decode_header_keeps] keeps_tuple split: option.splits prod.splits)

lemma decode_local: "HTTP_sess_decode i hs = Some (r, hs') \<Longrightarrow> slot_local i hs hs'"
proof -
  assume d: "HTTP_sess_decode i hs = Some (r, hs')"
  obtain q where q: "s_r_buffer (h_session hs i) = Some q"
    using d by (auto simp: HTTP_sess_decode_def Let_def split: Option.bind_splits)
  obtain r1 hs1 s1 where 1: "(if s_header_length (h_session hs i) < 0 then decode_start q hs (h_session hs i)
      else (None, hs, h_session hs i)) = (r1, hs1, s1)"
    by (metis prod_cases3)
  have "keeps hs (h_session hs i) (r1, hs1, s1)"
    using 1 decode_start_keeps [of hs "h_session hs i" q] by (auto simp: keeps_def split: if_splits)
  then have k: "h_session hs1 = h_session hs" "h_last_session hs1 = h_last_session hs"
    "h_session_count hs1 = h_session_count hs" "h_max_session hs1 = h_max_session hs"
    "s_sock s1 = h_sock hs i" "s_no s1 = s_no (h_session hs i)" "s_w_buffer s1 = s_w_buffer (h_session hs i)"
    by (simp_all add: keeps_def)
  then have l: "slot_local i hs (upd_sess i s1 hs1)"
    using q by (simp add: slot_local_def)
  show ?thesis
  proof (cases "d_len q \<le> 0")
    case True
    then show ?thesis using d q by (simp add: HTTP_sess_decode_def slot_local_def)
  next
    case False
    show ?thesis
    proof (cases r1)
      case (Some r2)
      then have "hs' = upd_sess i s1 hs1" using d q 1 False by (simp add: HTTP_sess_decode_def Let_def)
      with l show ?thesis by simp
    next
      case None
      then have "hs' = upd_sess i s1 hs1 \<or>
          hs' = (upd_sess i s1 hs1)\<lparr>h_recv_msg_count := h_recv_msg_count (upd_sess i s1 hs1) + 1\<rparr>"
        using d q 1 False by (auto simp: HTTP_sess_decode_def Let_def split: Option.bind_splits if_splits)
      with l show ?thesis by (auto simp: slot_local_def)
    qed
  qed
qed

lemma close_inv:
  assumes "http_inv N hs" "no < int N" "HTTP_sess_close cb cr no hs = Some (r, hs', ev)"
  shows "http_inv N hs'"
  using assms(3)
proof (cases rule: sess_close_cases)
  case unused
  have "h_last_session hs \<noteq> no" using assms(1) unused unfolding http_inv_def table_ok_def by auto
  with unused assms(1) show ?thesis unfolding http_inv_def by simp
next
  case (closed s)
  have "http_closes hs (nat no) hs'"
    unfolding http_closes_def using assms(3) closed(1,3) by auto
  from hst.closes_ok [OF this] have "table_ok N (h_sock hs') (h_last_session hs') (h_session_count hs')"
    using assms(1,2) closed(1) by (auto simp: http_inv_def)
  then show ?thesis using assms(1) closed unfolding http_inv_def by auto
qed

lemma verify_loop_inv:
  assumes "http_inv N hs" "set is \<subseteq> {..<N}" "verify_loop cb cr ct is hs = Some (r, hs', ev)"
  shows "http_inv N hs'"
  using assms(2,3)
proof (induction "is")
  case (Cons i "is")
  show ?case
  proof (cases "0 \<le> h_sock hs i \<and> timed_out hs ct (h_session hs i)")
    case True
    then obtain r' where "HTTP_sess_close cb cr (s_no (h_session hs i)) hs = Some (r', hs', ev)"
      using Cons.prems by (auto split: Option.bind_splits)
    moreover have "s_no (h_session hs i) < int N" using Cons.prems assms(1) by (auto simp: http_inv_def)
    ultimately show ?thesis using close_inv [OF assms(1)] by blast
  qed (use Cons in auto)
qed (use assms(1) in simp)

lemma open_inv:
  assumes "http_inv N hs" "accepts_ok as" "HTTP_sess_open env authen as mem_ok now hs = Some (r, slot, hs', ev)"
  shows "http_inv N hs'"
  using assms(3)
proof (cases rule: sess_open_cases)
  case (opened i sk p buf s)
  have o: "http_opens hs i hs'"
    unfolding http_opens_def using assms(2,3) opened(1) by blast
  have "nat (h_max_session hs) \<le> N" using assms(1) by (auto simp: http_inv_def)
  from hst.opens_ok [OF o _ this] have "table_ok N (h_sock hs') (h_last_session hs') (h_session_count hs')"
    using assms(1) by (simp add: http_inv_def)
  moreover have "0 \<le> sk" using accept_again_ok [OF assms(2) opened(4)] .
  ultimately show ?thesis using assms(1) opened unfolding http_inv_def by auto
qed (use assms(1) in simp_all)

lemma svr_close_inv:
  assumes "http_inv N hs" "HTTP_svr_close cb cr hs = (r, hs', ev)"
  shows "http_inv N hs'"
proof -
  define m where "m = nat (h_last_session hs + 1)"
  have neg: "h_sock hs i < 0" if "i < N" "m \<le> i" for i
    using assms(1) that unfolding http_inv_def table_ok_def m_def by (auto simp: not_le [symmetric])
  from assms(2) have eq: "h_session hs' = (\<lambda>i. if i < m then (h_session hs i)\<lparr>s_r_buffer := None, s_w_buffer := [],
        s_sock := if 0 \<le> h_sock hs i then -1 else h_sock hs i\<rparr> else h_session hs i)"
    "h_last_session hs' = -1" "h_session_count hs' = 0" "h_max_session hs' = h_max_session hs"
    by (auto simp: HTTP_svr_close_def svr_close_loop Let_def m_def [symmetric]
        HTTP_svr_close_listener_def split: if_splits)
  have "h_sock hs' i < 0" if "i < N" for i
    using neg [OF that] by (auto simp: eq(1))
  from table_ok_empty [of N "h_sock hs'", OF this] show ?thesis
    using assms(1) neg eq unfolding http_inv_def by auto
qed

lemma step_inv: "http_step N hs hs' \<Longrightarrow> http_inv N hs \<Longrightarrow> http_inv N hs'"
proof (induction rule: http_step.induct)
  case (enq i hs d)
  then have "slot_local i hs (upd_sess i ((h_session hs i)\<lparr>s_w_buffer := s_w_buffer (h_session hs i) @ [d]\<rparr>) hs)"
    by (simp add: slot_local_def)
  then show ?case using enq(3) by (rule slot_local_inv)
next
  case (tmo cb cr ct hs r hs' ev)
  have "set [0..<nat (h_last_session hs + 1)] \<subseteq> {..<N}"
    using tmo(2) by (auto simp: http_inv_def table_ok_def)
  moreover have "verify_loop cb cr ct [0..<nat (h_last_session hs + 1)] hs = Some (r, hs', ev)"
    using tmo(1) by (auto simp: HTTP_verify_connection_def split: if_splits)
  ultimately show ?case by (rule verify_loop_inv [OF tmo(2)])
next
  case (opt opt n hs r hs')
  then show ?case by (cases opt) (auto simp: set_option_def http_inv_def split: if_splits)
next
  case (lst sk opt_r bind_r listen_r hs r hs' ev)
  then show ?case by (auto simp: HTTP_svr_open_def http_inv_def split: if_splits)
qed (auto intro: open_inv close_inv svr_close_inv slot_local_inv read_local write_local decode_local)


lemma reachable_inv: "http_reachable N hs \<Longrightarrow> http_inv N hs"
proof (induction rule: http_reachable.induct)
  case (init rnd port backlog hv hs)
  have "h_max_session hs = int N" "\<And>i. i < N \<Longrightarrow> h_session hs i = slot_init i session_zero"
    using init by (auto simp: HTTP_svr_init_def Let_def split: if_splits)
  then show ?case
    using init_table [OF init(1)] init(2) unfolding http_inv_def
    by (auto simp: slot_init_def)
qed (rule step_inv)

section \<open>Properties\<close>

text \<open>
  C3. In every reachable state of the server, whatever the order of operations and the answers
  of the operating system, the session count is the number of open slots, the last session is
  the greatest open one, the number of a slot is its index, there are never more sessions than
  the maximum at the start, and no slot that is not open holds a buffer.
\<close>

theorem http_reachable_inv:
  assumes "http_reachable N hs"
  shows "table_ok N (h_sock hs) (h_last_session hs) (h_session_count hs) \<and>
    0 \<le> h_session_count hs \<and> h_session_count hs \<le> int N \<and>
    (\<forall>i < N. s_no (h_session hs i) = int i \<and>
       (h_sock hs i < 0 \<longrightarrow> s_r_buffer (h_session hs i) = None \<and> s_w_buffer (h_session hs i) = []))"
proof -
  note inv = reachable_inv [OF assms]
  then have t: "table_ok N (h_sock hs) (h_last_session hs) (h_session_count hs)"
    by (simp add: http_inv_def)
  have "h_last_session hs < int N" using t by (simp add: table_ok_def)
  with hst.count_bound [OF t] inv t show ?thesis by (auto simp: http_inv_def)
qed

lemma demo_reachable: "http_reachable 3 (fst (snd (snd demo_open)))"
proof (rule http_reachable.step)
  show "http_reachable 3 (demo_server 3)"
    using http_reachable.init [of 7 8080 5 3] demo_server_init by simp
  obtain r slot hs' ev where d: "demo_open = (r, slot, hs', ev)" by (cases demo_open)
  have "accepts_ok [AcceptErr EINTR, Conn 11 demo_peer]" by (simp add: accepts_ok_def)
  from http_step.opn [OF this demo_open [unfolded d]]
  show "http_step 3 (demo_server 3) (fst (snd (snd demo_open)))" unfolding d by simp
qed

theorem http_reachable_inv_witness:
  "h_session_count (fst (snd (snd demo_open))) \<le> 3 \<and> s_no (h_session (fst (snd (snd demo_open))) 2) = 2"
  using http_reachable_inv [OF demo_reachable] by simp

text \<open>
  The timeouts as they are meant: an open session has expired at a time when it waits for the rest
  of a request since the read timeout, or for the rest of its output since the write timeout, or has
  neither input nor output and was last active before the idle timeout. A timeout of 0 is none.
\<close>

definition passed :: "int \<Rightarrow> int \<Rightarrow> int \<Rightarrow> bool" where
  "passed since limit ct \<longleftrightarrow> 0 < limit \<and> since + limit \<le> ct"

definition no_traffic :: "HSSESSION \<Rightarrow> bool" where
  "no_traffic s \<longleftrightarrow> s_w_buffer s = [] \<and> s_header_length s < 0 \<and>
     (case s_r_buffer s of None \<Rightarrow> True | Some d \<Rightarrow> d_len d \<le> 0)"

definition expired :: "HTTP_t \<Rightarrow> int \<Rightarrow> nat \<Rightarrow> bool" where
  "expired hs ct i \<longleftrightarrow> 0 \<le> h_sock hs i \<and> (let s = h_session hs i in
     0 < s_read_time s \<and> passed (s_read_time s) (h_read_timeout hs) ct \<or>
     0 < s_write_time s \<and> passed (s_write_time s) (h_write_timeout hs) ct \<or>
     no_traffic s \<and> passed (s_active_time s) (h_idle_timeout hs) ct)"

lemma expired_iff: "expired hs ct i \<longleftrightarrow> 0 \<le> h_sock hs i \<and> timed_out hs ct (h_session hs i)"
  by (auto simp: expired_def Let_def passed_def no_traffic_def timed_out_def HS_IS_SESSION_IDLE_def
      split: option.splits)

lemma verify_loop_Some:
  "http_inv N hs \<Longrightarrow> set is \<subseteq> {..<N} \<Longrightarrow> \<exists>r hs' ev. verify_loop cb cr ct is hs = Some (r, hs', ev)"
  by (induction "is") (auto simp: http_inv_def HTTP_sess_close_def Let_def)

text \<open>
  C35. Timeouts. In every reachable state (with callers that keep to the slots that were made at the
  start) \<open>HTTP_verify_connection\<close> returns, for every time and whatever
  \<open>close\<close> answers. When no session has expired it changes nothing. Otherwise it closes the first one
  that has, wherever it is in the table, and no other: its descriptor is shut down and closed once, its
  slot is free and has no buffers, the session count is one less, all other sessions are as they were,
  and \<open>HTTP_RET_TIMEOUT\<close> tells the caller to call again.
\<close>

theorem http_timeouts:
  assumes "http_reachable N hs"
  shows "\<exists>r hs' ev. HTTP_verify_connection cb cr ct hs = Some (r, hs', ev) \<and>
    (case find (expired hs ct) [0..<N] of
       None \<Rightarrow> r = HTTP_RET_OK \<and> hs' = hs \<and> ev = []
     | Some i \<Rightarrow> r = HTTP_RET_TIMEOUT \<and> ev = close_events cb (h_sock hs i) \<and>
         h_session_count hs' = h_session_count hs - 1 \<and> h_sock hs' i = -1 \<and>
         s_r_buffer (h_session hs' i) = None \<and> s_w_buffer (h_session hs' i) = [] \<and>
         (\<forall>j. j \<noteq> i \<longrightarrow> h_session hs' j = h_session hs j))"
proof -
  have inv: "http_inv N hs" by (rule reachable_inv [OF assms])
  define m where "m = nat (h_last_session hs + 1)"
  have N: "N \<le> 4096" and t: "table_ok N (h_sock hs) (h_last_session hs) (h_session_count hs)"
    and no: "\<And>i. i < N \<Longrightarrow> s_no (h_session hs i) = int i"
    using inv by (simp_all add: http_inv_def)
  have m: "m \<le> N" "\<And>i. i < N \<Longrightarrow> expired hs ct i \<Longrightarrow> i < m"
    using t unfolding table_ok_def m_def expired_def by fastforce+
  have "set [0..<m] \<subseteq> {..<N}" using m(1) by auto
  from verify_loop_Some [OF inv this] obtain r hs' ev
    where v: "verify_loop cb cr ct [0..<m] hs = Some (r, hs', ev)" by blast
  have "h_last_session hs < 4096" using t N by (simp add: table_ok_def)
  with v have e: "HTTP_verify_connection cb cr ct hs = Some (r, hs', ev)"
    by (simp add: HTTP_verify_connection_def m_def)
  note first = verify_loop_first [OF v, folded expired_iff]
  show ?thesis
  proof (cases "find (expired hs ct) [0..<N]")
    case None
    then have "\<not> (\<exists>i \<in> set [0..<m]. expired hs ct i)" using m(1) by (auto simp: find_None_iff)
    with first e None show ?thesis by simp
  next
    case (Some k)
    then have k: "k < N" "expired hs ct k" "\<forall>j < k. \<not> expired hs ct j" by (auto simp: find_Some_iff)
    with m(2) have "\<exists>i \<in> set [0..<m]. expired hs ct i" by auto
    with first obtain us i vs r' where i: "[0..<m] = us @ i # vs" "r = HTTP_RET_TIMEOUT"
      "\<forall>j \<in> set us. \<not> expired hs ct j" "expired hs ct i"
      "HTTP_sess_close cb cr (s_no (h_session hs i)) hs = Some (r', hs', ev)"
      by (auto simp: expired_iff)
    have len: "length us < m" using arg_cong [OF i(1), of length] by simp
    moreover have "i = [0..<m] ! length us" "us = take (length us) [0..<m]" by (simp_all add: i(1))
    ultimately have us: "us = [0..<i]" "i < m" by simp_all
    with i(3,4) k(2,3) have ik: "i = k" by (metis atLeastLessThan_iff linorder_neqE_nat set_upt zero_le)
    have "HTTP_sess_close cb cr (int k) hs = Some (r', hs', ev)" using i(5) no [OF k(1)] ik by simp
    then show ?thesis using e i(2) Some k(2)
      by (cases rule: sess_close_cases) (auto simp: expired_def)
  qed
qed

text \<open>A session that was opened at 1000 has expired at 1006 when five seconds are allowed.\<close>

definition demo_idle :: HTTP_t where
  "demo_idle = snd (set_option (fst (snd (snd demo_open))) HTTP_OPTION_IDLE_TIMEOUT 5)"

lemma demo_idle: "http_reachable 3 demo_idle"
proof (rule http_reachable.step [OF demo_reachable])
  show "http_step 3 (fst (snd (snd demo_open))) demo_idle"
    by (rule http_step.opt [of HTTP_OPTION_IDLE_TIMEOUT 5]) (simp_all add: demo_idle_def set_option_def)
qed

theorem http_timeouts_witness:
  "\<exists>hs' ev. HTTP_verify_connection True (\<lambda>_. 0) 1006 demo_idle = Some (HTTP_RET_TIMEOUT, hs', ev) \<and>
     CloseFd 11 \<in> set ev \<and> h_sock hs' 0 = -1 \<and>
   HTTP_verify_connection True (\<lambda>_. 0) 1004 demo_idle = Some (HTTP_RET_OK, demo_idle, [])"
proof -
  have s: "h_sock demo_idle 0 = 11" "h_sock demo_idle 1 = -1" "h_sock demo_idle 2 = -1"
    and e: "expired demo_idle 1006 0" "\<not> expired demo_idle 1004 0"
    by (simp_all add: demo_idle_def set_option_def expired_def Let_def passed_def no_traffic_def demo_open_def
      HTTP_sess_open_def demo_server_def HTTP_svr_init_def list_all_iff slot_init_def session_zero_def
      rauthen_verify_def rauthen_checkhost_def RAUTHEN_PASS_def http_alloc_buffer_def demo_peer_def
      sess_fresh_def eval_nat_numeral)
  have "find (expired demo_idle 1006) [0..<3] = Some 0" "find (expired demo_idle 1004) [0..<3] = None"
    using s e by (simp_all add: upt_rec expired_def [of _ _ "Suc _"] numeral_2_eq_2)
  with http_timeouts [OF demo_idle, of True "\<lambda>_. 0" 1006] http_timeouts [OF demo_idle, of True "\<lambda>_. 0" 1004] s(1)
  show ?thesis by (auto simp: close_events_def clear_events_def)
qed

end
