(* ===== verification/LdapBer.thy ===== *)
theory LdapBer
  imports CBase
begin

text \<open>
  The encoding helpers of libs/stacks/ldap/ldap_common.c: the length octets of BER (the macros
  \<open>INSERT_LENGTH\<close> and \<open>FIND_LENGTH\<close>), message ids, hexadecimal and BCD texts, and the names of
  states and result codes. A shift by the width of its operand or more, and signed overflow, are
  undefined in C and \<open>None\<close> here.
\<close>

section \<open>Lengths\<close>

text \<open>
  The loop \<open>while ((len >> (r * 8)) > 0) r++\<close> on a value of \<open>w\<close> bits, from \<open>r\<close> on; \<open>k\<close> bounds
  the iterations, \<open>None\<close> is the shift by the width.
\<close>

fun count_bytes :: "int \<Rightarrow> nat \<Rightarrow> nat \<Rightarrow> nat option" where
  "count_bytes v r 0 = None"
| "count_bytes v r (Suc k) = (if v div 2 ^ (r * 8) > 0 then count_bytes v (Suc r) k else Some r)"

text \<open>The bytes \<open>v >> (8 * (r - 1))\<close>, \<dots>, \<open>v\<close>, most significant first.\<close>

fun big_endian :: "int \<Rightarrow> nat \<Rightarrow> bytes" where
  "big_endian v 0 = []"
| "big_endian v (Suc r) = word_of_int (v div 2 ^ (r * 8)) # big_endian v r"

definition INSERT_LENGTH :: "int \<Rightarrow> bytes option" where
  "INSERT_LENGTH len =
     (if len < 128 then Some [word_of_int len]
      else if len < 256 then Some [0x80 + 1, word_of_int len]
      else do {
        r \<leftarrow> count_bytes len 0 4;
        Some (word_of_int (0x80 + int r) # big_endian len r)
      })"

text \<open>The value of the long form: \<open>pp\<close> so far, \<open>k\<close> bytes left at the offset \<open>j\<close>.\<close>

fun find_length_loop :: "bytes \<Rightarrow> int \<Rightarrow> nat \<Rightarrow> nat \<Rightarrow> int option" where
  "find_length_loop m pp j 0 = Some pp"
| "find_length_loop m pp j (Suc k) = do {
     c \<leftarrow> at m j;
     let pp = pp + uint c;
     let pp = (if Suc k > 1 then pp * 256 else pp);
     if pp \<ge> 2 ^ 31 then None else find_length_loop m pp (Suc j) k
   }"

text \<open>The length at the offset \<open>i\<close> and the offset after it.\<close>

definition FIND_LENGTH :: "bytes \<Rightarrow> nat \<Rightarrow> (int \<times> nat) option" where
  "FIND_LENGTH m i = do {
     p0 \<leftarrow> at m i;
     if p0 \<ge> 0x80 then do {
       let n = unat (p0 - 0x80);
       pp \<leftarrow> find_length_loop m 0 (i + 1) n;
       Some (pp, i + n + 1)
     }
     else Some (uint p0, i + 1)
   }"

section \<open>Message ids\<close>

text \<open>The increment of \<open>dc->tid\<close> for a client that is not \<open>NULL\<close>.\<close>

definition tid_increment :: "int \<Rightarrow> int option" where
  "tid_increment t = do {
     tid \<leftarrow> int_add t 1;
     let tid = (if tid = 0 then tid + 1 else tid);
     Some (if tid \<ge> 0x7FFFFFFF then 1 else tid)
   }"

text \<open>
  \<open>min\<close> and \<open>max\<close> of \<open>ber_tid_create\<close> are of type \<open>int\<close> and doubled \<open>8 * r - 1\<close> and \<open>8 * r\<close> times:
  they overflow when \<open>r\<close> is 4 or more.
\<close>

definition ber_tid_create :: "int \<Rightarrow> bytes option" where
  "ber_tid_create tid = do {
     r \<leftarrow> count_bytes tid 0 8;
     if 8 * r \<ge> 31 then None
     else
       let mn = (2 :: int) ^ (8 * r - 1); mx = (2 :: int) ^ (8 * r) in
       Some (0x02 #
         (if mn \<le> tid \<and> tid < mx then [word_of_int (int r + 1), 0] else [word_of_int (int r)]) @
         big_endian tid r)
   }"

text \<open>
  The loop that the three readers of a message id share: \<open>n\<close> bytes at the offset \<open>j\<close> are added,
  the first shifted by \<open>8 * (n - 1)\<close>. A shift into the sign bit of an \<open>int\<close> is undefined.
\<close>

fun read_id :: "bytes \<Rightarrow> int \<Rightarrow> nat \<Rightarrow> nat \<Rightarrow> int option" where
  "read_id m acc j 0 = Some acc"
| "read_id m acc j (Suc n) = do {
     c \<leftarrow> at m j;
     let v = uint c * 2 ^ (8 * n);
     if n \<ge> 4 \<or> v \<ge> 2 ^ 31 then None else read_id m (acc + v) (Suc j) n
   }"

section \<open>Texts\<close>

definition hex_letters :: "bool \<Rightarrow> bytes" where
  "hex_letters upper = (if upper then str ''0123456789ABCDEF'' else str ''0123456789abcdef'')"

text \<open>\<open>upper\<close> stands for the test on \<open>type\<close>; the NUL is not part of the text.\<close>

fun bin_to_hex :: "bool \<Rightarrow> bytes \<Rightarrow> bytes" where
  "bin_to_hex upper [] = []"
| "bin_to_hex upper (b # val) =
     hex_letters upper ! unat (drop_bit 4 b) # hex_letters upper ! unat (b AND 0xF) # bin_to_hex upper val"

fun bin_to_bcd :: "bool \<Rightarrow> bytes \<Rightarrow> bytes" where
  "bin_to_bcd upper [] = []"
| "bin_to_bcd upper (b # val) =
     hex_letters upper ! unat (b AND 0xF) # hex_letters upper ! unat (drop_bit 4 b) # bin_to_bcd upper val"

text \<open>The difference, what the function leaves in \<open>*y\<close>, and its result.\<close>

definition timeval_subtract :: "int \<times> int \<Rightarrow> int \<times> int \<Rightarrow> (int \<times> int) \<times> (int \<times> int) \<times> bool" where
  "timeval_subtract x y =
     (let (xs, xu) = x; (ys, yu) = y;
          (ys, yu) = (if xu < yu then
             let nsec = (yu - xu) div 1000000 + 1 in (ys + nsec, yu - 1000000 * nsec) else (ys, yu));
          (ys, yu) = (if xu - yu > 1000000 then
             let nsec = (xu - yu) div 1000000 in (ys - nsec, yu + 1000000 * nsec) else (ys, yu))
      in ((xs - ys, xu - yu), (ys, yu), xs < ys))"

definition state_to_string :: "int \<Rightarrow> bytes" where
  "state_to_string state =
     (case map_of [(1, str ''STATE_CONNECTING''), (2, str ''STATE_READY''), (3, str ''STATE_WAITING'')] state of
        Some t \<Rightarrow> t | None \<Rightarrow> str ''UNKNOWN_STATE('' @ dec_int state @ str '')'')"

definition ldap_errors :: "(int \<times> bytes) list" where
  "ldap_errors =
    [(1, str ''Operation Error''),
     (2, str ''Protocol Error''),
     (3, str ''Time Limit Exceeded''),
     (4, str ''Size Limit Exceeded''),
     (5, str ''Compare False''),
     (6, str ''Compare True''),
     (7, str ''Authentication Method Not Supported''),
     (8, str ''Strong Authentication Required''),
     (9, str ''Partial Results''),
     (10, str ''Referral''),
     (11, str ''Admin Limit Exceeded''),
     (12, str ''Unavailable Critical Extension''),
     (13, str ''Confidentaility Required''),
     (14, str ''SASL Bind in Progress''),
     (16, str ''No Such Attribute''),
     (17, str ''Undefined Attribute Type''),
     (18, str ''Inappropriate Matching''),
     (19, str ''Constaint Violation''),
     (20, str ''Attribute or Value Exists''),
     (21, str ''Invalid Attribute Syntax''),
     (32, str ''No Such Object''),
     (33, str ''Alias Problem''),
     (34, str ''Invalid DN Syntax''),
     (35, str ''Is Leaf''),
     (36, str ''Alias Dereferencing Problem''),
     (48, str ''Inappropriate Authentication''),
     (49, str ''Invalid Credentials''),
     (50, str ''Insufficient Access Rights''),
     (51, str ''Busy''),
     (52, str ''Unavailable''),
     (53, str ''Unwilling to Perform''),
     (54, str ''Loop Defect''),
     (64, str ''Naming Violation''),
     (65, str ''Object Class Violation''),
     (66, str ''Not Allowed on Nonleaf''),
     (67, str ''Not Allowed on RDN''),
     (68, str ''Entry Already Exists''),
     (69, str ''Object Class Mods Prohibited''),
     (71, str ''Affects Multiple DSAs''),
     (80, str ''Other''),
     (81, str ''Server Down''),
     (85, str ''LDAP Timeout''),
     (89, str ''Param Error''),
     (91, str ''Connect Error''),
     (92, str ''LDAP Not Supported''),
     (93, str ''Control Not Found''),
     (94, str ''No Results Returned''),
     (95, str ''More Results to Return''),
     (96, str ''Client Loop''),
     (97, str ''Referral Limit Exceeded'')]"

definition error_to_string :: "int \<Rightarrow> bytes" where
  "error_to_string result =
     (case map_of ldap_errors result of
        Some t \<Rightarrow> t | None \<Rightarrow> str ''UNKNOWN_LDAPERROR('' @ dec_int result @ str '')'')"

section \<open>Properties\<close>

lemma count_bytes_eq:
  "v < 2 ^ (n * 8) \<Longrightarrow> n = 0 \<or> 2 ^ ((n - 1) * 8) \<le> v \<Longrightarrow> 0 \<le> v \<Longrightarrow> r \<le> n \<Longrightarrow> n - r < k \<Longrightarrow>
     count_bytes v r k = Some n"
proof (induction v r k rule: count_bytes.induct)
  case (2 v r k)
  show ?case
  proof (cases "r = n")
    case True
    with 2 show ?thesis by (simp add: pos_imp_zdiv_nonneg_iff not_less zdiv_eq_0_iff)
  next
    case False
    with 2 have "(2 :: int) ^ (r * 8) \<le> 2 ^ ((n - 1) * 8)" by (intro power_increasing) auto
    also have "\<dots> \<le> v" using 2 False by auto
    finally have "v div 2 ^ (r * 8) > 0" by (simp add: pos_imp_zdiv_pos_iff)
    with 2 False show ?thesis by simp
  qed
qed simp

text \<open>How many bytes a value below \<open>2 ^ 24\<close> takes.\<close>

definition id_bytes :: "int \<Rightarrow> nat" where
  "id_bytes v = (if v = 0 then 0 else if v < 256 then 1 else if v < 65536 then 2 else 3)"

lemma count_bytes_id: "0 \<le> v \<Longrightarrow> v < 2 ^ 24 \<Longrightarrow> 4 \<le> k \<Longrightarrow> count_bytes v 0 k = Some (id_bytes v)"
  by (rule count_bytes_eq) (auto simp: id_bytes_def)

lemma id_bytes_range: "0 \<le> v \<Longrightarrow> v < 2 ^ 24 \<Longrightarrow> v < 256 ^ id_bytes v \<and> id_bytes v \<le> 3"
  by (auto simp: id_bytes_def)

lemma length_big_endian [simp]: "length (big_endian v r) = r"
  by (induction r) auto

lemma uint_digit [simp]: "uint (word_of_int v :: byte) = v mod 256"
  by (simp add: uint_word_of_int)

text \<open>What the two readers make of big endian digits that stand at the offset \<open>j\<close>.\<close>

lemma digit_split: "v mod 256 ^ Suc r = v div 256 ^ r mod 256 * 256 ^ r + v mod 256 ^ r" for v :: int
  by (metis mod_mult2_eq' power_Suc mult.commute zmod_zmult2_eq add.commute zero_le_power zero_le_numeral)

lemma pow8: "(2 :: int) ^ (r * 8) = 256 ^ r" "(2 :: int) ^ (8 * r) = 256 ^ r"
  by (simp_all add: power_mult mult.commute [of r])

lemma at_mid: "at (pre @ x # ys) (length pre) = Some x"
  by (simp add: at_def)

lemma find_length_loop_digits:
  "0 < k \<Longrightarrow> 0 \<le> pp \<Longrightarrow> pp * 256 ^ (k - 1) + v mod 256 ^ k < 2 ^ 31 \<Longrightarrow>
   find_length_loop (pre @ big_endian v k @ suf) pp (length pre) k = Some (pp * 256 ^ (k - 1) + v mod 256 ^ k)"
proof (induction k arbitrary: pre pp)
  case (Suc k)
  let ?d = "v div 256 ^ k mod 256"
  show ?case
  proof (cases k)
    case 0
    with Suc.prems show ?thesis by (simp add: at_mid Let_def)
  next
    case l: (Suc l)
    then have k: "0 < k" by simp
    let ?p = "(pp + ?d) * 256"
    have e: "?p * 256 ^ (k - 1) + v mod 256 ^ k = pp * 256 ^ k + v mod 256 ^ Suc k"
      unfolding digit_split by (simp add: l algebra_simps)
    have "?p * 1 \<le> ?p * 256 ^ (k - 1)" using Suc.prems by (intro mult_left_mono) auto
    moreover have "0 \<le> v mod 256 ^ k" by simp
    moreover have "pp * 256 ^ k + v mod 256 ^ Suc k < 2 ^ 31" using Suc.prems(3) by simp
    ultimately have "?p < 2 ^ 31" unfolding e [symmetric] by linarith
    moreover have "find_length_loop ((pre @ [word_of_int (v div 256 ^ k)]) @ big_endian v k @ suf) ?p
        (length (pre @ [word_of_int (v div 256 ^ k) :: byte])) k = Some (pp * 256 ^ k + v mod 256 ^ Suc k)"
      using Suc.IH [of ?p "pre @ [word_of_int (v div 256 ^ k)]"] Suc.prems(2,3) e k by simp
    ultimately show ?thesis using k by (simp add: at_mid pow8 Let_def)
  qed
qed simp

lemma read_id_digits:
  "n \<le> 4 \<Longrightarrow> v mod 256 ^ n < 2 ^ 31 \<Longrightarrow>
   read_id (pre @ big_endian v n @ suf) acc (length pre) n = Some (acc + v mod 256 ^ n)"
proof (induction n arbitrary: pre acc)
  case (Suc n)
  let ?d = "v div 256 ^ n mod 256"
  have e: "?d * 256 ^ n + v mod 256 ^ n = v mod 256 ^ Suc n" by (rule digit_split [symmetric])
  have nn: "0 \<le> v mod 256 ^ n" "0 \<le> ?d * 256 ^ n" by simp_all
  have b: "v mod 256 ^ n < 2 ^ 31" "?d * 256 ^ n < 2 ^ 31" using Suc.prems(2) nn e by linarith+
  have "read_id ((pre @ [word_of_int (v div 256 ^ n)]) @ big_endian v n @ suf) (acc + ?d * 256 ^ n)
        (length (pre @ [word_of_int (v div 256 ^ n) :: byte])) n = Some (acc + v mod 256 ^ Suc n)"
    using Suc.IH [of "pre @ [word_of_int (v div 256 ^ n)]" "acc + ?d * 256 ^ n"] Suc.prems b(1) e
    by simp
  then show ?case using Suc.prems b(2) by (simp add: at_mid pow8 Let_def)
qed simp


lemma id_bytes_int: "0 \<le> v \<Longrightarrow> v < 2 ^ 24 \<Longrightarrow> v mod 256 ^ id_bytes v = v"
  by (auto simp: id_bytes_def)

lemma byte_small: "0 \<le> n \<Longrightarrow> n < 128 \<Longrightarrow> \<not> (0x80 :: byte) \<le> word_of_int n"
  by (simp add: word_le_def)

lemma long_head:
  assumes "n < 128"
  shows "(0x80 :: byte) \<le> word_of_int (0x80 + int n)" "unat (word_of_int (0x80 + int n) - (0x80 :: byte)) = n"
proof -
  have "uint (word_of_int (0x80 + int n) :: byte) = 0x80 + int n"
    using assms by (simp only: uint_word_of_int) simp
  then show "(0x80 :: byte) \<le> word_of_int (0x80 + int n)" by (simp add: word_le_def)
  have "word_of_int (0x80 + int n) - (0x80 :: byte) = of_nat n" by simp
  then show "unat (word_of_int (0x80 + int n) - (0x80 :: byte)) = n"
    using assms by (simp only: unat_of_nat) (simp add: take_bit_nat_eq_self)
qed

lemma INSERT_LENGTH_eq:
  assumes "0 \<le> len" "len < 2 ^ 24"
  shows "INSERT_LENGTH len = Some (if len < 128 then [word_of_int len]
    else word_of_int (0x80 + int (id_bytes len)) # big_endian len (id_bytes len))"
  using assms by (auto simp: INSERT_LENGTH_def count_bytes_id id_bytes_def)

lemma FIND_LENGTH_long:
  assumes "0 < k" "k < 128" "v mod 256 ^ k < 2 ^ 31"
  shows "FIND_LENGTH (pre @ word_of_int (0x80 + int k) # big_endian v k @ suf) (length pre) =
    Some (v mod 256 ^ k, length pre + k + 1)"
  using find_length_loop_digits [of k 0 v "pre @ [word_of_int (0x80 + int k)]" suf] long_head [OF assms(2)] assms
  by (simp del: of_int_add add: FIND_LENGTH_def at_mid Let_def)

lemma insert_find:
  assumes "0 \<le> len" "len < 2 ^ 24"
  shows "\<exists>bs. INSERT_LENGTH len = Some bs \<and> length bs \<le> 4 \<and>
    (\<forall>pre suf. FIND_LENGTH (pre @ bs @ suf) (length pre) = Some (len, length pre + length bs))"
proof (cases "len < 128")
  case True
  with assms show ?thesis
    by (simp add: INSERT_LENGTH_eq FIND_LENGTH_def at_mid byte_small)
next
  case False
  with assms have "0 < id_bytes len" "id_bytes len \<le> 3" by (auto simp: id_bytes_def)
  with assms False FIND_LENGTH_long [of "id_bytes len" len] id_bytes_int [of len] show ?thesis
    by (simp add: INSERT_LENGTH_eq)
qed

text \<open>
  The length octets that \<open>INSERT_LENGTH\<close> writes for a length below \<open>2 ^ 24\<close>, at most four of
  them, are read back by \<open>FIND_LENGTH\<close> as the same length wherever they stand in a buffer, and
  leave the offset just behind them.
\<close>

theorem length_roundtrip:
  assumes "0 \<le> len" "len < 2 ^ 24"
  shows "\<exists>bs. INSERT_LENGTH len = Some bs \<and> length bs \<le> 4 \<and>
    (\<forall>pre suf. FIND_LENGTH (pre @ bs @ suf) (length pre) = Some (len, length pre + length bs))"
  by (rule insert_find [OF assms])

theorem length_roundtrip_witness:
  "\<exists>bs. INSERT_LENGTH 300 = Some bs \<and> length bs \<le> 4 \<and>
    (\<forall>pre suf. FIND_LENGTH (pre @ bs @ suf) (length pre) = Some (300, length pre + length bs))"
  by (rule length_roundtrip) simp_all

text \<open>At \<open>2 ^ 24\<close> the loop of \<open>INSERT_LENGTH\<close> shifts an \<open>int\<close> by its width.\<close>

lemma length_too_long: "2 ^ 24 \<le> len \<Longrightarrow> INSERT_LENGTH len = None"
proof -
  assume "2 ^ 24 \<le> len"
  moreover then have "0 < len div 2 ^ 24" "0 < len div 2 ^ 16" "0 < len div 2 ^ 8"
    by (simp_all add: pos_imp_zdiv_pos_iff)
  ultimately show ?thesis by (simp add: INSERT_LENGTH_def eval_nat_numeral)
qed

lemma ber_tid_create_eq:
  assumes "0 < t" "t < 2 ^ 24"
  shows "ber_tid_create t = Some (let n = id_bytes t; z = (if 2 ^ (8 * n - 1) \<le> t then [0] else []) in
    0x02 # word_of_int (int (length z + n)) # z @ big_endian t n)"
  using assms id_bytes_range [of t]
  by (auto simp: ber_tid_create_def count_bytes_id Let_def power_mult)

lemma tid_encoded:
  assumes "0 < t" "t < 2 ^ 24"
  shows "\<exists>n body. ber_tid_create t = Some (0x02 # word_of_int (int n) # body) \<and>
    length body = n \<and> 0 < n \<and> n \<le> 4 \<and> uint (hd body) < 128 \<and>
    (\<forall>pre suf. read_id (pre @ body @ suf) 0 (length pre) n = Some t)"
proof -
  let ?n = "id_bytes t"
  have n: "0 < ?n" "?n \<le> 3" "t mod 256 ^ ?n = t" "t < 256 ^ ?n"
    using assms id_bytes_range [of t] by (auto simp: id_bytes_int, auto simp: id_bytes_def)
  then obtain l where l: "?n = Suc l" by (cases ?n) auto
  show ?thesis
  proof (cases "2 ^ (8 * ?n - 1) \<le> t")
    case True
    have "read_id (pre @ (0 # big_endian t ?n) @ suf) 0 (length pre) (Suc ?n) = Some t" for pre suf
      using read_id_digits [of ?n t "pre @ [0]" suf 0] n assms by (simp add: at_mid)
    with True n assms show ?thesis by (simp add: ber_tid_create_eq Let_def)
  next
    case False
    have "read_id (pre @ big_endian t ?n @ suf) 0 (length pre) ?n = Some t" for pre suf
      using read_id_digits [of ?n t pre suf 0] n assms by simp
    moreover have "t div 256 ^ l < 128"
    proof (rule ccontr)
      assume "\<not> ?thesis"
      then have "128 * 256 ^ l \<le> t div 256 ^ l * 256 ^ l" by (intro mult_right_mono) auto
      moreover have "t div 256 ^ l * 256 ^ l + t mod 256 ^ l = t" "0 \<le> t mod 256 ^ l"
        by (rule div_mult_mod_eq) simp
      ultimately have "128 * 256 ^ l \<le> t" by linarith
      with False l show False by (simp add: power_add power_mult)
    qed
    moreover have "0 \<le> t div 256 ^ l" using assms by (simp add: pos_imp_zdiv_nonneg_iff)
    ultimately have "t div 256 ^ l mod 256 < 128" by simp
    moreover note \<open>\<And>pre suf. read_id (pre @ big_endian t ?n @ suf) 0 (length pre) ?n = Some t\<close>
    ultimately show ?thesis using False n assms l by (simp add: ber_tid_create_eq Let_def pow8)
  qed
qed

text \<open>
  A message id below \<open>2 ^ 24\<close> is written as a BER INTEGER of one to four bytes that is not
  negative (the sign bit of its first byte is clear) and that the readers of message ids give
  back.
\<close>

theorem tid_roundtrip:
  assumes "0 < t" "t < 2 ^ 24"
  shows "\<exists>n body. ber_tid_create t = Some (0x02 # word_of_int (int n) # body) \<and>
    length body = n \<and> 0 < n \<and> n \<le> 4 \<and> uint (hd body) < 128 \<and>
    (\<forall>pre suf. read_id (pre @ body @ suf) 0 (length pre) n = Some t)"
  by (rule tid_encoded [OF assms])

theorem tid_roundtrip_witness:
  "\<exists>n body. ber_tid_create 200 = Some (0x02 # word_of_int (int n) # body) \<and>
    length body = n \<and> 0 < n \<and> n \<le> 4 \<and> uint (hd body) < 128 \<and>
    (\<forall>pre suf. read_id (pre @ body @ suf) 0 (length pre) n = Some 200)"
  by (rule tid_roundtrip) simp_all

text \<open>The ids of a client stay positive and below \<open>0x7FFFFFFF\<close>, and successive ones differ.\<close>

lemma tid_increment_range:
  "0 \<le> t \<Longrightarrow> t < 0x7FFFFFFF \<Longrightarrow> \<exists>t'. tid_increment t = Some t' \<and> 0 < t' \<and> t' < 0x7FFFFFFF \<and> t' \<noteq> t"
  by (auto simp: tid_increment_def int_add_def Let_def)

text \<open>The difference of two normalised times is normalised and exact; the flag is the order.\<close>

lemma timeval_subtract_normal:
  assumes "0 \<le> xu" "xu < 1000000" "0 \<le> yu" "yu < 1000000"
  shows "\<exists>s u y. timeval_subtract (xs, xu) (ys, yu) = ((s, u), y, xs * 1000000 + xu < ys * 1000000 + yu) \<and>
    0 \<le> u \<and> u < 1000000 \<and> s * 1000000 + u = (xs * 1000000 + xu) - (ys * 1000000 + yu)"
proof (cases "xu < yu")
  case True
  then have d: "(yu - xu) div 1000000 = 0" using assms by (intro div_pos_pos_trivial) auto
  show ?thesis using True assms by (auto simp: timeval_subtract_def d)
next
  case False
  then show ?thesis using assms by (auto simp: timeval_subtract_def)
qed


section \<open>Elements\<close>

text \<open>Type, length and value, with the length octets of \<open>INSERT_LENGTH\<close>.\<close>

definition len_octets :: "nat \<Rightarrow> bytes" where
  "len_octets n = (case INSERT_LENGTH (int n) of Some bs \<Rightarrow> bs | None \<Rightarrow> [])"

definition hdr :: "nat \<Rightarrow> nat" where
  "hdr n = 1 + length (len_octets n)"

definition tlv :: "byte \<Rightarrow> bytes \<Rightarrow> bytes" where
  "tlv t c = t # len_octets (length c) @ c"

lemma length_tlv: "length (tlv t c) = hdr (length c) + length c"
  by (simp add: tlv_def hdr_def)

lemma len_octets_bounds: "n < 2 ^ 24 \<Longrightarrow> 0 < length (len_octets n) \<and> length (len_octets n) \<le> 4"
  by (auto simp: len_octets_def INSERT_LENGTH_eq id_bytes_def)

lemma hdr_bounds: "n < 2 ^ 24 \<Longrightarrow> 2 \<le> hdr n \<and> hdr n \<le> 5"
  using len_octets_bounds [of n] by (simp add: hdr_def Suc_le_eq)

text \<open>What \<open>FIND_LENGTH\<close> makes of an element behind a prefix.\<close>

lemma FIND_LENGTH_tlv:
  assumes "length c < 2 ^ 24"
  shows "FIND_LENGTH (pre @ tlv t c @ suf) (Suc (length pre)) = Some (int (length c), length pre + hdr (length c))"
proof -
  obtain bs where bs: "INSERT_LENGTH (int (length c)) = Some bs"
    "\<And>pre suf. FIND_LENGTH (pre @ bs @ suf) (length pre) = Some (int (length c), length pre + length bs)"
    using insert_find [of "int (length c)"] assms by auto
  from bs(2) [of "pre @ [t]" "c @ suf"] bs(1) show ?thesis
    by (simp add: tlv_def hdr_def len_octets_def)
qed

lemma FIND_LENGTH_tlv_0:
  "length c < 2 ^ 24 \<Longrightarrow> FIND_LENGTH (tlv t c @ suf) (Suc 0) = Some (int (length c), hdr (length c))"
  using FIND_LENGTH_tlv [of c "[]"] by simp

text \<open>An element with tag \<open>t\<close> and content \<open>c\<close> stands at the offset \<open>p\<close> of \<open>m\<close>.\<close>

definition element :: "bytes \<Rightarrow> nat \<Rightarrow> byte \<Rightarrow> bytes \<Rightarrow> bool" where
  "element m p t c \<longleftrightarrow> (\<exists>pre suf. m = pre @ tlv t c @ suf \<and> length pre = p)"

lemma element_here: "element (tlv t c @ suf) 0 t c"
  unfolding element_def by (rule exI [of _ "[]"]) auto

lemma element_mid: "element (pre @ tlv t c @ suf) (length pre) t c"
  unfolding element_def by blast

lemma element_inside:
  "element m p t (xs @ tlv t' c' @ ys) \<Longrightarrow> element m (p + hdr (length (xs @ tlv t' c' @ ys)) + length xs) t' c'"
proof -
  assume "element m p t (xs @ tlv t' c' @ ys)"
  then obtain pre suf where m: "m = pre @ tlv t (xs @ tlv t' c' @ ys) @ suf" "length pre = p"
    unfolding element_def by blast
  let ?pre = "pre @ (t # len_octets (length (xs @ tlv t' c' @ ys))) @ xs"
  have "m = ?pre @ tlv t' c' @ (ys @ suf)" unfolding m(1) tlv_def [of t] by simp
  moreover have "length ?pre = p + hdr (length (xs @ tlv t' c' @ ys)) + length xs"
    using m(2) by (simp add: hdr_def)
  ultimately show ?thesis unfolding element_def by blast
qed

lemma element_find:
  "element m p t c \<Longrightarrow> length c < 2 ^ 24 \<Longrightarrow> FIND_LENGTH m (Suc p) = Some (int (length c), p + hdr (length c))"
  unfolding element_def using FIND_LENGTH_tlv by auto

lemma element_at: "element m p t c \<Longrightarrow> at m p = Some t"
  unfolding element_def by (auto simp: tlv_def at_mid)

lemma element_drop: "element m p t c \<Longrightarrow> \<exists>suf. drop (p + hdr (length c)) m = c @ suf \<and> p + hdr (length c) + length c \<le> length m"
  unfolding element_def by (auto simp: tlv_def hdr_def)

lemma element_take: "element m p t c \<Longrightarrow> take (hdr (length c) + length c) (drop p m) = tlv t c \<and>
   p + (hdr (length c) + length c) \<le> length m"
  unfolding element_def by (auto simp: length_tlv)

end
