(* ===== verification/LdapFilter.thy ===== *)
theory LdapFilter
  imports LdapBer
begin

text \<open>
  Search filters of the directory server: \<open>LDAP_string_to_filter\<close> and \<open>LDAP_filter_to_string\<close>
  of libs/stacks/ldap/ldap_common.c.

  A buffer is the list of its readable bytes. Reading past it, writing past an array of the
  structures or of the stack, and a loop whose iteration changes nothing are \<open>None\<close>. Memory that
  \<open>SDF_MALLOC\<close> returns is zero and present (the function would itself fault without memory). A
  text field is the bytes copied into it, whose number the code keeps in \<open>len\<close>.
\<close>

section \<open>Data\<close>

datatype Substrings = SUBSTRING_INITIAL bytes | SUBSTRING_ANY bytes | SUBSTRING_FINAL bytes

text \<open>
  The tag \<open>choice\<close> with the member of the union that it selects. A flag and the field that it
  guards are an option. The constructors of two texts hold the attribute and the value.
\<close>

datatype SearchFilter =
    FAND "SearchFilter list"
  | FOR "SearchFilter list"
  | FNOT SearchFilter
  | FEQUALITYMATCH bytes bytes
  | FSUBSTRINGS "bytes option" "Substrings list option"
  | FGREATEROREQUAL bytes bytes
  | FLESSOREQUAL bytes bytes
  | FPRESENT bytes
  | FAPPROXMATCH bytes bytes
  | FEXTENSIBLEMATCH "bytes option" "bytes option" "bytes option" bool

section \<open>Decoding\<close>

text \<open>The macro \<open>FIND_LEN\<close>: length, next offset and the number of length bytes behind the first.\<close>

definition FIND_LEN :: "bytes \<Rightarrow> nat \<Rightarrow> (int \<times> nat \<times> nat) option" where
  "FIND_LEN m i = do {
     p0 \<leftarrow> at m i;
     if p0 \<ge> 0x80 then do {
       let n = unat (p0 - 0x80);
       pp \<leftarrow> find_length_loop m 0 (i + 1) n;
       Some (pp, i + n + 1, n)
     }
     else Some (uint p0, i + 1, 0)
   }"

text \<open>\<open>memcpy (field, m + i, n); field[n] = 0\<close> for an array of \<open>cap\<close> bytes.\<close>

definition copy_field :: "nat \<Rightarrow> bytes \<Rightarrow> nat \<Rightarrow> nat \<Rightarrow> bytes option" where
  "copy_field cap m i n = (if i + n \<le> length m \<and> n < cap then Some (take n (drop i m)) else None)"

abbreviation ATTR_NAME_SIZE :: nat where "ATTR_NAME_SIZE \<equiv> 256"
abbreviation ATTR_VALUE_SIZE :: nat where "ATTR_VALUE_SIZE \<equiv> 8192"

lemma FIND_LENGTH_next: "FIND_LENGTH m i = Some (l, j) \<Longrightarrow> i < j \<and> i < length m \<and> 0 \<le> l"
proof -
  have "0 \<le> pp \<Longrightarrow> find_length_loop m pp k n = Some l \<Longrightarrow> 0 \<le> l" for pp k n
    by (induction m pp k n rule: find_length_loop.induct)
      (auto simp: bind_eq_Some_conv Let_def split: if_splits)
  then show "FIND_LENGTH m i = Some (l, j) \<Longrightarrow> i < j \<and> i < length m \<and> 0 \<le> l"
    by (auto simp: FIND_LENGTH_def at_Some_iff bind_eq_Some_conv Let_def split: if_splits)
qed

lemma FIND_LEN_eq: "FIND_LEN m i = map_option (\<lambda>(l, j). (l, j, j - i - 1)) (FIND_LENGTH m i)"
  by (cases "at m i"; cases "find_length_loop m 0 (Suc i) (unat (the (at m i) - 0x80))")
    (auto simp: FIND_LEN_def FIND_LENGTH_def Let_def)

text \<open>
  The loop of \<open>FAND\<close> and \<open>FOR\<close>: the parts are copied to a stack buffer of 512 bytes, one after
  the other, and a NUL is put behind each.
\<close>

function split_children :: "bytes \<Rightarrow> nat \<Rightarrow> int \<Rightarrow> bytes list option" where
  "split_children m i ln =
     (if int i \<le> ln then do {
        (len, j, len_size) \<leftarrow> FIND_LEN m (i + 1);
        c \<leftarrow> copy_field 512 m i (nat len + len_size + 2);
        cs \<leftarrow> split_children m (j + nat len) ln;
        Some ((c @ [0]) # cs)
      }
      else Some [])"
  by pat_completeness auto
termination
  by (relation "measure (\<lambda>(m, i, ln). length m - i)")
    (auto simp: FIND_LEN_eq dest: FIND_LENGTH_next)

declare split_children.simps [simp del]

text \<open>The pieces of a substring filter. Another tag than the three leaves the loop where it is.\<close>

function substrings_loop :: "bytes \<Rightarrow> nat \<Rightarrow> int \<Rightarrow> Substrings list option" where
  "substrings_loop m i ln =
     (if int i \<le> ln then do {
        tag \<leftarrow> at m i;
        if tag = 0x80 \<or> tag = 0x81 \<or> tag = 0x82 then do {
          (len, j) \<leftarrow> FIND_LENGTH m (i + 1);
          v \<leftarrow> copy_field ATTR_VALUE_SIZE m j (nat len);
          subs \<leftarrow> substrings_loop m (j + nat len) ln;
          Some ((if tag = 0x80 then SUBSTRING_INITIAL v
                 else if tag = 0x81 then SUBSTRING_ANY v else SUBSTRING_FINAL v) # subs)
        }
        else None
      }
      else Some [])"
  by pat_completeness auto
termination
  by (relation "measure (\<lambda>(m, i, ln). length m - i)") (auto dest: FIND_LENGTH_next)

declare substrings_loop.simps [simp del]

text \<open>The four comparisons: the tags are skipped unread.\<close>

definition decode_ava :: "bytes \<Rightarrow> (bytes \<times> bytes) option" where
  "decode_ava m = do {
     (_, i) \<leftarrow> FIND_LENGTH m 1;
     (ln, i) \<leftarrow> FIND_LENGTH m (i + 1);
     name \<leftarrow> copy_field ATTR_NAME_SIZE m i (nat ln);
     (lv, i) \<leftarrow> FIND_LENGTH m (i + nat ln + 1);
     v \<leftarrow> copy_field ATTR_VALUE_SIZE m i (nat lv);
     Some (name, v)
   }"

definition decode_substrings :: "bytes \<Rightarrow> SearchFilter option" where
  "decode_substrings m = do {
     (ln, i) \<leftarrow> FIND_LENGTH m 1;
     c \<leftarrow> at m i;
     if c = 0x04 then do {
       (len, i) \<leftarrow> FIND_LENGTH m (i + 1);
       t \<leftarrow> copy_field ATTR_VALUE_SIZE m i (nat len);
       let i = i + nat len;
       c \<leftarrow> at m i;
       if c = 0x30 then do {
         (_, i) \<leftarrow> FIND_LENGTH m (i + 1);
         subs \<leftarrow> substrings_loop m i ln;
         Some (FSUBSTRINGS (Some t) (Some subs))
       }
       else Some (FSUBSTRINGS (Some t) None)
     }
     else Some (FSUBSTRINGS None None)
   }"

text \<open>One optional element of an extensible match with the tag \<open>tag\<close>, and the offset after it.\<close>

definition decode_optional :: "byte \<Rightarrow> bytes \<Rightarrow> nat \<Rightarrow> (bytes option \<times> nat) option" where
  "decode_optional tag m i = do {
     c \<leftarrow> at m i;
     if c = tag then do {
       (len, i) \<leftarrow> FIND_LENGTH m (i + 1);
       v \<leftarrow> copy_field ATTR_VALUE_SIZE m i (nat len);
       Some (Some v, i + nat len)
     }
     else Some (None, i)
   }"

definition decode_extensible :: "bytes \<Rightarrow> SearchFilter option" where
  "decode_extensible m = do {
     (_, i) \<leftarrow> FIND_LENGTH m 1;
     (rule, i) \<leftarrow> decode_optional 0x81 m i;
     (t, i) \<leftarrow> decode_optional 0x82 m i;
     (v, i) \<leftarrow> decode_optional 0x83 m i;
     c \<leftarrow> at m i;
     if c = 0x84 then do {
       _ \<leftarrow> FIND_LENGTH m (i + 1);
       Some (FEXTENSIBLEMATCH rule t v True)
     }
     else Some (FEXTENSIBLEMATCH rule t v False)
   }"

text \<open>The parts that the recursion takes are shorter than the buffer.\<close>

lemma copy_field_length: "copy_field cap m i n = Some c \<Longrightarrow> length c = n \<and> i + n \<le> length m \<and> n < cap"
  by (auto simp: copy_field_def split: if_splits)

lemma split_children_shorter:
  "split_children m i ln = Some cs \<Longrightarrow> 2 \<le> i \<Longrightarrow> c \<in> set cs \<Longrightarrow> length c < length m"
proof (induction m i ln arbitrary: cs rule: split_children.induct)
  case (1 m i ln)
  show ?case
  proof (cases "int i \<le> ln")
    case True
    with "1.prems"(1) obtain len j s c' cs' where
      *: "FIND_LEN m (i + 1) = Some (len, j, s)" "copy_field 512 m i (nat len + s + 2) = Some c'"
        "split_children m (j + nat len) ln = Some cs'" "cs = (c' @ [0]) # cs'"
      by (subst (asm) split_children.simps) (auto simp: bind_eq_Some_conv)
    moreover from *(1) have "i < j" by (auto simp: FIND_LEN_eq dest: FIND_LENGTH_next)
    ultimately have "c \<in> set cs' \<Longrightarrow> length c < length m"
      using "1.IH" [OF True *(1) refl refl *(2,3)] "1.prems"(2) by simp
    with * "1.prems"(2,3) show ?thesis by (auto dest: copy_field_length)
  next
    case False
    with 1 show ?thesis by (simp add: split_children.simps)
  qed
qed

text \<open>
  The switch is on the low five bits of the first byte. The default case leaves the structure as
  \<open>memset\<close> made it, which reads as an empty \<open>FAND\<close>.
\<close>

function LDAP_string_to_filter :: "bytes \<Rightarrow> SearchFilter option" where
  "LDAP_string_to_filter m = do {
     c \<leftarrow> at m 0;
     let choice = c AND 0x1F;
     if choice = 0 then do {
       (ln, i) \<leftarrow> FIND_LENGTH m 1;
       cs \<leftarrow> split_children m i ln;
       fs \<leftarrow> those (map LDAP_string_to_filter cs);
       Some (FAND fs)
     }
     else if choice = 1 then do {
       (ln, i, _) \<leftarrow> FIND_LEN m 1;
       cs \<leftarrow> split_children m i ln;
       fs \<leftarrow> those (map LDAP_string_to_filter cs);
       Some (FOR fs)
     }
     else if choice = 2 then do {
       (ln, i) \<leftarrow> FIND_LENGTH m 1;
       c \<leftarrow> copy_field 512 m i (nat ln);
       f \<leftarrow> LDAP_string_to_filter (c @ [0]);
       Some (FNOT f)
     }
     else if choice = 3 then map_option (\<lambda>(n, v). FEQUALITYMATCH n v) (decode_ava m)
     else if choice = 4 then decode_substrings m
     else if choice = 5 then map_option (\<lambda>(n, v). FGREATEROREQUAL n v) (decode_ava m)
     else if choice = 6 then map_option (\<lambda>(n, v). FLESSOREQUAL n v) (decode_ava m)
     else if choice = 7 then do {
       (ln, i) \<leftarrow> FIND_LENGTH m 1;
       v \<leftarrow> copy_field ATTR_VALUE_SIZE m i (nat ln);
       Some (FPRESENT v)
     }
     else if choice = 8 then map_option (\<lambda>(n, v). FAPPROXMATCH n v) (decode_ava m)
     else if choice = 9 then decode_extensible m
     else Some (FAND [])
   }"
  by pat_completeness auto
termination
  by (relation "measure length")
    (auto simp: FIND_LEN_eq dest!: FIND_LENGTH_next copy_field_length intro!: split_children_shorter)

declare LDAP_string_to_filter.simps [simp del]

section \<open>The encoding that the decoder expects\<close>

definition enc_substring :: "Substrings \<Rightarrow> bytes" where
  "enc_substring s = (case s of
     SUBSTRING_INITIAL v \<Rightarrow> tlv 0x80 v | SUBSTRING_ANY v \<Rightarrow> tlv 0x81 v | SUBSTRING_FINAL v \<Rightarrow> tlv 0x82 v)"

definition enc_optional :: "byte \<Rightarrow> bytes option \<Rightarrow> bytes" where
  "enc_optional t x = (case x of Some v \<Rightarrow> tlv t v | None \<Rightarrow> [])"

text \<open>The BER encoding of a filter in RFC 4511, with definite lengths.\<close>

fun enc_filter :: "SearchFilter \<Rightarrow> bytes" where
  "enc_filter (FAND fs) = tlv 0xA0 (concat (map enc_filter fs))"
| "enc_filter (FOR fs) = tlv 0xA1 (concat (map enc_filter fs))"
| "enc_filter (FNOT f) = tlv 0xA2 (enc_filter f)"
| "enc_filter (FEQUALITYMATCH n v) = tlv 0xA3 (tlv 0x04 n @ tlv 0x04 v)"
| "enc_filter (FSUBSTRINGS t subs) =
     tlv 0xA4 (enc_optional 0x04 t @ tlv 0x30 (concat (map enc_substring (case subs of Some ss \<Rightarrow> ss | None \<Rightarrow> []))))"
| "enc_filter (FGREATEROREQUAL n v) = tlv 0xA5 (tlv 0x04 n @ tlv 0x04 v)"
| "enc_filter (FLESSOREQUAL n v) = tlv 0xA6 (tlv 0x04 n @ tlv 0x04 v)"
| "enc_filter (FPRESENT v) = tlv 0x87 v"
| "enc_filter (FAPPROXMATCH n v) = tlv 0xA8 (tlv 0x04 n @ tlv 0x04 v)"
| "enc_filter (FEXTENSIBLEMATCH rule t v dn) =
     tlv 0xA9 (enc_optional 0x81 rule @ enc_optional 0x82 t @ enc_optional 0x83 v @
       (if dn then tlv 0x84 [0xFF] else []))"

text \<open>
  The loops of the decoder compare an offset that counts the header with a length that does not:
  they reach the last element only when it is at least as long as the header of the whole.
\<close>

definition last_fits :: "bytes \<Rightarrow> bytes list \<Rightarrow> bool" where
  "last_fits content parts \<longleftrightarrow> parts = [] \<or> hdr (length content) \<le> length (last parts)"

fun fits_optional :: "bytes option \<Rightarrow> bool" where
  "fits_optional None \<longleftrightarrow> True"
| "fits_optional (Some v) \<longleftrightarrow> length v < 8192"

fun substring_text :: "Substrings \<Rightarrow> bytes" where
  "substring_text (SUBSTRING_INITIAL v) = v"
| "substring_text (SUBSTRING_ANY v) = v"
| "substring_text (SUBSTRING_FINAL v) = v"

definition fits_parts :: "bytes list \<Rightarrow> bool" where
  "fits_parts es \<longleftrightarrow> last_fits (concat es) es \<and> (\<forall>e \<in> set es. length e < 512)"

fun fits_filter :: "SearchFilter \<Rightarrow> bool" where
  "fits_filter (FAND fs) \<longleftrightarrow> (\<forall>f \<in> set fs. fits_filter f) \<and> fits_parts (map enc_filter fs)"
| "fits_filter (FOR fs) \<longleftrightarrow> (\<forall>f \<in> set fs. fits_filter f) \<and> fits_parts (map enc_filter fs)"
| "fits_filter (FNOT f) \<longleftrightarrow> fits_filter f \<and> length (enc_filter f) < 512"
| "fits_filter (FEQUALITYMATCH n v) \<longleftrightarrow> length n < 256 \<and> length v < 8192"
| "fits_filter (FSUBSTRINGS t subs) \<longleftrightarrow> (case (t, subs) of
     (Some t, Some ss) \<Rightarrow> length t < 8192 \<and> (\<forall>s \<in> set ss. length (substring_text s) < 8192) \<and>
       last_fits (tlv 0x04 t @ tlv 0x30 (concat (map enc_substring ss))) (map enc_substring ss)
   | _ \<Rightarrow> False)"
| "fits_filter (FGREATEROREQUAL n v) \<longleftrightarrow> length n < 256 \<and> length v < 8192"
| "fits_filter (FLESSOREQUAL n v) \<longleftrightarrow> length n < 256 \<and> length v < 8192"
| "fits_filter (FPRESENT v) \<longleftrightarrow> length v < 8192"
| "fits_filter (FAPPROXMATCH n v) \<longleftrightarrow> length n < 256 \<and> length v < 8192"
| "fits_filter (FEXTENSIBLEMATCH rule t v dn) \<longleftrightarrow> fits_optional rule \<and> fits_optional t \<and> fits_optional v"

lemma element_copy:
  "element m p t c \<Longrightarrow> length c < cap \<Longrightarrow> copy_field cap m (p + hdr (length c)) (length c) = Some c"
  using element_drop [of m p t c] by (auto simp: copy_field_def)

lemma decode_ava_enc:
  assumes "length n < 256" "length v < 8192"
  shows "decode_ava (tlv t (tlv 0x04 n @ tlv 0x04 v) @ suf) = Some (n, v)"
proof -
  let ?c = "tlv 0x04 n @ tlv 0x04 v"
  let ?m = "tlv t ?c @ suf" and ?p = "hdr (length ?c)"
  have b: "hdr (length n) \<le> 5" "hdr (length v) \<le> 5" using assms hdr_bounds by simp_all
  have c: "length ?c < 2 ^ 24" using assms b by (simp add: length_tlv)
  have e: "element ?m 0 t ?c" by (rule element_here)
  have en: "element ?m ?p 0x04 n"
    using element_inside [of ?m 0 t "[]" "0x04" n "tlv 0x04 v"] e by simp
  have ev: "element ?m (?p + hdr (length n) + length n) 0x04 v"
    using element_inside [of ?m 0 t "tlv 0x04 n" "0x04" v "[]"] e by (simp add: length_tlv add.assoc)
  show ?thesis
    using element_find [OF e c] element_find [OF en] element_find [OF ev]
      element_copy [OF en assms(1)] element_copy [OF ev assms(2)] assms
    by (simp add: decode_ava_def)
qed

lemma substrings_loop_enc:
  assumes "element m p t (xs @ concat (map enc_substring ss))" "q = p + hdr (length (xs @ concat (map enc_substring ss))) + length xs"
    "\<forall>s \<in> set ss. length (substring_text s) < 8192"
    "ss = [] \<or> int (q + length (concat (map enc_substring (butlast ss)))) \<le> ln"
    "ln < int (q + length (concat (map enc_substring ss)))"
  shows "substrings_loop m q ln = Some ss"
  using assms
proof (induction ss arbitrary: xs q)
  case Nil
  then show ?case by (simp add: substrings_loop.simps)
next
  case (Cons s ss)
  let ?v = "substring_text s"
  obtain u where u: "enc_substring s = tlv u ?v" "u = 0x80 \<or> u = 0x81 \<or> u = 0x82"
    "(if u = 0x80 then SUBSTRING_INITIAL ?v else if u = 0x81 then SUBSTRING_ANY ?v else SUBSTRING_FINAL ?v) = s"
    by (cases s) (auto simp: enc_substring_def)
  have e: "element m q u ?v"
    using element_inside [of m p t xs u ?v "concat (map enc_substring ss)"] Cons.prems(1,2) u(1)
    by simp
  have q: "int q \<le> ln" using Cons.prems(4) by (cases ss) auto
  have v: "length ?v < 8192" using Cons.prems(3) by simp
  have "substrings_loop m (q + (hdr (length ?v) + length ?v)) ln = Some ss"
  proof (rule Cons.IH [of "xs @ tlv u ?v"])
    show "ss = [] \<or> int (q + (hdr (length ?v) + length ?v) + length (concat (map enc_substring (butlast ss)))) \<le> ln"
      using Cons.prems(4) u(1) by (cases ss) (auto simp: length_tlv)
  qed (use Cons.prems u(1) in \<open>auto simp: length_tlv\<close>)
  then show ?case
    using u(2,3) q v element_at [OF e] element_find [OF e] element_copy [OF e, of 8192]
    by (subst substrings_loop.simps) (auto simp: add.assoc)
qed


lemma split_children_enc:
  assumes "element m p t (xs @ concat es)" "q = p + hdr (length (xs @ concat es)) + length xs"
    "\<forall>e \<in> set es. length e < 512 \<and> (\<exists>u c. e = tlv u c)"
    "es = [] \<or> int (q + length (concat (butlast es))) \<le> ln"
    "ln < int (q + length (concat es))"
  shows "split_children m q ln = Some (map (\<lambda>e. e @ [0]) es)"
  using assms
proof (induction es arbitrary: xs q)
  case Nil
  then show ?case by (simp add: split_children.simps)
next
  case (Cons e es)
  obtain u c where u: "e = tlv u c" using Cons.prems(3) by auto
  have e: "element m q u c"
    using element_inside [of m p t xs u c "concat es"] Cons.prems(1,2) u by simp
  have q: "int q \<le> ln" using Cons.prems(4) by (cases es) auto
  have v: "length c < 512" "hdr (length c) + length c < 512" using Cons.prems(3) u by (auto simp: length_tlv)
  then have h: "2 \<le> hdr (length c)" using hdr_bounds [of "length c"] by simp
  have f: "FIND_LEN m (q + 1) = Some (int (length c), q + hdr (length c), hdr (length c) - 2)"
    using element_find [OF e] v(1) by (simp add: FIND_LEN_eq)
  have "copy_field 512 m q (hdr (length c) + length c) = Some (tlv u c)"
    using element_take [OF e] v(2) by (simp add: copy_field_def)
  then have cp: "copy_field 512 m q (length c + (hdr (length c) - 2) + 2) = Some (tlv u c)"
  proof -
    have "length c + (hdr (length c) - 2) + 2 = hdr (length c) + length c" using h by simp
    with \<open>copy_field 512 m q (hdr (length c) + length c) = Some (tlv u c)\<close> show ?thesis by (simp only:)
  qed
  have "split_children m (q + (hdr (length c) + length c)) ln = Some (map (\<lambda>e. e @ [0]) es)"
  proof (rule Cons.IH [of "xs @ tlv u c"])
    show "es = [] \<or> int (q + (hdr (length c) + length c) + length (concat (butlast es))) \<le> ln"
      using Cons.prems(4) u by (cases es) (auto simp: length_tlv)
  qed (use Cons.prems u in \<open>auto simp: length_tlv\<close>)
  then show ?case
    using q f cp u by (subst split_children.simps) (simp add: add.assoc)
qed

lemma concat_butlast: "es \<noteq> [] \<Longrightarrow> length (concat es) = length (concat (butlast es)) + length (last es)"
  by (induction es) auto

lemma split_children_all:
  assumes "fits_parts es" "\<forall>e \<in> set es. \<exists>u c. e = tlv u c" "length (concat es) < 2 ^ 24"
  shows "split_children (tlv t (concat es) @ suf) (hdr (length (concat es))) (int (length (concat es))) =
    Some (map (\<lambda>e. e @ [0]) es)"
proof (rule split_children_enc [of _ 0 t "[]"])
  show "element (tlv t (concat es) @ suf) 0 t ([] @ concat es)" using element_here by simp
  show "es = [] \<or> int (hdr (length (concat es)) + length (concat (butlast es))) \<le> int (length (concat es))"
  proof (cases "es = []")
    case False
    with assms(1) concat_butlast [OF False] show ?thesis
      unfolding fits_parts_def last_fits_def by linarith
  qed simp
  show "int (length (concat es)) < int (hdr (length (concat es)) + length (concat es))"
    by (simp add: hdr_def)
qed (use assms in \<open>auto simp: fits_parts_def\<close>)

lemma decode_substrings_enc:
  assumes "fits_filter (FSUBSTRINGS t subs)" "length (enc_filter (FSUBSTRINGS t subs)) < 2 ^ 24"
  shows "decode_substrings (enc_filter (FSUBSTRINGS t subs) @ suf) = Some (FSUBSTRINGS t subs)"
proof -
  obtain tt ss where t: "t = Some tt" "subs = Some ss" using assms(1) by (auto split: option.splits)
  let ?S = "concat (map enc_substring ss)"
  let ?C = "tlv 0x04 tt @ tlv 0x30 ?S"
  let ?m = "tlv 0xA4 ?C @ suf" and ?p = "hdr (length ?C)"
  have fits: "length tt < 8192" "\<forall>s \<in> set ss. length (substring_text s) < 8192"
    "last_fits ?C (map enc_substring ss)" using assms(1) t by auto
  have big: "length ?C < 2 ^ 24" "length ?S < 2 ^ 24"
    using assms(2) t by (auto simp: length_tlv enc_optional_def)
  have e: "element ?m 0 0xA4 ?C" by (rule element_here)
  have et: "element ?m ?p 0x04 tt" using element_inside [of ?m 0 "0xA4" "[]" "0x04" tt "tlv 0x30 ?S"] e by simp
  have es: "element ?m (?p + hdr (length tt) + length tt) 0x30 ?S"
    using element_inside [of ?m 0 "0xA4" "tlv 0x04 tt" "0x30" ?S "[]"] e by (simp add: length_tlv add.assoc)
  let ?q = "?p + hdr (length tt) + length tt + hdr (length ?S)"
  have "substrings_loop ?m ?q (int (length ?C)) = Some ss"
  proof (rule substrings_loop_enc [of ?m "?p + hdr (length tt) + length tt" "0x30" "[]"])
    show "ss = [] \<or> int (?q + length (concat (map enc_substring (butlast ss)))) \<le> int (length ?C)"
    proof (cases "ss = []")
      case False
      then have "map enc_substring ss \<noteq> []" by simp
      then have "?p \<le> length (last (map enc_substring ss))" "length ?S =
          length (concat (map enc_substring (butlast ss))) + length (last (map enc_substring ss))"
        using fits(3) concat_butlast [of "map enc_substring ss"] unfolding last_fits_def map_butlast by blast+
      moreover have "length ?C = hdr (length tt) + length tt + (hdr (length ?S) + length ?S)"
        by (simp only: length_append length_tlv)
      ultimately show ?thesis by linarith
    qed simp
    show "int (length ?C) < int (?q + length ?S)" using hdr_bounds [of "length ?C"] big(1)
      by (simp add: length_tlv)
  qed (use fits(2) es in \<open>auto simp: length_tlv\<close>)
  then show ?thesis
    using element_find [OF e big(1)] element_find [OF et] element_find [OF es big(2)] element_at [OF et]
      element_at [OF es] element_copy [OF et, of 8192] fits(1)
    by (simp add: t decode_substrings_def enc_optional_def)
qed


lemma enc_filter_tlv: "\<exists>u c. enc_filter f = tlv u c"
  by (cases f) auto

lemma those_map: "(\<And>x. x \<in> set xs \<Longrightarrow> f x = Some (g x)) \<Longrightarrow> those (map f xs) = Some (map g xs)"
  by (induction xs) auto

lemma length_concat_le: "x \<in> set xs \<Longrightarrow> length x \<le> length (concat xs)"
  by (induction xs) auto

lemma decode_optional_enc:
  assumes "element m p t (xs @ enc_optional tag x @ ys)" "fits_optional x"
    "q = p + hdr (length (xs @ enc_optional tag x @ ys)) + length xs"
    "x = None \<longrightarrow> (\<exists>c. at m q = Some c \<and> c \<noteq> tag)"
  shows "decode_optional tag m q = Some (x, q + length (enc_optional tag x))"
proof (cases x)
  case None
  with assms(4) show ?thesis by (auto simp: decode_optional_def enc_optional_def)
next
  case (Some v)
  then have e: "element m q tag v"
    using element_inside [of m p t xs tag v ys] assms(1,3) by (simp add: enc_optional_def)
  show ?thesis using element_at [OF e] element_find [OF e] element_copy [OF e, of 8192] assms(2) Some
    by (simp add: decode_optional_def enc_optional_def length_tlv)
qed

lemma element_next:
  assumes "element m p t (xs @ ys)" "m = tlv t (xs @ ys) @ suf" "p = 0"
  shows "drop (hdr (length (xs @ ys)) + length xs) m = ys @ suf"
  using assms by (simp add: tlv_def hdr_def)

lemma at_drop: "at m q = at (drop q m) 0"
  by (auto simp: at_def)

lemma at_enc_optional: "at (enc_optional tag x @ zs) 0 = (if x = None then at zs 0 else Some tag)"
  by (cases x) (auto simp: enc_optional_def tlv_def)

lemma length_enc_optional: "fits_optional x \<Longrightarrow> length (enc_optional tag x) \<le> 8196"
proof (cases x)
  case (Some y)
  moreover assume "fits_optional x"
  ultimately show ?thesis using hdr_bounds [of "length y"] by (simp add: enc_optional_def length_tlv)
qed (simp add: enc_optional_def)

lemma decode_extensible_enc:
  assumes "fits_optional rule" "fits_optional t" "fits_optional v" "suf \<noteq> []" "hd suf < 0x80"
  shows "decode_extensible (enc_filter (FEXTENSIBLEMATCH rule t v dn) @ suf) = Some (FEXTENSIBLEMATCH rule t v dn)"
proof -
  define R T V D where "R = enc_optional 0x81 rule" and "T = enc_optional 0x82 t" and "V = enc_optional 0x83 v"
    and "D = (if dn then tlv 0x84 [0xFF] else [])"
  define C m p where "C = R @ T @ V @ D" and "m = tlv 0xA9 C @ suf" and "p = hdr (length C)"
  have "length D \<le> 3" by (simp add: D_def length_tlv hdr_def len_octets_def INSERT_LENGTH_def)
  then have C: "length C < 2 ^ 24"
    using length_enc_optional [OF assms(1), of "0x81"] length_enc_optional [OF assms(2), of "0x82"]
      length_enc_optional [OF assms(3), of "0x83"]
    by (simp add: C_def R_def T_def V_def)
  have e: "element m 0 0xA9 C" unfolding m_def by (rule element_here)
  obtain c suf' where s: "suf = c # suf'" "c < 0x80" using assms(4,5) by (cases suf) auto
  have c: "c \<noteq> 0x81" "c \<noteq> 0x82" "c \<noteq> 0x83" "c \<noteq> 0x84" using s(2) by auto
  have d: "drop p m = C @ suf" unfolding m_def p_def tlv_def hdr_def by simp
  have at: "at m (p + length xs) = at (ys @ suf) 0" if "C = xs @ ys" for xs ys
  proof -
    have "drop (p + length xs) m = drop (length xs) (drop p m)" by (simp add: add.commute)
    then show ?thesis using that by (simp add: at_drop [of m] d)
  qed
  have aD: "at (D @ suf) 0 = Some (if dn then 0x84 else c)" by (simp add: D_def s(1) tlv_def)
  have p: "p = 0 + hdr (length C)" by (simp add: p_def)
  have 1: "decode_optional 0x81 m p = Some (rule, p + length R)"
    unfolding R_def
  proof (rule decode_optional_enc [of m 0 "0xA9" "[]" _ _ "T @ V @ D"])
    show "rule = None \<longrightarrow> (\<exists>c. at m p = Some c \<and> c \<noteq> 0x81)"
      using at [of "[]" C] aD c(1)
      by (simp add: C_def R_def T_def V_def at_enc_optional)
  qed (use e assms(1) p in \<open>simp_all add: C_def R_def\<close>)
  have 2: "decode_optional 0x82 m (p + length R) = Some (t, p + length R + length T)"
    unfolding T_def
  proof (rule decode_optional_enc [of m 0 "0xA9" R _ _ "V @ D"])
    show "t = None \<longrightarrow> (\<exists>c. at m (p + length R) = Some c \<and> c \<noteq> 0x82)"
      using at [of R "T @ V @ D"] aD c(2) by (simp add: C_def T_def V_def at_enc_optional)
  qed (use e assms(2) p in \<open>simp_all add: C_def T_def\<close>)
  have 3: "decode_optional 0x83 m (p + length R + length T) = Some (v, p + length R + length T + length V)"
    unfolding V_def
  proof (rule decode_optional_enc [of m 0 "0xA9" "R @ T" _ _ D])
    show "v = None \<longrightarrow> (\<exists>c. at m (p + length R + length T) = Some c \<and> c \<noteq> 0x83)"
      using at [of "R @ T" "V @ D"] aD c(3) by (simp add: C_def V_def at_enc_optional add.assoc)
  qed (use e assms(3) p in \<open>simp_all add: C_def V_def add.assoc\<close>)
  have 4: "at m (p + length R + length T + length V) = Some (if dn then 0x84 else c)"
    using at [of "R @ T @ V" D] aD by (simp add: C_def add.assoc)
  have 5: "FIND_LENGTH m (Suc (p + length R + length T + length V)) \<noteq> None" if dn
    using element_inside [of m 0 "0xA9" "R @ T @ V" "0x84" "[0xFF]" "[]", THEN element_find] e that
    by (simp add: C_def D_def p_def add.assoc)
  have 6: "FIND_LENGTH m (Suc 0) = Some (int (length C), p)" using element_find [OF e C] p by simp
  have "decode_extensible m = Some (FEXTENSIBLEMATCH rule t v dn)"
    using 1 2 3 4 5 6 c by (auto simp: decode_extensible_def)
  then show ?thesis by (simp add: m_def C_def R_def T_def V_def D_def)
qed


lemma string_to_filter_list:
  assumes IH: "\<And>f suf. f \<in> set fs \<Longrightarrow> fits_filter f \<Longrightarrow> length (enc_filter f) < 2 ^ 24 \<Longrightarrow> suf \<noteq> [] \<Longrightarrow>
      hd suf < 0x80 \<Longrightarrow> LDAP_string_to_filter (enc_filter f @ suf) = Some f"
    and "\<forall>f \<in> set fs. fits_filter f" "fits_parts (map enc_filter fs)"
    "length (tlv t (concat (map enc_filter fs))) < 2 ^ 24"
  shows "\<exists>cs. split_children (tlv t (concat (map enc_filter fs)) @ suf) (hdr (length (concat (map enc_filter fs))))
      (int (length (concat (map enc_filter fs)))) = Some cs \<and> those (map LDAP_string_to_filter cs) = Some fs"
proof -
  let ?es = "map enc_filter fs"
  have big: "length (concat ?es) < 2 ^ 24" using assms(4) by (simp only: length_tlv)
  have sp: "split_children (tlv t (concat ?es) @ suf) (hdr (length (concat ?es))) (int (length (concat ?es))) =
      Some (map (\<lambda>e. e @ [0]) ?es)"
    by (rule split_children_all [OF assms(3) _ big]) (use enc_filter_tlv in auto)
  have "those (map (\<lambda>f. LDAP_string_to_filter (enc_filter f @ [0])) fs) = Some (map id fs)"
  proof (rule those_map)
    fix f assume f: "f \<in> set fs"
    then have "length (enc_filter f) < 2 ^ 24" using length_concat_le [of "enc_filter f" ?es] big by auto
    with IH [OF f] f assms(2) show "LDAP_string_to_filter (enc_filter f @ [0]) = Some (id f)" by simp
  qed
  then have "those (map LDAP_string_to_filter (map (\<lambda>e. e @ [0]) ?es)) = Some fs" by (simp add: comp_def)
  with sp show ?thesis by blast
qed

lemma enc_first: "at (tlv t c @ suf) 0 = Some t"
  by (simp add: tlv_def)

lemma string_to_filter_enc:
  "fits_filter f \<Longrightarrow> length (enc_filter f) < 2 ^ 24 \<Longrightarrow> suf \<noteq> [] \<Longrightarrow> hd suf < 0x80 \<Longrightarrow>
   LDAP_string_to_filter (enc_filter f @ suf) = Some f"
proof (induction f arbitrary: suf)
  case (FAND fs)
  let ?C = "concat (map enc_filter fs)"
  have C: "length ?C < 2 ^ 24" using FAND.prems(2) by (simp only: enc_filter.simps length_tlv)
  obtain cs where "split_children (tlv 0xA0 ?C @ suf) (hdr (length ?C)) (int (length ?C)) = Some cs"
      "those (map LDAP_string_to_filter cs) = Some fs"
    using string_to_filter_list [of fs "0xA0" suf] FAND by (simp del: length_concat) blast
  then show ?case using FIND_LENGTH_tlv_0 [OF C, of "0xA0" suf]
    by (subst LDAP_string_to_filter.simps) (simp add: enc_first)
next
  case (FOR fs)
  let ?C = "concat (map enc_filter fs)"
  have C: "length ?C < 2 ^ 24" using FOR.prems(2) by (simp only: enc_filter.simps length_tlv)
  obtain cs where "split_children (tlv 0xA1 ?C @ suf) (hdr (length ?C)) (int (length ?C)) = Some cs"
      "those (map LDAP_string_to_filter cs) = Some fs"
    using string_to_filter_list [of fs "0xA1" suf] FOR by (simp del: length_concat) blast
  then show ?case using FIND_LENGTH_tlv_0 [OF C, of "0xA1" suf]
    by (subst LDAP_string_to_filter.simps) (simp add: enc_first FIND_LEN_eq)
next
  case (FNOT f)
  let ?C = "enc_filter f"
  have C: "length ?C < 512" using FNOT.prems(1) by simp
  have e: "element (tlv 0xA2 ?C @ suf) 0 0xA2 ?C" by (rule element_here)
  have "LDAP_string_to_filter (?C @ [0]) = Some f" using FNOT.IH [of "[0]"] FNOT.prems(1) by simp
  then show ?case using element_find [OF e] element_copy [OF e C] C
    by (subst LDAP_string_to_filter.simps) (simp add: enc_first)
next
  case (FPRESENT v)
  have e: "element (tlv 0x87 v @ suf) 0 0x87 v" by (rule element_here)
  then show ?case using element_find [OF e] element_copy [OF e, of 8192] FPRESENT.prems
    by (subst LDAP_string_to_filter.simps) (simp add: enc_first)
next
  case (FSUBSTRINGS t subs)
  have "\<exists>c. enc_filter (FSUBSTRINGS t subs) = tlv 0xA4 c" unfolding enc_filter.simps by blast
  with decode_substrings_enc [OF FSUBSTRINGS.prems(1,2), of suf] show ?case
    by (subst LDAP_string_to_filter.simps) (auto simp: enc_first simp del: fits_filter.simps)
next
  case (FEXTENSIBLEMATCH rule t v dn)
  then have "decode_extensible (enc_filter (FEXTENSIBLEMATCH rule t v dn) @ suf) = Some (FEXTENSIBLEMATCH rule t v dn)"
    by (intro decode_extensible_enc) auto
  then show ?case
    by (subst LDAP_string_to_filter.simps) (simp add: enc_first)
qed (subst LDAP_string_to_filter.simps, simp add: enc_first decode_ava_enc)+


text \<open>
  C32. Decoding inverts the encoding of RFC 4511 under these conditions: attribute names have less than
  256 bytes and values less than 8192; each part of a compound expression has less than 512; the last
  part of each compound expression and the last piece of each substring filter is at least as long as
  the tag and the length in front of the parts (\<open>last_fits\<close>: the decoder drops it otherwise, see
  \<open>substrings_last_lost\<close>); the whole has less than \<open>2 ^ 24\<close> bytes; and it stands in a larger buffer in
  which the byte behind it is below \<open>0x80\<close>, since the decoder takes another for one more optional
  element. Then \<open>LDAP_string_to_filter\<close> gives back the very filter.
\<close>

theorem LDAP_string_to_filter_encoded:
  assumes "fits_filter f" "length (enc_filter f) < 2 ^ 24" "suf \<noteq> []" "hd suf < 0x80"
  shows "LDAP_string_to_filter (enc_filter f @ suf) = Some f"
  by (rule string_to_filter_enc [OF assms])

theorem LDAP_string_to_filter_encoded_witness:
  "LDAP_string_to_filter (enc_filter (FAND [FPRESENT (str ''cn''),
     FNOT (FSUBSTRINGS (Some (str ''uid'')) (Some [SUBSTRING_INITIAL (str ''ab''), SUBSTRING_FINAL (str ''z'')])),
     FEXTENSIBLEMATCH None (Some (str ''ou'')) (Some (str ''x'')) True]) @ [0x30]) =
   Some (FAND [FPRESENT (str ''cn''),
     FNOT (FSUBSTRINGS (Some (str ''uid'')) (Some [SUBSTRING_INITIAL (str ''ab''), SUBSTRING_FINAL (str ''z'')])),
     FEXTENSIBLEMATCH None (Some (str ''ou'')) (Some (str ''x'')) True])"
  by (rule LDAP_string_to_filter_encoded)
    (simp_all add: fits_parts_def last_fits_def enc_optional_def enc_substring_def tlv_def hdr_def
      len_octets_def INSERT_LENGTH_def)

text \<open>
  Two encodings that RFC 4511 allows and the decoder does not take. A piece of a substring filter
  with another tag stops the loop from advancing, for ever; and the last piece of a substring
  filter of 256 bytes or more is dropped when it is of one byte.
\<close>

lemma substrings_loop_stuck:
  "at m i = Some tag \<Longrightarrow> tag \<notin> {0x80, 0x81, 0x82} \<Longrightarrow> int i \<le> ln \<Longrightarrow> substrings_loop m i ln = None"
  by (simp add: substrings_loop.simps)

lemma substrings_last_lost:
  "LDAP_string_to_filter (enc_filter (FSUBSTRINGS (Some [97])
     (Some [SUBSTRING_INITIAL (replicate 250 98), SUBSTRING_FINAL [99]])) @ [0]) =
   Some (FSUBSTRINGS (Some [97]) (Some [SUBSTRING_INITIAL (replicate 250 98)]))"
  by code_simp
section \<open>Printing\<close>

text \<open>A text with its NUL in an array of \<open>cap\<close> bytes.\<close>

definition in_array :: "nat \<Rightarrow> bytes \<Rightarrow> bytes option" where
  "in_array cap s = (if length s < cap then Some s else None)"

definition print_ava :: "bytes \<Rightarrow> string \<Rightarrow> bytes \<Rightarrow> bytes" where
  "print_ava n eq v = str ''('' @ cstr n @ str eq @ cstr v @ str '')''"

text \<open>
  The pieces of a substring filter in the array of 512 bytes, \<open>e\<close> what it holds so far. For the
  middle and last pieces the code writes through a pointer that it has not set.
\<close>

fun print_substrings :: "Substrings list \<Rightarrow> bytes \<Rightarrow> bytes option" where
  "print_substrings [] e = Some e"
| "print_substrings (SUBSTRING_INITIAL v # ss) e =
     do { e \<leftarrow> in_array 512 (cstr v @ str ''*''); print_substrings ss e }"
| "print_substrings (SUBSTRING_ANY v # ss) e = None"
| "print_substrings (SUBSTRING_FINAL v # ss) e = None"

definition print_flag :: "string \<Rightarrow> bytes option \<Rightarrow> bytes" where
  "print_flag s x = (case x of Some v \<Rightarrow> str s @ cstr v | None \<Rightarrow> [])"

text \<open>
  \<open>e\<close> is the text in the caller's array of \<open>cap\<close> bytes: the composite filters append to it, the
  others write over it. Printing empties the lists of the filter and frees its values, so that a
  filter is printed once.
\<close>

fun LDAP_filter_to_string :: "nat \<Rightarrow> SearchFilter \<Rightarrow> bytes \<Rightarrow> bytes option" where
  "LDAP_filter_to_string cap (FAND fs) e = do {
     es \<leftarrow> those (map (\<lambda>f. LDAP_filter_to_string 256 f []) fs);
     in_array cap (e @ str ''(&'' @ concat es @ str '')'')
   }"
| "LDAP_filter_to_string cap (FOR fs) e = do {
     es \<leftarrow> those (map (\<lambda>f. LDAP_filter_to_string 256 f []) fs);
     in_array cap (e @ str ''(|'' @ concat es @ str '')'')
   }"
| "LDAP_filter_to_string cap (FNOT f) e = do {
     a \<leftarrow> LDAP_filter_to_string 256 f [];
     in_array cap (str ''(!'' @ a @ str '')'')
   }"
| "LDAP_filter_to_string cap (FEQUALITYMATCH n v) e = in_array cap (print_ava n ''='' v)"
| "LDAP_filter_to_string cap (FSUBSTRINGS t subs) e = do {
     a \<leftarrow> (case (t, subs) of (Some t, Some ss) \<Rightarrow> print_substrings ss [] | _ \<Rightarrow> Some []);
     in_array cap (str ''('' @ cstr (case t of Some t \<Rightarrow> t | None \<Rightarrow> []) @ str ''='' @ a @ str '')'')
   }"
| "LDAP_filter_to_string cap (FGREATEROREQUAL n v) e = in_array cap (print_ava n ''>='' v)"
| "LDAP_filter_to_string cap (FLESSOREQUAL n v) e = in_array cap (print_ava n ''<='' v)"
| "LDAP_filter_to_string cap (FPRESENT v) e = in_array cap (str ''('' @ cstr v @ str ''=*)'')"
| "LDAP_filter_to_string cap (FAPPROXMATCH n v) e = in_array cap (print_ava n ''~='' v)"
| "LDAP_filter_to_string cap (FEXTENSIBLEMATCH rule t v dn) e =
     in_array cap (e @ str ''('' @ print_flag '''' t @ (if t \<noteq> None \<and> dn then str '':dn'' else []) @
       print_flag '':'' rule @ print_flag '':='' v @ str '')'')"

text \<open>The text of RFC 4515, without the escapes.\<close>

fun substring_pieces :: "Substrings list \<Rightarrow> bytes" where
  "substring_pieces [] = str ''*''"
| "substring_pieces [SUBSTRING_FINAL v] = str ''*'' @ v"
| "substring_pieces (s # ss) = str ''*'' @ substring_text s @ substring_pieces ss"

fun filter_text :: "SearchFilter \<Rightarrow> bytes" where
  "filter_text (FAND fs) = str ''(&'' @ concat (map filter_text fs) @ str '')''"
| "filter_text (FOR fs) = str ''(|'' @ concat (map filter_text fs) @ str '')''"
| "filter_text (FNOT f) = str ''(!'' @ filter_text f @ str '')''"
| "filter_text (FEQUALITYMATCH n v) = str ''('' @ n @ str ''='' @ v @ str '')''"
| "filter_text (FSUBSTRINGS t subs) = str ''('' @ (case t of Some t \<Rightarrow> t | None \<Rightarrow> []) @ str ''='' @
     (case subs of Some (SUBSTRING_INITIAL v # ss) \<Rightarrow> v @ substring_pieces ss
      | Some ss \<Rightarrow> substring_pieces ss | None \<Rightarrow> []) @ str '')''"
| "filter_text (FGREATEROREQUAL n v) = str ''('' @ n @ str ''>='' @ v @ str '')''"
| "filter_text (FLESSOREQUAL n v) = str ''('' @ n @ str ''<='' @ v @ str '')''"
| "filter_text (FPRESENT v) = str ''('' @ v @ str ''=*)''"
| "filter_text (FAPPROXMATCH n v) = str ''('' @ n @ str ''~='' @ v @ str '')''"
| "filter_text (FEXTENSIBLEMATCH rule t v dn) = str ''('' @ (case t of Some t \<Rightarrow> t | None \<Rightarrow> []) @
     (if dn then str '':dn'' else []) @ (case rule of Some r \<Rightarrow> str '':'' @ r | None \<Rightarrow> []) @
     (case v of Some v \<Rightarrow> str '':='' @ v | None \<Rightarrow> []) @ str '')''"

text \<open>The filters that are printed as meant.\<close>

fun printable :: "SearchFilter \<Rightarrow> bool" where
  "printable (FAND fs) \<longleftrightarrow> (\<forall>f \<in> set fs. printable f \<and> length (filter_text f) < 256)"
| "printable (FOR fs) \<longleftrightarrow> (\<forall>f \<in> set fs. printable f \<and> length (filter_text f) < 256)"
| "printable (FNOT f) \<longleftrightarrow> printable f \<and> length (filter_text f) < 256"
| "printable (FEQUALITYMATCH n v) \<longleftrightarrow> 0 \<notin> set n \<and> 0 \<notin> set v"
| "printable (FSUBSTRINGS t subs) \<longleftrightarrow> (case (t, subs) of
     (Some t, Some [SUBSTRING_INITIAL v]) \<Rightarrow> 0 \<notin> set t \<and> 0 \<notin> set v \<and> length v < 511
   | _ \<Rightarrow> False)"
| "printable (FGREATEROREQUAL n v) \<longleftrightarrow> 0 \<notin> set n \<and> 0 \<notin> set v"
| "printable (FLESSOREQUAL n v) \<longleftrightarrow> 0 \<notin> set n \<and> 0 \<notin> set v"
| "printable (FPRESENT v) \<longleftrightarrow> 0 \<notin> set v"
| "printable (FAPPROXMATCH n v) \<longleftrightarrow> 0 \<notin> set n \<and> 0 \<notin> set v"
| "printable (FEXTENSIBLEMATCH rule t v dn) \<longleftrightarrow> (\<forall>x \<in> {rule, t, v}. case x of Some s \<Rightarrow> 0 \<notin> set s | None \<Rightarrow> True) \<and>
     (dn \<longrightarrow> t \<noteq> None)"

lemma printable_substrings:
  "printable (FSUBSTRINGS t subs) \<Longrightarrow> \<exists>tt v. t = Some tt \<and> subs = Some [SUBSTRING_INITIAL v]"
proof (cases subs)
  case (Some ss)
  moreover assume "printable (FSUBSTRINGS t subs)"
  ultimately show ?thesis
    by (cases t; cases ss; cases "hd ss"; cases "tl ss") auto
qed (auto split: option.splits)

lemma printed_text:
  "printable f \<Longrightarrow> length (e @ filter_text f) < cap \<Longrightarrow> e = [] \<Longrightarrow> LDAP_filter_to_string cap f e = Some (filter_text f)"
proof (induction f arbitrary: e cap)
  case (FAND fs)
  have "those (map (\<lambda>f. LDAP_filter_to_string 256 f []) fs) = Some (map filter_text fs)"
    by (rule those_map) (use FAND in auto)
  with FAND.prems show ?case by (simp add: in_array_def)
next
  case (FOR fs)
  have "those (map (\<lambda>f. LDAP_filter_to_string 256 f []) fs) = Some (map filter_text fs)"
    by (rule those_map) (use FOR in auto)
  with FOR.prems show ?case by (simp add: in_array_def)
next
  case (FSUBSTRINGS t subs)
  from FSUBSTRINGS.prems(1) obtain tt v where "t = Some tt" "subs = Some [SUBSTRING_INITIAL v]"
    using printable_substrings by blast
  with FSUBSTRINGS show ?case by (simp add: in_array_def cstr_id)
next
  case (FEXTENSIBLEMATCH rule t v dn)
  then show ?case by (auto simp: in_array_def print_flag_def cstr_id split: option.splits)
qed (auto simp: in_array_def print_ava_def cstr_id)

text \<open>
  A filter without middle and last substrings is printed as its text in RFC 4515, when the
  text and that of every part fit their arrays.
\<close>

theorem LDAP_filter_to_string_text:
  assumes "printable f" "length (filter_text f) < cap"
  shows "LDAP_filter_to_string cap f [] = Some (filter_text f)"
  using assms by (simp add: printed_text)

theorem LDAP_filter_to_string_text_witness:
  "LDAP_filter_to_string 64 (FAND [FPRESENT (str ''cn''), FNOT (FEQUALITYMATCH (str ''uid'') (str ''a''))]) [] =
   Some (str ''(&(cn=*)(!(uid=a)))'')"
  using LDAP_filter_to_string_text
    [of "FAND [FPRESENT (str ''cn''), FNOT (FEQUALITYMATCH (str ''uid'') (str ''a''))]" 64] by simp

text \<open>A middle or last piece makes the printer write through an indeterminate pointer.\<close>

lemma print_substrings_undefined:
  "s \<in> set ss \<Longrightarrow> \<forall>v. s \<noteq> SUBSTRING_INITIAL v \<Longrightarrow>
   LDAP_filter_to_string cap (FSUBSTRINGS (Some t) (Some ss)) e = None"
proof -
  assume s: "s \<in> set ss" "\<forall>v. s \<noteq> SUBSTRING_INITIAL v"
  have "print_substrings ss a = None" for a
    using s by (induction ss a rule: print_substrings.induct) (auto simp: in_array_def)
  then show ?thesis by simp
qed


end
