(* ===== verification/LdapRequest.thy ===== *)
theory LdapRequest
  imports LdapFilter
begin

text \<open>
  The request decoder of the directory server, \<open>ldap_decode_request\<close> of
  libs/stacks/ldap/ldap_common.c, and the buffers of \<open>ber_alloc_buffer\<close>.

  The buffer is the list of the bytes that the session has allocated, received or not, and the
  offsets count from its start. As in \<open>LdapFilter\<close>, an access outside of a buffer or an array and a
  loop that stands still are \<open>None\<close>. A decoded flag and the field that it guards are an option.
\<close>

section \<open>Return codes\<close>

abbreviation (input) LDAP_RET_ERR_MEMORY :: int where "LDAP_RET_ERR_MEMORY \<equiv> -991"
abbreviation (input) LDAP_RET_ERR_DECODE :: int where "LDAP_RET_ERR_DECODE \<equiv> -987"
abbreviation (input) LDAP_RET_OK :: int where "LDAP_RET_OK \<equiv> 0"
abbreviation (input) LDAP_RET_DATA_AVAILABLE :: int where "LDAP_RET_DATA_AVAILABLE \<equiv> 1"
abbreviation (input) LDAP_RET_RECV_UNBIND :: int where "LDAP_RET_RECV_UNBIND \<equiv> 8"

section \<open>BER buffers\<close>

definition ADJUST_SIZE :: "int \<Rightarrow> int \<Rightarrow> int" where
  "ADJUST_SIZE l s = (if l mod s > 0 then l + (s - l mod s) else l)"

text \<open>
  \<open>b_room\<close> is what the allocation leaves behind the header of the structure, 24 bytes where pointers
  take 8: a new buffer is allocated with the size of a pointer added, a grown one with that of the
  structure, 32.
\<close>

record BER =
  b_size :: int
  b_room :: int
  b_data :: bytes

definition ber_alloc_buffer :: "BER option \<Rightarrow> int \<Rightarrow> BER" where
  "ber_alloc_buffer ber len =
     (case ber of
        None \<Rightarrow> let n = ADJUST_SIZE len 131072 in \<lparr>b_size = n, b_room = 8 + n - 24, b_data = []\<rparr>
      | Some b \<Rightarrow>
          if int (length (b_data b)) + len > b_size b then
            let n = ADJUST_SIZE (len + int (length (b_data b))) 131072 in
            b\<lparr>b_size := n, b_room := 32 + n - 24\<rparr>
          else b)"

section \<open>Messages\<close>

text \<open>An attribute is its name with the list of its values.\<close>

record SearchRequest =
  base_object :: "bytes option"
  scope :: int
  deref_aliases :: int
  size_limit :: int
  time_limit :: int
  typesOnly :: int
  search_filter :: "SearchFilter option"
  attributes :: "bytes list"

record ChangeType =
  operation :: "int option"
  modification :: "(bytes \<times> bytes list) option"

text \<open>The tag \<open>choice\<close> with the member of the union; zero, as after \<open>memset\<close>, is a bind request.\<close>

datatype request =
    BindRequest int
  | SearchReq SearchRequest
  | ModifyRequest "bytes option" "ChangeType list option"
  | AddRequest "bytes option" "(bytes \<times> bytes list) list option"
  | ModDnRequest bytes bytes int
  | DeleteRequest bytes
  | ExtendedRequest "bytes option" "BER option"

record Control =
  control_type :: "bytes option"
  control_value :: "bytes option"

record LDAPMessage =
  message_id :: int
  alt :: request
  controls :: "Control list"

definition choice :: "request \<Rightarrow> int" where
  "choice r = (case r of BindRequest _ \<Rightarrow> 0 | SearchReq _ \<Rightarrow> 3 | ModifyRequest _ _ \<Rightarrow> 6 | AddRequest _ _ \<Rightarrow> 8
     | DeleteRequest _ \<Rightarrow> 10 | ModDnRequest _ _ _ \<Rightarrow> 12 | ExtendedRequest _ _ \<Rightarrow> 23)"

section \<open>Decoding\<close>

text \<open>The step \<open>if (ber[i++] == tag) ... else return LDAP_RET_ERR_DECODE\<close>.\<close>

definition expect :: "byte \<Rightarrow> bytes \<Rightarrow> nat \<Rightarrow> (nat \<Rightarrow> (int + 'a) option) \<Rightarrow> (int + 'a) option" where
  "expect tag m i k = do {
     c \<leftarrow> at m i;
     if c = tag then k (i + 1) else Some (Inl LDAP_RET_ERR_DECODE)
   }"

text \<open>A text of the given length, copied when it is not empty.\<close>

definition text_field :: "nat \<Rightarrow> bytes \<Rightarrow> nat \<Rightarrow> (bytes option \<times> nat) option" where
  "text_field cap m i = do {
     (len, i) \<leftarrow> FIND_LENGTH m i;
     if len > 0 then do {
       v \<leftarrow> copy_field cap m i (nat len);
       Some (Some v, i + nat len)
     }
     else Some (None, i)
   }"

text \<open>\<open>ber[i++] == tag\<close>, \<open>++i\<close> over the length, and one byte.\<close>

definition byte_field :: "byte \<Rightarrow> bytes \<Rightarrow> nat \<Rightarrow> (int \<Rightarrow> nat \<Rightarrow> (int + 'a) option) \<Rightarrow> (int + 'a) option" where
  "byte_field tag m i k = expect tag m i (\<lambda>i. do { c \<leftarrow> at m (i + 1); k (sint c) (i + 2) })"

definition or_empty :: "bytes option \<Rightarrow> bytes" where
  "or_empty x = (case x of Some v \<Rightarrow> v | None \<Rightarrow> [])"

definition decode_extended :: "bytes \<Rightarrow> nat \<Rightarrow> (int + request \<times> nat) option" where
  "decode_extended m i = do {
     (_, i) \<leftarrow> FIND_LENGTH m i;
     c \<leftarrow> at m i;
     if c = 0x80 then do {
       (name, i) \<leftarrow> text_field 1024 m (i + 1);
       c \<leftarrow> at m i;
       if c = 0x81 then do {
         (len, i) \<leftarrow> FIND_LENGTH m (i + 1);
         if len > 0 then do {
           let ber = ber_alloc_buffer None len;
           if len > b_room ber then None else do {
             v \<leftarrow> copy_field (nat len + 1) m i (nat len);
             Some (Inr (ExtendedRequest name (Some (ber\<lparr>b_data := v\<rparr>)), i + nat len))
           }
         }
         else Some (Inr (ExtendedRequest name None, i))
       }
       else Some (Inr (ExtendedRequest name None, i + 1))
     }
     else Some (Inr (ExtendedRequest None None, i + 1))
   }"

text \<open>
  The attribute selection of a search, \<open>ln\<close> bytes of it left. An element that is not an octet
  string leaves the loop where it is, for ever.
\<close>

function attributes_loop :: "bytes \<Rightarrow> nat \<Rightarrow> int \<Rightarrow> (bytes list \<times> nat) option" where
  "attributes_loop m i ln =
     (if ln > 0 then do {
        c \<leftarrow> at m i;
        if c = 0x04 then do {
          (len, j, len_size) \<leftarrow> FIND_LEN m (i + 1);
          v \<leftarrow> copy_field ATTR_VALUE_SIZE m j (nat len);
          (vs, k) \<leftarrow> attributes_loop m (j + nat len) (ln - len - int len_size - 2);
          Some (v # vs, k)
        }
        else None
      }
      else Some ([], i))"
  by pat_completeness auto
termination
  by (relation "measure (\<lambda>(m, i, ln). length m - i)")
    (auto simp: FIND_LEN_eq dest: FIND_LENGTH_next)

declare attributes_loop.simps [simp del]

definition is_filter_tag :: "byte \<Rightarrow> bool" where
  "is_filter_tag c \<longleftrightarrow> c AND 0x1F \<in> {0, 1, 2, 3, 4, 5, 6, 7, 8, 9}"

text \<open>The filter at the offset \<open>i\<close>, and the offset behind it.\<close>

definition decode_filter :: "bytes \<Rightarrow> nat \<Rightarrow> (SearchFilter option \<times> nat) option" where
  "decode_filter m i = do {
     c \<leftarrow> at m i;
     if is_filter_tag c then do {
       (len, j, len_size) \<leftarrow> FIND_LEN m (i + 1);
       let i = j - len_size - 2;
       f \<leftarrow> LDAP_string_to_filter (drop i m);
       Some (Some f, i + nat len + len_size + 2)
     }
     else Some (None, i)
   }"

definition decode_search :: "bytes \<Rightarrow> nat \<Rightarrow> (int + request \<times> nat) option" where
  "decode_search m i = do {
     (_, i) \<leftarrow> FIND_LENGTH m i;
     expect 0x04 m i (\<lambda>i. do {
       (base, i) \<leftarrow> text_field 1024 m i;
       byte_field 0x0a m i (\<lambda>scp i.
       byte_field 0x0a m i (\<lambda>deref i.
       byte_field 0x02 m i (\<lambda>sz i.
       byte_field 0x02 m i (\<lambda>tl i.
       byte_field 0x01 m i (\<lambda>ty i. do {
         (f, i) \<leftarrow> decode_filter m i;
         expect 0x30 m i (\<lambda>i. do {
           (ln, i) \<leftarrow> FIND_LENGTH m i;
           (as, i) \<leftarrow> attributes_loop m i ln;
           Some (Inr (SearchReq \<lparr>base_object = base, scope = scp, deref_aliases = deref, size_limit = sz,
             time_limit = tl, typesOnly = ty, search_filter = f, attributes = as\<rparr>, i))
         })
       })))))
     })
   }"

text \<open>
  The values of an attribute: bytes other than the tag are skipped, so that the loop ends with
  enough values or runs off the buffer.
\<close>

function vals_loop :: "bytes \<Rightarrow> nat \<Rightarrow> int \<Rightarrow> (bytes list \<times> nat) option" where
  "vals_loop m i list_len =
     (if list_len > 0 then do {
        c \<leftarrow> at m i;
        if c = 0x04 then do {
          (len, j) \<leftarrow> FIND_LENGTH m (i + 1);
          v \<leftarrow> copy_field ATTR_VALUE_SIZE m j (nat len);
          (vs, k) \<leftarrow> vals_loop m (j + nat len) (list_len - (1 + int (j - (i + 1)) + len));
          Some (v # vs, k)
        }
        else vals_loop m (i + 1) list_len
      }
      else Some ([], i))"
  by pat_completeness auto
termination
  by (relation "measure (\<lambda>(m, i, ln). length m - i)") (auto simp: at_Some_iff dest: FIND_LENGTH_next)

declare vals_loop.simps [simp del]

definition decode_attr :: "bytes \<Rightarrow> nat \<Rightarrow> ((bytes \<times> bytes list) \<times> nat) option" where
  "decode_attr m i = do {
     c \<leftarrow> at m i;
     (name, i) \<leftarrow> (if c = 0x04 then text_field ATTR_NAME_SIZE m (i + 1) else Some (None, i + 1));
     c \<leftarrow> at m i;
     if c = 0x31 then do {
       (len, i) \<leftarrow> FIND_LENGTH m (i + 1);
       (vs, i) \<leftarrow> vals_loop m i len;
       Some ((or_empty name, vs), i)
     }
     else Some ((or_empty name, []), i + 1)
   }"

definition decode_change :: "bytes \<Rightarrow> nat \<Rightarrow> (ChangeType \<times> nat) option" where
  "decode_change m i = do {
     c \<leftarrow> at m i;
     (op, i) \<leftarrow> (if c = 0x0a then do {
         (_, i) \<leftarrow> FIND_LENGTH m (i + 1);
         c \<leftarrow> at m i;
         Some (Some (sint c), i + 1)
       } else Some (None, i + 1));
     c \<leftarrow> at m i;
     if c = 0x30 then do {
       (_, i) \<leftarrow> FIND_LENGTH m (i + 1);
       (a, i) \<leftarrow> decode_attr m i;
       Some (\<lparr>operation = op, modification = Some a\<rparr>, i)
     }
     else Some (\<lparr>operation = op, modification = None\<rparr>, i + 1)
   }"

text \<open>Every step of the decoder moves the offset forward.\<close>

lemma text_field_next: "text_field cap m i = Some (v, j) \<Longrightarrow> i < j"
  by (auto simp: text_field_def bind_eq_Some_conv split: if_splits dest!: FIND_LENGTH_next)

lemma vals_loop_next: "vals_loop m i ln = Some (vs, j) \<Longrightarrow> i \<le> j"
proof (induction "length m - i" arbitrary: i ln vs rule: less_induct)
  case less
  have IH: "i < i' \<Longrightarrow> i < length m \<Longrightarrow> vals_loop m i' ln' = Some (vs', j) \<Longrightarrow> i' \<le> j" for i' ln' vs'
    by (rule less.hyps) auto
  consider "\<not> ln > 0" | "ln > 0" "at m i = Some 4" | c where "ln > 0" "at m i = Some c" "c \<noteq> 4"
    using less.prems by (cases "at m i") (auto simp: vals_loop.simps [of m i] split: if_splits)
  then show ?case
  proof cases
    case 2
    with less.prems obtain len k v where "FIND_LENGTH m (i + 1) = Some (len, k)"
      "\<exists>vs'. vals_loop m (k + nat len) (ln - (1 + int (k - (i + 1)) + len)) = Some (vs', j)"
      by (subst (asm) vals_loop.simps) (auto simp: bind_eq_Some_conv)
    with IH [of "k + nat len"] show ?thesis by (fastforce dest: FIND_LENGTH_next)
  next
    case 3
    with less.prems have "vals_loop m (i + 1) ln = Some (vs, j)"
      by (subst (asm) vals_loop.simps) simp
    with IH [of "i + 1"] 3 show ?thesis by (fastforce simp: at_Some_iff)
  qed (use less.prems in \<open>simp add: vals_loop.simps [of m i]\<close>)
qed

lemma decode_attr_next: "decode_attr m i = Some (a, j) \<Longrightarrow> i < j"
  by (auto simp: decode_attr_def bind_eq_Some_conv split: if_splits
      dest!: FIND_LENGTH_next vals_loop_next text_field_next)

lemma decode_change_next: "decode_change m i = Some (a, j) \<Longrightarrow> i < j"
  by (auto simp: decode_change_def bind_eq_Some_conv split: if_splits
      dest!: FIND_LENGTH_next decode_attr_next)


text \<open>The changes of a modification and the attributes of an entry, \<open>n\<close> bytes of them left.\<close>

function changes_loop :: "bytes \<Rightarrow> nat \<Rightarrow> int \<Rightarrow> (ChangeType list \<times> nat) option" where
  "changes_loop m i n =
     (if n > 0 then do {
        c \<leftarrow> at m i;
        if c = 0x30 then do {
          (len, j) \<leftarrow> FIND_LENGTH m (i + 1);
          (ch, k) \<leftarrow> decode_change m j;
          (chs, k) \<leftarrow> changes_loop m k (n - (1 + int (j - (i + 1)) + len));
          Some (ch # chs, k)
        }
        else changes_loop m (i + 1) n
      }
      else Some ([], i))"
  by pat_completeness auto
termination
  by (relation "measure (\<lambda>(m, i, n). length m - i)")
    (auto simp: at_Some_iff dest!: FIND_LENGTH_next decode_change_next)

declare changes_loop.simps [simp del]

definition decode_modify :: "bytes \<Rightarrow> nat \<Rightarrow> (int + request \<times> nat) option" where
  "decode_modify m i = do {
     (_, i) \<leftarrow> FIND_LENGTH m i;
     expect 0x04 m i (\<lambda>i. do {
       (obj, i) \<leftarrow> text_field 1024 m i;
       c \<leftarrow> at m i;
       if c = 0x30 then do {
         (n, i) \<leftarrow> FIND_LENGTH m (i + 1);
         (chs, i) \<leftarrow> changes_loop m i n;
         Some (Inr (ModifyRequest obj (Some chs), i))
       }
       else Some (Inr (ModifyRequest obj None, i + 1))
     })
   }"

function entry_loop :: "bytes \<Rightarrow> nat \<Rightarrow> int \<Rightarrow> ((bytes \<times> bytes list) list \<times> nat) option" where
  "entry_loop m i n =
     (if n > 0 then do {
        c \<leftarrow> at m i;
        if c = 0x30 then do {
          (len, j) \<leftarrow> FIND_LENGTH m (i + 1);
          (a, k) \<leftarrow> decode_attr m j;
          (as, k) \<leftarrow> entry_loop m k (n - (1 + int (j - (i + 1)) + len));
          Some (a # as, k)
        }
        else entry_loop m (i + 1) n
      }
      else Some ([], i))"
  by pat_completeness auto
termination
  by (relation "measure (\<lambda>(m, i, n). length m - i)")
    (auto simp: at_Some_iff dest!: FIND_LENGTH_next decode_attr_next)

declare entry_loop.simps [simp del]

definition decode_add :: "bytes \<Rightarrow> nat \<Rightarrow> (int + request \<times> nat) option" where
  "decode_add m i = do {
     (_, i) \<leftarrow> FIND_LENGTH m i;
     expect 0x04 m i (\<lambda>i. do {
       (ent, i) \<leftarrow> text_field 1024 m i;
       c \<leftarrow> at m i;
       if c = 0x30 then do {
         (n, i) \<leftarrow> FIND_LENGTH m (i + 1);
         (as, i) \<leftarrow> entry_loop m i n;
         Some (Inr (AddRequest ent (Some as), i))
       }
       else Some (Inr (AddRequest ent None, i + 1))
     })
   }"

definition decode_moddn :: "bytes \<Rightarrow> nat \<Rightarrow> (int + request \<times> nat) option" where
  "decode_moddn m i = do {
     (_, i) \<leftarrow> FIND_LENGTH m i;
     expect 0x04 m i (\<lambda>i. do {
       (ent, i) \<leftarrow> text_field 1024 m i;
       expect 0x04 m i (\<lambda>i. do {
         (rdn, i) \<leftarrow> text_field 1024 m i;
         byte_field 0x01 m i (\<lambda>del i. Some (Inr (ModDnRequest (or_empty ent) (or_empty rdn) del, i)))
       })
     })
   }"

definition decode_delete :: "bytes \<Rightarrow> nat \<Rightarrow> (int + request \<times> nat) option" where
  "decode_delete m i = do {
     (dn, i) \<leftarrow> text_field 1024 m i;
     Some (Inr (DeleteRequest (or_empty dn), i))
   }"

section \<open>Controls\<close>

definition decode_control :: "bytes \<Rightarrow> nat \<Rightarrow> (Control \<times> nat) option" where
  "decode_control m i = do {
     c \<leftarrow> at m i;
     if c = 0x04 then do {
       (t, i) \<leftarrow> text_field 1024 m (i + 1);
       c \<leftarrow> at m i;
       if c = 0x04 then do {
         (v, i) \<leftarrow> text_field ATTR_VALUE_SIZE m (i + 1);
         Some (\<lparr>control_type = Some (or_empty t), control_value = Some (or_empty v)\<rparr>, i)
       }
       else Some (\<lparr>control_type = Some (or_empty t), control_value = None\<rparr>, i + 1)
     }
     else Some (\<lparr>control_type = None, control_value = None\<rparr>, i + 1)
   }"

lemma decode_control_next: "decode_control m i = Some (c, j) \<Longrightarrow> i < j"
  by (auto simp: decode_control_def bind_eq_Some_conv split: if_splits dest!: text_field_next)

text \<open>The count goes down by \<open>1 + (j - i) + len\<close>, where \<open>j\<close> is the smaller of the two.\<close>

function controls_loop :: "bytes \<Rightarrow> nat \<Rightarrow> int \<Rightarrow> (Control list \<times> nat) option" where
  "controls_loop m i n =
     (if n > 0 then do {
        c \<leftarrow> at m i;
        if c = 0x30 then do {
          (len, k) \<leftarrow> FIND_LENGTH m (i + 1);
          (ctl, k') \<leftarrow> decode_control m k;
          (ctls, l) \<leftarrow> controls_loop m k' (n - (1 + (int (i + 1) - int k) + len));
          Some (ctl # ctls, l)
        }
        else controls_loop m (i + 1) n
      }
      else Some ([], i))"
  by pat_completeness auto
termination
  by (relation "measure (\<lambda>(m, i, n). length m - i)")
    (auto simp: at_Some_iff dest!: FIND_LENGTH_next decode_control_next)

declare controls_loop.simps [simp del]

definition decode_controls :: "bytes \<Rightarrow> nat \<Rightarrow> Control list option" where
  "decode_controls m i = do {
     c \<leftarrow> at m i;
     if c = 0xa0 then do {
       (n, i) \<leftarrow> FIND_LENGTH m (i + 1);
       (ctls, _) \<leftarrow> controls_loop m i n;
       Some ctls
     }
     else Some []
   }"

section \<open>The message\<close>

text \<open>The switch on the byte at \<open>i\<close>; a tag that has no case leaves the message as \<open>memset\<close> made it.\<close>

definition decode_operation :: "bytes \<Rightarrow> nat \<Rightarrow> (int + request \<times> nat) option" where
  "decode_operation m i = do {
     c \<leftarrow> at m i;
     if c = 0x42 then Some (Inl LDAP_RET_RECV_UNBIND)
     else if c = 0x77 then decode_extended m (i + 1)
     else if c = 0x63 then decode_search m (i + 1)
     else if c = 0x66 then decode_modify m (i + 1)
     else if c = 0x68 then decode_add m (i + 1)
     else if c = 0x6c then decode_moddn m (i + 1)
     else if c = 0x4a then decode_delete m (i + 1)
     else Some (Inr (BindRequest 0, i + 1))
   }"

text \<open>
  The id and the operation. The length of the id is a \<open>char\<close>: a negative one moves the offset
  back and reads no id.
\<close>

definition decode_body :: "bytes \<Rightarrow> nat \<Rightarrow> (int + int \<times> request \<times> nat) option" where
  "decode_body m i = do {
     c \<leftarrow> at m i;
     if c = 0x02 then do {
       l \<leftarrow> at m (i + 1);
       let len = sint l;
       let j = int i + 2 + len;
       mid \<leftarrow> (if len > 0 then read_id m 0 (i + 2) (nat len) else Some 0);
       if j < 0 then None else do {
         r \<leftarrow> decode_operation m (nat j);
         Some (case r of Inl e \<Rightarrow> Inl e | Inr (req, k) \<Rightarrow> Inr (mid, req, k))
       }
     }
     else Some (Inr (0, BindRequest 0, i + 1))
   }"

text \<open>
  The return code, and the message that is appended to the queue of the session; \<open>mem_ok\<close> tells
  whether there is memory for it.
\<close>

definition ldap_decode_request :: "bool \<Rightarrow> bytes \<Rightarrow> nat \<Rightarrow> int \<Rightarrow> (int \<times> LDAPMessage option) option" where
  "ldap_decode_request mem_ok m body ber_len = do {
     c \<leftarrow> at m body;
     if c = 0x30 then do {
       (len, i) \<leftarrow> FIND_LENGTH m (body + 1);
       if len > ber_len then Some (LDAP_RET_ERR_DECODE, None)
       else if \<not> mem_ok then Some (LDAP_RET_ERR_MEMORY, None)
       else do {
         r \<leftarrow> decode_body m i;
         case r of
           Inl e \<Rightarrow> Some (e, None)
         | Inr (mid, req, k) \<Rightarrow> do {
             ctls \<leftarrow> decode_controls m k;
             Some (LDAP_RET_DATA_AVAILABLE, Some \<lparr>message_id = mid, alt = req, controls = ctls\<rparr>)
           }
       }
     }
     else Some (LDAP_RET_ERR_DECODE, None)
   }"
section \<open>The encoding that the decoder expects\<close>

definition enc_attr :: "bytes \<times> bytes list \<Rightarrow> bytes" where
  "enc_attr a = tlv 0x04 (fst a) @ tlv 0x31 (concat (map (tlv 0x04) (snd a)))"

definition enc_change :: "ChangeType \<Rightarrow> bytes" where
  "enc_change ch = tlv 0x30 (tlv 0x0a [word_of_int (the (operation ch))] @
     tlv 0x30 (enc_attr (the (modification ch))))"

text \<open>The protocol operations of RFC 4511.\<close>

fun enc_request :: "request \<Rightarrow> bytes" where
  "enc_request (BindRequest v) = []"
| "enc_request (SearchReq s) = tlv 0x63 (tlv 0x04 (or_empty (base_object s)) @
     tlv 0x0a [word_of_int (scope s)] @ tlv 0x0a [word_of_int (deref_aliases s)] @
     tlv 0x02 [word_of_int (size_limit s)] @ tlv 0x02 [word_of_int (time_limit s)] @
     tlv 0x01 [word_of_int (typesOnly s)] @ enc_filter (the (search_filter s)) @
     tlv 0x30 (concat (map (tlv 0x04) (attributes s))))"
| "enc_request (ModifyRequest obj chs) =
     tlv 0x66 (tlv 0x04 (or_empty obj) @ tlv 0x30 (concat (map enc_change (the chs))))"
| "enc_request (AddRequest ent as) =
     tlv 0x68 (tlv 0x04 (or_empty ent) @ tlv 0x30 (concat (map (\<lambda>a. tlv 0x30 (enc_attr a)) (the as))))"
| "enc_request (ModDnRequest ent rdn del) =
     tlv 0x6c (tlv 0x04 ent @ tlv 0x04 rdn @ tlv 0x01 [word_of_int del])"
| "enc_request (DeleteRequest dn) = tlv 0x4a dn"
| "enc_request (ExtendedRequest name v) =
     tlv 0x77 (tlv 0x80 (or_empty name) @ tlv 0x81 (b_data (the v)))"

definition is_char :: "int \<Rightarrow> bool" where
  "is_char n \<longleftrightarrow> - 128 \<le> n \<and> n < 128"

text \<open>A text of a request: present unless empty, and within its array.\<close>

definition fits_text :: "nat \<Rightarrow> bytes option \<Rightarrow> bool" where
  "fits_text cap x \<longleftrightarrow> x \<noteq> Some [] \<and> length (or_empty x) < cap"

definition fits_attr :: "bytes \<times> bytes list \<Rightarrow> bool" where
  "fits_attr a \<longleftrightarrow> length (fst a) < 256 \<and> (\<forall>v \<in> set (snd a). length v < 8192)"

definition fits_change :: "ChangeType \<Rightarrow> bool" where
  "fits_change ch \<longleftrightarrow> (\<exists>op a. ch = \<lparr>operation = Some op, modification = Some a\<rparr> \<and> is_char op \<and> fits_attr a)"

fun fits_request :: "request \<Rightarrow> bool" where
  "fits_request (BindRequest v) \<longleftrightarrow> False"
| "fits_request (SearchReq s) \<longleftrightarrow> fits_text 1024 (base_object s) \<and> is_char (scope s) \<and>
     is_char (deref_aliases s) \<and> is_char (size_limit s) \<and> is_char (time_limit s) \<and> is_char (typesOnly s) \<and>
     (\<exists>f. search_filter s = Some f \<and> fits_filter f) \<and> (\<forall>a \<in> set (attributes s). length a < 8192)"
| "fits_request (ModifyRequest obj chs) \<longleftrightarrow> fits_text 1024 obj \<and> chs \<noteq> None \<and> (\<forall>ch \<in> set (the chs). fits_change ch)"
| "fits_request (AddRequest ent as) \<longleftrightarrow> fits_text 1024 ent \<and> as \<noteq> None \<and> (\<forall>a \<in> set (the as). fits_attr a)"
| "fits_request (ModDnRequest ent rdn del) \<longleftrightarrow> length ent < 1024 \<and> length rdn < 1024 \<and> is_char del"
| "fits_request (DeleteRequest dn) \<longleftrightarrow> length dn < 1024"
| "fits_request (ExtendedRequest name v) \<longleftrightarrow> fits_text 1024 name \<and>
     (\<exists>b. v = Some b \<and> b_data b \<noteq> [] \<and> b_size b = ADJUST_SIZE (int (length (b_data b))) 131072 \<and>
        b_room b = b_size b - 16 \<and> int (length (b_data b)) \<le> b_room b)"

subsection \<open>Steps over elements\<close>

lemma drop_element: "drop p m = tlv t c @ r \<Longrightarrow> element m p t c"
proof -
  assume d: "drop p m = tlv t c @ r"
  then have "drop p m \<noteq> []" by (simp add: tlv_def)
  then have "p \<le> length m" by (metis drop_all linear)
  moreover have "m = take p m @ tlv t c @ r" using d by (metis append_take_drop_id)
  ultimately show ?thesis unfolding element_def by (metis length_take min.absorb2)
qed

lemma step_at: "drop p m = tlv t c @ r \<Longrightarrow> at m p = Some t"
  using drop_element element_at by blast

lemma step_find:
  "drop p m = tlv t c @ r \<Longrightarrow> length c < 2 ^ 24 \<Longrightarrow> FIND_LENGTH m (Suc p) = Some (int (length c), p + hdr (length c))"
  using drop_element element_find by blast

lemma step_in: "drop p m = tlv t c @ r \<Longrightarrow> drop (p + hdr (length c)) m = c @ r"
proof -
  assume "drop p m = tlv t c @ r"
  then have "drop (hdr (length c)) (drop p m) = c @ r" by (simp add: tlv_def hdr_def)
  then show ?thesis by (simp add: add.commute)
qed

lemma step_over: "drop p m = tlv t c @ r \<Longrightarrow> drop (p + (hdr (length c) + length c)) m = r"
proof -
  assume "drop p m = tlv t c @ r"
  then have "drop (length (tlv t c)) (drop p m) = r" by simp
  then show ?thesis by (simp add: add.commute length_tlv)
qed

lemma step_copy: "drop p m = tlv t c @ r \<Longrightarrow> length c < cap \<Longrightarrow> copy_field cap m (p + hdr (length c)) (length c) = Some c"
  using drop_element element_copy by blast

lemma step_text:
  "drop p m = tlv t c @ r \<Longrightarrow> length c < cap \<Longrightarrow> cap \<le> 8192 \<Longrightarrow>
   text_field cap m (Suc p) = Some (if c = [] then None else Some c, p + (hdr (length c) + length c))"
  using step_find [of p m t c r] step_copy [of p m t c r cap] by (auto simp: text_field_def)

lemma step_byte:
  "drop p m = tlv t [word_of_int v] @ r \<Longrightarrow> is_char v \<Longrightarrow> byte_field t m p k = k v (p + 3)"
proof -
  assume d: "drop p m = tlv t [word_of_int v] @ r" and v: "is_char v"
  have h: "hdr 1 = 2" by (simp add: hdr_def len_octets_def INSERT_LENGTH_def)
  from step_in [OF d] have "drop (p + 2) m = word_of_int v # r" using h by simp
  then have "at m (Suc (Suc p)) = Some (word_of_int v)" by (simp add: at_drop [of m "Suc (Suc p)"])
  moreover have "sint (word_of_int v :: byte) = v"
    using v by (simp add: is_char_def sint_sbintrunc' signed_take_bit_int_eq_self)
  ultimately show ?thesis using step_at [OF d] by (simp add: byte_field_def expect_def eval_nat_numeral)
qed

lemma step_byte_over: "drop p m = tlv t [b] @ r \<Longrightarrow> drop (p + 3) m = r"
  using step_over [of p m t "[b]" r] by (simp add: hdr_def len_octets_def INSERT_LENGTH_def eval_nat_numeral)

lemma hdr_ge_2: "length (c :: bytes) < 2 ^ 24 \<Longrightarrow> 2 \<le> hdr (length c)"
  using hdr_bounds by blast

lemma attributes_loop_enc:
  "drop p m = concat (map (tlv 0x04) as) @ r \<Longrightarrow> \<forall>a \<in> set as. length a < 8192 \<Longrightarrow>
   attributes_loop m p (int (length (concat (map (tlv 0x04) as)))) =
     Some (as, p + length (concat (map (tlv 0x04) as)))"
proof (induction as arbitrary: p)
  case Nil
  then show ?case by (simp add: attributes_loop.simps)
next
  case (Cons a as)
  let ?r = "concat (map (tlv 0x04) as) @ r" and ?n = "hdr (length a) + length a"
  have d: "drop p m = tlv 0x04 a @ ?r" using Cons.prems(1) by simp
  have a: "length a < 8192" using Cons.prems(2) by simp
  then have h: "2 \<le> hdr (length a)" by (intro hdr_ge_2) simp
  have f: "FIND_LEN m (p + 1) = Some (int (length a), p + hdr (length a), hdr (length a) - 2)"
    using step_find [OF d] a by (simp add: FIND_LEN_eq)
  have IH: "attributes_loop m (p + ?n) (int (length (concat (map (tlv 0x04) as)))) =
      Some (as, p + ?n + length (concat (map (tlv 0x04) as)))"
    using Cons.IH [OF step_over [OF d]] Cons.prems(2) by simp
  have l: "int (length (concat (map (tlv 0x04) (a # as)))) - int (length a) - int (hdr (length a) - 2) - 2 =
      int (length (concat (map (tlv 0x04) as)))"
    using h by (simp only: list.map concat.simps length_append length_tlv)
  have "0 < int (length (concat (map (tlv 0x04) (a # as))))"
    using h by (simp only: list.map concat.simps length_append length_tlv)
  then show ?case
    unfolding attributes_loop.simps [of m p] f l
    using step_at [OF d] step_copy [OF d a] f l IH by (simp add: add.assoc length_tlv)
qed

lemma vals_loop_enc:
  "drop p m = concat (map (tlv 0x04) vs) @ r \<Longrightarrow> \<forall>a \<in> set vs. length a < 8192 \<Longrightarrow>
   vals_loop m p (int (length (concat (map (tlv 0x04) vs)))) =
     Some (vs, p + length (concat (map (tlv 0x04) vs)))"
proof (induction vs arbitrary: p)
  case Nil
  then show ?case by (simp add: vals_loop.simps)
next
  case (Cons a vs)
  let ?r = "concat (map (tlv 0x04) vs) @ r" and ?n = "hdr (length a) + length a"
  have d: "drop p m = tlv 0x04 a @ ?r" using Cons.prems(1) by simp
  have a: "length a < 8192" using Cons.prems(2) by simp
  then have h: "2 \<le> hdr (length a)" by (intro hdr_ge_2) simp
  have f: "FIND_LENGTH m (p + 1) = Some (int (length a), p + hdr (length a))"
    using step_find [OF d] a by simp
  have IH: "vals_loop m (p + ?n) (int (length (concat (map (tlv 0x04) vs)))) =
      Some (vs, p + ?n + length (concat (map (tlv 0x04) vs)))"
    using Cons.IH [OF step_over [OF d]] Cons.prems(2) by simp
  have l: "int (length (concat (map (tlv 0x04) (a # vs)))) -
      (1 + int (p + hdr (length a) - (p + 1)) + int (length a)) = int (length (concat (map (tlv 0x04) vs)))"
    using h by (simp only: list.map concat.simps length_append length_tlv)
  have "0 < int (length (concat (map (tlv 0x04) (a # vs))))"
    using h by (simp only: list.map concat.simps length_append length_tlv)
  then show ?case
    unfolding vals_loop.simps [of m p] l
    using step_at [OF d] step_copy [OF d a] f l IH by (simp add: add.assoc length_tlv)
qed


lemma or_empty_text: "or_empty (if c = [] then None else Some c) = c"
  by (simp add: or_empty_def)

lemma decode_attr_enc:
  assumes d: "drop p m = enc_attr a @ r" and f: "fits_attr a" and l: "length (enc_attr a) < 2 ^ 24"
  shows "decode_attr m p = Some (a, p + length (enc_attr a))"
proof -
  obtain n vs where a: "a = (n, vs)" by (cases a)
  let ?V = "concat (map (tlv 0x04) vs)"
  have d1: "drop p m = tlv 0x04 n @ (tlv 0x31 ?V @ r)" using d by (simp add: a enc_attr_def)
  have d2: "drop (p + (hdr (length n) + length n)) m = tlv 0x31 ?V @ r" by (rule step_over [OF d1])
  have n: "length n < 256" "\<forall>v \<in> set vs. length v < 8192" using f by (auto simp: a fits_attr_def)
  have V: "length ?V < 2 ^ 24" using l by (simp only: a enc_attr_def length_append length_tlv fst_conv snd_conv)
  show ?thesis
    using step_at [OF d1] step_text [OF d1 n(1)] step_at [OF d2] step_find [OF d2 V]
      vals_loop_enc [OF step_in [OF d2] n(2)]
    by (simp add: a decode_attr_def enc_attr_def or_empty_text length_tlv add.assoc del: length_concat)
qed

lemma decode_change_enc:
  assumes d: "drop p m = enc_body @ r"
    and e: "enc_body = tlv 0x0a [word_of_int op] @ tlv 0x30 (enc_attr a)"
    and f: "is_char op" "fits_attr a" and l: "length enc_body < 2 ^ 24"
  shows "decode_change m p = Some (\<lparr>operation = Some op, modification = Some a\<rparr>, p + length enc_body)"
proof -
  have d1: "drop p m = tlv 0x0a [word_of_int op] @ (tlv 0x30 (enc_attr a) @ r)" using d e by simp
  have h: "hdr 1 = 2" "hdr (Suc 0) = 2" by (simp_all add: hdr_def len_octets_def INSERT_LENGTH_def)
  have d2: "drop (Suc (Suc (Suc p))) m = tlv 0x30 (enc_attr a) @ r"
    using step_byte_over [OF d1] by (simp add: eval_nat_numeral)
  have A: "length (enc_attr a) < 2 ^ 24" using l by (simp only: e length_append length_tlv)
  have b: "at m (Suc (Suc p)) = Some (word_of_int op)"
    using step_in [OF d1] h by (simp add: at_drop [of m "Suc (Suc p)"])
  have s: "sint (word_of_int op :: byte) = op"
    using f(1) by (simp add: is_char_def sint_sbintrunc' signed_take_bit_int_eq_self)
  have f1: "FIND_LENGTH m (Suc p) = Some (1, Suc (Suc p))" using step_find [OF d1] h by simp
  show ?thesis
    using step_at [OF d1] f1 b s step_at [OF d2] step_find [OF d2 A]
      decode_attr_enc [OF step_in [OF d2] f(2) A] h
    by (simp add: decode_change_def e length_tlv add.assoc)
qed

lemma entry_loop_enc:
  "drop p m = concat (map (\<lambda>a. tlv 0x30 (enc_attr a)) as) @ r \<Longrightarrow> \<forall>a \<in> set as. fits_attr a \<Longrightarrow>
   length (concat (map (\<lambda>a. tlv 0x30 (enc_attr a)) as)) < 2 ^ 24 \<Longrightarrow>
   entry_loop m p (int (length (concat (map (\<lambda>a. tlv 0x30 (enc_attr a)) as)))) =
     Some (as, p + length (concat (map (\<lambda>a. tlv 0x30 (enc_attr a)) as)))"
proof (induction as arbitrary: p)
  case Nil
  then show ?case by (simp add: entry_loop.simps)
next
  case (Cons a as)
  let ?E = "\<lambda>as. concat (map (\<lambda>a. tlv 0x30 (enc_attr a)) as)"
  let ?A = "enc_attr a"
  have d: "drop p m = tlv 0x30 ?A @ (?E as @ r)" using Cons.prems(1) by simp
  have E: "length (?E (a # as)) = hdr (length ?A) + length ?A + length (?E as)"
    by (simp only: list.map concat.simps length_append length_tlv)
  have A: "length ?A < 2 ^ 24" "length (?E as) < 2 ^ 24" using Cons.prems(3) E by linarith+
  then have h: "2 \<le> hdr (length ?A)" by (intro hdr_ge_2)
  have f: "FIND_LENGTH m (p + 1) = Some (int (length ?A), p + hdr (length ?A))" using step_find [OF d A(1)] by simp
  have c: "decode_attr m (p + hdr (length ?A)) = Some (a, p + hdr (length ?A) + length ?A)"
    using decode_attr_enc [OF step_in [OF d] _ A(1)] Cons.prems(2) by simp
  have IH: "entry_loop m (p + hdr (length ?A) + length ?A) (int (length (?E as))) =
      Some (as, p + hdr (length ?A) + length ?A + length (?E as))"
    using Cons.IH [of "p + hdr (length ?A) + length ?A"] step_over [OF d] Cons.prems(2) A(2)
    by (simp add: add.assoc del: length_concat)
  have l: "int (length (?E (a # as))) - (1 + int (p + hdr (length ?A) - (p + 1)) + int (length ?A)) = int (length (?E as))"
    using h E by linarith
  have "0 < int (length (?E (a # as)))" using h E by linarith
  then show ?case
    unfolding entry_loop.simps [of m p]
    using step_at [OF d] f c IH unfolding l [symmetric] by (simp add: add.assoc length_tlv del: length_concat)
qed

lemma changes_loop_enc:
  "drop p m = concat (map enc_change as) @ r \<Longrightarrow> \<forall>a \<in> set as. fits_change a \<Longrightarrow>
   length (concat (map enc_change as)) < 2 ^ 24 \<Longrightarrow>
   changes_loop m p (int (length (concat (map enc_change as)))) =
     Some (as, p + length (concat (map enc_change as)))"
proof (induction as arbitrary: p)
  case Nil
  then show ?case by (simp add: changes_loop.simps)
next
  case (Cons a as)
  let ?E = "\<lambda>as. concat (map enc_change as)"
  let ?A = "tlv 0x0a [word_of_int (the (operation a))] @ tlv 0x30 (enc_attr (the (modification a)))"
  have d: "drop p m = tlv 0x30 ?A @ (?E as @ r)" using Cons.prems(1) by (simp add: enc_change_def [of a])
  have E: "length (?E (a # as)) = hdr (length ?A) + length ?A + length (?E as)"
    by (simp only: list.map concat.simps length_append length_tlv enc_change_def [of a])
  have A: "length ?A < 2 ^ 24" "length (?E as) < 2 ^ 24" using Cons.prems(3) E by linarith+
  then have h: "2 \<le> hdr (length ?A)" by (intro hdr_ge_2)
  have f: "FIND_LENGTH m (p + 1) = Some (int (length ?A), p + hdr (length ?A))" using step_find [OF d A(1)] by simp
  obtain op at where a: "a = \<lparr>operation = Some op, modification = Some at\<rparr>" "is_char op" "fits_attr at"
    using Cons.prems(2) by (auto simp: fits_change_def)
  have c: "decode_change m (p + hdr (length ?A)) = Some (a, p + hdr (length ?A) + length ?A)"
    using decode_change_enc [OF step_in [OF d] _ a(2,3) A(1)] a(1) by simp
  have IH: "changes_loop m (p + hdr (length ?A) + length ?A) (int (length (?E as))) =
      Some (as, p + hdr (length ?A) + length ?A + length (?E as))"
    using Cons.IH [of "p + hdr (length ?A) + length ?A"] step_over [OF d] Cons.prems(2) A(2)
    by (simp add: add.assoc del: length_concat)
  have l: "int (length (?E (a # as))) - (1 + int (p + hdr (length ?A) - (p + 1)) + int (length ?A)) = int (length (?E as))"
    using h E by linarith
  have "0 < int (length (?E (a # as)))" using h E by linarith
  then show ?case
    unfolding changes_loop.simps [of m p]
    using step_at [OF d] f c IH unfolding l [symmetric] E by (simp add: add.assoc del: length_concat length_append)
qed


lemma decode_filter_enc:
  assumes d: "drop p m = enc_filter f @ tlv 0x30 r @ suf" and f: "fits_filter f" "length (enc_filter f) < 2 ^ 24"
  shows "decode_filter m p = Some (Some f, p + length (enc_filter f))"
proof -
  obtain u c where u: "enc_filter f = tlv u c" "is_filter_tag u"
    by (cases f) (auto simp: is_filter_tag_def)
  have d': "drop p m = tlv u c @ (tlv 0x30 r @ suf)" using d u(1) by simp
  have c: "length c < 2 ^ 24" using f(2) unfolding u(1) by (simp only: length_tlv)
  then obtain k where h: "hdr (length c) = Suc (Suc k)"
    using hdr_ge_2 [OF c] by (metis Suc_le_D numeral_2_eq_2 Suc_le_mono)
  have "LDAP_string_to_filter (drop p m) = Some f"
    unfolding d by (rule string_to_filter_enc [OF f]) (simp_all add: tlv_def)
  then show ?thesis
    using step_at [OF d'] step_find [OF d' c] u h
    by (simp add: decode_filter_def FIND_LEN_eq length_tlv)
qed

lemma expect_ok: "at m p = Some t \<Longrightarrow> expect t m p k = k (p + 1)"
  by (simp add: expect_def)

lemma text_option: "fits_text cap x \<Longrightarrow> (if or_empty x = [] then None else Some (or_empty x)) = x"
  by (cases x) (auto simp: fits_text_def or_empty_def)

lemma decode_search_enc:
  assumes d: "drop p m = enc_request (SearchReq s) @ suf" and f: "fits_request (SearchReq s)"
    and l: "length (enc_request (SearchReq s)) < 2 ^ 24"
  shows "decode_operation m p = Some (Inr (SearchReq s, p + length (enc_request (SearchReq s))))"
proof -
  obtain flt where flt: "search_filter s = Some flt" "fits_filter flt" using f by auto
  define A where "A = concat (map (tlv 0x04) (attributes s))"
  define B where "B = or_empty (base_object s)"
  define r0 where "r0 = tlv 0x30 A @ suf"
  define r1 where "r1 = enc_filter flt @ r0"
  define r2 where "r2 = tlv 0x01 [word_of_int (typesOnly s)] @ r1"
  define r3 where "r3 = tlv 0x02 [word_of_int (time_limit s)] @ r2"
  define r4 where "r4 = tlv 0x02 [word_of_int (size_limit s)] @ r3"
  define r5 where "r5 = tlv 0x0a [word_of_int (deref_aliases s)] @ r4"
  define r6 where "r6 = tlv 0x0a [word_of_int (scope s)] @ r5"
  define C where "C = tlv 0x04 B @ tlv 0x0a [word_of_int (scope s)] @ tlv 0x0a [word_of_int (deref_aliases s)] @
     tlv 0x02 [word_of_int (size_limit s)] @ tlv 0x02 [word_of_int (time_limit s)] @
     tlv 0x01 [word_of_int (typesOnly s)] @ enc_filter flt @ tlv 0x30 A"
  note r = r0_def r1_def r2_def r3_def r4_def r5_def r6_def
  have e: "enc_request (SearchReq s) = tlv 0x63 C" by (simp add: A_def B_def C_def flt)
  have h: "length (tlv t [b]) = 3" for t b by (simp add: length_tlv hdr_def len_octets_def INSERT_LENGTH_def)
  have Cs: "C @ suf = tlv 0x04 B @ r6" by (simp add: C_def r)
  have d0: "drop p m = tlv 0x63 C @ suf" using d e by simp
  have C: "length C < 2 ^ 24" using l unfolding e length_tlv by linarith
  have LC: "length C = hdr (length B) + length B + 15 + length (enc_filter flt) + (hdr (length A) + length A)"
    unfolding C_def length_append h length_tlv [of "0x04"] length_tlv [of "0x30"] by simp
  have F: "length (enc_filter flt) < 2 ^ 24" "length A < 2 ^ 24" using C LC by linarith+
  have fb: "length B < 1024" "(if B = [] then None else Some B) = base_object s"
    using f text_option [of 1024 "base_object s"] unfolding B_def by (auto simp: fits_text_def)
  define p0 where "p0 = p + hdr (length C)"
  define p1 where "p1 = p0 + (hdr (length B) + length B)"
  define p2 where "p2 = p1 + 3"
  define p3 where "p3 = p2 + 3"
  define p4 where "p4 = p3 + 3"
  define p5 where "p5 = p4 + 3"
  define p6 where "p6 = p5 + 3"
  define p7 where "p7 = p6 + length (enc_filter flt)"
  note off = p2_def [symmetric] p3_def [symmetric] p4_def [symmetric] p5_def [symmetric] p6_def [symmetric]
  have d1: "drop p0 m = tlv 0x04 B @ r6" using step_in [OF d0] Cs by (simp add: p0_def)
  have d2: "drop p1 m = r6" using step_over [OF d1] by (simp add: p1_def)
  note d2 = d2 [unfolded r6_def]
  have d3: "drop p2 m = r5" using step_byte_over [OF d2] by (simp only: p2_def)
  note d3 = d3 [unfolded r5_def]
  have d4: "drop p3 m = r4" using step_byte_over [OF d3] by (simp only: p3_def)
  note d4 = d4 [unfolded r4_def]
  have d5: "drop p4 m = r3" using step_byte_over [OF d4] by (simp only: p4_def)
  note d5 = d5 [unfolded r3_def]
  have d6: "drop p5 m = r2" using step_byte_over [OF d5] by (simp only: p5_def)
  note d6 = d6 [unfolded r2_def]
  have d7: "drop p6 m = enc_filter flt @ tlv 0x30 A @ suf"
    using step_byte_over [OF d6] by (simp only: p6_def r1_def r0_def)
  have d8: "drop p7 m = tlv 0x30 A @ suf"
  proof -
    have "drop (length (enc_filter flt)) (drop p6 m) = tlv 0x30 A @ suf" unfolding d7 by simp
    then show ?thesis by (simp add: p7_def add.commute)
  qed
  have ch: "is_char (scope s)" "is_char (deref_aliases s)" "is_char (size_limit s)" "is_char (time_limit s)"
    "is_char (typesOnly s)" "\<forall>a \<in> set (attributes s). length a < 8192" using f by auto
  have t: "text_field 1024 m (Suc p0) = Some (base_object s, p1)"
    using step_text [OF d1 fb(1)] fb(2) by (simp add: p1_def)
  have "attributes_loop m (p7 + hdr (length A)) (int (length A)) = Some (attributes s, p7 + hdr (length A) + length A)"
    using attributes_loop_enc [OF _ ch(6), of "p7 + hdr (length A)" m suf] step_in [OF d8] by (simp only: A_def)
  moreover have "p7 + hdr (length A) + length A = p + length (enc_request (SearchReq s))"
    unfolding e length_tlv [of "0x63"] LC p7_def p6_def p5_def p4_def p3_def p2_def p1_def p0_def by simp
  ultimately have al: "attributes_loop m (p7 + hdr (length A)) (int (length A)) =
      Some (attributes s, p + length (enc_request (SearchReq s)))" by simp
  have s: "\<lparr>base_object = base_object s, scope = scope s, deref_aliases = deref_aliases s, size_limit = size_limit s,
             time_limit = time_limit s, typesOnly = typesOnly s, search_filter = Some flt, attributes = attributes s\<rparr> = s"
    using flt(1) by simp
  have "decode_search m (Suc p) = Some (Inr (SearchReq s, p + length (enc_request (SearchReq s))))"
    unfolding decode_search_def
    by (simp add: step_find [OF d0 C] p0_def [symmetric] expect_ok [OF step_at [OF d1]] t
        step_byte [OF d2 ch(1)] step_byte [OF d3 ch(2)] step_byte [OF d4 ch(3)] step_byte [OF d5 ch(4)]
        step_byte [OF d6 ch(5)] off decode_filter_enc [OF d7 flt(2) F(1)] p7_def [symmetric]
        expect_ok [OF step_at [OF d8]] step_find [OF d8 F(2)] al s del: enc_request.simps)
  then show ?thesis by (simp add: decode_operation_def step_at [OF d0] del: enc_request.simps)
qed

lemma length_request: "length (tlv t c @ r) = hdr (length c) + length c + length r"
  by (simp add: length_tlv)

lemma decode_modify_enc:
  assumes d: "drop p m = enc_request (ModifyRequest obj chs) @ suf" and f: "fits_request (ModifyRequest obj chs)"
    and l: "length (enc_request (ModifyRequest obj chs)) < 2 ^ 24"
  shows "decode_operation m p = Some (Inr (ModifyRequest obj chs, p + length (enc_request (ModifyRequest obj chs))))"
proof -
  define B where "B = or_empty obj"
  obtain cs where cs: "chs = Some cs" "\<forall>ch \<in> set cs. fits_change ch" using f by auto
  define A where "A = concat (map enc_change cs)"
  define C where "C = tlv 0x04 B @ tlv 0x30 A"
  have e: "enc_request (ModifyRequest obj chs) = tlv 0x66 C" by (simp add: A_def B_def C_def cs)
  have d0: "drop p m = tlv 0x66 C @ suf" using d e by simp
  have L: "length C < 2 ^ 24" "length A < 2 ^ 24"
    using l unfolding e length_tlv C_def length_append by linarith+
  have d1: "drop (p + hdr (length C)) m = tlv 0x04 B @ (tlv 0x30 A @ suf)"
    using step_in [OF d0] by (simp add: C_def)
  note d2 = step_over [OF d1]
  have fb: "length B < 1024" "(if B = [] then None else Some B) = obj"
    using f text_option [of 1024 obj] unfolding B_def by (auto simp: fits_text_def)
  have "changes_loop m (p + hdr (length C) + (hdr (length B) + length B) + hdr (length A)) (int (length A)) =
      Some (cs, p + hdr (length C) + (hdr (length B) + length B) + hdr (length A) + length A)"
    using changes_loop_enc [OF _ cs(2)] step_in [OF d2] L(2) unfolding A_def by blast
  moreover have "p + hdr (length C) + (hdr (length B) + length B) + hdr (length A) + length A =
      p + length (enc_request (ModifyRequest obj chs))"
    unfolding e length_tlv C_def length_append by simp
  ultimately show ?thesis
    using step_text [OF d1 fb(1)] fb(2) cs(1)
    by (simp add: decode_operation_def decode_modify_def step_at [OF d0] step_find [OF d0 L(1)]
        expect_ok [OF step_at [OF d1]] step_at [OF d2] step_find [OF d2 L(2)] del: enc_request.simps)
qed

lemma decode_add_enc:
  assumes d: "drop p m = enc_request (AddRequest ent as) @ suf" and f: "fits_request (AddRequest ent as)"
    and l: "length (enc_request (AddRequest ent as)) < 2 ^ 24"
  shows "decode_operation m p = Some (Inr (AddRequest ent as, p + length (enc_request (AddRequest ent as))))"
proof -
  define B where "B = or_empty ent"
  obtain cs where cs: "as = Some cs" "\<forall>a \<in> set cs. fits_attr a" using f by auto
  define A where "A = concat (map (\<lambda>a. tlv 0x30 (enc_attr a)) cs)"
  define C where "C = tlv 0x04 B @ tlv 0x30 A"
  have e: "enc_request (AddRequest ent as) = tlv 0x68 C" by (simp add: A_def B_def C_def cs)
  have d0: "drop p m = tlv 0x68 C @ suf" using d e by simp
  have L: "length C < 2 ^ 24" "length A < 2 ^ 24"
    using l unfolding e length_tlv C_def length_append by linarith+
  have d1: "drop (p + hdr (length C)) m = tlv 0x04 B @ (tlv 0x30 A @ suf)"
    using step_in [OF d0] by (simp add: C_def)
  note d2 = step_over [OF d1]
  have fb: "length B < 1024" "(if B = [] then None else Some B) = ent"
    using f text_option [of 1024 ent] unfolding B_def by (auto simp: fits_text_def)
  have "entry_loop m (p + hdr (length C) + (hdr (length B) + length B) + hdr (length A)) (int (length A)) =
      Some (cs, p + hdr (length C) + (hdr (length B) + length B) + hdr (length A) + length A)"
    using entry_loop_enc [OF _ cs(2)] step_in [OF d2] L(2) unfolding A_def by blast
  moreover have "p + hdr (length C) + (hdr (length B) + length B) + hdr (length A) + length A =
      p + length (enc_request (AddRequest ent as))"
    unfolding e length_tlv C_def length_append by simp
  ultimately show ?thesis
    using step_text [OF d1 fb(1)] fb(2) cs(1)
    by (simp add: decode_operation_def decode_add_def step_at [OF d0] step_find [OF d0 L(1)]
        expect_ok [OF step_at [OF d1]] step_at [OF d2] step_find [OF d2 L(2)] del: enc_request.simps)
qed

lemma decode_moddn_enc:
  assumes d: "drop p m = enc_request (ModDnRequest ent rdn del) @ suf" and f: "fits_request (ModDnRequest ent rdn del)"
  shows "decode_operation m p = Some (Inr (ModDnRequest ent rdn del, p + length (enc_request (ModDnRequest ent rdn del))))"
proof -
  define C where "C = tlv 0x04 ent @ tlv 0x04 rdn @ tlv 0x01 [word_of_int del]"
  have e: "enc_request (ModDnRequest ent rdn del) = tlv 0x6c C" by (simp add: C_def)
  have h: "length (tlv t [b]) = 3" for t b by (simp add: length_tlv hdr_def len_octets_def INSERT_LENGTH_def)
  have fb: "length ent < 1024" "length rdn < 1024" "is_char del" using f by auto
  have d0: "drop p m = tlv 0x6c C @ suf" using d e by simp
  have LC: "length C = hdr (length ent) + length ent + (hdr (length rdn) + length rdn) + 3"
    unfolding C_def length_append h length_tlv [of "0x04"] by simp
  then have L: "length C < 2 ^ 24" using fb hdr_bounds [of "length ent"] hdr_bounds [of "length rdn"] by simp
  have d1: "drop (p + hdr (length C)) m = tlv 0x04 ent @ (tlv 0x04 rdn @ tlv 0x01 [word_of_int del] @ suf)"
    using step_in [OF d0] by (simp add: C_def)
  note d2 = step_over [OF d1]
  note d3 = step_over [OF d2]
  have n: "p + hdr (length C) + (hdr (length ent) + length ent) + (hdr (length rdn) + length rdn) + 3 =
      p + length (enc_request (ModDnRequest ent rdn del))"
    unfolding e length_tlv LC by simp
  show ?thesis
    by (simp add: decode_operation_def decode_moddn_def step_at [OF d0] step_find [OF d0 L] or_empty_text
        expect_ok [OF step_at [OF d1]] expect_ok [OF step_at [OF d2]] step_text [OF d1 fb(1)] step_text [OF d2 fb(2)]
        step_byte [OF d3 fb(3)] n del: enc_request.simps)
qed

lemma decode_delete_enc:
  assumes d: "drop p m = enc_request (DeleteRequest dn) @ suf" and f: "fits_request (DeleteRequest dn)"
  shows "decode_operation m p = Some (Inr (DeleteRequest dn, p + length (enc_request (DeleteRequest dn))))"
proof -
  have d0: "drop p m = tlv 0x4a dn @ suf" using d by simp
  show ?thesis using f
    by (simp add: decode_operation_def decode_delete_def step_at [OF d0] step_text [OF d0] or_empty_text length_tlv)
qed

lemma decode_extended_enc:
  assumes d: "drop p m = enc_request (ExtendedRequest name v) @ suf" and f: "fits_request (ExtendedRequest name v)"
    and l: "length (enc_request (ExtendedRequest name v)) < 2 ^ 24"
  shows "decode_operation m p = Some (Inr (ExtendedRequest name v, p + length (enc_request (ExtendedRequest name v))))"
proof -
  define B where "B = or_empty name"
  obtain b where b: "v = Some b" "b_data b \<noteq> []" "b_size b = ADJUST_SIZE (int (length (b_data b))) 131072"
    "b_room b = b_size b - 16" "int (length (b_data b)) \<le> b_room b" using f by auto
  define V where "V = b_data b"
  define C where "C = tlv 0x80 B @ tlv 0x81 V"
  have e: "enc_request (ExtendedRequest name v) = tlv 0x77 C" by (simp add: B_def C_def V_def b)
  have d0: "drop p m = tlv 0x77 C @ suf" using d e by simp
  have L: "length C < 2 ^ 24" "length V < 2 ^ 24"
    using l unfolding e length_tlv C_def length_append by linarith+
  have d1: "drop (p + hdr (length C)) m = tlv 0x80 B @ (tlv 0x81 V @ suf)"
    using step_in [OF d0] by (simp add: C_def)
  note d2 = step_over [OF d1]
  have fb: "length B < 1024" "(if B = [] then None else Some B) = name"
    using f text_option [of 1024 name] unfolding B_def by (auto simp: fits_text_def)
  have a: "ber_alloc_buffer None (int (length V)) = \<lparr>b_size = b_size b, b_room = b_room b, b_data = []\<rparr>"
    by (simp add: ber_alloc_buffer_def V_def b Let_def)
  have n: "p + hdr (length C) + (hdr (length B) + length B) + hdr (length V) + length V =
      p + length (enc_request (ExtendedRequest name v))"
    unfolding e length_tlv C_def length_append by simp
  have bb: "\<lparr>b_size = b_size b, b_room = b_room b, b_data = V\<rparr> = b" by (simp add: V_def)
  have "\<not> int (length V) > b_room b" "0 < int (length V)" using b by (simp_all add: V_def)
  then show ?thesis
    using step_text [OF d1 fb(1)] fb(2) step_copy [OF d2, of "Suc (length V)"]
    by (simp add: decode_operation_def decode_extended_def step_at [OF d0] step_find [OF d0 L(1)]
        step_at [OF d1] step_at [OF d2] step_find [OF d2 L(2)] a b(1) bb n [unfolded b(1), symmetric] del: enc_request.simps)
qed


lemma decode_operation_enc:
  assumes "drop p m = enc_request r @ suf" "fits_request r" "length (enc_request r) < 2 ^ 24"
  shows "decode_operation m p = Some (Inr (r, p + length (enc_request r)))"
  using assms decode_search_enc decode_modify_enc decode_add_enc decode_moddn_enc decode_delete_enc
    decode_extended_enc
  by (cases r) (blast | simp)+

text \<open>A message without controls, with the id as \<open>ber_tid_create\<close> writes it.\<close>

definition enc_message :: "int \<Rightarrow> request \<Rightarrow> bytes" where
  "enc_message mid r = tlv 0x30 ((case ber_tid_create mid of Some t \<Rightarrow> t | None \<Rightarrow> []) @ enc_request r)"

lemma decode_body_enc:
  assumes d: "drop q m = tid @ enc_request r @ suf" and t: "ber_tid_create mid = Some tid"
    and mid: "0 < mid" "mid < 2 ^ 24" and r: "fits_request r" "length (enc_request r) < 2 ^ 24"
  shows "decode_body m q = Some (Inr (mid, r, q + length tid + length (enc_request r)))"
proof -
  obtain n body where b: "tid = 0x02 # word_of_int (int n) # body" "length body = n" "0 < n" "n \<le> 4"
    "\<And>pre suf. read_id (pre @ body @ suf) 0 (length pre) n = Some mid"
    using tid_encoded [OF mid] t by auto
  have d1: "drop q m = 0x02 # word_of_int (int n) # body @ enc_request r @ suf" using d b(1) by simp
  then have q: "q \<le> length m" by (metis drop_all linear list.distinct(1))
  have d2: "drop (q + 2 + n) m = enc_request r @ suf"
  proof -
    have "drop (2 + n) (drop q m) = enc_request r @ suf" unfolding d1 by (simp add: b(2))
    then show ?thesis by (simp only: drop_drop ac_simps)
  qed
  have "m = (take q m @ [0x02, word_of_int (int n)]) @ body @ enc_request r @ suf"
    using d1 append_take_drop_id [of q m] by simp
  then have id: "read_id m 0 (q + 2) n = Some mid"
    using b(5) [of "take q m @ [0x02, word_of_int (int n)]" "enc_request r @ suf"] q by simp
  have a: "at m q = Some 0x02" using d1 by (simp add: at_drop [of m q])
  have "drop 1 (drop q m) = word_of_int (int n) # body @ enc_request r @ suf" unfolding d1 by simp
  then have a': "at m (Suc q) = Some (word_of_int (int n))" by (simp add: at_drop [of m "Suc q"])
  have s: "sint (word_of_int (int n) :: byte) = int n"
    using b(4) by (simp only: sint_sbintrunc') (simp add: signed_take_bit_int_eq_self)
  have o: "decode_operation m (q + 2 + n) = Some (Inr (r, q + 2 + n + length (enc_request r)))"
    by (rule decode_operation_enc [OF d2 r])
  have "nat (int q + 2 + int n) = q + 2 + n" by simp
  with o id a a' s b(2,3) show ?thesis
    by (simp add: decode_body_def b(1) del: of_nat_add)
qed

lemma decode_message:
  assumes r: "fits_request r" and mid: "0 < mid" "mid < 2 ^ 24"
    and len: "length (enc_message mid r) < 2 ^ 24" "int (length (enc_message mid r)) \<le> ber_len"
    and suf: "suf \<noteq> []" "hd suf \<noteq> 0xa0"
    and d: "drop p m = enc_message mid r @ suf"
  shows "ldap_decode_request True m p ber_len =
    Some (LDAP_RET_DATA_AVAILABLE, Some \<lparr>message_id = mid, alt = r, controls = []\<rparr>)"
proof -
  obtain tid where t: "ber_tid_create mid = Some tid" using tid_encoded [OF mid] by blast
  let ?C = "tid @ enc_request r"
  have e: "enc_message mid r = tlv 0x30 ?C" by (simp add: enc_message_def t)
  have d0: "drop p m = tlv 0x30 ?C @ suf" using d by (simp add: e)
  have L: "length ?C < 2 ^ 24" "length (enc_request r) < 2 ^ 24" "int (length ?C) \<le> ber_len"
    using len unfolding e length_tlv length_append by linarith+
  have b: "decode_body m (p + hdr (length ?C)) =
      Some (Inr (mid, r, p + hdr (length ?C) + length tid + length (enc_request r)))"
    using decode_body_enc [OF _ t mid r L(2)] step_in [OF d0] by simp
  have "at m (p + hdr (length ?C) + length tid + length (enc_request r)) = Some (hd suf)"
    using step_over [OF d0] suf(1) by (cases suf) (simp_all add: at_drop [of m "p + _"] add.assoc)
  then have "decode_controls m (p + hdr (length ?C) + length tid + length (enc_request r)) = Some []"
    using suf(2) by (simp add: decode_controls_def)
  with b show ?thesis
    using step_at [OF d0] step_find [OF d0 L(1)] L(3) by (simp add: ldap_decode_request_def)
qed


text \<open>
  C9. The decoder of the server inverts the encoding of RFC 4511 for a search, modify, add, delete,
  modify-DN (without a new superior) or extended request without controls under the conditions of
  \<open>fits_request\<close>: a DN of less than 1024 bytes, as the name of an extended request, names of attributes
  of less than 256 and values of less than 8192; scope, aliases, limits, flags and operations in
  \<open>-128..127\<close>, since the code reads one signed byte of each, whatever its length (a limit of two bytes is
  refused, \<open>long_limit_refused\<close>); a filter of the kind that \<open>LDAP_string_to_filter_encoded\<close> describes; an
  extended value that is not empty and that a new buffer holds. With an id below \<open>2 ^ 24\<close> in the form of
  \<open>ber_tid_create\<close> such a request of less than \<open>2 ^ 24\<close> bytes is decoded wherever it stands in the
  buffer to exactly itself, when it is within the announced length and the byte behind it, which the
  code reads without looking at that length, is not the tag \<open>0xa0\<close> of controls.
\<close>

theorem ldap_decode_request_encoded:
  assumes "fits_request r" "0 < mid" "mid < 2 ^ 24"
    "length (enc_message mid r) < 2 ^ 24" "int (length (enc_message mid r)) \<le> ber_len"
    "suf \<noteq> []" "hd suf \<noteq> 0xa0"
  shows "ldap_decode_request True (pre @ enc_message mid r @ suf) (length pre) ber_len =
    Some (LDAP_RET_DATA_AVAILABLE, Some \<lparr>message_id = mid, alt = r, controls = []\<rparr>)"
  by (rule decode_message [OF assms]) simp

theorem ldap_decode_request_encoded_witness:
  "ldap_decode_request True ([1, 2] @ enc_message 300
    (SearchReq \<lparr>base_object = Some (str ''o=x''), scope = 2, deref_aliases = 0,
      size_limit = 0, time_limit = 0, typesOnly = 0, search_filter = Some (FPRESENT (str ''cn'')),
      attributes = [str ''sn'']\<rparr>) @ [0]) (length [1, 2 :: byte]) 50 =
   Some (LDAP_RET_DATA_AVAILABLE, Some \<lparr>message_id = 300, alt =
     (SearchReq \<lparr>base_object = Some (str ''o=x''), scope = 2, deref_aliases = 0,
      size_limit = 0, time_limit = 0, typesOnly = 0, search_filter = Some (FPRESENT (str ''cn'')),
      attributes = [str ''sn'']\<rparr>), controls = []\<rparr>)"
proof (rule ldap_decode_request_encoded)
  show "fits_request (SearchReq \<lparr>base_object = Some (str ''o=x''), scope = 2, deref_aliases = 0,
      size_limit = 0, time_limit = 0, typesOnly = 0, search_filter = Some (FPRESENT (str ''cn'')),
      attributes = [str ''sn'']\<rparr>)"
    by (simp add: fits_text_def or_empty_def is_char_def)
  show "length (enc_message 300 (SearchReq \<lparr>base_object = Some (str ''o=x''), scope = 2, deref_aliases = 0,
      size_limit = 0, time_limit = 0, typesOnly = 0, search_filter = Some (FPRESENT (str ''cn'')),
      attributes = [str ''sn'']\<rparr>)) < 2 ^ 24"
    by (simp add: enc_message_def ber_tid_create_eq id_bytes_def length_tlv hdr_def len_octets_def
        INSERT_LENGTH_def or_empty_def Let_def)
  show "int (length (enc_message 300 (SearchReq \<lparr>base_object = Some (str ''o=x''), scope = 2, deref_aliases = 0,
      size_limit = 0, time_limit = 0, typesOnly = 0, search_filter = Some (FPRESENT (str ''cn'')),
      attributes = [str ''sn'']\<rparr>))) \<le> 50"
    by (simp add: enc_message_def ber_tid_create_eq id_bytes_def length_tlv hdr_def len_octets_def
        INSERT_LENGTH_def or_empty_def Let_def)
qed simp_all

subsection \<open>Requests that the decoder refuses or does not survive\<close>

text \<open>A size limit of 1000 has two bytes: of these the first is taken, and the second for the next tag.\<close>

lemma long_limit_refused:
  "ldap_decode_request True [0x30, 29, 0x02, 1, 7, 0x63, 24, 0x04, 0, 0x0a, 1, 2, 0x0a, 1, 0, 0x02, 2, 0x03, 0xe8,
     0x02, 1, 0, 0x01, 1, 0, 0x87, 2, 99, 110, 0x30, 0, 0] 0 31 = Some (LDAP_RET_ERR_DECODE, None)"
  "ldap_decode_request True [0x30, 28, 0x02, 1, 7, 0x63, 23, 0x04, 0, 0x0a, 1, 2, 0x0a, 1, 0, 0x02, 1, 0x03,
     0x02, 1, 0, 0x01, 1, 0, 0x87, 2, 99, 110, 0x30, 0, 0] 0 30 =
   Some (LDAP_RET_DATA_AVAILABLE, Some \<lparr>message_id = 7, alt = SearchReq \<lparr>base_object = None, scope = 2,
     deref_aliases = 0, size_limit = 3, time_limit = 0, typesOnly = 0, search_filter = Some (FPRESENT (str ''cn'')),
     attributes = []\<rparr>, controls = []\<rparr>)"
  by code_simp+

text \<open>The attribute selection of a search stops advancing at anything but an octet string.\<close>

lemma attributes_loop_stuck:
  "at m i = Some c \<Longrightarrow> c \<noteq> 0x04 \<Longrightarrow> 0 < ln \<Longrightarrow> attributes_loop m i ln = None"
  by (simp add: attributes_loop.simps)

text \<open>
  A controls list of one control leaves 2 of the count, so that the decoder scans on for another
  control behind the list, into the next message or off the buffer.
\<close>

lemma controls_loop_scan: "0x30 \<notin> set (drop i m) \<Longrightarrow> 0 < n \<Longrightarrow> controls_loop m i n = None"
proof (induction "length m - i" arbitrary: i rule: less_induct)
  case less
  show ?case
  proof (cases "i < length m")
    case True
    then have s: "set (drop (Suc i) m) \<subseteq> set (drop i m)" "m ! i \<in> set (drop i m)"
      by (simp_all add: Cons_nth_drop_Suc [symmetric] subset_insertI)
    have "controls_loop m (i + 1) n = None"
      by (rule less.hyps) (use less.prems s True in auto)
    with s less.prems True show ?thesis by (auto simp: controls_loop.simps [of m i] at_def)
  next
    case False
    then show ?thesis using less.prems by (simp add: controls_loop.simps [of m i] at_def)
  qed
qed

lemma controls_overrun:
  assumes d: "drop p m = tlv 0x30 c @ suf" and c: "length c < 128"
    and ctl: "decode_control m (p + 2) = Some (ctl, p + 2 + length c)" and suf: "0x30 \<notin> set suf"
  shows "controls_loop m p (int (length (tlv 0x30 c))) = None"
proof -
  have h: "hdr (length c) = 2" using c by (simp add: hdr_def len_octets_def INSERT_LENGTH_def)
  have f: "FIND_LENGTH m (Suc p) = Some (int (length c), p + 2)" using step_find [OF d] c h by simp
  have "drop (p + 2 + length c) m = suf" using step_over [OF d] h by (simp add: add.assoc)
  then have "controls_loop m (p + 2 + length c) 2 = None" using controls_loop_scan suf by simp
  then show ?thesis using step_at [OF d] f ctl h
    by (simp add: controls_loop.simps [of m p] length_tlv)
qed

text \<open>
  A new buffer is short of the header of the structure: what fills it to its size is written past
  the end of the allocation.
\<close>

lemma ber_alloc_short: "b_room (ber_alloc_buffer None len) = b_size (ber_alloc_buffer None len) - 16"
  by (simp add: ber_alloc_buffer_def Let_def)

lemma ber_alloc_overflow: "b_room (ber_alloc_buffer None 131072) < 131072"
  by (simp add: ber_alloc_buffer_def ADJUST_SIZE_def Let_def)

section \<open>What the decoder can return\<close>

definition decode_code :: "int + 'a \<Rightarrow> bool" where
  "decode_code r \<longleftrightarrow> (case r of Inl e \<Rightarrow> e = LDAP_RET_ERR_DECODE \<or> e = LDAP_RET_RECV_UNBIND | Inr _ \<Rightarrow> True)"

lemma decode_code_Inl [simp]: "decode_code (Inl e) \<longleftrightarrow> e = LDAP_RET_ERR_DECODE \<or> e = LDAP_RET_RECV_UNBIND"
  and decode_code_Inr [simp]: "decode_code (Inr x)"
  by (simp_all add: decode_code_def)

lemma decode_code_case [simp]:
  "decode_code (case r of Inl e \<Rightarrow> Inl e | Inr (q, k) \<Rightarrow> Inr (mid, q, k)) = decode_code r"
  by (auto simp: decode_code_def split: sum.splits)

lemma expect_code:
  "(\<And>j r. k j = Some r \<Longrightarrow> decode_code r) \<Longrightarrow> expect t m i k = Some r \<Longrightarrow> decode_code r"
  by (auto simp: expect_def bind_eq_Some_conv split: if_splits)

lemma byte_field_code:
  "(\<And>c j r. k c j = Some r \<Longrightarrow> decode_code r) \<Longrightarrow> byte_field t m i k = Some r \<Longrightarrow> decode_code r"
  unfolding byte_field_def by (erule expect_code [rotated]) (auto simp: bind_eq_Some_conv)

lemma bind_code:
  "(\<And>x r. k x = Some r \<Longrightarrow> decode_code r) \<Longrightarrow> Option.bind e k = Some r \<Longrightarrow> decode_code r"
  by (auto simp: bind_eq_Some_conv)

lemma decode_search_code: "decode_search m i = Some r \<Longrightarrow> decode_code r"
  unfolding decode_search_def
  by (erule bind_code [rotated] | erule expect_code [rotated] | erule byte_field_code [rotated] |
      clarsimp split: prod.splits)+

lemma decode_operation_code: "decode_operation m i = Some r \<Longrightarrow> decode_code r"
  unfolding decode_operation_def decode_extended_def decode_modify_def decode_add_def decode_moddn_def
    decode_delete_def
  by (auto simp: bind_eq_Some_conv byte_field_def expect_def Let_def decode_search_code split: if_splits)

lemma decode_body_code: "decode_body m i = Some r \<Longrightarrow> decode_code r"
  by (auto simp: decode_body_def bind_eq_Some_conv Let_def split: if_splits dest!: decode_operation_code)

lemma decode_request_code:
  "ldap_decode_request mem_ok m b l = Some (r, msg) \<Longrightarrow> (r = LDAP_RET_DATA_AVAILABLE \<and> (\<exists>x. msg = Some x)) \<or>
    ((r = LDAP_RET_RECV_UNBIND \<or> r = LDAP_RET_ERR_DECODE \<or> r = LDAP_RET_ERR_MEMORY \<and> \<not> mem_ok) \<and> msg = None)"
  by (auto simp: ldap_decode_request_def split: if_splits sum.splits Option.bind_splits prod.splits
      dest!: decode_body_code)

text \<open>
  What the decoder returns, if it returns, is one of four: a message with
  \<open>LDAP_RET_DATA_AVAILABLE\<close>, or no message with \<open>LDAP_RET_RECV_UNBIND\<close>, \<open>LDAP_RET_ERR_DECODE\<close> or,
  without memory only, \<open>LDAP_RET_ERR_MEMORY\<close>. It is \<open>LDAP_RET_ERR_DECODE\<close> whenever the sequence is
  longer than the caller knows it to be or does not start with the tag of a sequence.
\<close>

lemma ldap_decode_request_outcomes:
  assumes "ldap_decode_request mem_ok m body ber_len = Some (r, msg)"
  shows "(case msg of
      Some _ \<Rightarrow> mem_ok \<and> r = LDAP_RET_DATA_AVAILABLE
    | None \<Rightarrow> r = LDAP_RET_RECV_UNBIND \<or> r = LDAP_RET_ERR_DECODE \<or> r = LDAP_RET_ERR_MEMORY \<and> \<not> mem_ok) \<and>
    (at m body \<noteq> Some 0x30 \<or> (\<exists>len j. FIND_LENGTH m (body + 1) = Some (len, j) \<and> len > ber_len) \<longrightarrow>
      r = LDAP_RET_ERR_DECODE)"
proof -
  have "at m body \<noteq> Some 0x30 \<or> (\<exists>len j. FIND_LENGTH m (body + 1) = Some (len, j) \<and> len > ber_len) \<longrightarrow>
      r = LDAP_RET_ERR_DECODE"
    using assms by (auto simp: ldap_decode_request_def bind_eq_Some_conv split: if_splits)
  moreover have "msg \<noteq> None \<longrightarrow> mem_ok"
    using assms by (auto simp: ldap_decode_request_def bind_eq_Some_conv split: if_splits)
  ultimately show ?thesis using decode_request_code [OF assms] by (cases msg) auto
qed

end
