(* ===== verification/LdapGen.thy ===== *)
theory LdapGen
  imports LdapRequest
begin

text \<open>
  The response generators of libs/stacks/ldap/ldap_common.c. A generator sums the lengths of its
  parts from the last to the first, writing each header on the way, allocates a buffer for the
  sum and copies the parts into it in order. Lengths that \<open>INSERT_LENGTH\<close> cannot write and copies
  past the room of the buffer are \<open>None\<close>.
\<close>

section \<open>Generators\<close>

text \<open>A tag and the length octets of \<open>n\<close>, as in \<open>b[len++] = tag; INSERT_LENGTH(b, len, n)\<close>.\<close>

definition header :: "byte \<Rightarrow> nat \<Rightarrow> bytes option" where
  "header tag n = do { l \<leftarrow> INSERT_LENGTH (int n); Some (tag # l) }"

text \<open>\<open>COPY_TO_BER\<close> and the copies after it: \<open>tot\<close> bytes are asked for, \<open>data\<close> is written.\<close>

definition COPY_TO_BER :: "BER option \<Rightarrow> nat \<Rightarrow> bytes \<Rightarrow> BER option" where
  "COPY_TO_BER ber tot data =
     (let b = ber_alloc_buffer ber (int tot) in
      if int (length data) > b_room b then None else Some (b\<lparr>b_data := data\<rparr>))"

text \<open>\<open>mdn\<close> and \<open>emsg\<close> are C strings; \<open>NULL\<close> and the empty string are written alike.\<close>

definition gen_ldap_result ::
    "BER option \<Rightarrow> int \<Rightarrow> byte \<Rightarrow> int \<Rightarrow> bytes option \<Rightarrow> bytes option \<Rightarrow> BER option" where
  "gen_ldap_result ber mid protocol result mdn emsg = do {
     b_errorMsg \<leftarrow> header 0x04 (length (or_empty emsg));
     let tot = length b_errorMsg + length (or_empty emsg);
     b_matchDN \<leftarrow> header 0x04 (length (or_empty mdn));
     let tot = tot + length b_matchDN + length (or_empty mdn);
     h \<leftarrow> header 0x0a 1;
     let b_result = h @ [word_of_int result];
     let tot = tot + length b_result;
     b_ext \<leftarrow> header protocol tot;
     let tot = tot + length b_ext;
     b_msg \<leftarrow> ber_tid_create mid;
     let tot = tot + length b_msg;
     b_ldap \<leftarrow> header 0x30 tot;
     let tot = tot + length b_ldap;
     COPY_TO_BER ber tot (b_ldap @ b_msg @ b_ext @ b_result @ b_matchDN @ or_empty mdn @
       b_errorMsg @ or_empty emsg)
   }"

definition LDAP_gen_search_done :: "BER option \<Rightarrow> int \<Rightarrow> int \<Rightarrow> bytes option \<Rightarrow> bytes option \<Rightarrow> BER option" where
  "LDAP_gen_search_done ber mid result mdn emsg = gen_ldap_result ber mid 0x65 result mdn emsg"

definition LDAP_gen_modify_response :: "BER option \<Rightarrow> int \<Rightarrow> int \<Rightarrow> bytes option \<Rightarrow> bytes option \<Rightarrow> BER option" where
  "LDAP_gen_modify_response ber mid result mdn emsg = gen_ldap_result ber mid 0x67 result mdn emsg"

definition LDAP_gen_add_response :: "BER option \<Rightarrow> int \<Rightarrow> int \<Rightarrow> bytes option \<Rightarrow> bytes option \<Rightarrow> BER option" where
  "LDAP_gen_add_response ber mid result mdn emsg = gen_ldap_result ber mid 0x69 result mdn emsg"

definition LDAP_gen_delete_response :: "BER option \<Rightarrow> int \<Rightarrow> int \<Rightarrow> bytes option \<Rightarrow> bytes option \<Rightarrow> BER option" where
  "LDAP_gen_delete_response ber mid result mdn emsg = gen_ldap_result ber mid 0x6b result mdn emsg"

definition LDAP_gen_moddn_response :: "BER option \<Rightarrow> int \<Rightarrow> int \<Rightarrow> bytes option \<Rightarrow> bytes option \<Rightarrow> BER option" where
  "LDAP_gen_moddn_response ber mid result mdn emsg = gen_ldap_result ber mid 0x6d result mdn emsg"

text \<open>\<open>ext_attr\<close> is the value with its length \<open>elen\<close>.\<close>

definition LDAP_gen_extended_response ::
    "BER option \<Rightarrow> int \<Rightarrow> int \<Rightarrow> bytes option \<Rightarrow> bytes option \<Rightarrow> bytes option \<Rightarrow> bytes option \<Rightarrow> BER option" where
  "LDAP_gen_extended_response ber mid result mdn emsg oid ext_attr = do {
     let tot = length (or_empty ext_attr);
     b_attr \<leftarrow> (if or_empty ext_attr \<noteq> [] then header 0x30 tot else Some []);
     let tot = tot + length b_attr;
     b_attrall \<leftarrow> header 0x8b tot;
     let tot = tot + length b_attrall;
     b_oid \<leftarrow> header 0x8a (length (or_empty oid));
     let tot = tot + length b_oid + length (or_empty oid);
     b_errorMsg \<leftarrow> header 0x04 (length (or_empty emsg));
     let tot = tot + length b_errorMsg + length (or_empty emsg);
     b_matchDN \<leftarrow> header 0x04 (length (or_empty mdn));
     let tot = tot + length b_matchDN + length (or_empty mdn);
     h \<leftarrow> header 0x0a 1;
     let b_result = h @ [word_of_int result];
     let tot = tot + length b_result;
     b_ext \<leftarrow> header 0x78 tot;
     let tot = tot + length b_ext;
     b_msg \<leftarrow> ber_tid_create mid;
     let tot = tot + length b_msg;
     b_ldap \<leftarrow> header 0x30 tot;
     let tot = tot + length b_ldap;
     COPY_TO_BER ber tot (b_ldap @ b_msg @ b_ext @ b_result @ b_matchDN @ or_empty mdn @
       b_errorMsg @ or_empty emsg @ b_oid @ or_empty oid @ b_attrall @ b_attr @ or_empty ext_attr)
   }"

section \<open>What they generate\<close>

text \<open>A response of RFC 4511: the id and the operation with the result, the DN and the message.\<close>

definition enc_response :: "int \<Rightarrow> byte \<Rightarrow> bytes \<Rightarrow> bytes" where
  "enc_response mid op body = tlv 0x30 ((case ber_tid_create mid of Some t \<Rightarrow> t | None \<Rightarrow> []) @ tlv op body)"

definition enc_result :: "int \<Rightarrow> bytes option \<Rightarrow> bytes option \<Rightarrow> bytes" where
  "enc_result result mdn emsg = tlv 0x0a [word_of_int result] @ tlv 0x04 (or_empty mdn) @ tlv 0x04 (or_empty emsg)"

definition enc_extended_value :: "bytes option \<Rightarrow> bytes" where
  "enc_extended_value v = tlv 0x8b (if or_empty v = [] then [] else tlv 0x30 (or_empty v))"

lemma header_octets: "n < 2 ^ 24 \<Longrightarrow> header tag n = Some (tag # len_octets n)"
  by (simp add: header_def len_octets_def INSERT_LENGTH_eq)

lemma tlv_header: "(tag # len_octets (length c)) @ c @ r = tlv tag c @ r"
  by (simp add: tlv_def)

text \<open>The sizes that a new buffer holds: not within 16 bytes below a multiple of its block.\<close>

definition fits_buffer :: "nat \<Rightarrow> bool" where
  "fits_buffer n \<longleftrightarrow> 0 < int n mod 131072 \<and> int n mod 131072 \<le> 131056"

lemma COPY_TO_BER_new:
  assumes "fits_buffer (length data)"
  shows "\<exists>b. COPY_TO_BER None (length data) data = Some b \<and> b_data b = data \<and> int (length data) \<le> b_room b"
proof -
  let ?n = "int (length data)"
  have m: "0 < ?n mod 131072" "?n mod 131072 \<le> 131056"
    using assms by (simp_all only: fits_buffer_def)
  then have "ADJUST_SIZE ?n 131072 = ?n + (131072 - ?n mod 131072)" by (simp only: ADJUST_SIZE_def) simp
  then show ?thesis using m(2) unfolding COPY_TO_BER_def ber_alloc_buffer_def Let_def by simp
qed
lemma length_header: "length (tag # len_octets n) = hdr n"
  by (simp add: hdr_def)

lemma length_le_tlv: "length c \<le> length (tlv t c)"
  by (simp add: length_tlv)

lemma gen_ldap_result_enc:
  assumes mid: "0 < mid" "mid < 2 ^ 24"
    and e: "e = enc_response mid op (enc_result result mdn emsg)" "length e < 2 ^ 24" "fits_buffer (length e)"
  shows "\<exists>b. gen_ldap_result None mid op result mdn emsg = Some b \<and> b_data b = e"
proof -
  obtain tid where t: "ber_tid_create mid = Some tid" using tid_encoded [OF mid] by blast
  define M E where "M = or_empty mdn" and "E = or_empty emsg"
  define R where "R = enc_result result mdn emsg"
  have e': "e = tlv 0x30 (tid @ tlv op R)" by (simp add: e(1) enc_response_def t R_def)
  have R: "R = (0x0a # len_octets 1 @ [word_of_int result]) @ tlv 0x04 M @ tlv 0x04 E"
    by (simp add: R_def enc_result_def tlv_def M_def E_def)
  have LR: "length R = hdr (length E) + length E + hdr (length M) + length M + Suc (hdr 1)"
    by (simp add: R length_tlv hdr_def)
  have Le: "length e = hdr (hdr (length R) + length R + length tid) + (hdr (length R) + length R + length tid)"
    by (simp add: e' length_tlv add.commute)
  have b: "length E < 2 ^ 24" "length M < 2 ^ 24" "length R < 2 ^ 24" "hdr (length R) + length R + length tid < 2 ^ 24"
    using e(2) Le LR by linarith+
  have h: "header 0x04 (length E) = Some (0x04 # len_octets (length E))"
    "header 0x04 (length M) = Some (0x04 # len_octets (length M))"
    "header 0x0a 1 = Some (0x0a # len_octets 1)"
    "header op (length R) = Some (op # len_octets (length R))"
    "header 0x30 (hdr (length R) + length R + length tid) =
       Some (0x30 # len_octets (hdr (length R) + length R + length tid))"
    using b by (simp_all add: header_octets)
  have data: "(0x30 # len_octets (hdr (length R) + length R + length tid)) @ tid @ (op # len_octets (length R)) @
      ((0x0a # len_octets 1) @ [word_of_int result]) @ (0x04 # len_octets (length M)) @ M @
      (0x04 # len_octets (length E)) @ E = e"
    by (simp add: e' R tlv_def hdr_def add.commute add.left_commute)
  have "gen_ldap_result None mid op result mdn emsg = COPY_TO_BER None (length e) e"
  proof -
    have s1: "length (0x04 # len_octets (length E) :: bytes) + length E + length (0x04 # len_octets (length M) :: bytes) + length M +
        length ((0x0a # len_octets 1) @ [word_of_int result] :: bytes) = length R"
      by (simp add: LR hdr_def)
    have s2: "length R + length (op # len_octets (length R)) + length tid = hdr (length R) + length R + length tid"
      by (simp add: hdr_def)
    have s3: "hdr (length R) + length R + length tid +
        length ((0x30 :: byte) # len_octets (hdr (length R) + length R + length tid)) = length e"
      by (simp only: Le length_header add.commute)
    show ?thesis
      unfolding gen_ldap_result_def M_def [symmetric] E_def [symmetric] Let_def
      by (simp only: h t bind.bind_lunit s1 s2 s3 data)
  qed
  with COPY_TO_BER_new [OF e(3)] show ?thesis by auto
qed

lemma gen_extended_response_enc:
  assumes mid: "0 < mid" "mid < 2 ^ 24"
    and e: "e = enc_response mid 0x78 (enc_result result mdn emsg @ tlv 0x8a (or_empty oid) @ enc_extended_value v)"
    "length e < 2 ^ 24" "fits_buffer (length e)"
  shows "\<exists>b. LDAP_gen_extended_response None mid result mdn emsg oid v = Some b \<and> b_data b = e"
proof -
  obtain tid where t: "ber_tid_create mid = Some tid" using tid_encoded [OF mid] by blast
  define M E Oid V where "M = or_empty mdn" and "E = or_empty emsg" and "Oid = or_empty oid" and "V = or_empty v"
  define A where "A = (if V = [] then [] else 0x30 # len_octets (length V))"
  define R where "R = enc_result result mdn emsg @ tlv 0x8a Oid @ enc_extended_value v"
  have e': "e = tlv 0x30 (tid @ tlv 0x78 R)" by (simp add: e(1) enc_response_def t R_def Oid_def)
  have EV: "enc_extended_value v = (0x8b # len_octets (length V + length A)) @ A @ V"
    by (simp add: enc_extended_value_def V_def [symmetric] A_def tlv_def add.commute)
  have R: "R = (0x0a # len_octets 1 @ [word_of_int result]) @ tlv 0x04 M @ tlv 0x04 E @ tlv 0x8a Oid @ enc_extended_value v"
    by (simp add: R_def enc_result_def tlv_def M_def E_def)
  have LR: "length R = length V + length A + hdr (length V + length A) + (hdr (length Oid) + length Oid) +
      (hdr (length E) + length E) + (hdr (length M) + length M) + Suc (hdr 1)"
    by (simp add: R EV length_tlv hdr_def)
  define n where "n = length R + hdr (length R) + length tid"
  have Le: "length e = n + hdr n"
    by (simp add: e' length_tlv n_def add.commute add.left_commute)
  have b: "length E < 2 ^ 24" "length M < 2 ^ 24" "length Oid < 2 ^ 24" "length V + length A < 2 ^ 24"
    "length V < 2 ^ 24" "length R < 2 ^ 24" "n < 2 ^ 24"
    using e(2) Le LR n_def by linarith+
  have h: "header 0x04 (length E) = Some (0x04 # len_octets (length E))"
    "header 0x04 (length M) = Some (0x04 # len_octets (length M))"
    "header 0x8a (length Oid) = Some (0x8a # len_octets (length Oid))"
    "header 0x8b (length V + length A) = Some (0x8b # len_octets (length V + length A))"
    "header 0x0a 1 = Some (0x0a # len_octets 1)"
    "header 0x78 (length R) = Some (0x78 # len_octets (length R))"
    "header 0x30 n = Some (0x30 # len_octets n)"
    "(if V \<noteq> [] then header 0x30 (length V) else Some []) = Some A"
    using b by (simp_all add: header_octets A_def)
  have data: "(0x30 # len_octets n) @ tid @ (0x78 # len_octets (length R)) @
      ((0x0a # len_octets 1) @ [word_of_int result]) @ (0x04 # len_octets (length M)) @ M @
      (0x04 # len_octets (length E)) @ E @ (0x8a # len_octets (length Oid)) @ Oid @
      (0x8b # len_octets (length V + length A)) @ A @ V = e"
    by (simp add: e' R EV n_def tlv_def hdr_def add.commute add.left_commute)
  have s1: "length V + length A + length ((0x8b :: byte) # len_octets (length V + length A)) +
      length ((0x8a :: byte) # len_octets (length Oid)) + length Oid +
      length ((0x04 :: byte) # len_octets (length E)) + length E +
      length ((0x04 :: byte) # len_octets (length M)) + length M +
      length ((0x0a # len_octets 1) @ [word_of_int result :: byte]) = length R"
    by (simp add: LR hdr_def)
  have s2: "length R + length ((0x78 :: byte) # len_octets (length R)) + length tid = n"
    by (simp add: hdr_def n_def)
  have s3: "n + length ((0x30 :: byte) # len_octets n) = length e"
    by (simp only: Le length_header)
  have "LDAP_gen_extended_response None mid result mdn emsg oid v = COPY_TO_BER None (length e) e"
    unfolding LDAP_gen_extended_response_def M_def [symmetric] E_def [symmetric] Oid_def [symmetric]
      V_def [symmetric] Let_def
    by (simp only: h t bind.bind_lunit s1 s2 s3 data)
  with COPY_TO_BER_new [OF e(3)] show ?thesis by auto
qed

text \<open>
  C33. Each response generator writes exactly the response of RFC 4511: the message id, the
  operation's own tag, the result code, the matched DN and the diagnostic message, for ids and
  sizes below \<open>2 ^ 24\<close> that its buffer holds; the extended response adds the name and the value.
\<close>

theorem LDAP_gen_responses_encoded:
  assumes "0 < mid" "mid < 2 ^ 24" "length e < 2 ^ 24" "fits_buffer (length e)"
  shows "((gen, op) \<in> {(LDAP_gen_search_done, 0x65), (LDAP_gen_modify_response, 0x67), (LDAP_gen_add_response, 0x69),
      (LDAP_gen_delete_response, 0x6b), (LDAP_gen_moddn_response, 0x6d)} \<and>
      e = enc_response mid op (enc_result result mdn emsg) \<longrightarrow>
        (\<exists>b. gen None mid result mdn emsg = Some b \<and> b_data b = e)) \<and>
    (e = enc_response mid 0x78 (enc_result result mdn emsg @ tlv 0x8a (or_empty oid) @ enc_extended_value v) \<longrightarrow>
        (\<exists>b. LDAP_gen_extended_response None mid result mdn emsg oid v = Some b \<and> b_data b = e))"
  using gen_ldap_result_enc [OF assms(1,2) _ assms(3,4)] gen_extended_response_enc [OF assms(1,2) _ assms(3,4)]
  by (auto simp: LDAP_gen_search_done_def LDAP_gen_modify_response_def LDAP_gen_add_response_def
      LDAP_gen_delete_response_def LDAP_gen_moddn_response_def)

theorem LDAP_gen_responses_encoded_witness:
  "\<exists>b. LDAP_gen_search_done None 7 0 None (Some (str ''ok'')) = Some b \<and>
     b_data b = [0x30, 14, 0x02, 1, 7, 0x65, 9, 0x0a, 1, 0, 0x04, 0, 0x04, 2, 111, 107]"
proof -
  let ?e = "enc_response 7 0x65 (enc_result 0 None (Some (str ''ok'')))"
  have e: "?e = [0x30, 14, 0x02, 1, 7, 0x65, 9, 0x0a, 1, 0, 0x04, 0, 0x04, 2, 111, 107]"
    by (simp add: enc_response_def enc_result_def tlv_def len_octets_def INSERT_LENGTH_def or_empty_def
        ber_tid_create_eq id_bytes_def Let_def)
  have "length ?e < 2 ^ 24" "fits_buffer (length ?e)" unfolding e by (simp_all add: fits_buffer_def)
  from LDAP_gen_responses_encoded [OF _ _ this, where gen = LDAP_gen_search_done and op = "0x65" and result = 0
      and mdn = None and emsg = "Some (str ''ok'')", THEN conjunct1]
  have "\<exists>b. LDAP_gen_search_done None 7 0 None (Some (str ''ok'')) = Some b \<and> b_data b = ?e" by simp
  with e show ?thesis by (simp only:)
qed

end
