(* ===== verification/LdapBind.thy ===== *)
theory LdapBind
  imports LdapGen Rauthen
begin

text \<open>
  The data of the directory server (ldap.h) and the bind handshake of
  libs/stacks/ldap/ldap_common.c, on both sides: the client sends its name and password, the
  server looks them up in its users and answers, the client reads the answer.

  A C string is the bytes before its NUL. What \<open>recv\<close> did not store into a buffer is not
  readable: \<open>None\<close>, as every access out of bounds.
\<close>

abbreviation (input) LDAP_RET_ERR_UNKNOWN :: int where "LDAP_RET_ERR_UNKNOWN \<equiv> -1000"
abbreviation (input) LDAP_RET_ERR_PARAMETER :: int where "LDAP_RET_ERR_PARAMETER \<equiv> -999"
abbreviation (input) LDAP_RET_ERR_CONNECT :: int where "LDAP_RET_ERR_CONNECT \<equiv> -998"
abbreviation (input) LDAP_RET_ERR_MAX_SESSION :: int where "LDAP_RET_ERR_MAX_SESSION \<equiv> -997"
abbreviation (input) LDAP_RET_ERR_LDAPVERSION :: int where "LDAP_RET_ERR_LDAPVERSION \<equiv> -996"
abbreviation (input) LDAP_RET_ERR_AUTHEN_METHOD :: int where "LDAP_RET_ERR_AUTHEN_METHOD \<equiv> -995"
abbreviation (input) LDAP_RET_ERR_AUTHEN :: int where "LDAP_RET_ERR_AUTHEN \<equiv> -994"
abbreviation (input) LDAP_RET_ERR_IDLE_TIMEOUT :: int where "LDAP_RET_ERR_IDLE_TIMEOUT \<equiv> -993"
abbreviation (input) LDAP_RET_ERR_UNAVAILABLE :: int where "LDAP_RET_ERR_UNAVAILABLE \<equiv> -992"
abbreviation (input) LDAP_RET_ERR_SEND :: int where "LDAP_RET_ERR_SEND \<equiv> -990"
abbreviation (input) LDAP_RET_ERR_UNEXPECTED_RECEIVE :: int where "LDAP_RET_ERR_UNEXPECTED_RECEIVE \<equiv> -985"
abbreviation (input) LDAP_RET_ERR_CLOSED :: int where "LDAP_RET_ERR_CLOSED \<equiv> -984"
abbreviation (input) LDAP_RET_WAIT_MORE_DATA :: int where "LDAP_RET_WAIT_MORE_DATA \<equiv> 2"
abbreviation (input) LDAP_RET_KEEPALIVE :: int where "LDAP_RET_KEEPALIVE \<equiv> 3"
abbreviation (input) LDAP_RET_READY :: int where "LDAP_RET_READY \<equiv> 5"
abbreviation (input) LDAP_RET_SENT :: int where "LDAP_RET_SENT \<equiv> 6"
abbreviation (input) LDAP_RET_SENT_FRAGMENT :: int where "LDAP_RET_SENT_FRAGMENT \<equiv> 7"

abbreviation (input) LDAP_SERV_STATE_OPEN :: int where "LDAP_SERV_STATE_OPEN \<equiv> 0"
abbreviation (input) LDAP_SERV_STATE_READY :: int where "LDAP_SERV_STATE_READY \<equiv> 1"

abbreviation (input) LDAP_RESULT_SUCCESS :: int where "LDAP_RESULT_SUCCESS \<equiv> 0"
abbreviation (input) LDAP_RESULT_AUTH_METHOD_NOT_SUPPORTED :: int
  where "LDAP_RESULT_AUTH_METHOD_NOT_SUPPORTED \<equiv> 7"
abbreviation (input) LDAP_RESULT_INAPPROPRIATE_AUTHENTICATION :: int
  where "LDAP_RESULT_INAPPROPRIATE_AUTHENTICATION \<equiv> 48"
abbreviation (input) LDAP_RESULT_INVALID_CREDENTIALS :: int where "LDAP_RESULT_INVALID_CREDENTIALS \<equiv> 49"

section \<open>Data\<close>

record DSUSER =
  u_name :: bytes
  u_password :: bytes

text \<open>
  A session. \<open>l_w_buffer\<close> holds the bytes before \<open>w_len\<close>, so that \<open>w_len\<close> is its length;
  \<open>l_r_buffer\<close> holds all bytes that are allocated, \<open>r_size\<close> in number, of which the first
  \<open>l_r_len\<close> were received. \<open>l_rdata\<close> is the queue of decoded messages, \<open>l_timestamp_write\<close> a
  time in seconds and microseconds.
\<close>

record DSSESSION =
  l_version :: "32 word"
  l_no :: int
  l_sock :: int
  l_remote_ip :: bytes
  l_remote_port :: "16 word"
  l_user :: DSUSER
  l_state :: int
  l_concurrent_count :: int
  l_w_buffer :: "bytes option"
  l_w_size :: int
  l_w_curr :: int
  l_r_buffer :: "bytes option"
  l_r_len :: int
  l_r_ber_body :: int
  l_r_ber_body_length :: int
  l_rdata :: "LDAPMessage list"
  l_read_time :: int
  l_write_time :: int
  l_active_time :: int
  l_error_response :: int
  l_timestamp_write :: "int \<times> int"
  l_recv_count :: "64 word"
  l_write_count :: "64 word"

record DS_t =
  ds_version :: "32 word"
  ds_baseDN :: bytes
  ds_user_list :: "DSUSER list"
  ds_port :: int
  ds_listen_sock :: int
  ds_backlog :: int
  ds_max_session :: int
  ds_max_concurrent :: int
  ds_session :: "nat \<Rightarrow> DSSESSION"
  ds_session_count :: int
  ds_last_session :: int
  ds_recv_msg_count :: "64 word"
  ds_sent_msg_count :: "64 word"
  ds_error_msg_count :: "64 word"
  ds_busy_msg_count :: "64 word"
  ds_max_response_time :: "64 word"
  ds_avg_response_time :: "64 word"
  ds_min_response_time :: "64 word"
  ds_total_response_time :: "64 word"
  ds_read_timeout :: int
  ds_write_timeout :: int
  ds_idle_timeout :: int
  ds_max_w_len :: int

section \<open>The client's request\<close>

text \<open>
  The loop over the four bytes of the id writes those that are positive as a signed \<open>char\<close>.
\<close>

definition positive_bytes :: "int \<Rightarrow> bytes" where
  "positive_bytes tid = filter (\<lambda>b. 0 <s b)
     [word_of_int (tid div 2 ^ 24), word_of_int (tid div 2 ^ 16), word_of_int (tid div 2 ^ 8), word_of_int tid]"

text \<open>
  \<open>ldap_send_bind_rqt\<close> on the fields \<open>tid\<close>, \<open>username\<close> and \<open>password\<close> of the client: the return
  value, the new \<open>tid\<close> and the bytes given to \<open>send\<close>, whose result is a parameter. The lengths are
  of type \<open>char\<close>; the request is built in an array of 128 bytes.
\<close>

definition bind_rqt :: "int \<Rightarrow> bytes \<Rightarrow> bytes \<Rightarrow> bytes" where
  "bind_rqt tid user pass =
     (let ids = positive_bytes tid;
          op = [0x02, 0x01, 0x03, 0x04, of_nat (length user)] @ user @ [0x80, of_nat (length pass)] @ pass;
          msg = [0x02, of_nat (length ids)] @ ids @ [0x60, of_nat (length op)] @ op
      in [0x30, of_nat (length msg)] @ msg)"

definition ldap_send_bind_rqt :: "(bytes \<Rightarrow> int) \<Rightarrow> int \<Rightarrow> bytes \<Rightarrow> bytes \<Rightarrow> (int \<times> int \<times> bytes) option" where
  "ldap_send_bind_rqt send tid user pass = do {
     tid \<leftarrow> tid_increment tid;
     if length user > 127 \<or> length pass > 127 then None
     else
       let b_bind = bind_rqt tid user pass in
       if length b_bind > 128 then None
       else Some (if send b_bind \<le> 0 then -1 else LDAP_RET_OK, tid, b_bind)
   }"

section \<open>The server\<close>

text \<open>A \<open>char\<close> that is used as a length: a negative one becomes a huge unsigned number.\<close>

definition length_byte :: "bytes \<Rightarrow> nat \<Rightarrow> nat option" where
  "length_byte m i = do { c \<leftarrow> at m i; if 0 \<le> sint c then Some (nat (sint c)) else None }"

text \<open>The loop over the users; an empty list is dereferenced.\<close>

definition authenticated :: "DSUSER list \<Rightarrow> bytes \<Rightarrow> bytes \<Rightarrow> bool option" where
  "authenticated users name pass =
     (if users = [] then None else Some (list_ex (\<lambda>u. cstr name = u_name u \<and> cstr pass = u_password u) users))"

text \<open>
  \<open>bs\<close> is what \<open>recv\<close> stored, \<open>r\<close> its result. The function stores the message and the user into
  the session as far as it gets. Where \<open>mem_ok\<close> is false \<open>SDF_MALLOC\<close> has no memory.
\<close>

definition recv_bind_user :: "DSUSER list \<Rightarrow> bytes \<Rightarrow> nat \<Rightarrow> DSSESSION \<Rightarrow> (int \<times> DSSESSION) option" where
  "recv_bind_user users buff i sess = do {
     c \<leftarrow> at buff i;
     if c = 0x04 then do {
       len \<leftarrow> length_byte buff (i + 1);
       name \<leftarrow> copy_field 256 buff (i + 2) len;
       let sess = sess\<lparr>l_user := (l_user sess)\<lparr>u_name := name\<rparr>\<rparr>;
       let i = i + 2 + len;
       c \<leftarrow> at buff i;
       if c = 0x80 then do {
         len \<leftarrow> length_byte buff (i + 1);
         pass \<leftarrow> copy_field 256 buff (i + 2) len;
         let sess = sess\<lparr>l_user := (l_user sess)\<lparr>u_password := pass\<rparr>\<rparr>;
         a \<leftarrow> authenticated users name pass;
         Some (if a then LDAP_RET_OK else LDAP_RET_ERR_AUTHEN, sess)
       }
       else Some (LDAP_RET_ERR_AUTHEN_METHOD, sess)
     }
     else Some (-1, sess)
   }"

definition ldap_recv_bind_rqt ::
    "bool \<Rightarrow> int \<Rightarrow> bytes \<Rightarrow> DSUSER list \<Rightarrow> DSSESSION \<Rightarrow> (int \<times> DSSESSION) option" where
  "ldap_recv_bind_rqt mem_ok r buff users sess =
     (if r < 0 then Some (-1, sess)
      else if r = 0 then Some (-1, sess)
      else do {
        c0 \<leftarrow> at buff 0;
        if c0 \<noteq> 0x30 then Some (-1, sess) else do {
        c2 \<leftarrow> at buff 2;
        if c2 \<noteq> 0x02 then Some (-1, sess)
        else if \<not> mem_ok then Some (LDAP_RET_ERR_MEMORY, sess\<lparr>l_rdata := []\<rparr>) else do {
        msg_id_len \<leftarrow> length_byte buff 3;
        msg_id \<leftarrow> read_id buff 0 4 msg_id_len;
        let sess = sess\<lparr>l_rdata := [\<lparr>message_id = msg_id, alt = BindRequest 0, controls = []\<rparr>]\<rparr>;
        let i = 4 + msg_id_len;
        c \<leftarrow> at buff i;
        if c \<noteq> 0x60 then Some (-1, sess) else do {
        v \<leftarrow> at buff (i + 4);
        if v \<noteq> 3 then Some (LDAP_RET_ERR_LDAPVERSION, sess)
        else recv_bind_user users buff (i + 5)
          (sess\<lparr>l_rdata := [\<lparr>message_id = msg_id, alt = BindRequest 3, controls = []\<rparr>]\<rparr>)
        } } }
      })"

definition id_octets :: "int \<Rightarrow> nat" where
  "id_octets mid = (if mid < 0x100 then 1 else if mid < 0x10000 then 2 else if mid < 0x1000000 then 3 else 4)"

definition bind_resp :: "int \<Rightarrow> int \<Rightarrow> bytes" where
  "bind_resp mid result =
     (let ids = big_endian mid (id_octets mid);
          msg = [0x02, of_nat (length ids)] @ ids @
            [0x61, 0x07, 0x0A, 0x01, word_of_int result, 0x04, 0x00, 0x04, 0x00]
      in [0x30, of_nat (length msg)] @ msg)"

text \<open>The message that holds the id is freed; the result has the bytes given to \<open>send\<close>.\<close>

definition ldap_send_bind_resp :: "(bytes \<Rightarrow> int) \<Rightarrow> int \<Rightarrow> DSSESSION \<Rightarrow> int \<times> DSSESSION \<times> bytes" where
  "ldap_send_bind_resp send result sess =
     (case l_rdata sess of
        [] \<Rightarrow> (LDAP_RET_ERR_PARAMETER, sess, [])
      | msg # _ \<Rightarrow>
          let b_bind = bind_resp (message_id msg) result; sess = sess\<lparr>l_rdata := []\<rparr> in
          (if send b_bind \<le> 0 then -1 else LDAP_RET_OK, sess, b_bind))"

section \<open>The client's reading of the answer\<close>

definition ldap_recv_bind_resp :: "int \<Rightarrow> bytes \<Rightarrow> int option" where
  "ldap_recv_bind_resp r buff =
     (if r < 0 then Some (-1)
      else if r = 0 then Some (-1)
      else do {
        c0 \<leftarrow> at buff 0;
        if c0 \<noteq> 0x30 then Some (-1) else do {
        c2 \<leftarrow> at buff 2;
        if c2 \<noteq> 0x02 then Some (-1) else do {
        msg_id_len \<leftarrow> length_byte buff 3;
        _ \<leftarrow> read_id buff 0 4 msg_id_len;
        let i = 4 + msg_id_len;
        c \<leftarrow> at buff i;
        if c \<noteq> 0x61 then Some (-1) else do {
        c \<leftarrow> at buff (i + 2);
        if c \<noteq> 0x0A then Some (-1) else do {
        c \<leftarrow> at buff (i + 4);
        Some (if c = 0x00 then LDAP_RET_OK else -1)
        } } } }
      })"
section \<open>The handshake\<close>

lemma read_id_small:
  "\<forall>b \<in> set bs. uint b < 128 \<Longrightarrow> length bs \<le> 4 \<Longrightarrow>
   \<exists>v. read_id (pre @ bs @ suf) acc (length pre) (length bs) = Some (acc + v) \<and> 0 \<le> v \<and>
     v < (if bs = [] then 1 else 128 * 256 ^ (length bs - 1))"
proof (induction bs arbitrary: pre acc)
  case (Cons b bs)
  let ?n = "length bs" and ?w = "uint b * 256 ^ length bs"
  obtain v where v: "read_id ((pre @ [b]) @ bs @ suf) (acc + ?w) (length (pre @ [b])) ?n = Some (acc + ?w + v)"
    "0 \<le> v" "v < (if bs = [] then 1 else 128 * 256 ^ (length bs - 1))"
    using Cons.IH [of "pre @ [b]" "acc + ?w"] Cons.prems by auto
  have "v < 256 ^ ?n"
  proof (cases bs)
    case (Cons c cs)
    have *: "(128 :: int) * 256 ^ length cs \<le> 256 * 256 ^ length cs" by (intro mult_right_mono) auto
    with v(3) Cons have "v < 128 * 256 ^ length cs" by simp
    with * show ?thesis unfolding Cons length_Cons power_Suc by linarith
  qed (use v(3) in simp)
  moreover have "?w \<le> 127 * 256 ^ ?n" using Cons.prems(1) by simp
  ultimately have b: "?w + v < 128 * 256 ^ ?n" by linarith
  have n: "?n \<le> 3" using Cons.prems(2) by simp
  then have "(256 :: int) ^ ?n \<le> 256 ^ 3" by (intro power_increasing) auto
  with b v(2) have "?w < 2 ^ 31" by simp
  then have "read_id (pre @ (b # bs) @ suf) acc (length pre) (length (b # bs)) = Some (acc + (?w + v))"
    using v(1) n by (simp add: at_mid pow8 add.assoc)
  moreover have "0 \<le> ?w + v" using v(2) by simp
  ultimately show ?case using b by fastforce
qed simp

lemma sint_byte: "sint (b :: byte) = (uint b + 128) mod 256 - 128"
  by (simp add: sint_uint signed_take_bit_eq_take_bit_shift take_bit_eq_mod)

lemma sint_small: "uint (b :: byte) < 128 \<Longrightarrow> sint b = uint b"
  using sint_byte [of b] by simp

lemma uint_byte_range: "0 \<le> uint (b :: byte) \<and> uint b < 256"
  using uint_bounded [of b] by simp

lemma filter_four: "length (filter P [a, b, c, d]) \<le> 4"
  using length_filter_le [of P "[a, b, c, d]"] by simp

lemma filter_holds: "x \<in> set (filter P xs) \<Longrightarrow> P x"
  by simp

lemma positive_bytes_props: "length (positive_bytes t) \<le> 4" "b \<in> set (positive_bytes t) \<Longrightarrow> uint b < 128"
proof -
  show "length (positive_bytes t) \<le> 4"
    unfolding positive_bytes_def by (rule filter_four)
  assume "b \<in> set (positive_bytes t)"
  then have "0 <s b" unfolding positive_bytes_def by (rule filter_holds)
  then have "0 < sint b" by (simp add: word_sless_alt)
  show "uint b < 128"
  proof (rule ccontr)
    assume "\<not> ?thesis"
    then have "(uint b - 128) mod 256 = uint b - 128" using uint_byte_range [of b] by simp
    moreover have "(uint b + 128) mod 256 = (uint b - 128) mod 256"
      using minus_mod_self2 [of "uint b + 128" 256] by simp
    ultimately have "sint b = uint b - 256" using sint_byte [of b] by simp
    with \<open>0 < sint b\<close> uint_byte_range [of b] show False by simp
  qed
qed

lemma at_skip: "length xs = n \<Longrightarrow> at (xs @ ys) (n + k) = at ys k"
  using at_append_right by blast

lemma length_byte_at: "at m i = Some (of_nat n) \<Longrightarrow> n < 128 \<Longrightarrow> length_byte m i = Some n"
proof -
  assume a: "at m i = Some (of_nat n)" "n < 128"
  then have "uint (of_nat n :: byte) = int n" by (simp add: uint_nat unat_of_nat take_bit_nat_eq_self)
  then have "sint (of_nat n :: byte) = int n" using a(2) sint_small by simp
  with a show ?thesis by (simp add: length_byte_def)
qed

text \<open>What the server makes of the client's request.\<close>

definition user_known :: "DSUSER list \<Rightarrow> bytes \<Rightarrow> bytes \<Rightarrow> bool" where
  "user_known users name pass \<longleftrightarrow> (\<exists>u \<in> set users. u_name u = name \<and> u_password u = pass)"

lemma recv_bind_user_rqt:
  assumes "drop i buff = [0x04, of_nat (length user)] @ user @ [0x80, of_nat (length pass)] @ pass"
    and "length user < 128" "length pass < 128" "0 \<notin> set user" "0 \<notin> set pass" "users \<noteq> []"
  shows "recv_bind_user users buff i sess =
    Some (if user_known users user pass then LDAP_RET_OK else LDAP_RET_ERR_AUTHEN,
      sess\<lparr>l_user := (l_user sess)\<lparr>u_name := user, u_password := pass\<rparr>\<rparr>)"
proof -
  let ?d = "[0x04, of_nat (length user)] @ user @ [0x80, of_nat (length pass)] @ pass"
  have at: "at buff (i + k) = at ?d k" for k
    using assms(1) by (metis add.commute at_drop drop_drop)
  have cp: "copy_field 256 buff (i + k) n = copy_field 256 ?d k n" if "k \<le> length ?d" for k n
  proof -
    have "length buff = i + length ?d" using arg_cong [OF assms(1), of length] by simp
    moreover have "drop (i + k) buff = drop k ?d" using assms(1) by (metis add.commute drop_drop)
    ultimately show ?thesis by (simp add: copy_field_def)
  qed
  have 1: "at buff i = Some 0x04" using at [of 0] by simp
  have 2: "length_byte buff (i + 1) = Some (length user)"
    using at [of 1] assms(2) by (intro length_byte_at) simp_all
  have 3: "copy_field 256 buff (i + 2) (length user) = Some user"
    using assms(2) by (subst cp) (simp_all add: copy_field_def)
  have 4: "at buff (i + 2 + length user) = Some 0x80"
    using at [of "2 + length user"] by (simp add: add.assoc at_mid)
  have 5: "length_byte buff (i + 2 + length user + 1) = Some (length pass)"
    using at [of "2 + length user + 1"] assms(3) at_skip [of user "length user" "[0x80, of_nat (length pass)] @ pass" 1]
    by (intro length_byte_at) (simp_all add: add.assoc)
  have 6: "copy_field 256 buff (i + 2 + length user + 2) (length pass) = Some pass"
    using cp [of "2 + length user + 2" "length pass"] assms(3) by (simp add: copy_field_def add.assoc)
  have 7: "authenticated users user pass = Some (user_known users user pass)"
    using assms(4-6) by (auto simp: authenticated_def user_known_def list_ex_iff cstr_id)
  show ?thesis
    using 1 2 3 4 5 6 7 by (simp add: recv_bind_user_def)
qed


lemma length_bind_rqt:
  "length (bind_rqt t user pass) = length (positive_bytes t) + length user + length pass + 13"
  by (simp add: bind_rqt_def Let_def)

text \<open>The id that the server reads, and what it answers.\<close>

lemma recv_bind_rqt:
  assumes "length (bind_rqt t user pass) \<le> 128" "0 \<notin> set user" "0 \<notin> set pass" "users \<noteq> []" "0 < r"
  shows "\<exists>mid. 0 \<le> mid \<and> mid < 2 ^ 31 \<and>
    ldap_recv_bind_rqt True r (bind_rqt t user pass) users sess =
      Some (if user_known users user pass then LDAP_RET_OK else LDAP_RET_ERR_AUTHEN,
        sess\<lparr>l_rdata := [\<lparr>message_id = mid, alt = BindRequest 3, controls = []\<rparr>],
          l_user := \<lparr>u_name = user, u_password = pass\<rparr>\<rparr>)"
proof -
  define ids where "ids = positive_bytes t"
  define us where "us = [0x04, of_nat (length user)] @ user @ [0x80, of_nat (length pass)] @ pass"
  define b where "b = bind_rqt t user pass"
  have n: "length ids \<le> 4" "\<forall>b \<in> set ids. uint b < 128"
    unfolding ids_def using positive_bytes_props by blast+
  obtain x y where b: "b = [0x30, x, 0x02, of_nat (length ids)] @ ids @ [0x60, y, 0x02, 0x01, 0x03] @ us"
    by (simp add: b_def bind_rqt_def Let_def ids_def us_def)
  obtain mid where mid: "read_id b 0 4 (length ids) = Some mid" "0 \<le> mid"
      "mid < (if ids = [] then 1 else 128 * 256 ^ (length ids - 1))"
    using read_id_small [OF n(2,1), of "[0x30, x, 0x02, of_nat (length ids)]" "[0x60, y, 0x02, 0x01, 0x03] @ us" 0]
    by (auto simp: b eval_nat_numeral)
  have "mid < 2 ^ 31"
  proof (cases "ids = []")
    case False
    have "length ids - 1 \<le> 3" using n(1) by simp
    then have "(256 :: int) ^ (length ids - 1) \<le> 256 ^ 3" by (intro power_increasing) auto
    with mid(3) False show ?thesis by simp
  qed (use mid(3) in simp)
  have l: "length_byte b 3 = Some (length ids)" using n(1) by (intro length_byte_at) (simp_all add: b)
  have at: "at b (4 + length ids + k) = at ([0x60, y, 0x02, 0x01, 0x03] @ us) k" for k
    using at_skip [of "[0x30, x, 0x02, of_nat (length ids)] @ ids" "4 + length ids"
        "[0x60, y, 0x02, 0x01, 0x03] @ us" k] by (simp add: b)
  have d: "drop (4 + length ids + 5) b = us" by (simp add: b eval_nat_numeral)
  have len: "length user < 128" "length pass < 128" using assms(1) length_bind_rqt [of t user pass] by simp_all
  have "recv_bind_user users b (4 + length ids + 5) s =
      Some (if user_known users user pass then LDAP_RET_OK else LDAP_RET_ERR_AUTHEN,
        s\<lparr>l_user := (l_user s)\<lparr>u_name := user, u_password := pass\<rparr>\<rparr>)" for s
    by (rule recv_bind_user_rqt [OF _ len assms(2-4)]) (use d in \<open>simp add: us_def\<close>)
  moreover have "at b (4 + length ids) = Some 0x60" "at b (4 + length ids + 4) = Some 3"
    using at [of 0] at [of 4] by simp_all
  moreover have "at b 0 = Some 0x30" "at b 2 = Some 0x02" by (simp_all add: b)
  moreover have "(l_user s)\<lparr>u_name := user, u_password := pass\<rparr> = \<lparr>u_name = user, u_password = pass\<rparr>" for s
    by (cases "l_user s") simp
  ultimately have "ldap_recv_bind_rqt True r b users sess =
      Some (if user_known users user pass then LDAP_RET_OK else LDAP_RET_ERR_AUTHEN,
        sess\<lparr>l_rdata := [\<lparr>message_id = mid, alt = BindRequest 3, controls = []\<rparr>],
          l_user := \<lparr>u_name = user, u_password = pass\<rparr>\<rparr>)"
    using assms(5) l mid(1) by (simp add: ldap_recv_bind_rqt_def)
  with mid(2) \<open>mid < 2 ^ 31\<close> show ?thesis unfolding b_def by blast
qed

lemma recv_bind_resp:
  assumes "0 \<le> mid" "mid < 2 ^ 31" "0 \<le> rc" "rc < 256" "0 < r"
  shows "ldap_recv_bind_resp r (bind_resp mid rc) = Some (if rc = 0 then LDAP_RET_OK else -1)"
proof -
  define n where "n = id_octets mid"
  define b where "b = bind_resp mid rc"
  have n: "n \<le> 4" "mid < 256 ^ n" using assms(2) by (auto simp: n_def id_octets_def)
  obtain x where b: "b = [0x30, x, 0x02, of_nat n] @ big_endian mid n @
      [0x61, 0x07, 0x0A, 0x01, word_of_int rc, 0x04, 0x00, 0x04, 0x00]"
    by (simp add: b_def bind_resp_def Let_def n_def)
  have "mid mod 256 ^ n = mid" using assms(1) n(2) by simp
  then have id: "read_id b 0 4 n = Some mid"
    using read_id_digits [of n mid "[0x30, x, 0x02, of_nat n]" _ 0] n(1) assms(2) by (simp add: b eval_nat_numeral)
  have l: "length_byte b 3 = Some n" using n(1) by (intro length_byte_at) (simp_all add: b)
  have at: "at b (4 + n + k) = at [0x61, 0x07, 0x0A, 0x01, word_of_int rc, 0x04, 0x00, 0x04, 0x00] k" for k
    using at_skip [of "[0x30, x, 0x02, of_nat n] @ big_endian mid n" "4 + n" _ k] by (simp add: b)
  have "uint (word_of_int rc :: byte) = rc" using assms(3,4) by simp
  then have z: "word_of_int rc = (0 :: byte) \<longleftrightarrow> rc = 0" by (metis of_int_0 uint_0_eq)
  have "at b 0 = Some 0x30" "at b 2 = Some 0x02" by (simp_all add: b)
  with id l at [of 0] at [of 2] at [of 4] z assms(5) show ?thesis
    unfolding b_def [symmetric] by (simp add: ldap_recv_bind_resp_def)
qed

text \<open>
  C31. The handshake authenticates: for a name and a password without NUL that fit the request,
  the server accepts what the client sends exactly when one of its users has that name and that
  password, and the client takes the answer of the server for success exactly when the result
  code in it is zero.
\<close>

theorem ldap_bind_handshake:
  assumes "ldap_send_bind_rqt send tid user pass = Some (LDAP_RET_OK, t, b)"
    "0 \<notin> set user" "0 \<notin> set pass" "users \<noteq> []"
  shows "\<exists>sess'. ldap_recv_bind_rqt True (int (length b)) b users sess =
      Some (if user_known users user pass then LDAP_RET_OK else LDAP_RET_ERR_AUTHEN, sess') \<and>
    l_user sess' = \<lparr>u_name = user, u_password = pass\<rparr> \<and>
    (\<forall>rc send' r' sess'' a. 0 \<le> rc \<and> rc < 256 \<and> ldap_send_bind_resp send' rc sess' = (r', sess'', a) \<longrightarrow>
       l_rdata sess'' = [] \<and>
       ldap_recv_bind_resp (int (length a)) a = Some (if rc = LDAP_RESULT_SUCCESS then LDAP_RET_OK else -1))"
proof -
  have b: "b = bind_rqt t user pass" "length b \<le> 128"
    using assms(1) by (auto simp: ldap_send_bind_rqt_def Let_def bind_eq_Some_conv split: if_splits)
  have l: "0 < int (length b)" by (simp add: b(1) length_bind_rqt)
  obtain mid where mid: "0 \<le> mid" "mid < 2 ^ 31" and
    s: "ldap_recv_bind_rqt True (int (length b)) b users sess =
      Some (if user_known users user pass then LDAP_RET_OK else LDAP_RET_ERR_AUTHEN,
        sess\<lparr>l_rdata := [\<lparr>message_id = mid, alt = BindRequest 3, controls = []\<rparr>],
          l_user := \<lparr>u_name = user, u_password = pass\<rparr>\<rparr>)"
    using recv_bind_rqt [OF _ assms(2-4) l, of t sess] b by auto
  have "0 < int (length (bind_resp mid rc))" for rc by (simp add: bind_resp_def Let_def)
  with recv_bind_resp [OF mid] s show ?thesis
    by (auto simp: ldap_send_bind_resp_def Let_def)
qed


definition session_zero :: DSSESSION where
  "session_zero = \<lparr>l_version = 0, l_no = 0, l_sock = 0, l_remote_ip = [], l_remote_port = 0,
     l_user = \<lparr>u_name = [], u_password = []\<rparr>, l_state = LDAP_SERV_STATE_OPEN, l_concurrent_count = 0,
     l_w_buffer = None, l_w_size = 0, l_w_curr = 0, l_r_buffer = None, l_r_len = 0, l_r_ber_body = 0,
     l_r_ber_body_length = 0, l_rdata = [], l_read_time = 0, l_write_time = 0, l_active_time = 0,
     l_error_response = 0, l_timestamp_write = (0, 0), l_recv_count = 0, l_write_count = 0\<rparr>"

theorem ldap_bind_handshake_witness:
  "\<exists>sess'. ldap_recv_bind_rqt True 19 (bind_rqt 1 (str ''joe'') (str ''pw''))
      [\<lparr>u_name = str ''joe'', u_password = str ''pw''\<rparr>] session_zero = Some (LDAP_RET_OK, sess')"
proof -
  let ?b = "bind_rqt 1 (str ''joe'') (str ''pw'')"
  have p: "positive_bytes 1 = [1]" by (simp add: positive_bytes_def word_sless_alt)
  then have l: "length ?b = 19" by (simp add: length_bind_rqt)
  have send: "ldap_send_bind_rqt (\<lambda>b. int (length b)) 0 (str ''joe'') (str ''pw'') = Some (LDAP_RET_OK, 1, ?b)"
    using l by (simp add: ldap_send_bind_rqt_def tid_increment_def int_add_def Let_def)
  have "user_known [\<lparr>u_name = str ''joe'', u_password = str ''pw''\<rparr>] (str ''joe'') (str ''pw'')"
    by (simp add: user_known_def)
  with ldap_bind_handshake [OF send, of "[\<lparr>u_name = str ''joe'', u_password = str ''pw''\<rparr>]" session_zero] l
  show ?thesis by auto
qed

text \<open>
  The client leaves out the zero bytes of its id and those with the sign bit, so that different
  ids are sent as the same one, or as none; and a server without users faults on a bind.
\<close>

lemma bind_rqt_ambiguous: "bind_rqt 1 user pass = bind_rqt 256 user pass" "positive_bytes 128 = []"
  by (simp_all add: bind_rqt_def positive_bytes_def word_sless_alt sint_byte Let_def)

lemma authenticated_no_users: "authenticated [] name pass = None"
  by (simp add: authenticated_def)

end
