(* ===== verification/LdapServer.thy ===== *)
theory LdapServer
  imports LdapBind SessionTable
begin

text \<open>
  The directory server of libs/stacks/ldap/ldap_server.c: its table of sessions, the options, opening,
  closing and examining sessions. A session pointer is the index of its slot. Results of
  system calls and of allocations are parameters, the current time too.
\<close>

section \<open>Life cycle\<close>

abbreviation (input) LDAP_MAX_SESSION :: int where "LDAP_MAX_SESSION \<equiv> 1024"
abbreviation (input) LDAP_MAX_CONCURRENT_REQUEST :: int where "LDAP_MAX_CONCURRENT_REQUEST \<equiv> 1024"
abbreviation (input) LDAP_READ_BUFFER :: int where "LDAP_READ_BUFFER \<equiv> 131072"
abbreviation (input) LDAP_WRITE_BUFFER :: int where "LDAP_WRITE_BUFFER \<equiv> 131072"

definition ds_slot_init :: "nat \<Rightarrow> DSSESSION \<Rightarrow> DSSESSION" where
  "ds_slot_init i s = s\<lparr>l_no := int i, l_sock := -1, l_r_buffer := None, l_w_buffer := None, l_error_response := 0\<rparr>"

text \<open>\<open>rnd\<close> is the random version. The slots from \<open>max_session\<close> on stay zero.\<close>

definition LDAP_svr_init :: "bool \<Rightarrow> 32 word \<Rightarrow> bytes option \<Rightarrow> int \<Rightarrow> int \<Rightarrow> int \<Rightarrow> int \<Rightarrow> DS_t option" where
  "LDAP_svr_init mem_ok rnd dn port backlog max_session max_concurrent =
     (if \<not> mem_ok then None
      else
        let maxs = (if max_session < LDAP_MAX_SESSION then max_session else LDAP_MAX_SESSION);
            maxc = (if max_concurrent < LDAP_MAX_CONCURRENT_REQUEST then max_concurrent
                    else LDAP_MAX_CONCURRENT_REQUEST)
        in Some \<lparr>ds_version = rnd, ds_baseDN = (case dn of None \<Rightarrow> [] | Some d \<Rightarrow> take 511 d),
             ds_user_list = [], ds_port = port, ds_listen_sock = 0, ds_backlog = backlog,
             ds_max_session = maxs, ds_max_concurrent = maxc,
             ds_session = (\<lambda>i. if int i < maxs then ds_slot_init i session_zero else session_zero),
             ds_session_count = 0, ds_last_session = -1, ds_recv_msg_count = 0, ds_sent_msg_count = 0,
             ds_error_msg_count = 0, ds_busy_msg_count = 0, ds_max_response_time = 0,
             ds_avg_response_time = 0, ds_min_response_time = 0, ds_total_response_time = 0,
             ds_read_timeout = 0, ds_write_timeout = 0, ds_idle_timeout = 0, ds_max_w_len = 0\<rparr>)"

definition LDPA_svr_user_add :: "bool \<Rightarrow> bytes option \<Rightarrow> bytes option \<Rightarrow> DS_t \<Rightarrow> int \<times> DS_t" where
  "LDPA_svr_user_add mem_ok username password ds =
     (if \<not> mem_ok then (LDAP_RET_ERR_MEMORY, ds)
      else
        let user = \<lparr>u_name = take 255 (or_empty username), u_password = take 255 (or_empty password)\<rparr>
        in (LDAP_RET_OK, ds\<lparr>ds_user_list := ds_user_list ds @ [user]\<rparr>))"

datatype LDAP_SERV_OPTION =
    LDAP_SERV_OPTION_PORT | LDAP_SERV_OPTION_BACKLOG | LDAP_SERV_OPTION_MAX_SESSION
  | LDAP_SERV_OPTION_MAX_CONCURRENT | LDAP_SERV_OPTION_CONNECT_TIMEOUT | LDAP_SERV_OPTION_IDLE_TIMEOUT
  | LDAP_SERV_OPTION_READ_TIMEOUT | LDAP_SERV_OPTION_WRITE_TIMEOUT | LDAP_SERV_OPTION_MAX_WRITE_LENGHT
  | LDAP_SERV_OPTION_LISTENER | LDAP_SERV_OPTION_SESSION_COUNT
  | LDAP_SERV_OPTION_SENT_COUNT | LDAP_SERV_OPTION_RECV_COUNT | LDAP_SERV_OPTION_ERROR_COUNT
  | LDAP_SERV_OPTION_BUSY_COUNT | LDAP_SERV_OPTION_MAX_RESPONSE
  | LDAP_SERV_OPTION_MIN_RESPONSE | LDAP_SERV_OPTION_AVG_RESPONSE | LDAP_SERV_OPTION_RESERVED

definition LDAP_svr_get_option :: "DS_t \<Rightarrow> LDAP_SERV_OPTION \<Rightarrow> int" where
  "LDAP_svr_get_option ds opt =
     (case opt of
        LDAP_SERV_OPTION_MAX_SESSION \<Rightarrow> ds_max_session ds
      | LDAP_SERV_OPTION_PORT \<Rightarrow> ds_port ds
      | LDAP_SERV_OPTION_LISTENER \<Rightarrow> ds_listen_sock ds
      | LDAP_SERV_OPTION_SESSION_COUNT \<Rightarrow> ds_session_count ds
      | LDAP_SERV_OPTION_SENT_COUNT \<Rightarrow> to_int32 (uint (ds_sent_msg_count ds))
      | LDAP_SERV_OPTION_RECV_COUNT \<Rightarrow> to_int32 (uint (ds_recv_msg_count ds))
      | LDAP_SERV_OPTION_ERROR_COUNT \<Rightarrow> to_int32 (uint (ds_error_msg_count ds))
      | LDAP_SERV_OPTION_BUSY_COUNT \<Rightarrow> to_int32 (uint (ds_busy_msg_count ds))
      | LDAP_SERV_OPTION_MAX_RESPONSE \<Rightarrow> to_int32 (uint (ds_max_response_time ds))
      | LDAP_SERV_OPTION_MIN_RESPONSE \<Rightarrow> to_int32 (uint (ds_min_response_time ds))
      | LDAP_SERV_OPTION_AVG_RESPONSE \<Rightarrow> to_int32 (uint (ds_avg_response_time ds))
      | _ \<Rightarrow> -1)"

definition ds_set_option :: "DS_t \<Rightarrow> LDAP_SERV_OPTION \<Rightarrow> int \<Rightarrow> int \<times> DS_t" where
  "ds_set_option ds opt n =
     (case opt of
        LDAP_SERV_OPTION_READ_TIMEOUT \<Rightarrow> (LDAP_RET_OK, ds\<lparr>ds_read_timeout := n\<rparr>)
      | LDAP_SERV_OPTION_WRITE_TIMEOUT \<Rightarrow> (LDAP_RET_OK, ds\<lparr>ds_write_timeout := n\<rparr>)
      | LDAP_SERV_OPTION_IDLE_TIMEOUT \<Rightarrow> (LDAP_RET_OK, ds\<lparr>ds_idle_timeout := n\<rparr>)
      | LDAP_SERV_OPTION_MAX_WRITE_LENGHT \<Rightarrow> (LDAP_RET_OK, ds\<lparr>ds_max_w_len := n\<rparr>)
      | _ \<Rightarrow> (LDAP_RET_ERR_PARAMETER, ds))"

text \<open>The results of \<open>socket\<close>, \<open>setsockopt\<close>, \<open>bind\<close> and \<open>listen\<close> are parameters.\<close>

definition LDAP_svr_open :: "int \<Rightarrow> int \<Rightarrow> int \<Rightarrow> int \<Rightarrow> DS_t \<Rightarrow> int \<times> DS_t \<times> os_event list" where
  "LDAP_svr_open sk opt_r bind_r listen_r ds =
     (if sk < 0 then (LDAP_RET_ERR_CONNECT, ds, [])
      else if opt_r \<noteq> 0 then (LDAP_RET_ERR_CONNECT, ds, [CloseFd sk])
      else if bind_r \<noteq> 0 then (LDAP_RET_ERR_CONNECT, ds, [CloseFd sk])
      else if listen_r \<noteq> 0 then (LDAP_RET_ERR_CONNECT, ds, [CloseFd sk])
      else (LDAP_RET_OK, ds\<lparr>ds_listen_sock := sk\<rparr>, []))"

definition ldap_svr_close_listener :: "bool \<Rightarrow> (int \<Rightarrow> int) \<Rightarrow> DS_t \<Rightarrow> int \<times> DS_t \<times> os_event list" where
  "ldap_svr_close_listener cb close_r ds =
     (if ds_listen_sock ds \<ge> 0 then
        (if close_r (ds_listen_sock ds) \<noteq> 0 then -1 else LDAP_RET_OK,
         ds\<lparr>ds_listen_sock := -1\<rparr>,
         clear_events cb (ds_listen_sock ds) @ [CloseFd (ds_listen_sock ds)])
      else (LDAP_RET_OK, ds, []))"

text \<open>One iteration of the loop of \<open>LDAP_svr_close\<close> on the slot \<open>i\<close>.\<close>

definition ds_close_slot ::
    "bool \<Rightarrow> (int \<Rightarrow> int) \<Rightarrow> nat \<Rightarrow> int \<times> DS_t \<times> os_event list \<Rightarrow> int \<times> DS_t \<times> os_event list" where
  "ds_close_slot cb close_r i st =
     (let (ret, ds, ev) = st;
          s = (ds_session ds i)\<lparr>l_r_buffer := None, l_w_buffer := None\<rparr>
      in
      if l_sock s \<ge> 0 then
        (if close_r (l_sock s) \<noteq> 0 then -1 else ret,
         ds\<lparr>ds_session := (ds_session ds)(i := s\<lparr>l_sock := -1\<rparr>)\<rparr>,
         ev @ clear_events cb (l_sock s) @ [Shutdown (l_sock s), CloseFd (l_sock s)])
      else (ret, ds\<lparr>ds_session := (ds_session ds)(i := s)\<rparr>, ev))"

definition LDAP_svr_close :: "bool \<Rightarrow> (int \<Rightarrow> int) \<Rightarrow> DS_t \<Rightarrow> int \<times> DS_t \<times> os_event list" where
  "LDAP_svr_close cb close_r ds =
     (let (ret, ds, ev) =
        fold (ds_close_slot cb close_r) [0..<nat (ds_last_session ds + 1)] (LDAP_RET_OK, ds, []);
          ds = ds\<lparr>ds_last_session := -1, ds_session_count := 0\<rparr>;
          (r, ds, ev') = ldap_svr_close_listener cb close_r ds
      in (if r \<noteq> 0 then -1 else ret, ds, ev @ ev'))"

section \<open>Sessions\<close>

definition ds_upd :: "nat \<Rightarrow> DSSESSION \<Rightarrow> DS_t \<Rightarrow> DS_t" where
  "ds_upd i s ds = ds\<lparr>ds_session := (ds_session ds)(i := s)\<rparr>"

abbreviation l_socks :: "DS_t \<Rightarrow> nat \<Rightarrow> int" where
  "l_socks ds i \<equiv> l_sock (ds_session ds i)"

definition ds_sess_fresh :: "int \<Rightarrow> 32 word \<Rightarrow> peer \<Rightarrow> int \<Rightarrow> DSSESSION \<Rightarrow> DSSESSION" where
  "ds_sess_fresh sk ver p now s = s\<lparr>l_sock := sk, l_version := ver, l_r_buffer := None,
     l_r_ber_body := -1, l_r_ber_body_length := -1, l_w_buffer := None, l_w_curr := 0,
     l_active_time := now, l_read_time := 0, l_write_time := 0, l_remote_ip := ntoa p,
     l_remote_port := sin_port p, l_error_response := 0, l_state := LDAP_SERV_STATE_OPEN,
     l_rdata := [], l_concurrent_count := 0\<rparr>"

text \<open>The result: return value, slot stored in \<open>*sess\<close>, server, events on descriptors.\<close>

definition LDAP_sess_open ::
    "resolver \<Rightarrow> bytes list \<Rightarrow> accepted list \<Rightarrow> int \<Rightarrow> DS_t \<Rightarrow> (int \<times> nat option \<times> DS_t \<times> os_event list) option" where
  "LDAP_sess_open env authen accepts now ds =
     (let i = find_free (l_socks ds) 0 (nat (ds_max_session ds)) in
      if int i \<ge> ds_max_session ds then Some (LDAP_RET_ERR_MAX_SESSION, None, ds, [])
      else do {
        a \<leftarrow> accept_again accepts;
        Some (case a of
          AcceptErr e \<Rightarrow>
            if e = EPROTO then (0, None, ds, [])
            else if e = ECONNABORTED then (0, None, ds, [])
            else (LDAP_RET_ERR_CONNECT, None, ds, [])
        | Conn sk p \<Rightarrow>
            let remote_address = (case h_name p of Some n \<Rightarrow> n | None \<Rightarrow> ntoa p) in
            if rauthen_verify env authen (s_addr p) remote_address \<noteq> RAUTHEN_PASS
            then (LDAP_RET_ERR_AUTHEN, None, ds, [CloseFd sk])
            else
              let ver = ds_version ds + 1;
                  ds = ds_upd i (ds_sess_fresh sk ver p now (ds_session ds i)) (ds\<lparr>ds_version := ver\<rparr>);
                  ds = (if ds_last_session ds < int i then ds\<lparr>ds_last_session := int i\<rparr> else ds)
              in (LDAP_RET_OK, Some i, ds\<lparr>ds_session_count := ds_session_count ds + 1\<rparr>, []))
      })"

definition LDAP_sess_close ::
    "bool \<Rightarrow> (int \<Rightarrow> int) \<Rightarrow> int \<Rightarrow> DS_t \<Rightarrow> (int \<times> DS_t \<times> os_event list) option" where
  "LDAP_sess_close cb close_r no ds =
     (if \<not> (0 \<le> no \<and> no < LDAP_MAX_SESSION) then None
      else
        let ds = (if ds_last_session ds = no
                  then ds\<lparr>ds_last_session := scan_back (l_socks ds) (nat no)\<rparr> else ds);
            s = ds_session ds (nat no)
        in
        if l_sock s < 0 then Some (LDAP_RET_ERR_UNAVAILABLE, ds, [])
        else
          let sk = l_sock s; s = s\<lparr>l_r_buffer := None, l_w_buffer := None, l_sock := -1\<rparr> in
          Some (if close_r sk \<noteq> 0 then LDAP_RET_ERR_UNKNOWN else LDAP_RET_OK,
                (ds_upd (nat no) s ds)\<lparr>ds_session_count := ds_session_count ds - 1\<rparr>,
                clear_events cb sk @ [Shutdown sk, CloseFd sk]))"

definition DS_IS_SESSION_IDLE :: "DSSESSION \<Rightarrow> bool" where
  "DS_IS_SESSION_IDLE s \<longleftrightarrow> l_w_buffer s = None \<and> l_r_buffer s = None"

text \<open>The three tests on an open session in the state \<open>READY\<close>, in their order.\<close>

definition ds_timed_out :: "DS_t \<Rightarrow> int \<Rightarrow> DSSESSION \<Rightarrow> bool" where
  "ds_timed_out ds ct s \<longleftrightarrow>
     (if l_read_time s > 0 \<and> ds_read_timeout ds > 0 \<and> ct - l_read_time s \<ge> ds_read_timeout ds then True
      else if l_write_time s > 0 \<and> ds_write_timeout ds > 0 \<and> ct - l_write_time s \<ge> ds_write_timeout ds then True
      else DS_IS_SESSION_IDLE s \<and> ds_idle_timeout ds > 0 \<and> ct - l_active_time s \<ge> ds_idle_timeout ds)"

fun examine_loop ::
    "bool \<Rightarrow> (int \<Rightarrow> int) \<Rightarrow> int \<Rightarrow> nat list \<Rightarrow> DS_t \<Rightarrow> (int \<times> DS_t \<times> os_event list) option" where
  "examine_loop cb close_r ct [] ds = Some (LDAP_RET_OK, ds, [])"
| "examine_loop cb close_r ct (i # is) ds =
     (if l_socks ds i \<ge> 0 \<and> l_state (ds_session ds i) = LDAP_SERV_STATE_READY \<and>
         ds_timed_out ds ct (ds_session ds i) then do {
        (_, ds, ev) \<leftarrow> LDAP_sess_close cb close_r (l_no (ds_session ds i)) ds;
        Some (LDAP_RET_ERR_IDLE_TIMEOUT, ds, ev)
      }
      else examine_loop cb close_r ct is ds)"

definition LDAP_sess_examine ::
    "bool \<Rightarrow> (int \<Rightarrow> int) \<Rightarrow> int \<Rightarrow> DS_t \<Rightarrow> (int \<times> DS_t \<times> os_event list) option" where
  "LDAP_sess_examine cb close_r ct ds =
     (if ds_last_session ds \<ge> LDAP_MAX_SESSION then None
      else examine_loop cb close_r ct [0..<nat (ds_last_session ds + 1)] ds)"

section \<open>The session table of the server\<close>

lemma ds_upd_simps [simp]:
  "ds_session (ds_upd i s ds) = (ds_session ds)(i := s)"
  "ds_last_session (ds_upd i s ds) = ds_last_session ds"
  "ds_session_count (ds_upd i s ds) = ds_session_count ds"
  "ds_max_session (ds_upd i s ds) = ds_max_session ds"
  "ds_user_list (ds_upd i s ds) = ds_user_list ds"
  "ds_listen_sock (ds_upd i s ds) = ds_listen_sock ds"
  by (simp_all add: ds_upd_def)

definition ldap_opens :: "DS_t \<Rightarrow> nat \<Rightarrow> DS_t \<Rightarrow> bool" where
  "ldap_opens ds i ds' \<longleftrightarrow> (\<exists>env authen as now r ev. accepts_ok as \<and>
     LDAP_sess_open env authen as now ds = Some (r, Some i, ds', ev))"

definition ldap_closes :: "DS_t \<Rightarrow> nat \<Rightarrow> DS_t \<Rightarrow> bool" where
  "ldap_closes ds i ds' \<longleftrightarrow> (\<exists>cb cr r ev. 0 \<le> l_socks ds i \<and>
     LDAP_sess_close cb cr (int i) ds = Some (r, ds', ev))"

lemma ldap_open_cases:
  assumes "LDAP_sess_open env authen as now ds = Some (r, slot, ds', ev)"
  obtains (refused) "slot = None" "ds' = ds" "r \<in> {LDAP_RET_ERR_MAX_SESSION, 0, LDAP_RET_ERR_CONNECT}" "ev = []"
  | (denied) sk p where "slot = None" "ds' = ds" "r = LDAP_RET_ERR_AUTHEN" "ev = [CloseFd sk]"
      "accept_again as = Some (Conn sk p)"
  | (opened) i sk p s where "slot = Some i" "r = LDAP_RET_OK" "ev = []"
      "accept_again as = Some (Conn sk p)"
      "i = find_free (l_socks ds) 0 (nat (ds_max_session ds))" "int i < ds_max_session ds"
      "rauthen_verify env authen (s_addr p) (case h_name p of Some n \<Rightarrow> n | None \<Rightarrow> ntoa p) = RAUTHEN_PASS"
      "ds_session ds' = (ds_session ds)(i := s)" "s = ds_sess_fresh sk (ds_version ds + 1) p now (ds_session ds i)"
      "ds_last_session ds' = max (ds_last_session ds) (int i)"
      "ds_session_count ds' = ds_session_count ds + 1" "ds_max_session ds' = ds_max_session ds"
      "ds_user_list ds' = ds_user_list ds"
proof -
  define i where "i = find_free (l_socks ds) 0 (nat (ds_max_session ds))"
  note def = LDAP_sess_open_def [of env authen as now ds, folded i_def]
  show thesis
  proof (cases "int i \<ge> ds_max_session ds")
    case True
    then show thesis using assms refused by (simp add: def)
  next
    case False
    then obtain a where a: "accept_again as = Some a"
      using assms by (auto simp: def Let_def split: Option.bind_splits)
    show thesis
    proof (cases a)
      case (AcceptErr e)
      then show thesis using assms False a refused by (auto simp: def Let_def split: if_splits)
    next
      case (Conn sk p)
      show thesis
      proof (cases "rauthen_verify env authen (s_addr p)
          (case h_name p of Some n \<Rightarrow> n | None \<Rightarrow> ntoa p) = RAUTHEN_PASS")
        case pass: False
        then show thesis using assms False a Conn denied by (auto simp: def Let_def)
      next
        case pass: True
        have "ds_session ds' = (ds_session ds)(i := ds_sess_fresh sk (ds_version ds + 1) p now (ds_session ds i))"
          "ds_last_session ds' = max (ds_last_session ds) (int i)" "slot = Some i" "r = 0" "ev = []"
          "ds_session_count ds' = ds_session_count ds + 1" "ds_max_session ds' = ds_max_session ds"
          "ds_user_list ds' = ds_user_list ds"
          using assms False a Conn pass by (auto simp: def Let_def ds_upd_def split: if_splits)
        then show thesis using opened [OF _ _ _ _ i_def] False a Conn pass by simp
      qed
    qed
  qed
qed

lemma ldap_close_cases:
  assumes "LDAP_sess_close cb cr no ds = Some (r, ds', ev)"
  obtains (unused) "0 \<le> no" "no < LDAP_MAX_SESSION" "l_socks ds (nat no) < 0" "r = LDAP_RET_ERR_UNAVAILABLE" "ev = []"
      "ds_session ds' = ds_session ds" "ds_session_count ds' = ds_session_count ds"
      "ds_max_session ds' = ds_max_session ds" "ds_user_list ds' = ds_user_list ds"
      "ds_last_session ds' = (if ds_last_session ds = no then scan_back (l_socks ds) (nat no) else ds_last_session ds)"
  | (closed) "0 \<le> no" "no < LDAP_MAX_SESSION" "0 \<le> l_socks ds (nat no)"
      "r = (if cr (l_socks ds (nat no)) \<noteq> 0 then LDAP_RET_ERR_UNKNOWN else LDAP_RET_OK)"
      "ev = close_events cb (l_socks ds (nat no))"
      "ds_session ds' = (ds_session ds)(nat no := (ds_session ds (nat no))
         \<lparr>l_r_buffer := None, l_w_buffer := None, l_sock := -1\<rparr>)"
      "ds_session_count ds' = ds_session_count ds - 1"
      "ds_max_session ds' = ds_max_session ds" "ds_user_list ds' = ds_user_list ds"
      "ds_last_session ds' = (if ds_last_session ds = no then scan_back (l_socks ds) (nat no) else ds_last_session ds)"
proof -
  define ds1 where "ds1 = (if ds_last_session ds = no
      then ds\<lparr>ds_last_session := scan_back (l_socks ds) (nat no)\<rparr> else ds)"
  have ds1: "ds_session ds1 = ds_session ds" "ds_session_count ds1 = ds_session_count ds"
    "ds_max_session ds1 = ds_max_session ds" "ds_user_list ds1 = ds_user_list ds"
    "ds_last_session ds1 = (if ds_last_session ds = no then scan_back (l_socks ds) (nat no) else ds_last_session ds)"
    by (simp_all add: ds1_def)
  have no: "0 \<le> no" "no < 1024" using assms by (auto simp: LDAP_sess_close_def split: if_splits)
  show thesis
  proof (cases "l_socks ds (nat no) < 0")
    case True
    then have "ds' = ds1" "r = LDAP_RET_ERR_UNAVAILABLE" "ev = []"
      using assms no by (auto simp: LDAP_sess_close_def Let_def ds1_def [symmetric] ds1)
    with True show thesis using no ds1 by (intro unused) simp_all
  next
    case False
    then have "ds' = (ds_upd (nat no) ((ds_session ds (nat no))\<lparr>l_r_buffer := None, l_w_buffer := None, l_sock := -1\<rparr>) ds1)
        \<lparr>ds_session_count := ds_session_count ds - 1\<rparr>"
      "r = (if cr (l_socks ds (nat no)) \<noteq> 0 then LDAP_RET_ERR_UNKNOWN else LDAP_RET_OK)"
      "ev = close_events cb (l_socks ds (nat no))"
      using assms no by (auto simp: LDAP_sess_close_def Let_def ds1_def [symmetric] ds1 close_events_def)
    with False show thesis using no ds1 by (intro closed) simp_all
  qed
qed

interpretation dst: session_table l_socks ds_last_session ds_session_count
    "\<lambda>ds. nat (ds_max_session ds)" ldap_opens ldap_closes
proof
  fix ds i ds'
  assume "ldap_opens ds i ds'"
  then obtain env authen as now r ev where as: "accepts_ok as"
    and o: "LDAP_sess_open env authen as now ds = Some (r, Some i, ds', ev)"
    by (auto simp: ldap_opens_def)
  from o show "i < nat (ds_max_session ds) \<and> l_socks ds i < 0 \<and> (\<forall>j < i. 0 \<le> l_socks ds j) \<and>
      (\<exists>sk. 0 \<le> sk \<and> l_socks ds' = (l_socks ds)(i := sk)) \<and>
      ds_last_session ds' = max (ds_last_session ds) (int i) \<and>
      ds_session_count ds' = ds_session_count ds + 1 \<and> nat (ds_max_session ds') = nat (ds_max_session ds)"
  proof (cases rule: ldap_open_cases)
    case (opened k sk p s)
    have sk: "0 \<le> sk" using as opened(4) by (rule accept_again_ok)
    have i: "i = find_free (l_socks ds) 0 (nat (ds_max_session ds))" using opened by simp
    have lt: "i < nat (ds_max_session ds)" using opened by simp
    have "l_socks ds i < 0" using find_free_free [of "l_socks ds" 0 "nat (ds_max_session ds)"] lt i by simp
    moreover have "\<forall>j < i. 0 \<le> l_socks ds j"
      using find_free_before [of 0 _ "l_socks ds" "nat (ds_max_session ds)"] i by simp
    moreover have "l_socks ds' = (l_socks ds)(i := sk)" using opened by (auto simp: fun_eq_iff ds_sess_fresh_def)
    ultimately show ?thesis using opened lt sk by auto
  qed simp_all
next
  fix ds i ds'
  assume "ldap_closes ds i ds'"
  then obtain cb cr r ev where o: "0 \<le> l_socks ds i" "LDAP_sess_close cb cr (int i) ds = Some (r, ds', ev)"
    by (auto simp: ldap_closes_def)
  from o(2) show "0 \<le> l_socks ds i \<and> l_socks ds' = (l_socks ds)(i := -1) \<and>
      ds_last_session ds' = (if ds_last_session ds = int i then scan_back (l_socks ds) i else ds_last_session ds) \<and>
      ds_session_count ds' = ds_session_count ds - 1 \<and> nat (ds_max_session ds') = nat (ds_max_session ds)"
  proof (cases rule: ldap_close_cases)
    case closed
    then show ?thesis using o(1) by (auto simp: fun_eq_iff)
  qed (use o in simp)
qed

text \<open>Closing a slot of a consistent table keeps it consistent, whether the slot is open or not.\<close>

lemma ldap_close_table:
  assumes "table_ok N (l_socks ds) (ds_last_session ds) (ds_session_count ds)" "no < int N"
    "LDAP_sess_close cb cr no ds = Some (r, ds', ev)"
  shows "table_ok N (l_socks ds') (ds_last_session ds') (ds_session_count ds')"
  using assms(3)
proof (cases rule: ldap_close_cases)
  case unused
  have "ds_last_session ds \<noteq> no" using assms(1) unused unfolding table_ok_def by auto
  then show ?thesis using assms(1) unused by simp
next
  case closed
  have "ldap_closes ds (nat no) ds'" unfolding ldap_closes_def using assms(3) closed(1,3) by auto
  from dst.closes_ok [OF this assms(1)] show ?thesis using assms(2) closed(1) by simp
qed

section \<open>Timeouts\<close>

text \<open>A call of \<open>LDAP_sess_examine\<close> closes the first session that has timed out, if there is one.\<close>

definition ds_expired :: "DS_t \<Rightarrow> int \<Rightarrow> nat \<Rightarrow> bool" where
  "ds_expired ds ct i \<longleftrightarrow> 0 \<le> l_socks ds i \<and> l_state (ds_session ds i) = LDAP_SERV_STATE_READY \<and>
     ds_timed_out ds ct (ds_session ds i)"

lemma examine_loop_first:
  assumes "examine_loop cb cr ct is ds = Some (r, ds', ev)"
  shows "if \<exists>i \<in> set is. ds_expired ds ct i
    then r = LDAP_RET_ERR_IDLE_TIMEOUT \<and> (\<exists>us i vs r'. is = us @ i # vs \<and>
        (\<forall>j \<in> set us. \<not> ds_expired ds ct j) \<and> ds_expired ds ct i \<and>
        LDAP_sess_close cb cr (l_no (ds_session ds i)) ds = Some (r', ds', ev))
    else r = LDAP_RET_OK \<and> ds' = ds \<and> ev = []"
  using assms
proof (induction "is")
  case (Cons i "is")
  show ?case
  proof (cases "ds_expired ds ct i")
    case True
    with Cons.prems have "r = LDAP_RET_ERR_IDLE_TIMEOUT"
      "\<exists>r'. LDAP_sess_close cb cr (l_no (ds_session ds i)) ds = Some (r', ds', ev)"
      by (auto simp: ds_expired_def bind_eq_Some_conv)
    with True show ?thesis by (auto intro!: exI [of _ "[]"])
  next
    case False
    with Cons.prems have "examine_loop cb cr ct is ds = Some (r, ds', ev)"
      by (auto simp: ds_expired_def)
    note IH = Cons.IH [OF this]
    show ?thesis
    proof (cases "\<exists>i \<in> set is. ds_expired ds ct i")
      case True
      with IH obtain us k vs r' where "is = us @ k # vs" "r = LDAP_RET_ERR_IDLE_TIMEOUT"
        "\<forall>j \<in> set us. \<not> ds_expired ds ct j" "ds_expired ds ct k"
        "LDAP_sess_close cb cr (l_no (ds_session ds k)) ds = Some (r', ds', ev)" by auto
      with False have "i # is = (i # us) @ k # vs" "\<forall>j \<in> set (i # us). \<not> ds_expired ds ct j" by auto
      with True \<open>r = LDAP_RET_ERR_IDLE_TIMEOUT\<close> \<open>ds_expired ds ct k\<close>
        \<open>LDAP_sess_close cb cr (l_no (ds_session ds k)) ds = Some (r', ds', ev)\<close>
      show ?thesis by (metis list.set_intros(2))
    qed (use IH False in auto)
  qed
qed simp

text \<open>
  One call of \<open>LDAP_sess_examine\<close> closes at most one session: the first of the open and ready
  ones that has timed out, wherever it is in the table. It returns \<open>LDAP_RET_ERR_IDLE_TIMEOUT\<close>
  exactly when there is one, keeps the table invariant, and otherwise changes nothing.
\<close>

theorem ldap_sess_examine:
  assumes "table_ok N (l_socks ds) (ds_last_session ds) (ds_session_count ds)" "N \<le> 1024"
    and "\<And>i. i < N \<Longrightarrow> l_no (ds_session ds i) = int i"
    and "LDAP_sess_examine cb cr ct ds = Some (r, ds', ev)"
  shows "table_ok N (l_socks ds') (ds_last_session ds') (ds_session_count ds') \<and>
    (if \<exists>i < N. ds_expired ds ct i
     then r = LDAP_RET_ERR_IDLE_TIMEOUT \<and>
       (\<exists>i < N. (\<forall>j < i. \<not> ds_expired ds ct j) \<and> ds_expired ds ct i \<and>
          ev = close_events cb (l_socks ds i) \<and> l_socks ds' i = -1 \<and>
          (\<forall>j. j \<noteq> i \<longrightarrow> ds_session ds' j = ds_session ds j))
     else r = LDAP_RET_OK \<and> ds' = ds \<and> ev = [])"
proof -
  define m where "m = nat (ds_last_session ds + 1)"
  have m: "m \<le> N" "\<And>i. i < N \<Longrightarrow> 0 \<le> l_socks ds i \<Longrightarrow> i < m"
    using assms(1) unfolding table_ok_def m_def by fastforce+
  have "examine_loop cb cr ct [0..<m] ds = Some (r, ds', ev)"
    using assms(4) by (auto simp: LDAP_sess_examine_def m_def split: if_splits)
  note first = examine_loop_first [OF this]
  have iff: "(\<exists>i \<in> set [0..<m]. ds_expired ds ct i) \<longleftrightarrow> (\<exists>i < N. ds_expired ds ct i)"
    using m less_le_trans by (metis atLeastLessThan_iff ds_expired_def set_upt zero_le)
  show ?thesis
  proof (cases "\<exists>i < N. ds_expired ds ct i")
    case True
    with first [unfolded iff] obtain us i vs r' where i: "[0..<m] = us @ i # vs" "r = LDAP_RET_ERR_IDLE_TIMEOUT"
      "\<forall>j \<in> set us. \<not> ds_expired ds ct j" "ds_expired ds ct i"
      "LDAP_sess_close cb cr (l_no (ds_session ds i)) ds = Some (r', ds', ev)" by auto
    have "length us < m" using arg_cong [OF i(1), of length] by simp
    moreover have "i = [0..<m] ! length us" "us = take (length us) [0..<m]" by (simp_all add: i(1))
    ultimately have us: "us = [0..<i]" and iN: "i < N" using m(1) by simp_all
    have c: "LDAP_sess_close cb cr (int i) ds = Some (r', ds', ev)" using i(5) assms(3) [OF iN] by simp
    then have "ev = close_events cb (l_socks ds i) \<and> l_socks ds' i = -1 \<and>
        (\<forall>j. j \<noteq> i \<longrightarrow> ds_session ds' j = ds_session ds j)"
      by (cases rule: ldap_close_cases) (use i(4) in \<open>auto simp: ds_expired_def\<close>)
    with ldap_close_table [OF assms(1) _ c] True i us iN show ?thesis by (auto intro!: exI [of _ i])
  next
    case False
    with first [unfolded iff] assms(1) show ?thesis by auto
  qed
qed

definition demo_ds :: "nat \<Rightarrow> DS_t" where
  "demo_ds n = the (LDAP_svr_init True 7 (Some (str ''o=x'')) 389 5 (int n) 10)"

lemma demo_ds_init: "n \<le> 1024 \<Longrightarrow> LDAP_svr_init True 7 (Some (str ''o=x'')) 389 5 (int n) 10 = Some (demo_ds n)"
  by (simp add: demo_ds_def LDAP_svr_init_def)

lemma ldap_init_table:
  assumes "LDAP_svr_init True rnd dn port backlog (int n) mc = Some ds" "n \<le> 1024"
  shows "table_ok n (l_socks ds) (ds_last_session ds) (ds_session_count ds) \<and> ds_max_session ds = int n \<and>
    (\<forall>i < n. ds_session ds i = ds_slot_init i session_zero) \<and> ds_user_list ds = []"
proof -
  have s: "ds_session ds = (\<lambda>i. if i < n then ds_slot_init i session_zero else session_zero)"
    "ds_last_session ds = -1" "ds_session_count ds = 0" "ds_max_session ds = int n" "ds_user_list ds = []"
    using assms by (auto simp: LDAP_svr_init_def Let_def)
  have "table_ok n (l_socks ds) (-1) 0" by (rule table_ok_empty) (simp add: s(1) ds_slot_init_def)
  with s show ?thesis by simp
qed

theorem ldap_sess_examine_witness:
  "\<exists>ds'. LDAP_sess_examine True (\<lambda>_. 0) 500 (demo_ds 2) = Some (LDAP_RET_OK, ds', []) \<and> ds' = demo_ds 2"
proof -
  have i: "i < 2 \<Longrightarrow> ds_session (demo_ds 2) i = ds_slot_init i session_zero" for i
    using ldap_init_table [OF demo_ds_init, of 2] by simp
  then have no: "i < 2 \<Longrightarrow> l_no (ds_session (demo_ds 2) i) = int i"
    "i < 2 \<Longrightarrow> \<not> ds_expired (demo_ds 2) 500 i" for i by (simp_all add: ds_slot_init_def ds_expired_def)
  have e: "LDAP_sess_examine True (\<lambda>_. 0) 500 (demo_ds 2) = Some (LDAP_RET_OK, demo_ds 2, [])"
    by (simp add: LDAP_sess_examine_def demo_ds_def LDAP_svr_init_def Let_def)
  show ?thesis
    using ldap_sess_examine [OF _ _ no(1) e] ldap_init_table [OF demo_ds_init, of 2] no(2) e by auto
qed

text \<open>
  What the timeouts miss: a session that has read anything keeps its read buffer and is never
  idle again; a session that has not authenticated is not examined at all.
\<close>

lemma idle_timeout_never:
  "l_r_buffer s = Some b \<Longrightarrow> l_read_time s = 0 \<Longrightarrow> l_write_time s = 0 \<Longrightarrow> \<not> ds_timed_out ds ct s"
  by (simp add: ds_timed_out_def DS_IS_SESSION_IDLE_def)

lemma open_never_expires: "l_state (ds_session ds i) = LDAP_SERV_STATE_OPEN \<Longrightarrow> \<not> ds_expired ds ct i"
  by (simp add: ds_expired_def)

text \<open>
  As in the HTTP server, a connection aborted before it is accepted gives the return value of
  success without a session. A server that was never opened closes descriptor 0.
\<close>

lemma ldap_sess_open_aborted:
  "l_socks ds 0 < 0 \<Longrightarrow> 1 \<le> ds_max_session ds \<Longrightarrow>
   LDAP_sess_open env authen [AcceptErr ECONNABORTED] now ds = Some (LDAP_RET_OK, None, ds, [])"
  by (cases "nat (ds_max_session ds)") (auto simp: LDAP_sess_open_def Let_def)

lemma ldap_close_unopened:
  "n \<le> 1024 \<Longrightarrow> CloseFd 0 \<in> set (snd (snd (LDAP_svr_close cb cr (demo_ds n))))"
  by (simp add: LDAP_svr_close_def demo_ds_def LDAP_svr_init_def ldap_svr_close_listener_def Let_def)

end
