(* ===== verification/LdapTransfer.thy ===== *)
theory LdapTransfer
  imports LdapServer
begin

text \<open>
  A session of the directory server at work, libs/stacks/ldap/ldap_server.c: the bytes it reads, the
  messages it decodes from them and the bytes it writes. Results of system calls and of allocations
  are parameters, the current time too.
\<close>

section \<open>Reading\<close>

text \<open>What the system answers to the calls that \<open>LDAP_sess_read\<close> makes.\<close>

record read_env =
  so_error :: "int option"
  recv_r :: "int \<Rightarrow> int \<times> bytes"
  send_r :: "bytes \<Rightarrow> int"
  malloc_ok :: bool
  malloc_mem :: "bytes option"

text \<open>
  A session in the state \<open>OPEN\<close> takes a bind request; \<open>so_error\<close> is the error of the socket,
  \<open>None\<close> when \<open>getsockopt\<close> fails. The result has the bytes given to \<open>send\<close>.
\<close>

definition read_bind :: "read_env \<Rightarrow> int \<Rightarrow> DSUSER list \<Rightarrow> DSSESSION \<Rightarrow> (int \<times> DSSESSION \<times> bytes) option" where
  "read_bind env now users sess =
     (case so_error env of
        None \<Rightarrow> Some (LDAP_RET_ERR_CONNECT, sess, [])
      | Some e \<Rightarrow>
          if e \<noteq> 0 then Some (LDAP_RET_ERR_CONNECT, sess, [])
          else do {
            let (n, buff) = recv_r env 512;
            (r, sess) \<leftarrow> ldap_recv_bind_rqt (malloc_ok env) n buff users sess;
            if r \<noteq> LDAP_RET_OK then
              (let res = (if r = LDAP_RET_ERR_AUTHEN then LDAP_RESULT_INVALID_CREDENTIALS
                          else if r = LDAP_RET_ERR_AUTHEN_METHOD then LDAP_RESULT_AUTH_METHOD_NOT_SUPPORTED
                          else LDAP_RESULT_INAPPROPRIATE_AUTHENTICATION);
                   (_, sess, out) = ldap_send_bind_resp (send_r env) res sess
               in Some (r, sess, out))
            else
              (let (r, sess, out) = ldap_send_bind_resp (send_r env) LDAP_RESULT_SUCCESS sess in
               if r \<noteq> LDAP_RET_OK then Some (LDAP_RET_ERR_CONNECT, sess, out)
               else Some (LDAP_RET_READY, sess\<lparr>l_active_time := now, l_state := LDAP_SERV_STATE_READY\<rparr>, out))
          })"

text \<open>Bytes stored at the offset \<open>p\<close> of a buffer that has room for them.\<close>

definition store_at :: "nat \<Rightarrow> bytes \<Rightarrow> bytes \<Rightarrow> bytes" where
  "store_at p bs m = take p m @ bs @ drop (p + length bs) m"

text \<open>
  Otherwise the session's buffer is filled; \<open>malloc_mem\<close> is the memory of the first allocation,
  \<open>None\<close> when there is none.
\<close>

definition read_data :: "read_env \<Rightarrow> int \<Rightarrow> DSSESSION \<Rightarrow> int \<times> DSSESSION" where
  "read_data env now sess =
     (let sess = (if l_r_buffer sess = None \<and> malloc_mem env \<noteq> None
                  then sess\<lparr>l_r_buffer := malloc_mem env, l_r_len := 0\<rparr> else sess)
      in
      case l_r_buffer sess of
        None \<Rightarrow> (LDAP_RET_ERR_MEMORY, sess)
      | Some m \<Rightarrow>
          let n = int (length m) - 1 - l_r_len sess in
          if n \<le> 0 then (LDAP_RET_ERR_MEMORY, sess)
          else
            let (r, bs) = recv_r env n in
            if r < 0 then (LDAP_RET_ERR_CONNECT, sess)
            else if r = 0 then (LDAP_RET_ERR_CLOSED, sess)
            else (LDAP_RET_OK, sess\<lparr>l_r_buffer := Some (store_at (nat (l_r_len sess)) bs m),
                l_r_len := l_r_len sess + r, l_recv_count := l_recv_count sess + 1,
                l_active_time := now, l_read_time := now\<rparr>))"

definition LDAP_sess_read :: "read_env \<Rightarrow> int \<Rightarrow> nat \<Rightarrow> DS_t \<Rightarrow> (int \<times> DS_t \<times> bytes) option" where
  "LDAP_sess_read env now i ds =
     (if l_state (ds_session ds i) = LDAP_SERV_STATE_OPEN then do {
        (r, sess, out) \<leftarrow> read_bind env now (ds_user_list ds) (ds_session ds i);
        Some (r, ds_upd i sess ds, out)
      }
      else
        let (r, sess) = read_data env now (ds_session ds i);
            ds = ds_upd i sess ds
        in Some (r, if r = LDAP_RET_OK then ds\<lparr>ds_recv_msg_count := ds_recv_msg_count ds + 1\<rparr> else ds, []))"

section \<open>Writing\<close>

text \<open>\<open>fd_set_write\<close> is the result of the callback, if there is one. The result has the bytes given to \<open>send\<close>.\<close>

definition LDAP_sess_write ::
    "(bytes \<Rightarrow> int) \<Rightarrow> int option \<Rightarrow> int \<Rightarrow> nat \<Rightarrow> DS_t \<Rightarrow> (int \<times> DS_t \<times> bytes) option" where
  "LDAP_sess_write send fd_set_write now i ds =
     (let s = ds_session ds i in
      if l_state s = LDAP_SERV_STATE_OPEN then Some (LDAP_RET_ERR_CONNECT, ds, [])
      else
        case l_w_buffer s of
          None \<Rightarrow> Some (LDAP_RET_OK, ds, [])
        | Some w \<Rightarrow>
            if w = [] then Some (LDAP_RET_OK, ds, [])
            else
              let n = int (length w) - l_w_curr s;
                  n = (if n > LDAP_WRITE_BUFFER then LDAP_WRITE_BUFFER else n)
              in
              if l_w_curr s < 0 \<or> n < 0 then None
              else
                let bs = take (nat n) (drop (nat (l_w_curr s)) w);
                    r = send bs
                in
                if r < 0 then Some (LDAP_RET_ERR_SEND, ds, bs)
                else
                  let s = s\<lparr>l_w_curr := l_w_curr s + r\<rparr> in
                  if l_w_curr s < int (length w) then
                    let ds = ds_upd i (s\<lparr>l_write_time := now\<rparr>) ds in
                    (case fd_set_write of
                       Some e \<Rightarrow> Some (if e \<noteq> 0 then LDAP_RET_ERR_SEND else LDAP_RET_SENT_FRAGMENT, ds, bs)
                     | None \<Rightarrow> Some (LDAP_RET_SENT_FRAGMENT, ds, bs))
                  else
                    Some (LDAP_RET_SENT,
                      (ds_upd i (s\<lparr>l_w_curr := 0, l_w_buffer := Some [], l_write_time := 0,
                          l_write_count := l_write_count s + 1\<rparr>) ds)
                        \<lparr>ds_sent_msg_count := ds_sent_msg_count ds + 1\<rparr>, bs))"

text \<open>
  \<open>mem_ok\<close> tells whether the allocation succeeds, the first one or the one that grows the buffer.
\<close>

definition LDAP_sess_send_message ::
    "bool \<Rightarrow> int option \<Rightarrow> int \<Rightarrow> bytes \<Rightarrow> nat \<Rightarrow> DS_t \<Rightarrow> (int \<times> DS_t) option" where
  "LDAP_sess_send_message mem_ok fd_set_write now ber i ds =
     (let s = ds_session ds i;
          first = (l_w_buffer s = None);
          s = (if first then s\<lparr>l_w_size := LDAP_WRITE_BUFFER\<rparr> else s)
      in
      if first \<and> \<not> mem_ok then Some (LDAP_RET_ERR_MEMORY, ds_upd i s ds)
      else do {
        let w = or_empty (l_w_buffer s);
        len \<leftarrow> int_add (int (length w)) (int (length ber));
        let grow = (len > l_w_size s);
        if grow \<and> \<not> mem_ok then Some (LDAP_RET_ERR_MEMORY, ds_upd i (s\<lparr>l_w_buffer := Some w\<rparr>) ds)
        else
          let s = (if grow then s\<lparr>l_w_size := ADJUST_SIZE len LDAP_WRITE_BUFFER\<rparr> else s);
              s = s\<lparr>l_w_buffer := Some (w @ ber), l_write_time := now,
                    l_concurrent_count := l_concurrent_count s - 1\<rparr>
          in Some (case fd_set_write of
                     Some e \<Rightarrow> if e \<noteq> 0 then LDAP_RET_ERR_SEND else LDAP_RET_OK
                   | None \<Rightarrow> LDAP_RET_OK, ds_upd i s ds)
      })"

section \<open>Decoding\<close>

text \<open>
  \<open>ldap_send_generic_resp\<close>: the answer to a message with a result code, given to \<open>send\<close>. Without a
  generator for the operation the buffer that is sent is \<open>NULL\<close>.
\<close>

definition ldap_send_generic_resp :: "(bytes \<Rightarrow> int) \<Rightarrow> int \<Rightarrow> LDAPMessage \<Rightarrow> (int \<times> bytes) option" where
  "ldap_send_generic_resp send result msg = do {
     ber \<leftarrow> (case alt msg of
        SearchReq _ \<Rightarrow> LDAP_gen_search_done None (message_id msg) result None None
      | ModifyRequest _ _ \<Rightarrow> LDAP_gen_modify_response None (message_id msg) result None None
      | AddRequest _ _ \<Rightarrow> LDAP_gen_add_response None (message_id msg) result None None
      | DeleteRequest _ \<Rightarrow> LDAP_gen_delete_response None (message_id msg) result None None
      | ModDnRequest _ _ _ \<Rightarrow> LDAP_gen_moddn_response None (message_id msg) result None None
      | ExtendedRequest name _ \<Rightarrow>
          LDAP_gen_extended_response None (message_id msg) result None None (Some (cstr (or_empty name))) None
      | BindRequest _ \<Rightarrow> None);
     Some (if send (b_data ber) \<le> 0 then -1 else LDAP_RET_OK, b_data ber)
   }"

text \<open>\<open>while (*p != 0x30) p++\<close>, from the start of the buffer to the offset of the byte.\<close>

fun find_sequence :: "bytes \<Rightarrow> nat option" where
  "find_sequence [] = None"
| "find_sequence (c # m) = (if c = 0x30 then Some 0 else map_option Suc (find_sequence m))"

text \<open>
  The frame of the next message: where it starts and how long it is, from the session if they are
  known. The length is that of the content plus the header.
\<close>

definition frame :: "bytes \<Rightarrow> DSSESSION \<Rightarrow> (int \<times> int) option" where
  "frame m s =
     (if l_r_ber_body s < 0 then do {
        b \<leftarrow> find_sequence m;
        if l_r_ber_body_length s < 0 then do {
          (pp, j) \<leftarrow> FIND_LENGTH m (b + 1);
          len \<leftarrow> int_add (int (j - b)) pp;
          Some (int b, len)
        }
        else Some (int b, l_r_ber_body_length s)
      }
      else if l_r_ber_body_length s < 0 then None
      else Some (l_r_ber_body s, l_r_ber_body_length s))"

text \<open>
  The rest of a pass, with the frame and the buffer known: a message that is not complete waits, a
  complete one is decoded and the bytes behind it move to the front.
\<close>

definition take_message :: "bool \<Rightarrow> bytes \<Rightarrow> int \<Rightarrow> int \<Rightarrow> DSSESSION \<Rightarrow> ((int + int) \<times> DSSESSION) option" where
  "take_message mem_ok m body len s =
     (if body + len > l_r_len s then Some (Inl LDAP_RET_OK, s\<lparr>l_r_buffer := Some m\<rparr>)
      else do {
        (ret, msg) \<leftarrow> ldap_decode_request mem_ok m (nat body) len;
        let s = s\<lparr>l_rdata := l_rdata s @ (case msg of Some msg \<Rightarrow> [msg] | None \<Rightarrow> [])\<rparr>;
        let n = l_r_len s - (body + len);
        let s = (if n > 0 then
             s\<lparr>l_r_buffer := Some (store_at 0 (take (nat n) (drop (nat (body + len)) m)) m), l_r_len := n\<rparr>
           else s\<lparr>l_r_buffer := Some m, l_r_len := 0, l_read_time := 0\<rparr>);
        Some (Inr ret, s\<lparr>l_r_ber_body := -1, l_r_ber_body_length := -1\<rparr>)
      })"

text \<open>
  One pass of the loop. \<open>extra n\<close> is the memory that \<open>realloc\<close> adds when the buffer grows by \<open>n\<close>
  bytes, \<open>None\<close> when it fails; \<open>mem_ok\<close> is for the message. The result: \<open>Inl\<close> a return value, or \<open>Inr\<close> the value of \<open>ret\<close>.
\<close>

definition decode_pass :: "bool \<Rightarrow> (nat \<Rightarrow> bytes option) \<Rightarrow> DSSESSION \<Rightarrow> ((int + int) \<times> DSSESSION) option" where
  "decode_pass mem_ok extra s =
     (case l_r_buffer s of
        None \<Rightarrow> Some (Inr LDAP_RET_OK, s)
      | Some m \<Rightarrow>
          if l_r_len s < 5 then Some (Inr LDAP_RET_OK, s)
          else do {
            (body, len) \<leftarrow> frame m s;
            let s = s\<lparr>l_r_ber_body := body, l_r_ber_body_length := len\<rparr>;
            total \<leftarrow> int_add body len;
            n \<leftarrow> int_add total 1;
            if n > int (length m) then
              (case extra (nat n - length m) of
                 None \<Rightarrow> Some (Inl LDAP_RET_ERR_MEMORY, s)
               | Some x \<Rightarrow> take_message mem_ok (m @ x) body len s)
            else take_message mem_ok m body len s
          })"

text \<open>
  The response times, in microseconds since the last write; \<open>tv\<close> is the time of day. All are
  of type \<open>unsigned long\<close>. The subtraction normalises the time of the write in the session.
\<close>

definition response_times :: "int \<times> int \<Rightarrow> DSSESSION \<Rightarrow> DS_t \<Rightarrow> DS_t \<times> DSSESSION" where
  "response_times tv s ds =
     (let ds = ds\<lparr>ds_recv_msg_count := ds_recv_msg_count ds + 1\<rparr>;
          ((sec, usec), y, _) = timeval_subtract tv (l_timestamp_write s);
          s = s\<lparr>l_timestamp_write := y\<rparr>;
          t = word_of_int (sec * 1000000 + usec);
          ds = ds\<lparr>ds_total_response_time := ds_total_response_time ds + t\<rparr>;
          ds = ds\<lparr>ds_max_response_time := (if t > ds_max_response_time ds then t else ds_max_response_time ds)\<rparr>;
          ds = ds\<lparr>ds_min_response_time :=
            (if ds_recv_msg_count ds > 1 then (if t < ds_min_response_time ds then t else ds_min_response_time ds)
             else t)\<rparr>;
          ds = ds\<lparr>ds_avg_response_time :=
            (if ds_recv_msg_count ds > 0 then ds_total_response_time ds div ds_recv_msg_count ds else 0)\<rparr>
      in (ds, s))"

text \<open>
  The loop goes round only on \<open>LDAP_RET_WAIT_MORE_DATA\<close>, which \<open>ldap_decode_request\<close> does not
  return: it is one pass. Over the limit of concurrent requests the new message is answered with
  success and dropped.
\<close>

definition LDAP_sess_decode ::
    "bool \<Rightarrow> (nat \<Rightarrow> bytes option) \<Rightarrow> (bytes \<Rightarrow> int) \<Rightarrow> int \<times> int \<Rightarrow> nat \<Rightarrow> DS_t \<Rightarrow> (int \<times> DS_t \<times> bytes) option" where
  "LDAP_sess_decode mem_ok extra send tv i ds = do {
     (r, s) \<leftarrow> decode_pass mem_ok extra (ds_session ds i);
     case r of
       Inl ret \<Rightarrow> Some (ret, ds_upd i s ds, [])
     | Inr ret \<Rightarrow>
         if ret = LDAP_RET_DATA_AVAILABLE then
           if l_concurrent_count s < ds_max_concurrent ds then
             (let (ds, s) = response_times tv (s\<lparr>l_concurrent_count := l_concurrent_count s + 1\<rparr>) ds
              in Some (ret, ds_upd i s ds, []))
           else if l_rdata s = [] then None
           else do {
             (_, out) \<leftarrow> ldap_send_generic_resp send LDAP_RESULT_SUCCESS (last (l_rdata s));
             Some (LDAP_RET_ERR_UNEXPECTED_RECEIVE, ds_upd i (s\<lparr>l_rdata := butlast (l_rdata s)\<rparr>) ds, out)
           }
         else Some (ret, ds_upd i s ds, [])
   }"

section \<open>Framing\<close>

text \<open>The bytes received and not yet decoded.\<close>

definition received :: "DSSESSION \<Rightarrow> bytes" where
  "received s = take (nat (l_r_len s)) (or_empty (l_r_buffer s))"

text \<open>
  The read side of a session: the received bytes leave room in the buffer, and the position and
  the length of the next message are both unknown or both known.
\<close>

definition in_ok :: "DSSESSION \<Rightarrow> bool" where
  "in_ok s \<longleftrightarrow> (\<forall>m. l_r_buffer s = Some m \<longrightarrow> 0 \<le> l_r_len s \<and> l_r_len s < int (length m)) \<and>
     (l_r_ber_body s = -1 \<and> l_r_ber_body_length s = -1 \<or> 0 \<le> l_r_ber_body s \<and> 2 \<le> l_r_ber_body_length s)"

definition extra_ok :: "(nat \<Rightarrow> bytes option) \<Rightarrow> bool" where
  "extra_ok extra \<longleftrightarrow> (\<forall>k x. extra k = Some x \<longrightarrow> length x = k)"

lemma find_sequence_at: "find_sequence m = Some b \<Longrightarrow> at m b = Some 0x30 \<and> b < length m"
  by (induction m arbitrary: b) (auto split: if_splits)

lemma frame_range: "in_ok s \<Longrightarrow> frame m s = Some (b, l) \<Longrightarrow> 0 \<le> b \<and> 2 \<le> l"
  by (auto simp: frame_def in_ok_def bind_eq_Some_conv int_add_def split: if_splits dest!: FIND_LENGTH_next)

lemma take_message_cases:
  assumes "take_message mem_ok m b l s = Some (r, s')" "0 \<le> b" "2 \<le> l"
  obtains (partial) "r = Inl LDAP_RET_OK" "l_r_len s < b + l" "s' = s\<lparr>l_r_buffer := Some m\<rparr>"
  | (message) ret msg n where "r = Inr ret" "ldap_decode_request mem_ok m (nat b) l = Some (ret, msg)"
      "n = l_r_len s - (b + l)" "0 \<le> n"
      "s' = s\<lparr>l_r_ber_body := -1, l_r_ber_body_length := -1, l_r_len := n,
         l_rdata := l_rdata s @ (case msg of Some msg \<Rightarrow> [msg] | None \<Rightarrow> []),
         l_read_time := (if n > 0 then l_read_time s else 0),
         l_r_buffer := Some (if n > 0 then store_at 0 (take (nat n) (drop (nat (b + l)) m)) m else m)\<rparr>"
proof (cases "b + l > l_r_len s")
  case True
  then show thesis using assms partial by (simp add: take_message_def)
next
  case False
  with assms(1) obtain ret msg where d: "ldap_decode_request mem_ok m (nat b) l = Some (ret, msg)"
    by (auto simp: take_message_def bind_eq_Some_conv)
  show thesis
    by (rule message [OF _ d]) (use assms(1) False d in \<open>auto simp: take_message_def Let_def\<close>)
qed

lemma decode_pass_cases:
  assumes "in_ok s" "extra_ok extra" "decode_pass mem_ok extra s = Some (r, s')"
  obtains (idle) "r = Inr LDAP_RET_OK" "s' = s" "l_r_buffer s = None \<or> l_r_len s < 5"
  | (no_memory) b l where "r = Inl LDAP_RET_ERR_MEMORY" "s' = s\<lparr>l_r_ber_body := b, l_r_ber_body_length := l\<rparr>"
      "0 \<le> b" "2 \<le> l"
  | (framed) b l m x where "l_r_buffer s = Some m" "0 \<le> b" "2 \<le> l" "frame m s = Some (b, l)"
      "b + l + 1 \<le> int (length (m @ x))"
      "take_message mem_ok (m @ x) b l (s\<lparr>l_r_ber_body := b, l_r_ber_body_length := l\<rparr>) = Some (r, s')"
proof (cases "l_r_buffer s = None \<or> l_r_len s < 5")
  case True
  then show thesis using assms(3) idle by (auto simp: decode_pass_def split: option.splits)
next
  case False
  then obtain m b l where m: "l_r_buffer s = Some m" "\<not> l_r_len s < 5" and f: "frame m s = Some (b, l)"
    and i: "int_add b l = Some (b + l)" "int_add (b + l) 1 = Some (b + l + 1)"
    using assms(3) by (auto simp: decode_pass_def int_add_def bind_eq_Some_conv split: if_splits)
  have bl: "0 \<le> b" "2 \<le> l" using frame_range [OF assms(1) f] by auto
  note d = assms(3) [unfolded decode_pass_def, simplified m f i option.case if_False bind.bind_lunit prod.case Let_def]
  show thesis
  proof (cases "b + l + 1 > int (length m)")
    case True
    show thesis
    proof (cases "extra (nat (b + l + 1) - length m)")
      case None
      then show thesis using True d bl by (intro no_memory) auto
    next
      case (Some x)
      then have "length x = nat (b + l + 1) - length m" using assms(2) by (simp add: extra_ok_def)
      with Some True d bl m f show thesis by (intro framed [of m b l x]) auto
    qed
  next
    case False
    then show thesis using d bl m f framed [of m b l "[]"] by simp
  qed
qed

lemma length_store_at: "p + length bs \<le> length m \<Longrightarrow> length (store_at p bs m) = length m"
  by (simp add: store_at_def)

lemma length_moved: "length (store_at 0 (take n (drop k m)) m) = length m"
  by (rule length_store_at) simp

text \<open>What a pass leaves alone, and what it does to the received bytes and to the queue.\<close>

definition pass_ok :: "DSSESSION \<Rightarrow> int + int \<Rightarrow> DSSESSION \<Rightarrow> bool" where
  "pass_ok s r s' \<longleftrightarrow> in_ok s' \<and> l_sock s' = l_sock s \<and> l_no s' = l_no s \<and> l_state s' = l_state s \<and>
     l_user s' = l_user s \<and> l_w_buffer s' = l_w_buffer s \<and> l_w_curr s' = l_w_curr s \<and>
     l_concurrent_count s' = l_concurrent_count s \<and>
     (l_r_buffer s = None \<longrightarrow> s' = s) \<and> l_r_len s' \<le> l_r_len s \<and>
     (case r of
        Inl ret \<Rightarrow> (ret = LDAP_RET_OK \<or> ret = LDAP_RET_ERR_MEMORY) \<and> l_rdata s' = l_rdata s \<and> l_r_len s' = l_r_len s
      | Inr ret \<Rightarrow>
          (if ret = LDAP_RET_DATA_AVAILABLE then \<exists>msg. l_rdata s' = l_rdata s @ [msg]
           else l_rdata s' = l_rdata s \<and> ret \<in> {LDAP_RET_OK, LDAP_RET_RECV_UNBIND, LDAP_RET_ERR_DECODE, LDAP_RET_ERR_MEMORY}) \<and>
          (ret = LDAP_RET_OK \<longrightarrow> s' = s) \<and> (ret \<noteq> LDAP_RET_OK \<longrightarrow> l_r_len s' + 2 \<le> l_r_len s))"

lemma decode_pass_ok:
  assumes "in_ok s" "extra_ok extra" "decode_pass mem_ok extra s = Some (r, s')"
  shows "pass_ok s r s'"
  using assms
proof (cases rule: decode_pass_cases)
  case idle
  then show ?thesis using assms(1) by (auto simp: pass_ok_def)
next
  case (no_memory b l)
  then show ?thesis using assms(1,3) by (auto simp: pass_ok_def in_ok_def decode_pass_def)
next
  case (framed b l m x)
  note r = framed(6)
  have i: "0 \<le> l_r_len s" "l_r_len s < int (length m)" using assms(1) framed(1) by (auto simp: in_ok_def)
  from r framed(2,3) show ?thesis
  proof (cases rule: take_message_cases)
    case partial
    then show ?thesis using i framed by (auto simp: pass_ok_def in_ok_def)
  next
    case (message ret msg n)
    define buf where "buf = (if n > 0 then store_at 0 (take (nat n) (drop (nat (b + l)) (m @ x))) (m @ x) else m @ x)"
    have buf: "length buf = length (m @ x)" unfolding buf_def by (simp only: length_moved split: if_split) simp
    have s': "s' = s\<lparr>l_r_ber_body := -1, l_r_ber_body_length := -1, l_r_len := n,
         l_rdata := l_rdata s @ (case msg of Some msg \<Rightarrow> [msg] | None \<Rightarrow> []),
         l_read_time := (if n > 0 then l_read_time s else 0), l_r_buffer := Some buf\<rparr>"
      using message(5) by (simp add: buf_def)
    have n: "n < int (length buf)" "0 \<le> n" "n + 2 \<le> l_r_len s"
      using message(3,4) i framed(2,3) buf by simp_all
    then have "in_ok s'" unfolding in_ok_def s' by simp
    moreover have "l_rdata s' = l_rdata s @ (case msg of Some msg \<Rightarrow> [msg] | None \<Rightarrow> [])" "l_sock s' = l_sock s"
      "l_no s' = l_no s" "l_state s' = l_state s" "l_user s' = l_user s" "l_w_buffer s' = l_w_buffer s"
      "l_w_curr s' = l_w_curr s" "l_concurrent_count s' = l_concurrent_count s" "l_r_len s' = n"
      unfolding s' by simp_all
    moreover have "n \<le> l_r_len s" using n(3) by simp
    ultimately show ?thesis
      using decode_request_code [OF message(2)] unfolding pass_ok_def message(1) sum.case
      by (elim disjE conjE exE) (use n(3) framed(1) in \<open>simp_all\<close>)
  qed
qed

text \<open>The frame of an element depends on its header only.\<close>

lemma FIND_LENGTH_octets:
  "n < 2 ^ 24 \<Longrightarrow> FIND_LENGTH (0x30 # len_octets n @ ys) (0 + 1) = Some (int n, hdr n)"
proof -
  assume "n < 2 ^ 24"
  then obtain bs where "INSERT_LENGTH (int n) = Some bs"
    "\<And>pre suf. FIND_LENGTH (pre @ bs @ suf) (length pre) = Some (int n, length pre + length bs)"
    using insert_find [of "int n"] by auto
  from this(2) [of "[0x30]" ys] this(1) show ?thesis by (simp add: len_octets_def hdr_def)
qed

lemma frame_octets:
  assumes "n < 2 ^ 24" "l_r_ber_body s = -1" "l_r_ber_body_length s = -1"
  shows "frame (0x30 # len_octets n @ ys) s = Some (0, int (hdr n + n))"
  using FIND_LENGTH_octets [OF assms(1), of ys] hdr_bounds [OF assms(1)] assms
  by (auto simp: frame_def int_add_def)

lemma prefix_octets:
  assumes "n < 2 ^ 24" "5 \<le> k" "take k m = take k (0x30 # len_octets n @ xs)"
  shows "\<exists>ys. m = 0x30 # len_octets n @ ys"
proof -
  have h: "length (0x30 # len_octets n) \<le> 5" using hdr_bounds [OF assms(1)] by (simp add: hdr_def)
  have "take (length (0x30 # len_octets n)) m = take (length (0x30 # len_octets n)) (take k m)"
    using h assms(2) by (simp add: min_absorb1)
  also have "\<dots> = 0x30 # len_octets n"
    unfolding assms(3) using h assms(2) by (simp add: min_absorb1)
  finally show ?thesis by (metis append_Cons append_take_drop_id)
qed

text \<open>
  One pass. When the received bytes are the start of an encoded request and what follows it, a pass
  over them either knows that the message is not complete, keeps what was received and remembers the
  frame, or decodes exactly that request and leaves exactly the bytes behind it. The byte behind the
  message in the buffer must not be the tag of controls, received or not.
\<close>

lemma decode_pass_framing:
  fixes r mid
  defines "msg \<equiv> enc_message mid r"
  assumes "fits_request r" "0 < mid" "mid < 2 ^ 24" "length msg < 2 ^ 24"
    and "l_r_buffer s = Some m" "l_r_len s = int k" "5 \<le> k" "k < length m"
    and "k \<le> length (msg @ rest)" "take k m = take k (msg @ rest)"
    and "l_r_ber_body s = -1 \<and> l_r_ber_body_length s = -1 \<or>
      l_r_ber_body s = 0 \<and> l_r_ber_body_length s = int (length msg)"
    and "length msg \<le> k \<Longrightarrow> at m (length msg) \<noteq> Some 0xa0"
  shows "if k < length msg
    then \<exists>q s' m'. decode_pass True extra s = Some (Inl q, s') \<and> received s' = received s \<and>
      s' = s\<lparr>l_r_ber_body := 0, l_r_ber_body_length := int (length msg), l_r_buffer := Some m'\<rparr> \<and>
      ((\<forall>n. extra n \<noteq> None) \<longrightarrow> q = LDAP_RET_OK)
    else \<exists>s'. decode_pass True extra s = Some (Inr LDAP_RET_DATA_AVAILABLE, s') \<and>
      received s' = drop (length msg) (received s) \<and>
      l_rdata s' = l_rdata s @ [\<lparr>message_id = mid, alt = r, controls = []\<rparr>] \<and>
      l_r_ber_body s' = -1 \<and> l_r_ber_body_length s' = -1 \<and> l_r_buffer s' \<noteq> None"
proof -
  obtain c where c: "msg = tlv 0x30 c" by (simp add: msg_def enc_message_def)
  have n: "length msg = hdr (length c) + length c" "length c < 2 ^ 24"
    using assms(5) by (simp_all add: c length_tlv)
  have "take k m = take k (0x30 # len_octets (length c) @ (c @ rest))" using assms(11) by (simp add: c tlv_def)
  then obtain ys where ys: "m = 0x30 # len_octets (length c) @ ys" using prefix_octets [OF n(2) assms(8)] by blast
  have f: "frame m s = Some (0, int (length msg))"
    using frame_octets [OF n(2), of s ys] assms(12) n(1) ys by (auto simp: frame_def)
  have i: "int_add 0 (int (length msg)) = Some (int (length msg))"
    "int_add (int (length msg)) 1 = Some (int (length msg) + 1)"
    using assms(5) by (simp_all add: int_add_def)
  let ?s = "s\<lparr>l_r_ber_body := 0, l_r_ber_body_length := int (length msg)\<rparr>"
  note pass = decode_pass_def [of True extra s, unfolded assms(6) option.case Let_def f i bind.bind_lunit prod.case]
  show ?thesis
  proof (cases "k < length msg")
    case True
    have rec: "received (?s\<lparr>l_r_buffer := Some (m @ x)\<rparr>) = received s" for x
      using assms(6,7,9) by (simp add: received_def or_empty_def)
    have t: "take_message True (m @ x) 0 (int (length msg)) ?s = Some (Inl LDAP_RET_OK, ?s\<lparr>l_r_buffer := Some (m @ x)\<rparr>)" for x
      using True assms(7) by (simp add: take_message_def)
    have e: "?s\<lparr>l_r_buffer := Some (m @ [])\<rparr> = ?s" using assms(6) by simp
    note unfold = pass [unfolded i bind.bind_lunit] t t [of "[]", unfolded e append_Nil2] assms(6,7)
    have "\<exists>q x. decode_pass True extra s = Some (Inl q, ?s\<lparr>l_r_buffer := Some (m @ x)\<rparr>) \<and>
        ((\<forall>n. extra n \<noteq> None) \<longrightarrow> q = LDAP_RET_OK)"
    proof (cases "int (length msg) + 1 > int (length m)")
      case True
      show ?thesis
      proof (cases "extra (nat (int (length msg) + 1) - length m)")
        case None
        then have "decode_pass True extra s = Some (Inl LDAP_RET_ERR_MEMORY, ?s\<lparr>l_r_buffer := Some (m @ [])\<rparr>)"
          using True assms(7,8) unfolding e by (simp add: unfold)
        with None show ?thesis by blast
      next
        case (Some x)
        then show ?thesis using True assms(8) by (auto simp: unfold)
      qed
    next
      case False
      then have "decode_pass True extra s = Some (Inl LDAP_RET_OK, ?s\<lparr>l_r_buffer := Some (m @ [])\<rparr>)"
        using assms(8) unfolding e by (simp add: unfold)
      then show ?thesis by blast
    qed
    with rec True show ?thesis by auto
  next
    case False
    then have xm: "length msg < length m" using assms(9) by simp
    have "take (length msg) m = msg"
      using arg_cong [OF assms(11), of "take (length msg)"] False by (simp add: min_absorb1)
    then have d: "drop 0 m = enc_message mid r @ drop (length msg) m"
      unfolding msg_def by (metis append_take_drop_id drop0)
    have "drop (length msg) m \<noteq> [] \<and> hd (drop (length msg) m) \<noteq> 0xa0"
      using xm assms(13) False by (auto simp: at_def hd_drop_conv_nth)
    then have q: "ldap_decode_request True m 0 (int (length msg)) =
        Some (LDAP_RET_DATA_AVAILABLE, Some \<lparr>message_id = mid, alt = r, controls = []\<rparr>)"
      using decode_message [OF assms(2-4) _ _ _ _ d] assms(5) by (simp add: msg_def)
    have "decode_pass True extra s = take_message True m 0 (int (length msg)) ?s"
      using xm assms(7,8) i unfolding pass by simp
    moreover have "store_at 0 (take n (drop p m)) m = take n (drop p m) @ drop (length (take n (drop p m))) m" for n p
      by (simp add: store_at_def)
    ultimately show ?thesis
      using False q xm assms(6,7,9)
      by (auto simp: take_message_def received_def or_empty_def Let_def drop_take nat_diff_distrib)
  qed
qed

section \<open>The output stream\<close>

lemma or_empty_simps [simp]: "or_empty (Some v) = v" "or_empty None = []"
  by (simp_all add: or_empty_def)

text \<open>The bytes queued and not yet sent.\<close>

definition unsent :: "DSSESSION \<Rightarrow> bytes" where
  "unsent s = drop (nat (l_w_curr s)) (or_empty (l_w_buffer s))"

definition out_ok :: "DSSESSION \<Rightarrow> bool" where
  "out_ok s \<longleftrightarrow> 0 \<le> l_w_curr s \<and> l_w_curr s \<le> int (length (or_empty (l_w_buffer s)))"

text \<open>\<open>send\<close> takes no more than it is given.\<close>

definition send_ok :: "(bytes \<Rightarrow> int) \<Rightarrow> bool" where
  "send_ok send \<longleftrightarrow> (\<forall>bs. send bs \<le> int (length bs))"

text \<open>An operation that changes one slot and keeps its socket and number.\<close>

definition slot_only :: "nat \<Rightarrow> DS_t \<Rightarrow> DS_t \<Rightarrow> bool" where
  "slot_only i ds ds' \<longleftrightarrow> ds_last_session ds' = ds_last_session ds \<and> ds_session_count ds' = ds_session_count ds \<and>
     ds_max_session ds' = ds_max_session ds \<and> ds_user_list ds' = ds_user_list ds \<and>
     (\<forall>j. j \<noteq> i \<longrightarrow> ds_session ds' j = ds_session ds j) \<and>
     l_socks ds' i = l_socks ds i \<and> l_no (ds_session ds' i) = l_no (ds_session ds i)"

lemma slot_only_refl [simp]: "slot_only i ds ds"
  by (simp add: slot_only_def)

lemma slot_only_upd [simp]:
  "slot_only i ds (ds_upd i s ds) \<longleftrightarrow> l_sock s = l_socks ds i \<and> l_no s = l_no (ds_session ds i)"
  "slot_only i ds (ds\<lparr>ds_sent_msg_count := a\<rparr>)" "slot_only i ds (ds\<lparr>ds_recv_msg_count := b\<rparr>)"
  by (auto simp: slot_only_def)

lemma slot_only_trans: "slot_only i ds ds1 \<Longrightarrow> slot_only i ds1 ds2 \<Longrightarrow> slot_only i ds ds2"
  by (auto simp: slot_only_def)

text \<open>The output side moves and nothing else, as far as the protocol is concerned.\<close>

definition out_only :: "DSSESSION \<Rightarrow> DSSESSION \<Rightarrow> bool" where
  "out_only s s' \<longleftrightarrow> l_state s' = l_state s \<and> l_user s' = l_user s \<and> l_r_buffer s' = l_r_buffer s \<and>
     l_r_len s' = l_r_len s \<and> l_r_ber_body s' = l_r_ber_body s \<and>
     l_r_ber_body_length s' = l_r_ber_body_length s \<and> l_rdata s' = l_rdata s"

lemma out_only_refl [simp]: "out_only s s"
  by (simp add: out_only_def)

lemma ldap_write_cases:
  assumes "LDAP_sess_write send fw now i ds = Some (r, ds', bs)" "out_ok (ds_session ds i)"
  obtains (idle) "ds' = ds" "bs = []" "r = LDAP_RET_OK \<or> r = LDAP_RET_ERR_CONNECT"
      "r = LDAP_RET_OK \<longrightarrow> unsent (ds_session ds i) = []"
  | (failed) "ds' = ds" "send bs < 0" "r = LDAP_RET_ERR_SEND"
  | (part) w where "l_w_buffer (ds_session ds i) = Some w" "0 \<le> send bs"
      "bs = take 131072 (unsent (ds_session ds i))" "l_w_curr (ds_session ds i) + send bs < int (length w)"
      "ds' = ds_upd i ((ds_session ds i)\<lparr>l_w_curr := l_w_curr (ds_session ds i) + send bs, l_write_time := now\<rparr>) ds"
      "r = LDAP_RET_ERR_SEND \<or> r = LDAP_RET_SENT_FRAGMENT"
  | (all) w where "l_w_buffer (ds_session ds i) = Some w" "0 \<le> send bs"
      "bs = take 131072 (unsent (ds_session ds i))" "int (length w) \<le> l_w_curr (ds_session ds i) + send bs"
      "ds' = (ds_upd i ((ds_session ds i)\<lparr>l_w_curr := 0, l_w_buffer := Some [], l_write_time := 0,
          l_write_count := l_write_count (ds_session ds i) + 1\<rparr>) ds)\<lparr>ds_sent_msg_count := ds_sent_msg_count ds + 1\<rparr>"
      "r = LDAP_RET_SENT"
proof (cases "l_state (ds_session ds i) = LDAP_SERV_STATE_OPEN \<or> or_empty (l_w_buffer (ds_session ds i)) = []")
  case True
  then show thesis using assms(1) idle
    by (auto simp: LDAP_sess_write_def Let_def or_empty_def unsent_def split: option.splits if_splits)
next
  case False
  then obtain w where w: "l_w_buffer (ds_session ds i) = Some w" "w \<noteq> []"
    by (auto simp: or_empty_def split: option.splits)
  define s where "s = ds_session ds i"
  define n where "n = (if int (length w) - l_w_curr s > LDAP_WRITE_BUFFER then LDAP_WRITE_BUFFER
    else int (length w) - l_w_curr s)"
  have c: "0 \<le> l_w_curr s" "l_w_curr s \<le> int (length w)"
    using assms(2) w by (simp_all add: out_ok_def or_empty_def s_def)
  then have n: "0 \<le> n" "take (nat n) (drop (nat (l_w_curr s)) w) = take 131072 (unsent s)"
    using w by (auto simp: n_def unsent_def or_empty_def s_def nat_diff_distrib)
  note def = LDAP_sess_write_def [of send fw now i ds, unfolded Let_def, folded s_def]
  have st: "l_state s \<noteq> LDAP_SERV_STATE_OPEN" "l_w_buffer s = Some w" using False w by (simp_all add: s_def)
  show thesis
  proof (cases "send (take 131072 (unsent s)) < 0")
    case True
    then show thesis using assms(1) failed st w(2) c n by (auto simp: def n_def [symmetric])
  next
    case nonneg: False
    show thesis
    proof (cases "l_w_curr s + send (take 131072 (unsent s)) < int (length w)")
      case True
      show thesis by (rule part [of w, folded s_def])
        (use True nonneg assms(1) st w(2) c n in \<open>auto simp: def n_def [symmetric] split: option.splits if_splits\<close>)
    next
      case False
      show thesis by (rule all [of w, folded s_def])
        (use False nonneg assms(1) st w(2) c n in \<open>auto simp: def n_def [symmetric]\<close>)
    qed
  qed
qed

lemma sess_write_stream:
  assumes "out_ok (ds_session ds i)" "send_ok send"
    "LDAP_sess_write send fw now i ds = Some (r, ds', bs)"
  shows "out_ok (ds_session ds' i)"
    "take (nat (send bs)) bs @ unsent (ds_session ds' i) = unsent (ds_session ds i)"
    "slot_only i ds ds'" "out_only (ds_session ds i) (ds_session ds' i)"
    "r = LDAP_RET_SENT \<Longrightarrow> unsent (ds_session ds' i) = []"
    "l_w_buffer (ds_session ds' i) = None \<longleftrightarrow> l_w_buffer (ds_session ds i) = None"
proof -
  define s where "s = ds_session ds i"
  have c: "0 \<le> l_w_curr s" using assms(1) by (simp add: out_ok_def s_def)
  have k: "send bs \<le> int (length bs)" using assms(2) by (simp add: send_ok_def)
  have "out_ok (ds_session ds' i) \<and> take (nat (send bs)) bs @ unsent (ds_session ds' i) = unsent s \<and>
    slot_only i ds ds' \<and> out_only s (ds_session ds' i) \<and> (r = LDAP_RET_SENT \<longrightarrow> unsent (ds_session ds' i) = []) \<and>
    (l_w_buffer (ds_session ds' i) = None \<longleftrightarrow> l_w_buffer (ds_session ds i) = None)"
    using assms(3,1)
  proof (cases rule: ldap_write_cases)
    case (part w)
    have "nat (send bs) \<le> length bs" using k by simp
    then have "take (nat (send bs)) bs = take (nat (send bs)) (unsent s)"
      using part(3) by (simp add: s_def [symmetric] min_absorb1)
    then have "take (nat (send bs)) bs @ drop (nat (send bs)) (unsent s) = unsent s" by simp
    moreover have "drop (nat (send bs)) (unsent s) = drop (nat (l_w_curr s + send bs)) w"
      using part c by (simp add: unsent_def or_empty_def s_def nat_add_distrib add.commute)
    ultimately have "take (nat (send bs)) bs @ unsent (ds_session ds' i) = unsent s"
      using part(5) part(1) by (simp add: unsent_def [of "_\<lparr>l_write_time := now\<rparr>"] or_empty_def s_def)
    moreover have "r \<noteq> LDAP_RET_SENT" using part(6) by auto
    ultimately show ?thesis
      using part c by (simp add: out_ok_def or_empty_def out_only_def s_def)
  next
    case (all w)
    have u: "unsent s = drop (nat (l_w_curr s)) w" using all by (simp add: unsent_def or_empty_def s_def)
    have "length (unsent s) \<le> nat (send bs)" using all(4) c u by (simp add: s_def)
    moreover have "nat (send bs) \<le> length bs" using k by simp
    ultimately have "take (nat (send bs)) bs = unsent s" using all(3) by (simp add: s_def [symmetric])
    then show ?thesis
      using all by (simp add: s_def [symmetric])
        (simp add: out_ok_def or_empty_def unsent_def out_only_def slot_only_def s_def)
  qed (use assms(1) in \<open>auto simp: s_def\<close>)
  then show "out_ok (ds_session ds' i)"
    "take (nat (send bs)) bs @ unsent (ds_session ds' i) = unsent (ds_session ds i)"
    "slot_only i ds ds'" "out_only (ds_session ds i) (ds_session ds' i)"
    "r = LDAP_RET_SENT \<Longrightarrow> unsent (ds_session ds' i) = []"
    "l_w_buffer (ds_session ds' i) = None \<longleftrightarrow> l_w_buffer (ds_session ds i) = None"
    unfolding s_def by blast+
qed

lemma sess_write_some:
  assumes "out_ok (ds_session ds i)"
  shows "\<exists>x. LDAP_sess_write send fw now i ds = Some x"
  using assms by (auto simp: LDAP_sess_write_def Let_def out_ok_def or_empty_def split: option.splits)

text \<open>Queueing a message that has memory.\<close>

lemma send_message_stream:
  assumes "out_ok (ds_session ds i)" "LDAP_sess_send_message True fw now ber i ds = Some (r, ds')"
  shows "out_ok (ds_session ds' i)" "unsent (ds_session ds' i) = unsent (ds_session ds i) @ ber"
    "slot_only i ds ds'" "out_only (ds_session ds i) (ds_session ds' i)"
proof -
  define w where "w = or_empty (l_w_buffer (ds_session ds i))"
  obtain s' where s': "ds' = ds_upd i s' ds" "l_w_buffer s' = Some (w @ ber)"
    "l_w_curr s' = l_w_curr (ds_session ds i)" "out_only (ds_session ds i) s'"
    "l_sock s' = l_socks ds i" "l_no s' = l_no (ds_session ds i)"
    using assms(2) by (auto simp: LDAP_sess_send_message_def Let_def w_def out_only_def bind_eq_Some_conv
        or_empty_def split: if_splits)
  have "0 \<le> l_w_curr (ds_session ds i)" "l_w_curr (ds_session ds i) \<le> int (length w)"
    using assms(1) by (simp_all add: out_ok_def w_def)
  then show "out_ok (ds_session ds' i)" "unsent (ds_session ds' i) = unsent (ds_session ds i) @ ber"
    "slot_only i ds ds'" "out_only (ds_session ds i) (ds_session ds' i)"
    using s' by (auto simp: out_ok_def unsent_def nat_le_iff simp flip: w_def)
qed

text \<open>A run of the output side: messages queued and calls of \<open>LDAP_sess_write\<close>, in any order.\<close>

datatype ldap_out = Queue bytes | Flush "bytes \<Rightarrow> int" "int option"

fun out_run :: "int \<Rightarrow> nat \<Rightarrow> ldap_out list \<Rightarrow> DS_t \<Rightarrow> (DS_t \<times> bytes) option" where
  "out_run now i [] ds = Some (ds, [])"
| "out_run now i (Queue ber # ops) ds = do {
     (_, ds) \<leftarrow> LDAP_sess_send_message True None now ber i ds;
     out_run now i ops ds
   }"
| "out_run now i (Flush send fw # ops) ds = do {
     (_, ds, bs) \<leftarrow> LDAP_sess_write send fw now i ds;
     (ds, sent) \<leftarrow> out_run now i ops ds;
     Some (ds, take (nat (send bs)) bs @ sent)
   }"

fun queued :: "ldap_out list \<Rightarrow> bytes" where
  "queued [] = []"
| "queued (Queue ber # ops) = ber @ queued ops"
| "queued (Flush send fw # ops) = queued ops"

definition out_ops_ok :: "ldap_out list \<Rightarrow> bool" where
  "out_ops_ok ops \<longleftrightarrow> (\<forall>send fw. Flush send fw \<in> set ops \<longrightarrow> send_ok send)"

lemma out_ops_ok_simps [simp]:
  "out_ops_ok (Queue ber # ops) = out_ops_ok ops"
  "out_ops_ok (Flush send fw # ops) \<longleftrightarrow> send_ok send \<and> out_ops_ok ops"
  by (auto simp: out_ops_ok_def)

lemma out_run_stream:
  "out_run now i ops ds = Some (ds', sent) \<Longrightarrow> out_ok (ds_session ds i) \<Longrightarrow> out_ops_ok ops \<Longrightarrow>
   out_ok (ds_session ds' i) \<and> sent @ unsent (ds_session ds' i) = unsent (ds_session ds i) @ queued ops \<and>
   slot_only i ds ds'"
proof (induction now i ops ds arbitrary: ds' sent rule: out_run.induct)
  case (2 now i ber ops ds)
  from 2(2) obtain r ds1 where q: "LDAP_sess_send_message True None now ber i ds = Some (r, ds1)"
    "out_run now i ops ds1 = Some (ds', sent)" by (auto simp: bind_eq_Some_conv)
  note m = send_message_stream [OF 2(3) q(1)]
  from 2(1) [OF q(1) refl q(2) m(1)] m 2(4) slot_only_trans show ?case by auto
next
  case (3 now i send fw ops ds)
  from 3(2) obtain r ds1 bs sent1 where q: "LDAP_sess_write send fw now i ds = Some (r, ds1, bs)"
    "out_run now i ops ds1 = Some (ds', sent1)" "sent = take (nat (send bs)) bs @ sent1"
    by (auto simp: bind_eq_Some_conv)
  have s: "send_ok send" "out_ops_ok ops" using 3(4) by simp_all
  note m = sess_write_stream [OF 3(3) s(1) q(1)]
  have "out_ok (ds_session ds' i) \<and> sent1 @ unsent (ds_session ds' i) = unsent (ds_session ds1 i) @ queued ops \<and>
      slot_only i ds1 ds'"
    using 3(1) [OF q(1) refl refl q(2) m(1) s(2)] .
  with m(2,3) q(3) slot_only_trans show ?case by (metis append.assoc queued.simps(3))
qed simp

text \<open>
  C11. Whatever the order of messages queued and calls of \<open>LDAP_sess_write\<close>, and whatever part of
  what it is given \<open>send\<close> takes each time or refuses, the peer receives the bytes in the order in
  which they were queued: what was sent and what is still unsent are together what was unsent
  before followed by the messages queued. No other session is touched.
\<close>

theorem ldap_output_stream:
  assumes "out_run now i ops ds = Some (ds', sent)" "out_ok (ds_session ds i)" "out_ops_ok ops"
  shows "sent @ unsent (ds_session ds' i) = unsent (ds_session ds i) @ queued ops \<and>
    out_ok (ds_session ds' i) \<and> (\<forall>j. j \<noteq> i \<longrightarrow> ds_session ds' j = ds_session ds j)"
  using out_run_stream [OF assms] by (simp add: slot_only_def)

theorem ldap_output_stream_witness:
  "\<exists>ds' sent. out_run 9 0 [Queue [1, 2, 3], Flush (\<lambda>bs. min 2 (int (length bs))) None, Queue [4], Flush (\<lambda>_. -1) None]
      ((demo_ds 1)\<lparr>ds_session := \<lambda>_. session_zero\<lparr>l_state := LDAP_SERV_STATE_READY\<rparr>\<rparr>) = Some (ds', sent) \<and>
    sent = [1, 2] \<and> unsent (ds_session ds' 0) = [3, 4]"
proof -
  let ?ds = "(demo_ds 1)\<lparr>ds_session := \<lambda>_. session_zero\<lparr>l_state := LDAP_SERV_STATE_READY\<rparr>\<rparr>"
  let ?ops = "[Queue [1, 2, 3], Flush (\<lambda>bs. min 2 (int (length bs))) None, Queue [4], Flush (\<lambda>_. -1) None]"
  obtain ds' where run: "out_run 9 0 ?ops ?ds = Some (ds', [1, 2])"
    by (simp add: LDAP_sess_send_message_def LDAP_sess_write_def Let_def session_zero_def int_add_def
        ds_upd_def ADJUST_SIZE_def)
  have "out_ok (ds_session ?ds 0)" "out_ops_ok ?ops" "unsent (ds_session ?ds 0) = []"
    by (simp_all add: out_ok_def session_zero_def out_ops_ok_def send_ok_def unsent_def)
  with ldap_output_stream [OF run] run show ?thesis by simp
qed

section \<open>Sessions that the decoder does not serve\<close>

text \<open>The search for the tag of a sequence does not stop at the end of what was received.\<close>

lemma find_sequence_none: "find_sequence m = None \<longleftrightarrow> 0x30 \<notin> set m"
  by (induction m) auto

lemma decode_pass_overread:
  "l_r_buffer s = Some m \<Longrightarrow> 0x30 \<notin> set m \<Longrightarrow> 5 \<le> l_r_len s \<Longrightarrow> l_r_ber_body s < 0 \<Longrightarrow> decode_pass mem_ok extra s = None"
  using find_sequence_none [of m] by (simp add: decode_pass_def frame_def)

text \<open>
  Over the limit of concurrent requests a request is dropped, and its client is told that it
  succeeded; a request whose operation is unknown dereferences \<open>NULL\<close>.
\<close>

lemma dropped_request_succeeds:
  assumes "decode_pass mem_ok extra (ds_session ds i) = Some (Inr LDAP_RET_DATA_AVAILABLE, s)"
    "l_rdata s = q @ [msg]" "alt msg = DeleteRequest dn" "ds_max_concurrent ds \<le> l_concurrent_count s"
    "LDAP_gen_delete_response None (message_id msg) LDAP_RESULT_SUCCESS None None = Some ber"
  shows "LDAP_sess_decode mem_ok extra send tv i ds =
    Some (LDAP_RET_ERR_UNEXPECTED_RECEIVE, ds_upd i (s\<lparr>l_rdata := q\<rparr>) ds, b_data ber)"
  using assms by (simp add: LDAP_sess_decode_def ldap_send_generic_resp_def)

lemma dropped_request_null:
  assumes "decode_pass mem_ok extra (ds_session ds i) = Some (Inr LDAP_RET_DATA_AVAILABLE, s)"
    "l_rdata s = q @ [msg]" "alt msg = BindRequest v" "ds_max_concurrent ds \<le> l_concurrent_count s"
  shows "LDAP_sess_decode mem_ok extra send tv i ds = None"
  using assms by (simp add: LDAP_sess_decode_def ldap_send_generic_resp_def)

end
