(* ===== verification/LdapState.thy ===== *)
theory LdapState
  imports LdapTransfer
begin

text \<open>
  The directory server as a state machine: the operations of libs/stacks/ldap/ldap_server.c as
  steps, in any order and with any answers of the operating system, the invariant of the reachable
  states, and that nobody is served who has not authenticated.
\<close>

section \<open>Authentication\<close>

definition knows :: "DSUSER list \<Rightarrow> DSUSER \<Rightarrow> bool" where
  "knows users u \<longleftrightarrow> user_known users (cstr (u_name u)) (cstr (u_password u))"

lemma knows_mono: "knows users u \<Longrightarrow> set users \<subseteq> set users' \<Longrightarrow> knows users' u"
  by (auto simp: knows_def user_known_def)

definition is_bind :: "LDAPMessage \<Rightarrow> bool" where
  "is_bind msg \<longleftrightarrow> (\<exists>v. alt msg = BindRequest v)"

text \<open>
  What reading a bind request does to a session: it stores the user and the request, and returns
  success for a known user only.
\<close>

definition bind_res :: "DSUSER list \<Rightarrow> DSSESSION \<Rightarrow> int \<times> DSSESSION \<Rightarrow> bool" where
  "bind_res users s res \<longleftrightarrow> (snd res)\<lparr>l_user := l_user s, l_rdata := l_rdata s\<rparr> = s \<and>
     (list_all is_bind (l_rdata s) \<longrightarrow> list_all is_bind (l_rdata (snd res))) \<and>
     (fst res = LDAP_RET_OK \<longrightarrow> knows users (l_user (snd res)))"

lemma bind_Some: "Option.bind e k = Some r \<Longrightarrow> (\<And>x. e = Some x \<Longrightarrow> k x = Some r \<Longrightarrow> Q r) \<Longrightarrow> Q r"
  by (auto simp: bind_eq_Some_conv)

lemma if_Some: "(if b then x else y) = Some r \<Longrightarrow> (b \<Longrightarrow> x = Some r \<Longrightarrow> Q r) \<Longrightarrow> (\<not> b \<Longrightarrow> y = Some r \<Longrightarrow> Q r) \<Longrightarrow> Q r"
  by (auto split: if_splits)

lemma recv_bind_user_known:
  assumes "recv_bind_user users buff i s = Some res"
  shows "bind_res users s res"
  using assms unfolding recv_bind_user_def Let_def
  by (elim bind_Some if_Some)
    (auto simp: bind_res_def authenticated_def list_ex_iff knows_def user_known_def split: if_splits)

lemma bind_res_queue:
  assumes "bind_res users (s\<lparr>l_rdata := q\<rparr>) res" "list_all is_bind q"
  shows "bind_res users s res"
proof -
  obtain r s' where res: "res = (r, s')" by (cases res)
  have "s'\<lparr>l_user := l_user s, l_rdata := q\<rparr> = s\<lparr>l_rdata := q\<rparr>" using assms(1) by (simp add: bind_res_def res)
  then have "s'\<lparr>l_user := l_user s, l_rdata := q\<rparr>\<lparr>l_rdata := l_rdata s\<rparr> = s\<lparr>l_rdata := q\<rparr>\<lparr>l_rdata := l_rdata s\<rparr>"
    by (rule arg_cong)
  then show ?thesis using assms by (simp add: bind_res_def res)
qed

lemma bind_res_fail: "r \<noteq> LDAP_RET_OK \<Longrightarrow> bind_res users s (r, s)"
  by (simp add: bind_res_def)

lemma recv_bind_known:
  assumes "ldap_recv_bind_rqt mem_ok n buff users s = Some res"
  shows "bind_res users s res"
proof -
  have user: "recv_bind_user users buff i (s\<lparr>l_rdata := [\<lparr>message_id = mid, alt = BindRequest v, controls = []\<rparr>]\<rparr>) =
      Some res \<Longrightarrow> bind_res users s res" for i mid v
    by (drule recv_bind_user_known, erule bind_res_queue) (simp add: is_bind_def)
  show ?thesis
    using assms unfolding ldap_recv_bind_rqt_def Let_def
    apply (elim bind_Some if_Some)
    apply (simp_all only: option.inject)
    apply (drule sym, simp add: bind_res_def is_bind_def; fail)+
    apply (rule user, simp)
    done
qed

text \<open>Reading on a session that has not authenticated.\<close>

lemma read_bind_known:
  assumes "read_bind env now users s = Some (r, s', out)"
  shows "l_sock s' = l_sock s \<and> l_no s' = l_no s \<and> l_r_buffer s' = l_r_buffer s \<and> l_w_buffer s' = l_w_buffer s \<and>
    l_w_curr s' = l_w_curr s \<and> l_r_len s' = l_r_len s \<and> l_r_ber_body s' = l_r_ber_body s \<and>
    l_r_ber_body_length s' = l_r_ber_body_length s \<and>
    (list_all is_bind (l_rdata s) \<longrightarrow> list_all is_bind (l_rdata s')) \<and>
    (l_state s' = l_state s \<or>
     r = LDAP_RET_READY \<and> l_state s' = LDAP_SERV_STATE_READY \<and> knows users (l_user s'))"
proof (cases "so_error env = Some 0")
  case True
  obtain n buff where nb: "recv_r env 512 = (n, buff)" by fastforce
  then obtain r1 s1 where r1: "ldap_recv_bind_rqt (malloc_ok env) n buff users s = Some (r1, s1)"
    using assms True by (auto simp: read_bind_def bind_eq_Some_conv)
  note k = recv_bind_known [OF r1, unfolded bind_res_def, simplified]
  define s0 where "s0 = s1\<lparr>l_user := l_user s, l_rdata := l_rdata s\<rparr>"
  have s0: "s0 = s" using k by (simp add: s0_def)
  have f: "l_sock s1 = l_sock s \<and> l_no s1 = l_no s \<and> l_r_buffer s1 = l_r_buffer s \<and> l_w_buffer s1 = l_w_buffer s \<and>
    l_w_curr s1 = l_w_curr s \<and> l_r_len s1 = l_r_len s \<and> l_r_ber_body s1 = l_r_ber_body s \<and>
    l_r_ber_body_length s1 = l_r_ber_body_length s \<and> l_state s1 = l_state s"
    unfolding s0 [symmetric] by (simp add: s0_def)
  have resp: "s2 = s1\<lparr>l_rdata := l_rdata s2\<rparr> \<and> (l_rdata s2 = [] \<or> l_rdata s2 = l_rdata s1)"
    if "ldap_send_bind_resp (send_r env) res s1 = (r2, s2, out2)" for res r2 s2 out2
    using that by (auto simp: ldap_send_bind_resp_def Let_def split: list.splits)
  show ?thesis
  proof (cases "r1 = LDAP_RET_OK")
    case True
    obtain r2 s2 out2 where r2: "ldap_send_bind_resp (send_r env) LDAP_RESULT_SUCCESS s1 = (r2, s2, out2)"
      by (metis prod_cases3)
    then have "s' = s2 \<or> r = LDAP_RET_READY \<and> s' = s2\<lparr>l_active_time := now, l_state := LDAP_SERV_STATE_READY\<rparr>"
      using assms \<open>so_error env = Some 0\<close> nb r1 True by (auto simp: read_bind_def split: if_splits)
    moreover obtain q where "s2 = s1\<lparr>l_rdata := q\<rparr>" "q = [] \<or> q = l_rdata s1" using resp [OF r2] by metis
    ultimately show ?thesis using f k True by auto
  next
    case False
    obtain res r2 s2 out2 where "ldap_send_bind_resp (send_r env) res s1 = (r2, s2, out2)" "s' = s2"
      using assms \<open>so_error env = Some 0\<close> nb r1 False by (auto simp: read_bind_def split: prod.splits)
    then obtain q where "s' = s1\<lparr>l_rdata := q\<rparr>" "q = [] \<or> q = l_rdata s1" using resp by metis
    then show ?thesis using f k by auto
  qed
next
  case False
  then show ?thesis using assms by (auto simp: read_bind_def split: option.splits if_splits)
qed

section \<open>Steps\<close>

text \<open>
  What the operating system may answer: \<open>recv\<close> stores what it returns and no more than it is asked
  for, \<open>malloc\<close> gives a buffer of the size \<open>LDAP_READ_BUFFER\<close>.
\<close>

definition env_ok :: "read_env \<Rightarrow> bool" where
  "env_ok env \<longleftrightarrow> (\<forall>n > 0. fst (recv_r env n) \<le> n \<and> length (snd (recv_r env n)) = nat (fst (recv_r env n))) \<and>
     (\<forall>m. malloc_mem env = Some m \<longrightarrow> length m = 131072)"

text \<open>
  \<open>N\<close> is the number of slots that were initialised. The callers read, write and decode open
  sessions only, and take messages off their queues. After \<open>LDAP_svr_open\<close> the server listens.
\<close>

inductive ldap_step :: "nat \<Rightarrow> DS_t \<Rightarrow> DS_t \<Rightarrow> bool" for N where
  usr: "LDPA_svr_user_add mem_ok u p ds = (r, ds') \<Longrightarrow> ldap_step N ds ds'"
| opt: "ds_set_option ds opt n = (r, ds') \<Longrightarrow> ldap_step N ds ds'"
| lsn: "LDAP_svr_open sk a b c ds = (r, ds', ev) \<Longrightarrow> ldap_step N ds ds'"
| opn: "accepts_ok as \<Longrightarrow> LDAP_sess_open env authen as now ds = Some (r, slot, ds', ev) \<Longrightarrow> ldap_step N ds ds'"
| cls: "no < int N \<Longrightarrow> LDAP_sess_close cb cr no ds = Some (r, ds', ev) \<Longrightarrow> ldap_step N ds ds'"
| exm: "LDAP_sess_examine cb cr ct ds = Some (r, ds', ev) \<Longrightarrow> ldap_step N ds ds'"
| rd: "i < N \<Longrightarrow> 0 \<le> l_socks ds i \<Longrightarrow> env_ok renv \<Longrightarrow> LDAP_sess_read renv now i ds = Some (r, ds', out) \<Longrightarrow>
    ldap_step N ds ds'"
| wr: "i < N \<Longrightarrow> 0 \<le> l_socks ds i \<Longrightarrow> send_ok send \<Longrightarrow> LDAP_sess_write send fw now i ds = Some (r, ds', bs) \<Longrightarrow>
    ldap_step N ds ds'"
| snd: "i < N \<Longrightarrow> 0 \<le> l_socks ds i \<Longrightarrow> LDAP_sess_send_message mem_ok fw now ber i ds = Some (r, ds') \<Longrightarrow>
    ldap_step N ds ds'"
| dec: "i < N \<Longrightarrow> 0 \<le> l_socks ds i \<Longrightarrow> extra_ok extra \<Longrightarrow>
    LDAP_sess_decode mem_ok extra send tv i ds = Some (r, ds', out) \<Longrightarrow> ldap_step N ds ds'"
| deq: "i < N \<Longrightarrow> l_rdata (ds_session ds i) = msg # q \<Longrightarrow>
    ldap_step N ds (ds_upd i ((ds_session ds i)\<lparr>l_rdata := q\<rparr>) ds)"
| down: "LDAP_svr_close cb cr ds = (r, ds', ev) \<Longrightarrow> ldap_step N ds ds'"

inductive ldap_reachable :: "nat \<Rightarrow> DS_t \<Rightarrow> bool" for N where
  init: "LDAP_svr_init True rnd dn port backlog (int N) mc = Some ds \<Longrightarrow> N \<le> 1024 \<Longrightarrow> ldap_reachable N ds"
| step: "ldap_reachable N ds \<Longrightarrow> ldap_step N ds ds' \<Longrightarrow> ldap_reachable N ds'"

inductive_cases ldap_stepE: "ldap_step N ds ds'"

section \<open>The invariant\<close>

text \<open>
  A closed slot has no buffers. An open one has consistent buffers; either it has not
  authenticated, then it has no read buffer and its queue holds bind requests only, or it is ready
  and its user is one of the server's.
\<close>

definition open_inv :: "DSUSER list \<Rightarrow> DSSESSION \<Rightarrow> bool" where
  "open_inv users s \<longleftrightarrow> in_ok s \<and> out_ok s \<and>
     (l_state s = LDAP_SERV_STATE_OPEN \<and> l_r_buffer s = None \<and> list_all is_bind (l_rdata s) \<or>
      l_state s = LDAP_SERV_STATE_READY \<and> knows users (l_user s))"

definition slot_inv :: "DSUSER list \<Rightarrow> nat \<Rightarrow> DSSESSION \<Rightarrow> bool" where
  "slot_inv users i s \<longleftrightarrow> l_no s = int i \<and>
     (if l_sock s < 0 then l_r_buffer s = None \<and> l_w_buffer s = None else open_inv users s)"

definition ldap_inv :: "nat \<Rightarrow> DS_t \<Rightarrow> bool" where
  "ldap_inv N ds \<longleftrightarrow> N \<le> 1024 \<and> ds_max_session ds \<le> int N \<and>
     table_ok N (l_socks ds) (ds_last_session ds) (ds_session_count ds) \<and>
     (\<forall>i < N. slot_inv (ds_user_list ds) i (ds_session ds i))"

text \<open>A step on one open session keeps the invariant when the session keeps its part of it.\<close>

lemma slot_only_inv:
  assumes "ldap_inv N ds" "i < N" "0 \<le> l_socks ds i" "slot_only i ds ds'"
    "open_inv (ds_user_list ds) (ds_session ds' i)"
  shows "ldap_inv N ds'"
proof -
  have "l_socks ds' = l_socks ds" using assms(4) by (metis slot_only_def ext)
  moreover have "slot_inv (ds_user_list ds') j (ds_session ds' j)" if "j < N" for j
    using assms that by (cases "j = i") (auto simp: ldap_inv_def slot_inv_def slot_only_def)
  ultimately show ?thesis using assms(1,4) by (simp add: ldap_inv_def slot_only_def)
qed

lemma inv_open: "ldap_inv N ds \<Longrightarrow> i < N \<Longrightarrow> 0 \<le> l_socks ds i \<Longrightarrow> open_inv (ds_user_list ds) (ds_session ds i)"
  by (auto simp: ldap_inv_def slot_inv_def)

lemma open_inv_out:
  "open_inv users s \<Longrightarrow> out_only s s' \<Longrightarrow> out_ok s' \<Longrightarrow> open_inv users s'"
  by (simp add: open_inv_def out_only_def in_ok_def)

lemma ldap_write_inv:
  assumes "ldap_inv N ds" "i < N" "0 \<le> l_socks ds i" "send_ok send"
    "LDAP_sess_write send fw now i ds = Some (r, ds', bs)"
  shows "ldap_inv N ds'"
proof -
  note o = inv_open [OF assms(1-3)]
  then have "out_ok (ds_session ds i)" by (simp add: open_inv_def)
  note w = sess_write_stream [OF this assms(4,5)]
  show ?thesis by (rule slot_only_inv [OF assms(1-3) w(3) open_inv_out [OF o w(4,1)]])
qed

lemma ldap_send_inv:
  assumes "ldap_inv N ds" "i < N" "0 \<le> l_socks ds i"
    "LDAP_sess_send_message mem_ok fw now ber i ds = Some (r, ds')"
  shows "ldap_inv N ds'"
proof -
  note o = inv_open [OF assms(1-3)]
  then have ok: "out_ok (ds_session ds i)" by (simp add: open_inv_def)
  show ?thesis
  proof (cases mem_ok)
    case True
    then have "LDAP_sess_send_message True fw now ber i ds = Some (r, ds')" using assms(4) by simp
    note w = send_message_stream [OF ok this]
    show ?thesis by (rule slot_only_inv [OF assms(1-3) w(3) open_inv_out [OF o w(4,1)]])
  next
    case False
    then have "slot_only i ds ds'" "out_only (ds_session ds i) (ds_session ds' i)" "out_ok (ds_session ds' i)"
      using assms(4) ok
      by (auto simp: LDAP_sess_send_message_def Let_def out_ok_def out_only_def bind_eq_Some_conv or_empty_def
          split: if_splits option.splits)
    with slot_only_inv [OF assms(1-3)] open_inv_out [OF o] show ?thesis by blast
  qed
qed

lemma ldap_decode_inv:
  assumes "ldap_inv N ds" "i < N" "0 \<le> l_socks ds i" "extra_ok extra"
    "LDAP_sess_decode mem_ok extra send tv i ds = Some (r, ds', out)"
  shows "ldap_inv N ds'"
proof -
  note o = inv_open [OF assms(1-3)]
  obtain q s where d: "decode_pass mem_ok extra (ds_session ds i) = Some (q, s)"
    using assms(5) by (auto simp: LDAP_sess_decode_def bind_eq_Some_conv)
  have p: "pass_ok (ds_session ds i) q s" using decode_pass_ok [OF _ assms(4) d] o by (simp add: open_inv_def)
  have s: "l_sock s = l_socks ds i" "l_no s = l_no (ds_session ds i)" "open_inv (ds_user_list ds) s"
    using o p by (auto simp: open_inv_def pass_ok_def out_ok_def)
  have keep: "open_inv (ds_user_list ds) (s\<lparr>l_concurrent_count := c, l_timestamp_write := y\<rparr>)"
    "l_state s = LDAP_SERV_STATE_READY \<Longrightarrow> open_inv (ds_user_list ds) (s\<lparr>l_rdata := rd\<rparr>)" for c y rd
    using s(3) by (auto simp: open_inv_def in_ok_def out_ok_def)
  have "slot_only i ds ds' \<and> open_inv (ds_user_list ds) (ds_session ds' i)"
  proof (cases q)
    case (Inl a)
    then show ?thesis using assms(5) d s by (auto simp: LDAP_sess_decode_def)
  next
    case (Inr ret)
    show ?thesis
    proof (cases "ret = LDAP_RET_DATA_AVAILABLE")
      case False
      then show ?thesis using assms(5) d s Inr by (auto simp: LDAP_sess_decode_def)
    next
      case True
      have "s \<noteq> ds_session ds i" using p Inr True by (auto simp: pass_ok_def)
      then have "l_state s = LDAP_SERV_STATE_READY" using p o by (auto simp: pass_ok_def open_inv_def)
      then show ?thesis using assms(5) d s Inr True keep
        by (auto simp: LDAP_sess_decode_def response_times_def Let_def slot_only_def bind_eq_Some_conv
            split: if_splits prod.splits)
    qed
  qed
  with slot_only_inv [OF assms(1-3)] show ?thesis by blast
qed

lemma read_data_keeps:
  assumes "in_ok s" "env_ok renv" "read_data renv now s = (r, s')"
  shows "l_sock s' = l_sock s \<and> l_no s' = l_no s \<and> l_state s' = l_state s \<and> l_user s' = l_user s \<and>
    l_w_buffer s' = l_w_buffer s \<and> l_w_curr s' = l_w_curr s \<and> in_ok s'"
proof -
  define s1 where "s1 = (if l_r_buffer s = None \<and> malloc_mem renv \<noteq> None
    then s\<lparr>l_r_buffer := malloc_mem renv, l_r_len := 0\<rparr> else s)"
  have s1: "l_sock s1 = l_sock s" "l_no s1 = l_no s" "l_state s1 = l_state s" "l_user s1 = l_user s"
    "l_w_buffer s1 = l_w_buffer s" "l_w_curr s1 = l_w_curr s" "in_ok s1"
    using assms(1,2) by (auto simp: s1_def in_ok_def env_ok_def)
  note rd = assms(3) [unfolded read_data_def Let_def, folded s1_def]
  show ?thesis
  proof (cases "l_r_buffer s1")
    case None
    then show ?thesis using rd s1 by simp
  next
    case (Some m)
    define n where "n = int (length m) - 1 - l_r_len s1"
    obtain k bs where kb: "recv_r renv n = (k, bs)" by fastforce
    then have k: "0 < n \<Longrightarrow> k \<le> n \<and> length bs = nat k" using assms(2) by (auto simp: env_ok_def dest: spec [of _ n])
    have i: "0 \<le> l_r_len s1" "l_r_len s1 < int (length m)" using s1(7) Some by (auto simp: in_ok_def)
    show ?thesis
    proof (cases "n \<le> 0 \<or> k \<le> 0")
      case True
      then have "s' = s1" using rd Some kb by (auto simp: n_def split: if_splits)
      then show ?thesis using s1 by simp
    next
      case False
      then have pos: "0 < k" "k \<le> n" "length bs = nat k" using k by auto
      from False have "s' = s1\<lparr>l_r_buffer := Some (store_at (nat (l_r_len s1)) bs m), l_r_len := l_r_len s1 + k,
          l_recv_count := l_recv_count s1 + 1, l_active_time := now, l_read_time := now\<rparr>"
        using rd Some kb by (auto simp: n_def split: if_splits)
      moreover have "length (store_at (nat (l_r_len s1)) bs m) = length m"
        using i pos by (intro length_store_at) (simp add: n_def)
      ultimately show ?thesis using s1 i pos by (auto simp: in_ok_def n_def)
    qed
  qed
qed

lemma ldap_read_inv:
  assumes "ldap_inv N ds" "i < N" "0 \<le> l_socks ds i" "env_ok renv"
    "LDAP_sess_read renv now i ds = Some (r, ds', out)"
  shows "ldap_inv N ds'"
proof -
  note o = inv_open [OF assms(1-3)]
  define s where "s = ds_session ds i"
  have "slot_only i ds ds' \<and> open_inv (ds_user_list ds) (ds_session ds' i)"
  proof (cases "l_state s = LDAP_SERV_STATE_OPEN")
    case True
    then obtain s' where b: "read_bind renv now (ds_user_list ds) s = Some (r, s', out)" "ds' = ds_upd i s' ds"
      using assms(5) by (auto simp: LDAP_sess_read_def s_def bind_eq_Some_conv)
    from read_bind_known [OF b(1)] o True b(2) show ?thesis
      by (auto simp: s_def open_inv_def in_ok_def out_ok_def)
  next
    case False
    obtain r' s' where b: "read_data renv now s = (r', s')" by fastforce
    have ready: "l_state s = LDAP_SERV_STATE_READY" "knows (ds_user_list ds) (l_user s)" "in_ok s" "out_ok s"
      using o False by (auto simp: open_inv_def s_def)
    note read_data_keeps [OF ready(3) assms(4) b]
    moreover have "slot_only i ds ds' \<longleftrightarrow> slot_only i ds (ds_upd i s' ds)" "ds_session ds' i = s'"
      using assms(5) b False by (auto simp: LDAP_sess_read_def s_def slot_only_def Let_def split: if_splits)
    ultimately show ?thesis using ready by (auto simp: s_def open_inv_def out_ok_def)
  qed
  with slot_only_inv [OF assms(1-3)] show ?thesis by blast
qed

lemma ldap_close_inv:
  assumes "ldap_inv N ds" "no < int N" "LDAP_sess_close cb cr no ds = Some (r, ds', ev)"
  shows "ldap_inv N ds'"
proof -
  have t: "table_ok N (l_socks ds') (ds_last_session ds') (ds_session_count ds')"
    using ldap_close_table [OF _ assms(2,3)] assms(1) by (simp add: ldap_inv_def)
  from assms(3) show ?thesis
    by (cases rule: ldap_close_cases) (use assms(1) t in \<open>auto simp: ldap_inv_def slot_inv_def\<close>)
qed

lemma ldap_open_inv:
  assumes "ldap_inv N ds" "accepts_ok as" "LDAP_sess_open env authen as now ds = Some (r, slot, ds', ev)"
  shows "ldap_inv N ds'"
  using assms(3)
proof (cases rule: ldap_open_cases)
  case (opened i sk p s)
  have o: "ldap_opens ds i ds'" unfolding ldap_opens_def using assms(2,3) opened(1) by blast
  have "nat (ds_max_session ds) \<le> N" using assms(1) by (auto simp: ldap_inv_def)
  from dst.opens_ok [OF o _ this] have "table_ok N (l_socks ds') (ds_last_session ds') (ds_session_count ds')"
    using assms(1) by (simp add: ldap_inv_def)
  moreover have "0 \<le> sk" using accept_again_ok [OF assms(2) opened(4)] .
  then have "open_inv users s" for users
    by (simp add: opened(9) ds_sess_fresh_def open_inv_def in_ok_def out_ok_def)
  ultimately show ?thesis
    using assms(1) opened(8,9,12,13) \<open>0 \<le> sk\<close> by (auto simp: ldap_inv_def slot_inv_def ds_sess_fresh_def)
qed (use assms(1) in simp_all)

lemma ldap_examine_inv:
  assumes "ldap_inv N ds" "LDAP_sess_examine cb cr ct ds = Some (r, ds', ev)"
  shows "ldap_inv N ds'"
proof -
  define slots where "slots = [0..<nat (ds_last_session ds + 1)]"
  have sub: "set slots \<subseteq> {..<N}" using assms(1) by (auto simp: slots_def ldap_inv_def table_ok_def)
  have e: "examine_loop cb cr ct slots ds = Some (r, ds', ev)"
    using assms(2) by (auto simp: LDAP_sess_examine_def slots_def split: if_splits)
  note first = examine_loop_first [OF e]
  show ?thesis
  proof (cases "\<exists>i \<in> set slots. ds_expired ds ct i")
    case True
    with first obtain us i vs r' where "slots = us @ i # vs"
      and i: "LDAP_sess_close cb cr (l_no (ds_session ds i)) ds = Some (r', ds', ev)" by auto
    then have "i \<in> set slots" by simp
    then have "i < N" using sub by auto
    have "l_no (ds_session ds i) < int N" using assms(1) \<open>i < N\<close> by (auto simp: ldap_inv_def slot_inv_def)
    from ldap_close_inv [OF assms(1) this i] show ?thesis .
  next
    case False
    with first assms(1) show ?thesis by simp
  qed
qed

lemma ds_close_fold:
  "fold (ds_close_slot cb cr) [0..<n] (ret, ds, ev) =
     (if \<exists>i < n. 0 \<le> l_socks ds i \<and> cr (l_socks ds i) \<noteq> 0 then -1 else ret,
      ds\<lparr>ds_session := (\<lambda>i. if i < n then (ds_session ds i)
           \<lparr>l_r_buffer := None, l_w_buffer := None,
             l_sock := if 0 \<le> l_socks ds i then -1 else l_socks ds i\<rparr> else ds_session ds i)\<rparr>,
      ev @ concat (map (\<lambda>i. close_events cb (l_socks ds i)) [0..<n]))"
proof (induction n)
  case (Suc n)
  show ?case unfolding fold_upt_Suc unfolding Suc unfolding ds_close_slot_def
    by (auto simp: Let_def close_events_def less_Suc_eq fun_eq_iff)
qed simp

lemma svr_close_result:
  assumes "LDAP_svr_close cb cr ds = (r, ds', ev)"
  shows "ds_session ds' = (\<lambda>i. if int i \<le> ds_last_session ds then (ds_session ds i)\<lparr>l_r_buffer := None,
       l_w_buffer := None, l_sock := if 0 \<le> l_socks ds i then -1 else l_socks ds i\<rparr> else ds_session ds i) \<and>
   ds_max_session ds' = ds_max_session ds \<and> ds_user_list ds' = ds_user_list ds \<and>
   ds_last_session ds' = -1 \<and> ds_session_count ds' = 0"
proof -
  define m where "m = nat (ds_last_session ds + 1)"
  have m: "int i \<le> ds_last_session ds \<longleftrightarrow> i < m" for i by (auto simp: m_def)
  show ?thesis unfolding m
    using assms by (auto simp: LDAP_svr_close_def m_def [symmetric] ds_close_fold ldap_svr_close_listener_def Let_def
        split: if_splits)
qed

lemma ldap_svr_close_inv:
  assumes "ldap_inv N ds" "LDAP_svr_close cb cr ds = (r, ds', ev)"
  shows "ldap_inv N ds'"
proof -
  note s = svr_close_result [OF assms(2)]
  have neg: "l_socks ds i < 0" if "i < N" "\<not> int i \<le> ds_last_session ds" for i
    using assms(1) that by (auto simp: ldap_inv_def table_ok_def not_le [symmetric])
  have "l_socks ds' i < 0" if "i < N" for i using neg [OF that] s by auto
  then have "table_ok N (l_socks ds') (-1) 0" by (rule table_ok_empty)
  with s neg assms(1) show ?thesis by (auto simp: ldap_inv_def slot_inv_def)
qed

lemma slot_inv_mono: "slot_inv users i s \<Longrightarrow> set users \<subseteq> set users' \<Longrightarrow> slot_inv users' i s"
  using knows_mono [of users "l_user s" users'] by (auto simp: slot_inv_def open_inv_def split: if_splits)

lemma ldap_inv_users:
  assumes "ldap_inv N ds" "set (ds_user_list ds) \<subseteq> set (ds_user_list ds')"
    "ds_session ds' = ds_session ds" "ds_last_session ds' = ds_last_session ds"
    "ds_session_count ds' = ds_session_count ds" "ds_max_session ds' = ds_max_session ds"
  shows "ldap_inv N ds'"
  using assms slot_inv_mono [OF _ assms(2)] by (simp add: ldap_inv_def)

lemma ldap_step_inv: "ldap_step N ds ds' \<Longrightarrow> ldap_inv N ds \<Longrightarrow> ldap_inv N ds'"
proof (induction rule: ldap_step.induct)
  case (usr mem_ok u p ds r ds')
  then show ?case by (intro ldap_inv_users [OF usr(2)]) (auto simp: LDPA_svr_user_add_def Let_def split: if_splits)
next
  case (opt ds opt n r ds')
  then show ?case
    by (intro ldap_inv_users [OF opt(2)]) (auto simp: ds_set_option_def split: LDAP_SERV_OPTION.splits)
next
  case (lsn sk a b c ds r ds' ev)
  then show ?case by (intro ldap_inv_users [OF lsn(2)]) (auto simp: LDAP_svr_open_def split: if_splits)
next
  case (deq i ds msg q)
  let ?s = "(ds_session ds i)\<lparr>l_rdata := q\<rparr>"
  have "l_socks (ds_upd i ?s ds) = l_socks ds" by auto
  moreover have "slot_inv users i (ds_session ds i) \<Longrightarrow> slot_inv users i ?s" for users
    using deq(2) by (auto simp: slot_inv_def open_inv_def in_ok_def out_ok_def)
  ultimately show ?case using deq(3) by (auto simp: ldap_inv_def)
next
  case opn
  then show ?case using ldap_open_inv by blast
next
  case cls
  then show ?case using ldap_close_inv by blast
next
  case exm
  then show ?case using ldap_examine_inv by blast
next
  case rd
  then show ?case using ldap_read_inv by blast
next
  case wr
  then show ?case using ldap_write_inv by blast
next
  case snd
  then show ?case using ldap_send_inv by blast
next
  case dec
  then show ?case using ldap_decode_inv by blast
next
  case down
  then show ?case using ldap_svr_close_inv by blast
qed

lemma ldap_reachable_ldap_inv: "ldap_reachable N ds \<Longrightarrow> ldap_inv N ds"
proof (induction rule: ldap_reachable.induct)
  case (init rnd dn port backlog mc ds)
  with ldap_init_table [OF init] show ?case by (simp add: ldap_inv_def slot_inv_def ds_slot_init_def)
qed (rule ldap_step_inv)

section \<open>The properties of the reachable states\<close>

text \<open>
  C2. In every state that the operations of the server reach, whatever the network, the memory and
  the clients do: the count of sessions is the number of open slots and the last session the
  greatest of them, every slot knows its number, a closed slot holds no buffer, and an open one
  has room for at least one more byte where it reads and has sent no more than it has queued.
\<close>

theorem ldap_table_invariant:
  assumes "ldap_reachable N ds"
  shows "table_ok N (l_socks ds) (ds_last_session ds) (ds_session_count ds) \<and>
    0 \<le> ds_session_count ds \<and> ds_session_count ds \<le> ds_last_session ds + 1 \<and>
    (\<forall>i < N. l_no (ds_session ds i) = int i \<and>
       (if l_socks ds i < 0 then l_r_buffer (ds_session ds i) = None \<and> l_w_buffer (ds_session ds i) = None
        else in_ok (ds_session ds i) \<and> out_ok (ds_session ds i)))"
proof -
  note inv = ldap_reachable_ldap_inv [OF assms]
  then have "table_ok N (l_socks ds) (ds_last_session ds) (ds_session_count ds)" by (simp add: ldap_inv_def)
  from this dst.count_bound [OF this] inv show ?thesis
    by (auto simp: ldap_inv_def slot_inv_def open_inv_def)
qed

text \<open>
  C1. Nobody is served who has not authenticated. In every reachable state, an open session
  whose queue holds a message other than a bind request, or that has any input to decode, is in
  the state \<open>READY\<close>, and the name and the password it sent are those of one of the users added to
  the server. On every other open session \<open>LDAP_sess_decode\<close> changes nothing.
\<close>

theorem ldap_requests_authenticated:
  assumes "ldap_reachable N ds" "i < N" "0 \<le> l_socks ds i"
  shows "(\<not> list_all is_bind (l_rdata (ds_session ds i)) \<or> l_r_buffer (ds_session ds i) \<noteq> None \<or>
      l_state (ds_session ds i) \<noteq> LDAP_SERV_STATE_OPEN \<longrightarrow>
        l_state (ds_session ds i) = LDAP_SERV_STATE_READY \<and>
        user_known (ds_user_list ds) (cstr (u_name (l_user (ds_session ds i))))
          (cstr (u_password (l_user (ds_session ds i))))) \<and>
    (l_state (ds_session ds i) = LDAP_SERV_STATE_OPEN \<longrightarrow>
      (\<exists>ds'. LDAP_sess_decode mem_ok extra send tv i ds = Some (LDAP_RET_OK, ds', []) \<and> ds_session ds' = ds_session ds))"
proof -
  have "open_inv (ds_user_list ds) (ds_session ds i)"
    using inv_open [OF ldap_reachable_ldap_inv] assms by blast
  then show ?thesis
    by (auto simp: open_inv_def knows_def LDAP_sess_decode_def decode_pass_def)
qed

text \<open>A server with a user and a session on which that user has authenticated.\<close>

definition demo_users :: DS_t where
  "demo_users = snd (LDPA_svr_user_add True (Some (str ''joe'')) (Some (str ''pw'')) (demo_ds 2))"

definition demo_net_ldap :: resolver where
  "demo_net_ldap = \<lparr>innetgr = (\<lambda>_ _. 0), inet_addr = (\<lambda>_. -1), gethostbyname = (\<lambda>_. None)\<rparr>"

definition demo_connected :: DS_t where
  "demo_connected = (case LDAP_sess_open demo_net_ldap [str ''+'']
     [Conn 11 \<lparr>s_addr = 1, h_name = Some (str ''client''), ntoa = str ''0.0.0.1'', sin_port = 99\<rparr>] 1000 demo_users
     of Some (_, _, ds, _) \<Rightarrow> ds)"

definition demo_env :: read_env where
  "demo_env = \<lparr>so_error = Some 0,
     recv_r = (\<lambda>n. if n < 19 then (0, []) else (19, bind_rqt 1 (str ''joe'') (str ''pw''))),
     send_r = (\<lambda>b. 1), malloc_ok = True, malloc_mem = None\<rparr>"

definition demo_ready :: DS_t where
  "demo_ready = (case LDAP_sess_read demo_env 1001 0 demo_connected of Some (_, ds, _) \<Rightarrow> ds)"

lemma demo_bind: "length (bind_rqt 1 (str ''joe'') (str ''pw'')) = 19"
  "bind_rqt 1 (str ''joe'') (str ''pw'') = [0x30, 0x11, 0x02, 0x01, 0x01, 0x60, 0x0C, 0x02, 0x01, 0x03, 0x04, 0x03] @
     str ''joe'' @ [0x80, 0x02] @ str ''pw''"
proof -
  have p: "positive_bytes 1 = [1]" by (simp add: positive_bytes_def word_sless_alt)
  then show "length (bind_rqt 1 (str ''joe'') (str ''pw'')) = 19" by (simp add: length_bind_rqt)
  show "bind_rqt 1 (str ''joe'') (str ''pw'') = [0x30, 0x11, 0x02, 0x01, 0x01, 0x60, 0x0C, 0x02, 0x01, 0x03, 0x04, 0x03] @
     str ''joe'' @ [0x80, 0x02] @ str ''pw''" by (simp add: bind_rqt_def Let_def p)
qed

lemma demo_users_reachable: "ldap_reachable 2 demo_users"
proof (rule ldap_reachable.step)
  show "ldap_reachable 2 (demo_ds 2)" by (rule ldap_reachable.init [OF demo_ds_init]) simp_all
  show "ldap_step 2 (demo_ds 2) demo_users"
    by (rule ldap_step.usr [of True "Some (str ''joe'')" "Some (str ''pw'')"]) (simp add: demo_users_def prod_eq_iff)
qed

lemma demo_connected:
  "LDAP_sess_open demo_net_ldap [str ''+'']
     [Conn 11 \<lparr>s_addr = 1, h_name = Some (str ''client''), ntoa = str ''0.0.0.1'', sin_port = 99\<rparr>] 1000 demo_users =
   Some (LDAP_RET_OK, Some 0, demo_connected, [])"
  "l_socks demo_connected 0 = 11" "l_state (ds_session demo_connected 0) = LDAP_SERV_STATE_OPEN"
  "ds_user_list demo_connected = [\<lparr>u_name = str ''joe'', u_password = str ''pw''\<rparr>]"
  by (simp_all add: demo_connected_def demo_users_def LDPA_svr_user_add_def demo_ds_def LDAP_svr_init_def Let_def
      LDAP_sess_open_def eval_nat_numeral ds_slot_init_def session_zero_def rauthen_verify_def
      rauthen_checkhost_def RAUTHEN_PASS_def ds_sess_fresh_def ds_upd_def)

lemma demo_connected_reachable: "ldap_reachable 2 demo_connected"
  by (rule ldap_reachable.step [OF demo_users_reachable ldap_step.opn [OF _ demo_connected(1)]])
    (simp add: accepts_ok_def)

lemma demo_ready:
  "\<exists>out. LDAP_sess_read demo_env 1001 0 demo_connected = Some (LDAP_RET_READY, demo_ready, out)"
  "l_state (ds_session demo_ready 0) = LDAP_SERV_STATE_READY" "l_socks demo_ready 0 = 11"
proof -
  define s where "s = ds_session demo_connected 0"
  have k: "user_known [\<lparr>u_name = str ''joe'', u_password = str ''pw''\<rparr>] (str ''joe'') (str ''pw'')"
    by (simp add: user_known_def)
  obtain mid where "ldap_recv_bind_rqt True 19 (bind_rqt 1 (str ''joe'') (str ''pw''))
      [\<lparr>u_name = str ''joe'', u_password = str ''pw''\<rparr>] s = Some (LDAP_RET_OK,
        s\<lparr>l_rdata := [\<lparr>message_id = mid, alt = BindRequest 3, controls = []\<rparr>],
          l_user := \<lparr>u_name = str ''joe'', u_password = str ''pw''\<rparr>\<rparr>)"
    using recv_bind_rqt [of 1 "str ''joe''" "str ''pw''" "[\<lparr>u_name = str ''joe'', u_password = str ''pw''\<rparr>]" 19 s]
      demo_bind(1) k by auto
  then obtain out where r: "LDAP_sess_read demo_env 1001 0 demo_connected = Some (LDAP_RET_READY,
      ds_upd 0 (s\<lparr>l_user := \<lparr>u_name = str ''joe'', u_password = str ''pw''\<rparr>, l_rdata := [],
        l_active_time := 1001, l_state := LDAP_SERV_STATE_READY\<rparr>) demo_connected, out)"
    using demo_connected(3,4)
    by (simp add: LDAP_sess_read_def read_bind_def demo_env_def s_def [symmetric] ldap_send_bind_resp_def Let_def)
  then show "\<exists>out. LDAP_sess_read demo_env 1001 0 demo_connected = Some (LDAP_RET_READY, demo_ready, out)"
    by (simp add: demo_ready_def)
  from r show "l_state (ds_session demo_ready 0) = LDAP_SERV_STATE_READY" "l_socks demo_ready 0 = 11"
    using demo_connected(2) by (simp_all add: demo_ready_def s_def)
qed

lemma demo_ready_reachable: "ldap_reachable 2 demo_ready"
proof -
  obtain out where r: "LDAP_sess_read demo_env 1001 0 demo_connected = Some (LDAP_RET_READY, demo_ready, out)"
    using demo_ready(1) by blast
  have "env_ok demo_env" by (auto simp: env_ok_def demo_env_def demo_bind(1) [simplified])
  then show ?thesis
    using demo_connected(2)
    by (intro ldap_reachable.step [OF demo_connected_reachable ldap_step.rd [OF _ _ _ r]]) simp_all
qed

theorem ldap_table_invariant_witness:
  "table_ok 2 (l_socks demo_ready) (ds_last_session demo_ready) (ds_session_count demo_ready) \<and> l_socks demo_ready 0 = 11"
  using ldap_table_invariant [OF demo_ready_reachable] demo_ready(3) by simp

theorem ldap_requests_authenticated_witness:
  "user_known (ds_user_list demo_ready) (cstr (u_name (l_user (ds_session demo_ready 0))))
     (cstr (u_password (l_user (ds_session demo_ready 0)))) \<and> l_state (ds_session demo_ready 0) = LDAP_SERV_STATE_READY"
  using ldap_requests_authenticated [OF demo_ready_reachable, of 0] demo_ready(2,3) by simp

end
