(* ===== verification/LdapStream.thy ===== *)
theory LdapStream
  imports LdapState
begin

text \<open>
  The input of a session of libs/stacks/ldap/ldap_server.c as a stream: any number of calls of
  \<open>LDAP_sess_read\<close> and \<open>LDAP_sess_decode\<close>, in any order, with the output side and the application that
  takes messages off the queue in between, on requests that the network cuts up as it likes.
\<close>

section \<open>Calls on one session\<close>

text \<open>What \<open>recv\<close> stores in a call of \<open>LDAP_sess_read\<close>: it is asked for the room of the buffer less one.\<close>

definition recv_room :: "read_env \<Rightarrow> DSSESSION \<Rightarrow> int" where
  "recv_room env s =
     (case l_r_buffer s of
        Some m \<Rightarrow> int (length m) - 1 - l_r_len s
      | None \<Rightarrow> int (length (or_empty (malloc_mem env))) - 1)"

definition chunk :: "read_env \<Rightarrow> DSSESSION \<Rightarrow> bytes" where
  "chunk env s = snd (recv_r env (recv_room env s))"

text \<open>
  The decoder looks at the byte behind a message, which need not have been received: whatever the
  memory holds there. It must not be the tag of controls.
\<close>

definition behind_ok :: "DSSESSION \<Rightarrow> bool" where
  "behind_ok s \<longleftrightarrow> (\<forall>m. l_r_buffer s = Some m \<longrightarrow> at m (nat (l_r_len s)) \<noteq> Some 0xa0)"

text \<open>
  The session \<open>i\<close> from the end of its handshake on: \<open>input\<close> is what the network has delivered to
  it, \<open>taken\<close> the messages that the application has taken. A pass finds memory for its message and no
  more than the allowed number of requests at work (another is dropped, with an error).
\<close>

inductive session_run :: "nat \<Rightarrow> bytes \<Rightarrow> LDAPMessage list \<Rightarrow> DS_t \<Rightarrow> bool" for i :: nat where
  start: "l_state (ds_session ds i) \<noteq> LDAP_SERV_STATE_OPEN \<Longrightarrow> in_ok (ds_session ds i) \<Longrightarrow>
    l_r_len (ds_session ds i) = 0 \<Longrightarrow> l_r_ber_body (ds_session ds i) = -1 \<Longrightarrow> l_rdata (ds_session ds i) = [] \<Longrightarrow>
    session_run i [] [] ds"
| rd: "session_run i input taken ds \<Longrightarrow> env_ok renv \<Longrightarrow> LDAP_sess_read renv now i ds = Some (LDAP_RET_OK, ds', out) \<Longrightarrow>
    session_run i (input @ chunk renv (ds_session ds i)) taken ds'"
| dec: "session_run i input taken ds \<Longrightarrow> extra_ok extra \<Longrightarrow> behind_ok (ds_session ds i) \<Longrightarrow>
    LDAP_sess_decode True extra send tv i ds = Some (r, ds', out) \<Longrightarrow> r \<noteq> LDAP_RET_ERR_UNEXPECTED_RECEIVE \<Longrightarrow>
    session_run i input taken ds'"
| deq: "session_run i input taken ds \<Longrightarrow> l_rdata (ds_session ds i) = msg # q \<Longrightarrow>
    session_run i input (taken @ [msg]) (ds_upd i ((ds_session ds i)\<lparr>l_rdata := q\<rparr>) ds)"
| wr: "session_run i input taken ds \<Longrightarrow> LDAP_sess_write send fw now i ds = Some (r, ds', bs) \<Longrightarrow>
    session_run i input taken ds'"
| snd: "session_run i input taken ds \<Longrightarrow> LDAP_sess_send_message mem_ok fw now ber i ds = Some (r, ds') \<Longrightarrow>
    session_run i input taken ds'"

section \<open>What each call does to the input\<close>

lemma write_out_only: "LDAP_sess_write send fw now i ds = Some (r, ds', bs) \<Longrightarrow> out_only (ds_session ds i) (ds_session ds' i)"
  by (auto simp: LDAP_sess_write_def out_only_def Let_def split: option.splits if_splits)

lemma send_message_out_only:
  "LDAP_sess_send_message mem_ok fw now ber i ds = Some (r, ds') \<Longrightarrow> out_only (ds_session ds i) (ds_session ds' i)"
  by (auto simp: LDAP_sess_send_message_def out_only_def Let_def bind_eq_Some_conv split: option.splits if_splits)

lemma received_out_only: "out_only s s' \<Longrightarrow> received s' = received s"
  by (simp add: out_only_def received_def)

lemma response_times_out_only: "response_times tv s ds = (ds', s') \<Longrightarrow> out_only s s'"
  by (auto simp: response_times_def out_only_def Let_def split: prod.splits)

definition returned :: "int + int \<Rightarrow> int" where
  "returned q = (case q of Inl r \<Rightarrow> r | Inr r \<Rightarrow> r)"

lemma sess_decode_pass:
  assumes "LDAP_sess_decode mem_ok extra send tv i ds = Some (r, ds', out)" "r \<noteq> LDAP_RET_ERR_UNEXPECTED_RECEIVE"
  shows "\<exists>q s. decode_pass mem_ok extra (ds_session ds i) = Some (q, s) \<and> out_only s (ds_session ds' i)"
proof -
  obtain q s where p: "decode_pass mem_ok extra (ds_session ds i) = Some (q, s)"
    using assms(1) by (auto simp: LDAP_sess_decode_def bind_eq_Some_conv)
  have "out_only s (ds_session ds' i)"
  proof (cases "response_times tv (s\<lparr>l_concurrent_count := l_concurrent_count s + 1\<rparr>) ds")
    case (Pair ds1 s1)
    then have "out_only s s1" using response_times_out_only [OF Pair] by (simp add: out_only_def)
    with Pair assms p show ?thesis
      by (auto simp: LDAP_sess_decode_def bind_eq_Some_conv split: sum.splits if_splits)
  qed
  with p show ?thesis by blast
qed

lemma sess_decode_some:
  assumes "decode_pass mem_ok extra (ds_session ds i) = Some (q, s)" "l_concurrent_count s < ds_max_concurrent ds"
  shows "\<exists>ds'. LDAP_sess_decode mem_ok extra send tv i ds = Some (returned q, ds', []) \<and> out_only s (ds_session ds' i)"
proof (cases "response_times tv (s\<lparr>l_concurrent_count := l_concurrent_count s + 1\<rparr>) ds")
  case (Pair ds1 s1)
  then have "out_only s s1" using response_times_out_only [OF Pair] by (simp add: out_only_def)
  with Pair assms show ?thesis
    by (auto simp: LDAP_sess_decode_def returned_def split: sum.splits)
qed

lemma read_data_received:
  assumes "in_ok s" "l_r_buffer s = None \<longrightarrow> l_r_len s = 0" "env_ok env" "read_data env now s = (LDAP_RET_OK, s')"
  shows "received s' = received s @ chunk env s" "l_r_buffer s' \<noteq> None" "l_rdata s' = l_rdata s"
    "l_r_ber_body s' = l_r_ber_body s" "l_r_ber_body_length s' = l_r_ber_body_length s"
proof -
  obtain m where m: "l_r_buffer s = Some m \<or> l_r_buffer s = None \<and> malloc_mem env = Some m"
    using assms(4) by (cases "l_r_buffer s"; cases "malloc_mem env") (auto simp: read_data_def)
  have mi: "0 \<le> l_r_len s" "recv_room env s = int (length m) - 1 - l_r_len s"
    using m assms(1,2) by (auto simp: in_ok_def recv_room_def or_empty_def)
  obtain k bs where k: "recv_r env (recv_room env s) = (k, bs)" by fastforce
  note rd = assms(4) [unfolded read_data_def Let_def]
  have pos: "0 < recv_room env s" "0 < k"
    using rd m mi k assms(2) by (auto split: if_splits)
  then have l: "k \<le> recv_room env s" "length bs = nat k"
    using assms(3) k by (auto simp: env_ok_def dest: spec [of _ "recv_room env s"])
  have s': "l_r_buffer s' = Some (store_at (nat (l_r_len s)) bs m)" "l_r_len s' = l_r_len s + k"
    "l_rdata s' = l_rdata s" "l_r_ber_body s' = l_r_ber_body s" "l_r_ber_body_length s' = l_r_ber_body_length s"
    using rd m mi(2) k pos assms(2) by (auto split: if_splits)
  have "nat (l_r_len s + k) = nat (l_r_len s) + length bs" using l mi(1) pos by simp
  moreover have "nat (l_r_len s) + length bs \<le> length m" using l mi pos by simp
  ultimately have "received s' = take (nat (l_r_len s)) m @ bs"
    unfolding received_def s' or_empty_simps store_at_def by simp
  moreover have "received s = take (nat (l_r_len s)) m"
    using m assms(2) by (auto simp: received_def)
  ultimately show "received s' = received s @ chunk env s" by (simp add: chunk_def k)
  show "l_r_buffer s' \<noteq> None" "l_rdata s' = l_rdata s" "l_r_ber_body s' = l_r_ber_body s"
    "l_r_ber_body_length s' = l_r_ber_body_length s" using s' by simp_all
qed

section \<open>Requests and their messages\<close>

type_synonym numbered = "int \<times> request"

definition request_ok :: "numbered \<Rightarrow> bool" where
  "request_ok x \<longleftrightarrow> 0 < fst x \<and> fst x < 2 ^ 24 \<and> fits_request (snd x) \<and> length (enc_message (fst x) (snd x)) < 2 ^ 24"

definition enc_numbered :: "numbered \<Rightarrow> bytes" where
  "enc_numbered x = enc_message (fst x) (snd x)"

definition message_of :: "numbered \<Rightarrow> LDAPMessage" where
  "message_of x = \<lparr>message_id = fst x, alt = snd x, controls = []\<rparr>"

text \<open>\<open>n\<close> of the requests have been decoded; the frame of the next one may be known.\<close>

definition framed :: "numbered list \<Rightarrow> bytes \<Rightarrow> LDAPMessage list \<Rightarrow> DSSESSION \<Rightarrow> nat \<Rightarrow> bool" where
  "framed ms input taken s n \<longleftrightarrow> n \<le> length ms \<and> l_state s \<noteq> LDAP_SERV_STATE_OPEN \<and> in_ok s \<and>
     (l_r_buffer s = None \<longrightarrow> l_r_len s = 0) \<and> taken @ l_rdata s = map message_of (take n ms) \<and>
     input = concat (map enc_numbered (take n ms)) @ received s \<and>
     (l_r_ber_body s = -1 \<and> l_r_ber_body_length s = -1 \<or>
      n < length ms \<and> l_r_ber_body s = 0 \<and> l_r_ber_body_length s = int (length (enc_numbered (ms ! n))))"

lemma enc_numbered_start: "\<exists>xs. enc_numbered x = 0x30 # xs"
  by (simp add: enc_numbered_def enc_message_def tlv_def)

lemma framed_out_only: "framed ms input taken s n \<Longrightarrow> out_only s s' \<Longrightarrow> framed ms input taken s' n"
  using received_out_only [of s s'] by (simp add: framed_def out_only_def in_ok_def)

lemma split_at: "n < length ms \<Longrightarrow> concat (map f ms) = concat (map f (take n ms)) @ f (ms ! n) @ concat (map f (drop (Suc n) ms))"
  using id_take_nth_drop [of n ms] by (metis concat.simps(2) concat_append list.simps(9) map_append)

lemma framed_length:
  assumes "framed ms input taken s n"
  shows "int (length (received s)) = l_r_len s" "l_r_buffer s = Some m \<Longrightarrow> received s = take (length (received s)) m"
  using assms by (auto simp: framed_def in_ok_def received_def or_empty_def split: option.splits)

lemma enc_message_min:
  assumes "0 < mid" "mid < 2 ^ 24" "fits_request r"
  shows "5 \<le> length (enc_message mid r)"
proof -
  obtain tid where t: "ber_tid_create mid = Some tid" "3 \<le> length tid"
    using tid_encoded [OF assms(1,2)] by (fastforce simp: Suc_le_eq numeral_3_eq_3)
  have "1 \<le> length (enc_request r)" using assms(3) by (cases r) (simp_all add: tlv_def)
  with t show ?thesis by (simp add: enc_message_def tlv_def)
qed

text \<open>
  A pass over such a session: complete or not, the next request is where the frame says, and the
  byte behind it is the first of another or one that \<open>behind_ok\<close> speaks of.
\<close>

lemma pass_framed:
  assumes inv: "framed ms input taken s n" and ms: "\<forall>x \<in> set ms. request_ok x"
    and input: "input @ later = concat (map enc_numbered ms)"
    and e: "extra_ok extra" and b: "behind_ok s"
  shows "if n < length ms \<and> length (enc_numbered (ms ! n)) \<le> length (received s)
    then \<exists>s'. decode_pass True extra s = Some (Inr LDAP_RET_DATA_AVAILABLE, s') \<and> framed ms input taken s' (Suc n) \<and>
      received s' = drop (length (enc_numbered (ms ! n))) (received s) \<and> l_rdata s' = l_rdata s @ [message_of (ms ! n)]
    else \<exists>q s'. decode_pass True extra s = Some (q, s') \<and> framed ms input taken s' n \<and>
      received s' = received s \<and> l_rdata s' = l_rdata s \<and> ((\<forall>k. extra k \<noteq> None) \<longrightarrow> returned q = LDAP_RET_OK)"
proof -
  have rest: "received s @ later = concat (map enc_numbered (drop n ms))"
    using inv input concat_append [of "map enc_numbered (take n ms)" "map enc_numbered (drop n ms)"]
    by (simp add: framed_def flip: map_append)
  have k: "int (length (received s)) = l_r_len s" by (rule framed_length(1) [OF inv])
  show ?thesis
  proof (cases "l_r_buffer s = None \<or> l_r_len s < 5")
    case True
    then have "decode_pass True extra s = Some (Inr LDAP_RET_OK, s)"
      by (auto simp: decode_pass_def split: option.splits)
    moreover have "\<not> (n < length ms \<and> length (enc_numbered (ms ! n)) \<le> length (received s))"
    proof
      assume "n < length ms \<and> length (enc_numbered (ms ! n)) \<le> length (received s)"
      moreover have "l_r_len s < 5" using True inv by (auto simp: framed_def)
      ultimately have "n < length ms" "length (enc_numbered (ms ! n)) < 5" using k by simp_all
      then show False using ms enc_message_min [of "fst (ms ! n)" "snd (ms ! n)"] by (auto simp: enc_numbered_def request_ok_def)
    qed
    ultimately show ?thesis using inv by (simp add: returned_def)
  next
    case False
    then obtain m where m: "l_r_buffer s = Some m" "5 \<le> length (received s)" using k by auto
    then have "drop n ms \<noteq> []" using rest by auto
    then have n: "n < length ms" by simp
    define x where "x = ms ! n"
    have x: "fits_request (snd x)" "0 < fst x" "fst x < 2 ^ 24" "length (enc_message (fst x) (snd x)) < 2 ^ 24"
      using ms n by (auto simp: request_ok_def x_def)
    have dn: "drop n ms = x # drop (Suc n) ms" unfolding x_def by (rule Cons_nth_drop_Suc [OF n, symmetric])
    define later' where "later' = concat (map enc_numbered (drop (Suc n) ms))"
    have r: "received s @ later = enc_numbered x @ later'" using rest by (simp add: dn later'_def)
    have km: "length (received s) < length m" using inv m(1) k by (auto simp: framed_def in_ok_def)
    have tk: "take (length (received s)) m = take (length (received s)) (enc_numbered x @ later')"
      using framed_length(2) [OF inv m(1)] r by (metis append_eq_conv_conj)
    have len: "length (received s) \<le> length (enc_numbered x @ later')" using r by (metis length_append le_add1)
    have behind: "at m (length (enc_numbered x)) \<noteq> Some 0xa0" if l: "length (enc_numbered x) \<le> length (received s)"
    proof (cases "length (enc_numbered x) = length (received s)")
      case True
      then show ?thesis using b m(1) by (simp add: behind_ok_def flip: k)
    next
      case False
      then have p: "length (enc_numbered x) < length (received s)" using l by simp
      then have "later' \<noteq> []" using len by auto
      then obtain y ys where "drop (Suc n) ms = y # ys" by (cases "drop (Suc n) ms") (auto simp: later'_def)
      then obtain zs where "later' = 0x30 # zs" using enc_numbered_start [of y] by (auto simp: later'_def)
      moreover have "m ! length (enc_numbered x) = (enc_numbered x @ later') ! length (enc_numbered x)"
        using tk p by (metis nth_take)
      ultimately show ?thesis by (simp add: at_def)
    qed
    have fr: "l_r_ber_body s = -1 \<and> l_r_ber_body_length s = -1 \<or>
        l_r_ber_body s = 0 \<and> l_r_ber_body_length s = int (length (enc_numbered x))"
      using inv by (auto simp: framed_def x_def)
    note pass = decode_pass_framing [OF x m(1) k [symmetric] m(2) km, folded enc_numbered_def, OF len tk fr behind, of extra]
    have ok: "pass_ok s q s'" if "decode_pass True extra s = Some (q, s')" for q s'
      using decode_pass_ok [OF _ e that] inv by (simp add: framed_def)
    show ?thesis
    proof (cases "length (enc_numbered x) \<le> length (received s)")
      case True
      then obtain s' where s': "decode_pass True extra s = Some (Inr LDAP_RET_DATA_AVAILABLE, s')"
        "received s' = drop (length (enc_numbered x)) (received s)" "l_rdata s' = l_rdata s @ [message_of x]"
        "l_r_ber_body s' = -1" "l_r_ber_body_length s' = -1" "l_r_buffer s' \<noteq> None"
        using pass by (auto simp: message_of_def)
      have t: "received s = enc_numbered x @ drop (length (enc_numbered x)) (received s)"
        using r True by (metis append_eq_append_conv_if append_take_drop_id)
      have b': "l_r_buffer s' = None \<longrightarrow> l_r_len s' = 0" using s'(6) by blast
      have "framed ms input taken s' (Suc n)"
        using ok [OF s'(1)] inv s'(1-5) b' n t take_Suc_conv_app_nth [OF n, folded x_def]
        by (simp add: framed_def pass_ok_def)
      with s' True n show ?thesis by (simp add: x_def)
    next
      case False
      then obtain q s' m' where s': "decode_pass True extra s = Some (Inl q, s')" "received s' = received s"
        "s' = s\<lparr>l_r_ber_body := 0, l_r_ber_body_length := int (length (enc_numbered x)), l_r_buffer := Some m'\<rparr>"
        "(\<forall>n. extra n \<noteq> None) \<longrightarrow> q = LDAP_RET_OK"
        using pass [unfolded if_P [OF not_le_imp_less [OF False]]] by blast
      have "framed ms input taken s' n"
        using ok [OF s'(1)] inv s'(2) n unfolding framed_def pass_ok_def by (simp add: s'(3) x_def)
      with s' False show ?thesis by (auto simp: x_def returned_def)
    qed
  qed
qed

section \<open>The stream\<close>

lemma start_framed:
  assumes "l_state s \<noteq> LDAP_SERV_STATE_OPEN" "in_ok s" "l_r_len s = 0" "l_r_ber_body s = -1" "l_rdata s = []"
  shows "framed ms [] [] s 0"
  using assms by (auto simp: framed_def in_ok_def received_def)

lemma session_run_framed:
  "session_run i input taken ds \<Longrightarrow> \<forall>x \<in> set ms. request_ok x \<Longrightarrow> input @ later = concat (map enc_numbered ms) \<Longrightarrow>
   \<exists>n. framed ms input taken (ds_session ds i) n"
proof (induction arbitrary: later rule: session_run.induct)
  case (start ds)
  then show ?case using start_framed by blast
next
  case (rd input taken ds renv now ds' out)
  define s where "s = ds_session ds i"
  from rd.IH [OF rd.prems(1), of "chunk renv s @ later"] rd.prems(2) obtain n where n: "framed ms input taken s n"
    by (auto simp: s_def)
  then have ok: "in_ok s" "l_r_buffer s = None \<longrightarrow> l_r_len s = 0" "l_state s \<noteq> LDAP_SERV_STATE_OPEN"
    by (simp_all add: framed_def)
  obtain s' where s': "read_data renv now s = (LDAP_RET_OK, s')" "ds_session ds' i = s'"
    using rd.hyps(3) ok(3) by (auto simp: LDAP_sess_read_def s_def Let_def split: prod.splits if_splits)
  have b: "l_r_buffer s' = None \<longrightarrow> l_r_len s' = 0" using read_data_received(2) [OF ok(1,2) rd.hyps(2) s'(1)] by blast
  have "framed ms (input @ chunk renv s) taken s' n"
    using n read_data_received(1,3-5) [OF ok(1,2) rd.hyps(2) s'(1)] b read_data_keeps [OF ok(1) rd.hyps(2) s'(1)]
    by (simp add: framed_def)
  then show ?case using s'(2) by (auto simp: s_def)
next
  case (dec input taken ds extra send tv r ds' out)
  from dec.IH [OF dec.prems] obtain n where n: "framed ms input taken (ds_session ds i) n" ..
  obtain q s where p: "decode_pass True extra (ds_session ds i) = Some (q, s)" "out_only s (ds_session ds' i)"
    using sess_decode_pass [OF dec.hyps(4,5)] by blast
  from pass_framed [OF n dec.prems dec.hyps(2,3)] p(1) obtain n' where "framed ms input taken s n'"
    by (auto split: if_splits)
  with p(2) show ?case using framed_out_only by blast
next
  case (deq input taken ds msg q)
  from deq.IH [OF deq.prems] obtain n where "framed ms input taken (ds_session ds i) n" ..
  with deq.hyps(2) have "framed ms input (taken @ [msg]) ((ds_session ds i)\<lparr>l_rdata := q\<rparr>) n"
    by (simp add: framed_def in_ok_def received_def)
  then show ?case by auto
next
  case (wr input taken ds send fw now r ds' bs)
  from wr.IH [OF wr.prems] framed_out_only write_out_only [OF wr.hyps(2)] show ?case by blast
next
  case (snd input taken ds mem_ok fw now ber r ds')
  from snd.IH [OF snd.prems] framed_out_only send_message_out_only [OF snd.hyps(2)] show ?case by blast
qed

text \<open>
  C6. Requests survive any fragmentation. Let the network deliver the encodings of any requests, one
  behind the other, in any chunks, with any passes of the decoder in between; at any time what has
  been decoded, taken by the application or in its queue, is exactly the first requests, in their
  order, and what was received and not decoded is exactly the rest of what was delivered. When the
  next request is complete the next pass decodes it and consumes exactly its bytes; otherwise the pass
  waits and loses nothing. The conditions: the requests are of the kind that the decoder inverts
  (\<open>fits_request\<close>, without controls, ids and sizes below \<open>2 ^ 24\<close>); there is memory for messages, and
  fewer requests at work than the server allows; and at each pass the byte of the buffer behind the
  last received one, which the decoder reads, is not \<open>0xa0\<close> (see \<open>phantom_controls\<close>).
\<close>

theorem ldap_message_framing:
  assumes "session_run i input taken ds" "\<forall>x \<in> set ms. request_ok x" "input @ later = concat (map enc_numbered ms)"
  shows "\<exists>n \<le> length ms. taken @ l_rdata (ds_session ds i) = map message_of (take n ms) \<and>
    input = concat (map enc_numbered (take n ms)) @ received (ds_session ds i) \<and>
    ((\<forall>k. extra k \<noteq> None) \<and> extra_ok extra \<and> behind_ok (ds_session ds i) \<and>
        l_concurrent_count (ds_session ds i) < ds_max_concurrent ds \<longrightarrow>
      (\<exists>r ds'. LDAP_sess_decode True extra send tv i ds = Some (r, ds', []) \<and>
        (if n < length ms \<and> length (enc_numbered (ms ! n)) \<le> length (received (ds_session ds i))
         then r = LDAP_RET_DATA_AVAILABLE \<and> l_rdata (ds_session ds' i) = l_rdata (ds_session ds i) @ [message_of (ms ! n)] \<and>
           received (ds_session ds' i) = drop (length (enc_numbered (ms ! n))) (received (ds_session ds i))
         else r = LDAP_RET_OK \<and> l_rdata (ds_session ds' i) = l_rdata (ds_session ds i) \<and>
           received (ds_session ds' i) = received (ds_session ds i))))"
proof -
  let ?s = "ds_session ds i"
  obtain n where n: "framed ms input taken ?s n" using session_run_framed [OF assms] ..
  have step: "\<exists>r ds'. LDAP_sess_decode True extra send tv i ds = Some (r, ds', []) \<and>
        (if n < length ms \<and> length (enc_numbered (ms ! n)) \<le> length (received ?s)
         then r = LDAP_RET_DATA_AVAILABLE \<and> l_rdata (ds_session ds' i) = l_rdata ?s @ [message_of (ms ! n)] \<and>
           received (ds_session ds' i) = drop (length (enc_numbered (ms ! n))) (received ?s)
         else r = LDAP_RET_OK \<and> l_rdata (ds_session ds' i) = l_rdata ?s \<and> received (ds_session ds' i) = received ?s)"
    if h: "\<forall>k. extra k \<noteq> None" "extra_ok extra" "behind_ok ?s" "l_concurrent_count ?s < ds_max_concurrent ds"
  proof -
    let ?P = "n < length ms \<and> length (enc_numbered (ms ! n)) \<le> length (received ?s)"
    have "\<exists>q s. decode_pass True extra ?s = Some (q, s) \<and>
      (if ?P then returned q = LDAP_RET_DATA_AVAILABLE \<and> l_rdata s = l_rdata ?s @ [message_of (ms ! n)] \<and>
         received s = drop (length (enc_numbered (ms ! n))) (received ?s)
       else returned q = LDAP_RET_OK \<and> l_rdata s = l_rdata ?s \<and> received s = received ?s)"
    proof (cases ?P)
      case True
      from pass_framed [OF n assms(2,3) h(2,3), unfolded if_P [OF True]] show ?thesis
        unfolding if_P [OF True] by (force simp: returned_def)
    next
      case False
      from pass_framed [OF n assms(2,3) h(2,3), unfolded if_not_P [OF False]] h(1) show ?thesis
        unfolding if_not_P [OF False] by blast
    qed
    then obtain q s where p: "decode_pass True extra ?s = Some (q, s)"
      "if ?P then returned q = LDAP_RET_DATA_AVAILABLE \<and> l_rdata s = l_rdata ?s @ [message_of (ms ! n)] \<and>
         received s = drop (length (enc_numbered (ms ! n))) (received ?s)
       else returned q = LDAP_RET_OK \<and> l_rdata s = l_rdata ?s \<and> received s = received ?s"
      by (elim exE conjE)
    have "l_concurrent_count s < ds_max_concurrent ds"
      using decode_pass_ok [OF _ h(2) p(1)] n h(4) by (simp add: framed_def pass_ok_def)
    with sess_decode_some [of True extra ds i q s send tv] p obtain ds' where
      d: "LDAP_sess_decode True extra send tv i ds = Some (returned q, ds', [])" "out_only s (ds_session ds' i)" by blast
    have o: "l_rdata (ds_session ds' i) = l_rdata s" "received (ds_session ds' i) = received s"
      using d(2) received_out_only [OF d(2)] by (simp_all add: out_only_def)
    show ?thesis by (intro exI conjI, rule d(1)) (unfold o, rule p(2))
  qed
  have c: "n \<le> length ms" "taken @ l_rdata ?s = map message_of (take n ms)"
    "input = concat (map enc_numbered (take n ms)) @ received ?s"
    using n unfolding framed_def by blast+
  show ?thesis by (intro exI [of _ n] conjI c impI, elim conjE) (rule step)
qed

text \<open>A session that has received a request and the first byte of another.\<close>

definition demo_start :: DS_t where
  "demo_start = (demo_ds 1)\<lparr>ds_max_concurrent := 4, ds_session := \<lambda>_. session_zero\<lparr>l_state := LDAP_SERV_STATE_READY,
     l_r_ber_body := -1, l_r_ber_body_length := -1\<rparr>\<rparr>"

definition demo_bytes :: bytes where
  "demo_bytes = [0x30, 6, 0x02, 1, 1, 0x4a, 1, 120, 0x30]"

definition demo_network :: read_env where
  "demo_network = \<lparr>so_error = Some 0, recv_r = (\<lambda>n. (int (length (take (nat n) demo_bytes)), take (nat n) demo_bytes)),
     send_r = (\<lambda>bs. int (length bs)), malloc_ok = True, malloc_mem = Some (replicate 131072 0)\<rparr>"

lemma demo_delivered:
  "\<exists>ds. session_run 0 demo_bytes [] ds \<and> l_rdata (ds_session ds 0) = [] \<and> behind_ok (ds_session ds 0) \<and>
     received (ds_session ds 0) = demo_bytes \<and> l_concurrent_count (ds_session ds 0) < ds_max_concurrent ds"
proof -
  have s: "session_run 0 [] [] demo_start"
    by (rule session_run.start) (simp_all add: demo_start_def session_zero_def in_ok_def)
  have e: "env_ok demo_network" by (auto simp: env_ok_def demo_network_def)
  have c: "chunk demo_network (ds_session demo_start 0) = demo_bytes"
    by (simp add: chunk_def recv_room_def demo_network_def demo_start_def session_zero_def or_empty_def demo_bytes_def)
  obtain ds where r: "LDAP_sess_read demo_network 5 0 demo_start = Some (LDAP_RET_OK, ds, [])"
    "l_r_buffer (ds_session ds 0) = Some (demo_bytes @ replicate 131063 0)" "l_r_len (ds_session ds 0) = 9"
    "l_rdata (ds_session ds 0) = []" "l_concurrent_count (ds_session ds 0) = 0" "ds_max_concurrent ds = 4"
    by (simp add: LDAP_sess_read_def read_data_def demo_network_def demo_start_def session_zero_def demo_bytes_def
        store_at_def Let_def ds_upd_def)
  from session_run.rd [OF s e r(1)] c have "session_run 0 demo_bytes [] ds" by simp
  with r show ?thesis
    by (intro exI [of _ ds]) (simp add: behind_ok_def received_def at_def demo_bytes_def nth_append)
qed

theorem ldap_message_framing_witness:
  "\<exists>ds ds'. session_run 0 demo_bytes [] ds \<and>
     LDAP_sess_decode True (\<lambda>k. Some (replicate k 0)) (\<lambda>bs. 1) (0, 0) 0 ds = Some (LDAP_RET_DATA_AVAILABLE, ds', []) \<and>
     l_rdata (ds_session ds' 0) = [\<lparr>message_id = 1, alt = DeleteRequest (str ''x''), controls = []\<rparr>] \<and>
     received (ds_session ds' 0) = [0x30]"
proof -
  let ?ms = "[(1, DeleteRequest (str ''x'')), (2, DeleteRequest (str ''y''))]"
  have e: "enc_numbered (1, DeleteRequest (str ''x'')) = [0x30, 6, 0x02, 1, 1, 0x4a, 1, 120]"
    "enc_numbered (2, DeleteRequest (str ''y'')) = [0x30, 6, 0x02, 1, 2, 0x4a, 1, 121]"
    by (simp_all add: enc_numbered_def enc_message_def ber_tid_create_eq id_bytes_def tlv_def len_octets_def INSERT_LENGTH_def)
  obtain ds where ds: "session_run 0 demo_bytes [] ds" "l_rdata (ds_session ds 0) = []" "behind_ok (ds_session ds 0)"
    "received (ds_session ds 0) = demo_bytes" "l_concurrent_count (ds_session ds 0) < ds_max_concurrent ds"
    using demo_delivered by blast
  have ok: "\<forall>x \<in> set ?ms. request_ok x" using e by (simp add: request_ok_def enc_numbered_def)
  have x: "(\<forall>k. Some (replicate k (0 :: byte)) \<noteq> None) \<and> extra_ok (\<lambda>k. Some (replicate k 0))" by (simp add: extra_ok_def)
  obtain n where "n \<le> length ?ms" "[] = map message_of (take n ?ms)" and step: "\<exists>r ds'.
      LDAP_sess_decode True (\<lambda>k. Some (replicate k 0)) (\<lambda>bs. 1) (0, 0) 0 ds = Some (r, ds', []) \<and>
      (if n < length ?ms \<and> length (enc_numbered (?ms ! n)) \<le> length demo_bytes
       then r = LDAP_RET_DATA_AVAILABLE \<and> l_rdata (ds_session ds' 0) = [] @ [message_of (?ms ! n)] \<and>
         received (ds_session ds' 0) = drop (length (enc_numbered (?ms ! n))) demo_bytes
       else r = LDAP_RET_OK \<and> l_rdata (ds_session ds' 0) = [] \<and> received (ds_session ds' 0) = demo_bytes)"
    using ldap_message_framing [OF ds(1) ok, of "[6, 0x02, 1, 2, 0x4a, 1, 121]" "\<lambda>k. Some (replicate k 0)" "\<lambda>bs. 1" "(0, 0)"]
      x ds(2-5) e unfolding demo_bytes_def by auto
  then have "n = 0" by (cases n) simp_all
  with step ds(1) show ?thesis by (auto simp: e [simplified] demo_bytes_def message_of_def)
qed

section \<open>The byte behind a message\<close>

text \<open>
  A byte \<open>0xa0\<close> left in the buffer behind the last message, from an older and longer one or from the
  heap, is taken for the tag of its controls: the request gets controls that nobody sent, or the
  decoder runs off the buffer in search of them.
\<close>

lemma phantom_controls:
  "ldap_decode_request True ([0x30, 6, 0x02, 1, 1, 0x4a, 1, 120] @ [0xa0, 1, 0x30, 3, 0x04, 1, 65, 0x30, 3, 0x04, 1, 66]) 0 8 =
     Some (LDAP_RET_DATA_AVAILABLE, Some \<lparr>message_id = 1, alt = DeleteRequest (str ''x''),
       controls = [\<lparr>control_type = Some (str ''A''), control_value = None\<rparr>]\<rparr>)"
  "ldap_decode_request True ([0x30, 6, 0x02, 1, 1, 0x4a, 1, 120] @ [0xa0, 1, 0, 0, 0, 0, 0, 0]) 0 8 = None"
  by code_simp+

end
