(* ===== verification/LdapRequestGen.thy ===== *)
theory LdapRequestGen
  imports LdapGen
begin

text \<open>
  The generators of requests in libs/stacks/ldap/ldap_common.c with the controls they append, and
  the encoders of value lists, attribute lists and modification lists that fill them.
\<close>

abbreviation (input) LDAP_RET_ERR_ENCODE :: int where "LDAP_RET_ERR_ENCODE \<equiv> -988"

section \<open>Lists of attributes\<close>

text \<open>
  Values, attributes and modifications are lists in the order of the rings they are linked in. A
  value is the bytes that its \<open>len\<close> counts; a list of values that is \<open>NULL\<close> is empty.
\<close>

record BER_MODLIST =
  m_operation :: int
  m_name :: bytes
  m_vals :: "bytes list"

text \<open>\<open>strncpy\<close> to an array of \<open>cap\<close> bytes, with the length cut to fit.\<close>

definition LBER_valuelist_add :: "bytes list \<Rightarrow> bytes \<Rightarrow> bytes list" where
  "LBER_valuelist_add vals v = vals @ [take (ATTR_VALUE_SIZE - 1) v]"

definition LBER_attrlist_add :: "(bytes \<times> bytes list) list \<Rightarrow> bytes \<Rightarrow> bytes list \<Rightarrow> (bytes \<times> bytes list) list" where
  "LBER_attrlist_add as name vals = as @ [(take (ATTR_NAME_SIZE - 1) name, vals)]"

definition LBER_modlist_add :: "BER_MODLIST list \<Rightarrow> int \<Rightarrow> bytes \<Rightarrow> bytes list \<Rightarrow> BER_MODLIST list" where
  "LBER_modlist_add ms op name vals =
     ms @ [\<lparr>m_operation = op, m_name = take (ATTR_NAME_SIZE - 1) name, m_vals = vals\<rparr>]"

text \<open>\<open>while ((v >> (r * 8)) > 0) ++r\<close> from an \<open>r\<close> that earlier turns have left behind.\<close>

definition octets_from :: "nat \<Rightarrow> nat \<Rightarrow> nat option" where
  "octets_from r v = count_bytes (int v) r (4 - r)"

text \<open>\<open>INSERT_LENGTH\<close> leaves \<open>r\<close> at 0 when it has used it.\<close>

definition after_length :: "nat \<Rightarrow> nat \<Rightarrow> nat" where
  "after_length n r = (if n < 256 then r else 0)"

text \<open>The values in the buffer of \<open>BER_BUFFER\<close> bytes.\<close>

fun value_elements :: "bytes list \<Rightarrow> bytes \<Rightarrow> nat \<Rightarrow> (bytes \<times> nat) option" where
  "value_elements [] buff r = Some (buff, r)"
| "value_elements (v # vs) buff r = do {
     h \<leftarrow> header 0x04 (length v);
     let buff = buff @ h @ v;
     if length buff > 131072 then None else value_elements vs buff (after_length (length v) r)
   }"

text \<open>Bytes appended to a buffer that has room for them.\<close>

definition append_ber :: "BER \<Rightarrow> bytes \<Rightarrow> BER option" where
  "append_ber b bs =
     (if int (length (b_data b) + length bs) > b_room b then None else Some (b\<lparr>b_data := b_data b @ bs\<rparr>))"

text \<open>An attribute without values dereferences \<open>NULL\<close>. The array for the name has two bytes more.\<close>

fun attrlist_loop :: "(bytes \<times> bytes list) list \<Rightarrow> nat \<Rightarrow> BER \<Rightarrow> BER option" where
  "attrlist_loop [] r ber = Some ber"
| "attrlist_loop ((name, vals) # as) r ber = do {
     h \<leftarrow> header 0x04 (length name);
     let r = after_length (length name) r;
     let nm = h @ name;
     if length nm > ATTR_NAME_SIZE + 2 \<or> vals = [] then None else do {
       (buff, r) \<leftarrow> value_elements vals [] r;
       let vlen = length buff;
       let tot = length nm + vlen;
       (tot, r) \<leftarrow> (if vlen < 128 then Some (tot + 2, r)
                  else do { r \<leftarrow> octets_from r vlen; Some (tot + (2 + r), r) });
       h \<leftarrow> header 0x30 tot;
       let r = after_length tot r;
       hv \<leftarrow> header 0x31 vlen;
       let r = after_length vlen r;
       ber \<leftarrow> append_ber ber (h @ nm @ hv @ buff);
       attrlist_loop as r ber
     }
   }"

text \<open>
  The return value and the buffer; \<open>mem_ok\<close> is for the array of the values. \<open>free_flag\<close> frees each
  element behind its last use and has no part in the result.
\<close>

definition LDAP_gen_ber_attrlist ::
    "bool \<Rightarrow> (bytes \<times> bytes list) list \<Rightarrow> BER option \<Rightarrow> (int \<times> BER option) option" where
  "LDAP_gen_ber_attrlist mem_ok as ber =
     (if as = [] then Some (LDAP_RET_ERR_ENCODE, ber)
      else if \<not> mem_ok then Some (LDAP_RET_ERR_MEMORY, ber)
      else do { b \<leftarrow> attrlist_loop as 0 (ber_alloc_buffer ber 131072); Some (LDAP_RET_OK, Some b) })"

fun modlist_loop :: "BER_MODLIST list \<Rightarrow> nat \<Rightarrow> BER \<Rightarrow> BER option" where
  "modlist_loop [] r ber = Some ber"
| "modlist_loop (ml # ms) r ber = do {
     h \<leftarrow> header 0x04 (length (m_name ml));
     let r = after_length (length (m_name ml)) r;
     let nm = h @ m_name ml;
     if length nm > ATTR_NAME_SIZE + 2 then None else do {
       (buff, r) \<leftarrow> value_elements (m_vals ml) [] r;
       let vlen = length buff;
       let tot = length nm + vlen;
       (tlen, r) \<leftarrow> (if vlen < 128 then Some (2, r) else do { r \<leftarrow> octets_from r vlen; Some (2 + r, r) });
       let tot = tot + tlen;
       (tot, r) \<leftarrow> (if tot < 128 then Some (tot + 2, r)
                  else do { r \<leftarrow> octets_from r tot; Some (tot + (2 + r), r) });
       let tot = tot + 3;
       h \<leftarrow> header 0x30 tot;
       let r = after_length tot r;
       let tlen = tlen + vlen + length nm;
       ht \<leftarrow> header 0x30 tlen;
       let r = after_length tlen r;
       hv \<leftarrow> header 0x31 vlen;
       let r = after_length vlen r;
       ber \<leftarrow> append_ber ber (h @ [0x0a, 1, word_of_int (m_operation ml)] @ ht @ nm @ hv @ buff);
       modlist_loop ms r ber
     }
   }"

definition LDAP_gen_ber_modlist ::
    "bool \<Rightarrow> BER_MODLIST list \<Rightarrow> BER option \<Rightarrow> (int \<times> BER option) option" where
  "LDAP_gen_ber_modlist mem_ok ms ber =
     (if ms = [] then Some (LDAP_RET_ERR_ENCODE, ber)
      else if \<not> mem_ok then Some (LDAP_RET_ERR_MEMORY, ber)
      else do { b \<leftarrow> modlist_loop ms 0 (ber_alloc_buffer ber 131072); Some (LDAP_RET_OK, Some b) })"

text \<open>
  The names of attributes to return, in rows of 128 bytes up to an empty one, without which the
  loop runs off the array.
\<close>

fun LDAP_gen_ber_string :: "bytes list \<Rightarrow> BER option \<Rightarrow> BER option option" where
  "LDAP_gen_ber_string [] ber = None"
| "LDAP_gen_ber_string (a # as) ber =
     (if a = [] then Some ber
      else do {
        b \<leftarrow> append_ber (ber_alloc_buffer ber (int (length a) + 2)) ([0x04, of_nat (length a)] @ a);
        LDAP_gen_ber_string as (Some b)
      })"

section \<open>Controls\<close>

text \<open>
  A control as the client fills it in: the type is a C string, \<open>criticality\<close> is -1 when there is
  none, the value is the bytes that its \<open>len\<close> counts, followed by a NUL.
\<close>

record RqControl =
  rc_type :: bytes
  rc_criticality :: int
  rc_value :: bytes

definition has_value :: "RqControl \<Rightarrow> bool" where
  "has_value c \<longleftrightarrow> (case rc_value c of [] \<Rightarrow> False | b # _ \<Rightarrow> b \<noteq> 0)"

definition control_bsize :: "RqControl \<Rightarrow> nat" where
  "control_bsize c =
     (if rc_criticality c \<noteq> -1 \<and> has_value c then (2 + length (rc_type c)) + 3 + (2 + length (rc_value c))
      else if rc_criticality c \<noteq> -1 then (2 + length (rc_type c)) + 3
      else if has_value c then (2 + length (rc_type c)) + (2 + length (rc_value c))
      else 2 + length (rc_type c))"

text \<open>Both loops pass over the controls without a type.\<close>

definition all_ctrl_len :: "RqControl list \<Rightarrow> nat" where
  "all_ctrl_len cs = sum_list (map (\<lambda>c. if rc_type c \<noteq> [] then control_bsize c + 2 else 0) cs)"

definition control_bytes :: "RqControl \<Rightarrow> bytes" where
  "control_bytes c =
     (if rc_type c = [] then []
      else [0x30, of_nat (control_bsize c), 0x04, of_nat (length (rc_type c))] @ rc_type c @
        (if rc_criticality c \<noteq> -1 then [0x01, 0x01, if rc_criticality c = 1 then 0xff else 0x00] else []) @
        (if has_value c then [0x04, of_nat (length (rc_value c))] @ rc_value c else []))"

text \<open>
  What the generators do after the operation, of which \<open>tot\<close> bytes are counted and \<open>op\<close> is
  written: the id, the controls, the outer sequence, and the copies into the buffer.
\<close>

definition finish_request :: "BER option \<Rightarrow> int \<Rightarrow> nat \<Rightarrow> bytes \<Rightarrow> RqControl list \<Rightarrow> (int \<times> BER) option" where
  "finish_request ber tid tot op cs = do {
     tid \<leftarrow> tid_increment tid;
     b_msg \<leftarrow> ber_tid_create tid;
     let tot = tot + length b_msg;
     b_control \<leftarrow> (if all_ctrl_len cs > 0 then header 0xa0 (all_ctrl_len cs) else Some []);
     let tot = (if all_ctrl_len cs > 0 then tot + (length b_control + all_ctrl_len cs) else tot);
     b_ldap \<leftarrow> header 0x30 tot;
     let tot = tot + length b_ldap;
     b \<leftarrow> COPY_TO_BER ber tot (b_ldap @ b_msg @ op @ b_control @ concat (map control_bytes cs));
     Some (tid, b)
   }"

section \<open>Requests\<close>

text \<open>
  \<open>tid\<close> is the counter of the client, the result its new value and the buffer. Texts are C strings
  and attributes the bytes of a list. A tag with a text goes to an array of \<open>LDAP_MAX_DN_SIZE\<close> bytes.
  Its length is kept in \<open>r\<close>, which is also the counter of \<open>INSERT_LENGTH\<close>: a length that needs two
  bytes is set to 0 before it is counted, so that \<open>0x80\<close> is written and nothing after it.
\<close>

definition text_array :: "byte \<Rightarrow> bytes \<Rightarrow> bytes option" where
  "text_array tag s =
     (if length s \<ge> 256 then Some [tag, 0x80]
      else do {
        h \<leftarrow> header tag (length s);
        if length (h @ s) > 1024 then None else Some (h @ s)
      })"

definition LDAP_gen_delete_request ::
    "BER option \<Rightarrow> int \<Rightarrow> bytes \<Rightarrow> RqControl list \<Rightarrow> (int \<times> BER) option" where
  "LDAP_gen_delete_request ber tid dn cs = do {
     b_del \<leftarrow> text_array 0x4a dn;
     finish_request ber tid (length b_del) b_del cs
   }"

definition LDAP_gen_moddn_request ::
    "BER option \<Rightarrow> int \<Rightarrow> bytes \<Rightarrow> bytes \<Rightarrow> int \<Rightarrow> bytes option \<Rightarrow> RqControl list \<Rightarrow> (int \<times> BER) option" where
  "LDAP_gen_moddn_request ber tid dn rdn delete_flag new_sup cs = do {
     b_dn \<leftarrow> text_array 0x04 dn;
     let tot = length b_dn;
     b_rdn \<leftarrow> text_array 0x04 rdn;
     let tot = tot + length b_rdn;
     let b_del = [1, 1, if delete_flag = 1 then 1 else 0];
     let tot = tot + 3;
     b_sup \<leftarrow> (case new_sup of Some s \<Rightarrow> text_array 0x04 s | None \<Rightarrow> Some []);
     let tot = tot + length b_sup;
     b_mod \<leftarrow> header 0x6c tot;
     let tot = tot + length b_mod;
     finish_request ber tid tot (b_mod @ b_dn @ b_rdn @ b_del @ b_sup) cs
   }"

text \<open>Adding and modifying differ in the tag.\<close>

definition gen_attrs_request ::
    "byte \<Rightarrow> BER option \<Rightarrow> int \<Rightarrow> bytes \<Rightarrow> bytes \<Rightarrow> RqControl list \<Rightarrow> (int \<times> BER) option" where
  "gen_attrs_request tag ber tid dn attrs cs = do {
     let tot = length attrs;
     b_attr \<leftarrow> header 0x30 tot;
     let tot = tot + length b_attr;
     b_dn \<leftarrow> text_array 0x04 dn;
     let tot = tot + length b_dn;
     b_op \<leftarrow> header tag tot;
     let tot = tot + length b_op;
     finish_request ber tid tot (b_op @ b_dn @ b_attr @ attrs) cs
   }"

definition LDAP_gen_add_request ::
    "BER option \<Rightarrow> int \<Rightarrow> bytes \<Rightarrow> bytes \<Rightarrow> RqControl list \<Rightarrow> (int \<times> BER) option" where
  "LDAP_gen_add_request ber tid dn attrs cs = gen_attrs_request 0x68 ber tid dn attrs cs"

definition LDAP_gen_modify_request ::
    "BER option \<Rightarrow> int \<Rightarrow> bytes \<Rightarrow> bytes \<Rightarrow> RqControl list \<Rightarrow> (int \<times> BER) option" where
  "LDAP_gen_modify_request ber tid dn attrs cs = gen_attrs_request 0x66 ber tid dn attrs cs"

text \<open>
  The value of an extended request is \<open>elen\<close> bytes at \<open>ext_attr\<close>. Without a value that \<open>elen\<close>
  counts, the counted bytes are not written.
\<close>

definition ext_bytes :: "bytes option \<Rightarrow> nat \<Rightarrow> bytes option" where
  "ext_bytes ext_attr elen =
     (case ext_attr of Some v \<Rightarrow> if elen \<le> length v then Some (take elen v) else None | None \<Rightarrow> Some [])"

definition LDAP_gen_extended_common_request ::
    "BER option \<Rightarrow> int \<Rightarrow> bytes \<Rightarrow> bytes option \<Rightarrow> nat \<Rightarrow> RqControl list \<Rightarrow> (int \<times> BER) option" where
  "LDAP_gen_extended_common_request ber tid oid ext_attr elen cs = do {
     let tot = elen;
     b_attrall \<leftarrow> header 0x81 tot;
     let tot = tot + length b_attrall;
     b_oid \<leftarrow> header 0x80 (length oid);
     let tot = tot + (length b_oid + length oid);
     b_ext \<leftarrow> header 0x77 tot;
     let tot = tot + length b_ext;
     v \<leftarrow> ext_bytes ext_attr elen;
     finish_request ber tid tot (b_ext @ b_oid @ oid @ b_attrall @ v) cs
   }"

definition LDAP_gen_extended_request ::
    "BER option \<Rightarrow> int \<Rightarrow> bytes \<Rightarrow> bytes option \<Rightarrow> nat \<Rightarrow> RqControl list \<Rightarrow> (int \<times> BER) option" where
  "LDAP_gen_extended_request ber tid oid ext_attr elen cs = do {
     let tot = elen;
     b_attr \<leftarrow> (if ext_attr \<noteq> None \<or> elen = 0 then header 0x30 tot else Some []);
     let tot = tot + length b_attr;
     b_attrall \<leftarrow> header 0x81 tot;
     let tot = tot + length b_attrall;
     b_oid \<leftarrow> header 0x80 (length oid);
     let tot = tot + (length b_oid + length oid);
     b_ext \<leftarrow> header 0x77 tot;
     let tot = tot + length b_ext;
     v \<leftarrow> ext_bytes ext_attr elen;
     finish_request ber tid tot (b_ext @ b_oid @ oid @ b_attrall @ b_attr @ v) cs
   }"

section \<open>What the generators write\<close>

definition enc_controls :: "RqControl list \<Rightarrow> bytes" where
  "enc_controls cs = (if all_ctrl_len cs > 0 then tlv 0xa0 (concat (map control_bytes cs)) else [])"

definition enc_client_message :: "int \<Rightarrow> request \<Rightarrow> RqControl list \<Rightarrow> bytes" where
  "enc_client_message mid r cs =
     tlv 0x30 ((case ber_tid_create mid of Some t \<Rightarrow> t | None \<Rightarrow> []) @ enc_request r @ enc_controls cs)"

definition written :: "(int \<times> BER) option \<Rightarrow> int \<Rightarrow> bytes \<Rightarrow> bool" where
  "written x t e \<longleftrightarrow> (\<exists>b. x = Some (t, b) \<and> b_data b = e)"

lemma enc_client_message_Nil [simp]: "enc_client_message mid r [] = enc_message mid r"
  by (simp add: enc_client_message_def enc_message_def enc_controls_def all_ctrl_len_def)

lemma length_control_bytes: "length (concat (map control_bytes cs)) = all_ctrl_len cs"
  by (induction cs) (simp_all add: all_ctrl_len_def control_bytes_def control_bsize_def)

lemma controls_empty: "all_ctrl_len cs = 0 \<Longrightarrow> concat (map control_bytes cs) = []"
  using length_control_bytes [of cs] by simp

lemma finish_request_enc:
  assumes t: "tid_increment tid = Some t" "0 < t" "t < 2 ^ 24"
    and e: "e = enc_client_message t r cs" "length e < 2 ^ 24" "fits_buffer (length e)"
    and op: "op = enc_request r" "tot = length op"
  shows "written (finish_request None tid tot op cs) t e"
proof -
  obtain i where i: "ber_tid_create t = Some i" using tid_encoded [OF t(2,3)] by blast
  define C where "C = concat (map control_bytes cs)"
  define A where "A = all_ctrl_len cs"
  define H where "H = (if A > 0 then 0xa0 # len_octets A else [])"
  define n where "n = length op + length i + length H + A"
  have LC: "length C = A" by (simp add: C_def A_def length_control_bytes)
  have ec: "enc_controls cs = H @ C"
    by (simp add: enc_controls_def A_def [symmetric] C_def [symmetric] H_def tlv_def LC)
      (simp add: A_def C_def controls_empty)
  have e': "e = tlv 0x30 (i @ op @ H @ C)" by (simp add: e(1) enc_client_message_def i op(1) ec)
  have Le: "length e = n + hdr n"
    by (simp add: e' length_tlv n_def LC add.commute add.left_commute)
  have h: "(if A > 0 then header 0xa0 A else Some []) = Some H" "header 0x30 n = Some (0x30 # len_octets n)"
    using e(2) Le by (simp_all add: header_octets H_def n_def)
  have data: "(0x30 # len_octets n) @ i @ op @ H @ C = e"
    by (simp add: e' tlv_def n_def LC add.commute add.left_commute)
  have s: "(if A > 0 then tot + length i + (length H + A) else tot + length i) = n"
    by (simp add: n_def H_def op(2))
  have s3: "n + length ((0x30 :: byte) # len_octets n) = length e" by (simp only: Le length_header)
  have "finish_request None tid tot op cs = do { b \<leftarrow> COPY_TO_BER None (length e) e; Some (t, b) }"
    unfolding finish_request_def A_def [symmetric] C_def [symmetric] Let_def
    by (simp only: t(1) i h bind.bind_lunit s s3 data)
  with COPY_TO_BER_new [OF e(3)] show ?thesis by (auto simp: written_def)
qed

lemma text_array_enc: "length s < 256 \<Longrightarrow> text_array tag s = Some (tlv tag s)"
proof -
  assume s: "length s < 256"
  then have "length (len_octets (length s)) \<le> 2"
    by (auto simp: len_octets_def INSERT_LENGTH_eq id_bytes_def)
  with s show ?thesis by (simp add: text_array_def header_octets tlv_def)
qed

lemma enc_client_bound:
  "enc_request r = tlv tag B \<Longrightarrow> e = enc_client_message mid r cs \<Longrightarrow> length e < 2 ^ 24 \<Longrightarrow> length B < 2 ^ 24"
  by (simp add: enc_client_message_def length_tlv)

lemma gen_delete_enc:
  assumes "tid_increment tid = Some t" "0 < t" "t < 2 ^ 24"
    and "e = enc_client_message t (DeleteRequest dn) cs" "length e < 2 ^ 24" "fits_buffer (length e)"
    and "length dn < 256"
  shows "written (LDAP_gen_delete_request None tid dn cs) t e"
  using finish_request_enc [OF assms(1-6)] assms(7)
  by (simp add: LDAP_gen_delete_request_def text_array_enc)

lemma gen_moddn_enc:
  assumes t: "tid_increment tid = Some t" "0 < t" "t < 2 ^ 24"
    and e: "e = enc_client_message t (ModDnRequest dn rdn (if flag = 1 then 1 else 0)) cs"
      "length e < 2 ^ 24" "fits_buffer (length e)"
    and l: "length dn < 256" "length rdn < 256"
  shows "written (LDAP_gen_moddn_request None tid dn rdn flag None cs) t e"
proof -
  define B where "B = tlv 0x04 dn @ tlv 0x04 rdn @ [1, 1, if flag = 1 then 1 else 0 :: byte]"
  have r: "enc_request (ModDnRequest dn rdn (if flag = 1 then 1 else 0)) = tlv 0x6c B"
    by (simp add: B_def tlv_def len_octets_def INSERT_LENGTH_def)
  have n: "length (tlv 0x04 dn) + length (tlv 0x04 rdn) + 3 + length ([] :: bytes) = length B" by (simp add: B_def)
  have "length B < 2 ^ 24" by (rule enc_client_bound [OF r e(1,2)])
  then have h: "header 0x6c (length B) = Some (0x6c # len_octets (length B))" by (simp add: header_octets)
  have o: "(0x6c # len_octets (length B)) @ tlv 0x04 dn @ tlv 0x04 rdn @ [1, 1, if flag = 1 then 1 else 0] @ [] = tlv 0x6c B"
    "length B + length ((0x6c :: byte) # len_octets (length B)) = length (tlv 0x6c B)"
    by (simp_all add: B_def tlv_def)
  have "LDAP_gen_moddn_request None tid dn rdn flag None cs = finish_request None tid (length (tlv 0x6c B)) (tlv 0x6c B) cs"
    unfolding LDAP_gen_moddn_request_def Let_def
    by (simp only: text_array_enc [OF l(1)] text_array_enc [OF l(2)] bind.bind_lunit option.case n h o)
  then show ?thesis using finish_request_enc [OF t e r [symmetric] refl] by simp
qed

lemma gen_attrs_enc:
  assumes t: "tid_increment tid = Some t" "0 < t" "t < 2 ^ 24"
    and e: "e = enc_client_message t r cs" "length e < 2 ^ 24" "fits_buffer (length e)"
    and r: "enc_request r = tlv tag (tlv 0x04 dn @ tlv 0x30 attrs)" and l: "length dn < 256"
  shows "written (gen_attrs_request tag None tid dn attrs cs) t e"
proof -
  define B where "B = tlv 0x04 dn @ tlv 0x30 attrs"
  have b: "length B < 2 ^ 24" unfolding B_def by (rule enc_client_bound [OF r e(1,2)])
  then have a: "length attrs < 2 ^ 24" by (simp add: B_def length_tlv)
  have n: "length attrs + length ((0x30 :: byte) # len_octets (length attrs)) + length (tlv 0x04 dn) = length B"
    "length B + length (tag # len_octets (length B)) = length (tlv tag B)"
    "(tag # len_octets (length B)) @ tlv 0x04 dn @ (0x30 # len_octets (length attrs)) @ attrs = tlv tag B"
    by (simp_all add: B_def tlv_def)
  have "gen_attrs_request tag None tid dn attrs cs = finish_request None tid (length (tlv tag B)) (tlv tag B) cs"
    unfolding gen_attrs_request_def Let_def
    by (simp only: text_array_enc [OF l] header_octets [OF a] header_octets [OF b] bind.bind_lunit n)
  then show ?thesis using finish_request_enc [OF t e r [symmetric] refl] by (simp add: B_def)
qed

text \<open>Both forms of the extended request write an operation with the name and the value.\<close>

lemma gen_extended_enc:
  assumes t: "tid_increment tid = Some t" "0 < t" "t < 2 ^ 24"
    and e: "e = enc_client_message t r cs" "length e < 2 ^ 24" "fits_buffer (length e)"
    and r: "enc_request r = tlv 0x77 (tlv 0x80 oid @ tlv 0x81 w)"
    and v: "x = Some v \<or> x = None \<and> v = []"
  shows "w = v \<Longrightarrow> written (LDAP_gen_extended_common_request None tid oid x (length v) cs) t e"
    and "w = tlv 0x30 v \<Longrightarrow> written (LDAP_gen_extended_request None tid oid x (length v) cs) t e"
proof -
  define B where "B = tlv 0x80 oid @ tlv 0x81 w"
  have b: "length B < 2 ^ 24" unfolding B_def by (rule enc_client_bound [OF r e(1,2)])
  then have a: "length oid < 2 ^ 24" "length w < 2 ^ 24" by (simp_all add: B_def length_tlv)
  have n: "length w + length ((0x81 :: byte) # len_octets (length w)) +
      (length ((0x80 :: byte) # len_octets (length oid)) + length oid) = length B"
    "length B + length ((0x77 :: byte) # len_octets (length B)) = length (tlv 0x77 B)"
    "(0x77 # len_octets (length B)) @ (0x80 # len_octets (length oid)) @ oid @ (0x81 # len_octets (length w)) @ w = tlv 0x77 B"
    by (simp_all add: B_def tlv_def)
  have x: "ext_bytes x (length v) = Some v" using v by (auto simp: ext_bytes_def)
  have f: "written (finish_request None tid (length (tlv 0x77 B)) (tlv 0x77 B) cs) t e"
    using finish_request_enc [OF t e r [symmetric] refl] by (simp add: B_def)
  show "written (LDAP_gen_extended_common_request None tid oid x (length v) cs) t e" if w: "w = v"
  proof -
    have "LDAP_gen_extended_common_request None tid oid x (length v) cs =
        finish_request None tid (length (tlv 0x77 B)) (tlv 0x77 B) cs"
      unfolding LDAP_gen_extended_common_request_def Let_def
      by (simp only: header_octets [OF a(1)] header_octets [OF a(2)[unfolded w]] header_octets [OF b] x bind.bind_lunit n [unfolded w])
    with f show ?thesis by simp
  qed
  show "written (LDAP_gen_extended_request None tid oid x (length v) cs) t e" if w: "w = tlv 0x30 v"
  proof -
    have a': "length v < 2 ^ 24" using a(2) by (simp add: w length_tlv)
    have w': "length v + length ((0x30 :: byte) # len_octets (length v)) = length w" "(0x30 # len_octets (length v)) @ v = w"
      by (simp_all add: w tlv_def)
    have c: "(if x \<noteq> None \<or> length v = 0 then header 0x30 (length v) else Some []) = Some (0x30 # len_octets (length v))"
      using v by (auto simp: header_octets [OF a'])
    have "LDAP_gen_extended_request None tid oid x (length v) cs =
        finish_request None tid (length (tlv 0x77 B)) (tlv 0x77 B) cs"
      unfolding LDAP_gen_extended_request_def Let_def
      by (simp only: c header_octets [OF a(1)] header_octets [OF a(2)] header_octets [OF b] x bind.bind_lunit w' n)
    with f show ?thesis by simp
  qed
qed

section \<open>What the encoders of lists write\<close>

text \<open>The \<open>r\<close> of an earlier turn is 0 or 1 when it is used again, which changes no length.\<close>

lemma octets_from_eq: "r \<le> 1 \<Longrightarrow> 128 \<le> v \<Longrightarrow> v < 2 ^ 24 \<Longrightarrow> octets_from r v = Some (id_bytes (int v))"
  unfolding octets_from_def by (rule count_bytes_eq) (auto simp: id_bytes_def)

lemma octets_from_mono:
  "v \<le> w \<Longrightarrow> 128 \<le> v \<Longrightarrow> w < 2 ^ 24 \<Longrightarrow> octets_from (id_bytes (int v)) w = Some (id_bytes (int w))"
  unfolding octets_from_def by (rule count_bytes_eq) (auto simp: id_bytes_def)

lemma hdr_cases: "n < 2 ^ 24 \<Longrightarrow> hdr n = (if n < 128 then 2 else 2 + id_bytes (int n))"
  by (auto simp: hdr_def len_octets_def INSERT_LENGTH_eq)

lemma after_length_le: "r \<le> 1 \<Longrightarrow> after_length n r \<le> 1"
  by (simp add: after_length_def)

lemma after_length_id: "128 \<le> v \<Longrightarrow> v \<le> n \<Longrightarrow> n < 2 ^ 24 \<Longrightarrow> after_length n (id_bytes (int v)) \<le> 1"
  by (auto simp: after_length_def id_bytes_def)

lemma value_elements_enc:
  "r \<le> 1 \<Longrightarrow> length (buff @ concat (map (tlv 0x04) vs)) \<le> 131072 \<Longrightarrow>
     \<exists>r' \<le> 1. value_elements vs buff r = Some (buff @ concat (map (tlv 0x04) vs), r')"
proof (induction vs arbitrary: buff r)
  case (Cons v vs)
  from Cons.prems(2) have h: "length v < 2 ^ 24" by (simp add: length_tlv)
  have e: "buff @ (0x04 # len_octets (length v)) @ v = buff @ tlv 0x04 v" by (simp add: tlv_def)
  from Cons.prems(2) have l: "length (buff @ tlv 0x04 v) \<le> 131072" by simp
  obtain r' where "r' \<le> 1" "value_elements vs (buff @ tlv 0x04 v) (after_length (length v) r) =
      Some ((buff @ tlv 0x04 v) @ concat (map (tlv 0x04) vs), r')"
    using Cons.IH [of "after_length (length v) r" "buff @ tlv 0x04 v"] Cons.prems after_length_le by auto
  with l show ?case
    by (simp only: value_elements.simps header_octets [OF h] bind.bind_lunit Let_def e) auto
qed auto

lemma append_ber_room:
  "int (length (b_data b) + length bs) \<le> b_room b \<Longrightarrow> append_ber b bs = Some (b\<lparr>b_data := b_data b @ bs\<rparr>)"
  by (simp add: append_ber_def)

lemma attr_name_fits:
  "length nm < 256 \<Longrightarrow> \<not> length ((0x04 # len_octets (length nm)) @ nm) > ATTR_NAME_SIZE + 2"
  by (auto simp: len_octets_def INSERT_LENGTH_eq id_bytes_def)

lemma attrlist_loop_enc:
  "r \<le> 1 \<Longrightarrow> \<forall>a \<in> set as. fits_attr a \<and> snd a \<noteq> [] \<Longrightarrow> b_room ber \<le> 131072 \<Longrightarrow>
   int (length (b_data ber) + length (concat (map (\<lambda>a. tlv 0x30 (enc_attr a)) as))) \<le> b_room ber \<Longrightarrow>
   attrlist_loop as r ber = Some (ber\<lparr>b_data := b_data ber @ concat (map (\<lambda>a. tlv 0x30 (enc_attr a)) as)\<rparr>)"
proof (induction as arbitrary: r ber)
  case (Cons a as)
  obtain nm vals where a: "a = (nm, vals)" by (cases a)
  define V where "V = concat (map (tlv 0x04) vals)"
  define N where "N = (0x04 # len_octets (length nm)) @ nm"
  define B where "B = tlv 0x30 (enc_attr a)"
  from Cons.prems(2) have nm: "length nm < 256" "vals \<noteq> []" by (auto simp: a fits_attr_def)
  have E: "enc_attr a = N @ (0x31 # len_octets (length V)) @ V"
    by (simp add: a enc_attr_def N_def V_def tlv_def)
  have LB: "length B = hdr (length (enc_attr a)) + length (enc_attr a)" by (simp add: B_def length_tlv)
  have lB: "int (length (b_data ber) + length B) \<le> b_room ber" using Cons.prems(4) by (simp add: B_def)
  have lV: "length V \<le> 131072" "length V < 2 ^ 24" "length (enc_attr a) < 2 ^ 24"
    using lB Cons.prems(3) by (simp_all add: LB E)
  have tot: "length (enc_attr a) = length N + length V + hdr (length V)" by (simp add: E hdr_def)
  let ?r1 = "after_length (length nm) r"
  obtain r2 where r2: "r2 \<le> 1" "value_elements vals [] ?r1 = Some (V, r2)"
    using value_elements_enc [of ?r1 "[]" vals] after_length_le Cons.prems(1) lV(1) by (auto simp: V_def)
  obtain r3 where r3: "(if length V < 128 then Some (length N + length V + 2, r2)
      else do { r \<leftarrow> octets_from r2 (length V); Some (length N + length V + (2 + r), r) }) = Some (length (enc_attr a), r3)"
    "after_length (length (enc_attr a)) r3 \<le> 1"
  proof (cases "length V < 128")
    case True
    with that [of r2] r2(1) tot hdr_cases [OF lV(2)] after_length_le show ?thesis by auto
  next
    case False
    with that [of "id_bytes (int (length V))"] octets_from_eq [OF r2(1) _ lV(2)] tot hdr_cases [OF lV(2)]
      after_length_id [OF _ _ lV(3), of "length V"] show ?thesis by auto
  qed
  define r4 where "r4 = after_length (length V) (after_length (length (enc_attr a)) r3)"
  have r4: "r4 \<le> 1" using r3(2) after_length_le by (simp add: r4_def)
  have B': "(0x30 # len_octets (length (enc_attr a))) @ N @ (0x31 # len_octets (length V)) @ V = B"
    by (simp add: B_def tlv_def E)
  have h: "header 0x04 (length nm) = Some (0x04 # len_octets (length nm))"
    "header 0x30 (length (enc_attr a)) = Some (0x30 # len_octets (length (enc_attr a)))"
    "header 0x31 (length V) = Some (0x31 # len_octets (length V))"
    using nm(1) lV by (simp_all add: header_octets)
  have g: "(length N > ATTR_NAME_SIZE + 2 \<or> vals = []) = False"
    using nm attr_name_fits [OF nm(1)] by (simp add: N_def)
  have "attrlist_loop (a # as) r ber = attrlist_loop as r4 (ber\<lparr>b_data := b_data ber @ B\<rparr>)"
    unfolding a attrlist_loop.simps Let_def
    by (simp only: h N_def [symmetric] g if_False r2 r3 bind.bind_lunit prod.case B' append_ber_room [OF lB]
        r4_def [symmetric])
  also have "\<dots> = Some (ber\<lparr>b_data := b_data ber @ concat (map (\<lambda>a. tlv 0x30 (enc_attr a)) (a # as))\<rparr>)"
    using Cons.IH [OF r4, of "ber\<lparr>b_data := b_data ber @ B\<rparr>"] Cons.prems(2-4) by (simp add: B_def)
  finally show ?case .
qed simp

text \<open>A modification of the client, as the change that the server reads.\<close>

definition change_of :: "BER_MODLIST \<Rightarrow> ChangeType" where
  "change_of ml = \<lparr>operation = Some (m_operation ml), modification = Some (m_name ml, m_vals ml)\<rparr>"

lemma modlist_loop_enc:
  "r \<le> 1 \<Longrightarrow> \<forall>ml \<in> set ms. fits_change (change_of ml) \<Longrightarrow> b_room ber \<le> 131072 \<Longrightarrow>
   int (length (b_data ber) + length (concat (map (\<lambda>ml. enc_change (change_of ml)) ms))) \<le> b_room ber \<Longrightarrow>
   modlist_loop ms r ber = Some (ber\<lparr>b_data := b_data ber @ concat (map (\<lambda>ml. enc_change (change_of ml)) ms)\<rparr>)"
proof (induction ms arbitrary: r ber)
  case (Cons ml ms)
  define V where "V = concat (map (tlv 0x04) (m_vals ml))"
  define N where "N = (0x04 # len_octets (length (m_name ml))) @ m_name ml"
  define I where "I = enc_attr (m_name ml, m_vals ml)"
  define Op where "Op = [0x0a, 1, word_of_int (m_operation ml) :: byte]"
  define B where "B = enc_change (change_of ml)"
  define n where "n = length I + hdr (length I) + 3"
  from Cons.prems(2) have nm: "length (m_name ml) < 256" by (auto simp: change_of_def fits_change_def fits_attr_def)
  have I: "I = N @ (0x31 # len_octets (length V)) @ V"
    by (simp add: I_def enc_attr_def N_def V_def tlv_def)
  have Op: "tlv 0x0a [word_of_int (m_operation ml)] = Op"
    by (simp add: Op_def tlv_def len_octets_def INSERT_LENGTH_def)
  have B: "B = tlv 0x30 (Op @ tlv 0x30 I)"
    by (simp add: B_def enc_change_def change_of_def Op I_def)
  have L: "length Op = 3" by (simp add: Op_def)
  have n': "length (Op @ tlv 0x30 I) = n" by (simp add: L length_tlv n_def)
  have LB: "length B = hdr n + n" unfolding B length_tlv n' ..
  have lB: "int (length (b_data ber) + length B) \<le> b_room ber" using Cons.prems(4) by (simp add: B_def)
  have lI: "n < 2 ^ 24" "length I < 2 ^ 24" using lB Cons.prems(3) LB by (simp_all add: n_def)
  have lV: "length V \<le> 131072" "length V < 2 ^ 24" "length V \<le> length I"
    using lB Cons.prems(3) by (simp_all add: LB n_def I)
  have tot: "length I = length N + length V + hdr (length V)" by (simp add: I hdr_def)
  let ?r1 = "after_length (length (m_name ml)) r"
  obtain r2 where r2: "r2 \<le> 1" "value_elements (m_vals ml) [] ?r1 = Some (V, r2)"
    using value_elements_enc [of ?r1 "[]" "m_vals ml"] after_length_le Cons.prems(1) lV(1) by (auto simp: V_def)
  obtain r3 where r3: "(if length V < 128 then Some (2, r2)
      else do { r \<leftarrow> octets_from r2 (length V); Some (2 + r, r) }) = Some (hdr (length V), r3)"
    "128 \<le> length I \<Longrightarrow> octets_from r3 (length I) = Some (id_bytes (int (length I)))" "length I < 128 \<Longrightarrow> r3 \<le> 1"
  proof (cases "length V < 128")
    case True
    with that [of r2] r2(1) hdr_cases [OF lV(2)] octets_from_eq [OF r2(1) _ lI(2)] show ?thesis by auto
  next
    case False
    with that [of "id_bytes (int (length V))"] octets_from_eq [OF r2(1) _ lV(2)] hdr_cases [OF lV(2)]
      octets_from_mono [OF lV(3) _ lI(2)] lV(3) show ?thesis by auto
  qed
  obtain r4 where r4: "(if length I < 128 then Some (length I + 2, r3)
      else do { r \<leftarrow> octets_from r3 (length I); Some (length I + (2 + r), r) }) = Some (length I + hdr (length I), r4)"
    "after_length n r4 \<le> 1"
  proof (cases "length I < 128")
    case True
    with that [of r3] r3(3) hdr_cases [OF lI(2)] after_length_le show ?thesis by auto
  next
    case False
    with that [of "id_bytes (int (length I))"] r3(2) hdr_cases [OF lI(2)]
      after_length_id [OF _ _ lI(1), of "length I"] show ?thesis by (auto simp: n_def)
  qed
  define r5 where "r5 = after_length (length V) (after_length (length I) (after_length n r4))"
  have r5: "r5 \<le> 1" using r4(2) after_length_le by (simp add: r5_def)
  have h: "header 0x04 (length (m_name ml)) = Some (0x04 # len_octets (length (m_name ml)))"
    "header 0x30 n = Some (0x30 # len_octets n)"
    "header 0x30 (length I) = Some (0x30 # len_octets (length I))"
    "header 0x31 (length V) = Some (0x31 # len_octets (length V))"
    using nm lV lI by (simp_all add: header_octets)
  have B': "(0x30 # len_octets n) @ Op @ (0x30 # len_octets (length I)) @ N @ (0x31 # len_octets (length V)) @ V = B"
    unfolding B tlv_def [of "0x30" "Op @ _"] n' by (simp add: tlv_def) (simp add: I)
  have s: "length N + length V + hdr (length V) = length I" "hdr (length V) + length V + length N = length I"
    "length I + hdr (length I) + 3 = n"
    by (simp_all add: tot n_def)
  have g: "(length N > ATTR_NAME_SIZE + 2) = False"
    using attr_name_fits [OF nm] by (simp add: N_def)
  have "modlist_loop (ml # ms) r ber = modlist_loop ms r5 (ber\<lparr>b_data := b_data ber @ B\<rparr>)"
    unfolding modlist_loop.simps Let_def
    by (simp only: h N_def [symmetric] Op_def [symmetric] g if_False r2 r3 bind.bind_lunit prod.case s r4 B'
        append_ber_room [OF lB] r5_def [symmetric])
  also have "\<dots> = Some (ber\<lparr>b_data := b_data ber @ concat (map (\<lambda>ml. enc_change (change_of ml)) (ml # ms))\<rparr>)"
    using Cons.IH [OF r5, of "ber\<lparr>b_data := b_data ber @ B\<rparr>"] Cons.prems(2-4) by (simp add: B_def)
  finally show ?case .
qed simp

text \<open>The lists that the client builds with \<open>LBER_valuelist_add\<close> and its like hold what fits.\<close>

lemma LBER_attr_fits:
  "\<forall>v \<in> set vals. length v < ATTR_VALUE_SIZE \<Longrightarrow> \<forall>a \<in> set as. fits_attr a \<Longrightarrow>
     (\<forall>v \<in> set (LBER_valuelist_add vals v). length v < ATTR_VALUE_SIZE) \<and>
     (\<forall>a \<in> set (LBER_attrlist_add as name vals). fits_attr a)"
  by (auto simp: LBER_valuelist_add_def LBER_attrlist_add_def fits_attr_def)

lemma gen_ber_attrlist_enc:
  assumes "as \<noteq> []" "\<forall>a \<in> set as. fits_attr a \<and> snd a \<noteq> []"
    and "length (concat (map (\<lambda>a. tlv 0x30 (enc_attr a)) as)) \<le> 131056"
  shows "\<exists>b. LDAP_gen_ber_attrlist True as None = Some (LDAP_RET_OK, Some b) \<and>
    b_data b = concat (map (\<lambda>a. tlv 0x30 (enc_attr a)) as)"
  using assms attrlist_loop_enc [of 0 as "ber_alloc_buffer None 131072"]
  by (simp add: LDAP_gen_ber_attrlist_def ber_alloc_buffer_def ADJUST_SIZE_def Let_def)

lemma gen_ber_modlist_enc:
  assumes "ms \<noteq> []" "\<forall>ml \<in> set ms. fits_change (change_of ml)"
    and "length (concat (map (\<lambda>ml. enc_change (change_of ml)) ms)) \<le> 131056"
  shows "\<exists>b. LDAP_gen_ber_modlist True ms None = Some (LDAP_RET_OK, Some b) \<and>
    b_data b = concat (map (\<lambda>ml. enc_change (change_of ml)) ms)"
  using assms modlist_loop_enc [of 0 ms "ber_alloc_buffer None 131072"]
  by (simp add: LDAP_gen_ber_modlist_def ber_alloc_buffer_def ADJUST_SIZE_def Let_def)

lemma row_bytes: "length a < 128 \<Longrightarrow> [0x04, of_nat (length a)] @ a = tlv 0x04 a"
  by (simp add: tlv_def len_octets_def INSERT_LENGTH_def)

lemma gen_ber_string_loop:
  "\<forall>a \<in> set as. a \<noteq> [] \<and> length a < 128 \<Longrightarrow> b_size b = 131072 \<Longrightarrow> b_room b = 131056 \<Longrightarrow>
   length (b_data b) + length (concat (map (tlv 0x04) as)) \<le> 131056 \<Longrightarrow>
   LDAP_gen_ber_string (as @ [] # rest) (Some b) = Some (Some (b\<lparr>b_data := b_data b @ concat (map (tlv 0x04) as)\<rparr>))"
proof (induction as arbitrary: b)
  case (Cons a as)
  have a: "length a < 128" "a \<noteq> []" using Cons.prems(1) by simp_all
  have h: "length (tlv 0x04 a) = 2 + length a" using a(1) by (simp add: length_tlv hdr_cases)
  have "ber_alloc_buffer (Some b) (int (length a) + 2) = b"
    using Cons.prems h by (simp add: ber_alloc_buffer_def)
  moreover have "append_ber b (tlv 0x04 a) = Some (b\<lparr>b_data := b_data b @ tlv 0x04 a\<rparr>)"
    using Cons.prems by (simp add: append_ber_def)
  ultimately show ?case
    using Cons.IH [of "b\<lparr>b_data := b_data b @ tlv 0x04 a\<rparr>"] Cons.prems a(2) row_bytes [OF a(1)] by simp
qed simp

lemma gen_ber_string_enc:
  assumes "as \<noteq> []" "\<forall>a \<in> set as. a \<noteq> [] \<and> length a < 128" "length (concat (map (tlv 0x04) as)) \<le> 131056"
  shows "\<exists>b. LDAP_gen_ber_string (as @ [] # rest) None = Some (Some b) \<and> b_data b = concat (map (tlv 0x04) as)"
proof -
  obtain a as' where as: "as = a # as'" using assms(1) by (cases as) auto
  have a: "length a < 128" "a \<noteq> []" using assms(2) by (simp_all add: as)
  let ?b = "\<lparr>b_size = 131072, b_room = 131056, b_data = []\<rparr> :: BER"
  have "ber_alloc_buffer None (int (length a) + 2) = ?b"
    using a(1) by (simp add: ber_alloc_buffer_def ADJUST_SIZE_def Let_def)
  moreover have "append_ber ?b (tlv 0x04 a) = Some (?b\<lparr>b_data := tlv 0x04 a\<rparr>)"
    using assms(3) by (simp add: append_ber_def as)
  ultimately show ?thesis
    using gen_ber_string_loop [of as' "?b\<lparr>b_data := tlv 0x04 a\<rparr>" rest] assms(2,3) a(2) row_bytes [OF a(1)]
    by (simp add: as)
qed

section \<open>From the client to the server\<close>



text \<open>
  Lists of attributes and of modifications, in any number and with values of any lengths, are
  written as the attributes of an add request and the changes of a modify request of RFC 4511:
  the length count that is kept from one element to the next spoils none of the lengths. The
  names of attributes to return are written up to the empty one, as octet strings.
\<close>

theorem LDAP_gen_ber_lists_encoded:
  shows "(as \<noteq> [] \<and> (\<forall>a \<in> set as. fits_attr a \<and> snd a \<noteq> []) \<and>
      length (concat (map (\<lambda>a. tlv 0x30 (enc_attr a)) as)) \<le> 131056 \<longrightarrow>
      (\<exists>b. LDAP_gen_ber_attrlist True as None = Some (LDAP_RET_OK, Some b) \<and>
        b_data b = concat (map (\<lambda>a. tlv 0x30 (enc_attr a)) as))) \<and>
    (ms \<noteq> [] \<and> (\<forall>ml \<in> set ms. fits_change (change_of ml)) \<and>
      length (concat (map (\<lambda>ml. enc_change (change_of ml)) ms)) \<le> 131056 \<longrightarrow>
      (\<exists>b. LDAP_gen_ber_modlist True ms None = Some (LDAP_RET_OK, Some b) \<and>
        b_data b = concat (map (\<lambda>ml. enc_change (change_of ml)) ms))) \<and>
    (names \<noteq> [] \<and> (\<forall>a \<in> set names. a \<noteq> [] \<and> length a < 128) \<and>
      length (concat (map (tlv 0x04) names)) \<le> 131056 \<longrightarrow>
      (\<exists>b. LDAP_gen_ber_string (names @ [] # rest) None = Some (Some b) \<and>
        b_data b = concat (map (tlv 0x04) names)))"
  using gen_ber_attrlist_enc gen_ber_modlist_enc gen_ber_string_enc by blast

theorem LDAP_gen_ber_lists_encoded_witness:
  "\<exists>b. LDAP_gen_ber_attrlist True [(str ''cn'', [str ''x'', str ''yz''])] None = Some (LDAP_RET_OK, Some b) \<and>
     b_data b = [0x30, 13, 0x04, 2, 99, 110, 0x31, 7, 0x04, 1, 120, 0x04, 2, 121, 122]"
proof -
  let ?as = "[(str ''cn'', [str ''x'', str ''yz''])]"
  have e: "concat (map (\<lambda>a. tlv 0x30 (enc_attr a)) ?as) =
      [0x30, 13, 0x04, 2, 99, 110, 0x31, 7, 0x04, 1, 120, 0x04, 2, 121, 122]"
    by (simp add: enc_attr_def tlv_def len_octets_def INSERT_LENGTH_def)
  have "?as \<noteq> [] \<and> (\<forall>a \<in> set ?as. fits_attr a \<and> snd a \<noteq> [])" by (simp add: fits_attr_def)
  with LDAP_gen_ber_lists_encoded [of ?as, THEN conjunct1] show ?thesis unfolding e by simp
qed

text \<open>
  C10. End to end: an entry given to the client as a list of attributes, or a list of modifications,
  goes through the encoder of the list and the generator of the request and is decoded by the
  server, wherever the message stands in its buffer, to a request with the id of the client, the
  DN and the very same list. This holds for an id below \<open>2 ^ 24\<close>, a DN that is not empty and has less
  than 256 bytes, attributes with a value each, names of less than 256 bytes and values of less than
  8192, operations that are one byte, a message of at most 131056 bytes without controls, and when
  the byte behind the message in the server's buffer, which the decoder reads, is not \<open>0xa0\<close>.
\<close>

theorem ldap_client_lists_roundtrip:
  assumes t: "tid_increment tid = Some t" "0 < t" "t < 2 ^ 24"
    and dn: "dn \<noteq> []" "length dn < 256"
    and r: "r = AddRequest (Some dn) (Some as) \<and> as \<noteq> [] \<and> (\<forall>a \<in> set as. fits_attr a \<and> snd a \<noteq> []) \<and>
          enc = LDAP_gen_ber_attrlist True as None \<and> gen = LDAP_gen_add_request \<or>
        r = ModifyRequest (Some dn) (Some (map change_of ms)) \<and> ms \<noteq> [] \<and>
          (\<forall>ml \<in> set ms. fits_change (change_of ml)) \<and>
          enc = LDAP_gen_ber_modlist True ms None \<and> gen = LDAP_gen_modify_request"
    and l: "length (enc_message t r) \<le> 131056"
    and suf: "suf \<noteq> []" "hd suf \<noteq> 0xa0"
  shows "\<exists>l b. enc = Some (LDAP_RET_OK, Some l) \<and> gen None tid dn (b_data l) [] = Some (t, b) \<and>
    ldap_decode_request True (pre @ b_data b @ suf) (length pre) (int (length (b_data b))) =
      Some (LDAP_RET_DATA_AVAILABLE, Some \<lparr>message_id = t, alt = r, controls = []\<rparr>)"
proof -
  define L where "L = (if r = AddRequest (Some dn) (Some as) then concat (map (\<lambda>a. tlv 0x30 (enc_attr a)) as)
    else concat (map (\<lambda>ml. enc_change (change_of ml)) ms))"
  obtain tag where tag: "enc_request r = tlv tag (tlv 0x04 dn @ tlv 0x30 L)"
    using r by (auto simp: L_def or_empty_def comp_def)
  have lL: "length L \<le> length (enc_message t r)" by (simp add: enc_message_def tag length_tlv)
  with l have lL: "length L \<le> 131056" by simp
  obtain lb where lb: "enc = Some (LDAP_RET_OK, Some lb)" "b_data lb = L"
    using r gen_ber_attrlist_enc [of as] gen_ber_modlist_enc [of ms] lL by (auto simp: L_def split: if_splits)
  have f: "fits_request r" using r dn by (auto simp: fits_text_def or_empty_def)
  have pos: "0 < length (enc_message t r)" by (simp add: enc_message_def tlv_def)
  have fit: "fits_buffer (length (enc_message t r))" "length (enc_message t r) < 2 ^ 24"
    using l pos by (simp_all add: fits_buffer_def)
  have "written (gen None tid dn L []) t (enc_message t r)"
    using r gen_attrs_enc [OF t enc_client_message_Nil [symmetric] fit(2,1) tag dn(2)] tag
    by (auto simp: LDAP_gen_add_request_def [abs_def] LDAP_gen_modify_request_def [abs_def] tlv_def)
  then obtain b where b: "gen None tid dn L [] = Some (t, b)" "b_data b = enc_message t r"
    by (auto simp: written_def)
  have "ldap_decode_request True (pre @ b_data b @ suf) (length pre) (int (length (b_data b))) =
      Some (LDAP_RET_DATA_AVAILABLE, Some \<lparr>message_id = t, alt = r, controls = []\<rparr>)"
    unfolding b(2) by (rule decode_message [OF f t(2,3) fit(2) _ suf]) simp_all
  with lb b(1) show ?thesis by blast
qed

theorem ldap_client_lists_roundtrip_witness:
  "\<exists>l b. LDAP_gen_ber_modlist True [\<lparr>m_operation = 2, m_name = str ''cn'', m_vals = [str ''x'']\<rparr>] None =
      Some (LDAP_RET_OK, Some l) \<and>
    LDAP_gen_modify_request None 6 (str ''o=x'') (b_data l) [] = Some (7, b) \<and>
    ldap_decode_request True ([1, 2] @ b_data b @ [0]) (length [1, 2 :: byte]) (int (length (b_data b))) =
      Some (LDAP_RET_DATA_AVAILABLE, Some \<lparr>message_id = 7, alt = ModifyRequest (Some (str ''o=x''))
        (Some (map change_of [\<lparr>m_operation = 2, m_name = str ''cn'', m_vals = [str ''x'']\<rparr>])), controls = []\<rparr>)"
  by (rule ldap_client_lists_roundtrip [where as = "[]" and ms = "[\<lparr>m_operation = 2, m_name = str ''cn'', m_vals = [str ''x'']\<rparr>]"])
    (simp_all add: tid_increment_def int_add_def Let_def change_of_def fits_change_def is_char_def fits_attr_def
      enc_message_def ber_tid_create_eq id_bytes_def length_tlv hdr_def len_octets_def INSERT_LENGTH_def
      or_empty_def enc_change_def enc_attr_def)

subsection \<open>Names of 256 bytes and more\<close>

text \<open>
  A long DN is lost, since \<open>r\<close>, which holds its length, is the counter of \<open>INSERT_LENGTH\<close> too: the
  request to delete any entry with a DN of 256 bytes or more is the same seven bytes, without the DN.
\<close>

lemma long_name_lost:
  assumes "256 \<le> length dn"
  shows "LDAP_gen_delete_request ber tid dn cs = finish_request ber tid 2 [0x4a, 0x80] cs"
    and "written (LDAP_gen_delete_request None 6 dn []) 7 [0x30, 5, 0x02, 1, 7, 0x4a, 0x80]"
proof -
  show g: "LDAP_gen_delete_request ber tid dn cs = finish_request ber tid 2 [0x4a, 0x80] cs" for ber tid cs
    using assms by (simp add: LDAP_gen_delete_request_def text_array_def numeral_2_eq_2)
  show "written (LDAP_gen_delete_request None 6 dn []) 7 [0x30, 5, 0x02, 1, 7, 0x4a, 0x80]"
  proof -
    obtain b where "COPY_TO_BER None (Suc (Suc (Suc (Suc (Suc (Suc (Suc 0))))))) [0x30, 5, 0x02, 1, 7, 0x4a, 0x80] = Some b"
      "b_data b = [0x30, 5, 0x02, 1, 7, 0x4a, 0x80]"
      using COPY_TO_BER_new [of "[0x30, 5, 0x02, 1, 7, 0x4a, 0x80]"] by (auto simp: fits_buffer_def)
    then show ?thesis
      unfolding g by (simp add: finish_request_def tid_increment_def int_add_def Let_def ber_tid_create_eq id_bytes_def
          header_octets len_octets_def INSERT_LENGTH_def written_def all_ctrl_len_def)
  qed
qed

subsection \<open>Lengths of one byte\<close>

text \<open>
  A control of 128 bytes is announced with the byte 0x80, which a reader takes for the length 0.
\<close>

lemma control_length_byte:
  assumes "rc_type c \<noteq> []" "control_bsize c = 128"
  shows "FIND_LENGTH (control_bytes c) 1 = Some (0, 2)"
  using assms by (simp add: control_bytes_def FIND_LENGTH_def at_def)

end
