(* ===== verification/LdapSearch.thy ===== *)
theory LdapSearch
  imports LdapRequestGen
begin

text \<open>
  The generator of search requests of libs/stacks/ldap/ldap_common.c with its parser of textual
  filters, and the round trip of a filter from its text through the request to the server.
\<close>

section \<open>The parser of filters\<close>

text \<open>
  An expression is a C string. The buffers \<open>b_filt\<close> and \<open>b_buff\<close> of 1024 bytes are the bytes written
  so far; the offset \<open>filt_len\<close> is their number.
\<close>

definition put :: "bytes \<Rightarrow> bytes \<Rightarrow> bytes option" where
  "put b xs = (if length b + length xs > 1024 then None else Some (b @ xs))"

text \<open>
  The loop \<open>while (*end_p++ != c && end_p - filt_p < len)\<close>: where \<open>end_p\<close> stops.
\<close>

function scan_to :: "byte \<Rightarrow> bytes \<Rightarrow> nat \<Rightarrow> nat" where
  "scan_to c e i = (if at (e @ [0]) i \<noteq> Some c \<and> Suc i < length e then scan_to c e (Suc i) else Suc i)"
  by pat_completeness auto
termination by (relation "measure (\<lambda>(c, e, i). length e - i)") auto

declare scan_to.simps [simp del]

text \<open>\<open>strtok\<close> with one delimiter: the nonempty texts between delimiters.\<close>

function strtok :: "byte \<Rightarrow> bytes \<Rightarrow> bytes list" where
  "strtok d e = (case dropWhile (\<lambda>c. c = d) e of
     [] \<Rightarrow> []
   | c # cs \<Rightarrow> takeWhile (\<lambda>c. c \<noteq> d) (c # cs) # strtok d (dropWhile (\<lambda>c. c \<noteq> d) (c # cs)))"
  by pat_completeness auto
termination
proof (relation "measure (\<lambda>(d, e). length e)")
  fix d e and c :: byte and cs
  assume e: "dropWhile (\<lambda>c. c = d) e = c # cs"
  then have "c \<noteq> d" by (auto simp: dropWhile_eq_Cons_conv)
  moreover have "length (c # cs) \<le> length e" unfolding e [symmetric] by (rule length_dropWhile_le)
  ultimately show "((d, dropWhile (\<lambda>c. c \<noteq> d) (c # cs)), d, e) \<in> measure (\<lambda>(d, e). length e)"
    using length_dropWhile_le [of "\<lambda>c. c \<noteq> d" cs] by (simp add: less_eq_Suc_le)
qed simp

declare strtok.simps [simp del]

text \<open>\<open>strstr (e, ":=")\<close>.\<close>

fun has_match_rule :: "bytes \<Rightarrow> bool" where
  "has_match_rule (c # d # e) \<longleftrightarrow> c = 0x3a \<and> d = 0x3d \<or> has_match_rule (d # e)"
| "has_match_rule _ \<longleftrightarrow> False"

text \<open>
  The parts of an extensible match. A text is copied over the one before it in an array that it
  must leave room for a NUL.
\<close>

record MATCHDATA =
  rule_id :: bytes
  match_type :: bytes
  match_value :: bytes
  dn_attr :: bytes

definition copy_over :: "nat \<Rightarrow> bytes \<Rightarrow> bytes \<Rightarrow> bytes option" where
  "copy_over cap old s = (if length s < cap then Some (s @ drop (length s) old) else None)"

fun match_parts :: "bytes list \<Rightarrow> MATCHDATA \<Rightarrow> MATCHDATA option" where
  "match_parts [] r = Some r"
| "match_parts (t # ts) r = do {
     r \<leftarrow> (if 0x2e \<in> set t then map_option (\<lambda>s. r\<lparr>rule_id := s\<rparr>) (copy_over 100 (rule_id r) t)
       else if t = str ''dn'' then map_option (\<lambda>s. r\<lparr>dn_attr := s\<rparr>) (copy_over 3 (dn_attr r) t)
       else if 0x3d \<in> set t then
         map_option (\<lambda>s. r\<lparr>match_value := s\<rparr>) (copy_over 255 (match_value r) (dropWhile (\<lambda>c. c \<noteq> 0x3d) t))
       else map_option (\<lambda>s. r\<lparr>match_type := s\<rparr>) (copy_over 10 (match_type r) t));
     match_parts ts r
   }"

definition match_element :: "byte \<Rightarrow> bytes \<Rightarrow> bytes" where
  "match_element tag s = (if s \<noteq> [] then [tag, of_nat (length s)] @ s else [])"

definition matching_rule :: "bytes \<Rightarrow> bytes \<Rightarrow> bytes option" where
  "matching_rule e b = do {
     r \<leftarrow> match_parts (strtok 0x3a e) \<lparr>rule_id = [], match_type = [], match_value = [], dn_attr = []\<rparr>;
     let temp = match_element 0x81 (rule_id r) @ match_element 0x82 (match_type r) @
       match_element 0x83 (match_value r) @
       (if dn_attr r \<noteq> [] then [0x84, of_nat (length (dn_attr r) - 1), 0xFF] else []);
     if length temp > 254 then None
     else put b ([0xa9, of_nat (length (cstr temp))] @ cstr temp)
   }"

text \<open>A comparison with the operator \<open>oper\<close> and \<open>=\<close>; the result tells whether it was one.\<close>

definition check_operation :: "byte \<Rightarrow> byte \<Rightarrow> bytes \<Rightarrow> bytes \<Rightarrow> (bool \<times> bytes) option" where
  "check_operation oper val_oper e b = do {
     let k = scan_to oper e 0;
     c \<leftarrow> at (e @ [0]) k;
     if c = 0x3d then do {
       l \<leftarrow> INSERT_LENGTH (int (length e) + 2);
       let v = drop (k + 1) e;
       b \<leftarrow> put b ([val_oper] @ l @ [0x04, of_nat (k - 1)] @ take (k - 1) e @ [0x04, of_nat (length v)] @ v);
       Some (True, b)
     }
     else Some (False, b)
   }"

text \<open>
  The pieces between the stars of \<open>value\<close>, with the tag of a last piece for the one that \<open>count_sub\<close>
  counts and of a middle piece for the others. Then the byte at \<open>edit_len\<close> is set to the number of
  all bytes of the buffer less two.
\<close>

definition any_pieces :: "nat \<Rightarrow> bytes list \<Rightarrow> bytes" where
  "any_pieces count_sub ts =
     concat (map (\<lambda>(k, t). [if k + 1 = count_sub then 0x82 else 0x81, of_nat (length t)] @ t) (enumerate 0 ts))"

definition any_substring :: "bytes \<Rightarrow> bytes \<Rightarrow> nat \<Rightarrow> nat \<Rightarrow> bytes option" where
  "any_substring value b count_sub edit_len = do {
     let ts = strtok 0x2a value;
     let temp = any_pieces count_sub ts;
     if length temp > 254 then None else do {
       b \<leftarrow> put b (of_nat (length (cstr temp)) # cstr temp);
       Some (if ts \<noteq> [] then b[edit_len := of_nat (length b - 2)] else b)
     }
   }"

text \<open>What is not one of the comparisons above: \<open>k\<close> is where the value starts.\<close>

definition substring_filter :: "bytes \<Rightarrow> nat \<Rightarrow> bytes \<Rightarrow> bytes option" where
  "substring_filter e k b = do {
     let len = int (length e);
     let v = drop k e;
     let name = [0x04, of_nat (k - 1)] @ take (k - 1) e;
     let count_sub = count_list v 0x2a;
     if count_sub = 0 then do {
       l \<leftarrow> INSERT_LENGTH (len + 3);
       put b ([0xa3] @ l @ name @ [0x04, of_nat (length v)] @ v)
     }
     else if count_sub = 1 then
       if at v 0 = Some 0x2a then do {
         l \<leftarrow> INSERT_LENGTH (len + 4);
         put b ([0xa4] @ l @ name @ [0x30, of_nat (length v + 1), 0x82, of_nat (length v - 1)] @ drop 1 v)
       }
       else if at v (length v - 1) = Some 0x2a then do {
         l \<leftarrow> INSERT_LENGTH (len + 4);
         put b ([0xa4] @ l @ name @ [0x30, of_nat (length v + 1), 0x80, of_nat (length v - 1)] @ take (length v - 1) v)
       }
       else do {
         l \<leftarrow> INSERT_LENGTH (len + 6);
         let j = scan_to 0x2a v 0;
         put b ([0xa4] @ l @ name @ [0x30, of_nat (length v + 3), 0x80, of_nat (j - 1)] @ take (j - 1) v @
           [0x82, of_nat (length v - j)] @ drop j v)
       }
     else do {
       l \<leftarrow> INSERT_LENGTH (len + int (count_sub * 2) + 1);
       let edit_len = length b + length l;
       b \<leftarrow> put b ([0xa4] @ l @ name @ [0x30]);
       any_substring v b count_sub edit_len
     }
   }"

text \<open>A presence, or an expression without \<open>=\<close>, which is taken for an object class.\<close>

definition simple_filter :: "bytes \<Rightarrow> bytes \<Rightarrow> bytes option" where
  "simple_filter e b = do {
     let k = scan_to 0x3d e 0;
     c \<leftarrow> at (e @ [0]) k;
     if c = 0x2a \<and> k + 1 = length e then put b ([0x87, of_nat (k - 1)] @ take (k - 1) e)
     else if k = length e then do {
       l \<leftarrow> INSERT_LENGTH (11 + int (length e) + 4);
       put b ([0xa3] @ l @ [0x04, 11] @ str ''objectClass'' @ [0x04, of_nat k] @ e)
     }
     else substring_filter e k b
   }"

definition create_ber_filter :: "bytes \<Rightarrow> bytes \<Rightarrow> bytes option" where
  "create_ber_filter e b =
     (if has_match_rule e then matching_rule e b
      else do {
        (found, b) \<leftarrow> check_operation 0x3c 0xa6 e b;
        if found then Some b else do {
        (found, b) \<leftarrow> check_operation 0x3e 0xa5 e b;
        if found then Some b else do {
        (found, b) \<leftarrow> check_operation 0x7e 0xa8 e b;
        if found then Some b else simple_filter e b
        } }
      })"

text \<open>
  Where the part of a compound expression that starts \<open>e\<close> ends: behind its closing parenthesis,
  or one behind the NUL when there is none. \<open>n\<close> is the number of open parentheses.
\<close>

fun scan_close :: "bytes \<Rightarrow> nat \<Rightarrow> nat" where
  "scan_close [] n = 1"
| "scan_close (c # e) n =
     (if c = 0x28 then Suc (scan_close e (n + 1))
      else if c = 0x29 \<and> n > 0 then Suc (scan_close e (n - 1))
      else if c = 0x29 then 1
      else Suc (scan_close e n))"

text \<open>The array \<open>buff\<close> for a part or a single expression has 128 bytes.\<close>

definition buff_text :: "bytes \<Rightarrow> bytes option" where
  "buff_text e = (if length e > 127 then None else Some e)"

function process_filter :: "bytes \<Rightarrow> bytes \<Rightarrow> bytes option"
  and process_parts :: "bytes \<Rightarrow> bytes \<Rightarrow> bytes option" where
  "process_filter e b =
     (if e \<noteq> [] \<and> hd e \<in> {0x26, 0x7c, 0x21} then do {
        b \<leftarrow> put b [if hd e = 0x26 then 0xa0 else if hd e = 0x7c then 0xa1 else 0xa2];
        b_buff \<leftarrow> process_parts (tl e) [];
        l \<leftarrow> INSERT_LENGTH (int (length b_buff));
        put b (l @ b_buff)
      }
      else do { buff \<leftarrow> buff_text e; create_ber_filter buff b })"
| "process_parts e b_buff =
     (if e = [] then Some b_buff
      else do {
        let k = scan_close (tl e) 0;
        buff \<leftarrow> buff_text (take (k - 1) (tl e));
        b_buff \<leftarrow> process_filter buff b_buff;
        process_parts (drop k (tl e)) b_buff
      })"
  by pat_completeness auto
termination
  by (relation "measure (\<lambda>x. case x of Inl (e, _) \<Rightarrow> 2 * length e | Inr (e, _) \<Rightarrow> 2 * length e + 1)")
    (auto simp: neq_Nil_conv buff_text_def min_def split: if_splits)

declare process_filter.simps [simp del] process_parts.simps [simp del]

section \<open>The request\<close>

text \<open>The filter of a request, from the copy of its text.\<close>

definition request_filter :: "bytes \<Rightarrow> bytes option" where
  "request_filter object =
     (if object = [] \<or> object = str ''*'' \<or> object = str ''(*)'' then
        put [] ([0x87, 11] @ str ''objectClass'')
      else if hd object = 0x28 then
        process_filter (if tl object \<noteq> [] \<and> last object = 0x29 then butlast (tl object) else tl object) []
      else process_filter object [])"

definition scope_value :: "bytes \<Rightarrow> byte" where
  "scope_value s = (if s = str ''base'' then 0 else if s = str ''one'' then 1 else if s = str ''sub'' then 2 else 0)"

text \<open>
  The generator once it has copied the filter's text. The copy goes with its NUL to memory asked for
  its length alone; \<open>usable n\<close> is the size of the block that the allocator gives for \<open>n\<close> bytes.
\<close>

definition gen_search_copied ::
    "BER option \<Rightarrow> int \<Rightarrow> bytes \<Rightarrow> bytes \<Rightarrow> bytes \<Rightarrow> bytes \<Rightarrow> int \<Rightarrow> RqControl list \<Rightarrow> (int \<times> BER) option" where
  "gen_search_copied ber tid dn sc object attrs deref cs = do {
     let tot = length attrs;
     b_attr \<leftarrow> header 0x30 tot;
     let tot = tot + length b_attr;
     b_filt \<leftarrow> request_filter object;
     let tot = tot + length b_filt;
     let b_type = [0x01, 0x01, 0x00];
     let b_time = [0x02, 0x01, 0x00];
     let b_size = [0x02, 0x01, 0x00];
     let b_deref = [0x0a, 0x01, word_of_int deref];
     let b_scope = [0x0a, 0x01, scope_value sc];
     let tot = tot + 15;
     b_dn \<leftarrow> text_array 0x04 dn;
     let tot = tot + length b_dn;
     b_search \<leftarrow> header 0x63 tot;
     let tot = tot + length b_search;
     finish_request ber tid tot
       (b_search @ b_dn @ b_scope @ b_deref @ b_size @ b_time @ b_type @ b_filt @ b_attr @ attrs) cs
   }"

definition LDAP_gen_search_request ::
    "(nat \<Rightarrow> nat) \<Rightarrow> BER option \<Rightarrow> int \<Rightarrow> bytes \<Rightarrow> bytes \<Rightarrow> bytes \<Rightarrow> bytes \<Rightarrow> int \<Rightarrow> RqControl list \<Rightarrow> (int \<times> BER) option" where
  "LDAP_gen_search_request usable ber tid dn sc object attrs deref cs =
     (if length object + 1 > usable (length object) then None
      else gen_search_copied ber tid dn sc object attrs deref cs)"

section \<open>Texts and what is parsed from them\<close>

lemma scan_to_hit:
  "k < length e \<Longrightarrow> e ! k = c \<Longrightarrow> (\<And>j. i \<le> j \<Longrightarrow> j < k \<Longrightarrow> e ! j \<noteq> c) \<Longrightarrow> i \<le> k \<Longrightarrow> scan_to c e i = Suc k"
proof (induction "k - i" arbitrary: i)
  case 0
  then show ?case by (subst scan_to.simps) (simp add: at_def nth_append)
next
  case (Suc d)
  then have "e ! i \<noteq> c" "i < k" by auto
  moreover have "scan_to c e (Suc i) = Suc k" using Suc by simp
  ultimately show ?case using Suc.prems(1) by (subst scan_to.simps) (simp add: at_def nth_append)
qed

lemma scan_to_found: "c \<notin> set xs \<Longrightarrow> scan_to c (xs @ c # ys) 0 = Suc (length xs)"
  by (rule scan_to_hit) (auto simp: nth_append)

lemma scan_to_miss: "c \<notin> set e \<Longrightarrow> i < length e \<Longrightarrow> scan_to c e i = length e"
proof (induction "length e - i" arbitrary: i)
  case (Suc d)
  then have c: "at (e @ [0]) i \<noteq> Some c" by (auto simp: at_def nth_append)
  show ?case
  proof (cases "Suc i < length e")
    case True
    with Suc.hyps(1) [of "Suc i"] Suc.hyps(2) Suc.prems c show ?thesis by (subst scan_to.simps) simp
  next
    case False
    with Suc.prems(2) show ?thesis by (subst scan_to.simps) simp
  qed
qed simp

lemma no_match_rule: "0x3a \<notin> set e \<Longrightarrow> \<not> has_match_rule e"
  by (induction e rule: has_match_rule.induct) auto

lemma put_fits: "length b + length xs \<le> 1024 \<Longrightarrow> put b xs = Some (b @ xs)"
  by (simp add: put_def)

lemma tlv_short: "length c < 128 \<Longrightarrow> tlv t c = [t, of_nat (length c)] @ c"
  by (simp add: tlv_def len_octets_def INSERT_LENGTH_def)

lemma insert_octets: "n < 2 ^ 24 \<Longrightarrow> INSERT_LENGTH (int n) = Some (len_octets n)"
  using header_octets [of n 0] by (simp add: header_def bind_eq_Some_conv)

text \<open>
  Names and values without the characters that the parser gives a meaning to: the parentheses, the
  star, the colon and the signs of comparisons. A value may hold an equals sign.
\<close>

definition value_ok :: "bytes \<Rightarrow> bool" where
  "value_ok v \<longleftrightarrow> set v \<inter> {0, 0x28, 0x29, 0x2a, 0x3a, 0x3c, 0x3e, 0x7e} = {}"

definition name_ok :: "bytes \<Rightarrow> bool" where
  "name_ok n \<longleftrightarrow> n \<noteq> [] \<and> value_ok n \<and> 0x3d \<notin> set n \<and> hd n \<notin> {0x26, 0x7c, 0x21}"

fun one_star :: "Substrings list \<Rightarrow> bool" where
  "one_star [SUBSTRING_INITIAL v] \<longleftrightarrow> value_ok v \<and> v \<noteq> []"
| "one_star [SUBSTRING_FINAL v] \<longleftrightarrow> value_ok v \<and> v \<noteq> []"
| "one_star [SUBSTRING_INITIAL v, SUBSTRING_FINAL w] \<longleftrightarrow> value_ok v \<and> value_ok w \<and> v \<noteq> [] \<and> w \<noteq> []"
| "one_star _ \<longleftrightarrow> False"

fun parseable :: "SearchFilter \<Rightarrow> bool" where
  "parseable (FAND fs) \<longleftrightarrow> (\<forall>f \<in> set fs. parseable f \<and> length (filter_text f) \<le> 128)"
| "parseable (FOR fs) \<longleftrightarrow> (\<forall>f \<in> set fs. parseable f \<and> length (filter_text f) \<le> 128)"
| "parseable (FNOT f) \<longleftrightarrow> parseable f \<and> length (filter_text f) \<le> 128"
| "parseable (FEQUALITYMATCH n v) \<longleftrightarrow> name_ok n \<and> value_ok v \<and> v \<noteq> []"
| "parseable (FSUBSTRINGS t subs) \<longleftrightarrow> (\<exists>n ss. t = Some n \<and> subs = Some ss \<and> name_ok n \<and> one_star ss)"
| "parseable (FGREATEROREQUAL n v) \<longleftrightarrow> name_ok n \<and> value_ok v"
| "parseable (FLESSOREQUAL n v) \<longleftrightarrow> name_ok n \<and> value_ok v"
| "parseable (FPRESENT v) \<longleftrightarrow> name_ok v"
| "parseable (FAPPROXMATCH n v) \<longleftrightarrow> name_ok n \<and> value_ok v"
| "parseable (FEXTENSIBLEMATCH rule t v dn) \<longleftrightarrow> False"

text \<open>Comparisons.\<close>

lemma no_operation:
  "oper \<notin> set e \<Longrightarrow> e \<noteq> [] \<Longrightarrow> check_operation oper val e b = Some (False, b)"
  by (simp add: check_operation_def scan_to_miss at_def nth_append)

lemma an_operation:
  assumes "oper \<notin> set n" "length (n @ oper # 0x3d # v) \<le> 127"
    and "length b + length (tlv val (tlv 0x04 n @ tlv 0x04 v)) \<le> 1024"
  shows "check_operation oper val (n @ oper # 0x3d # v) b = Some (True, b @ tlv val (tlv 0x04 n @ tlv 0x04 v))"
proof -
  let ?e = "n @ oper # 0x3d # v"
  have L: "length (tlv 0x04 n @ tlv 0x04 v) = length ?e + 2" using assms(2) by (simp add: tlv_short)
  have l: "INSERT_LENGTH (int (length ?e) + 2) = Some (len_octets (length ?e + 2))"
    using insert_octets [of "length ?e + 2"] assms(2) by simp
  have t: "[val] @ len_octets (length ?e + 2) @ [0x04, of_nat (length n)] @ n @ [0x04, of_nat (length v)] @ v =
      tlv val (tlv 0x04 n @ tlv 0x04 v)"
    unfolding L [symmetric] using assms(2) by (simp add: tlv_def [of val] tlv_short)
  show ?thesis
    using put_fits [OF assms(3)] l
    by (simp add: check_operation_def scan_to_found [OF assms(1)] at_def nth_append t [simplified, symmetric])
qed

text \<open>Presences, equalities and substrings: the name up to the sign, the value behind.\<close>

lemma name_sign:
  assumes "name_ok n"
  shows "scan_to 0x3d (n @ 0x3d # v) 0 = Suc (length n)" "at (n @ 0x3d # v @ [0]) (Suc (length n)) = at (v @ [0]) 0"
    "take (length n) (n @ 0x3d # v) = n" "drop (Suc (length n)) (n @ 0x3d # v) = v"
  using assms scan_to_found [of "0x3d" n v] at_append_right [of "n @ [0x3d]" "v @ [0]" 0] by (simp_all add: name_ok_def)

lemma present_text:
  assumes "name_ok n" "length n \<le> 125" "length b + length (tlv 0x87 n) \<le> 1024"
  shows "simple_filter (n @ [0x3d, 0x2a]) b = Some (b @ tlv 0x87 n)"
  using assms name_sign [OF assms(1), of "[0x2a]"] put_fits [OF assms(3)]
  by (simp add: simple_filter_def tlv_short)

lemma value_text:
  assumes "name_ok n" "v \<noteq> []" "v \<noteq> [0x2a]"
  shows "simple_filter (n @ 0x3d # v) b = substring_filter (n @ 0x3d # v) (Suc (length n)) b"
  using assms(2,3) name_sign [OF assms(1), of v] by (cases v) (auto simp: simple_filter_def)

lemma equality_text:
  assumes "name_ok n" "value_ok v" "v \<noteq> []" "length (n @ 0x3d # v) \<le> 127"
    and "length b + length (tlv 0xa3 (tlv 0x04 n @ tlv 0x04 v)) \<le> 1024"
  shows "simple_filter (n @ 0x3d # v) b = Some (b @ tlv 0xa3 (tlv 0x04 n @ tlv 0x04 v))"
proof -
  let ?e = "n @ 0x3d # v"
  have c: "count_list v 0x2a = 0" using assms(2) by (auto simp: count_list_0_iff value_ok_def)
  have L: "length (tlv 0x04 n @ tlv 0x04 v) = length ?e + 3" using assms(4) by (simp add: tlv_short)
  have l: "INSERT_LENGTH (int (length ?e) + 3) = Some (len_octets (length ?e + 3))"
    using insert_octets [of "length ?e + 3"] assms(4) by simp
  have t: "[0xa3] @ len_octets (length ?e + 3) @ ([0x04, of_nat (length n)] @ n) @ [0x04, of_nat (length v)] @ v =
      tlv 0xa3 (tlv 0x04 n @ tlv 0x04 v)"
    unfolding L [symmetric] using assms(4) by (simp add: tlv_def [of "0xa3"] tlv_short)
  have "v \<noteq> [0x2a]" using assms(2) by (auto simp: value_ok_def)
  then show ?thesis
    unfolding value_text [OF assms(1,3) \<open>v \<noteq> [0x2a]\<close>]
    using put_fits [OF assms(5)] l name_sign(3,4) [OF assms(1), of v]
    by (simp add: substring_filter_def Let_def c t [simplified, symmetric])
qed

lemma at_last: "v \<noteq> [] \<Longrightarrow> at v (length v - 1) = Some (last v)"
  by (simp add: at_def last_conv_nth)

lemma substring_text_enc:
  assumes n: "name_ok n" and len: "length (n @ 0x3d # v) \<le> 126" and one: "count_list v 0x2a = 1" "v \<noteq> [0x2a]"
    and pieces: "(v = 0x2a # x \<and> ss = [SUBSTRING_FINAL x]) \<or> (v = x @ [0x2a] \<and> x \<noteq> [] \<and> ss = [SUBSTRING_INITIAL x]) \<or>
      (v = x @ 0x2a # y \<and> x \<noteq> [] \<and> y \<noteq> [] \<and> ss = [SUBSTRING_INITIAL x, SUBSTRING_FINAL y])"
    and fit: "length b + length (enc_filter (FSUBSTRINGS (Some n) (Some ss))) \<le> 1024"
  shows "simple_filter (n @ 0x3d # v) b = Some (b @ enc_filter (FSUBSTRINGS (Some n) (Some ss)))"
proof -
  let ?e = "n @ 0x3d # v"
  have v: "v \<noteq> []" using one(1) by auto
  define S where "S = concat (map enc_substring ss)"
  have E: "enc_filter (FSUBSTRINGS (Some n) (Some ss)) = tlv 0xa4 (tlv 0x04 n @ tlv 0x30 S)"
    by (simp add: enc_optional_def S_def)
  note s = value_text [OF n v one(2)] name_sign(3,4) [OF n, of v]
  have oct: "INSERT_LENGTH (int (length ?e) + int k) = Some (len_octets (length ?e + k))" if "k < 10" for k
    using insert_octets [of "length ?e + k"] len that by (simp add: add.assoc)
  have fin: "put b ([0xa4] @ len_octets (length ?e + k) @ ([0x04, of_nat (length n)] @ n) @ [0x30, of_nat (length S)] @ S) =
        Some (b @ tlv 0xa4 (tlv 0x04 n @ tlv 0x30 S))"
    if S: "length S < 128" and C: "length (tlv 0x04 n @ tlv 0x30 S) = length ?e + k" for k
  proof -
    have "tlv 0xa4 (tlv 0x04 n @ tlv 0x30 S) = [0xa4] @ len_octets (length ?e + k) @ tlv 0x04 n @ tlv 0x30 S"
      by (simp only: tlv_def [of "0xa4"] C append_Cons append_Nil)
    also have "\<dots> = [0xa4] @ len_octets (length ?e + k) @ ([0x04, of_nat (length n)] @ n) @ [0x30, of_nat (length S)] @ S"
      using S len by (simp add: tlv_short)
    finally show ?thesis using put_fits [OF fit [unfolded E]] by simp
  qed
  from pieces consider (final) "v = 0x2a # x" "ss = [SUBSTRING_FINAL x]"
    | (initial) "v = x @ [0x2a]" "x \<noteq> []" "ss = [SUBSTRING_INITIAL x]"
    | (both) "v = x @ 0x2a # y" "x \<noteq> []" "y \<noteq> []" "ss = [SUBSTRING_INITIAL x, SUBSTRING_FINAL y]" by blast
  then show ?thesis
  proof cases
    case final
    have S: "S = [0x82, of_nat (length x)] @ x" using final len by (simp add: S_def enc_substring_def tlv_short)
    show ?thesis unfolding E s(1) substring_filter_def Let_def
      using fin [of 4] oct [of 4] final one(1) len s(2,3) [unfolded final(1)] by (simp add: S tlv_short)
  next
    case initial
    then have x0: "at (x @ [0x2a]) 0 \<noteq> Some 0x2a" using one(1) by (cases x) auto
    have S: "S = [0x80, of_nat (length x)] @ x" using initial len by (simp add: S_def enc_substring_def tlv_short)
    have last: "at (x @ [0x2a]) (length x) = Some 0x2a" by (simp add: at_def)
    show ?thesis unfolding E s(1) substring_filter_def Let_def
      using fin [of 4] oct [of 4] initial one(1) len x0 last s(2,3) [unfolded initial(1)] by (simp add: S tlv_short)
  next
    case both
    have cx: "count_list x 0x2a = 0" "count_list y 0x2a = 0" using one(1) both(1) by (simp_all)
    then have sx: "0x2a \<notin> set x" "0x2a \<notin> set y" by (simp_all add: count_list_0_iff)
    have x0: "at v 0 \<noteq> Some 0x2a" using sx both(1,2) by (cases x) auto
    have "last y \<in> set y" using both(3) by simp
    then have "last y \<noteq> 0x2a" using sx(2) by metis
    then have "last v \<noteq> 0x2a" using both(1,3) by simp
    then have last: "at v (length v - 1) \<noteq> Some 0x2a" using at_last [OF v] by simp
    have S: "S = [0x80, of_nat (length x)] @ x @ [0x82, of_nat (length y)] @ y"
      using both len by (simp add: S_def enc_substring_def tlv_short)
    have j: "scan_to 0x2a v 0 = Suc (length x)" unfolding both(1) by (rule scan_to_found [OF sx(1)])
    have ls: "of_nat (length v + 3) = (of_nat (length S) :: byte)" by (simp add: both(1) S)
    have dr: "take (length x) v = x" "drop (Suc (length x)) v = y" "length v - Suc (length x) = length y"
      by (simp_all add: both(1))
    have ll: "length S < 128" "length (tlv 0x04 n @ tlv 0x30 S) = length ?e + 6"
      using len both(1) S n by (auto simp: tlv_short name_ok_def neq_Nil_conv)
    show ?thesis unfolding E s(1) substring_filter_def Let_def
      using fin [OF ll] oct [of 6] x0 last ls
      by (simp add: s one(1) j dr S)
  qed
qed

text \<open>The text of a filter between its parentheses.\<close>

definition filter_body :: "SearchFilter \<Rightarrow> bytes" where
  "filter_body f = butlast (tl (filter_text f))"

lemma filter_text_body: "filter_text f = 0x28 # filter_body f @ [0x29]"
proof -
  have "\<exists>b. filter_text f = 0x28 # b @ [0x29]" by (cases f) auto
  then show ?thesis by (auto simp: filter_body_def)
qed

lemma filter_body_simps:
  "filter_body (FAND fs) = 0x26 # concat (map filter_text fs)"
  "filter_body (FOR fs) = 0x7c # concat (map filter_text fs)"
  "filter_body (FNOT f) = 0x21 # filter_text f"
  "filter_body (FEQUALITYMATCH n v) = n @ 0x3d # v"
  "filter_body (FGREATEROREQUAL n v) = n @ 0x3e # 0x3d # v"
  "filter_body (FLESSOREQUAL n v) = n @ 0x3c # 0x3d # v"
  "filter_body (FAPPROXMATCH n v) = n @ 0x7e # 0x3d # v"
  "filter_body (FPRESENT n) = n @ [0x3d, 0x2a]"
  "filter_body (FSUBSTRINGS (Some n) (Some [SUBSTRING_INITIAL x])) = n @ 0x3d # x @ [0x2a]"
  "filter_body (FSUBSTRINGS (Some n) (Some [SUBSTRING_FINAL x])) = n @ 0x3d # 0x2a # x"
  "filter_body (FSUBSTRINGS (Some n) (Some [SUBSTRING_INITIAL x, SUBSTRING_FINAL y])) = n @ 0x3d # x @ 0x2a # y"
  by (simp_all add: filter_body_def butlast_append)

text \<open>A single expression is none of the compound ones, and not a matching rule.\<close>

lemma single_text:
  assumes "name_ok n" "0x3a \<notin> set e" "length (n @ e) \<le> 127"
  shows "process_filter (n @ e) b = do {
    (found, b) \<leftarrow> check_operation 0x3c 0xa6 (n @ e) b;
    if found then Some b else do {
    (found, b) \<leftarrow> check_operation 0x3e 0xa5 (n @ e) b;
    if found then Some b else do {
    (found, b) \<leftarrow> check_operation 0x7e 0xa8 (n @ e) b;
    if found then Some b else simple_filter (n @ e) b
    } } }"
proof -
  have "0x3a \<notin> set (n @ e)" "n \<noteq> []" "hd (n @ e) \<notin> {0x26, 0x7c, 0x21}"
    using assms by (auto simp: name_ok_def value_ok_def)
  then show ?thesis using no_match_rule [of "n @ e"] assms(3)
    by (subst process_filter.simps) (simp add: buff_text_def create_ber_filter_def)
qed

text \<open>A part ends at its own parenthesis.\<close>

definition balanced :: "bytes \<Rightarrow> bool" where
  "balanced xs \<longleftrightarrow> (\<forall>ys n. scan_close (xs @ ys) n = length xs + scan_close ys n)"

lemma balanced_plain: "set xs \<inter> {0x28, 0x29} = {} \<Longrightarrow> balanced xs"
  by (induction xs) (auto simp: balanced_def)

lemma balanced_append: "balanced xs \<Longrightarrow> balanced ys \<Longrightarrow> balanced (xs @ ys)"
  by (simp add: balanced_def)

lemma balanced_group: "balanced xs \<Longrightarrow> balanced (0x28 # xs @ [0x29])"
  by (simp add: balanced_def)

lemma balanced_concat: "(\<And>x. x \<in> set xs \<Longrightarrow> balanced x) \<Longrightarrow> balanced (concat xs)"
  by (induction xs) (simp_all add: balanced_append balanced_plain)

lemma balanced_Cons: "c \<notin> {0x28, 0x29} \<Longrightarrow> balanced xs \<Longrightarrow> balanced (c # xs)"
  using balanced_append [of "[c]" xs] balanced_plain [of "[c]"] by simp

lemma balanced_value: "value_ok v \<Longrightarrow> balanced v"
  by (rule balanced_plain) (auto simp: value_ok_def)

lemma balanced_name: "name_ok v \<Longrightarrow> balanced v"
  by (rule balanced_value) (simp add: name_ok_def)

lemma parseable_substrings:
  assumes "parseable (FSUBSTRINGS t subs)"
  obtains (initial) n v where "t = Some n" "subs = Some [SUBSTRING_INITIAL v]" "name_ok n" "value_ok v" "v \<noteq> []"
  | (final) n v where "t = Some n" "subs = Some [SUBSTRING_FINAL v]" "name_ok n" "value_ok v" "v \<noteq> []"
  | (both) n v w where "t = Some n" "subs = Some [SUBSTRING_INITIAL v, SUBSTRING_FINAL w]"
      "name_ok n" "value_ok v" "value_ok w" "v \<noteq> []" "w \<noteq> []"
  using assms by (auto elim!: one_star.elims)

lemma balanced_body: "parseable f \<Longrightarrow> balanced (filter_body f)"
proof (induction f)
  case (FAND fs)
  then show ?case unfolding filter_body_simps
    by (intro balanced_Cons balanced_concat) (auto simp: filter_text_body intro: balanced_group)
next
  case (FOR fs)
  then show ?case unfolding filter_body_simps
    by (intro balanced_Cons balanced_concat) (auto simp: filter_text_body intro: balanced_group)
next
  case (FNOT f)
  then show ?case unfolding filter_body_simps
    by (intro balanced_Cons) (auto simp: filter_text_body intro: balanced_group)
next
  case (FSUBSTRINGS t subs)
  then show ?case
    by (cases rule: parseable_substrings)
      (auto simp: filter_body_simps balanced_append balanced_Cons balanced_name balanced_value balanced_plain)
qed (auto simp: filter_body_simps balanced_append balanced_Cons balanced_name balanced_value balanced_plain)

lemma parts_text:
  assumes "\<And>f b. f \<in> set fs \<Longrightarrow> length b + length (enc_filter f) \<le> 1024 \<Longrightarrow>
      process_filter (filter_body f) b = Some (b @ enc_filter f)"
    and "\<And>f. f \<in> set fs \<Longrightarrow> parseable f \<and> length (filter_text f) \<le> 128"
    and "length b + length (concat (map enc_filter fs)) \<le> 1024"
  shows "process_parts (concat (map filter_text fs)) b = Some (b @ concat (map enc_filter fs))"
  using assms
proof (induction fs arbitrary: b)
  case Nil
  then show ?case by (simp add: process_parts.simps)
next
  case (Cons f fs)
  let ?rest = "concat (map filter_text fs)"
  have p: "parseable f" "length (filter_body f) \<le> 127" using Cons.prems(2) [of f] by (auto simp: filter_text_body)
  have k: "scan_close (filter_body f @ 0x29 # ?rest) 0 = Suc (length (filter_body f))"
    using balanced_body [OF p(1)] by (simp add: balanced_def)
  have "process_filter (filter_body f) b = Some (b @ enc_filter f)" using Cons.prems(1) [of f b] Cons.prems(3) by simp
  moreover have "process_parts ?rest (b @ enc_filter f) = Some ((b @ enc_filter f) @ concat (map enc_filter fs))"
    by (rule Cons.IH) (use Cons.prems in auto)
  ultimately show ?case
    by (subst process_parts.simps) (use p(2) in \<open>simp add: filter_text_body [of f] k buff_text_def\<close>)
qed

lemma compound_text:
  assumes c: "(c, tag) \<in> {(0x26, 0xa0), (0x7c, 0xa1), (0x21, 0xa2)}"
    and parts: "process_parts e [] = Some bb" and fit: "length b + length (tlv tag bb) \<le> 1024"
  shows "process_filter (c # e) b = Some (b @ tlv tag bb)"
proof -
  have t: "(if c = 0x26 then 0xa0 else if c = 0x7c then 0xa1 else 0xa2) = tag" "c \<in> {0x26, 0x7c, 0x21}" using c by auto
  have l: "INSERT_LENGTH (int (length bb)) = Some (len_octets (length bb))"
    using insert_octets [of "length bb"] fit by (simp add: length_tlv)
  have p: "put b [tag] = Some (b @ [tag])" "put (b @ [tag]) (len_octets (length bb) @ bb) = Some (b @ tlv tag bb)"
    using fit by (simp_all add: put_def tlv_def)
  show ?thesis
    by (subst process_filter.simps) (use t p parts l in \<open>simp only: list.sel list.distinct not_False_eq_True simp_thms if_True bind.bind_lunit t(1)\<close>)
qed

text \<open>What is not a comparison with a sign of its own passes the three tests.\<close>

lemma no_signs:
  assumes "name_ok n" "set e \<inter> {0x3a, 0x3c, 0x3e, 0x7e} = {}" "length (n @ e) \<le> 127"
  shows "process_filter (n @ e) b = simple_filter (n @ e) b"
proof -
  have "n @ e \<noteq> []" "0x3c \<notin> set (n @ e)" "0x3e \<notin> set (n @ e)" "0x7e \<notin> set (n @ e)" "0x3a \<notin> set e"
    using assms(1,2) by (auto simp: name_ok_def value_ok_def)
  with single_text [OF assms(1) _ assms(3)] show ?thesis by (simp add: no_operation)
qed

lemma sign_text:
  assumes n: "name_ok n" and v: "value_ok v" and len: "length (n @ oper # 0x3d # v) \<le> 127"
    and oper: "(oper, val) \<in> {(0x3c, 0xa6), (0x3e, 0xa5), (0x7e, 0xa8)}"
    and fit: "length b + length (tlv val (tlv 0x04 n @ tlv 0x04 v)) \<le> 1024"
  shows "process_filter (n @ oper # 0x3d # v) b = Some (b @ tlv val (tlv 0x04 n @ tlv 0x04 v))"
proof -
  have s: "oper \<notin> set n" "0x3a \<notin> set (oper # 0x3d # v)" using n v oper by (auto simp: name_ok_def value_ok_def)
  have no: "o' \<noteq> oper \<Longrightarrow> o' \<in> {0x3c, 0x3e, 0x7e} \<Longrightarrow>
      check_operation o' val' (n @ oper # 0x3d # v) b = Some (False, b)" for o' val'
    by (rule no_operation) (use n v in \<open>auto simp: name_ok_def value_ok_def\<close>)
  show ?thesis unfolding single_text [OF n s(2) len]
    using oper an_operation [OF s(1) len fit] no [of "0x3c" "0xa6"] no [of "0x3e" "0xa5"] by auto
qed

lemma process_text:
  "parseable f \<Longrightarrow> length (filter_text f) \<le> 128 \<or> f \<in> range FAND \<union> range FOR \<union> range FNOT \<Longrightarrow>
   length b + length (enc_filter f) \<le> 1024 \<Longrightarrow> process_filter (filter_body f) b = Some (b @ enc_filter f)"
proof (induction f arbitrary: b)
  case (FAND fs)
  have "process_parts (concat (map filter_text fs)) [] = Some ([] @ concat (map enc_filter fs))"
    by (rule parts_text) (use FAND in \<open>auto simp: length_tlv\<close>)
  then show ?case unfolding filter_body_simps enc_filter.simps
    by (intro compound_text) (use FAND.prems in auto)
next
  case (FOR fs)
  have "process_parts (concat (map filter_text fs)) [] = Some ([] @ concat (map enc_filter fs))"
    by (rule parts_text) (use FOR in \<open>auto simp: length_tlv\<close>)
  then show ?case unfolding filter_body_simps enc_filter.simps
    by (intro compound_text) (use FOR.prems in auto)
next
  case (FNOT f)
  have "process_parts (concat (map filter_text [f])) [] = Some ([] @ concat (map enc_filter [f]))"
    by (rule parts_text) (use FNOT in \<open>auto simp: length_tlv\<close>)
  then show ?case unfolding filter_body_simps enc_filter.simps
    by (intro compound_text) (use FNOT.prems in auto)
next
  case (FSUBSTRINGS t subs)
  then have len: "length (filter_body (FSUBSTRINGS t subs)) \<le> 126" by (auto simp: filter_text_body)
  from FSUBSTRINGS.prems(1) show ?case
  proof (cases rule: parseable_substrings)
    case (initial n v)
    then have "length (n @ 0x3d # v @ [0x2a]) \<le> 126" "set (0x3d # v @ [0x2a]) \<inter> {0x3a, 0x3c, 0x3e, 0x7e} = {}"
      "count_list (v @ [0x2a]) 0x2a = 1"
      using len by (auto simp: filter_body_simps value_ok_def count_list_0_iff)
    with no_signs [OF initial(3), of "0x3d # v @ [0x2a]" b] FSUBSTRINGS.prems(3)
      substring_text_enc [OF initial(3), of "v @ [0x2a]" v "[SUBSTRING_INITIAL v]" "[]" b] initial
    show ?thesis by (simp add: filter_body_simps)
  next
    case (final n v)
    then have "length (n @ 0x3d # 0x2a # v) \<le> 126" "set (0x3d # 0x2a # v) \<inter> {0x3a, 0x3c, 0x3e, 0x7e} = {}"
      "count_list (0x2a # v) 0x2a = 1"
      using len by (auto simp: filter_body_simps value_ok_def count_list_0_iff)
    with no_signs [OF final(3), of "0x3d # 0x2a # v" b] FSUBSTRINGS.prems(3)
      substring_text_enc [OF final(3), of "0x2a # v" v "[SUBSTRING_FINAL v]" "[]" b] final
    show ?thesis by (simp add: filter_body_simps)
  next
    case (both n v w)
    then have "length (n @ 0x3d # v @ 0x2a # w) \<le> 126" "set (0x3d # v @ 0x2a # w) \<inter> {0x3a, 0x3c, 0x3e, 0x7e} = {}"
      "count_list (v @ 0x2a # w) 0x2a = 1"
      using len by (auto simp: filter_body_simps value_ok_def count_list_0_iff)
    moreover have "v @ 0x2a # w \<noteq> [0x2a]" using both(6) by (cases v) auto
    ultimately show ?thesis
      using no_signs [OF both(3), of "0x3d # v @ 0x2a # w" b] FSUBSTRINGS.prems(3)
        substring_text_enc [OF both(3), of "v @ 0x2a # w" v "[SUBSTRING_INITIAL v, SUBSTRING_FINAL w]" w b] both
      by (simp add: filter_body_simps del: enc_filter.simps)
  qed
next
  case (FEQUALITYMATCH n v)
  then have "name_ok n" "value_ok v" "v \<noteq> []" "length (n @ 0x3d # v) \<le> 127"
    "set (0x3d # v) \<inter> {0x3a, 0x3c, 0x3e, 0x7e} = {}" by (auto simp: filter_text_body filter_body_simps value_ok_def)
  with no_signs [of n "0x3d # v" b] equality_text [of n v b] FEQUALITYMATCH.prems(3)
  show ?case by (simp add: filter_body_simps)
next
  case (FPRESENT n)
  then have "name_ok n" "length (n @ [0x3d, 0x2a]) \<le> 127" by (auto simp: filter_text_body filter_body_simps)
  with no_signs [of n "[0x3d, 0x2a]" b] present_text [of n b] FPRESENT.prems(3)
  show ?case by (simp add: filter_body_simps)
next
  case (FGREATEROREQUAL n v)
  then show ?case using sign_text [of n v "0x3e" "0xa5" b]
    by (auto simp: filter_text_body filter_body_simps)
next
  case (FLESSOREQUAL n v)
  then show ?case using sign_text [of n v "0x3c" "0xa6" b]
    by (auto simp: filter_text_body filter_body_simps)
next
  case (FAPPROXMATCH n v)
  then show ?case using sign_text [of n v "0x7e" "0xa8" b]
    by (auto simp: filter_text_body filter_body_simps)
qed simp

section \<open>From the text of a filter to the server\<close>

lemma request_filter_enc:
  assumes f: "parseable f" "length (filter_text f) \<le> 128 \<or> f \<in> range FAND \<union> range FOR \<union> range FNOT"
    and fit: "length (enc_filter f) \<le> 1024"
  shows "request_filter (filter_text f) = Some (enc_filter f)"
proof -
  have "filter_body f \<noteq> [0x2a]"
  proof
    assume b: "filter_body f = [0x2a]"
    from f(1) show False
    proof (cases f)
      case (FSUBSTRINGS t subs)
      with f(1) have "parseable (FSUBSTRINGS t subs)" by simp
      then show False using b unfolding FSUBSTRINGS
        by (cases rule: parseable_substrings) (auto simp: filter_body_simps append_eq_Cons_conv)
    qed (use b in \<open>auto simp: filter_body_simps append_eq_Cons_conv\<close>)
  qed
  then have n: "filter_text f \<noteq> []" "filter_text f \<noteq> str ''*''" "filter_text f \<noteq> str ''(*)''"
    by (auto simp: filter_text_body)
  have b: "(if tl (filter_text f) \<noteq> [] \<and> last (filter_text f) = 0x29 then butlast (tl (filter_text f))
      else tl (filter_text f)) = filter_body f" "hd (filter_text f) = 0x28"
    by (simp_all add: filter_text_body)
  show ?thesis unfolding request_filter_def b
    using n process_text [OF f, of "[]"] fit by simp
qed

text \<open>
  The search that a client asks for: without limits, with the values of the attributes. The scopes
  are numbered as in RFC 4511: the base object, a single level, the whole subtree.
\<close>

definition scope_names :: "bytes list" where
  "scope_names = [str ''base'', str ''one'', str ''sub'']"

lemma scope_value_names: "k < 3 \<Longrightarrow> scope_value (scope_names ! k) = word_of_int (int k)"
proof -
  assume "k < 3"
  then have "k = 0 \<or> k = 1 \<or> k = 2" by linarith
  then show ?thesis by (auto simp: scope_names_def scope_value_def)
qed

definition search_of :: "bytes \<Rightarrow> nat \<Rightarrow> int \<Rightarrow> SearchFilter \<Rightarrow> bytes list \<Rightarrow> SearchRequest" where
  "search_of dn k deref f names = \<lparr>base_object = (if dn = [] then None else Some dn), scope = int k,
     deref_aliases = deref, size_limit = 0, time_limit = 0, typesOnly = 0, search_filter = Some f, attributes = names\<rparr>"

lemma gen_search_enc:
  assumes t: "tid_increment tid = Some t" "0 < t" "t < 2 ^ 24"
    and e: "e = enc_client_message t (SearchReq (search_of dn k deref f names)) cs" "length e < 2 ^ 24" "fits_buffer (length e)"
    and f: "request_filter object = Some (enc_filter f)" and l: "length dn < 256" and k: "k < 3"
  shows "written (gen_search_copied None tid dn (scope_names ! k) object (concat (map (tlv 0x04) names)) deref cs) t e"
proof -
  define A where "A = concat (map (tlv 0x04) names)"
  define F where "F = enc_filter f"
  define M :: bytes where "M = [0x0a, 0x01, word_of_int (int k)] @ [0x0a, 0x01, word_of_int deref] @
    [0x02, 0x01, 0x00] @ [0x02, 0x01, 0x00] @ [0x01, 0x01, 0x00]"
  define B where "B = tlv 0x04 dn @ M @ F @ tlv 0x30 A"
  have r: "enc_request (SearchReq (search_of dn k deref f names)) = tlv 0x63 B"
    by (simp add: search_of_def B_def M_def A_def F_def or_empty_def tlv_short)
  have b: "length B < 2 ^ 24" by (rule enc_client_bound [OF r e(1,2)])
  then have a: "length A < 2 ^ 24" by (simp add: B_def length_tlv)
  have n: "length A + length ((0x30 :: byte) # len_octets (length A)) + length F + 15 + length (tlv 0x04 dn) = length B"
    "length B + length ((0x63 :: byte) # len_octets (length B)) = length (tlv 0x63 B)"
    "(0x63 # len_octets (length B)) @ tlv 0x04 dn @ [0x0a, 0x01, word_of_int (int k)] @ [0x0a, 0x01, word_of_int deref] @
      [0x02, 0x01, 0x00] @ [0x02, 0x01, 0x00] @ [0x01, 0x01, 0x00] @ F @ (0x30 # len_octets (length A)) @ A = tlv 0x63 B"
    by (simp_all add: B_def M_def tlv_def)
  have "gen_search_copied None tid dn (scope_names ! k) object A deref cs =
      finish_request None tid (length (tlv 0x63 B)) (tlv 0x63 B) cs"
    unfolding gen_search_copied_def Let_def scope_value_names [OF k]
    by (simp only: text_array_enc [OF l] header_octets [OF a] header_octets [OF b] f F_def [symmetric] bind.bind_lunit n)
  then show ?thesis using finish_request_enc [OF t e r [symmetric] refl] by (simp add: A_def)
qed

text \<open>
  C12. A search end to end: the copied text of a filter, in the form in which the server prints it, is
  parsed by the client and goes with the DN, the scope and the names of attributes into a request
  that the server, wherever it stands in the buffer, decodes to a search with the id of the client,
  the same DN, scope and attributes and the very filter that was meant. The filter is built of any
  compound expressions over presences, comparisons and values with one star; its names and values are
  without the characters that the parser gives a meaning to (\<open>parseable\<close>), its single expressions
  have at most 128 bytes, its encoding at most 1024, and it fits the server's arrays, the last part of
  each expression no shorter than the header of the parts (\<open>fits_filter\<close>). The id is below \<open>2 ^ 24\<close>, the DN has less than
  256 bytes, the names of attributes less than 128, the message has no controls and at most 131056
  bytes, and the byte behind it in the server's buffer, which the decoder reads, is not \<open>0xa0\<close>.
  The copy of the text, made before, writes one byte behind its block: see \<open>no_room_for_nul\<close>.
\<close>

theorem ldap_search_request_roundtrip:
  assumes t: "tid_increment tid = Some t" "0 < t" "t < 2 ^ 24"
    and f: "parseable f" "fits_filter f" "length (filter_text f) \<le> 128 \<or> f \<in> range FAND \<union> range FOR \<union> range FNOT"
      "length (enc_filter f) \<le> 1024"
    and dn: "length dn < 256" and k: "k < 3" and names: "\<forall>a \<in> set names. a \<noteq> [] \<and> length a < 128" and deref: "is_char deref"
    and r: "r = SearchReq (search_of dn k deref f names)" and l: "length (enc_message t r) \<le> 131056"
    and suf: "suf \<noteq> []" "hd suf \<noteq> 0xa0"
  shows "\<exists>l b. LDAP_gen_ber_string (names @ [[]]) None = Some l \<and>
    gen_search_copied None tid dn (scope_names ! k) (filter_text f) (case l of None \<Rightarrow> [] | Some b \<Rightarrow> b_data b) deref [] = Some (t, b) \<and>
    ldap_decode_request True (pre @ b_data b @ suf) (length pre) (int (length (b_data b))) =
      Some (LDAP_RET_DATA_AVAILABLE, Some \<lparr>message_id = t, alt = r, controls = []\<rparr>)"
proof -
  define A where "A = concat (map (tlv 0x04) names)"
  have "length A \<le> length (enc_message t r)" by (simp add: enc_message_def r search_of_def A_def length_tlv)
  with l have lA: "length A \<le> 131056" by simp
  obtain lb where lb: "LDAP_gen_ber_string (names @ [[]]) None = Some lb" "(case lb of None \<Rightarrow> [] | Some b \<Rightarrow> b_data b) = A"
    using gen_ber_string_enc [OF _ names, of "[]"] lA by (cases "names = []") (auto simp: A_def)
  have fr: "fits_request r" using k dn names f(2) deref
    unfolding r by (auto simp: search_of_def fits_text_def or_empty_def is_char_def)
  have pos: "0 < length (enc_message t r)" by (simp add: enc_message_def tlv_def)
  have fit: "fits_buffer (length (enc_message t r))" "length (enc_message t r) < 2 ^ 24"
    using l pos by (simp_all add: fits_buffer_def)
  have "written (gen_search_copied None tid dn (scope_names ! k) (filter_text f) A deref []) t (enc_message t r)"
    unfolding A_def
    by (rule gen_search_enc [OF t _ _ _ request_filter_enc [OF f(1,3,4)] dn k, where cs = "[]"])
      (use fit in \<open>simp_all add: r\<close>)
  then obtain b where b: "gen_search_copied None tid dn (scope_names ! k) (filter_text f) A deref [] = Some (t, b)"
    "b_data b = enc_message t r" by (auto simp: written_def)
  have "ldap_decode_request True (pre @ b_data b @ suf) (length pre) (int (length (b_data b))) =
      Some (LDAP_RET_DATA_AVAILABLE, Some \<lparr>message_id = t, alt = r, controls = []\<rparr>)"
    unfolding b(2) by (rule decode_message [OF fr t(2,3) fit(2) _ suf]) simp_all
  with lb b(1) show ?thesis by auto
qed

theorem ldap_search_request_roundtrip_witness:
  "\<exists>l b. LDAP_gen_ber_string ([str ''cn''] @ [[]]) None = Some l \<and>
    gen_search_copied None 6 (str ''o=x'') (scope_names ! 2)
      (filter_text (FAND [FSUBSTRINGS (Some (str ''cn'')) (Some [SUBSTRING_INITIAL (str ''a''), SUBSTRING_FINAL (str ''b'')]),
        FNOT (FGREATEROREQUAL (str ''uid'') (str ''5''))])) (case l of None \<Rightarrow> [] | Some b \<Rightarrow> b_data b) 3 [] = Some (7, b) \<and>
    ldap_decode_request True ([1, 2] @ b_data b @ [0]) (length [1, 2 :: byte]) (int (length (b_data b))) =
      Some (LDAP_RET_DATA_AVAILABLE, Some \<lparr>message_id = 7, alt = SearchReq (search_of (str ''o=x'') 2 3
        (FAND [FSUBSTRINGS (Some (str ''cn'')) (Some [SUBSTRING_INITIAL (str ''a''), SUBSTRING_FINAL (str ''b'')]),
          FNOT (FGREATEROREQUAL (str ''uid'') (str ''5''))]) [str ''cn'']), controls = []\<rparr>)"
  by (rule ldap_search_request_roundtrip)
    (simp_all add: tid_increment_def int_add_def Let_def is_char_def name_ok_def value_ok_def fits_parts_def last_fits_def
      enc_optional_def enc_substring_def length_tlv hdr_def len_octets_def INSERT_LENGTH_def search_of_def
      enc_message_def ber_tid_create_eq id_bytes_def or_empty_def)

subsection \<open>Texts that are parsed to something else\<close>

text \<open>
  With more than one star the first piece is a middle one and the last-but-one the last, and the
  length of a second such filter counts the first; an empty value is taken for a class; the value of a
  matching rule keeps its equals sign; empty parentheses are read behind their end; and the memory
  for the text has no room for its NUL.
\<close>

lemma stars_misplaced:
  "process_filter (str ''a=x*y*z'') [] =
     Some (enc_filter (FSUBSTRINGS (Some (str ''a'')) (Some [SUBSTRING_ANY (str ''x''), SUBSTRING_FINAL (str ''y''), SUBSTRING_ANY (str ''z'')])))"
  by code_simp

lemma stars_length:
  "process_filter (str ''&(a=*x*)(b=*y*)'') [] =
     Some [160, 20, 164, 8, 4, 1, 97, 48, 3, 129, 1, 120, 164, 18, 4, 1, 98, 48, 3, 129, 1, 121]"
  by code_simp

lemma empty_value:
  "process_filter (str ''cn='') [] = Some (enc_filter (FEQUALITYMATCH (str ''objectClass'') (str ''cn='')))"
  by code_simp

lemma matching_value:
  "process_filter (str ''sn:dn:2.4.6:=test'') [] =
     Some (enc_filter (FEXTENSIBLEMATCH (Some (str ''2.4.6'')) (Some (str ''sn'')) (Some (str ''=test'')) True))"
  by code_simp

lemma empty_expression: "process_filter [] b = None"
  by (subst process_filter.simps) (simp add: buff_text_def create_ber_filter_def check_operation_def scan_to.simps at_def)

lemma no_room_for_nul: "LDAP_gen_search_request id ber tid dn sc object attrs deref cs = None"
  by (simp add: LDAP_gen_search_request_def)

end
