(* ===== verification/LdapResponse.thy ===== *)
theory LdapResponse
  imports LdapTransfer LdapRequestGen
begin

text \<open>
  The client's side of a response, libs/stacks/ldap/ldap_common.c: the record of a connection, the
  decoder of responses, and the generator of search entries. What the server generates, the client
  decodes.
\<close>

section \<open>A connection of the client\<close>

datatype LDAP_CLNT_STATE =
  LDAP_CLNT_STATE_OPEN | LDAP_CLNT_STATE_CONNECTING | LDAP_CLNT_STATE_READY | LDAP_CLNT_STATE_WAITING

text \<open>
  The links \<open>prev\<close> and \<open>next\<close> are kept with the queues. \<open>c_w_buffer\<close> is the bytes that \<open>w_len\<close> counts,
  \<open>c_r_buffer\<close> the memory of the read buffer, as long as \<open>r_size\<close>. \<open>matchedDN\<close> and
  \<open>diagnosticMessage\<close> are arrays of 512 and 1024 bytes.
\<close>

record LDAP_CLNT =
  c_no :: int
  c_sock :: int
  c_local_port :: int
  c_state :: LDAP_CLNT_STATE
  c_w_buffer :: "bytes option"
  c_w_size :: int
  c_w_curr :: int
  c_r_buffer :: "bytes option"
  c_r_len :: int
  c_r_ber_body :: int
  c_r_ber_body_length :: int
  c_create_time :: int
  c_wait_time :: int
  c_read_time :: int
  c_write_time :: int
  c_keepalive_time :: int
  c_timestamp_read :: "int \<times> int"
  c_timestamp_write :: "int \<times> int"
  c_concurrent_count :: int
  c_tid :: int
  c_ktid :: int
  c_ber :: "BER option"
  c_rber :: "BER option"
  c_bstring :: "BER option"
  c_result_code :: int
  c_matchedDN :: bytes
  c_diagnosticMessage :: bytes

section \<open>Decoding a response\<close>


text \<open>
  \<open>memcpy\<close> of \<open>len\<close> bytes at the offset \<open>i\<close> to an array, when \<open>len\<close> is positive: the array and the
  offset behind. A copy beyond either is undefined.
\<close>

definition copy_array :: "bytes \<Rightarrow> bytes \<Rightarrow> nat \<Rightarrow> int \<Rightarrow> (bytes \<times> nat) option" where
  "copy_array arr m i len =
     (if len > 0 then
        if i + nat len \<le> length m \<and> nat len \<le> length arr
        then Some (store_at 0 (take (nat len) (drop i m)) arr, i + nat len) else None
      else Some (arr, i))"

text \<open>\<open>arr[len] = 0\<close>.\<close>

definition terminate_array :: "bytes \<Rightarrow> int \<Rightarrow> bytes option" where
  "terminate_array arr len = (if 0 \<le> len \<and> len < int (length arr) then Some (arr[nat len := 0]) else None)"

text \<open>The operation from its tag on, appended to the buffer of results.\<close>

definition append_result :: "bytes \<Rightarrow> nat \<Rightarrow> int \<Rightarrow> LDAP_CLNT \<Rightarrow> LDAP_CLNT option" where
  "append_result m opt len lc =
     (if len < 0 \<or> opt + nat len > length m then None
      else do {
        b \<leftarrow> append_ber (ber_alloc_buffer (c_rber lc) len) (take (nat len) (drop opt m));
        Some (lc\<lparr>c_rber := Some b\<rparr>)
      })"

text \<open>
  The result of a search, a modification, an addition, a deletion or a renaming. The DN is
  terminated, the message is not.
\<close>

definition decode_result :: "bytes \<Rightarrow> nat \<Rightarrow> LDAP_CLNT \<Rightarrow> LDAP_CLNT option" where
  "decode_result m i lc = do {
     (_, i) \<leftarrow> FIND_LENGTH m i;
     c \<leftarrow> at m i;
     if c = 0x0a then do {
       rc \<leftarrow> at m (i + 2);
       let lc = lc\<lparr>c_result_code := sint rc\<rparr>;
       c \<leftarrow> at m (i + 3);
       if c = 0x04 then do {
         (len, i) \<leftarrow> FIND_LENGTH m (i + 4);
         (dn, i) \<leftarrow> copy_array (c_matchedDN lc) m i len;
         dn \<leftarrow> terminate_array dn len;
         let lc = lc\<lparr>c_matchedDN := dn\<rparr>;
         c \<leftarrow> at m i;
         if c = 0x04 then do {
           (len, i) \<leftarrow> FIND_LENGTH m (i + 1);
           (msg, _) \<leftarrow> copy_array (c_diagnosticMessage lc) m i len;
           Some (lc\<lparr>c_diagnosticMessage := msg\<rparr>)
         }
         else Some lc
       }
       else Some lc
     }
     else Some lc
   }"

text \<open>
  What follows the name in an extended response is only looked at. An object identifier goes to an
  array of 1024 bytes.
\<close>

definition copy_oid :: "bytes \<Rightarrow> nat \<Rightarrow> nat option" where
  "copy_oid m i = do {
     (len, i) \<leftarrow> FIND_LENGTH m i;
     if 0 \<le> len then do { _ \<leftarrow> copy_field 1024 m i (nat len); Some (i + nat len) } else None
   }"

definition skip_value :: "bytes \<Rightarrow> nat \<Rightarrow> unit option" where
  "skip_value m i = do {
     (_, i) \<leftarrow> FIND_LENGTH m i;
     c \<leftarrow> at m i;
     if c = 0x30 then do { _ \<leftarrow> FIND_LENGTH m (i + 1); Some () }
     else if c = 0xe1 then do {
       (_, i) \<leftarrow> FIND_LENGTH m (i + 1);
       c \<leftarrow> at m i;
       i \<leftarrow> (if c = 0x80 then do { (_, i) \<leftarrow> FIND_LENGTH m (i + 1); Some i } else Some i);
       c \<leftarrow> at m i;
       i \<leftarrow> (if c = 0x81 then copy_oid m (i + 1) else Some i);
       c \<leftarrow> at m i;
       if c = 0x83 then do {
         (_, i) \<leftarrow> FIND_LENGTH m (i + 1);
         c \<leftarrow> at m i;
         if c = 0x30 then do { _ \<leftarrow> FIND_LENGTH m (i + 1); Some () } else Some ()
       }
       else Some ()
     }
     else Some ()
   }"

text \<open>
  An extended response: the code is kept; the matched DN is taken for empty, message, name and value
  only pass through local arrays.
\<close>

definition decode_extended_response :: "bytes \<Rightarrow> nat \<Rightarrow> nat \<Rightarrow> int \<Rightarrow> LDAP_CLNT \<Rightarrow> LDAP_CLNT option" where
  "decode_extended_response m opt i opt_len lc = do {
     (_, i) \<leftarrow> FIND_LENGTH m i;
     lc \<leftarrow> append_result m opt opt_len lc;
     c \<leftarrow> at m i;
     if c = 0x0a then do {
       rc \<leftarrow> at m (i + 2);
       let lc = lc\<lparr>c_result_code := sint rc\<rparr>;
       c \<leftarrow> at m (i + 5);
       if c = 0x04 then do {
         (len, i) \<leftarrow> FIND_LENGTH m (i + 6);
         (err_msg, i) \<leftarrow> copy_array (replicate 1024 0) m i len;
         _ \<leftarrow> terminate_array err_msg len;
         c \<leftarrow> at m i;
         if c = 0x8a then do {
           i \<leftarrow> copy_oid m (i + 1);
           c \<leftarrow> at m i;
           if c = 0x8b then do { _ \<leftarrow> skip_value m (i + 1); Some lc } else Some lc
         }
         else Some lc
       }
       else Some lc
     }
     else Some lc
   }"

text \<open>
  The switch on the operation, whose tag is at \<open>opt\<close>; \<open>opt_len\<close> is \<open>ber_len - optIndex\<close>. A response to
  the client's own keepalive message is not the application's.
\<close>

definition decode_response_operation :: "bytes \<Rightarrow> nat \<Rightarrow> int \<Rightarrow> LDAP_CLNT \<Rightarrow> (int \<times> LDAP_CLNT) option" where
  "decode_response_operation m opt opt_len lc = do {
     let keepalive = (c_ktid lc \<noteq> 0 \<and> c_ktid lc = c_tid lc);
     c \<leftarrow> at m opt;
     if c = 0x78 then
       if keepalive then Some (LDAP_RET_KEEPALIVE, lc\<lparr>c_ktid := 0\<rparr>)
       else do { lc \<leftarrow> decode_extended_response m opt (opt + 1) opt_len lc; Some (LDAP_RET_DATA_AVAILABLE, lc) }
     else if c = 0x64 then
       if keepalive then Some (LDAP_RET_WAIT_MORE_DATA, lc)
       else do {
         _ \<leftarrow> FIND_LENGTH m (opt + 1);
         lc \<leftarrow> append_result m opt opt_len lc;
         Some (LDAP_RET_WAIT_MORE_DATA, lc)
       }
     else if c = 0x65 then
       if keepalive then Some (LDAP_RET_KEEPALIVE, lc\<lparr>c_ktid := 0\<rparr>)
       else do { lc \<leftarrow> decode_result m (opt + 1) lc; Some (LDAP_RET_DATA_AVAILABLE, lc) }
     else if c \<in> {0x67, 0x69, 0x6b, 0x6d} then do {
       lc \<leftarrow> decode_result m (opt + 1) lc;
       Some (LDAP_RET_DATA_AVAILABLE, lc)
     }
     else Some (LDAP_RET_DATA_AVAILABLE, lc)
   }"

text \<open>\<open>decode_flag\<close> is 0 in the only call. The length of the id is a \<open>char\<close>.\<close>

definition ldap_decode_response :: "LDAP_CLNT \<Rightarrow> (int \<times> LDAP_CLNT) option" where
  "ldap_decode_response lc = do {
     m \<leftarrow> c_r_buffer lc;
     let body = nat (c_r_ber_body lc);
     if c_r_ber_body lc < 0 then None else do {
       c \<leftarrow> at m body;
       if c = 0x30 then do {
         (_, i) \<leftarrow> FIND_LENGTH m (body + 1);
         c \<leftarrow> at m i;
         if c = 0x02 then do {
           l \<leftarrow> at m (i + 1);
           let len = sint l;
           let opt = int i + 2 + len;
           tid \<leftarrow> (if len > 0 then read_id m 0 (i + 2) (nat len) else Some 0);
           if opt < 0 then None
           else decode_response_operation m (nat opt) (c_r_ber_body_length lc - (opt - int body)) (lc\<lparr>c_tid := tid\<rparr>)
         }
         else Some (LDAP_RET_DATA_AVAILABLE, lc)
       }
       else Some (LDAP_RET_DATA_AVAILABLE, lc)
     }
   }"

section \<open>Search entries\<close>

text \<open>\<open>attrs\<close> are \<open>alen\<close> bytes; \<open>object\<close> is a C string or \<open>NULL\<close>.\<close>

definition LDAP_gen_search_entry :: "BER option \<Rightarrow> int \<Rightarrow> bytes option \<Rightarrow> bytes \<Rightarrow> BER option" where
  "LDAP_gen_search_entry ber mid object attrs = do {
     let tot = length attrs;
     b_attr \<leftarrow> header 0x30 tot;
     let tot = tot + length b_attr;
     b_object \<leftarrow> header 0x04 (length (or_empty object));
     let tot = tot + (length b_object + length (or_empty object));
     b_ext \<leftarrow> header 0x64 tot;
     let tot = tot + length b_ext;
     b_msg \<leftarrow> ber_tid_create mid;
     let tot = tot + length b_msg;
     b_ldap \<leftarrow> header 0x30 tot;
     let tot = tot + length b_ldap;
     COPY_TO_BER ber tot (b_ldap @ b_msg @ b_ext @ b_object @ or_empty object @ b_attr @ attrs)
   }"

section \<open>What the server generates is decoded\<close>

lemma id_at:
  assumes d: "drop q m = tid @ r" and t: "ber_tid_create mid = Some tid" "0 < mid" "mid < 2 ^ 24"
  obtains n where "at m q = Some 0x02" "at m (q + 1) = Some (word_of_int (int n))" "sint (word_of_int (int n) :: byte) = int n"
    "0 < n" "read_id m 0 (q + 2) n = Some mid" "drop (q + 2 + n) m = r" "length tid = 2 + n"
proof -
  obtain n body where b: "tid = 0x02 # word_of_int (int n) # body" "length body = n" "0 < n" "n \<le> 4"
    "\<And>pre suf. read_id (pre @ body @ suf) 0 (length pre) n = Some mid"
    using tid_encoded [OF t(2,3)] t(1) by auto
  have d1: "drop q m = 0x02 # word_of_int (int n) # body @ r" using d b(1) by simp
  then have q: "q \<le> length m" by (metis drop_all linear list.distinct(1))
  have "drop (2 + n) (drop q m) = r" unfolding d1 by (simp add: b(2))
  then have d2: "drop (q + 2 + n) m = r" by (simp only: drop_drop ac_simps)
  have "m = (take q m @ [0x02, word_of_int (int n)]) @ body @ r"
    using d1 append_take_drop_id [of q m] by simp
  then have id: "read_id m 0 (q + 2) n = Some mid"
    using b(5) [of "take q m @ [0x02, word_of_int (int n)]" r] q by simp
  have a: "at m q = Some 0x02" using d1 by (simp add: at_drop [of m q])
  have "drop 1 (drop q m) = word_of_int (int n) # body @ r" unfolding d1 by simp
  then have a': "at m (q + 1) = Some (word_of_int (int n))" by (simp add: at_drop [of m "Suc q"])
  have s: "sint (word_of_int (int n) :: byte) = int n"
    using b(4) by (simp only: sint_sbintrunc') (simp add: signed_take_bit_int_eq_self)
  show thesis by (rule that [OF a a' s b(3) id d2]) (simp add: b(1,2))
qed

text \<open>A response at the offset \<open>p\<close> of the client's buffer, framed.\<close>

definition response_at :: "LDAP_CLNT \<Rightarrow> bytes \<Rightarrow> bool" where
  "response_at lc e \<longleftrightarrow> (\<exists>m suf. c_r_buffer lc = Some m \<and> 0 \<le> c_r_ber_body lc \<and>
     drop (nat (c_r_ber_body lc)) m = e @ suf \<and> c_r_ber_body_length lc = int (length e))"

lemma decode_response_framed:
  assumes r: "response_at lc e" and e: "e = enc_response mid op body" "length e < 2 ^ 24" and mid: "0 < mid" "mid < 2 ^ 24"
  obtains m opt suf where "drop opt m = tlv op body @ suf"
    "ldap_decode_response lc =
       decode_response_operation m opt (int (length (tlv op body))) (lc\<lparr>c_tid := mid\<rparr>)"
proof -
  obtain m suf where m: "c_r_buffer lc = Some m" "0 \<le> c_r_ber_body lc" "c_r_ber_body_length lc = int (length e)"
    "drop (nat (c_r_ber_body lc)) m = e @ suf"
    using r by (auto simp: response_at_def)
  obtain b where b: "c_r_ber_body lc = int b" using m(2) nonneg_int_cases by blast
  obtain tid where t: "ber_tid_create mid = Some tid" using tid_encoded [OF mid] by blast
  let ?p = "nat (c_r_ber_body lc)"
  let ?C = "tid @ tlv op body"
  have e': "e = tlv 0x30 ?C" by (simp add: e(1) enc_response_def t)
  have d: "drop ?p m = tlv 0x30 ?C @ suf" using m(4) by (simp add: e')
  have L: "length ?C < 2 ^ 24" using e(2) unfolding e' length_tlv by linarith
  let ?q = "?p + hdr (length ?C)"
  have dq: "drop ?q m = tid @ (tlv op body @ suf)" using step_in [OF d] by simp
  from id_at [OF dq t mid] obtain n where n: "at m ?q = Some 0x02" "at m (?q + 1) = Some (word_of_int (int n))"
    "sint (word_of_int (int n) :: byte) = int n" "0 < n" "read_id m 0 (?q + 2) n = Some mid"
    "drop (?q + 2 + n) m = tlv op body @ suf" "length tid = 2 + n" by blast
  have len: "int (length e) - (int ?q + 2 + int n - int ?p) = int (length (tlv op body))"
    using n(7) by (simp add: e' length_tlv)
  have nat: "nat (int x + 2 + int y) = Suc (Suc (x + y))" for x y by linarith
  have dec: "ldap_decode_response lc =
      decode_response_operation m (?q + 2 + n) (int (length (tlv op body))) (lc\<lparr>c_tid := mid\<rparr>)"
    using m(1) step_at [OF d] step_find [OF d L] n(1-5)
    unfolding ldap_decode_response_def Let_def m(3) len [symmetric]
    by (simp add: b nat del: of_nat_add)
  show thesis by (rule that [OF n(6) dec])
qed

text \<open>Arrays that hold a text.\<close>

lemma copy_array_fits:
  assumes "drop i m = t @ suf" "length t \<le> length arr"
  shows "copy_array arr m i (int (length t)) = Some (store_at 0 t arr, i + length t)"
proof (cases "t = []")
  case True
  then show ?thesis by (simp add: copy_array_def store_at_def)
next
  case False
  have "length t \<le> length (drop i m)" unfolding assms(1) by simp
  then have "i + length t \<le> length m" using False by (cases "i \<le> length m") auto
  with assms False show ?thesis by (simp add: copy_array_def)
qed

lemma length_store: "p + length t \<le> length arr \<Longrightarrow> length (store_at p t arr) = length arr"
  by (simp add: store_at_def)

lemma cstr_stored: "0 \<notin> set t \<Longrightarrow> length t < length arr \<Longrightarrow> cstr ((store_at 0 t arr)[length t := 0]) = t"
proof -
  assume t: "0 \<notin> set t" "length t < length arr"
  then have "(store_at 0 t arr)[length t := 0] = t @ 0 # tl (drop (length t) arr)"
    by (cases "drop (length t) arr") (simp_all add: store_at_def list_update_append)
  then show ?thesis using t(1) by (simp add: cstr_def takeWhile_append)
qed

text \<open>The arrays of a connection have their sizes.\<close>

definition arrays_ok :: "LDAP_CLNT \<Rightarrow> bool" where
  "arrays_ok lc \<longleftrightarrow> length (c_matchedDN lc) = 512 \<and> length (c_diagnosticMessage lc) = 1024"

lemma result_bytes_at:
  assumes d: "drop p m = tlv 0x0a [word_of_int result] @ r" and v: "is_char result"
  shows "at m p = Some 0x0a" "\<exists>rc. at m (p + 2) = Some rc \<and> sint rc = result" "drop (p + 3) m = r"
proof -
  show "at m p = Some 0x0a" by (rule step_at [OF d])
  have h: "hdr 1 = 2" by (simp add: hdr_def len_octets_def INSERT_LENGTH_def)
  from step_in [OF d] have "drop (p + 2) m = word_of_int result # r" using h by simp
  then have "at m (p + 2) = Some (word_of_int result)" by (simp add: at_drop [of m "Suc (Suc p)"])
  moreover have "sint (word_of_int result :: byte) = result"
    using v by (simp add: is_char_def sint_sbintrunc' signed_take_bit_int_eq_self)
  ultimately show "\<exists>rc. at m (p + 2) = Some rc \<and> sint rc = result" by blast
  show "drop (p + 3) m = r" by (rule step_byte_over [OF d])
qed

lemma decode_result_enc:
  assumes d: "drop p m = tlv op (enc_result result mdn emsg) @ suf" and l: "length (enc_result result mdn emsg) < 2 ^ 24"
    and v: "is_char result" and a: "arrays_ok lc" "length (or_empty mdn) < 512" "length (or_empty emsg) \<le> 1024"
  shows "decode_result m (p + 1) lc = Some (lc\<lparr>c_result_code := result,
    c_matchedDN := (store_at 0 (or_empty mdn) (c_matchedDN lc))[length (or_empty mdn) := 0],
    c_diagnosticMessage := store_at 0 (or_empty emsg) (c_diagnosticMessage lc)\<rparr>)"
proof -
  define M E where "M = or_empty mdn" and "E = or_empty emsg"
  define B where "B = enc_result result mdn emsg"
  have B: "B = tlv 0x0a [word_of_int result] @ tlv 0x04 M @ tlv 0x04 E"
    by (simp add: B_def enc_result_def M_def E_def)
  note d = d [folded B_def]
  let ?q = "p + hdr (length B)"
  have d1: "drop ?q m = tlv 0x0a [word_of_int result] @ (tlv 0x04 M @ tlv 0x04 E @ suf)"
    using step_in [OF d] by (simp add: B)
  obtain rc where rc: "at m ?q = Some 0x0a" "at m (?q + 2) = Some rc" "sint rc = result"
    "drop (?q + 3) m = tlv 0x04 M @ tlv 0x04 E @ suf"
    using result_bytes_at [OF d1 v] by blast
  have lens: "length M < 2 ^ 24" "length E < 2 ^ 24" using a by (simp_all add: M_def E_def)
  let ?s = "?q + 3"
  have f: "FIND_LENGTH m (?q + 4) = Some (int (length M), ?s + hdr (length M))"
    using step_find [OF rc(4) lens(1)] by (simp add: eval_nat_numeral)
  have dM: "drop (?s + hdr (length M)) m = M @ (tlv 0x04 E @ suf)" by (rule step_in [OF rc(4)])
  have dE: "drop (?s + hdr (length M) + length M) m = tlv 0x04 E @ suf"
    using step_over [OF rc(4)] by (simp add: add.assoc)
  have c: "copy_array (c_matchedDN lc) m (?s + hdr (length M)) (int (length M)) =
      Some (store_at 0 M (c_matchedDN lc), ?s + hdr (length M) + length M)"
    by (rule copy_array_fits [OF dM]) (use a in \<open>simp add: arrays_ok_def M_def\<close>)
  have t: "terminate_array (store_at 0 M (c_matchedDN lc)) (int (length M)) =
      Some ((store_at 0 M (c_matchedDN lc))[length M := 0])"
    using a by (simp add: terminate_array_def length_store arrays_ok_def M_def)
  let ?u = "?s + hdr (length M) + length M"
  have fE: "FIND_LENGTH m (?u + 1) = Some (int (length E), ?u + hdr (length E))"
    using step_find [OF dE lens(2)] by simp
  have cE: "copy_array (c_diagnosticMessage lc) m (?u + hdr (length E)) (int (length E)) =
      Some (store_at 0 E (c_diagnosticMessage lc), ?u + hdr (length E) + length E)"
    by (rule copy_array_fits [OF step_in [OF dE]]) (use a in \<open>simp add: arrays_ok_def E_def\<close>)
  have f0: "FIND_LENGTH m (p + 1) = Some (int (length B), ?q)" using step_find [OF d] l by (simp add: B_def)
  show ?thesis unfolding decode_result_def M_def [symmetric] E_def [symmetric] Let_def
    using f0 rc(1-3) step_at [OF rc(4)] f c t step_at [OF dE] fE cE
    by (simp del: One_nat_def add_2_eq_Suc')
qed

text \<open>The length of a response of the server is far below the block of a buffer.\<close>

lemma length_tlv_le: "length c < 2 ^ 24 \<Longrightarrow> length (tlv t c) \<le> length c + 5"
  by (simp add: length_tlv hdr_def len_octets_def INSERT_LENGTH_eq id_bytes_def)

lemma enc_response_size:
  assumes b: "length body \<le> 131000" and mid: "0 < mid" "mid < 2 ^ 24"
  shows "length (enc_response mid op body) < 2 ^ 24" "fits_buffer (length (enc_response mid op body))"
proof -
  obtain tid n where t: "ber_tid_create mid = Some tid" "length tid = 2 + n" "n \<le> 4"
    using tid_encoded [OF mid] by force
  have l: "length (tlv op body) \<le> length body + 5" "length (tlv 0x30 (tid @ tlv op body)) \<le> length (tid @ tlv op body) + 5"
  proof -
    show 1: "length (tlv op body) \<le> length body + 5" by (rule length_tlv_le) (use b in simp)
    show "length (tlv 0x30 (tid @ tlv op body)) \<le> length (tid @ tlv op body) + 5"
      by (rule length_tlv_le) (use b 1 t in simp)
  qed
  have e: "enc_response mid op body = tlv 0x30 (tid @ tlv op body)" by (simp add: enc_response_def t(1))
  have *: "0 < length (enc_response mid op body)" "length (enc_response mid op body) \<le> 131021"
    using l t(2,3) b unfolding e by (simp_all add: tlv_def)
  then show "length (enc_response mid op body) < 2 ^ 24" by simp
  have "int (length (enc_response mid op body)) mod 131072 = int (length (enc_response mid op body))"
    using * by (intro mod_pos_pos_trivial) simp_all
  with * show "fits_buffer (length (enc_response mid op body))" by (simp add: fits_buffer_def)
qed

lemma enc_result_size: "length (or_empty mdn) < 512 \<Longrightarrow> length (or_empty emsg) \<le> 1024 \<Longrightarrow> length (enc_result r mdn emsg) \<le> 1600"
proof -
  assume a: "length (or_empty mdn) < 512" "length (or_empty emsg) \<le> 1024"
  have "length (tlv 0x04 (or_empty mdn)) \<le> length (or_empty mdn) + 5"
    "length (tlv 0x04 (or_empty emsg)) \<le> length (or_empty emsg) + 5"
    "length (tlv 0x0a [word_of_int r]) \<le> 1 + 5"
    using a by (auto intro!: length_tlv_le [THEN order_trans])
  then show ?thesis using a by (simp add: enc_result_def)
qed

text \<open>A response to the client's own keepalive message.\<close>

definition own_keepalive :: "LDAP_CLNT \<Rightarrow> int \<Rightarrow> bool" where
  "own_keepalive lc mid \<longleftrightarrow> c_ktid lc \<noteq> 0 \<and> c_ktid lc = mid"

lemma result_message:
  assumes op: "op \<in> {0x65, 0x67, 0x69, 0x6b, 0x6d}"
    and e: "e = enc_response mid op (enc_result result mdn emsg)" "response_at lc e" and mid: "0 < mid" "mid < 2 ^ 24"
    and v: "is_char result" and a: "arrays_ok lc" "length (or_empty mdn) < 512" "length (or_empty emsg) \<le> 1024"
  shows "ldap_decode_response lc =
    (if op = 0x65 \<and> own_keepalive lc mid then Some (LDAP_RET_KEEPALIVE, lc\<lparr>c_tid := mid, c_ktid := 0\<rparr>)
     else Some (LDAP_RET_DATA_AVAILABLE, lc\<lparr>c_tid := mid, c_result_code := result,
       c_matchedDN := (store_at 0 (or_empty mdn) (c_matchedDN lc))[length (or_empty mdn) := 0],
       c_diagnosticMessage := store_at 0 (or_empty emsg) (c_diagnosticMessage lc)\<rparr>))"
proof -
  have s: "length (enc_result result mdn emsg) \<le> 1600" by (rule enc_result_size [OF a(2,3)])
  then have L: "length e < 2 ^ 24" using enc_response_size(1) [of _ mid op] mid by (simp add: e(1))
  obtain m opt suf where m: "drop opt m = tlv op (enc_result result mdn emsg) @ suf"
    "ldap_decode_response lc = decode_response_operation m opt
      (int (length (tlv op (enc_result result mdn emsg)))) (lc\<lparr>c_tid := mid\<rparr>)"
    using decode_response_framed [OF e(2,1) L mid] by blast
  have dec: "decode_result m (opt + 1) (lc\<lparr>c_tid := mid\<rparr>) = Some (lc\<lparr>c_tid := mid, c_result_code := result,
    c_matchedDN := (store_at 0 (or_empty mdn) (c_matchedDN lc))[length (or_empty mdn) := 0],
    c_diagnosticMessage := store_at 0 (or_empty emsg) (c_diagnosticMessage lc)\<rparr>)"
    using decode_result_enc [OF m(1) _ v, of "lc\<lparr>c_tid := mid\<rparr>"] a s by (simp add: arrays_ok_def)
  have at_opt: "at m opt = Some op" by (rule step_at [OF m(1)])
  show ?thesis using op
    by (elim insertE emptyE; hypsubst) (simp_all add: m(2) decode_response_operation_def at_opt dec [simplified] own_keepalive_def)
qed

text \<open>Entries of a search.\<close>

definition enc_entry :: "bytes option \<Rightarrow> bytes \<Rightarrow> bytes" where
  "enc_entry object attrs = tlv 0x04 (or_empty object) @ tlv 0x30 attrs"

lemma gen_search_entry_enc:
  assumes mid: "0 < mid" "mid < 2 ^ 24"
    and e: "e = enc_response mid 0x64 (enc_entry object attrs)" "length e < 2 ^ 24" "fits_buffer (length e)"
  shows "\<exists>b. LDAP_gen_search_entry None mid object attrs = Some b \<and> b_data b = e"
proof -
  obtain tid where t: "ber_tid_create mid = Some tid" using tid_encoded [OF mid] by blast
  define B where "B = or_empty object"
  define R where "R = enc_entry object attrs"
  have R: "R = (0x04 # len_octets (length B)) @ B @ (0x30 # len_octets (length attrs)) @ attrs"
    by (simp add: R_def enc_entry_def B_def tlv_def)
  have e': "e = tlv 0x30 (tid @ tlv 0x64 R)" by (simp add: e(1) enc_response_def t R_def)
  have LR: "length R = length attrs + hdr (length attrs) + (hdr (length B) + length B)"
    by (simp add: R hdr_def)
  define n where "n = length R + hdr (length R) + length tid"
  have Le: "length e = n + hdr n"
    by (simp add: e' length_tlv n_def add.commute add.left_commute)
  have b: "length B < 2 ^ 24" "length attrs < 2 ^ 24" "length R < 2 ^ 24" "n < 2 ^ 24"
    using e(2) Le LR n_def by linarith+
  have h: "header 0x04 (length B) = Some (0x04 # len_octets (length B))"
    "header 0x30 (length attrs) = Some (0x30 # len_octets (length attrs))"
    "header 0x64 (length R) = Some (0x64 # len_octets (length R))"
    "header 0x30 n = Some (0x30 # len_octets n)"
    using b by (simp_all add: header_octets)
  have data: "(0x30 # len_octets n) @ tid @ (0x64 # len_octets (length R)) @ (0x04 # len_octets (length B)) @ B @
      (0x30 # len_octets (length attrs)) @ attrs = e"
    by (simp add: e' R n_def tlv_def hdr_def add.commute add.left_commute)
  have s1: "length attrs + length ((0x30 :: byte) # len_octets (length attrs)) +
      (length ((0x04 :: byte) # len_octets (length B)) + length B) = length R"
    by (simp add: LR hdr_def)
  have s2: "length R + length ((0x64 :: byte) # len_octets (length R)) + length tid = n"
    by (simp add: hdr_def n_def)
  have s3: "n + length ((0x30 :: byte) # len_octets n) = length e"
    by (simp only: Le length_header)
  have "LDAP_gen_search_entry None mid object attrs = COPY_TO_BER None (length e) e"
    unfolding LDAP_gen_search_entry_def B_def [symmetric] Let_def
    by (simp only: h t bind.bind_lunit s1 s2 s3 data)
  with COPY_TO_BER_new [OF e(3)] show ?thesis by auto
qed

lemma append_result_at:
  assumes d: "drop opt m = x @ suf" and f: "append_ber (ber_alloc_buffer (c_rber lc) (int (length x))) x = Some b"
  shows "append_result m opt (int (length x)) lc = (if x = [] \<and> length m < opt then None else Some (lc\<lparr>c_rber := Some b\<rparr>))"
proof -
  have "x \<noteq> [] \<Longrightarrow> opt + length x \<le> length m"
    using arg_cong [OF d, of length] by (cases "opt \<le> length m") auto
  then show ?thesis using d f by (cases "x = []") (auto simp: append_result_def)
qed

text \<open>The results that a client has collected, and the room for one more.\<close>

definition results :: "LDAP_CLNT \<Rightarrow> bytes" where
  "results lc = (case c_rber lc of None \<Rightarrow> [] | Some b \<Rightarrow> b_data b)"

definition room_for :: "LDAP_CLNT \<Rightarrow> bytes \<Rightarrow> bool" where
  "room_for lc x \<longleftrightarrow> int (length (results lc) + length x) \<le> b_room (ber_alloc_buffer (c_rber lc) (int (length x)))"

lemma alloc_keeps_data: "b_data (ber_alloc_buffer (c_rber lc) n) = results lc"
  by (simp add: ber_alloc_buffer_def results_def Let_def split: option.splits)

lemma append_in_room:
  "room_for lc x \<Longrightarrow> \<exists>b. append_ber (ber_alloc_buffer (c_rber lc) (int (length x))) x = Some b \<and> b_data b = results lc @ x"
  by (simp add: append_ber_def room_for_def alloc_keeps_data)

lemma entry_message:
  assumes e: "e = enc_response mid 0x64 body" "length e < 2 ^ 24" "response_at lc e" and mid: "0 < mid" "mid < 2 ^ 24"
    and k: "\<not> own_keepalive lc mid" and room: "room_for lc (tlv 0x64 body)"
  shows "\<exists>b. b_data b = results lc @ tlv 0x64 body \<and>
    ldap_decode_response lc = Some (LDAP_RET_WAIT_MORE_DATA, lc\<lparr>c_tid := mid, c_rber := Some b\<rparr>)"
proof -
  obtain m opt suf where m: "drop opt m = tlv 0x64 body @ suf"
    "ldap_decode_response lc = decode_response_operation m opt (int (length (tlv 0x64 body))) (lc\<lparr>c_tid := mid\<rparr>)"
    using decode_response_framed [OF e(3,1,2) mid] by blast
  obtain b where b: "append_ber (ber_alloc_buffer (c_rber lc) (int (length (tlv 0x64 body)))) (tlv 0x64 body) = Some b"
    "b_data b = results lc @ tlv 0x64 body"
    using append_in_room [OF room] by blast
  have ap: "append_result m opt (int (length (tlv 0x64 body))) (lc\<lparr>c_tid := mid\<rparr>) = Some (lc\<lparr>c_tid := mid, c_rber := Some b\<rparr>)"
    using append_result_at [OF m(1), of "lc\<lparr>c_tid := mid\<rparr>" b] b(1) by (simp add: tlv_def)
  have L: "length body < 2 ^ 24"
    using e(2) length_le_tlv [of body "0x64"] length_le_tlv [of "_ @ tlv 0x64 body" "0x30"]
    unfolding e(1) enc_response_def length_append by (meson le_add2 le_less_trans le_trans)
  have "ldap_decode_response lc = Some (LDAP_RET_WAIT_MORE_DATA, lc\<lparr>c_tid := mid, c_rber := Some b\<rparr>)"
    using k unfolding m(2) decode_response_operation_def Let_def
    by (auto simp: step_at [OF m(1)] own_keepalive_def step_find [OF m(1) L] ap)
  with b(2) show ?thesis by blast
qed

text \<open>The value of an extended response is not looked into, but its first octet is read.\<close>

lemma skip_value_enc:
  assumes d: "drop p m = tlv 0x8b (tlv 0x30 v) @ suf" and l: "length (tlv 0x30 v) < 2 ^ 24"
  shows "skip_value m (p + 1) = Some ()"
proof -
  have lv: "length v < 2 ^ 24" using l by (simp add: length_tlv)
  have d1: "drop (p + hdr (length (tlv 0x30 v))) m = tlv 0x30 v @ suf" by (rule step_in [OF d])
  show ?thesis
    using step_find [OF d l] step_at [OF d1] step_find [OF d1 lv] by (simp add: skip_value_def)
qed

lemma copy_oid_enc:
  assumes d: "drop p m = tlv 0x8a s @ suf" and l: "length s < 1024"
  shows "copy_oid m (p + 1) = Some (p + (hdr (length s) + length s))"
  using step_find [OF d] step_copy [OF d, of 1024] l by (simp add: copy_oid_def add.assoc)

lemma decode_extended_result_enc:
  assumes d: "drop opt m = tlv 0x78 (enc_result result None emsg @ tlv 0x8a (or_empty oid) @ tlv 0x8b (tlv 0x30 v)) @ suf"
    and B: "B = enc_result result None emsg @ tlv 0x8a (or_empty oid) @ tlv 0x8b (tlv 0x30 v)" "length B < 2 ^ 24"
    and l: "length (or_empty emsg) < 1024" "length (or_empty oid) < 1024"
    and v: "is_char result"
    and ap: "append_result m opt n lc = Some lc'"
  shows "decode_extended_response m opt (opt + 1) n lc = Some (lc'\<lparr>c_result_code := result\<rparr>)"
proof -
  define E where "E = or_empty emsg"
  define S where "S = or_empty oid"
  define V where "V = tlv 0x8b (tlv 0x30 v)"
  have B': "B = tlv 0x0a [word_of_int result] @ tlv 0x04 [] @ tlv 0x04 E @ tlv 0x8a S @ V"
    by (simp add: B(1) enc_result_def E_def S_def V_def)
  note d = d [folded B(1)]
  let ?q = "opt + hdr (length B)"
  have d1: "drop ?q m = tlv 0x0a [word_of_int result] @ (tlv 0x04 [] @ tlv 0x04 E @ tlv 0x8a S @ V @ suf)"
    using step_in [OF d] by (simp add: B')
  obtain rc where rc: "at m ?q = Some 0x0a" "at m (?q + 2) = Some rc" "sint rc = result"
    "drop (?q + 3) m = tlv 0x04 [] @ tlv 0x04 E @ tlv 0x8a S @ V @ suf"
    using result_bytes_at [OF d1 v] by blast
  have h0: "hdr 0 = 2" by (simp add: hdr_def len_octets_def INSERT_LENGTH_def)
  let ?s = "?q + 5"
  have dE: "drop ?s m = tlv 0x04 E @ (tlv 0x8a S @ V @ suf)"
    using step_over [OF rc(4)] h0 by (simp add: numeral_eq_Suc)
  have fE: "FIND_LENGTH m (?s + 1) = Some (int (length E), ?s + hdr (length E))"
    using step_find [OF dE] l(1) by (simp add: E_def)
  let ?u = "?s + (hdr (length E) + length E)"
  have cE: "copy_array (replicate 1024 0) m (?s + hdr (length E)) (int (length E)) =
      Some (store_at 0 E (replicate 1024 0), ?u)"
    using copy_array_fits [OF step_in [OF dE], of "replicate 1024 0"] l(1) by (simp add: E_def add.assoc)
  have tE: "\<exists>x. terminate_array (store_at 0 E (replicate 1024 0)) (int (length E)) = Some x"
    using l(1) by (simp add: terminate_array_def length_store E_def)
  have dS: "drop ?u m = tlv 0x8a S @ (V @ suf)" by (rule step_over [OF dE])
  have cS: "copy_oid m (?u + 1) = Some (?u + (hdr (length S) + length S))"
    by (rule copy_oid_enc [OF dS]) (use l(2) in \<open>simp add: S_def\<close>)
  have dV: "drop (?u + (hdr (length S) + length S)) m = V @ suf" by (rule step_over [OF dS])
  have sV: "skip_value m (?u + (hdr (length S) + length S) + 1) = Some ()"
    by (rule skip_value_enc [OF dV [unfolded V_def]])
      (use B(2) in \<open>simp add: B' V_def length_tlv [of "0x8b"]\<close>)
  have aV: "at m (?u + (hdr (length S) + length S)) = Some 0x8b" by (rule step_at [OF dV [unfolded V_def]])
  have f0: "FIND_LENGTH m (opt + 1) = Some (int (length B), ?q)" using step_find [OF d B(2)] by simp
  show ?thesis unfolding decode_extended_response_def Let_def
    using f0 ap rc(1-3) step_at [OF dE] fE cE tE step_at [OF dS] cS aV sV
    by (auto simp: add.assoc simp del: One_nat_def add_2_eq_Suc')
qed

lemma stored_front: "store_at 0 t arr = t @ drop (length t) arr"
  by (simp add: store_at_def)

lemma cstr_front: "0 \<notin> set t \<Longrightarrow> cstr (t @ u) = t @ cstr u"
  by (induction t) (simp_all add: cstr_def)

text \<open>
  C13. A result that the server's generators write, framed anywhere in the read buffer of a client, is
  decoded to the id, the result code and the matched DN as a C string; the diagnostic message is put
  over the first bytes of its field, whose other bytes stay. The code does not terminate it: the text
  of the field is the message followed by the text that an older message has left behind it, so it
  is the message alone exactly when none is left (see \<open>stale_message\<close>). The end of a search that
  answers the client's own keepalive message is reported as such and takes no field of the connection
  but the ids. The id is below \<open>2 ^ 24\<close>, the result code one byte, the matched DN a C string of less
  than 512 bytes and the diagnostic message has at most 1024.
\<close>

theorem ldap_response_roundtrip:
  assumes gen: "(gen, op) \<in> {(LDAP_gen_search_done, 0x65 :: byte), (LDAP_gen_modify_response, 0x67), (LDAP_gen_add_response, 0x69),
      (LDAP_gen_delete_response, 0x6b), (LDAP_gen_moddn_response, 0x6d)}"
    and b: "gen None mid result mdn emsg = Some b" "response_at lc (b_data b)" "arrays_ok lc"
    and mid: "0 < mid" "mid < 2 ^ 24" and v: "is_char result"
    and l: "length (or_empty mdn) < 512" "0 \<notin> set (or_empty mdn)" "length (or_empty emsg) \<le> 1024"
  shows "\<exists>r lc'. ldap_decode_response lc = Some (r, lc') \<and> c_tid lc' = mid \<and>
    (if op = 0x65 \<and> own_keepalive lc mid then r = LDAP_RET_KEEPALIVE \<and> lc' = lc\<lparr>c_tid := mid, c_ktid := 0\<rparr>
     else r = LDAP_RET_DATA_AVAILABLE \<and> c_result_code lc' = result \<and> cstr (c_matchedDN lc') = or_empty mdn \<and>
       c_diagnosticMessage lc' = or_empty emsg @ drop (length (or_empty emsg)) (c_diagnosticMessage lc) \<and>
       (0 \<notin> set (or_empty emsg) \<longrightarrow> cstr (c_diagnosticMessage lc') =
          or_empty emsg @ cstr (drop (length (or_empty emsg)) (c_diagnosticMessage lc))) \<and>
       results lc' = results lc)"
proof -
  define e where "e = enc_response mid op (enc_result result mdn emsg)"
  have "length (enc_result result mdn emsg) \<le> 131000" using enc_result_size [OF l(1,3)] by (rule le_trans) simp
  note s = enc_response_size [OF this mid, of op, folded e_def]
  have gop: "gen None mid result mdn emsg = gen_ldap_result None mid op result mdn emsg \<and> op \<in> {0x65, 0x67, 0x69, 0x6b, 0x6d}"
    using gen by (auto simp: LDAP_gen_search_done_def LDAP_gen_modify_response_def LDAP_gen_add_response_def
      LDAP_gen_delete_response_def LDAP_gen_moddn_response_def)
  then have be: "b_data b = e" using gen_ldap_result_enc [OF mid e_def s] b(1) by auto
  note r = result_message [OF conjunct2 [OF gop] e_def b(2) [unfolded be] mid v b(3) l(1,3)]
  show ?thesis
  proof (cases "op = 0x65 \<and> own_keepalive lc mid")
    case True
    with r show ?thesis by auto
  next
    case False
    with r b(3) l show ?thesis by (auto simp: cstr_stored stored_front [of "or_empty emsg"] cstr_front arrays_ok_def results_def)
  qed
qed

text \<open>A connection with a buffer that holds a result after another byte.\<close>

definition demo_client :: LDAP_CLNT where
  "demo_client = \<lparr>c_no = 0, c_sock = 4, c_local_port = 4000, c_state = LDAP_CLNT_STATE_READY,
     c_w_buffer = None, c_w_size = 0, c_w_curr = 0,
     c_r_buffer = Some [0, 0x30, 14, 0x02, 1, 7, 0x65, 9, 0x0a, 1, 0, 0x04, 0, 0x04, 2, 111, 107, 0],
     c_r_len = 17, c_r_ber_body = 1, c_r_ber_body_length = 16, c_create_time = 0, c_wait_time = 0, c_read_time = 0,
     c_write_time = 0, c_keepalive_time = 0, c_timestamp_read = (0, 0), c_timestamp_write = (0, 0),
     c_concurrent_count = 1, c_tid = 0, c_ktid = 0, c_ber = None, c_rber = None, c_bstring = None, c_result_code = 0,
     c_matchedDN = replicate 512 0, c_diagnosticMessage = replicate 1024 0\<rparr>"

theorem ldap_response_roundtrip_witness:
  "\<exists>lc'. ldap_decode_response demo_client = Some (LDAP_RET_DATA_AVAILABLE, lc') \<and> c_tid lc' = 7 \<and> c_result_code lc' = 0 \<and>
     c_diagnosticMessage lc' = str ''ok'' @ replicate 1022 0 \<and> cstr (c_diagnosticMessage lc') = str ''ok''"
proof -
  let ?e = "enc_response 7 0x65 (enc_result 0 None (Some (str ''ok'')))"
  have e: "?e = [0x30, 14, 0x02, 1, 7, 0x65, 9, 0x0a, 1, 0, 0x04, 0, 0x04, 2, 111, 107]"
    by (simp add: enc_response_def enc_result_def tlv_def len_octets_def INSERT_LENGTH_def or_empty_def
        ber_tid_create_eq id_bytes_def Let_def)
  have "length ?e < 2 ^ 24" "fits_buffer (length ?e)" unfolding e by (simp_all add: fits_buffer_def)
  from gen_ldap_result_enc [OF _ _ refl this] obtain b where
    b: "LDAP_gen_search_done None 7 0 None (Some (str ''ok'')) = Some b" "b_data b = ?e"
    by (auto simp: LDAP_gen_search_done_def)
  have "response_at demo_client (b_data b)"
    unfolding response_at_def b(2) e by (simp add: demo_client_def)
  note use = ldap_response_roundtrip [where gen = LDAP_gen_search_done, OF _ b(1) this, of "0x65"]
  have "arrays_ok demo_client" "\<not> own_keepalive demo_client 7"
    by (simp_all add: arrays_ok_def own_keepalive_def demo_client_def)
  with use obtain lc' where lc': "ldap_decode_response demo_client = Some (LDAP_RET_DATA_AVAILABLE, lc')" "c_tid lc' = 7"
    "c_result_code lc' = 0" "c_diagnosticMessage lc' = str ''ok'' @ drop (length (str ''ok'')) (c_diagnosticMessage demo_client)"
    "cstr (c_diagnosticMessage lc') = str ''ok'' @ cstr (drop (length (str ''ok'')) (c_diagnosticMessage demo_client))"
    by (force simp: is_char_def)
  have "drop (length (str ''ok'')) (c_diagnosticMessage demo_client) = replicate 1022 0" "cstr (replicate 1022 0) = []"
    by (simp_all add: demo_client_def cstr_def takeWhile_eq_Nil_iff)
  with lc' show ?thesis by (intro exI [of _ lc']) (simp only: append_Nil2 simp_thms)
qed

lemma extended_message:
  assumes B: "B = enc_result result None emsg @ tlv 0x8a (or_empty oid) @ enc_extended_value (Some v)" "v \<noteq> []"
    and e: "e = enc_response mid 0x78 B" "length e < 2 ^ 24" "response_at lc e" and mid: "0 < mid" "mid < 2 ^ 24"
    and k: "\<not> own_keepalive lc mid" and room: "room_for lc (tlv 0x78 B)" and v: "is_char result"
    and l: "length (or_empty emsg) < 1024" "length (or_empty oid) < 1024"
  shows "\<exists>b. b_data b = results lc @ tlv 0x78 B \<and>
    ldap_decode_response lc = Some (LDAP_RET_DATA_AVAILABLE, lc\<lparr>c_tid := mid, c_rber := Some b, c_result_code := result\<rparr>)"
proof -
  have B': "B = enc_result result None emsg @ tlv 0x8a (or_empty oid) @ tlv 0x8b (tlv 0x30 v)"
    using B by (simp add: enc_extended_value_def)
  obtain m opt suf where m: "drop opt m = tlv 0x78 B @ suf"
    "ldap_decode_response lc = decode_response_operation m opt (int (length (tlv 0x78 B))) (lc\<lparr>c_tid := mid\<rparr>)"
    using decode_response_framed [OF e(3,1,2) mid] by blast
  obtain b where b: "append_ber (ber_alloc_buffer (c_rber lc) (int (length (tlv 0x78 B)))) (tlv 0x78 B) = Some b"
    "b_data b = results lc @ tlv 0x78 B"
    using append_in_room [OF room] by blast
  have ap: "append_result m opt (int (length (tlv 0x78 B))) (lc\<lparr>c_tid := mid\<rparr>) = Some (lc\<lparr>c_tid := mid, c_rber := Some b\<rparr>)"
    using append_result_at [OF m(1), of "lc\<lparr>c_tid := mid\<rparr>" b] b(1) by (simp add: tlv_def)
  have L: "length B < 2 ^ 24"
    using e(2) length_le_tlv [of B "0x78"] length_le_tlv [of "_ @ tlv 0x78 B" "0x30"]
    unfolding e(1) enc_response_def length_append by (meson le_add2 le_less_trans le_trans)
  have "decode_extended_response m opt (opt + 1) (int (length (tlv 0x78 B))) (lc\<lparr>c_tid := mid\<rparr>) =
      Some (lc\<lparr>c_tid := mid, c_rber := Some b, c_result_code := result\<rparr>)"
    by (rule decode_extended_result_enc [OF m(1) [unfolded B'] B' L l v ap, THEN trans]) simp
  then have "ldap_decode_response lc = Some (LDAP_RET_DATA_AVAILABLE, lc\<lparr>c_tid := mid, c_rber := Some b, c_result_code := result\<rparr>)"
    using k unfolding m(2) decode_response_operation_def Let_def
    by (auto simp: step_at [OF m(1)] own_keepalive_def)
  with b(2) show ?thesis by blast
qed

text \<open>
  C14. The entries of a search and extended responses that the server generates, wherever they lie in
  the read buffer of the client, are appended whole to the results it has collected, an entry with
  the demand for more messages, an extended response with the code that the server gave.
\<close>

theorem ldap_results_collected:
  assumes mid: "0 < mid" "mid < 2 ^ 24" and k: "\<not> own_keepalive lc mid"
    and e: "response_at lc e" "length e < 2 ^ 24" "fits_buffer (length e)" and room: "room_for lc (tlv op body)"
  shows "(op = 0x64 \<and> body = enc_entry object attrs \<and> e = enc_response mid op body \<longrightarrow>
      (\<exists>b. LDAP_gen_search_entry None mid object attrs = Some b \<and> b_data b = e) \<and>
      (\<exists>lc'. ldap_decode_response lc = Some (LDAP_RET_WAIT_MORE_DATA, lc') \<and> c_tid lc' = mid \<and>
        results lc' = results lc @ tlv op body)) \<and>
    (op = 0x78 \<and> body = enc_result result None emsg @ tlv 0x8a (or_empty oid) @ enc_extended_value (Some v) \<and>
      e = enc_response mid op body \<and> v \<noteq> [] \<and> is_char result \<and> length (or_empty emsg) < 1024 \<and> length (or_empty oid) < 1024 \<longrightarrow>
      (\<exists>b. LDAP_gen_extended_response None mid result None emsg oid (Some v) = Some b \<and> b_data b = e) \<and>
      (\<exists>lc'. ldap_decode_response lc = Some (LDAP_RET_DATA_AVAILABLE, lc') \<and> c_tid lc' = mid \<and>
        c_result_code lc' = result \<and> results lc' = results lc @ tlv op body))"
proof (rule conjI; rule impI)
  let ?body = "enc_entry object attrs"
  assume h: "op = 0x64 \<and> body = ?body \<and> e = enc_response mid op body"
  have "\<exists>b'. b_data b' = results lc @ tlv 0x64 ?body \<and>
      ldap_decode_response lc = Some (LDAP_RET_WAIT_MORE_DATA, lc\<lparr>c_tid := mid, c_rber := Some b'\<rparr>)"
    by (rule entry_message [OF _ e(2,1) mid k]) (use h room in simp_all)
  moreover have "\<exists>b. LDAP_gen_search_entry None mid object attrs = Some b \<and> b_data b = e"
    by (rule gen_search_entry_enc [OF mid _ e(2,3)]) (use h in simp)
  ultimately show "(\<exists>b. LDAP_gen_search_entry None mid object attrs = Some b \<and> b_data b = e) \<and>
      (\<exists>lc'. ldap_decode_response lc = Some (LDAP_RET_WAIT_MORE_DATA, lc') \<and> c_tid lc' = mid \<and>
        results lc' = results lc @ tlv op body)"
    using h by (auto simp: results_def)
next
  assume h: "op = 0x78 \<and> body = enc_result result None emsg @ tlv 0x8a (or_empty oid) @ enc_extended_value (Some v) \<and>
      e = enc_response mid op body \<and> v \<noteq> [] \<and> is_char result \<and> length (or_empty emsg) < 1024 \<and> length (or_empty oid) < 1024"
  have "\<exists>b'. b_data b' = results lc @ tlv 0x78 body \<and>
      ldap_decode_response lc = Some (LDAP_RET_DATA_AVAILABLE, lc\<lparr>c_tid := mid, c_rber := Some b', c_result_code := result\<rparr>)"
    by (rule extended_message [of body result emsg oid v, OF _ _ _ e(2,1) mid k]) (use h room in simp_all)
  moreover have "\<exists>b. LDAP_gen_extended_response None mid result None emsg oid (Some v) = Some b \<and> b_data b = e"
    by (rule gen_extended_response_enc [OF mid _ e(2,3)]) (use h in simp)
  ultimately show "(\<exists>b. LDAP_gen_extended_response None mid result None emsg oid (Some v) = Some b \<and> b_data b = e) \<and>
      (\<exists>lc'. ldap_decode_response lc = Some (LDAP_RET_DATA_AVAILABLE, lc') \<and> c_tid lc' = mid \<and>
        c_result_code lc' = result \<and> results lc' = results lc @ tlv op body)"
    using h by (auto simp: results_def)
qed

text \<open>An entry without attributes for a client that has no results yet.\<close>

definition demo_entry :: bytes where
  "demo_entry = [0x30, 10, 0x02, 1, 7, 0x64, 5, 0x04, 1, 111, 0x30, 0]"

theorem ldap_results_collected_witness:
  "\<exists>lc'. ldap_decode_response (demo_client\<lparr>c_r_buffer := Some (0 # demo_entry), c_r_ber_body_length := 12\<rparr>) =
     Some (LDAP_RET_WAIT_MORE_DATA, lc') \<and> results lc' = [0x64, 5, 0x04, 1, 111, 0x30, 0]"
proof -
  let ?lc = "demo_client\<lparr>c_r_buffer := Some (0 # demo_entry), c_r_ber_body_length := 12\<rparr>"
  let ?body = "enc_entry (Some [111]) []"
  have e: "enc_response 7 0x64 ?body = demo_entry" "tlv 0x64 ?body = [0x64, 5, 0x04, 1, 111, 0x30, 0]"
    by (simp_all add: enc_response_def enc_entry_def tlv_def len_octets_def INSERT_LENGTH_def or_empty_def
        ber_tid_create_eq id_bytes_def Let_def demo_entry_def)
  have r: "response_at ?lc demo_entry" "\<not> own_keepalive ?lc 7" "room_for ?lc (tlv 0x64 ?body)" "results ?lc = []"
    unfolding e(2) by (simp_all add: response_at_def own_keepalive_def room_for_def results_def demo_client_def demo_entry_def
        ber_alloc_buffer_def ADJUST_SIZE_def)
  have l: "length demo_entry < 2 ^ 24" "fits_buffer (length demo_entry)" by (simp_all add: demo_entry_def fits_buffer_def)
  from ldap_results_collected [OF _ _ r(2,1) l r(3), of "Some [111]" "[]", THEN conjunct1]
  show ?thesis unfolding e(2) r(4) by (simp add: e(1)) blast
qed

text \<open>The message is not terminated: a shorter one shows the rest of the one before.\<close>

lemma stale_message:
  "\<exists>lc'. ldap_decode_response (demo_client\<lparr>c_diagnosticMessage := str ''failed'' @ replicate 1018 0\<rparr>) = Some (LDAP_RET_DATA_AVAILABLE, lc') \<and>
     cstr (c_diagnosticMessage lc') = str ''okiled''"
proof -
  let ?lc = "demo_client\<lparr>c_diagnosticMessage := str ''failed'' @ replicate 1018 0\<rparr>"
  let ?e = "enc_response 7 0x65 (enc_result 0 None (Some (str ''ok'')))"
  have e: "?e = [0x30, 14, 0x02, 1, 7, 0x65, 9, 0x0a, 1, 0, 0x04, 0, 0x04, 2, 111, 107]"
    by (simp add: enc_response_def enc_result_def tlv_def len_octets_def INSERT_LENGTH_def or_empty_def
        ber_tid_create_eq id_bytes_def Let_def)
  have r: "response_at ?lc ?e" unfolding response_at_def e by (simp add: demo_client_def)
  have a: "arrays_ok ?lc" "\<not> own_keepalive ?lc 7" by (simp_all add: arrays_ok_def own_keepalive_def demo_client_def)
  have c: "cstr (store_at 0 (str ''ok'') (str ''failed'' @ replicate 1018 0)) = str ''okiled''"
    by (simp add: store_at_def cstr_def)
  show ?thesis using result_message [OF _ refl r _ _ _ a(1)] a(2) c by (simp add: is_char_def demo_client_def)
qed

end
