(* ===== verification/LdapClient.thy ===== *)
theory LdapClient
  imports LinkedList LdapSearch LdapResponse
begin

text \<open>
  The client of libs/stacks/ldap/ldap_client.c: a group of connections to one server with a queue of
  the ready and a queue of the waiting ones, linked through the connections, and a queue of messages
  to send. A connection is the index of its slot in \<open>client_array\<close>; the use of a slot that is \<open>NULL\<close>
  is the use of freed memory, and \<open>None\<close>. What the system answers is a parameter of each operation.
\<close>

section \<open>Data\<close>

record LDAP_KEEPALIVE =
  k_oid :: bytes
  k_dn :: bytes
  k_type :: int
  k_interval :: int

text \<open>
  The links \<open>prev\<close> and \<open>next\<close> of the connections are \<open>d_links\<close>. The queue of messages is the list of
  their bytes.
\<close>

record LDAP_t =
  d_no :: int
  d_group :: bytes
  d_host :: bytes
  d_port :: int
  d_baseDN :: bytes
  d_username :: bytes
  d_password :: bytes
  d_max_client :: int
  d_max_concurrent :: int
  d_max_wbuffer :: int
  d_wait_timeout :: int
  d_connect_timeout :: int
  d_read_timeout :: int
  d_write_timeout :: int
  d_total_response_time :: "64 word"
  d_max_response_time :: "64 word"
  d_avg_response_time :: "64 word"
  d_min_response_time :: "64 word"
  d_client_count :: int
  d_queue_count :: int
  d_sent_count :: int
  d_recv_count :: int
  d_error_count :: int
  d_client_array :: "nat \<Rightarrow> LDAP_CLNT option"
  d_links :: "nat links"
  d_ready_queue :: "nat option"
  d_wait_queue :: "nat option"
  d_send_msg_queue :: "bytes list"
  d_tid :: int
  d_heartbeat :: LDAP_KEEPALIVE

abbreviation LDAP_MAX_CLIENT :: nat where "LDAP_MAX_CLIENT \<equiv> 1024"
abbreviation (input) LDAP_RET_MAX_CONNECTION :: int where "LDAP_RET_MAX_CONNECTION \<equiv> 4"
abbreviation (input) LDAP_RET_ERR_KEEPALIVE :: int where "LDAP_RET_ERR_KEEPALIVE \<equiv> -986"

text \<open>\<open>strncpy\<close> to an array of \<open>cap\<close> bytes that ends with a NUL.\<close>

definition text_of :: "nat \<Rightarrow> bytes option \<Rightarrow> bytes" where
  "text_of cap s = take (cap - 1) (or_empty s)"

text \<open>\<open>rnd\<close> is the random message id.\<close>

definition LDAP_clnt_init ::
    "bool \<Rightarrow> 24 word \<Rightarrow> bytes option \<Rightarrow> bytes option \<Rightarrow> bytes option \<Rightarrow> bytes option \<Rightarrow> bytes option \<Rightarrow>
      int \<Rightarrow> int \<Rightarrow> int \<Rightarrow> int \<Rightarrow> LDAP_t option" where
  "LDAP_clnt_init mem_ok rnd grp dn username password host port wbuffer concurrent max_client =
     (if \<not> mem_ok then None
      else Some \<lparr>d_no = 0, d_group = text_of 128 grp, d_host = text_of 128 host, d_port = port,
        d_baseDN = text_of 512 dn, d_username = text_of 256 username, d_password = text_of 256 password,
        d_max_client = max_client, d_max_concurrent = concurrent, d_max_wbuffer = wbuffer,
        d_wait_timeout = 0, d_connect_timeout = 0, d_read_timeout = 0, d_write_timeout = 0,
        d_total_response_time = 0, d_max_response_time = 0, d_avg_response_time = 0, d_min_response_time = 0,
        d_client_count = 0, d_queue_count = 0, d_sent_count = 0, d_recv_count = 0, d_error_count = 0,
        d_client_array = (\<lambda>_. None), d_links = null_links, d_ready_queue = None, d_wait_queue = None,
        d_send_msg_queue = [], d_tid = uint rnd,
        d_heartbeat = \<lparr>k_oid = [], k_dn = [], k_type = 0, k_interval = 0\<rparr>\<rparr>)"

section \<open>Options\<close>

datatype LDAP_CLNT_OPTION =
    LDAP_CLNT_OPTION_NUMBER | LDAP_CLNT_OPTION_GROUP | LDAP_CLNT_OPTION_HOST | LDAP_CLNT_OPTION_PORT
  | LDAP_CLNT_OPTION_BASEDN | LDAP_CLNT_OPTION_USERNAME | LDAP_CLNT_OPTION_PASSWORD | LDAP_CLNT_OPTION_MAX_CLIENT
  | LDAP_CLNT_OPTION_MAX_CONCURRENT | LDAP_CLNT_OPTION_MAX_WBUFFER | LDAP_CLNT_OPTION_CONNECT_TIMEOUT
  | LDAP_CLNT_OPTION_WAIT_TIMEOUT | LDAP_CLNT_OPTION_READ_TIMEOUT | LDAP_CLNT_OPTION_WRITE_TIMEOUT
  | LDAP_CLNT_OPTION_KEEPALIVE_TYPE | LDAP_CLNT_OPTION_KEEPALIVE_INTERVAL | LDAP_CLNT_OPTION_KEEPALIVE_DN
  | LDAP_CLNT_OPTION_KEEPALIVE_OID | LDAP_CLNT_OPTION_READY | LDAP_CLNT_OPTION_CLIENT_COUNT
  | LDAP_CLNT_OPTION_QUEUE_COUNT | LDAP_CLNT_OPTION_SENT_COUNT | LDAP_CLNT_OPTION_RECV_COUNT
  | LDAP_CLNT_OPTION_ERROR_COUNT | LDAP_CLNT_OPTION_MAX_RESPONSE | LDAP_CLNT_OPTION_MIN_RESPONSE
  | LDAP_CLNT_OPTION_AVG_RESPONSE | LDAP_CLNT_OPTION_RESERVED

text \<open>The value, and the text written to \<open>output\<close> if there is one.\<close>

definition LDAP_clnt_get_option :: "LDAP_t \<Rightarrow> LDAP_CLNT_OPTION \<Rightarrow> bool \<Rightarrow> int \<times> bytes option" where
  "LDAP_clnt_get_option dc opt output =
     (case opt of
        LDAP_CLNT_OPTION_CLIENT_COUNT \<Rightarrow> (d_client_count dc, None)
      | LDAP_CLNT_OPTION_QUEUE_COUNT \<Rightarrow> (d_queue_count dc, None)
      | LDAP_CLNT_OPTION_SENT_COUNT \<Rightarrow> (d_sent_count dc, None)
      | LDAP_CLNT_OPTION_RECV_COUNT \<Rightarrow> (d_recv_count dc, None)
      | LDAP_CLNT_OPTION_ERROR_COUNT \<Rightarrow> (d_error_count dc, None)
      | LDAP_CLNT_OPTION_MAX_CLIENT \<Rightarrow> (d_max_client dc, None)
      | LDAP_CLNT_OPTION_NUMBER \<Rightarrow> (d_no dc, None)
      | LDAP_CLNT_OPTION_GROUP \<Rightarrow> (-1, if output then Some (d_group dc) else None)
      | LDAP_CLNT_OPTION_HOST \<Rightarrow> (-1, if output then Some (d_host dc) else None)
      | LDAP_CLNT_OPTION_PORT \<Rightarrow> (d_port dc, None)
      | LDAP_CLNT_OPTION_READY \<Rightarrow> (if d_ready_queue dc \<noteq> None then 1 else 0, None)
      | LDAP_CLNT_OPTION_MAX_RESPONSE \<Rightarrow> (to_int32 (uint (d_max_response_time dc)), None)
      | LDAP_CLNT_OPTION_MIN_RESPONSE \<Rightarrow> (to_int32 (uint (d_min_response_time dc)), None)
      | LDAP_CLNT_OPTION_AVG_RESPONSE \<Rightarrow> (to_int32 (uint (d_avg_response_time dc)), None)
      | _ \<Rightarrow> (-1, None))"

text \<open>The argument is a number or a text; \<open>va_arg\<close> of another type than was passed is undefined.\<close>

datatype option_arg = IntArg int | TextArg bytes

definition clnt_set_text :: "LDAP_t \<Rightarrow> LDAP_CLNT_OPTION \<Rightarrow> bytes \<Rightarrow> (int \<times> LDAP_t) option" where
  "clnt_set_text dc opt c =
     (let k = d_heartbeat dc in
      case opt of
        LDAP_CLNT_OPTION_GROUP \<Rightarrow> Some (LDAP_RET_OK, dc\<lparr>d_group := text_of 128 (Some c)\<rparr>)
      | LDAP_CLNT_OPTION_HOST \<Rightarrow> Some (LDAP_RET_OK, dc\<lparr>d_host := text_of 128 (Some c)\<rparr>)
      | LDAP_CLNT_OPTION_BASEDN \<Rightarrow> Some (LDAP_RET_OK, dc\<lparr>d_baseDN := text_of 512 (Some c)\<rparr>)
      | LDAP_CLNT_OPTION_USERNAME \<Rightarrow> Some (LDAP_RET_OK, dc\<lparr>d_username := text_of 256 (Some c)\<rparr>)
      | LDAP_CLNT_OPTION_PASSWORD \<Rightarrow> Some (LDAP_RET_OK, dc\<lparr>d_password := text_of 256 (Some c)\<rparr>)
      | LDAP_CLNT_OPTION_KEEPALIVE_DN \<Rightarrow> Some (LDAP_RET_OK, dc\<lparr>d_heartbeat := k\<lparr>k_dn := text_of 1024 (Some c)\<rparr>\<rparr>)
      | LDAP_CLNT_OPTION_KEEPALIVE_OID \<Rightarrow> Some (LDAP_RET_OK, dc\<lparr>d_heartbeat := k\<lparr>k_oid := text_of 1024 (Some c)\<rparr>\<rparr>)
      | _ \<Rightarrow> None)"

definition clnt_set_number :: "LDAP_t \<Rightarrow> LDAP_CLNT_OPTION \<Rightarrow> int \<Rightarrow> (int \<times> LDAP_t) option" where
  "clnt_set_number dc opt n =
     (let k = d_heartbeat dc in
      case opt of
        LDAP_CLNT_OPTION_NUMBER \<Rightarrow> Some (LDAP_RET_OK, dc\<lparr>d_no := n\<rparr>)
      | LDAP_CLNT_OPTION_PORT \<Rightarrow>
          Some (if n > 0xFFFF then (LDAP_RET_ERR_PARAMETER, dc) else (LDAP_RET_OK, dc\<lparr>d_port := n\<rparr>))
      | LDAP_CLNT_OPTION_MAX_CLIENT \<Rightarrow>
          Some (if n > int LDAP_MAX_CLIENT then (LDAP_RET_ERR_PARAMETER, dc) else (LDAP_RET_OK, dc\<lparr>d_max_client := n\<rparr>))
      | LDAP_CLNT_OPTION_MAX_CONCURRENT \<Rightarrow>
          Some (if n > LDAP_MAX_CONCURRENT_REQUEST then (LDAP_RET_ERR_PARAMETER, dc)
            else (LDAP_RET_OK, dc\<lparr>d_max_concurrent := n\<rparr>))
      | LDAP_CLNT_OPTION_MAX_WBUFFER \<Rightarrow> Some (LDAP_RET_OK, dc\<lparr>d_max_wbuffer := n\<rparr>)
      | LDAP_CLNT_OPTION_CONNECT_TIMEOUT \<Rightarrow> Some (LDAP_RET_OK, dc\<lparr>d_connect_timeout := n\<rparr>)
      | LDAP_CLNT_OPTION_WAIT_TIMEOUT \<Rightarrow> Some (LDAP_RET_OK, dc\<lparr>d_wait_timeout := n\<rparr>)
      | LDAP_CLNT_OPTION_READ_TIMEOUT \<Rightarrow> Some (LDAP_RET_OK, dc\<lparr>d_read_timeout := n\<rparr>)
      | LDAP_CLNT_OPTION_WRITE_TIMEOUT \<Rightarrow> Some (LDAP_RET_OK, dc\<lparr>d_write_timeout := n\<rparr>)
      | LDAP_CLNT_OPTION_KEEPALIVE_TYPE \<Rightarrow> Some (LDAP_RET_OK, dc\<lparr>d_heartbeat := k\<lparr>k_type := n\<rparr>\<rparr>)
      | LDAP_CLNT_OPTION_KEEPALIVE_INTERVAL \<Rightarrow> Some (LDAP_RET_OK, dc\<lparr>d_heartbeat := k\<lparr>k_interval := n\<rparr>\<rparr>)
      | LDAP_CLNT_OPTION_SENT_COUNT \<Rightarrow> Some (LDAP_RET_OK, dc\<lparr>d_sent_count := n\<rparr>)
      | LDAP_CLNT_OPTION_RECV_COUNT \<Rightarrow> Some (LDAP_RET_OK, dc\<lparr>d_recv_count := n\<rparr>)
      | LDAP_CLNT_OPTION_ERROR_COUNT \<Rightarrow> Some (LDAP_RET_OK, dc\<lparr>d_error_count := n\<rparr>)
      | LDAP_CLNT_OPTION_MAX_RESPONSE \<Rightarrow> Some (LDAP_RET_OK, dc\<lparr>d_max_response_time := word_of_int n\<rparr>)
      | LDAP_CLNT_OPTION_MIN_RESPONSE \<Rightarrow> Some (LDAP_RET_OK, dc\<lparr>d_min_response_time := word_of_int n\<rparr>)
      | LDAP_CLNT_OPTION_AVG_RESPONSE \<Rightarrow> Some (LDAP_RET_OK, dc\<lparr>d_avg_response_time := word_of_int n\<rparr>)
      | _ \<Rightarrow> None)"

text \<open>The options that are not among those do not look at the argument.\<close>

definition clnt_set_option :: "LDAP_t \<Rightarrow> LDAP_CLNT_OPTION \<Rightarrow> option_arg \<Rightarrow> (int \<times> LDAP_t) option" where
  "clnt_set_option dc opt arg =
     (if opt \<in> {LDAP_CLNT_OPTION_READY, LDAP_CLNT_OPTION_CLIENT_COUNT, LDAP_CLNT_OPTION_QUEUE_COUNT,
          LDAP_CLNT_OPTION_RESERVED} then Some (LDAP_RET_ERR_PARAMETER, dc)
      else case arg of IntArg n \<Rightarrow> clnt_set_number dc opt n | TextArg c \<Rightarrow> clnt_set_text dc opt c)"

section \<open>Connections and queues\<close>

definition clnt_upd :: "nat \<Rightarrow> LDAP_CLNT \<Rightarrow> LDAP_t \<Rightarrow> LDAP_t" where
  "clnt_upd i lc dc = dc\<lparr>d_client_array := (d_client_array dc)(i := Some lc)\<rparr>"

definition remove_ready :: "nat \<Rightarrow> LDAP_t \<Rightarrow> LDAP_t option" where
  "remove_ready i dc = do {
     (q, h) \<leftarrow> LINKEDLIST_REMOVE (d_ready_queue dc) i (d_links dc);
     Some (dc\<lparr>d_ready_queue := q, d_links := h\<rparr>)
   }"

definition append_ready :: "nat \<Rightarrow> LDAP_t \<Rightarrow> LDAP_t option" where
  "append_ready i dc = do {
     (q, h) \<leftarrow> LINKEDLIST_APPEND (d_ready_queue dc) i (d_links dc);
     Some (dc\<lparr>d_ready_queue := q, d_links := h\<rparr>)
   }"

definition remove_wait :: "nat \<Rightarrow> LDAP_t \<Rightarrow> LDAP_t option" where
  "remove_wait i dc = do {
     (q, h) \<leftarrow> LINKEDLIST_REMOVE (d_wait_queue dc) i (d_links dc);
     Some (dc\<lparr>d_wait_queue := q, d_links := h\<rparr>)
   }"

definition append_wait :: "nat \<Rightarrow> LDAP_t \<Rightarrow> LDAP_t option" where
  "append_wait i dc = do {
     (q, h) \<leftarrow> LINKEDLIST_APPEND (d_wait_queue dc) i (d_links dc);
     Some (dc\<lparr>d_wait_queue := q, d_links := h\<rparr>)
   }"

text \<open>A connection as \<open>memset\<close> and the assignments after it leave it.\<close>

definition clnt_fresh :: "nat \<Rightarrow> int \<Rightarrow> int \<Rightarrow> int \<Rightarrow> LDAP_CLNT" where
  "clnt_fresh i sk now port = \<lparr>c_no = int i, c_sock = sk, c_local_port = port, c_state = LDAP_CLNT_STATE_OPEN,
     c_w_buffer = None, c_w_size = 0, c_w_curr = 0, c_r_buffer = None, c_r_len = 0, c_r_ber_body = -1,
     c_r_ber_body_length = -1, c_create_time = now, c_wait_time = 0, c_read_time = 0, c_write_time = 0,
     c_keepalive_time = 0, c_timestamp_read = (0, 0), c_timestamp_write = (0, 0), c_concurrent_count = 0,
     c_tid = 0, c_ktid = 0, c_ber = None, c_rber = None, c_bstring = None, c_result_code = 0,
     c_matchedDN = replicate 512 0, c_diagnosticMessage = replicate 1024 0\<rparr>"

text \<open>
  What the system answers when a connection is opened; \<open>connect_pending\<close> is \<open>EINPROGRESS\<close>. The result:
  return value, the connection stored in \<open>*lc\<close>, client, events on descriptors.
\<close>

record open_env =
  addrinfo_r :: int
  socket_r :: int
  getfl_r :: int
  setfl_r :: int
  connect_r :: int
  connect_pending :: bool
  clnt_mem :: bool
  buffer_mem :: bool
  sockname_port :: int

definition LDAP_clnt_open :: "open_env \<Rightarrow> int \<Rightarrow> LDAP_t \<Rightarrow> (int \<times> nat option \<times> LDAP_t \<times> os_event list) option" where
  "LDAP_clnt_open env now dc =
     (let sk = socket_r env in
      if d_client_count dc \<ge> d_max_client dc then Some (LDAP_RET_MAX_CONNECTION, None, dc, [])
      else if addrinfo_r env \<noteq> 0 then Some (LDAP_RET_ERR_CONNECT, None, dc, [])
      else if sk < 0 then Some (LDAP_RET_ERR_CONNECT, None, dc, [])
      else if getfl_r env < 0 then Some (LDAP_RET_ERR_CONNECT, None, dc, [CloseFd sk])
      else if setfl_r env < 0 then Some (LDAP_RET_ERR_CONNECT, None, dc, [CloseFd sk])
      else if connect_r env \<noteq> 0 \<and> \<not> connect_pending env then Some (LDAP_RET_ERR_CONNECT, None, dc, [CloseFd sk])
      else
        case find (\<lambda>i. d_client_array dc i = None) [0..<LDAP_MAX_CLIENT] of
          None \<Rightarrow> Some (LDAP_RET_ERR_UNAVAILABLE, None, dc, [CloseFd sk])
        | Some i \<Rightarrow>
            if \<not> clnt_mem env then Some (LDAP_RET_ERR_MEMORY, None, dc, [CloseFd sk])
            else
              let ll = clnt_fresh i sk now (sockname_port env);
                  dc = clnt_upd i ll (dc\<lparr>d_links := set_prev i None (set_next i None (d_links dc))\<rparr>)
              in
              if \<not> buffer_mem env then Some (LDAP_RET_ERR_MEMORY, None, dc, [CloseFd sk])
              else do {
                dc \<leftarrow> append_wait i (clnt_upd i (ll\<lparr>c_w_buffer := Some []\<rparr>) dc);
                Some (LDAP_RET_OK, Some i, dc\<lparr>d_client_count := d_client_count dc + 1\<rparr>, [])
              })"

text \<open>The rest of the input is read and thrown away before the socket is closed.\<close>

definition LDAP_clnt_close :: "(int \<Rightarrow> int) \<Rightarrow> int \<Rightarrow> LDAP_t \<Rightarrow> (int \<times> LDAP_t \<times> os_event list) option" where
  "LDAP_clnt_close close_r no dc =
     (let i = nat no in
      if no < 0 \<or> no \<ge> int LDAP_MAX_CLIENT then None
      else
        case d_client_array dc i of
          None \<Rightarrow> Some (LDAP_RET_ERR_UNAVAILABLE, dc, [])
        | Some lc \<Rightarrow> do {
            let dc = dc\<lparr>d_client_array := (d_client_array dc)(i := None)\<rparr>;
            dc \<leftarrow> (if c_state lc = LDAP_CLNT_STATE_READY then remove_ready i dc else remove_wait i dc);
            Some (if close_r (c_sock lc) \<noteq> 0 then LDAP_RET_ERR_CONNECT else LDAP_RET_OK,
              dc\<lparr>d_client_count := d_client_count dc - 1\<rparr>, [Shutdown (c_sock lc), CloseFd (c_sock lc)])
          })"

text \<open>The loop over all slots, from a list of the ones to come.\<close>

fun close_slots :: "(int \<Rightarrow> int) \<Rightarrow> nat list \<Rightarrow> LDAP_t \<Rightarrow> (LDAP_t \<times> os_event list) option" where
  "close_slots close_r [] dc = Some (dc, [])"
| "close_slots close_r (i # is) dc =
     (if d_client_array dc i \<noteq> None then do {
        (_, dc, ev) \<leftarrow> LDAP_clnt_close close_r (int i) dc;
        (dc, ev') \<leftarrow> close_slots close_r is dc;
        Some (dc, ev @ ev')
      }
      else close_slots close_r is dc)"

definition LDAP_clnt_close_all :: "(int \<Rightarrow> int) \<Rightarrow> LDAP_t \<Rightarrow> (LDAP_t \<times> os_event list) option" where
  "LDAP_clnt_close_all close_r dc = close_slots close_r [0..<LDAP_MAX_CLIENT] dc"

section \<open>Reading and writing\<close>

text \<open>The answer to the bind request makes the connection ready.\<close>

definition clnt_connected :: "int \<Rightarrow> nat \<Rightarrow> LDAP_CLNT \<Rightarrow> LDAP_t \<Rightarrow> LDAP_t option" where
  "clnt_connected now i lc dc = do {
     let lc = lc\<lparr>c_write_time := 0, c_keepalive_time := now, c_state := LDAP_CLNT_STATE_READY\<rparr>;
     dc \<leftarrow> remove_wait i (clnt_upd i lc dc);
     append_ready i dc
   }"

definition clnt_read_data :: "read_env \<Rightarrow> int \<Rightarrow> LDAP_CLNT \<Rightarrow> int \<times> LDAP_CLNT" where
  "clnt_read_data env now lc =
     (let lc = (if c_r_buffer lc = None \<and> malloc_mem env \<noteq> None
                then lc\<lparr>c_r_buffer := malloc_mem env, c_r_len := 0\<rparr> else lc)
      in
      case c_r_buffer lc of
        None \<Rightarrow> (LDAP_RET_ERR_MEMORY, lc)
      | Some m \<Rightarrow>
          let n = int (length m) - 1 - c_r_len lc in
          if n \<le> 0 then (LDAP_RET_ERR_MEMORY, lc)
          else
            let (r, bs) = recv_r env n in
            if r < 0 then (LDAP_RET_ERR_CONNECT, lc)
            else if r = 0 then (LDAP_RET_ERR_CONNECT, lc)
            else (LDAP_RET_OK, lc\<lparr>c_r_buffer := Some (store_at (nat (c_r_len lc)) bs m),
                c_r_len := c_r_len lc + r, c_read_time := now\<rparr>))"

definition LDAP_clnt_read :: "read_env \<Rightarrow> int \<Rightarrow> nat \<Rightarrow> LDAP_t \<Rightarrow> (int \<times> LDAP_t) option" where
  "LDAP_clnt_read env now i dc = do {
     lc \<leftarrow> d_client_array dc i;
     if c_state lc = LDAP_CLNT_STATE_OPEN then Some (LDAP_RET_ERR_CONNECT, dc)
     else if c_state lc = LDAP_CLNT_STATE_CONNECTING then
       if so_error env \<noteq> Some 0 then Some (LDAP_RET_ERR_CONNECT, dc)
       else do {
         let (n, buff) = recv_r env 128;
         r \<leftarrow> ldap_recv_bind_resp n buff;
         if r \<noteq> 0 then Some (LDAP_RET_ERR_CONNECT, dc)
         else do { dc \<leftarrow> clnt_connected now i lc dc; Some (LDAP_RET_READY, dc) }
       }
     else
       let (r, lc) = clnt_read_data env now lc in Some (r, clnt_upd i lc dc)
   }"

text \<open>\<open>so_err\<close> is the error of the socket, \<open>None\<close> when \<open>getsockopt\<close> fails. The result has the bytes given to \<open>send\<close>.\<close>

definition LDAP_clnt_write ::
    "int option \<Rightarrow> (bytes \<Rightarrow> int) \<Rightarrow> int \<Rightarrow> nat \<Rightarrow> LDAP_t \<Rightarrow> (int \<times> LDAP_t \<times> bytes) option" where
  "LDAP_clnt_write so_err send now i dc = do {
     lc \<leftarrow> d_client_array dc i;
     if c_state lc = LDAP_CLNT_STATE_OPEN then
       if so_err \<noteq> Some 0 then Some (LDAP_RET_ERR_CONNECT, dc, [])
       else do {
         (r, tid, out) \<leftarrow> ldap_send_bind_rqt send (d_tid dc) (d_username dc) (d_password dc);
         let dc = dc\<lparr>d_tid := tid\<rparr>;
         if r \<noteq> 0 then Some (LDAP_RET_ERR_CONNECT, dc, out)
         else Some (LDAP_RET_OK, clnt_upd i (lc\<lparr>c_write_time := now, c_state := LDAP_CLNT_STATE_CONNECTING\<rparr>) dc, out)
       }
     else if c_state lc = LDAP_CLNT_STATE_CONNECTING then Some (LDAP_RET_OK, dc, [])
     else
       case c_w_buffer lc of
         None \<Rightarrow> Some (LDAP_RET_OK, dc, [])
       | Some w \<Rightarrow>
           if w = [] then Some (LDAP_RET_OK, dc, [])
           else do {
             let n = int (length w) - c_w_curr lc;
             let n = (if d_max_wbuffer dc > 0 \<and> n > d_max_wbuffer dc then d_max_wbuffer dc else n);
             if c_w_curr lc < 0 \<or> n < 0 then None
             else do {
               let bs = take (nat n) (drop (nat (c_w_curr lc)) w);
               let r = send bs;
               if r < 0 then Some (LDAP_RET_ERR_SEND, dc, bs)
               else do {
                 let lc = lc\<lparr>c_w_curr := c_w_curr lc + r\<rparr>;
                 if c_w_curr lc < int (length w) then
                   Some (LDAP_RET_OK, clnt_upd i (lc\<lparr>c_write_time := now\<rparr>) dc, bs)
                 else do {
                   sent \<leftarrow> int_add (d_sent_count dc) 1;
                   Some (LDAP_RET_SENT, (clnt_upd i (lc\<lparr>c_w_curr := 0, c_w_buffer := Some [], c_write_time := 0,
                     c_keepalive_time := now\<rparr>) dc)\<lparr>d_sent_count := sent\<rparr>, bs)
                 }
               }
             }
           }
   }"

text \<open>
  A message put behind what a connection has to write, as all three of its places in the code do it;
  \<open>mem_ok\<close> tells whether the buffer can grow. The inner \<open>None\<close> is a memory error.
\<close>

definition put_message :: "bool \<Rightarrow> int \<Rightarrow> bytes \<Rightarrow> LDAP_CLNT \<Rightarrow> LDAP_CLNT option option" where
  "put_message mem_ok now ber lc =
     (case c_w_buffer lc of
        None \<Rightarrow> Some None
      | Some w \<Rightarrow> do {
          len \<leftarrow> int_add (int (length w)) (int (length ber));
          let grow = (len > c_w_size lc);
          if grow \<and> \<not> mem_ok then Some None
          else
            let lc = (if grow then lc\<lparr>c_w_size := ADJUST_SIZE len LDAP_WRITE_BUFFER\<rparr> else lc) in
            Some (Some (lc\<lparr>c_w_buffer := Some (w @ ber), c_write_time := now\<rparr>))
        })"

text \<open>The answers to the turns of the loop that hands out messages, numbered.\<close>

record send_env =
  grow_ok :: "nat \<Rightarrow> bool"
  fd_set_write :: "(nat \<Rightarrow> int) option"
  time_now :: int
  time_of_day :: "int \<times> int"

definition write_callback_fails :: "send_env \<Rightarrow> nat \<Rightarrow> bool" where
  "write_callback_fails env k \<longleftrightarrow> (case fd_set_write env of Some f \<Rightarrow> f k \<noteq> 0 | None \<Rightarrow> False)"

text \<open>The connection that got a message goes to the back of its queue, or waits when it has enough.\<close>

definition requeue :: "nat \<Rightarrow> LDAP_CLNT \<Rightarrow> LDAP_t \<Rightarrow> LDAP_t option" where
  "requeue i lc dc =
     (if c_concurrent_count lc \<ge> d_max_concurrent dc then do {
        dc \<leftarrow> remove_ready i (clnt_upd i (lc\<lparr>c_state := LDAP_CLNT_STATE_WAITING\<rparr>) dc);
        append_wait i dc
      }
      else do {
        dc \<leftarrow> remove_ready i (clnt_upd i lc dc);
        append_ready i dc
      })"

text \<open>The loop \<open>while ((lc = dc->ready_queue) != NULL && (ber = dc->send_msg_queue) != NULL)\<close>.\<close>

function flush :: "send_env \<Rightarrow> nat \<Rightarrow> LDAP_t \<Rightarrow> (int \<times> LDAP_t) option" where
  "flush env k dc =
     (case (d_ready_queue dc, d_send_msg_queue dc) of
        (Some i, ber # q) \<Rightarrow> do {
          lc \<leftarrow> d_client_array dc i;
          r \<leftarrow> put_message (grow_ok env k) (time_now env) ber lc;
          case r of
            None \<Rightarrow> Some (LDAP_RET_ERR_MEMORY, dc)
          | Some lc \<Rightarrow> do {
              n \<leftarrow> int_add (c_concurrent_count lc) 1;
              dc \<leftarrow> requeue i (lc\<lparr>c_timestamp_write := time_of_day env, c_concurrent_count := n\<rparr>) dc;
              let dc = dc\<lparr>d_send_msg_queue := q, d_queue_count := d_queue_count dc - 1\<rparr>;
              if write_callback_fails env k then Some (LDAP_RET_ERR_SEND, dc) else flush env (k + 1) dc
            }
        }
      | _ \<Rightarrow> Some (LDAP_RET_OK, dc))"
  by pat_completeness auto
termination by (relation "measure (\<lambda>(env, k, dc). length (d_send_msg_queue dc))") (auto dest!: sym [of "_ # _"])

declare flush.simps [simp del]

definition send_direct :: "send_env \<Rightarrow> bytes \<Rightarrow> nat \<Rightarrow> LDAP_t \<Rightarrow> (int \<times> LDAP_t) option" where
  "send_direct env ber i dc = do {
     lc \<leftarrow> d_client_array dc i;
     r \<leftarrow> put_message (grow_ok env 0) (time_now env) ber lc;
     case r of
       None \<Rightarrow> Some (LDAP_RET_ERR_MEMORY, dc)
     | Some lc \<Rightarrow> do {
         n \<leftarrow> int_add (c_concurrent_count lc) 1;
         let dc = clnt_upd i (lc\<lparr>c_concurrent_count := n\<rparr>) dc;
         Some (if write_callback_fails env 0 then LDAP_RET_ERR_SEND else LDAP_RET_OK, dc)
       }
   }"

definition LDAP_clnt_send_message ::
    "send_env \<Rightarrow> nat option \<Rightarrow> bytes option \<Rightarrow> LDAP_t \<Rightarrow> (int \<times> LDAP_t) option" where
  "LDAP_clnt_send_message env lc ber dc = do {
     (r, dc) \<leftarrow> (case (lc, ber) of
        (Some i, Some b) \<Rightarrow> send_direct env b i dc
      | (None, Some b) \<Rightarrow> do {
          n \<leftarrow> int_add (d_queue_count dc) 1;
          Some (LDAP_RET_OK, dc\<lparr>d_send_msg_queue := d_send_msg_queue dc @ [b], d_queue_count := n\<rparr>)
        }
      | _ \<Rightarrow> Some (LDAP_RET_OK, dc));
     if r \<noteq> LDAP_RET_OK then Some (r, dc) else flush env 1 dc
   }"

section \<open>Keeping connections alive\<close>

text \<open>\<open>ldap_send_keepalive_rqt\<close> of ldap_common.c; a message that is not counted as sent.\<close>

definition ldap_send_keepalive_rqt ::
    "bool \<Rightarrow> int option \<Rightarrow> (bytes \<Rightarrow> int) \<Rightarrow> int \<Rightarrow> nat \<Rightarrow> bytes \<Rightarrow> LDAP_t \<Rightarrow> (int \<times> LDAP_t \<times> bytes) option" where
  "ldap_send_keepalive_rqt mem_ok so_err send now i ber dc = do {
     lc \<leftarrow> d_client_array dc i;
     r \<leftarrow> put_message mem_ok now ber lc;
     case r of
       None \<Rightarrow> Some (LDAP_RET_ERR_MEMORY, dc, [])
     | Some lc \<Rightarrow> do {
         (r, dc, out) \<leftarrow> LDAP_clnt_write so_err send now i (clnt_upd i lc dc);
         if r \<noteq> LDAP_RET_SENT then Some (LDAP_RET_ERR_SEND, dc, out)
         else Some (LDAP_RET_OK, dc\<lparr>d_sent_count := d_sent_count dc - 1\<rparr>, out)
       }
   }"

text \<open>The answers to the calls for each slot; \<open>ka_usable\<close> is the allocator for the search request.\<close>

record keepalive_env =
  ka_usable :: "nat \<Rightarrow> nat"
  ka_mem :: "nat \<Rightarrow> bool"
  ka_so_error :: "nat \<Rightarrow> int option"
  ka_send :: "nat \<Rightarrow> bytes \<Rightarrow> int"
  ka_close :: "int \<Rightarrow> int"

text \<open>The message of the heartbeat with its id, if its type has one.\<close>

definition keepalive_message :: "(nat \<Rightarrow> nat) \<Rightarrow> LDAP_t \<Rightarrow> (int \<times> BER) option option" where
  "keepalive_message usable dc =
     (if k_type (d_heartbeat dc) = 1 then
        map_option Some (LDAP_gen_search_request usable None (d_tid dc) (k_dn (d_heartbeat dc))
          (str ''base'') (str ''*'') [] 3 [])
      else if k_type (d_heartbeat dc) = 2 then
        map_option Some (LDAP_gen_extended_request None (d_tid dc) (k_oid (d_heartbeat dc)) None 0 [])
      else Some None)"

definition keepalive_due :: "int \<Rightarrow> LDAP_t \<Rightarrow> LDAP_CLNT \<Rightarrow> bool" where
  "keepalive_due ct dc lc =
     (let ht = (if c_write_time lc = 0 \<and> c_read_time lc = 0 then c_keepalive_time lc else 0)
      in ht > 0 \<and> ct - ht \<ge> k_interval (d_heartbeat dc))"

text \<open>One turn of the loop: a value to return if there is one, and what was sent and closed.\<close>

definition keep_slot ::
    "keepalive_env \<Rightarrow> int \<Rightarrow> nat \<Rightarrow> LDAP_t \<Rightarrow> (int option \<times> LDAP_t \<times> bytes \<times> os_event list) option" where
  "keep_slot env now i dc =
     (case d_client_array dc i of
        None \<Rightarrow> Some (None, dc, [], [])
      | Some lc \<Rightarrow>
          if keepalive_due now dc lc then do {
            msg \<leftarrow> keepalive_message (ka_usable env) dc;
            case msg of
              None \<Rightarrow> Some (None, dc, [], [])
            | Some (tid, ber) \<Rightarrow> do {
                let dc = clnt_upd i (lc\<lparr>c_ktid := tid\<rparr>) (dc\<lparr>d_tid := tid\<rparr>);
                (r, dc, out) \<leftarrow> (if tid = 0 then Some (LDAP_RET_ERR_KEEPALIVE, dc, [])
                  else ldap_send_keepalive_rqt (ka_mem env i) (ka_so_error env i) (ka_send env i) now i (b_data ber) dc);
                if r \<noteq> LDAP_RET_OK then do {
                  (_, dc, ev) \<leftarrow> LDAP_clnt_close (ka_close env) (c_no lc) dc;
                  Some (Some LDAP_RET_ERR_KEEPALIVE, dc, out, ev)
                }
                else Some (None, dc, out, [])
              }
          }
          else Some (None, dc, [], []))"

fun keep_slots ::
    "keepalive_env \<Rightarrow> int \<Rightarrow> nat list \<Rightarrow> LDAP_t \<Rightarrow> (int \<times> LDAP_t \<times> (nat \<times> bytes) list \<times> os_event list) option" where
  "keep_slots env now [] dc = Some (LDAP_RET_OK, dc, [], [])"
| "keep_slots env now (i # is) dc = do {
     (r, dc, out, ev) \<leftarrow> keep_slot env now i dc;
     case r of
       Some r \<Rightarrow> Some (r, dc, [(i, out)], ev)
     | None \<Rightarrow> do {
         (r, dc, outs, ev') \<leftarrow> keep_slots env now is dc;
         Some (r, dc, (i, out) # outs, ev @ ev')
       }
   }"

definition LDAP_clnt_keep_alive ::
    "keepalive_env \<Rightarrow> int \<Rightarrow> LDAP_t \<Rightarrow> (int \<times> LDAP_t \<times> (nat \<times> bytes) list \<times> os_event list) option" where
  "LDAP_clnt_keep_alive env now dc = keep_slots env now [0..<LDAP_MAX_CLIENT] dc"

section \<open>Timeouts\<close>

definition clnt_timed_out :: "int \<Rightarrow> LDAP_t \<Rightarrow> LDAP_CLNT \<Rightarrow> bool" where
  "clnt_timed_out ct dc lc \<longleftrightarrow>
     c_read_time lc > 0 \<and> d_read_timeout dc > 0 \<and> ct - c_read_time lc \<ge> d_read_timeout dc \<or>
     c_write_time lc > 0 \<and> d_write_timeout dc > 0 \<and> ct - c_write_time lc \<ge> d_write_timeout dc \<or>
     c_state lc = LDAP_CLNT_STATE_CONNECTING \<and> d_connect_timeout dc > 0 \<and> ct - c_create_time lc \<ge> d_connect_timeout dc"

fun check_slots :: "(int \<Rightarrow> int) \<Rightarrow> int \<Rightarrow> nat list \<Rightarrow> LDAP_t \<Rightarrow> (LDAP_t \<times> os_event list) option" where
  "check_slots close_r ct [] dc = Some (dc, [])"
| "check_slots close_r ct (i # is) dc =
     (case d_client_array dc i of
        Some lc \<Rightarrow>
          if clnt_timed_out ct dc lc then do {
            (_, dc, ev) \<leftarrow> LDAP_clnt_close close_r (c_no lc) dc;
            (dc, ev') \<leftarrow> check_slots close_r ct is dc;
            Some (dc, ev @ ev')
          }
          else check_slots close_r ct is dc
      | None \<Rightarrow> check_slots close_r ct is dc)"

definition LDAP_clnt_check_connection :: "(int \<Rightarrow> int) \<Rightarrow> int \<Rightarrow> LDAP_t \<Rightarrow> (int \<times> LDAP_t \<times> os_event list) option" where
  "LDAP_clnt_check_connection close_r ct dc = do {
     (dc, ev) \<leftarrow> check_slots close_r ct [0..<LDAP_MAX_CLIENT] dc;
     Some (LDAP_RET_OK, dc, ev)
   }"

section \<open>Decoding\<close>

text \<open>The frame of the next response, as \<open>frame\<close> of the server.\<close>

definition clnt_frame :: "bytes \<Rightarrow> LDAP_CLNT \<Rightarrow> (int \<times> int) option" where
  "clnt_frame m lc =
     (if c_r_ber_body lc < 0 then do {
        b \<leftarrow> find_sequence m;
        if c_r_ber_body_length lc < 0 then do {
          (pp, j) \<leftarrow> FIND_LENGTH m (b + 1);
          len \<leftarrow> int_add (int (j - b)) pp;
          Some (int b, len)
        }
        else Some (int b, c_r_ber_body_length lc)
      }
      else if c_r_ber_body_length lc < 0 then None
      else Some (c_r_ber_body lc, c_r_ber_body_length lc))"

text \<open>
  The rest of a pass: a response that is not complete waits; a complete one is decoded, given a text
  for its code when it has no message, and the bytes behind it move to the front.
\<close>

definition take_response :: "int \<Rightarrow> bytes \<Rightarrow> int \<Rightarrow> int \<Rightarrow> LDAP_CLNT \<Rightarrow> ((int + int) \<times> LDAP_CLNT) option" where
  "take_response now m body len lc =
     (let lc = lc\<lparr>c_r_buffer := Some m\<rparr> in
      if body + len > c_r_len lc then Some (Inl LDAP_RET_OK, lc)
      else do {
        let lc = lc\<lparr>c_result_code := -1, c_matchedDN := (c_matchedDN lc)[0 := 0],
          c_diagnosticMessage := (c_diagnosticMessage lc)[0 := 0]\<rparr>;
        (ret, lc) \<leftarrow> ldap_decode_response lc;
        c \<leftarrow> at (c_diagnosticMessage lc) 0;
        let lc = (if c_result_code lc \<noteq> 0 \<and> c = 0
          then lc\<lparr>c_diagnosticMessage := store_at 0 (error_to_string (c_result_code lc) @ [0]) (c_diagnosticMessage lc)\<rparr>
          else lc);
        let n = c_r_len lc - (body + len);
        let lc = (if n > 0 then
             lc\<lparr>c_r_buffer := Some (store_at 0 (take (nat n) (drop (nat (body + len)) m)) m), c_r_len := n\<rparr>
           else lc\<lparr>c_r_len := 0, c_read_time := 0, c_keepalive_time := now\<rparr>);
        Some (Inr ret, lc\<lparr>c_r_ber_body := -1, c_r_ber_body_length := -1\<rparr>)
      })"

text \<open>
  One pass of the loop: \<open>Inl\<close> a return value, \<open>Inr (Some ret)\<close> the value of \<open>ret\<close>, \<open>Inr None\<close> a \<open>break\<close>.
  \<open>extra n\<close> is the memory that \<open>realloc\<close> adds when the buffer grows by \<open>n\<close> bytes.
\<close>

definition response_pass ::
    "(nat \<Rightarrow> bytes option) \<Rightarrow> int \<Rightarrow> LDAP_CLNT \<Rightarrow> ((int + int option) \<times> LDAP_CLNT) option" where
  "response_pass extra now lc =
     (case c_r_buffer lc of
        None \<Rightarrow> Some (Inr None, lc)
      | Some m \<Rightarrow>
          if c_r_len lc < 5 then Some (Inr None, lc)
          else do {
            (body, len) \<leftarrow> clnt_frame m lc;
            let lc = lc\<lparr>c_r_ber_body := body, c_r_ber_body_length := len\<rparr>;
            total \<leftarrow> int_add body len;
            n \<leftarrow> int_add total 1;
            case (if n > int (length m) then map_option (\<lambda>x. m @ x) (extra (nat n - length m)) else Some m) of
              None \<Rightarrow> Some (Inl LDAP_RET_ERR_MEMORY, lc)
            | Some m \<Rightarrow> do {
                (r, lc) \<leftarrow> take_response now m body len lc;
                Some (case r of Inl r \<Rightarrow> Inl r | Inr ret \<Rightarrow> Inr (Some ret), lc)
              }
          })"

text \<open>The loop \<open>do ... while (ret == LDAP_RET_WAIT_MORE_DATA)\<close>; \<open>ret\<close> is its value so far.\<close>

partial_function (option) decode_loop ::
    "(nat \<Rightarrow> bytes option) \<Rightarrow> int \<Rightarrow> int \<Rightarrow> LDAP_CLNT \<Rightarrow> ((int + int) \<times> LDAP_CLNT) option" where
  "decode_loop extra now ret lc = do {
     (r, lc) \<leftarrow> response_pass extra now lc;
     case r of
       Inl r \<Rightarrow> Some (Inl r, lc)
     | Inr None \<Rightarrow> Some (Inr ret, lc)
     | Inr (Some ret) \<Rightarrow>
         if ret = LDAP_RET_WAIT_MORE_DATA then decode_loop extra now ret lc else Some (Inr ret, lc)
   }"

text \<open>The response times since the last message was handed out, in microseconds.\<close>

definition clnt_response_times :: "int \<times> int \<Rightarrow> LDAP_CLNT \<Rightarrow> LDAP_t \<Rightarrow> LDAP_t \<times> LDAP_CLNT" where
  "clnt_response_times tv lc dc =
     (let ((sec, usec), y, _) = timeval_subtract tv (c_timestamp_write lc);
          lc = lc\<lparr>c_timestamp_write := y\<rparr>;
          t = word_of_int (sec * 1000000 + usec);
          dc = dc\<lparr>d_total_response_time := d_total_response_time dc + t\<rparr>;
          dc = dc\<lparr>d_max_response_time := (if t > d_max_response_time dc then t else d_max_response_time dc)\<rparr>;
          dc = dc\<lparr>d_min_response_time :=
            (if d_recv_count dc > 1 then (if t < d_min_response_time dc then t else d_min_response_time dc) else t)\<rparr>;
          dc = dc\<lparr>d_avg_response_time :=
            (if d_recv_count dc > 0 then d_total_response_time dc div word_of_int (d_recv_count dc) else 0)\<rparr>
      in (dc, lc))"

text \<open>The walk along the waiting queue from \<open>ka\<close>, at \<open>kb\<close>, in search of \<open>i\<close>.\<close>

partial_function (option) in_ring :: "nat links \<Rightarrow> nat \<Rightarrow> nat \<Rightarrow> nat \<Rightarrow> bool option" where
  "in_ring h i ka kb =
     (if i = kb then Some True
      else do { n \<leftarrow> nexT h kb; if n = ka then Some False else in_ring h i ka n })"

definition decoded_available :: "int \<times> int \<Rightarrow> nat \<Rightarrow> LDAP_CLNT \<Rightarrow> LDAP_t \<Rightarrow> (int \<times> LDAP_t) option" where
  "decoded_available tv i lc dc =
     (if c_concurrent_count lc > 0 then do {
        let lc = lc\<lparr>c_concurrent_count := c_concurrent_count lc - 1\<rparr>;
        let wake = (c_state lc = LDAP_CLNT_STATE_WAITING \<and> c_concurrent_count lc < d_max_concurrent dc);
        let lc = (if wake then lc\<lparr>c_state := LDAP_CLNT_STATE_READY\<rparr> else lc);
        dc \<leftarrow> (if wake then do { dc \<leftarrow> remove_wait i dc; append_ready i dc } else Some dc);
        n \<leftarrow> int_add (d_recv_count dc) 1;
        let (dc, lc) = clnt_response_times tv lc (dc\<lparr>d_recv_count := n\<rparr>);
        Some (LDAP_RET_DATA_AVAILABLE, clnt_upd i lc dc)
      }
      else Some (LDAP_RET_ERR_UNEXPECTED_RECEIVE, clnt_upd i lc dc))"

definition decoded_keepalive :: "nat \<Rightarrow> LDAP_CLNT \<Rightarrow> LDAP_t \<Rightarrow> (int \<times> LDAP_t) option" where
  "decoded_keepalive i lc dc = do {
     found \<leftarrow> (case d_wait_queue dc of None \<Rightarrow> Some False | Some ka \<Rightarrow> in_ring (d_links dc) i ka ka);
     if found then do {
       dc \<leftarrow> remove_wait i (clnt_upd i (lc\<lparr>c_w_buffer := map_option (\<lambda>_. []) (c_w_buffer lc), c_w_curr := 0\<rparr>) dc);
       dc \<leftarrow> append_ready i dc;
       Some (LDAP_RET_KEEPALIVE, dc)
     }
     else Some (LDAP_RET_KEEPALIVE, clnt_upd i lc dc)
   }"

definition LDAP_clnt_decode ::
    "(nat \<Rightarrow> bytes option) \<Rightarrow> int \<Rightarrow> int \<times> int \<Rightarrow> nat \<Rightarrow> LDAP_t \<Rightarrow> (int \<times> LDAP_t) option" where
  "LDAP_clnt_decode extra now tv i dc = do {
     lc \<leftarrow> d_client_array dc i;
     (r, lc) \<leftarrow> decode_loop extra now LDAP_RET_OK lc;
     case r of
       Inl ret \<Rightarrow> Some (ret, clnt_upd i lc dc)
     | Inr ret \<Rightarrow>
         if ret = LDAP_RET_DATA_AVAILABLE then decoded_available tv i lc dc
         else if ret = LDAP_RET_KEEPALIVE then decoded_keepalive i lc dc
         else Some (ret, clnt_upd i lc dc)
   }"

definition LDAP_clnt_string_free :: "nat \<Rightarrow> LDAP_t \<Rightarrow> (int \<times> LDAP_t) option" where
  "LDAP_clnt_string_free i dc = do {
     lc \<leftarrow> d_client_array dc i;
     Some (LDAP_RET_OK, clnt_upd i (lc\<lparr>c_bstring := None\<rparr>) dc)
   }"

end
