(* ===== verification/LdapClientState.thy ===== *)
theory LdapClientState
  imports LdapClient LdapState
begin

text \<open>
  The client as a state: the invariant that every connection is in exactly the queue of its state,
  what moving a connection between the queues does to it, and the loop that hands out messages.
\<close>

section \<open>Two queues of connections\<close>

text \<open>The queues are rings, of the ready connections and of the others.\<close>

definition ready :: "(nat \<Rightarrow> LDAP_CLNT option) \<Rightarrow> nat set" where
  "ready A = {i. \<exists>lc. A i = Some lc \<and> c_state lc = LDAP_CLNT_STATE_READY}"

definition waiting :: "(nat \<Rightarrow> LDAP_CLNT option) \<Rightarrow> nat set" where
  "waiting A = {i. \<exists>lc. A i = Some lc \<and> c_state lc \<noteq> LDAP_CLNT_STATE_READY}"

definition queued :: "(nat \<Rightarrow> LDAP_CLNT option) \<Rightarrow> LDAP_t \<Rightarrow> nat list \<Rightarrow> nat list \<Rightarrow> bool" where
  "queued A dc rs ws \<longleftrightarrow> ring (d_links dc) (d_ready_queue dc) rs \<and> ring (d_links dc) (d_wait_queue dc) ws \<and>
     set rs = ready A \<and> set ws = waiting A"

lemma ready_waiting: "ready A \<inter> waiting A = {}"
  by (auto simp: ready_def waiting_def)

lemma ready_upd: "ready (A(i := x)) = (if \<exists>lc. x = Some lc \<and> c_state lc = LDAP_CLNT_STATE_READY then insert i (ready A) else ready A - {i})"
  by (auto simp: ready_def)

lemma waiting_upd: "waiting (A(i := x)) = (if \<exists>lc. x = Some lc \<and> c_state lc \<noteq> LDAP_CLNT_STATE_READY then insert i (waiting A) else waiting A - {i})"
  by (auto simp: waiting_def)

text \<open>Only the links and the entries to the queues change.\<close>

definition links_only :: "LDAP_t \<Rightarrow> LDAP_t \<Rightarrow> bool" where
  "links_only dc dc' \<longleftrightarrow> (\<exists>r w h. dc' = dc\<lparr>d_ready_queue := r, d_wait_queue := w, d_links := h\<rparr>)"

lemma links_only_upd: "links_only dc (dc\<lparr>d_ready_queue := r, d_wait_queue := w, d_links := h\<rparr>)"
  by (auto simp: links_only_def)

text \<open>A connection that becomes ready, one that has enough, and one that keeps its state.\<close>

lemma make_ready:
  assumes q: "queued A dc rs ws" and i: "A i = Some lc" "c_state lc \<noteq> LDAP_CLNT_STATE_READY"
    "c_state lc' = LDAP_CLNT_STATE_READY"
  shows "\<exists>dc1 dc'. remove_wait i dc = Some dc1 \<and> append_ready i dc1 = Some dc' \<and> links_only dc dc' \<and>
    queued (A(i := Some lc')) dc' (rs @ [i]) (remove1 i ws)"
proof -
  have w: "i \<in> set ws" "set ws \<inter> set rs = {}" using q i ready_waiting by (auto simp: queued_def waiting_def)
  obtain w' h1 r' h' where m: "LINKEDLIST_REMOVE (d_wait_queue dc) i (d_links dc) = Some (w', h1)"
    "LINKEDLIST_APPEND (d_ready_queue dc) i h1 = Some (r', h')" "ring h' w' (remove1 i ws)" "ring h' r' (rs @ [i])"
    using rq.move [of "d_links dc" "d_wait_queue dc" ws "d_ready_queue dc" rs i] q w by (auto simp: queued_def)
  have d: "distinct ws" using q by (auto simp: queued_def dest: ring_distinct)
  let ?dc' = "dc\<lparr>d_ready_queue := r', d_wait_queue := w', d_links := h'\<rparr>"
  have "remove_wait i dc = Some (dc\<lparr>d_wait_queue := w', d_links := h1\<rparr>)"
    "append_ready i (dc\<lparr>d_wait_queue := w', d_links := h1\<rparr>) = Some ?dc'"
    using m(1,2) by (simp_all add: remove_wait_def append_ready_def)
  moreover have "queued (A(i := Some lc')) ?dc' (rs @ [i]) (remove1 i ws)"
    using m(3,4) q i(3) d by (auto simp: queued_def ready_upd waiting_upd)
  ultimately show ?thesis using links_only_upd by blast
qed

lemma make_waiting:
  assumes q: "queued A dc rs ws" and i: "A i = Some lc" "c_state lc = LDAP_CLNT_STATE_READY"
    "c_state lc' \<noteq> LDAP_CLNT_STATE_READY"
  shows "\<exists>dc1 dc'. remove_ready i dc = Some dc1 \<and> append_wait i dc1 = Some dc' \<and> links_only dc dc' \<and>
    queued (A(i := Some lc')) dc' (remove1 i rs) (ws @ [i])"
proof -
  have w: "i \<in> set rs" "set rs \<inter> set ws = {}" using q i ready_waiting by (auto simp: queued_def ready_def)
  obtain w' h1 r' h' where m: "LINKEDLIST_REMOVE (d_ready_queue dc) i (d_links dc) = Some (r', h1)"
    "LINKEDLIST_APPEND (d_wait_queue dc) i h1 = Some (w', h')" "ring h' r' (remove1 i rs)" "ring h' w' (ws @ [i])"
    using rq.move [of "d_links dc" "d_ready_queue dc" rs "d_wait_queue dc" ws i] q w by (auto simp: queued_def)
  have d: "distinct rs" using q by (auto simp: queued_def dest: ring_distinct)
  let ?dc' = "dc\<lparr>d_ready_queue := r', d_wait_queue := w', d_links := h'\<rparr>"
  have "remove_ready i dc = Some (dc\<lparr>d_ready_queue := r', d_links := h1\<rparr>)"
    "append_wait i (dc\<lparr>d_ready_queue := r', d_links := h1\<rparr>) = Some ?dc'"
    using m(1,2) by (simp_all add: remove_ready_def append_wait_def)
  moreover have "queued (A(i := Some lc')) ?dc' (remove1 i rs) (ws @ [i])"
    using m(3,4) q i(3) d by (auto simp: queued_def ready_upd waiting_upd)
  ultimately show ?thesis using links_only_upd by blast
qed

lemma stay_ready:
  assumes q: "queued A dc rs ws" and i: "A i = Some lc" "c_state lc = LDAP_CLNT_STATE_READY"
    "c_state lc' = LDAP_CLNT_STATE_READY"
  shows "\<exists>dc1 dc'. remove_ready i dc = Some dc1 \<and> append_ready i dc1 = Some dc' \<and> links_only dc dc' \<and>
    queued (A(i := Some lc')) dc' (remove1 i rs @ [i]) ws"
proof -
  have w: "i \<in> set rs" "set rs \<inter> set ws = {}" using q i ready_waiting by (auto simp: queued_def ready_def)
  obtain r' h1 where m: "LINKEDLIST_REMOVE (d_ready_queue dc) i (d_links dc) = Some (r', h1)"
    "ring h1 r' (remove1 i rs)" "ring h1 (d_wait_queue dc) ws"
    using rq.remove_other [of "d_links dc" "d_ready_queue dc" rs "d_wait_queue dc" ws i] q w by (auto simp: queued_def)
  have d: "distinct rs" using q by (auto simp: queued_def dest: ring_distinct)
  then have "i \<notin> set (remove1 i rs)" by simp
  then obtain r'' h' where a: "LINKEDLIST_APPEND r' i h1 = Some (r'', h')" "ring h' r'' (remove1 i rs @ [i])"
    "same_off (insert i (set (remove1 i rs))) h1 h'"
    using rq.append_law [OF m(2)] by blast
  have "set ws \<inter> insert i (set (remove1 i rs)) = {}" using w d by auto
  then have w': "ring h' (d_wait_queue dc) ws" by (rule rq.rep_frame [OF m(3) a(3)])
  let ?dc' = "dc\<lparr>d_ready_queue := r'', d_wait_queue := d_wait_queue dc, d_links := h'\<rparr>"
  have "remove_ready i dc = Some (dc\<lparr>d_ready_queue := r', d_links := h1\<rparr>)"
    "append_ready i (dc\<lparr>d_ready_queue := r', d_links := h1\<rparr>) = Some ?dc'"
    using m(1) a(1) by (simp_all add: remove_ready_def append_ready_def)
  moreover have "queued (A(i := Some lc')) ?dc' (remove1 i rs @ [i]) ws"
    using a(2) w' q i d by (auto simp: queued_def ready_upd waiting_upd ready_def waiting_def)
  ultimately show ?thesis using links_only_upd by blast
qed

text \<open>A connection that leaves, and one that is new.\<close>

lemma leave_ready:
  assumes q: "queued A dc rs ws" and i: "A i = Some lc" "c_state lc = LDAP_CLNT_STATE_READY"
  shows "\<exists>dc'. remove_ready i dc = Some dc' \<and> links_only dc dc' \<and> queued (A(i := None)) dc' (remove1 i rs) ws"
proof -
  have w: "i \<in> set rs" "set rs \<inter> set ws = {}" using q i ready_waiting by (auto simp: queued_def ready_def)
  obtain r' h' where m: "LINKEDLIST_REMOVE (d_ready_queue dc) i (d_links dc) = Some (r', h')"
    "ring h' r' (remove1 i rs)" "ring h' (d_wait_queue dc) ws"
    using rq.remove_other [of "d_links dc" "d_ready_queue dc" rs "d_wait_queue dc" ws i] q w by (auto simp: queued_def)
  have d: "distinct rs" using q by (auto simp: queued_def dest: ring_distinct)
  have "remove_ready i dc = Some (dc\<lparr>d_ready_queue := r', d_wait_queue := d_wait_queue dc, d_links := h'\<rparr>)"
    using m(1) by (simp add: remove_ready_def)
  moreover have "queued (A(i := None)) (dc\<lparr>d_ready_queue := r', d_wait_queue := d_wait_queue dc, d_links := h'\<rparr>) (remove1 i rs) ws"
    using m(2,3) q i d by (auto simp: queued_def ready_upd waiting_upd waiting_def)
  ultimately show ?thesis using links_only_upd by blast
qed

lemma leave_waiting:
  assumes q: "queued A dc rs ws" and i: "A i = Some lc" "c_state lc \<noteq> LDAP_CLNT_STATE_READY"
  shows "\<exists>dc'. remove_wait i dc = Some dc' \<and> links_only dc dc' \<and> queued (A(i := None)) dc' rs (remove1 i ws)"
proof -
  have w: "i \<in> set ws" "set ws \<inter> set rs = {}" using q i ready_waiting by (auto simp: queued_def waiting_def)
  obtain w' h' where m: "LINKEDLIST_REMOVE (d_wait_queue dc) i (d_links dc) = Some (w', h')"
    "ring h' w' (remove1 i ws)" "ring h' (d_ready_queue dc) rs"
    using rq.remove_other [of "d_links dc" "d_wait_queue dc" ws "d_ready_queue dc" rs i] q w by (auto simp: queued_def)
  have d: "distinct ws" using q by (auto simp: queued_def dest: ring_distinct)
  have "remove_wait i dc = Some (dc\<lparr>d_ready_queue := d_ready_queue dc, d_wait_queue := w', d_links := h'\<rparr>)"
    using m(1) by (simp add: remove_wait_def)
  moreover have "queued (A(i := None)) (dc\<lparr>d_ready_queue := d_ready_queue dc, d_wait_queue := w', d_links := h'\<rparr>) rs (remove1 i ws)"
    using m(2,3) q i d by (auto simp: queued_def ready_upd waiting_upd ready_def)
  ultimately show ?thesis using links_only_upd by blast
qed

lemma join_waiting:
  assumes q: "queued A dc rs ws" and i: "A i = None" "c_state lc \<noteq> LDAP_CLNT_STATE_READY"
    and h: "d_ready_queue dc0 = d_ready_queue dc" "d_wait_queue dc0 = d_wait_queue dc"
      "d_links dc0 = set_prev i None (set_next i None (d_links dc))"
  shows "\<exists>dc'. append_wait i dc0 = Some dc' \<and> links_only dc0 dc' \<and> queued (A(i := Some lc)) dc' rs (ws @ [i])"
proof -
  have n: "i \<notin> set rs" "i \<notin> set ws" "set rs \<inter> set ws = {}"
    using q i ready_waiting by (auto simp: queued_def ready_def waiting_def)
  let ?h = "set_prev i None (set_next i None (d_links dc))"
  have s: "same_off {i} (d_links dc) ?h" by (simp add: same_off_def)
  have r: "ring ?h (d_ready_queue dc) rs" "ring ?h (d_wait_queue dc) ws"
    using q n(1,2) by (auto simp: queued_def intro!: rq.rep_frame [OF _ s])
  obtain w' h' where a: "LINKEDLIST_APPEND (d_wait_queue dc) i ?h = Some (w', h')" "ring h' w' (ws @ [i])"
    "same_off (insert i (set ws)) ?h h'"
    using rq.append_law [OF r(2) n(2)] by blast
  have r': "ring h' (d_ready_queue dc) rs" by (rule rq.rep_frame [OF r(1) a(3)]) (use n in auto)
  have "append_wait i dc0 = Some (dc0\<lparr>d_ready_queue := d_ready_queue dc0, d_wait_queue := w', d_links := h'\<rparr>)"
    using a(1) by (simp add: append_wait_def h)
  moreover have "queued (A(i := Some lc)) (dc0\<lparr>d_ready_queue := d_ready_queue dc0, d_wait_queue := w', d_links := h'\<rparr>) rs (ws @ [i])"
    using a(2) r' q i h by (auto simp: queued_def ready_upd waiting_upd ready_def)
  ultimately show ?thesis using links_only_upd by blast
qed

lemma same_queue:
  "queued A dc rs ws \<Longrightarrow> A i = Some lc \<Longrightarrow>
   c_state lc' = LDAP_CLNT_STATE_READY \<longleftrightarrow> c_state lc = LDAP_CLNT_STATE_READY \<Longrightarrow> queued (A(i := Some lc')) dc rs ws"
  by (auto simp: queued_def ready_upd waiting_upd ready_def waiting_def)

lemma queued_cong:
  "queued A dc rs ws \<Longrightarrow> d_links dc' = d_links dc \<Longrightarrow> d_ready_queue dc' = d_ready_queue dc \<Longrightarrow>
   d_wait_queue dc' = d_wait_queue dc \<Longrightarrow> queued A dc' rs ws"
  by (simp add: queued_def)

section \<open>The invariant\<close>

text \<open>What a connection has to write, with the position in it; what it has received, as in the server.\<close>

definition clnt_out :: "LDAP_CLNT \<Rightarrow> bool" where
  "clnt_out lc \<longleftrightarrow> (\<exists>w. c_w_buffer lc = Some w \<and> 0 \<le> c_w_curr lc \<and> (c_w_curr lc = 0 \<or> c_w_curr lc < int (length w)))"

definition clnt_in :: "LDAP_CLNT \<Rightarrow> bool" where
  "clnt_in lc \<longleftrightarrow> (\<forall>m. c_r_buffer lc = Some m \<longrightarrow> 0 \<le> c_r_len lc \<and> c_r_len lc < int (length m)) \<and>
     (c_r_ber_body lc = -1 \<and> c_r_ber_body_length lc = -1 \<or> 0 \<le> c_r_ber_body lc \<and> 2 \<le> c_r_ber_body_length lc)"

definition clnt_ok :: "nat \<Rightarrow> LDAP_CLNT \<Rightarrow> bool" where
  "clnt_ok i lc \<longleftrightarrow> i < LDAP_MAX_CLIENT \<and> c_no lc = int i \<and> clnt_out lc \<and> clnt_in lc \<and> arrays_ok lc"

definition client_inv :: "LDAP_t \<Rightarrow> bool" where
  "client_inv dc \<longleftrightarrow> (\<exists>rs ws. queued (d_client_array dc) dc rs ws) \<and>
     d_client_count dc = int (card (dom (d_client_array dc))) \<and>
     (\<forall>i lc. d_client_array dc i = Some lc \<longrightarrow> clnt_ok i lc)"

lemma client_clnt: "client_inv dc \<Longrightarrow> d_client_array dc i = Some lc \<Longrightarrow> clnt_ok i lc"
  by (simp add: client_inv_def)

lemma client_finite: "client_inv dc \<Longrightarrow> finite (dom (d_client_array dc))"
  by (rule finite_subset [of _ "{..<LDAP_MAX_CLIENT}"]) (auto simp: client_inv_def clnt_ok_def)

lemma links_only_fields:
  "links_only dc dc' \<Longrightarrow> d_client_array dc' = d_client_array dc \<and> d_client_count dc' = d_client_count dc \<and>
     d_send_msg_queue dc' = d_send_msg_queue dc \<and> d_queue_count dc' = d_queue_count dc \<and>
     d_max_concurrent dc' = d_max_concurrent dc"
  by (auto simp: links_only_def)

lemma clnt_upd_fields [simp]:
  "d_client_array (clnt_upd i lc dc) = (d_client_array dc)(i := Some lc)"
  "d_client_count (clnt_upd i lc dc) = d_client_count dc" "d_links (clnt_upd i lc dc) = d_links dc"
  "d_ready_queue (clnt_upd i lc dc) = d_ready_queue dc" "d_wait_queue (clnt_upd i lc dc) = d_wait_queue dc"
  "d_send_msg_queue (clnt_upd i lc dc) = d_send_msg_queue dc" "d_queue_count (clnt_upd i lc dc) = d_queue_count dc"
  "d_max_concurrent (clnt_upd i lc dc) = d_max_concurrent dc"
  by (simp_all add: clnt_upd_def)

text \<open>An operation on one connection that leaves the queues alone.\<close>

lemma client_inv_upd:
  assumes "client_inv dc" "d_client_array dc i = Some lc" "clnt_ok i lc'"
    "c_state lc' = LDAP_CLNT_STATE_READY \<longleftrightarrow> c_state lc = LDAP_CLNT_STATE_READY"
    and "d_client_array dc' = (d_client_array dc)(i := Some lc')" "d_client_count dc' = d_client_count dc"
    "d_links dc' = d_links dc" "d_ready_queue dc' = d_ready_queue dc" "d_wait_queue dc' = d_wait_queue dc"
  shows "client_inv dc'"
proof -
  obtain rs ws where "queued (d_client_array dc) dc rs ws" using assms(1) by (auto simp: client_inv_def)
  from same_queue [OF this assms(2,4)] have "queued (d_client_array dc') dc' rs ws"
    by (simp add: queued_def assms(5,7-9))
  moreover have "dom (d_client_array dc') = dom (d_client_array dc)" using assms(2) by (auto simp: assms(5))
  ultimately show ?thesis using assms(1,3) by (auto simp: client_inv_def assms(5,6))
qed

text \<open>An operation that has moved one connection.\<close>

lemma client_inv_moved:
  assumes "client_inv dc" "d_client_array dc i = Some lc" "clnt_ok i lc'"
    "queued ((d_client_array dc)(i := Some lc')) dc1 rs ws"
    "d_client_array dc1 = (d_client_array dc)(i := Some lc')" "d_client_count dc1 = d_client_count dc"
  shows "client_inv dc1"
proof -
  have "dom (d_client_array dc1) = dom (d_client_array dc)" using assms(2) by (auto simp: assms(5))
  then show ?thesis using assms(1,3,4) by (auto simp: client_inv_def assms(5,6))
qed

lemma put_message_result:
  assumes "put_message mem_ok now ber lc = Some (Some lc')"
  obtains w s where "c_w_buffer lc = Some w"
    "lc' = lc\<lparr>c_w_size := s, c_w_buffer := Some (w @ ber), c_write_time := now\<rparr>"
proof -
  from assms obtain w where w: "c_w_buffer lc = Some w" by (auto simp: put_message_def split: option.splits)
  from assms have "\<exists>s. lc' = lc\<lparr>c_w_size := s, c_w_buffer := Some (w @ ber), c_write_time := now\<rparr>"
    by (auto simp: put_message_def w bind_eq_Some_conv Let_def split: if_splits)
      (metis LDAP_CLNT.surjective LDAP_CLNT.update_convs(6))
  with w that show thesis by blast
qed

lemma put_message_ok: "clnt_ok i lc \<Longrightarrow> put_message mem_ok now ber lc = Some (Some lc') \<Longrightarrow> clnt_ok i lc' \<and> c_state lc' = c_state lc"
  by (erule put_message_result) (auto simp: clnt_ok_def clnt_out_def clnt_in_def arrays_ok_def)

text \<open>The connection at the head of the ready queue goes to the back of one of the queues.\<close>

lemma requeue_head:
  assumes q: "queued (d_client_array dc) dc (i # rs) ws" and i: "d_client_array dc i = Some lc"
    and lc': "c_state lc' = LDAP_CLNT_STATE_READY"
    and full: "full \<longleftrightarrow> c_concurrent_count lc' \<ge> d_max_concurrent dc"
    and lc'': "lc'' = (if full then lc'\<lparr>c_state := LDAP_CLNT_STATE_WAITING\<rparr> else lc')"
  shows "\<exists>dc'. requeue i lc' dc = Some dc' \<and> links_only (clnt_upd i lc'' dc) dc' \<and>
    queued (d_client_array dc') dc' (if full then rs else rs @ [i]) (if full then ws @ [i] else ws)"
proof -
  let ?A = "d_client_array dc" and ?dc = "clnt_upd i lc'' dc"
  have "set (i # rs) = ready ?A" using q by (simp add: queued_def)
  then have "i \<in> ready ?A" by auto
  then have rd: "c_state lc = LDAP_CLNT_STATE_READY" using i by (simp add: ready_def)
  have q': "queued ?A ?dc (i # rs) ws" by (rule queued_cong [OF q]) simp_all
  show ?thesis
  proof (cases full)
    case True
    obtain dc1 dc' where "remove_ready i ?dc = Some dc1" "append_wait i dc1 = Some dc'" "links_only ?dc dc'"
      "queued (?A(i := Some lc'')) dc' rs (ws @ [i])"
      using make_waiting [OF q' i rd, of lc''] True by (auto simp: lc'')
    then show ?thesis using True full links_only_fields [of ?dc dc'] by (auto simp: requeue_def lc'')
  next
    case False
    obtain dc1 dc' where "remove_ready i ?dc = Some dc1" "append_ready i dc1 = Some dc'" "links_only ?dc dc'"
      "queued (?A(i := Some lc'')) dc' (rs @ [i]) ws"
      using stay_ready [OF q' i rd, of lc''] False lc' by (auto simp: lc'')
    then show ?thesis using False full links_only_fields [of ?dc dc'] by (auto simp: requeue_def lc'')
  qed
qed

section \<open>Handing out messages\<close>

text \<open>
  The specification: the messages go in their order to the ready connections in turn; one that has
  \<open>mx\<close> requests under way leaves the round.
\<close>

fun round_robin :: "int \<Rightarrow> nat list \<Rightarrow> (nat \<Rightarrow> int) \<Rightarrow> bytes list \<Rightarrow> (nat \<times> bytes) list" where
  "round_robin mx (i # is) cnt (m # ms) =
     (i, m) # round_robin mx (if cnt i + 1 \<ge> mx then is else is @ [i]) (cnt(i := cnt i + 1)) ms"
| "round_robin mx _ cnt _ = []"

definition requests :: "LDAP_t \<Rightarrow> nat \<Rightarrow> int" where
  "requests dc i = (case d_client_array dc i of Some lc \<Rightarrow> c_concurrent_count lc | None \<Rightarrow> 0)"

definition to_write :: "LDAP_t \<Rightarrow> nat \<Rightarrow> bytes" where
  "to_write dc i = (case d_client_array dc i of Some lc \<Rightarrow> or_empty (c_w_buffer lc) | None \<Rightarrow> [])"

definition given :: "(nat \<times> bytes) list \<Rightarrow> nat \<Rightarrow> bytes" where
  "given asg i = concat (map snd (filter (\<lambda>a. fst a = i) asg))"

lemma given_Cons: "given ((j, m) # asg) i = (if j = i then m else []) @ given asg i"
  by (simp add: given_def)

text \<open>One turn of the loop.\<close>

lemma flush_turn:
  assumes inv: "client_inv dc" and q: "queued (d_client_array dc) dc (i # is) ws" and m: "d_send_msg_queue dc = ber # q'"
    and lc: "d_client_array dc i = Some lc" "put_message (grow_ok env k) (time_now env) ber lc = Some (Some lc1)"
    and n: "int_add (c_concurrent_count lc1) 1 = Some n"
    and lc2: "lc2 = lc1\<lparr>c_timestamp_write := time_of_day env, c_concurrent_count := n\<rparr>"
  shows "\<exists>dc1 ws'. requeue i lc2 dc = Some dc1 \<and>
    client_inv (dc1\<lparr>d_send_msg_queue := q', d_queue_count := d_queue_count dc1 - 1\<rparr>) \<and>
    queued (d_client_array dc1) dc1 (if requests dc i + 1 \<ge> d_max_concurrent dc then is else is @ [i]) ws' \<and>
    requests dc1 = (requests dc)(i := requests dc i + 1) \<and>
    to_write dc1 = (to_write dc)(i := to_write dc i @ ber) \<and> d_queue_count dc1 = d_queue_count dc \<and>
    d_max_concurrent dc1 = d_max_concurrent dc"
proof -
  have ok: "clnt_ok i lc" by (rule client_clnt [OF inv lc(1)])
  from lc(2) obtain w s where w: "c_w_buffer lc = Some w"
    "lc1 = lc\<lparr>c_w_size := s, c_w_buffer := Some (w @ ber), c_write_time := time_now env\<rparr>" by (rule put_message_result)
  have nn: "n = requests dc i + 1" using n by (simp add: requests_def lc(1) w(2) int_add_def split: if_splits)
  have "set (i # is) = ready (d_client_array dc)" using q by (simp add: queued_def)
  then have "i \<in> ready (d_client_array dc)" by auto
  then have rd: "c_state lc = LDAP_CLNT_STATE_READY" using lc(1) by (simp add: ready_def)
  define full where "full \<longleftrightarrow> n \<ge> d_max_concurrent dc"
  define lc3 where "lc3 = (if full then lc2\<lparr>c_state := LDAP_CLNT_STATE_WAITING\<rparr> else lc2)"
  have f2: "c_state lc2 = LDAP_CLNT_STATE_READY" "full \<longleftrightarrow> c_concurrent_count lc2 \<ge> d_max_concurrent dc"
    by (simp_all add: lc2 w(2) rd full_def)
  from requeue_head [OF q lc(1) f2 lc3_def] obtain dc1 where d: "requeue i lc2 dc = Some dc1"
    "links_only (clnt_upd i lc3 dc) dc1"
    "queued (d_client_array dc1) dc1 (if full then is else is @ [i]) (if full then ws @ [i] else ws)" by blast
  note l = links_only_fields [OF d(2), simplified]
  have "clnt_ok i lc1" using put_message_ok [OF ok lc(2)] by simp
  then have ok3: "clnt_ok i lc3" by (simp add: lc3_def lc2 clnt_ok_def clnt_out_def clnt_in_def arrays_ok_def)
  have "client_inv dc1"
    by (rule client_inv_moved [OF inv lc(1) ok3]) (use d(3) l in simp_all)
  then have "client_inv (dc1\<lparr>d_send_msg_queue := q', d_queue_count := d_queue_count dc1 - 1\<rparr>)"
    by (simp add: client_inv_def queued_def)
  moreover have "requests dc1 = (requests dc)(i := requests dc i + 1)"
    by (rule ext) (simp add: requests_def l lc3_def lc2 nn [unfolded requests_def] split: option.splits)
  moreover have "to_write dc1 = (to_write dc)(i := to_write dc i @ ber)"
    by (rule ext) (simp add: to_write_def l lc3_def lc2 w lc(1) or_empty_def)
  ultimately show ?thesis using d(1,3) l nn full_def by auto
qed

text \<open>The loop ends, stops for want of memory, or has made a turn.\<close>

lemma flush_cases:
  assumes inv: "client_inv dc" and q: "queued (d_client_array dc) dc rs ws" and f: "flush env k dc = Some (r, dc')"
  obtains (finished) "rs = [] \<or> d_send_msg_queue dc = []" "r = LDAP_RET_OK" "dc' = dc"
  | (memory) "r = LDAP_RET_ERR_MEMORY" "dc' = dc"
  | (turn) i "is" ber q' dc2 ws' where "rs = i # is" "d_send_msg_queue dc = ber # q'" "client_inv dc2"
      "queued (d_client_array dc2) dc2 (if requests dc i + 1 \<ge> d_max_concurrent dc then is else is @ [i]) ws'"
      "requests dc2 = (requests dc)(i := requests dc i + 1)" "to_write dc2 = (to_write dc)(i := to_write dc i @ ber)"
      "d_send_msg_queue dc2 = q'" "d_queue_count dc2 = d_queue_count dc - 1" "d_max_concurrent dc2 = d_max_concurrent dc"
      "(if write_callback_fails env k then Some (LDAP_RET_ERR_SEND, dc2) else flush env (k + 1) dc2) = Some (r, dc')"
proof (cases "rs = [] \<or> d_send_msg_queue dc = []")
  case True
  have "rs = [] \<Longrightarrow> d_ready_queue dc = None" using q by (simp add: queued_def)
  with True f have "r = LDAP_RET_OK \<and> dc' = dc" by (subst (asm) flush.simps) (auto split: option.splits list.splits)
  with True finished show thesis by blast
next
  case False
  then obtain i "is" ber q' where rs: "rs = i # is" and m: "d_send_msg_queue dc = ber # q'"
    by (cases rs; cases "d_send_msg_queue dc") auto
  have hd: "d_ready_queue dc = Some i" using q rs by (auto simp: queued_def ring_def)
  note f = f [unfolded flush.simps [of env k dc] hd m option.case list.case prod.case]
  obtain lc pr where lc: "d_client_array dc i = Some lc" "put_message (grow_ok env k) (time_now env) ber lc = Some pr"
    using f by (auto simp: bind_eq_Some_conv)
  show thesis
  proof (cases pr)
    case None
    with f lc memory show thesis by simp
  next
    case (Some lc1)
    obtain n where n: "int_add (c_concurrent_count lc1) 1 = Some n" using f lc Some by (auto simp: bind_eq_Some_conv)
    from flush_turn [OF inv q [unfolded rs] m lc(1) lc(2) [unfolded Some] n refl]
    obtain dc1 ws' where d: "requeue i (lc1\<lparr>c_timestamp_write := time_of_day env, c_concurrent_count := n\<rparr>) dc = Some dc1"
      "client_inv (dc1\<lparr>d_send_msg_queue := q', d_queue_count := d_queue_count dc1 - 1\<rparr>)"
      "queued (d_client_array dc1) dc1 (if requests dc i + 1 \<ge> d_max_concurrent dc then is else is @ [i]) ws'"
      "requests dc1 = (requests dc)(i := requests dc i + 1)" "to_write dc1 = (to_write dc)(i := to_write dc i @ ber)"
      "d_queue_count dc1 = d_queue_count dc" "d_max_concurrent dc1 = d_max_concurrent dc" by blast
    define dc2 where "dc2 = dc1\<lparr>d_send_msg_queue := q', d_queue_count := d_queue_count dc1 - 1\<rparr>"
    have "requests dc2 = requests dc1" "to_write dc2 = to_write dc1"
      by (auto simp: dc2_def requests_def to_write_def fun_eq_iff)
    moreover have "queued (d_client_array dc2) dc2 (if requests dc i + 1 \<ge> d_max_concurrent dc then is else is @ [i]) ws'"
      using d(3) by (simp add: queued_def dc2_def)
    moreover have "(if write_callback_fails env k then Some (LDAP_RET_ERR_SEND, dc2) else flush env (k + 1) dc2) = Some (r, dc')"
      using f lc Some n d(1) by (simp add: dc2_def Let_def split: if_splits)
    ultimately show thesis using turn [OF rs m d(2) [folded dc2_def]] d(4-7) by (simp add: dc2_def)
  qed
qed

definition handed :: "LDAP_t \<Rightarrow> (nat \<times> bytes) list \<Rightarrow> LDAP_t \<Rightarrow> bool" where
  "handed dc asg dc' \<longleftrightarrow> d_send_msg_queue dc = map snd asg @ d_send_msg_queue dc' \<and>
     (\<forall>i. to_write dc' i = to_write dc i @ given asg i) \<and> d_queue_count dc' = d_queue_count dc - int (length asg)"

lemma handed_Cons:
  "d_send_msg_queue dc = ber # d_send_msg_queue dc2 \<Longrightarrow> to_write dc2 = (to_write dc)(i := to_write dc i @ ber) \<Longrightarrow>
   d_queue_count dc2 = d_queue_count dc - 1 \<Longrightarrow> handed dc2 asg dc' \<Longrightarrow> handed dc ((i, ber) # asg) dc'"
  by (auto simp: handed_def given_Cons)

lemma flush_result:
  assumes "client_inv dc" "queued (d_client_array dc) dc rs ws" "flush env k dc = Some (r, dc')"
  shows "\<exists>asg rest. round_robin (d_max_concurrent dc) rs (requests dc) (d_send_msg_queue dc) = asg @ rest \<and>
    (r = LDAP_RET_OK \<longrightarrow> rest = []) \<and> handed dc asg dc' \<and> client_inv dc'"
  using assms
proof (induction "length (d_send_msg_queue dc)" arbitrary: dc k rs ws rule: less_induct)
  case less
  from less.prems show ?case
  proof (cases rule: flush_cases)
    case finished
    then have "round_robin (d_max_concurrent dc) rs (requests dc) (d_send_msg_queue dc) = []"
      by (cases rs; cases "d_send_msg_queue dc") auto
    with finished less.prems(1) show ?thesis by (intro exI [of _ "[]"]) (simp add: handed_def given_def)
  next
    case memory
    with less.prems(1) show ?thesis by - (rule exI [of _ "[]"], rule exI, simp add: handed_def given_def)
  next
    case (turn i "is" ber q' dc2 ws')
    let ?rr = "round_robin (d_max_concurrent dc2) (if requests dc i + 1 \<ge> d_max_concurrent dc then is else is @ [i])
        (requests dc2) (d_send_msg_queue dc2)"
    have rr: "round_robin (d_max_concurrent dc) rs (requests dc) (d_send_msg_queue dc) = (i, ber) # ?rr"
      by (simp add: turn(1,2,5,7,9))
    have m: "d_send_msg_queue dc = ber # d_send_msg_queue dc2" by (simp add: turn(2,7))
    have "\<exists>asg rest. ?rr = asg @ rest \<and> (r = LDAP_RET_OK \<longrightarrow> rest = []) \<and> handed dc2 asg dc' \<and> client_inv dc'"
    proof (cases "write_callback_fails env k")
      case True
      with turn(3,10) show ?thesis by - (rule exI [of _ "[]"], rule exI, simp add: handed_def given_def)
    next
      case False
      with turn(10) have "flush env (k + 1) dc2 = Some (r, dc')" by simp
      from less.hyps [OF _ turn(3,4) this] m show ?thesis by simp
    qed
    then obtain asg rest where "?rr = asg @ rest" "r = LDAP_RET_OK \<longrightarrow> rest = []" "handed dc2 asg dc'" "client_inv dc'" by blast
    with rr handed_Cons [OF m turn(6,8)] show ?thesis by (intro exI [of _ "(i, ber) # asg"] exI [of _ rest]) simp
  qed
qed

text \<open>The counters and the buffers have room for what is to be handed out.\<close>

definition bounded :: "LDAP_t \<Rightarrow> bool" where
  "bounded dc \<longleftrightarrow> (\<forall>i. - (2 ^ 31) \<le> requests dc i \<and> requests dc i + int (length (d_send_msg_queue dc)) < 2 ^ 31 \<and>
     int (length (to_write dc i) + length (concat (d_send_msg_queue dc))) < 2 ^ 31)"

lemma put_message_total:
  assumes "c_w_buffer lc = Some w" "int (length w + length ber) < 2 ^ 31"
  shows "\<exists>pr. put_message mem_ok now ber lc = Some pr \<and> (mem_ok \<longrightarrow> pr \<noteq> None)"
  using assms by (auto simp: put_message_def int_add_def Let_def)

lemma flush_total:
  assumes "client_inv dc" "queued (d_client_array dc) dc rs ws" "bounded dc"
  shows "\<exists>r dc'. flush env k dc = Some (r, dc') \<and>
    ((\<forall>k. grow_ok env k \<and> \<not> write_callback_fails env k) \<longrightarrow> r = LDAP_RET_OK)"
  using assms
proof (induction "length (d_send_msg_queue dc)" arbitrary: dc k rs ws rule: less_induct)
  case less
  show ?case
  proof (cases "rs = [] \<or> d_send_msg_queue dc = []")
    case True
    have "rs = [] \<Longrightarrow> d_ready_queue dc = None" using less.prems(2) by (simp add: queued_def)
    with True show ?thesis by (subst flush.simps) (auto split: option.splits list.splits)
  next
    case False
    then obtain i "is" ber q' where rs: "rs = i # is" and m: "d_send_msg_queue dc = ber # q'"
      by (cases rs; cases "d_send_msg_queue dc") auto
    have hd: "d_ready_queue dc = Some i" using less.prems(2) rs by (auto simp: queued_def ring_def)
    have "set rs = ready (d_client_array dc)" using less.prems(2) by (simp add: queued_def)
    then have "i \<in> ready (d_client_array dc)" using rs by auto
    then obtain lc where lc: "d_client_array dc i = Some lc" by (auto simp: ready_def)
    obtain w where w: "c_w_buffer lc = Some w"
      using client_clnt [OF less.prems(1) lc] by (auto simp: clnt_ok_def clnt_out_def)
    have b: "- (2 ^ 31) \<le> c_concurrent_count lc" "c_concurrent_count lc + 1 < 2 ^ 31" "int (length w + length ber) < 2 ^ 31"
      using less.prems(3) [unfolded bounded_def, rule_format, of i] by (simp_all add: requests_def to_write_def lc w m)
    obtain pr where pr: "put_message (grow_ok env k) (time_now env) ber lc = Some pr" "grow_ok env k \<longrightarrow> pr \<noteq> None"
      using put_message_total [OF w b(3)] by blast
    note unf = flush.simps [of env k dc, unfolded hd m option.case list.case prod.case lc bind.bind_lunit pr(1)]
    show ?thesis
    proof (cases pr)
      case None
      with pr(2) show ?thesis unfolding unf by auto
    next
      case (Some lc1)
      have n: "int_add (c_concurrent_count lc1) 1 = Some (c_concurrent_count lc + 1)"
        using b(1,2) pr(1) [unfolded Some] by (auto elim!: put_message_result simp: int_add_def)
      obtain dc1 ws' where d: "requeue i (lc1\<lparr>c_timestamp_write := time_of_day env,
          c_concurrent_count := c_concurrent_count lc + 1\<rparr>) dc = Some dc1"
        "client_inv (dc1\<lparr>d_send_msg_queue := q', d_queue_count := d_queue_count dc1 - 1\<rparr>)"
        "queued (d_client_array dc1) dc1 (if requests dc i + 1 \<ge> d_max_concurrent dc then is else is @ [i]) ws'"
        "requests dc1 = (requests dc)(i := requests dc i + 1)" "to_write dc1 = (to_write dc)(i := to_write dc i @ ber)"
        using flush_turn [OF less.prems(1) less.prems(2) [unfolded rs] m lc pr(1) [unfolded Some] n refl] by blast
      define dc2 where "dc2 = dc1\<lparr>d_send_msg_queue := q', d_queue_count := d_queue_count dc1 - 1\<rparr>"
      have e: "requests dc2 = requests dc1" "to_write dc2 = to_write dc1" "d_send_msg_queue dc2 = q'"
        by (auto simp: dc2_def requests_def to_write_def fun_eq_iff)
      have "bounded dc2" unfolding bounded_def e d(4,5)
      proof (rule allI, goal_cases)
        case (1 j)
        show ?case using less.prems(3) [unfolded bounded_def, rule_format, of j] by (cases "j = i") (auto simp: m)
      qed
      moreover have "queued (d_client_array dc2) dc2 (if requests dc i + 1 \<ge> d_max_concurrent dc then is else is @ [i]) ws'"
        using d(3) by (simp add: queued_def dc2_def)
      ultimately have "\<exists>r dc'. flush env (k + 1) dc2 = Some (r, dc') \<and>
          ((\<forall>k. grow_ok env k \<and> \<not> write_callback_fails env k) \<longrightarrow> r = LDAP_RET_OK)"
        by (intro less.hyps) (use d(2) m in \<open>simp_all add: e(3) dc2_def\<close>)
      moreover have "flush env k dc = (if write_callback_fails env k then Some (LDAP_RET_ERR_SEND, dc2) else flush env (k + 1) dc2)"
        unfolding unf by (simp add: Some n d(1) dc2_def)
      ultimately show ?thesis by (cases "write_callback_fails env k") auto
    qed
  qed
qed

text \<open>
  C5. A message given to the client without a connection joins the queue, and the loop that hands out
  messages ends. It gives the messages in their order to the ready connections in turn, each behind
  what that connection has to write already, and takes a connection out of the round when it has as
  many requests as are allowed: what is handed out is a first part of the round, and the rest stays
  queued; without a failure of memory or of the callback all of the round is handed out.
\<close>

theorem ldap_send_round_robin:
  assumes "client_inv dc" "queued (d_client_array dc) dc rs ws"
    and "bounded (dc\<lparr>d_send_msg_queue := d_send_msg_queue dc @ [b]\<rparr>)" "- (2 ^ 31) \<le> d_queue_count dc" "d_queue_count dc < 2 ^ 31 - 1"
  shows "\<exists>r dc' asg rest. LDAP_clnt_send_message env None (Some b) dc = Some (r, dc') \<and> client_inv dc' \<and>
    round_robin (d_max_concurrent dc) rs (requests dc) (d_send_msg_queue dc @ [b]) = asg @ rest \<and>
    d_send_msg_queue dc @ [b] = map snd asg @ d_send_msg_queue dc' \<and>
    (\<forall>i. to_write dc' i = to_write dc i @ given asg i) \<and> d_queue_count dc' = d_queue_count dc + 1 - int (length asg) \<and>
    ((\<forall>k. grow_ok env k \<and> \<not> write_callback_fails env k) \<longrightarrow> r = LDAP_RET_OK \<and> rest = [])"
proof -
  let ?dc = "dc\<lparr>d_send_msg_queue := d_send_msg_queue dc @ [b], d_queue_count := d_queue_count dc + 1\<rparr>"
  have s: "LDAP_clnt_send_message env None (Some b) dc = flush env 1 ?dc"
    using assms(4,5) by (simp add: LDAP_clnt_send_message_def int_add_def)
  have i: "client_inv ?dc" "queued (d_client_array ?dc) ?dc rs ws"
    using assms(1,2) by (simp_all add: client_inv_def queued_def)
  have e: "requests ?dc = requests dc" "to_write ?dc = to_write dc"
    "requests (dc\<lparr>d_send_msg_queue := d_send_msg_queue dc @ [b]\<rparr>) = requests dc"
    "to_write (dc\<lparr>d_send_msg_queue := d_send_msg_queue dc @ [b]\<rparr>) = to_write dc"
    by (auto simp: requests_def to_write_def fun_eq_iff)
  have "bounded ?dc" using assms(3) by (simp add: bounded_def e)
  from flush_total [OF i this] obtain r dc' where f: "flush env 1 ?dc = Some (r, dc')"
    "(\<forall>k. grow_ok env k \<and> \<not> write_callback_fails env k) \<longrightarrow> r = LDAP_RET_OK" by blast
  from flush_result [OF i f(1)] f(2) show ?thesis unfolding s f(1) handed_def by (auto simp: e)
qed

text \<open>Two ready connections and a message in the queue.\<close>

definition demo_conn :: "nat \<Rightarrow> LDAP_CLNT" where
  "demo_conn i = (clnt_fresh i (int i + 4) 0 4000)\<lparr>c_w_buffer := Some [], c_state := LDAP_CLNT_STATE_READY\<rparr>"

definition demo_dc :: LDAP_t where
  "demo_dc = (the (LDAP_clnt_init True 7 None None None None None 389 0 2 10))
     \<lparr>d_client_array := [0 \<mapsto> demo_conn 0, 1 \<mapsto> demo_conn 1], d_client_count := 2,
      d_links := \<lparr>prev = [0 \<mapsto> 1, 1 \<mapsto> 0], nexT = [0 \<mapsto> 1, 1 \<mapsto> 0]\<rparr>, d_ready_queue := Some 0,
      d_send_msg_queue := [[1]], d_queue_count := 1\<rparr>"

lemma demo_queued: "queued (d_client_array demo_dc) demo_dc [0, 1] []"
  by (auto simp: queued_def demo_dc_def LDAP_clnt_init_def ring_def cyc_def ready_def waiting_def demo_conn_def clnt_fresh_def
      split: if_splits)

lemma demo_inv: "client_inv demo_dc"
proof -
  have "clnt_ok i (demo_conn i)" if "i < 2" for i
    using that by (simp add: demo_conn_def clnt_fresh_def clnt_ok_def clnt_out_def clnt_in_def arrays_ok_def)
  moreover have "d_client_array demo_dc = [0 \<mapsto> demo_conn 0, 1 \<mapsto> demo_conn 1]" "d_client_count demo_dc = 2"
    by (simp_all add: demo_dc_def)
  ultimately show ?thesis using demo_queued by (auto simp: client_inv_def split: if_splits)
qed

theorem ldap_send_round_robin_witness:
  "\<exists>dc'. LDAP_clnt_send_message \<lparr>grow_ok = (\<lambda>_. True), fd_set_write = None, time_now = 5, time_of_day = (5, 0)\<rparr>
      None (Some [2, 3]) demo_dc = Some (LDAP_RET_OK, dc') \<and>
    to_write dc' 0 = [1] \<and> to_write dc' 1 = [2, 3] \<and> d_send_msg_queue dc' = []"
proof -
  let ?env = "\<lparr>grow_ok = (\<lambda>_. True), fd_set_write = None, time_now = 5, time_of_day = (5, 0)\<rparr>"
  have f: "\<forall>k. grow_ok ?env k \<and> \<not> write_callback_fails ?env k" by (simp add: write_callback_fails_def)
  have d: "requests demo_dc = (\<lambda>_. 0)" "to_write demo_dc = (\<lambda>_. [])" "d_send_msg_queue demo_dc = [[1]]"
    "d_queue_count demo_dc = 1" "d_max_concurrent demo_dc = 2"
    by (auto simp: fun_eq_iff requests_def to_write_def demo_dc_def LDAP_clnt_init_def demo_conn_def clnt_fresh_def or_empty_def)
  have "requests (demo_dc\<lparr>d_send_msg_queue := q\<rparr>) = requests demo_dc"
    "to_write (demo_dc\<lparr>d_send_msg_queue := q\<rparr>) = to_write demo_dc" for q
    by (auto simp: requests_def to_write_def fun_eq_iff)
  then have "bounded (demo_dc\<lparr>d_send_msg_queue := d_send_msg_queue demo_dc @ [[2, 3]]\<rparr>)"
    by (simp add: bounded_def d)
  moreover have "- (2 ^ 31) \<le> d_queue_count demo_dc" "d_queue_count demo_dc < 2 ^ 31 - 1" by (simp_all add: d)
  ultimately obtain r dc' asg rest
    where g: "LDAP_clnt_send_message ?env None (Some [2, 3]) demo_dc = Some (r, dc')"
      "round_robin (d_max_concurrent demo_dc) [0, 1] (requests demo_dc) (d_send_msg_queue demo_dc @ [[2, 3]]) = asg @ rest"
      "d_send_msg_queue demo_dc @ [[2, 3]] = map snd asg @ d_send_msg_queue dc'"
      "\<forall>i. to_write dc' i = to_write demo_dc i @ given asg i"
      "(\<forall>k. grow_ok ?env k \<and> \<not> write_callback_fails ?env k) \<longrightarrow> r = LDAP_RET_OK \<and> rest = []"
    using ldap_send_round_robin [OF demo_inv demo_queued, of "[2, 3]" ?env] by blast
  have r: "r = LDAP_RET_OK" "rest = []" using g(5) f by blast+
  have "asg = [(0, [1]), (1, [2, 3])]" using g(2) by (simp add: d r)
  with g(1,3,4) show ?thesis by (simp add: d r given_def)
qed

end
