(* ===== verification/LdapClientSteps.thy ===== *)
theory LdapClientSteps
  imports LdapClientState
begin

text \<open>
  The operations of libs/stacks/ldap/ldap_client.c as steps: each keeps the invariant of
  \<open>LdapClientState\<close>, in any order and with any answers of the system, but for two behaviours of the
  code that break it: they are steps too, which are marked, and what they do is stated here.
\<close>

section \<open>The operations keep the invariant\<close>

lemma client_init_inv: "LDAP_clnt_init mem_ok rnd g dn u p h port w c n = Some dc \<Longrightarrow> client_inv dc"
  by (auto simp: LDAP_clnt_init_def client_inv_def queued_def ready_def waiting_def split: if_splits
      intro!: exI [of _ "[]"])

text \<open>Where \<open>malloc\<close> gives a connection but no buffer, the slot would be left with a closed socket.\<close>

lemma client_open_inv:
  assumes inv: "client_inv dc" and mem: "clnt_mem env \<longrightarrow> buffer_mem env"
    and o: "LDAP_clnt_open env now dc = Some (r, slot, dc', ev)"
  shows "client_inv dc'"
proof (cases "dc' = dc")
  case False
  with o mem obtain i dc1 where i: "find (\<lambda>i. d_client_array dc i = None) [0..<LDAP_MAX_CLIENT] = Some i"
    and a: "append_wait i (clnt_upd i ((clnt_fresh i (socket_r env) now (sockname_port env))\<lparr>c_w_buffer := Some []\<rparr>)
        (clnt_upd i (clnt_fresh i (socket_r env) now (sockname_port env))
          (dc\<lparr>d_links := set_prev i None (set_next i None (d_links dc))\<rparr>))) = Some dc1"
    and dc': "dc' = dc1\<lparr>d_client_count := d_client_count dc1 + 1\<rparr>"
    by (auto simp: LDAP_clnt_open_def Let_def bind_eq_Some_conv split: if_splits option.splits)
  let ?lc = "(clnt_fresh i (socket_r env) now (sockname_port env))\<lparr>c_w_buffer := Some []\<rparr>"
  have free: "d_client_array dc i = None" "i < LDAP_MAX_CLIENT" using i by (auto simp: find_Some_iff)
  obtain rs ws where q: "queued (d_client_array dc) dc rs ws" using inv by (auto simp: client_inv_def)
  let ?dc0 = "clnt_upd i ?lc (clnt_upd i (clnt_fresh i (socket_r env) now (sockname_port env))
          (dc\<lparr>d_links := set_prev i None (set_next i None (d_links dc))\<rparr>))"
  have "\<exists>dc'. append_wait i ?dc0 = Some dc' \<and> links_only ?dc0 dc' \<and> queued ((d_client_array dc)(i := Some ?lc)) dc' rs (ws @ [i])"
    by (rule join_waiting [OF q free(1)]) (simp_all add: clnt_fresh_def)
  with a have d1: "links_only ?dc0 dc1" "queued ((d_client_array dc)(i := Some ?lc)) dc1 rs (ws @ [i])" by auto
  note l = links_only_fields [OF d1(1), simplified]
  have "queued (d_client_array dc') dc' rs (ws @ [i])" using d1(2) l by (simp add: dc' queued_def)
  moreover have "clnt_ok i ?lc"
    using free(2) by (simp add: clnt_ok_def clnt_out_def clnt_in_def clnt_fresh_def arrays_ok_def)
  then have "\<forall>j lc. d_client_array dc' j = Some lc \<longrightarrow> clnt_ok j lc" using client_clnt [OF inv] l by (simp add: dc')
  moreover have "card (insert i (dom (d_client_array dc))) = Suc (card (dom (d_client_array dc)))"
    using client_finite [OF inv] free(1) by (intro card_insert_disjoint) (auto simp: domIff)
  then have "d_client_count dc' = int (card (dom (d_client_array dc')))" using inv l by (simp add: client_inv_def dc')
  ultimately show ?thesis unfolding client_inv_def by blast
qed (use inv in simp)

definition closing :: "LDAP_t \<Rightarrow> nat \<Rightarrow> os_event list" where
  "closing dc i = (case d_client_array dc i of Some lc \<Rightarrow> [Shutdown (c_sock lc), CloseFd (c_sock lc)] | None \<Rightarrow> [])"

lemma client_close_inv:
  assumes inv: "client_inv dc" and no: "0 \<le> no" "no < int LDAP_MAX_CLIENT"
  shows "\<exists>r dc'. LDAP_clnt_close cr no dc = Some (r, dc', closing dc (nat no)) \<and> client_inv dc' \<and>
    d_client_array dc' = (d_client_array dc)(nat no := None)"
proof (cases "d_client_array dc (nat no)")
  case None
  then have "(d_client_array dc)(nat no := None) = d_client_array dc" by auto
  with None no inv show ?thesis by (simp add: LDAP_clnt_close_def closing_def)
next
  case (Some lc)
  let ?i = "nat no" and ?A = "d_client_array dc"
  let ?dc0 = "dc\<lparr>d_client_array := ?A(?i := None)\<rparr>"
  obtain rs ws where q: "queued ?A dc rs ws" using inv by (auto simp: client_inv_def)
  then have q0: "queued ?A ?dc0 rs ws" by (simp add: queued_def)
  obtain dc1 rs' ws' where d: "(if c_state lc = LDAP_CLNT_STATE_READY then remove_ready ?i ?dc0 else remove_wait ?i ?dc0) = Some dc1"
    "links_only ?dc0 dc1" "queued (?A(?i := None)) dc1 rs' ws'"
    using leave_ready [OF q0 Some] leave_waiting [OF q0 Some] by (cases "c_state lc = LDAP_CLNT_STATE_READY") auto
  note l = links_only_fields [OF d(2), simplified]
  have "card (dom ?A - {?i}) = card (dom ?A) - 1" "0 < card (dom ?A)"
    using client_finite [OF inv] Some by (auto simp: domIff card_gt_0_iff)
  then have "client_inv (dc1\<lparr>d_client_count := d_client_count dc1 - 1\<rparr>)"
    using inv d(3) l by (auto simp: client_inv_def queued_def of_nat_diff)
  then show ?thesis using d(1) l no Some by (simp add: LDAP_clnt_close_def Let_def closing_def)
qed

lemma client_close_all_inv:
  "client_inv dc \<Longrightarrow> set is \<subseteq> {..<LDAP_MAX_CLIENT} \<Longrightarrow> distinct is \<Longrightarrow>
   \<exists>dc'. close_slots cr is dc = Some (dc', concat (map (closing dc) is)) \<and> client_inv dc' \<and>
     d_client_array dc' = (\<lambda>i. if i \<in> set is then None else d_client_array dc i)"
proof (induction "is" arbitrary: dc)
  case (Cons i "is")
  show ?case
  proof (cases "d_client_array dc i")
    case None
    from Cons.IH [OF Cons.prems(1)] Cons.prems(2,3) obtain dc' where
      "close_slots cr is dc = Some (dc', concat (map (closing dc) is))" "client_inv dc'"
      "d_client_array dc' = (\<lambda>i. if i \<in> set is then None else d_client_array dc i)" by auto
    moreover have "closing dc i = []" using None by (simp add: closing_def)
    ultimately show ?thesis using None by (auto simp: fun_eq_iff)
  next
    case (Some lc)
    have "0 \<le> int i" "int i < int LDAP_MAX_CLIENT" using Cons.prems(2) by simp_all
    from client_close_inv [OF Cons.prems(1) this, of cr] obtain r dc1 where
      c: "LDAP_clnt_close cr (int i) dc = Some (r, dc1, closing dc i)" "client_inv dc1"
        "d_client_array dc1 = (d_client_array dc)(i := None)" by auto
    from Cons.IH [OF c(2)] Cons.prems(2,3) obtain dc' where d:
      "close_slots cr is dc1 = Some (dc', concat (map (closing dc1) is))" "client_inv dc'"
      "d_client_array dc' = (\<lambda>i. if i \<in> set is then None else d_client_array dc1 i)" by auto
    have "map (closing dc1) is = map (closing dc) is" using Cons.prems(3) c(3) by (auto simp: closing_def)
    with Some c d show ?thesis by (auto simp: fun_eq_iff)
  qed
qed (simp add: fun_eq_iff)

lemma clnt_read_data_ok:
  assumes "clnt_ok i lc" "env_ok env" "clnt_read_data env now lc = (r, lc')"
  shows "clnt_ok i lc' \<and> c_state lc' = c_state lc"
proof -
  define lc1 where "lc1 = (if c_r_buffer lc = None \<and> malloc_mem env \<noteq> None
    then lc\<lparr>c_r_buffer := malloc_mem env, c_r_len := 0\<rparr> else lc)"
  have l: "clnt_ok i lc1" "c_state lc1 = c_state lc"
    using assms(1,2) by (auto simp: lc1_def clnt_ok_def clnt_out_def clnt_in_def arrays_ok_def env_ok_def)
  note rd = assms(3) [unfolded clnt_read_data_def Let_def, folded lc1_def]
  show ?thesis
  proof (cases "c_r_buffer lc1")
    case None
    then show ?thesis using rd l by simp
  next
    case (Some m)
    define n where "n = int (length m) - 1 - c_r_len lc1"
    obtain k bs where kb: "recv_r env n = (k, bs)" by fastforce
    then have k: "0 < n \<Longrightarrow> k \<le> n \<and> length bs = nat k" using assms(2) by (auto simp: env_ok_def dest: spec [of _ n])
    have b: "0 \<le> c_r_len lc1" "c_r_len lc1 < int (length m)" using l Some by (auto simp: clnt_ok_def clnt_in_def)
    show ?thesis
    proof (cases "n \<le> 0 \<or> k \<le> 0")
      case True
      then have "lc' = lc1" using rd Some kb by (auto simp: n_def split: if_splits)
      then show ?thesis using l by simp
    next
      case False
      then have pos: "0 < k" "k \<le> n" "length bs = nat k" using k by auto
      from False have "lc' = lc1\<lparr>c_r_buffer := Some (store_at (nat (c_r_len lc1)) bs m), c_r_len := c_r_len lc1 + k,
          c_read_time := now\<rparr>"
        using rd Some kb by (auto simp: n_def split: if_splits)
      moreover have "length (store_at (nat (c_r_len lc1)) bs m) = length m"
        using b pos by (intro length_store_at) (simp add: n_def)
      ultimately show ?thesis using l b pos by (auto simp: clnt_ok_def clnt_out_def clnt_in_def arrays_ok_def n_def)
    qed
  qed
qed

lemma client_upd_inv:
  "client_inv dc \<Longrightarrow> d_client_array dc i = Some lc \<Longrightarrow> clnt_ok i lc' \<Longrightarrow>
   c_state lc' = LDAP_CLNT_STATE_READY \<longleftrightarrow> c_state lc = LDAP_CLNT_STATE_READY \<Longrightarrow> client_inv (clnt_upd i lc' dc)"
  by (rule client_inv_upd) simp_all

text \<open>A connection that is made ready.\<close>

lemma client_ready_inv:
  assumes inv: "client_inv dc" and lc: "d_client_array dc i = Some lc" "c_state lc \<noteq> LDAP_CLNT_STATE_READY"
    and lc': "clnt_ok i lc'" "c_state lc' = LDAP_CLNT_STATE_READY"
    and dc0: "d_links dc0 = d_links dc" "d_ready_queue dc0 = d_ready_queue dc" "d_wait_queue dc0 = d_wait_queue dc"
      "d_client_count dc0 = d_client_count dc" "d_client_array dc0 i \<noteq> None"
      "\<forall>j. j \<noteq> i \<longrightarrow> d_client_array dc0 j = d_client_array dc j"
    and s: "remove_wait i dc0 = Some dc1" "append_ready i dc1 = Some dc2"
    and dc3: "d_client_array dc3 = (d_client_array dc2)(i := Some lc')" "d_links dc3 = d_links dc2"
      "d_ready_queue dc3 = d_ready_queue dc2" "d_wait_queue dc3 = d_wait_queue dc2" "d_client_count dc3 = d_client_count dc2"
  shows "client_inv dc3"
proof -
  obtain rs ws where "queued (d_client_array dc) dc rs ws" using inv by (auto simp: client_inv_def)
  then have q: "queued (d_client_array dc) dc0 rs ws" by (rule queued_cong) (simp_all add: dc0)
  from make_ready [OF q lc lc'(2)] s have d: "links_only dc0 dc2"
    "queued ((d_client_array dc)(i := Some lc')) dc2 (rs @ [i]) (remove1 i ws)" by auto
  note l = links_only_fields [OF d(1)]
  have a: "d_client_array dc3 = (d_client_array dc)(i := Some lc')" using l dc0(6) by (auto simp: dc3(1))
  have q3: "queued ((d_client_array dc)(i := Some lc')) dc3 (rs @ [i]) (remove1 i ws)"
    by (rule queued_cong [OF d(2)]) (simp_all add: dc3)
  show ?thesis by (rule client_inv_moved [OF inv lc(1) lc'(1) q3 a]) (use l dc0(4) dc3(5) in simp)
qed

lemma client_read_inv:
  assumes inv: "client_inv dc" and env: "env_ok env" and r: "LDAP_clnt_read env now i dc = Some (r, dc')"
  shows "client_inv dc'"
proof -
  obtain lc where lc: "d_client_array dc i = Some lc" using r by (auto simp: LDAP_clnt_read_def bind_eq_Some_conv)
  note ok = client_clnt [OF inv lc]
  consider (same) "dc' = dc"
    | (conn) "c_state lc = LDAP_CLNT_STATE_CONNECTING" "clnt_connected now i lc dc = Some dc'"
    | (data) r' lc' where "clnt_read_data env now lc = (r', lc')" "dc' = clnt_upd i lc' dc"
    using r lc by (auto simp: LDAP_clnt_read_def bind_eq_Some_conv Let_def split: if_splits prod.splits)
  then show ?thesis
  proof cases
    case conn
    let ?lc = "lc\<lparr>c_write_time := 0, c_keepalive_time := now, c_state := LDAP_CLNT_STATE_READY\<rparr>"
    obtain dc1 where d: "remove_wait i (clnt_upd i ?lc dc) = Some dc1" "append_ready i dc1 = Some dc'"
      using conn(2) by (auto simp: clnt_connected_def Let_def bind_eq_Some_conv)
    have o: "clnt_ok i ?lc" using ok by (simp add: clnt_ok_def clnt_out_def clnt_in_def arrays_ok_def)
    have "d_client_array dc' = (d_client_array dc')(i := Some ?lc)"
      using d by (auto simp: remove_wait_def append_ready_def bind_eq_Some_conv fun_eq_iff)
    from client_ready_inv [OF inv lc _ o _ _ _ _ _ _ _ d this] conn(1) show ?thesis by simp
  next
    case data
    then show ?thesis using client_upd_inv [OF inv lc] clnt_read_data_ok [OF ok env data(1)] by simp
  qed (use inv in simp)
qed


lemma clnt_ok_cong:
  "clnt_ok i lc \<Longrightarrow> c_no lc' = c_no lc \<Longrightarrow> c_w_buffer lc' = c_w_buffer lc \<Longrightarrow> c_w_curr lc' = c_w_curr lc \<Longrightarrow>
   c_r_buffer lc' = c_r_buffer lc \<Longrightarrow> c_r_len lc' = c_r_len lc \<Longrightarrow> c_r_ber_body lc' = c_r_ber_body lc \<Longrightarrow>
   c_r_ber_body_length lc' = c_r_ber_body_length lc \<Longrightarrow> c_matchedDN lc' = c_matchedDN lc \<Longrightarrow>
   c_diagnosticMessage lc' = c_diagnosticMessage lc \<Longrightarrow> clnt_ok i lc'"
  by (simp add: clnt_ok_def clnt_out_def clnt_in_def arrays_ok_def)

lemma client_inv_fields:
  "client_inv dc \<Longrightarrow> d_client_array dc' = d_client_array dc \<Longrightarrow> d_client_count dc' = d_client_count dc \<Longrightarrow>
   d_links dc' = d_links dc \<Longrightarrow> d_ready_queue dc' = d_ready_queue dc \<Longrightarrow> d_wait_queue dc' = d_wait_queue dc \<Longrightarrow>
   client_inv dc'"
  by (simp add: client_inv_def queued_def)

lemma client_write_inv:
  assumes inv: "client_inv dc" and s: "send_ok send" and wr: "LDAP_clnt_write so_err send now i dc = Some (r, dc', out)"
  shows "client_inv dc'"
proof -
  obtain lc where lc: "d_client_array dc i = Some lc" using wr by (auto simp: LDAP_clnt_write_def bind_eq_Some_conv)
  note ok = client_clnt [OF inv lc]
  obtain w where b: "c_w_buffer lc = Some w" and c: "0 \<le> c_w_curr lc" "c_w_curr lc = 0 \<or> c_w_curr lc < int (length w)"
    using ok by (auto simp: clnt_ok_def clnt_out_def)
  show ?thesis
  proof (cases "c_state lc = LDAP_CLNT_STATE_OPEN")
    case True
    obtain tid where d: "dc' = dc\<lparr>d_tid := tid\<rparr> \<or>
        dc' = clnt_upd i (lc\<lparr>c_write_time := now, c_state := LDAP_CLNT_STATE_CONNECTING\<rparr>) (dc\<lparr>d_tid := tid\<rparr>) \<or> dc' = dc"
      using wr lc True by (auto simp: LDAP_clnt_write_def Let_def bind_eq_Some_conv split: if_splits)
    have "client_inv (dc\<lparr>d_tid := tid\<rparr>)" by (rule client_inv_fields [OF inv]) simp_all
    moreover have "client_inv (clnt_upd i (lc\<lparr>c_write_time := now, c_state := LDAP_CLNT_STATE_CONNECTING\<rparr>) (dc\<lparr>d_tid := tid\<rparr>))"
      by (rule client_inv_upd [OF inv lc, of "lc\<lparr>c_write_time := now, c_state := LDAP_CLNT_STATE_CONNECTING\<rparr>"])
        (use True in \<open>simp_all add: clnt_ok_cong [OF ok]\<close>)
    ultimately show ?thesis using d inv by blast
  next
    case False
    define n1 n where "n1 = int (length w) - c_w_curr lc"
      and "n = (if d_max_wbuffer dc > 0 \<and> n1 > d_max_wbuffer dc then d_max_wbuffer dc else n1)"
    define bs where "bs = take (nat n) (drop (nat (c_w_curr lc)) w)"
    have k: "send bs \<le> int (length w) - c_w_curr lc"
    proof -
      have "send bs \<le> int (length bs)" using s by (simp add: send_ok_def)
      also have "\<dots> \<le> int (length w) - c_w_curr lc" using c by (auto simp: bs_def)
      finally show ?thesis .
    qed
    let ?lc1 = "lc\<lparr>c_w_curr := c_w_curr lc + send bs, c_write_time := now\<rparr>"
    let ?lc2 = "lc\<lparr>c_w_curr := 0, c_w_buffer := Some [], c_write_time := 0, c_keepalive_time := now\<rparr>"
    have o: "0 \<le> send bs \<Longrightarrow> c_w_curr lc + send bs < int (length w) \<Longrightarrow> clnt_ok i ?lc1" "clnt_ok i ?lc2"
      using ok b c by (auto simp: clnt_ok_def clnt_out_def clnt_in_def arrays_ok_def)
    note wr' = wr [unfolded LDAP_clnt_write_def Let_def, simplified lc bind.bind_lunit False if_False b option.case, folded n1_def, folded n_def, folded bs_def]
    from wr' consider "dc' = dc" | "0 \<le> send bs" "c_w_curr lc + send bs < int (length w)" "dc' = clnt_upd i ?lc1 dc"
      | m where "dc' = (clnt_upd i ?lc2 dc)\<lparr>d_sent_count := m\<rparr>"
      by (auto simp: bind_eq_Some_conv split: if_splits)
    then show ?thesis
    proof cases
      case 2
      with o(1) client_upd_inv [OF inv lc, of ?lc1] show ?thesis by simp
    next
      case 3
      from client_inv_upd [OF inv lc o(2)] 3 show ?thesis by simp
    qed (use inv in simp)
  qed
qed

lemma send_direct_inv:
  assumes inv: "client_inv dc" and s: "send_direct env ber i dc = Some (r, dc')"
  shows "client_inv dc'"
proof -
  obtain lc where lc: "d_client_array dc i = Some lc" using s by (auto simp: send_direct_def bind_eq_Some_conv)
  note ok = client_clnt [OF inv lc]
  consider "dc' = dc" | lc1 n where "put_message (grow_ok env 0) (time_now env) ber lc = Some (Some lc1)"
      "dc' = clnt_upd i (lc1\<lparr>c_concurrent_count := n\<rparr>) dc"
    using s lc by (auto simp: send_direct_def bind_eq_Some_conv Let_def split: option.splits)
  then show ?thesis
  proof cases
    case 2
    from put_message_ok [OF ok 2(1)] have "clnt_ok i (lc1\<lparr>c_concurrent_count := n\<rparr>)" "c_state lc1 = c_state lc"
      by (auto intro: clnt_ok_cong)
    with client_upd_inv [OF inv lc] show ?thesis by (simp add: 2(2))
  qed (use inv in simp)
qed

lemma client_flush_inv: "client_inv dc \<Longrightarrow> flush env k dc = Some (r, dc') \<Longrightarrow> client_inv dc'"
  using flush_result by (metis client_inv_def)

lemma client_send_inv:
  assumes inv: "client_inv dc" and s: "LDAP_clnt_send_message env slot ber dc = Some (r, dc')"
  shows "client_inv dc'"
proof -
  obtain r1 dc1 where d: "(case (slot, ber) of (Some i, Some b) \<Rightarrow> send_direct env b i dc
      | (None, Some b) \<Rightarrow> do { n \<leftarrow> int_add (d_queue_count dc) 1;
          Some (LDAP_RET_OK, dc\<lparr>d_send_msg_queue := d_send_msg_queue dc @ [b], d_queue_count := n\<rparr>) }
      | _ \<Rightarrow> Some (LDAP_RET_OK, dc)) = Some (r1, dc1)" "dc' = dc1 \<or> flush env 1 dc1 = Some (r, dc')"
    using s by (auto simp: LDAP_clnt_send_message_def bind_eq_Some_conv split: if_splits)
  have "client_inv dc1"
  proof (cases slot)
    case None
    then show ?thesis using d(1) inv
      by (auto simp: bind_eq_Some_conv split: option.splits intro: client_inv_fields [OF inv])
  next
    case (Some i)
    then show ?thesis using d(1) inv send_direct_inv [OF inv] by (auto split: option.splits)
  qed
  with d(2) client_flush_inv show ?thesis by blast
qed

lemma keepalive_send_inv:
  assumes inv: "client_inv dc" and s: "send_ok send"
    and k: "ldap_send_keepalive_rqt mem_ok so_err send now i ber dc = Some (r, dc', out)"
  shows "client_inv dc'"
proof -
  obtain lc where lc: "d_client_array dc i = Some lc" using k by (auto simp: ldap_send_keepalive_rqt_def bind_eq_Some_conv)
  note ok = client_clnt [OF inv lc]
  obtain pr where pr: "put_message mem_ok now ber lc = Some pr"
    using k lc by (auto simp: ldap_send_keepalive_rqt_def bind_eq_Some_conv)
  note k' = k [unfolded ldap_send_keepalive_rqt_def lc bind.bind_lunit pr]
  show ?thesis
  proof (cases pr)
    case None
    with k' inv show ?thesis by simp
  next
    case (Some lc1)
    with k' obtain r1 dc1 out1 where
      w: "LDAP_clnt_write so_err send now i (clnt_upd i lc1 dc) = Some (r1, dc1, out1)" by (auto simp: bind_eq_Some_conv)
    have d: "dc' = dc1 \<or> dc' = dc1\<lparr>d_sent_count := d_sent_count dc1 - 1\<rparr>"
      using k' by (simp add: Some w split: if_splits)
    from put_message_ok [OF ok] pr Some client_upd_inv [OF inv lc, of lc1] have "client_inv (clnt_upd i lc1 dc)" by simp
    from client_write_inv [OF this s w] have d1: "client_inv dc1" .
    have "client_inv (dc1\<lparr>d_sent_count := d_sent_count dc1 - 1\<rparr>)" by (rule client_inv_fields [OF d1]) simp_all
    with d1 d show ?thesis by blast
  qed
qed

lemma keep_slot_inv:
  assumes inv: "client_inv dc" and s: "send_ok (ka_send env i)" and i: "i < LDAP_MAX_CLIENT"
    and k: "keep_slot env now i dc = Some (r, dc', out, ev)"
  shows "client_inv dc'"
proof (cases "dc' = dc")
  case False
  then obtain lc tid ber where lc: "d_client_array dc i = Some lc"
    and m: "keepalive_message (ka_usable env) dc = Some (Some (tid, ber))"
    using k by (auto simp: keep_slot_def bind_eq_Some_conv split: option.splits if_splits)
  note ok = client_clnt [OF inv lc]
  let ?dc0 = "clnt_upd i (lc\<lparr>c_ktid := tid\<rparr>) (dc\<lparr>d_tid := tid\<rparr>)"
  obtain r1 dc1 out1 where d: "(if tid = 0 then Some (LDAP_RET_ERR_KEEPALIVE, ?dc0, [])
      else ldap_send_keepalive_rqt (ka_mem env i) (ka_so_error env i) (ka_send env i) now i (b_data ber) ?dc0) = Some (r1, dc1, out1)"
    "dc' = dc1 \<or> (\<exists>r ev. LDAP_clnt_close (ka_close env) (c_no lc) dc1 = Some (r, dc', ev))"
    using k lc m False by (auto simp: keep_slot_def Let_def bind_eq_Some_conv split: if_splits)
  have "client_inv ?dc0"
    by (rule client_inv_upd [OF inv lc, of "lc\<lparr>c_ktid := tid\<rparr>"]) (simp_all add: clnt_ok_cong [OF ok])
  then have d1: "client_inv dc1" using d(1) keepalive_send_inv [OF _ s] by (auto split: if_splits)
  have "c_no lc = int i" using ok by (simp add: clnt_ok_def)
  with client_close_inv [OF d1, of "c_no lc" "ka_close env"] i d(2) d1 show ?thesis by auto
qed (use inv in simp)

lemma keep_slots_inv:
  "keep_slots env now is dc = Some (r, dc', outs, ev) \<Longrightarrow> \<forall>i. send_ok (ka_send env i) \<Longrightarrow> set is \<subseteq> {..<LDAP_MAX_CLIENT} \<Longrightarrow>
   client_inv dc \<Longrightarrow> client_inv dc'"
proof (induction "is" arbitrary: dc r outs ev)
  case (Cons i "is")
  obtain r1 dc1 out1 ev1 where k: "keep_slot env now i dc = Some (r1, dc1, out1, ev1)"
    using Cons.prems(1) by (auto simp: bind_eq_Some_conv)
  have s: "send_ok (ka_send env i)" "i < LDAP_MAX_CLIENT" "set is \<subseteq> {..<LDAP_MAX_CLIENT}" using Cons.prems(2,3) by auto
  note inv1 = keep_slot_inv [OF Cons.prems(4) s(1,2) k]
  show ?case
  proof (cases r1)
    case None
    then obtain r2 outs2 ev2 where "keep_slots env now is dc1 = Some (r2, dc', outs2, ev2)"
      using Cons.prems(1) k by (auto simp: bind_eq_Some_conv)
    from Cons.IH [OF this Cons.prems(2) s(3) inv1] show ?thesis .
  next
    case (Some a)
    then show ?thesis using Cons.prems(1) k inv1 by simp
  qed
qed simp

text \<open>A check closes exactly what timed out.\<close>

lemma check_slots_inv:
  "client_inv dc \<Longrightarrow> set is \<subseteq> {..<LDAP_MAX_CLIENT} \<Longrightarrow>
   \<exists>dc' ev. check_slots cr ct is dc = Some (dc', ev) \<and> client_inv dc'"
proof (induction "is" arbitrary: dc)
  case (Cons i "is")
  show ?case
  proof (cases "\<exists>lc. d_client_array dc i = Some lc \<and> clnt_timed_out ct dc lc")
    case False
    with Cons.IH [OF Cons.prems(1)] Cons.prems(2) show ?thesis by (auto split: option.splits)
  next
    case True
    then obtain lc where lc: "d_client_array dc i = Some lc" "clnt_timed_out ct dc lc" by blast
    have no: "c_no lc = int i" using client_clnt [OF Cons.prems(1) lc(1)] by (simp add: clnt_ok_def)
    have "0 \<le> int i" "int i < int LDAP_MAX_CLIENT" using Cons.prems(2) by simp_all
    from client_close_inv [OF Cons.prems(1) this, of cr] obtain r dc1 where
      c: "LDAP_clnt_close cr (int i) dc = Some (r, dc1, closing dc i)" "client_inv dc1" by auto
    from Cons.IH [OF c(2)] Cons.prems(2) obtain dc' ev' where
      "check_slots cr ct is dc1 = Some (dc', ev')" "client_inv dc'" by auto
    with lc c show ?thesis by (simp add: no)
  qed
qed simp

section \<open>Decoding keeps the invariant\<close>

text \<open>What decoding a response leaves alone.\<close>

definition reads_on :: "LDAP_CLNT \<Rightarrow> LDAP_CLNT \<Rightarrow> bool" where
  "reads_on lc lc' \<longleftrightarrow> c_no lc' = c_no lc \<and> c_state lc' = c_state lc \<and> c_w_buffer lc' = c_w_buffer lc \<and>
     c_w_curr lc' = c_w_curr lc \<and> c_concurrent_count lc' = c_concurrent_count lc"

definition decodes_on :: "LDAP_CLNT \<Rightarrow> LDAP_CLNT \<Rightarrow> bool" where
  "decodes_on lc lc' \<longleftrightarrow> reads_on lc lc' \<and> c_r_buffer lc' = c_r_buffer lc \<and> c_r_len lc' = c_r_len lc \<and>
     (arrays_ok lc \<longrightarrow> arrays_ok lc') \<and> (c_result_code lc' = c_result_code lc \<or> \<bar>c_result_code lc'\<bar> < 1000)"

lemma sint_byte_bound [simp]: "\<bar>sint (b :: byte)\<bar> < 1000"
  using sint_ge [of b] sint_lt [of b] by simp

lemma decodes_on_refl [simp]: "decodes_on lc lc"
  by (simp add: decodes_on_def reads_on_def)

lemma decodes_on_trans: "decodes_on lc lc' \<Longrightarrow> decodes_on lc' lc'' \<Longrightarrow> decodes_on lc lc''"
  by (auto simp: decodes_on_def reads_on_def)

lemma copy_array_length: "copy_array arr m i len = Some (arr', j) \<Longrightarrow> length arr' = length arr"
  by (auto simp: copy_array_def length_store_at split: if_splits)

lemma terminate_array_length: "terminate_array arr len = Some arr' \<Longrightarrow> length arr' = length arr"
  by (auto simp: terminate_array_def split: if_splits)

lemma append_result_on: "append_result m opt len lc = Some lc' \<Longrightarrow> decodes_on lc lc'"
  by (auto simp: append_result_def bind_eq_Some_conv decodes_on_def reads_on_def arrays_ok_def split: if_splits)

lemma decode_result_on: "decode_result m i lc = Some lc' \<Longrightarrow> decodes_on lc lc'"
  unfolding decode_result_def Let_def
  by (elim bind_Some if_Some) (auto simp: bind_eq_Some_conv Let_def decodes_on_def reads_on_def arrays_ok_def
      dest!: copy_array_length terminate_array_length split: if_splits)

lemma decode_extended_on:
  assumes "decode_extended_response m opt i opt_len lc = Some lc'"
  shows "decodes_on lc lc'"
proof -
  obtain lc1 where a: "append_result m opt opt_len lc = Some lc1"
    using assms by (auto simp: decode_extended_response_def bind_eq_Some_conv)
  have "lc' = lc1 \<or> (\<exists>b :: byte. lc' = lc1\<lparr>c_result_code := sint b\<rparr>)"
    using assms unfolding decode_extended_response_def a bind.bind_lunit Let_def
    by (auto simp: bind_eq_Some_conv a split: if_splits)
  then have "decodes_on lc1 lc'" by (auto simp: decodes_on_def reads_on_def arrays_ok_def)
  with append_result_on [OF a] show ?thesis by (rule decodes_on_trans)
qed

lemma decode_operation_on:
  assumes "decode_response_operation m opt opt_len lc = Some (r, lc')"
  shows "decodes_on lc lc'"
proof -
  have k: "decodes_on lc (lc\<lparr>c_ktid := 0\<rparr>)" by (simp add: decodes_on_def reads_on_def arrays_ok_def)
  show ?thesis
    using assms unfolding decode_response_operation_def Let_def
    by (elim bind_Some if_Some)
      (auto simp: bind_eq_Some_conv k intro: append_result_on decode_result_on decode_extended_on split: if_splits)
qed

lemma decode_response_on:
  assumes "ldap_decode_response lc = Some (r, lc')"
  shows "decodes_on lc lc'"
proof -
  have "decodes_on lc (lc\<lparr>c_tid := t\<rparr>)" for t by (simp add: decodes_on_def reads_on_def arrays_ok_def)
  then have *: "decode_response_operation m p l (lc\<lparr>c_tid := t\<rparr>) = Some (r, lc') \<Longrightarrow> decodes_on lc lc'" for m p l t
    using decode_operation_on decodes_on_trans by blast
  show ?thesis
    using assms unfolding ldap_decode_response_def Let_def
    by (elim bind_Some if_Some) (auto simp: bind_eq_Some_conv intro: * split: if_splits)
qed

text \<open>The text for a code fits its array.\<close>

lemma length_dec_nat: "n < 1000 \<Longrightarrow> length (dec_nat n) \<le> 3"
  by (simp add: dec_nat.simps [of n] dec_nat.simps [of "n div 10"] dec_nat.simps [of "n div 10 div 10"])

lemma length_error_text: "\<bar>c\<bar> < 1000 \<Longrightarrow> length (error_to_string c) < 1024"
proof -
  assume c: "\<bar>c\<bar> < 1000"
  have "\<forall>(k, t) \<in> set ldap_errors. length t < 1024" by (simp add: ldap_errors_def)
  moreover have n: "nat c < 1000" "nat (- c) < 1000" using c by linarith+
  have "length (dec_int c) \<le> 4"
    using length_dec_nat [OF n(1)] length_dec_nat [OF n(2)] by (simp add: dec_int_def)
  ultimately show ?thesis
    by (auto simp: error_to_string_def split: option.splits dest!: map_of_SomeD)
qed


lemma clnt_frame_range: "clnt_in lc \<Longrightarrow> clnt_frame m lc = Some (b, l) \<Longrightarrow> 0 \<le> b \<and> 2 \<le> l"
  by (auto simp: clnt_frame_def clnt_in_def bind_eq_Some_conv int_add_def split: if_splits dest!: FIND_LENGTH_next)

lemma take_response_ok:
  assumes t: "take_response now m b l lc = Some (r, lc')" and bl: "0 \<le> b" "2 \<le> l" "b + l + 1 \<le> int (length m)"
    and lc: "0 \<le> c_r_len lc" "c_r_len lc < int (length m)" "c_r_ber_body lc = b" "c_r_ber_body_length lc = l" "arrays_ok lc"
  shows "reads_on lc lc' \<and> clnt_in lc' \<and> arrays_ok lc' \<and> c_r_len lc' \<le> c_r_len lc \<and>
    (\<forall>ret. r = Inr ret \<longrightarrow> c_r_len lc' + 2 \<le> c_r_len lc)"
proof (cases "b + l > c_r_len lc")
  case True
  then have "r = Inl LDAP_RET_OK" "lc' = lc\<lparr>c_r_buffer := Some m\<rparr>" using t by (simp_all add: take_response_def)
  then show ?thesis using lc bl by (simp add: reads_on_def clnt_in_def arrays_ok_def)
next
  case False
  define lc0 where "lc0 = lc\<lparr>c_r_buffer := Some m, c_result_code := -1, c_matchedDN := (c_matchedDN lc)[0 := 0],
    c_diagnosticMessage := (c_diagnosticMessage lc)[0 := 0]\<rparr>"
  have lc0: "arrays_ok lc0" "reads_on lc lc0" "c_r_len lc0 = c_r_len lc" "c_r_buffer lc0 = Some m" "c_result_code lc0 = -1"
    using lc by (simp_all add: lc0_def arrays_ok_def reads_on_def)
  obtain ret lc1 where d: "ldap_decode_response lc0 = Some (ret, lc1)"
    using t False by (auto simp: take_response_def Let_def lc0_def bind_eq_Some_conv)
  have lc1: "reads_on lc lc1" "arrays_ok lc1" "c_r_len lc1 = c_r_len lc" "c_r_buffer lc1 = Some m" "\<bar>c_result_code lc1\<bar> < 1000"
    using decode_response_on [OF d] lc0 by (auto simp: decodes_on_def reads_on_def)
  obtain c where c: "at (c_diagnosticMessage lc1) 0 = Some c"
    using t False d by (auto simp: take_response_def Let_def lc0_def bind_eq_Some_conv)
  define lc2 where "lc2 = (if c_result_code lc1 \<noteq> 0 \<and> c = 0
    then lc1\<lparr>c_diagnosticMessage := store_at 0 (error_to_string (c_result_code lc1) @ [0]) (c_diagnosticMessage lc1)\<rparr> else lc1)"
  have "length (store_at 0 (error_to_string (c_result_code lc1) @ [0]) (c_diagnosticMessage lc1)) = length (c_diagnosticMessage lc1)"
    using length_error_text [OF lc1(5)] lc1(2) by (intro length_store_at) (simp add: arrays_ok_def)
  then have lc2: "reads_on lc lc2" "arrays_ok lc2" "c_r_len lc2 = c_r_len lc" "c_r_buffer lc2 = Some m"
    using lc1 by (auto simp: lc2_def reads_on_def arrays_ok_def)
  define n where "n = c_r_len lc - (b + l)"
  have n: "0 \<le> n" "n + 2 \<le> c_r_len lc" using False bl by (simp_all add: n_def)
  define k where "k = c_r_len lc2 - (b + l)"
  have k: "k = n" by (simp add: k_def n_def lc2(3))
  have "take_response now m b l lc = Some (Inr ret, (if k > 0 then
       lc2\<lparr>c_r_buffer := Some (store_at 0 (take (nat k) (drop (nat (b + l)) m)) m), c_r_len := k\<rparr>
     else lc2\<lparr>c_r_len := 0, c_read_time := 0, c_keepalive_time := now\<rparr>)\<lparr>c_r_ber_body := -1, c_r_ber_body_length := -1\<rparr>)"
    using False d c by (simp add: take_response_def Let_def lc0_def lc2_def k_def)
  then have r: "r = Inr ret" and lc': "lc' = (if n > 0 then
       lc2\<lparr>c_r_buffer := Some (store_at 0 (take (nat n) (drop (nat (b + l)) m)) m), c_r_len := n\<rparr>
     else lc2\<lparr>c_r_len := 0, c_read_time := 0, c_keepalive_time := now\<rparr>)\<lparr>c_r_ber_body := -1, c_r_ber_body_length := -1\<rparr>"
    using t k by simp_all
  show ?thesis using lc2 n lc(2) unfolding r lc' by (auto simp: reads_on_def clnt_in_def arrays_ok_def length_moved)
qed

lemma response_pass_ok:
  assumes p: "response_pass extra now lc = Some (r, lc')" and x: "extra_ok extra" and lc: "clnt_in lc" "arrays_ok lc"
  shows "reads_on lc lc' \<and> clnt_in lc' \<and> arrays_ok lc' \<and> c_r_len lc' \<le> c_r_len lc \<and>
    (\<forall>ret. r = Inr (Some ret) \<longrightarrow> 5 \<le> c_r_len lc \<and> c_r_len lc' + 2 \<le> c_r_len lc)"
proof (cases "c_r_buffer lc = None \<or> c_r_len lc < 5")
  case True
  then have "r = Inr None" "lc' = lc" using p by (auto simp: response_pass_def split: option.splits)
  with lc show ?thesis by (simp add: reads_on_def)
next
  case False
  then obtain m b l where m: "c_r_buffer lc = Some m" "\<not> c_r_len lc < 5" and f: "clnt_frame m lc = Some (b, l)"
    and i: "int_add b l = Some (b + l)" "int_add (b + l) 1 = Some (b + l + 1)"
    using p by (auto simp: response_pass_def int_add_def bind_eq_Some_conv split: if_splits)
  have bl: "0 \<le> b" "2 \<le> l" using clnt_frame_range [OF lc(1) f] by auto
  let ?lc = "lc\<lparr>c_r_ber_body := b, c_r_ber_body_length := l\<rparr>"
  have len: "0 \<le> c_r_len lc" "c_r_len lc < int (length m)" using lc(1) m(1) by (auto simp: clnt_in_def)
  define g where "g = (if b + l + 1 > int (length m)
    then map_option (\<lambda>x. m @ x) (extra (nat (b + l + 1) - length m)) else Some m)"
  note p = p [unfolded response_pass_def, simplified m f i option.case if_False bind.bind_lunit prod.case Let_def, folded g_def]
  show ?thesis
  proof (cases g)
    case None
    then have "r = Inl LDAP_RET_ERR_MEMORY" "lc' = ?lc" using p by simp_all
    then show ?thesis using lc bl m(1) by (simp add: reads_on_def clnt_in_def arrays_ok_def)
  next
    case (Some m')
    have m': "length m \<le> length m'" "b + l + 1 \<le> int (length m')"
      using Some x by (auto simp: g_def extra_ok_def split: if_splits)
    obtain r1 where t: "take_response now m' b l ?lc = Some (r1, lc')"
      "r = (case r1 of Inl r \<Rightarrow> Inl r | Inr ret \<Rightarrow> Inr (Some ret))"
      using p Some by (auto simp: bind_eq_Some_conv)
    have "reads_on ?lc lc' \<and> clnt_in lc' \<and> arrays_ok lc' \<and> c_r_len lc' \<le> c_r_len ?lc \<and>
        (\<forall>ret. r1 = Inr ret \<longrightarrow> c_r_len lc' + 2 \<le> c_r_len ?lc)"
      by (rule take_response_ok [OF t(1) bl m'(2)]) (use len m' lc(2) in \<open>simp_all add: arrays_ok_def\<close>)
    then show ?thesis using t(2) m(2) by (auto simp: reads_on_def split: sum.splits)
  qed
qed

text \<open>
  The loop \<open>do ... while (ret == LDAP_RET_WAIT_MORE_DATA)\<close> with fuel: the outer \<open>None\<close> is that it was
  not enough, the inner one that a pass is undefined.
\<close>

fun decode_passes ::
    "nat \<Rightarrow> (nat \<Rightarrow> bytes option) \<Rightarrow> int \<Rightarrow> int \<Rightarrow> LDAP_CLNT \<Rightarrow> ((int + int) \<times> LDAP_CLNT) option option" where
  "decode_passes 0 extra now ret lc = None"
| "decode_passes (Suc k) extra now ret lc =
     (case response_pass extra now lc of
        None \<Rightarrow> Some None
      | Some (Inl r, lc) \<Rightarrow> Some (Some (Inl r, lc))
      | Some (Inr None, lc) \<Rightarrow> Some (Some (Inr ret, lc))
      | Some (Inr (Some ret), lc) \<Rightarrow>
          if ret = LDAP_RET_WAIT_MORE_DATA then decode_passes k extra now ret lc else Some (Some (Inr ret, lc)))"

lemma reads_on_trans: "reads_on lc lc' \<Longrightarrow> reads_on lc' lc'' \<Longrightarrow> reads_on lc lc''"
  by (simp add: reads_on_def)

lemma decode_loop_ends:
  assumes "clnt_in lc" "arrays_ok lc" "extra_ok extra"
  shows "decode_passes (nat (c_r_len lc) div 2 + 1) extra now ret lc = Some (decode_loop extra now ret lc) \<and>
    (\<forall>r lc'. decode_loop extra now ret lc = Some (r, lc') \<longrightarrow> reads_on lc lc' \<and> clnt_in lc' \<and> arrays_ok lc')"
proof -
  have "nat (c_r_len lc) div 2 < k \<Longrightarrow> decode_passes k extra now ret lc = Some (decode_loop extra now ret lc) \<and>
    (\<forall>r lc'. decode_loop extra now ret lc = Some (r, lc') \<longrightarrow> reads_on lc lc' \<and> clnt_in lc' \<and> arrays_ok lc')" for k
    using assms(1,2)
  proof (induction k arbitrary: ret lc)
    case (Suc k)
    show ?case
    proof (cases "response_pass extra now lc")
      case None
      then show ?thesis by (simp add: decode_loop.simps [of extra now ret lc])
    next
      case (Some p)
      obtain q lc1 where p: "p = (q, lc1)" by fastforce
      note ok = response_pass_ok [OF Some [unfolded p] assms(3) Suc.prems(2,3)]
      show ?thesis
      proof (cases "q = Inr (Some LDAP_RET_WAIT_MORE_DATA)")
        case False
        then show ?thesis using Some p ok
          by (auto simp: decode_loop.simps [of extra now ret lc] split: sum.splits option.splits)
      next
        case True
        then have "5 \<le> c_r_len lc" "c_r_len lc1 + 2 \<le> c_r_len lc" using ok by auto
        then have "nat (c_r_len lc1) div 2 < k" using Suc.prems(1) by linarith
        from Suc.IH [OF this, of LDAP_RET_WAIT_MORE_DATA] ok have
          IH: "decode_passes k extra now LDAP_RET_WAIT_MORE_DATA lc1 = Some (decode_loop extra now LDAP_RET_WAIT_MORE_DATA lc1)"
            "\<forall>r lc'. decode_loop extra now LDAP_RET_WAIT_MORE_DATA lc1 = Some (r, lc') \<longrightarrow>
              reads_on lc1 lc' \<and> clnt_in lc' \<and> arrays_ok lc'" by blast+
        have e: "decode_loop extra now ret lc = decode_loop extra now LDAP_RET_WAIT_MORE_DATA lc1"
          using Some p True by (simp add: decode_loop.simps [of extra now ret lc])
        from e IH(2) ok have "\<forall>r lc'. decode_loop extra now ret lc = Some (r, lc') \<longrightarrow>
            reads_on lc lc' \<and> clnt_in lc' \<and> arrays_ok lc'" by (metis reads_on_trans)
        moreover have "decode_passes (Suc k) extra now ret lc = Some (decode_loop extra now ret lc)"
          using IH(1) e Some p True by simp
        ultimately show ?thesis by blast
      qed
    qed
  qed simp
  then show ?thesis using less_add_one by blast
qed

lemma ring_next:
  assumes "cyc h ws" "x \<in> set ws" "nexT h x = Some n"
  shows "n \<in> set ws"
proof -
  obtain us vs where ws: "ws = us @ x # vs" using assms(2) by (metis split_list)
  have "linked h (us @ x # vs @ [hd ws])" using assms(1) by (auto simp: cyc_def ws)
  then have "linked h (x # vs @ [hd ws])" using linked_append [of h us x "vs @ [hd ws]"] by blast
  then have n: "n = hd (vs @ [hd ws])" using assms(3) by (cases vs) auto
  show ?thesis
  proof (cases vs)
    case Nil
    then show ?thesis unfolding n by (cases us) (simp_all add: ws)
  next
    case (Cons v vs')
    then show ?thesis unfolding n by (simp add: ws)
  qed
qed

lemmas in_ring_induct = in_ring.raw_induct [rotated, consumes 1, case_names step]

lemma in_ring_member:
  assumes "in_ring h i ka kb = Some b" "cyc h ws" "kb \<in> set ws" "b"
  shows "i \<in> set ws"
  using assms
proof (induction rule: in_ring_induct)
  case (step in_ring h i ka kb b)
  show ?case
  proof (cases "i = kb")
    case False
    then obtain n where "nexT h kb = Some n" "n \<noteq> ka" "in_ring h i ka n = Some b"
      using step by (auto simp: bind_eq_Some_conv split: if_splits)
    with step(1) [OF this(3)] ring_next [OF step(3,4)] step(3-5) show ?thesis by simp
  qed (use step(4) in simp)
qed

text \<open>The response times change neither queues nor connections.\<close>

lemma clnt_response_times_fields:
  assumes "clnt_response_times tv lc dc = (dc', lc')"
  shows "d_client_array dc' = d_client_array dc" "d_client_count dc' = d_client_count dc" "d_links dc' = d_links dc"
    "d_ready_queue dc' = d_ready_queue dc" "d_wait_queue dc' = d_wait_queue dc" "\<exists>y. lc' = lc\<lparr>c_timestamp_write := y\<rparr>"
  using assms by (auto simp: clnt_response_times_def Let_def split: prod.splits)

lemma decoded_available_inv:
  assumes inv: "client_inv dc" and lc0: "d_client_array dc i = Some lc0" and lc: "clnt_ok i lc" "c_state lc = c_state lc0"
    and d: "decoded_available tv i lc dc = Some (r, dc')"
  shows "client_inv dc'"
proof (cases "c_concurrent_count lc > 0")
  case False
  with d have "dc' = clnt_upd i lc dc" by (simp add: decoded_available_def)
  with client_upd_inv [OF inv lc0 lc(1)] lc(2) show ?thesis by simp
next
  case True
  define lc1 where "lc1 = lc\<lparr>c_concurrent_count := c_concurrent_count lc - 1\<rparr>"
  define wake where "wake \<longleftrightarrow> c_state lc = LDAP_CLNT_STATE_WAITING \<and> c_concurrent_count lc - 1 < d_max_concurrent dc"
  define lc2 where "lc2 = (if wake then lc1\<lparr>c_state := LDAP_CLNT_STATE_READY\<rparr> else lc1)"
  have lc1_c: "c_concurrent_count lc1 = c_concurrent_count lc - 1" "c_state lc1 = c_state lc" by (simp_all add: lc1_def)
  obtain dc1 n where m: "(if wake then do { dc \<leftarrow> remove_wait i dc; append_ready i dc } else Some dc) = Some dc1"
    and n': "clnt_upd i (snd (clnt_response_times tv lc2 (dc1\<lparr>d_recv_count := n\<rparr>)))
      (fst (clnt_response_times tv lc2 (dc1\<lparr>d_recv_count := n\<rparr>))) = dc'"
    using d True unfolding decoded_available_def Let_def lc1_def [symmetric]
    unfolding lc1_c wake_def [symmetric] lc2_def [symmetric]
    by (auto simp: bind_eq_Some_conv case_prod_beta)
  obtain dc2 lc3 where n: "clnt_response_times tv lc2 (dc1\<lparr>d_recv_count := n\<rparr>) = (dc2, lc3)" by fastforce
  with n' have dc': "dc' = clnt_upd i lc3 dc2" by simp
  note f = clnt_response_times_fields [OF n, simplified]
  have ok3: "clnt_ok i lc3" "c_state lc3 = c_state lc2"
    using f(6) lc(1) by (auto simp: lc2_def lc1_def intro: clnt_ok_cong)
  show ?thesis
  proof (cases wake)
    case False
    then have "dc1 = dc" "c_state lc3 = c_state lc0" using m ok3(2) lc(2) by (simp_all add: lc2_def lc1_def)
    with client_inv_upd [OF inv lc0 ok3(1)] f show ?thesis by (simp add: dc')
  next
    case True
    then obtain dc0 where s: "remove_wait i dc = Some dc0" "append_ready i dc0 = Some dc1"
      using m by (auto simp: bind_eq_Some_conv)
    show ?thesis
      by (rule client_ready_inv [OF inv lc0 _ ok3(1) _ _ _ _ _ _ _ s])
        (use True f ok3(2) lc0 lc(2) in \<open>simp_all add: dc' wake_def lc2_def\<close>)
  qed
qed

lemma decoded_keepalive_inv:
  assumes inv: "client_inv dc" and lc0: "d_client_array dc i = Some lc0" "c_state lc0 = LDAP_CLNT_STATE_READY"
    and lc: "clnt_ok i lc" "c_state lc = c_state lc0" and d: "decoded_keepalive i lc dc = Some (r, dc')"
  shows "client_inv dc'"
proof -
  obtain rs ws where q: "queued (d_client_array dc) dc rs ws" using inv by (auto simp: client_inv_def)
  have w: "i \<notin> set ws" using q lc0 by (auto simp: queued_def waiting_def)
  obtain found where f: "(case d_wait_queue dc of None \<Rightarrow> Some False | Some ka \<Rightarrow> in_ring (d_links dc) i ka ka) = Some found"
    using d by (auto simp: decoded_keepalive_def bind_eq_Some_conv)
  have "\<not> found"
  proof (cases "d_wait_queue dc")
    case (Some ka)
    then have "cyc (d_links dc) ws" "ka \<in> set ws" using q by (auto simp: queued_def ring_Some)
    with f Some w show ?thesis using in_ring_member by fastforce
  qed (use f in simp)
  with d f have "dc' = clnt_upd i lc dc" by (simp add: decoded_keepalive_def)
  with client_upd_inv [OF inv lc0(1) lc(1)] lc(2) show ?thesis by simp
qed

text \<open>A keepalive answer on a connection that is not ready is left out.\<close>

lemma client_decode_inv:
  assumes inv: "client_inv dc" and x: "extra_ok extra"
    and k: "r = LDAP_RET_KEEPALIVE \<longrightarrow> i \<in> ready (d_client_array dc)"
    and d: "LDAP_clnt_decode extra now tv i dc = Some (r, dc')"
  shows "client_inv dc'"
proof -
  obtain lc0 where lc0: "d_client_array dc i = Some lc0" using d by (auto simp: LDAP_clnt_decode_def bind_eq_Some_conv)
  note ok = client_clnt [OF inv lc0]
  obtain q lc where l: "decode_loop extra now LDAP_RET_OK lc0 = Some (q, lc)"
    using d lc0 by (auto simp: LDAP_clnt_decode_def bind_eq_Some_conv)
  have "reads_on lc0 lc \<and> clnt_in lc \<and> arrays_ok lc"
    using decode_loop_ends [of lc0 extra] ok x l by (auto simp: clnt_ok_def)
  then have lc: "clnt_ok i lc" "c_state lc = c_state lc0"
    using ok by (auto simp: clnt_ok_def clnt_out_def reads_on_def)
  have up: "client_inv (clnt_upd i lc dc)" using client_upd_inv [OF inv lc0 lc(1)] lc(2) by simp
  note d = d [unfolded LDAP_clnt_decode_def lc0 bind.bind_lunit l prod.case]
  show ?thesis
  proof (cases q)
    case (Inl a)
    with d up show ?thesis by auto
  next
    case (Inr ret)
    show ?thesis
    proof (cases "ret = LDAP_RET_DATA_AVAILABLE \<or> ret = LDAP_RET_KEEPALIVE")
      case False
      with d up Inr show ?thesis by auto
    next
      case True
      then consider "decoded_available tv i lc dc = Some (r, dc')" | "decoded_keepalive i lc dc = Some (r, dc')"
        using d Inr by (auto split: if_splits)
      then show ?thesis
      proof cases
        case 1
        then show ?thesis by (rule decoded_available_inv [OF inv lc0 lc])
      next
        case 2
        then have "r = LDAP_RET_KEEPALIVE" by (auto simp: decoded_keepalive_def bind_eq_Some_conv split: if_splits)
        with k lc0 have "c_state lc0 = LDAP_CLNT_STATE_READY" by (simp add: ready_def)
        from decoded_keepalive_inv [OF inv lc0 this lc 2] show ?thesis .
      qed
    qed
  qed
qed

section \<open>Steps\<close>

text \<open>
  The operations in any order, each with a mark: \<open>False\<close> for the two behaviours that break the
  invariant, opening a connection where \<open>malloc\<close> gives the connection but not its buffer, and the
  answer to a keepalive message on a connection that is not ready; \<open>True\<close> for all others. \<open>env_ok\<close>,
  \<open>send_ok\<close> and \<open>extra_ok\<close> say that \<open>recv\<close>, \<open>send\<close> and \<open>realloc\<close> do what they are documented to.
\<close>

inductive client_step :: "bool \<Rightarrow> LDAP_t \<Rightarrow> LDAP_t \<Rightarrow> bool" where
  opt: "clnt_set_option dc opt arg = Some (r, dc') \<Longrightarrow> client_step True dc dc'"
| opn: "LDAP_clnt_open env now dc = Some (r, slot, dc', ev) \<Longrightarrow> client_step (clnt_mem env \<longrightarrow> buffer_mem env) dc dc'"
| cls: "0 \<le> no \<Longrightarrow> no < int LDAP_MAX_CLIENT \<Longrightarrow> LDAP_clnt_close cr no dc = Some (r, dc', ev) \<Longrightarrow> client_step True dc dc'"
| cla: "LDAP_clnt_close_all cr dc = Some (dc', ev) \<Longrightarrow> client_step True dc dc'"
| rd: "env_ok renv \<Longrightarrow> LDAP_clnt_read renv now i dc = Some (r, dc') \<Longrightarrow> client_step True dc dc'"
| wr: "send_ok send \<Longrightarrow> LDAP_clnt_write so_err send now i dc = Some (r, dc', out) \<Longrightarrow> client_step True dc dc'"
| snd: "LDAP_clnt_send_message senv slot ber dc = Some (r, dc') \<Longrightarrow> client_step True dc dc'"
| kal: "\<forall>i. send_ok (ka_send kenv i) \<Longrightarrow> LDAP_clnt_keep_alive kenv now dc = Some (r, dc', outs, ev) \<Longrightarrow> client_step True dc dc'"
| chk: "LDAP_clnt_check_connection cr ct dc = Some (r, dc', ev) \<Longrightarrow> client_step True dc dc'"
| dec: "extra_ok extra \<Longrightarrow> LDAP_clnt_decode extra now tv i dc = Some (r, dc') \<Longrightarrow>
    client_step (r = LDAP_RET_KEEPALIVE \<longrightarrow> i \<in> ready (d_client_array dc)) dc dc'"
| fre: "LDAP_clnt_string_free i dc = Some (r, dc') \<Longrightarrow> client_step True dc dc'"

text \<open>What any steps lead to, with the mark \<open>True\<close> when none of them had the mark \<open>False\<close>.\<close>

inductive client_reachable :: "bool \<Rightarrow> LDAP_t \<Rightarrow> bool" where
  init: "LDAP_clnt_init True rnd grp dn u p h port w c n = Some dc \<Longrightarrow> client_reachable True dc"
| step: "client_reachable g dc \<Longrightarrow> client_step g' dc dc' \<Longrightarrow> client_reachable (g \<and> g') dc'"

lemma client_option_inv:
  assumes inv: "client_inv dc" and o: "clnt_set_option dc opt arg = Some (r, dc')"
  shows "client_inv dc'"
  by (rule client_inv_fields [OF inv])
    (use o in \<open>cases opt; cases arg; auto simp: clnt_set_option_def clnt_set_text_def clnt_set_number_def Let_def split: if_splits\<close>)+

lemma all_slots: "set [0..<LDAP_MAX_CLIENT] \<subseteq> {..<LDAP_MAX_CLIENT}"
  by auto

lemma client_step_inv: "client_step g dc dc' \<Longrightarrow> g \<Longrightarrow> client_inv dc \<Longrightarrow> client_inv dc'"
proof (induction rule: client_step.induct)
  case opt
  then show ?case using client_option_inv by blast
next
  case opn
  then show ?case using client_open_inv by blast
next
  case (cls no cr dc r dc' ev)
  from client_close_inv [OF cls(5,1,2), of cr] cls(3) show ?case by auto
next
  case (cla cr dc dc' ev)
  from client_close_all_inv [OF cla(3) all_slots, of cr] cla(1) show ?case by (auto simp: LDAP_clnt_close_all_def)
next
  case rd
  then show ?case using client_read_inv by blast
next
  case wr
  then show ?case using client_write_inv by blast
next
  case snd
  then show ?case using client_send_inv by blast
next
  case (kal kenv now dc r dc' outs ev)
  from keep_slots_inv [OF kal(2) [unfolded LDAP_clnt_keep_alive_def] kal(1) all_slots kal(4)] show ?case .
next
  case (chk cr ct dc r dc' ev)
  from check_slots_inv [OF chk(3) all_slots, of cr ct] chk(1) show ?case
    by (auto simp: LDAP_clnt_check_connection_def bind_eq_Some_conv)
next
  case dec
  then show ?case using client_decode_inv by blast
next
  case (fre i dc r dc')
  then obtain lc where lc: "d_client_array dc i = Some lc" "dc' = clnt_upd i (lc\<lparr>c_bstring := None\<rparr>) dc"
    by (auto simp: LDAP_clnt_string_free_def bind_eq_Some_conv)
  have "clnt_ok i (lc\<lparr>c_bstring := None\<rparr>)" by (rule clnt_ok_cong [OF client_clnt [OF fre(3) lc(1)]]) simp_all
  from client_upd_inv [OF fre(3) lc(1) this] show ?case by (simp add: lc(2))
qed

lemma client_reachable_inv: "client_reachable g dc \<Longrightarrow> g \<Longrightarrow> client_inv dc"
  by (induction rule: client_reachable.induct) (use client_init_inv client_step_inv in blast)+

text \<open>
  C4. In every state that the operations of the client reach, in any order, as long as no opening has
  got memory for a connection but none for its buffer, and no answer to a keepalive message has come
  for a connection that was not ready (the code breaks what follows in both cases, see
  \<open>open_without_buffer\<close> and \<open>keepalive_moves_waiting\<close>): the ready connections are one ring and the others
  another, each connection in exactly one; \<open>client_count\<close> is the number of connections; each knows its
  number, has sent no more than it has to write, and has room for at least one more byte where it reads.
\<close>

theorem ldap_client_invariant:
  assumes "client_reachable True dc"
  shows "(\<exists>rs ws. ring (d_links dc) (d_ready_queue dc) rs \<and> ring (d_links dc) (d_wait_queue dc) ws \<and>
      distinct (rs @ ws) \<and> set rs = ready (d_client_array dc) \<and> set ws = waiting (d_client_array dc)) \<and>
    d_client_count dc = int (card (dom (d_client_array dc))) \<and>
    (\<forall>i lc. d_client_array dc i = Some lc \<longrightarrow> i < LDAP_MAX_CLIENT \<and> c_no lc = int i \<and> clnt_out lc \<and> clnt_in lc)"
proof -
  note inv = client_reachable_inv [OF assms TrueI]
  then obtain rs ws where q: "queued (d_client_array dc) dc rs ws" by (auto simp: client_inv_def)
  have "distinct rs" "distinct ws" "set rs \<inter> set ws = {}"
    using q ready_waiting [of "d_client_array dc"] by (auto simp: queued_def dest: ring_distinct)
  with q have "distinct (rs @ ws)" "ring (d_links dc) (d_ready_queue dc) rs" "ring (d_links dc) (d_wait_queue dc) ws"
    "set rs = ready (d_client_array dc)" "set ws = waiting (d_client_array dc)" by (auto simp: queued_def)
  moreover have "d_client_count dc = int (card (dom (d_client_array dc)))"
    "\<forall>i lc. d_client_array dc i = Some lc \<longrightarrow> i < LDAP_MAX_CLIENT \<and> c_no lc = int i \<and> clnt_out lc \<and> clnt_in lc"
    using inv by (auto simp: client_inv_def clnt_ok_def)
  ultimately show ?thesis by blast
qed

text \<open>
  C20. In every state that the operations reach, under the same condition, that no opening was left
  without its buffer and no answer to a keepalive message came for a connection that was not ready,
  \<open>LDAP_clnt_close_all\<close> runs to its end: it shuts down and closes the socket of each connection once, in
  the order of the slots, and leaves no connection, both queues empty and the count 0. Without the
  condition it does not hold: see \<open>close_all_without_buffer\<close>.
\<close>

theorem ldap_client_close_all:
  assumes "client_reachable True dc"
  shows "\<exists>dc'. LDAP_clnt_close_all cr dc = Some (dc', concat (map (closing dc) [0..<LDAP_MAX_CLIENT])) \<and>
    d_client_array dc' = (\<lambda>_. None) \<and> d_ready_queue dc' = None \<and> d_wait_queue dc' = None \<and> d_client_count dc' = 0"
proof -
  note inv = client_reachable_inv [OF assms TrueI]
  obtain dc' where d: "close_slots cr [0..<LDAP_MAX_CLIENT] dc = Some (dc', concat (map (closing dc) [0..<LDAP_MAX_CLIENT]))"
    "client_inv dc'" "d_client_array dc' = (\<lambda>i. if i \<in> set [0..<LDAP_MAX_CLIENT] then None else d_client_array dc i)"
    using client_close_all_inv [OF inv all_slots distinct_upt] by blast
  have "d_client_array dc i = None" if "\<not> i < LDAP_MAX_CLIENT" for i
    using client_clnt [OF inv, of i] that by (cases "d_client_array dc i") (auto simp: clnt_ok_def)
  then have e: "d_client_array dc' = (\<lambda>_. None)" by (auto simp: d(3))
  with d(2) show ?thesis
    by (auto simp: client_inv_def queued_def ready_def waiting_def LDAP_clnt_close_all_def d(1))
qed


text \<open>
  C19. The loop of \<open>LDAP_clnt_decode\<close> ends: with a consistent connection, a number of passes of half
  the received bytes and one is enough, whatever was received. Its result, or a pass that is
  undefined, is that of the loop, and leaves the connection consistent.
\<close>

theorem ldap_client_decode_ends:
  assumes "clnt_in lc" "arrays_ok lc" "extra_ok extra"
  shows "decode_passes (nat (c_r_len lc) div 2 + 1) extra now ret lc = Some (decode_loop extra now ret lc) \<and>
    (\<forall>r lc'. decode_loop extra now ret lc = Some (r, lc') \<longrightarrow> clnt_in lc' \<and> arrays_ok lc' \<and> c_state lc' = c_state lc)"
  using decode_loop_ends [OF assms] by (auto simp: reads_on_def)

section \<open>What breaks the invariant\<close>

definition demo_dc0 :: LDAP_t where
  "demo_dc0 = the (LDAP_clnt_init True 7 None None None None None 389 0 2 10)"

lemma demo_dc0: "LDAP_clnt_init True 7 None None None None None 389 0 2 10 = Some demo_dc0" "client_reachable True demo_dc0"
proof -
  show "LDAP_clnt_init True 7 None None None None None 389 0 2 10 = Some demo_dc0"
    by (simp add: demo_dc0_def LDAP_clnt_init_def)
  then show "client_reachable True demo_dc0" by (rule client_reachable.init)
qed

definition demo_open :: "bool \<Rightarrow> open_env" where
  "demo_open b = \<lparr>addrinfo_r = 0, socket_r = 4, getfl_r = 0, setfl_r = 0, connect_r = -1, connect_pending = True,
     clnt_mem = True, buffer_mem = b, sockname_port = 4000\<rparr>"

lemma find_first: "0 < n \<Longrightarrow> find (\<lambda>_. True) [0..<n] = Some 0"
  by (simp add: upt_conv_Cons)

lemma find_free: "find (\<lambda>_. True) [0..<LDAP_MAX_CLIENT] = Some 0"
  by (rule find_first) simp

text \<open>
  Where \<open>malloc\<close> gives no buffer, the connection stays in its slot with the closed socket, in neither
  queue and not counted. Closing it closes the descriptor again and counts below 0.
\<close>

lemma open_without_buffer:
  "\<exists>dc'. LDAP_clnt_open (demo_open False) 9 demo_dc0 = Some (LDAP_RET_ERR_MEMORY, None, dc', [CloseFd 4]) \<and>
     d_client_array dc' 0 \<noteq> None \<and> d_client_count dc' = 0 \<and> d_ready_queue dc' = None \<and> d_wait_queue dc' = None \<and>
     (\<exists>r dc''. LDAP_clnt_close cr 0 dc' = Some (r, dc'', [Shutdown 4, CloseFd 4]) \<and> d_client_count dc'' = -1 \<and>
       d_client_array dc'' = (\<lambda>_. None))"
  by (simp del: upt_rec_numeral add: LDAP_clnt_open_def Let_def demo_open_def demo_dc0_def LDAP_clnt_init_def find_free LDAP_clnt_close_def
      clnt_fresh_def remove_wait_def LINKEDLIST_REMOVE_def)

text \<open>That state is reached, and \<open>LDAP_clnt_close_all\<close> closes a descriptor there that is closed.\<close>

lemma close_slots_empty: "d_client_array dc = (\<lambda>_. None) \<Longrightarrow> close_slots cr is dc = Some (dc, [])"
  by (induction "is") simp_all

lemma close_all_without_buffer:
  "\<exists>dc' dc''. client_reachable False dc' \<and>
     LDAP_clnt_open (demo_open False) 9 demo_dc0 = Some (LDAP_RET_ERR_MEMORY, None, dc', [CloseFd 4]) \<and>
     LDAP_clnt_close_all cr dc' = Some (dc'', [Shutdown 4, CloseFd 4]) \<and> d_client_count dc'' = -1"
proof -
  obtain dc' r dc'' where o: "LDAP_clnt_open (demo_open False) 9 demo_dc0 = Some (LDAP_RET_ERR_MEMORY, None, dc', [CloseFd 4])"
    and c: "LDAP_clnt_close cr 0 dc' = Some (r, dc'', [Shutdown 4, CloseFd 4])" "d_client_count dc'' = -1"
      "d_client_array dc'' = (\<lambda>_. None)" "d_client_array dc' 0 \<noteq> None"
    using open_without_buffer [of cr] by blast
  have r: "client_reachable False dc'"
    using client_reachable.step [OF demo_dc0(2) client_step.opn [OF o]] by (simp add: demo_open_def)
  have "\<exists>is. [0..<n] = 0 # is" if "0 < n" for n using that by (simp add: upt_conv_Cons)
  from this [of LDAP_MAX_CLIENT] obtain js where j: "[0..<LDAP_MAX_CLIENT] = 0 # js" by auto
  have "LDAP_clnt_close_all cr dc' = Some (dc'', [Shutdown 4, CloseFd 4])"
    unfolding LDAP_clnt_close_all_def j using c(1,3,4) close_slots_empty [of dc'' cr js] by simp
  with r o c(2) show ?thesis by blast
qed

text \<open>
  The answer to a keepalive message moves a waiting connection to the ready queue, but leaves its
  state, and drops what it has to write: it is then taken from the wrong queue.
\<close>

lemma keepalive_moves_waiting:
  fixes lc :: LDAP_CLNT
  assumes "d_client_array dc = [i \<mapsto> lc]" "c_state lc = LDAP_CLNT_STATE_WAITING"
    "d_ready_queue dc = None" "ring (d_links dc) (d_wait_queue dc) [i]"
  shows "\<exists>dc'. decoded_keepalive i lc dc = Some (LDAP_RET_KEEPALIVE, dc') \<and> d_ready_queue dc' = Some i \<and>
    i \<in> waiting (d_client_array dc') \<and> \<not> client_inv dc'"
  using assms
  by (auto simp: decoded_keepalive_def ring_def in_ring.simps [of _ i i i] remove_wait_def append_ready_def
      LINKEDLIST_REMOVE_def LINKEDLIST_APPEND_def waiting_def client_inv_def queued_def ready_def)


text \<open>A client that has opened a connection.\<close>

definition demo_opened :: LDAP_t where
  "demo_opened = (case LDAP_clnt_open (demo_open True) 9 demo_dc0 of Some (_, _, dc, _) \<Rightarrow> dc)"

lemma demo_opened:
  "LDAP_clnt_open (demo_open True) 9 demo_dc0 = Some (LDAP_RET_OK, Some 0, demo_opened, [])"
  "d_client_array demo_opened = [0 \<mapsto> (clnt_fresh 0 4 9 4000)\<lparr>c_w_buffer := Some []\<rparr>]" "d_client_count demo_opened = 1"
  by (simp_all del: upt_rec_numeral add: demo_opened_def LDAP_clnt_open_def Let_def demo_open_def demo_dc0_def
      LDAP_clnt_init_def find_free append_wait_def LINKEDLIST_APPEND_def clnt_upd_def)

lemma demo_opened_reachable: "client_reachable True demo_opened"
  using client_reachable.step [OF demo_dc0(2) client_step.opn [OF demo_opened(1)]] by (simp add: demo_open_def)

theorem ldap_client_invariant_witness:
  "d_client_count demo_opened = 1 \<and>
   (\<exists>ws. ring (d_links demo_opened) (d_wait_queue demo_opened) ws \<and> distinct ws \<and> set ws = {0})"
proof -
  have "waiting (d_client_array demo_opened) = {0}" by (auto simp: waiting_def demo_opened(2) clnt_fresh_def split: if_splits)
  with ldap_client_invariant [OF demo_opened_reachable] demo_opened(3) show ?thesis by auto
qed

theorem ldap_client_close_all_witness:
  "closing demo_opened 0 = [Shutdown 4, CloseFd 4] \<and>
   (\<exists>dc'. LDAP_clnt_close_all (\<lambda>_. 0) demo_opened =
      Some (dc', concat (map (closing demo_opened) [0..<LDAP_MAX_CLIENT])) \<and> d_client_count dc' = 0)"
proof -
  have "closing demo_opened 0 = [Shutdown 4, CloseFd 4]" by (simp add: closing_def demo_opened(2) clnt_fresh_def)
  with ldap_client_close_all [OF demo_opened_reachable, of "\<lambda>_. 0"] show ?thesis by blast
qed

text \<open>A connection that has received twelve bytes.\<close>

definition demo_received :: LDAP_CLNT where
  "demo_received = (clnt_fresh 0 4 9 4000)\<lparr>c_state := LDAP_CLNT_STATE_READY, c_w_buffer := Some [],
     c_r_buffer := Some (demo_entry @ replicate 20 0), c_r_len := 12\<rparr>"

theorem ldap_client_decode_ends_witness:
  "decode_passes 7 (\<lambda>k. Some (replicate k 0)) 10 LDAP_RET_OK demo_received =
     Some (decode_loop (\<lambda>k. Some (replicate k 0)) 10 LDAP_RET_OK demo_received)"
proof -
  have "length demo_entry = 12" by (simp add: demo_entry_def)
  then have "clnt_in demo_received" "arrays_ok demo_received" "extra_ok (\<lambda>k. Some (replicate k 0))" "c_r_len demo_received = 12"
    by (simp_all add: demo_received_def clnt_fresh_def clnt_in_def arrays_ok_def extra_ok_def)
  with ldap_client_decode_ends [of demo_received "\<lambda>k. Some (replicate k 0)"] show ?thesis by simp
qed

end
