(* ===== verification/LdapAttrs.thy ===== *)
theory LdapAttrs
  imports LinkedList LdapRequestGen LdapResponse
begin

text \<open>
  What a client does with the results it has collected: \<open>ber_attr_to_obj\<close> and \<open>ber_to_attrs\<close> of
  libs/stacks/ldap/ldap_common.c build lists of objects and of attributes out of them. The results
  lie in a block that is longer than they are; the bytes behind them are a parameter. What a server
  generates comes back as the object that it was.
\<close>

section \<open>Objects\<close>

text \<open>\<open>atable\<close> and \<open>dn\<close> are not used here. The objects are allocated with zeroes in them.\<close>

record LDAP_OBJECT =
  o_name :: bytes
  o_value :: bytes
  o_object_class :: bytes
  o_error :: bytes
  o_alist :: "(bytes \<times> bytes list) list"

definition object_zero :: LDAP_OBJECT where
  "object_zero = \<lparr>o_name = [], o_value = [], o_object_class = [], o_error = [], o_alist = []\<rparr>"

text \<open>
  The values of a set of \<open>len\<close> bytes at \<open>i\<close>, of which each goes through the array \<open>buff\<close> of \<open>cap\<close>
  bytes; the last stays there. Another tag than that of an octet string is passed over, and does
  not count. The position behind, the values, \<open>buff\<close>.
\<close>

function obj_values ::
    "nat \<Rightarrow> bool \<Rightarrow> bytes \<Rightarrow> nat \<Rightarrow> int \<Rightarrow> bytes list \<Rightarrow> bytes \<Rightarrow> (nat \<times> bytes list \<times> bytes) option" where
  "obj_values cap keep m i len vals buff =
     (if len \<le> 0 then Some (i, vals, buff)
      else do {
        c \<leftarrow> at m i;
        if c = 0x04 then do {
          (n, k) \<leftarrow> FIND_LENGTH m (i + 1);
          v \<leftarrow> copy_field cap m k (nat n);
          obj_values cap keep m (k + nat n) (len - (n + int k - int i))
            (if keep then LBER_valuelist_add vals (cstr v) else vals) (cstr v)
        }
        else obj_values cap keep m (i + 1) len vals buff
      })"
  by pat_completeness auto
termination
  by (relation "measure (\<lambda>(cap, keep, m, i, len, vals, buff). length m - i)")
    (auto simp: at_Some_iff dest!: FIND_LENGTH_next)

declare obj_values.simps [simp del]

lemma obj_values_next: "obj_values cap keep m i len vals buff = Some (k, vals', buff') \<Longrightarrow> i \<le> k"
proof (induction cap keep m i len vals buff rule: obj_values.induct)
  case (1 cap keep m i len vals buff)
  show ?case
    using 1(1,2) 1(3) [unfolded obj_values.simps [of cap keep m i len vals buff]]
    by (fastforce simp: bind_eq_Some_conv split: if_splits dest!: FIND_LENGTH_next)
qed

text \<open>
  The names of \<open>len\<close> bytes of attributes, each with its values. In an entry the attribute
  \<open>objectClass\<close> is kept apart: the class is what \<open>buff\<close> holds behind its values.
\<close>

function obj_parts :: "bool \<Rightarrow> bytes \<Rightarrow> nat \<Rightarrow> int \<Rightarrow> LDAP_OBJECT \<Rightarrow> bytes \<Rightarrow> (nat \<times> LDAP_OBJECT \<times> bytes) option" where
  "obj_parts entry m i len ob buff =
     (if len \<le> 0 then Some (i, ob, buff)
      else do {
        c \<leftarrow> at m i;
        if c \<noteq> 0x04 then obj_parts entry m (i + 1) len ob buff
        else do {
          (n, k) \<leftarrow> FIND_LENGTH m (i + 1);
          attr \<leftarrow> copy_field ATTR_NAME_SIZE m k (nat n);
          let len = len - (n + int k - int i);
          let j = k + nat n;
          c \<leftarrow> at m j;
          if c \<noteq> 0x31 then obj_parts entry m (j + 1) len ob buff
          else do {
            (n, k) \<leftarrow> FIND_LENGTH m (j + 1);
            let len = len - (n + int k - int j);
            let cl = (entry \<and> cstr attr = str ''objectClass'');
            (q, vals, buff) \<leftarrow> obj_values 1024 (\<not> cl) m k n [] buff;
            if cl then
              if length buff < ATTR_NAME_SIZE then obj_parts entry m q len (ob\<lparr>o_object_class := buff\<rparr>) buff else None
            else obj_parts entry m q len (ob\<lparr>o_alist := o_alist ob @ LBER_attrlist_add [] (cstr attr) vals\<rparr>) buff
          }
        }
      })"
  by pat_completeness auto
termination
  by (relation "measure (\<lambda>(entry, m, i, len, ob, buff). length m - i)")
    (auto simp: at_Some_iff dest!: FIND_LENGTH_next obj_values_next)

declare obj_parts.simps [simp del]

lemma obj_parts_next: "obj_parts entry m i len ob buff = Some (k, ob', buff') \<Longrightarrow> i \<le> k"
proof (induction "length m - i" arbitrary: i len ob buff rule: less_induct)
  case less
  have IH: "i < j \<Longrightarrow> i < length m \<Longrightarrow> obj_parts entry m j len1 ob1 buff1 = Some (k, ob', buff') \<Longrightarrow> i \<le> k" for j len1 ob1 buff1
    using less.hyps [of j] by fastforce
  show ?case
    using less.prems [unfolded obj_parts.simps [of entry m i len ob buff]]
    by (auto simp: bind_eq_Some_conv Let_def at_Some_iff split: if_splits dest!: FIND_LENGTH_next obj_values_next intro: IH [rotated 2])
qed

text \<open>The attributes of \<open>len\<close> bytes, each a sequence.\<close>

function obj_attrs :: "bool \<Rightarrow> bytes \<Rightarrow> nat \<Rightarrow> int \<Rightarrow> LDAP_OBJECT \<Rightarrow> bytes \<Rightarrow> (nat \<times> LDAP_OBJECT \<times> bytes) option" where
  "obj_attrs entry m i len ob buff =
     (if len \<le> 0 then Some (i, ob, buff)
      else do {
        c \<leftarrow> at m i;
        if c = 0x30 then do {
          (n, k) \<leftarrow> FIND_LENGTH m (i + 1);
          (q, ob, buff) \<leftarrow> obj_parts entry m k n ob buff;
          obj_attrs entry m q (len - (n + int k - int i)) ob buff
        }
        else obj_attrs entry m (i + 1) len ob buff
      })"
  by pat_completeness auto
termination
  by (relation "measure (\<lambda>(entry, m, i, len, ob, buff). length m - i)")
    (auto simp: at_Some_iff dest!: FIND_LENGTH_next obj_parts_next)

declare obj_attrs.simps [simp del]

lemma obj_attrs_next: "obj_attrs entry m i len ob buff = Some (k, ob', buff') \<Longrightarrow> i \<le> k"
proof (induction "length m - i" arbitrary: i len ob buff rule: less_induct)
  case less
  have IH: "i < j \<Longrightarrow> i < length m \<Longrightarrow> obj_attrs entry m j len1 ob1 buff1 = Some (k, ob', buff') \<Longrightarrow> i \<le> k" for j len1 ob1 buff1
    using less.hyps [of j] by fastforce
  show ?case
    using less.prems [unfolded obj_attrs.simps [of entry m i len ob buff]]
    by (auto simp: bind_eq_Some_conv Let_def at_Some_iff split: if_splits dest!: FIND_LENGTH_next obj_parts_next intro: IH [rotated 2])
qed

text \<open>
  The list that is returned: the objects that were linked, in the order of their allocation, the entry
  pointer and the links between them.
\<close>

type_synonym objects = "LDAP_OBJECT list \<times> nat option \<times> nat links"

definition link_object :: "LDAP_OBJECT \<Rightarrow> objects \<Rightarrow> objects option" where
  "link_object ob = (\<lambda>(os, first, h). do {
     (first, h) \<leftarrow> LINKEDLIST_APPEND first (length os) h;
     Some (os @ [ob], first, h)
   })"

text \<open>The last object linked a second time.\<close>

definition link_again :: "objects \<Rightarrow> objects option" where
  "link_again = (\<lambda>(os, first, h). do {
     (first, h) \<leftarrow> LINKEDLIST_APPEND first (length os - 1) h;
     Some (os, first, h)
   })"

text \<open>An entry from behind its length on. The name goes through \<open>buff\<close> to a shorter array.\<close>

definition obj_entry :: "bytes \<Rightarrow> nat \<Rightarrow> objects \<Rightarrow> (nat \<times> objects) option" where
  "obj_entry m i st = do {
     c \<leftarrow> at m i;
     if c = 0x04 then do {
       (n, k) \<leftarrow> FIND_LENGTH m (i + 1);
       buff \<leftarrow> copy_field 1024 m k (nat n);
       let buff = cstr buff;
       let j = k + nat n;
       if length buff \<ge> ATTR_NAME_SIZE then None else do {
         c \<leftarrow> at m j;
         if c = 0x30 then do {
           (n, k) \<leftarrow> FIND_LENGTH m (j + 1);
           (q, ob, _) \<leftarrow> obj_attrs True m k n (object_zero\<lparr>o_name := buff\<rparr>) buff;
           st \<leftarrow> link_object ob st;
           Some (q, st)
         }
         else Some (j + 1, st)
       }
     }
     else Some (i + 1, st)
   }"

text \<open>
  A field of an extended response through \<open>buff\<close>, if its tag is there; without it one byte is passed
  over all the same. \<open>len\<close> is what is left of all results.
\<close>

definition obj_field :: "byte \<Rightarrow> bytes \<Rightarrow> nat \<Rightarrow> int \<Rightarrow> (nat \<times> int \<times> bytes option) option" where
  "obj_field tag m i len = do {
     c \<leftarrow> at m i;
     if c = tag then do {
       (n, k) \<leftarrow> FIND_LENGTH m (i + 1);
       buff \<leftarrow> copy_field 1024 m k (nat n);
       Some (k + nat n, len - (int (k + nat n) - int i), Some (cstr buff))
     }
     else Some (i + 1, len, None)
   }"

text \<open>
  An extended response from behind its length on, of which \<open>len\<close> has been taken away already. The
  object is linked before its fields are set, which makes no difference, and again behind its value.
\<close>

definition obj_extended :: "bytes \<Rightarrow> nat \<Rightarrow> int \<Rightarrow> objects \<Rightarrow> (nat \<times> int \<times> objects) option" where
  "obj_extended m i len st = do {
     (i, len, _) \<leftarrow> obj_field 0x0a m i len;
     (i, len, _) \<leftarrow> obj_field 0x04 m i len;
     (i, len, err) \<leftarrow> obj_field 0x04 m i len;
     (i, len, name) \<leftarrow> obj_field 0x8a m i len;
     let ob = object_zero\<lparr>o_object_class := str ''extended'', o_error := or_empty err, o_name := or_empty name\<rparr>;
     if length (or_empty name) \<ge> ATTR_NAME_SIZE then None else do {
       c \<leftarrow> at m i;
       if c = 0x8b then do {
         (_, k) \<leftarrow> FIND_LENGTH m (i + 1);
         let len = len - (int k - int i);
         c \<leftarrow> at m k;
         if c = 0x30 then do {
           (n, q) \<leftarrow> FIND_LENGTH m (k + 1);
           let len = len - (int q - int k);
           (i, ob, _) \<leftarrow> obj_attrs False m q n ob [];
           st \<leftarrow> link_object ob st;
           st \<leftarrow> link_again st;
           Some (i, len, st)
         }
         else do { st \<leftarrow> link_object ob st; Some (k + 1, len, st) }
       }
       else do { st \<leftarrow> link_object ob st; Some (i + 1, len, st) }
     }
   }"

lemma obj_entry_next: "obj_entry m i st = Some (k, st') \<Longrightarrow> i \<le> k"
  by (auto simp: obj_entry_def bind_eq_Some_conv Let_def split: if_splits dest!: FIND_LENGTH_next obj_attrs_next)

lemma obj_field_next: "obj_field tag m i len = Some (k, l, v) \<Longrightarrow> i \<le> k"
  by (auto simp: obj_field_def bind_eq_Some_conv split: if_splits dest!: FIND_LENGTH_next)

lemma obj_extended_next: "obj_extended m i len st = Some (k, l, st') \<Longrightarrow> i \<le> k"
  by (auto simp: obj_extended_def bind_eq_Some_conv Let_def split: if_splits
      dest!: FIND_LENGTH_next obj_attrs_next obj_field_next)

text \<open>The results one by one. Another tag than the two is passed over, and does not count.\<close>

function obj_elements :: "bytes \<Rightarrow> nat \<Rightarrow> int \<Rightarrow> objects \<Rightarrow> objects option" where
  "obj_elements m i len st =
     (if len \<le> 0 then Some st
      else do {
        c \<leftarrow> at m i;
        if c = 0x64 then do {
          (n, k) \<leftarrow> FIND_LENGTH m (i + 1);
          (q, st) \<leftarrow> obj_entry m k st;
          obj_elements m q (len - (n + int k - int i)) st
        }
        else if c = 0x78 then do {
          (n, k) \<leftarrow> FIND_LENGTH m (i + 1);
          (q, len, st) \<leftarrow> obj_extended m k (len - (n + int k - int i)) st;
          obj_elements m q len st
        }
        else obj_elements m (i + 1) len st
      })"
  by pat_completeness auto
termination
  by (relation "measure (\<lambda>(m, i, len, st). length m - i)")
    (auto simp: at_Some_iff dest!: FIND_LENGTH_next obj_entry_next obj_extended_next)

declare obj_elements.simps [simp del]

text \<open>\<open>behind\<close> is what the block holds behind the results.\<close>

definition ber_attr_to_obj :: "bytes \<Rightarrow> LDAP_CLNT \<Rightarrow> (int \<times> objects option) option" where
  "ber_attr_to_obj behind lc =
     (case c_rber lc of
        None \<Rightarrow> Some (LDAP_RET_ERR_DECODE, None)
      | Some b \<Rightarrow> do {
          st \<leftarrow> obj_elements (b_data b @ behind) 0 (int (length (b_data b))) ([], None, null_links);
          Some (LDAP_RET_OK, Some st)
        })"

definition LBER_object_decode :: "bytes \<Rightarrow> LDAP_CLNT \<Rightarrow> (int \<times> objects option \<times> LDAP_CLNT) option" where
  "LBER_object_decode behind lc = do {
     (r, os) \<leftarrow> ber_attr_to_obj behind lc;
     if r = LDAP_RET_ERR_DECODE then Some (r, os, lc) else Some (LDAP_RET_OK, os, lc\<lparr>c_rber := None\<rparr>)
   }"

section \<open>Lists of attributes\<close>

text \<open>
  \<open>ber_to_attrs\<close>: an attribute without a set gets the values of the one before, which \<open>vals\<close> still
  holds.
\<close>

type_synonym attr_list = "(bytes \<times> bytes list) list"

function attrs_parts :: "bytes \<Rightarrow> nat \<Rightarrow> int \<Rightarrow> attr_list \<Rightarrow> bytes list \<Rightarrow> (nat \<times> attr_list \<times> bytes list) option" where
  "attrs_parts m i len as vals =
     (if len \<le> 0 then Some (i, as, vals)
      else do {
        c \<leftarrow> at m i;
        if c \<noteq> 0x04 then attrs_parts m (i + 1) len as vals
        else do {
          (n, k) \<leftarrow> FIND_LENGTH m (i + 1);
          attr \<leftarrow> copy_field ATTR_NAME_SIZE m k (nat n);
          let len = len - (n + int k - int i);
          let j = k + nat n;
          c \<leftarrow> at m j;
          if c \<noteq> 0x31 then attrs_parts m (j + 1) len (LBER_attrlist_add as (cstr attr) vals) vals
          else do {
            (n, k) \<leftarrow> FIND_LENGTH m (j + 1);
            (q, vals, _) \<leftarrow> obj_values ATTR_VALUE_SIZE True m k n [] [];
            attrs_parts m q (len - (n + int k - int j)) (LBER_attrlist_add as (cstr attr) vals) vals
          }
        }
      })"
  by pat_completeness auto
termination
  by (relation "measure (\<lambda>(m, i, len, as, vals). length m - i)")
    (auto simp: at_Some_iff dest!: FIND_LENGTH_next obj_values_next)

declare attrs_parts.simps [simp del]

lemma attrs_parts_next: "attrs_parts m i len as vals = Some (k, as', vals') \<Longrightarrow> i \<le> k"
proof (induction "length m - i" arbitrary: i len as vals rule: less_induct)
  case less
  have IH: "i < j \<Longrightarrow> i < length m \<Longrightarrow> attrs_parts m j len1 as1 vals1 = Some (k, as', vals') \<Longrightarrow> i \<le> k" for j len1 as1 vals1
    using less.hyps [of j] by fastforce
  show ?case
    using less.prems [unfolded attrs_parts.simps [of m i len as vals]]
    by (auto simp: bind_eq_Some_conv Let_def at_Some_iff split: if_splits dest!: FIND_LENGTH_next obj_values_next intro: IH [rotated 2])
qed

function attrs_seqs :: "bytes \<Rightarrow> nat \<Rightarrow> int \<Rightarrow> attr_list \<Rightarrow> bytes list \<Rightarrow> attr_list option" where
  "attrs_seqs m i len as vals =
     (if len \<le> 0 then Some as
      else do {
        c \<leftarrow> at m i;
        if c = 0x30 then do {
          (n, k) \<leftarrow> FIND_LENGTH m (i + 1);
          (q, as, vals) \<leftarrow> attrs_parts m k n as vals;
          attrs_seqs m q (len - (n + int k - int i)) as vals
        }
        else attrs_seqs m (i + 1) len as vals
      })"
  by pat_completeness auto
termination
  by (relation "measure (\<lambda>(m, i, len, as, vals). length m - i)")
    (auto simp: at_Some_iff dest!: FIND_LENGTH_next attrs_parts_next)

declare attrs_seqs.simps [simp del]

text \<open>The return value and the list that is stored, if one is.\<close>

definition ber_to_attrs :: "bytes \<Rightarrow> BER option \<Rightarrow> (int \<times> attr_list option) option" where
  "ber_to_attrs behind ber =
     (case ber of
        None \<Rightarrow> Some (-1, None)
      | Some b \<Rightarrow>
          if b_data b = [] then Some (-1, None)
          else do {
            let m = b_data b @ behind;
            c \<leftarrow> at m 0;
            as \<leftarrow> (if c = 0x30 then do { (n, k) \<leftarrow> FIND_LENGTH m 1; attrs_seqs m k n [] [] } else Some []);
            Some (0, Some as)
          })"

section \<open>What is encoded is decoded\<close>

lemma obj_values_enc:
  assumes "drop i m = concat (map (tlv 0x04) vs) @ r" "\<forall>v \<in> set vs. length v < cap \<and> 0 \<notin> set v" "cap \<le> ATTR_VALUE_SIZE"
  shows "obj_values cap keep m i (int (length (concat (map (tlv 0x04) vs)))) vals buff =
    Some (i + length (concat (map (tlv 0x04) vs)), if keep then vals @ vs else vals, if vs = [] then buff else last vs)"
  using assms(1,2)
proof (induction vs arbitrary: i vals buff)
  case Nil
  then show ?case by (simp add: obj_values.simps [of cap keep m i])
next
  case (Cons v vs)
  let ?C = "concat (map (tlv 0x04) vs)"
  have d: "drop i m = tlv 0x04 v @ (?C @ r)" using Cons.prems(1) by simp
  have v: "length v < 2 ^ 24" "length v < cap" "cstr v = v" "length v \<le> 8191"
    using Cons.prems(2) assms(3) by (simp_all add: cstr_id)
  have n: "int (length (concat (map (tlv 0x04) (v # vs)))) - (int (length v) + int (i + hdr (length v)) - int i) = int (length ?C)"
    "\<not> int (length (concat (map (tlv 0x04) (v # vs)))) \<le> 0"
    using hdr_ge_2 [OF v(1)] by (simp_all add: length_tlv)
  have d': "drop (i + hdr (length v) + length v) m = ?C @ r" using step_over [OF d] by (simp add: add.assoc)
  have "\<forall>v \<in> set vs. length v < cap \<and> 0 \<notin> set v" using Cons.prems(2) by simp
  note IH = Cons.IH [OF d' this]
  show ?case
    unfolding obj_values.simps [of cap keep m i] n(1)
    using step_at [OF d] step_find [OF d v(1)] step_copy [OF d v(2)] n(2) IH
    by (simp add: v LBER_valuelist_add_def length_tlv add.assoc split: if_splits)
qed

text \<open>What an attribute adds to an object.\<close>

definition obj_add :: "bool \<Rightarrow> bytes \<times> bytes list \<Rightarrow> LDAP_OBJECT \<Rightarrow> LDAP_OBJECT" where
  "obj_add entry a ob =
     (if entry \<and> fst a = str ''objectClass'' then ob\<lparr>o_object_class := last (snd a)\<rparr>
      else ob\<lparr>o_alist := o_alist ob @ [a]\<rparr>)"

definition fits_object :: "bytes \<times> bytes list \<Rightarrow> bool" where
  "fits_object a \<longleftrightarrow> length (fst a) < 256 \<and> 0 \<notin> set (fst a) \<and> snd a \<noteq> [] \<and>
     (\<forall>v \<in> set (snd a). length v < 1024 \<and> 0 \<notin> set v) \<and> (fst a = str ''objectClass'' \<longrightarrow> length (last (snd a)) < 256)"

lemma obj_parts_enc:
  assumes d: "drop i m = enc_attr a @ r" and f: "fits_object a" and l: "length (enc_attr a) < 2 ^ 24"
  shows "obj_parts entry m i (int (length (enc_attr a))) ob buff =
    Some (i + length (enc_attr a), obj_add entry a ob, last (snd a))"
proof -
  obtain n vs where a: "a = (n, vs)" by fastforce
  let ?V = "concat (map (tlv 0x04) vs)"
  have e: "enc_attr a = tlv 0x04 n @ tlv 0x31 ?V" by (simp add: a enc_attr_def)
  have n: "length n < 256" "cstr n = n" "length n < 2 ^ 24" "length n \<le> 255"
    using f by (auto simp: a fits_object_def cstr_id)
  have vs: "vs \<noteq> []" "\<forall>v \<in> set vs. length v < 1024 \<and> 0 \<notin> set v" "n = str ''objectClass'' \<longrightarrow> length (last vs) < 256"
    using f by (auto simp: a fits_object_def)
  have d1: "drop i m = tlv 0x04 n @ (tlv 0x31 ?V @ r)" using d by (simp add: e)
  have d2: "drop (i + hdr (length n) + length n) m = tlv 0x31 ?V @ r" using step_over [OF d1] by (simp add: add.assoc)
  have V: "length ?V < 2 ^ 24" using l by (simp add: e length_tlv del: length_concat)
  let ?j = "i + hdr (length n) + length n"
  have v: "obj_values 1024 keep m (?j + hdr (length ?V)) (int (length ?V)) [] buff =
      Some (?j + hdr (length ?V) + length ?V, if keep then vs else [], last vs)" for keep
    using obj_values_enc [OF step_in [OF d2] vs(2)] vs(1) by simp
  have L: "int (length (enc_attr a)) = int (hdr (length n)) + int (length n) + int (hdr (length ?V)) + int (length ?V)"
    by (simp add: e length_tlv del: length_concat)
  have pos: "\<not> int (hdr (length n)) + int (length n) + int (hdr (length ?V)) + int (length ?V) \<le> 0"
    using hdr_ge_2 [OF n(3)] by linarith
  have end_: "obj_parts e m q 0 ob buff = Some (q, ob, buff)" for e q ob buff
    by (simp add: obj_parts.simps [of e m q])
  have q: "i + length (enc_attr a) = ?j + hdr (length ?V) + length ?V" by (simp add: e length_tlv del: length_concat)
  show ?thesis
    unfolding obj_parts.simps [of entry m i] Let_def q L
    using step_at [OF d1] step_find [OF d1 n(3)] step_copy [OF d1 n(1)] step_at [OF d2] step_find [OF d2 V] pos v vs(1,3)
    by (simp add: n(2,4) end_ obj_add_def a LBER_attrlist_add_def del: length_concat)
qed

lemma obj_attrs_enc:
  assumes "drop i m = concat (map (\<lambda>a. tlv 0x30 (enc_attr a)) as) @ r" "\<forall>a \<in> set as. fits_object a"
    "length (concat (map (\<lambda>a. tlv 0x30 (enc_attr a)) as)) < 2 ^ 24"
  shows "\<exists>buff'. obj_attrs entry m i (int (length (concat (map (\<lambda>a. tlv 0x30 (enc_attr a)) as)))) ob buff =
    Some (i + length (concat (map (\<lambda>a. tlv 0x30 (enc_attr a)) as)), fold (obj_add entry) as ob, buff')"
  using assms
proof (induction as arbitrary: i ob buff)
  case Nil
  then show ?case by (simp add: obj_attrs.simps [of entry m i])
next
  case (Cons a as)
  let ?C = "concat (map (\<lambda>a. tlv 0x30 (enc_attr a)) as)"
  let ?A = "enc_attr a"
  have d: "drop i m = tlv 0x30 ?A @ (?C @ r)" using Cons.prems(1) by simp
  have L: "length (concat (map (\<lambda>a. tlv 0x30 (enc_attr a)) (a # as))) = hdr (length ?A) + length ?A + length ?C"
    by (simp add: length_tlv del: length_concat)
  then have A: "length ?A < 2 ^ 24" "length ?C < 2 ^ 24" using Cons.prems(3) by linarith+
  have f: "fits_object a" "\<forall>a \<in> set as. fits_object a" using Cons.prems(2) by simp_all
  note p = obj_parts_enc [OF step_in [OF d] f(1) A(1)]
  have d': "drop (i + hdr (length ?A) + length ?A) m = ?C @ r" using step_over [OF d] by (simp add: add.assoc)
  obtain buff' where IH: "obj_attrs entry m (i + hdr (length ?A) + length ?A) (int (length ?C)) (obj_add entry a ob) (last (snd a)) =
      Some (i + hdr (length ?A) + length ?A + length ?C, fold (obj_add entry) as (obj_add entry a ob), buff')"
    using Cons.IH [OF d' f(2) A(2)] by blast
  have n: "int (hdr (length ?A) + length ?A + length ?C) - (int (length ?A) + int (i + hdr (length ?A)) - int i) = int (length ?C)"
    "\<not> int (hdr (length ?A) + length ?A + length ?C) \<le> 0" using hdr_ge_2 [OF A(1)] by simp_all
  show ?case unfolding L
    unfolding obj_attrs.simps [of entry m i] n(1)
    using step_at [OF d] step_find [OF d A(1)] n(2) p IH by (simp add: add.assoc del: length_concat)
qed


section \<open>Objects\<close>

text \<open>
  The object that a client makes of an entry: the last value of the class is its class, the other
  attributes are its attributes.
\<close>

definition object_of :: "bytes \<Rightarrow> (bytes \<times> bytes list) list \<Rightarrow> LDAP_OBJECT" where
  "object_of dn as =
     (let cs = filter (\<lambda>a. fst a = str ''objectClass'') as
      in object_zero\<lparr>o_name := dn, o_object_class := (if cs = [] then [] else last (snd (last cs))),
        o_alist := filter (\<lambda>a. fst a \<noteq> str ''objectClass'') as\<rparr>)"

lemma object_of_fold: "fold (obj_add True) as (object_zero\<lparr>o_name := dn\<rparr>) = object_of dn as"
proof (induction as rule: rev_induct)
  case Nil
  show ?case by (simp add: object_of_def object_zero_def)
next
  case (snoc a as)
  then show ?case by (simp add: object_of_def obj_add_def Let_def)
qed

text \<open>The results are in a list that is linked in their order.\<close>

definition linked_objects :: "objects \<Rightarrow> LDAP_OBJECT list \<Rightarrow> bool" where
  "linked_objects st os \<longleftrightarrow> (\<exists>first h. st = (os, first, h) \<and> ring h first [0..<length os])"

lemma link_object_linked: "linked_objects st os \<Longrightarrow> \<exists>st'. link_object ob st = Some st' \<and> linked_objects st' (os @ [ob])"
proof -
  assume "linked_objects st os"
  then obtain first h where st: "st = (os, first, h)" "ring h first [0..<length os]" by (auto simp: linked_objects_def)
  obtain f h' where "LINKEDLIST_APPEND first (length os) h = Some (f, h')" "ring h' f ([0..<length os] @ [length os])"
    using rq.append_law [OF st(2), of "length os"] by auto
  then show ?thesis by (simp add: link_object_def st(1) linked_objects_def)
qed

lemma obj_entry_enc:
  assumes d: "drop i m = enc_entry (Some dn) (concat (map (\<lambda>a. tlv 0x30 (enc_attr a)) as)) @ r"
    and dn: "length dn < 256" "0 \<notin> set dn" and as: "\<forall>a \<in> set as. fits_object a"
    and l: "length (concat (map (\<lambda>a. tlv 0x30 (enc_attr a)) as)) < 2 ^ 24" and st: "linked_objects st os"
  shows "\<exists>st'. obj_entry m i st =
      Some (i + length (enc_entry (Some dn) (concat (map (\<lambda>a. tlv 0x30 (enc_attr a)) as))), st') \<and>
    linked_objects st' (os @ [object_of dn as])"
proof -
  let ?A = "concat (map (\<lambda>a. tlv 0x30 (enc_attr a)) as)"
  have d1: "drop i m = tlv 0x04 dn @ (tlv 0x30 ?A @ r)" using d by (simp add: enc_entry_def or_empty_def)
  have d2: "drop (i + hdr (length dn) + length dn) m = tlv 0x30 ?A @ r" using step_over [OF d1] by (simp add: add.assoc)
  have n: "length dn < 2 ^ 24" "length dn < 1024" "cstr dn = dn" using dn by (simp_all add: cstr_id)
  let ?j = "i + hdr (length dn) + length dn"
  obtain buff where a: "obj_attrs True m (?j + hdr (length ?A)) (int (length ?A)) (object_zero\<lparr>o_name := dn\<rparr>) dn =
      Some (?j + hdr (length ?A) + length ?A, object_of dn as, buff)"
    using obj_attrs_enc [OF step_in [OF d2] as l] unfolding object_of_fold [symmetric] by blast
  obtain st' where s: "link_object (object_of dn as) st = Some st'" "linked_objects st' (os @ [object_of dn as])"
    using link_object_linked [OF st] by blast
  have L: "length (enc_entry (Some dn) ?A) = hdr (length dn) + length dn + (hdr (length ?A) + length ?A)"
    by (simp add: enc_entry_def or_empty_def length_tlv del: length_concat)
  show ?thesis unfolding L obj_entry_def Let_def
    using step_at [OF d1] step_find [OF d1 n(1)] step_copy [OF d1 n(2)] step_at [OF d2] step_find [OF d2 l] a s dn(1)
    by (simp add: n(3) add.assoc del: length_concat)
qed

text \<open>An entry that a server can send and a client take apart.\<close>

definition sendable :: "bytes \<Rightarrow> (bytes \<times> bytes list) list \<Rightarrow> bool" where
  "sendable dn as \<longleftrightarrow> length dn < 256 \<and> 0 \<notin> set dn \<and> as \<noteq> [] \<and> (\<forall>a \<in> set as. fits_object a) \<and>
     length (concat (map (\<lambda>a. tlv 0x30 (enc_attr a)) as)) \<le> 131056"

definition entry_bytes :: "bytes \<times> (bytes \<times> bytes list) list \<Rightarrow> bytes" where
  "entry_bytes e = tlv 0x64 (enc_entry (Some (fst e)) (concat (map (\<lambda>a. tlv 0x30 (enc_attr a)) (snd e))))"

lemma obj_elements_enc:
  assumes "drop i m = concat (map entry_bytes es) @ r" "\<forall>(dn, as) \<in> set es. sendable dn as" "linked_objects st os"
  shows "\<exists>st'. obj_elements m i (int (length (concat (map entry_bytes es)))) st = Some st' \<and>
    linked_objects st' (os @ map (\<lambda>(dn, as). object_of dn as) es)"
  using assms
proof (induction es arbitrary: i st os)
  case Nil
  then show ?case by (simp add: obj_elements.simps [of m i])
next
  case (Cons e es)
  obtain dn as where e: "e = (dn, as)" by fastforce
  have s: "sendable dn as" "\<forall>(dn, as) \<in> set es. sendable dn as" using Cons.prems(2) by (auto simp: e)
  let ?A = "concat (map (\<lambda>a. tlv 0x30 (enc_attr a)) as)"
  let ?E = "enc_entry (Some dn) ?A" and ?C = "concat (map entry_bytes es)"
  have d: "drop i m = tlv 0x64 ?E @ (?C @ r)" using Cons.prems(1) by (simp add: entry_bytes_def [of e, unfolded e] e)
  have A: "length ?A \<le> 131056" "length dn < 256" "0 \<notin> set dn" "\<forall>a \<in> set as. fits_object a"
    using s(1) by (simp_all add: sendable_def)
  have b: "length (tlv 0x04 dn) \<le> length dn + 5" "length (tlv 0x30 ?A) \<le> length ?A + 5"
    using A(1,2) by (simp_all add: length_tlv_le del: length_concat)
  have E: "length ?E < 2 ^ 24" using A(1,2) b by (simp add: enc_entry_def or_empty_def del: length_concat)
  have A24: "length ?A < 2 ^ 24" using A(1) by (simp del: length_concat)
  obtain st1 where 1: "obj_entry m (i + hdr (length ?E)) st = Some (i + hdr (length ?E) + length ?E, st1)"
    "linked_objects st1 (os @ [object_of dn as])"
    using obj_entry_enc [OF step_in [OF d] A(2-4) A24 Cons.prems(3)] by blast
  have d': "drop (i + hdr (length ?E) + length ?E) m = ?C @ r" using step_over [OF d] by (simp add: add.assoc)
  obtain st2 where 2: "obj_elements m (i + hdr (length ?E) + length ?E) (int (length ?C)) st1 = Some st2"
    "linked_objects st2 ((os @ [object_of dn as]) @ map (\<lambda>(dn, as). object_of dn as) es)"
    using Cons.IH [OF d' s(2) 1(2)] by blast
  have L: "length (concat (map entry_bytes (e # es))) = hdr (length ?E) + length ?E + length ?C"
    by (simp add: entry_bytes_def [of e, unfolded e] e length_tlv del: length_concat)
  have n: "int (hdr (length ?E) + length ?E + length ?C) - (int (length ?E) + int (i + hdr (length ?E)) - int i) = int (length ?C)"
    "\<not> int (hdr (length ?E) + length ?E + length ?C) \<le> 0" using hdr_ge_2 [OF E] by simp_all
  show ?case unfolding L
    unfolding obj_elements.simps [of m i] n(1)
    using step_at [OF d] step_find [OF d E] n(2) 1(1) 2 by (simp add: e add.assoc del: length_concat)
qed


text \<open>
  C15. What a server sends of its entries comes back to the application as those entries. When the
  results that a client has collected are search entries whose attributes \<open>LDAP_gen_ber_attrlist\<close> has
  encoded, \<open>LBER_object_decode\<close> returns one object for each, in their order, linked in a ring, with
  the name, the class, and the attributes with all their values, whatever the memory holds behind
  the results, and gives the results up. The entries are \<open>sendable\<close>: the DN and each name have less
  than 256 bytes and no NUL, there are attributes, each with values, the values have less than 1024
  bytes and no NUL, the last class less than 256, and the attributes at most 131056 encoded. The server
  does send longer values; they run over an array of the client, see \<open>value_too_long\<close>.
\<close>

theorem ldap_objects_roundtrip:
  assumes es: "\<forall>(dn, as, bs) \<in> set es. sendable dn as \<and>
      (\<exists>b. LDAP_gen_ber_attrlist True as None = Some (LDAP_RET_OK, Some b) \<and> b_data b = bs)"
    and lc: "c_rber lc \<noteq> None" "results lc = concat (map (\<lambda>(dn, as, bs). tlv 0x64 (enc_entry (Some dn) bs)) es)"
  shows "\<exists>first h. LBER_object_decode behind lc =
      Some (LDAP_RET_OK, Some (map (\<lambda>(dn, as, _). object_of dn as) es, first, h), lc\<lparr>c_rber := None\<rparr>) \<and>
    ring h first [0..<length es]"
proof -
  obtain b where b: "c_rber lc = Some b" using lc(1) by blast
  define fs where "fs = map (\<lambda>(dn, as, bs :: bytes). (dn, as)) es"
  have "bs = concat (map (\<lambda>a. tlv 0x30 (enc_attr a)) as)" if "(dn, as, bs) \<in> set es" for dn as bs
    using es that gen_ber_attrlist_enc [of as] by (fastforce simp: sendable_def fits_object_def fits_attr_def)
  then have r: "b_data b = concat (map entry_bytes fs)"
    using lc(2) by (auto simp: results_def b fs_def entry_bytes_def intro!: arg_cong [of _ _ concat])
  have "\<forall>(dn, as) \<in> set fs. sendable dn as" using es by (auto simp: fs_def)
  moreover have "linked_objects ([], None, null_links) []" by (simp add: linked_objects_def)
  ultimately obtain st where
    "obj_elements (b_data b @ behind) 0 (int (length (b_data b))) ([], None, null_links) = Some st"
    "linked_objects st (map (\<lambda>(dn, as). object_of dn as) fs)"
    using obj_elements_enc [of 0 "b_data b @ behind" fs behind "([], None, null_links)" "[]"] by (auto simp: r)
  moreover have "map (\<lambda>(dn, as). object_of dn as) fs = map (\<lambda>(dn, as, _). object_of dn as) es"
    by (auto simp: fs_def)
  ultimately show ?thesis
    by (auto simp: LBER_object_decode_def ber_attr_to_obj_def b linked_objects_def fs_def)
qed

text \<open>A value of 1024 bytes and more, which a server may send, runs over the array for it.\<close>

lemma value_too_long:
  assumes "drop i m = tlv 0x04 v @ r" "1024 \<le> length v" "length v < 2 ^ 24" "0 < len"
  shows "obj_values 1024 keep m i len vals buff = None"
  unfolding obj_values.simps [of 1024 keep m i] using assms(2,4) step_at [OF assms(1)] step_find [OF assms(1,3)]
  by (simp add: copy_field_def)

text \<open>
  Two extended responses with values: the object linked twice is its own successor, and a walk along
  the list does not come back to its first.
\<close>

lemma linked_twice:
  assumes "linked_objects st [a]"
  shows "\<exists>st1 first h. link_object ob st = Some st1 \<and> link_again st1 = Some ([a, ob], Some first, h) \<and> first = 0 \<and>
    nexT h 0 = Some 1 \<and> nexT h 1 = Some 1"
proof -
  obtain h where st: "st = ([a], Some 0, h)" "nexT h 0 = Some 0" "prev h 0 = Some 0"
    using assms by (auto simp: linked_objects_def ring_def)
  then show ?thesis
    by (auto simp: link_object_def link_again_def LINKEDLIST_APPEND_def)
qed

text \<open>An entry with a class and an attribute of two values, at a client.\<close>

definition demo_attrs :: "(bytes \<times> bytes list) list" where
  "demo_attrs = [(str ''objectClass'', [str ''top'', str ''org'']), (str ''cn'', [str ''a'', str ''b''])]"

definition demo_results :: LDAP_CLNT where
  "demo_results = demo_client\<lparr>c_rber := Some ((ber_alloc_buffer None 131072)
     \<lparr>b_data := tlv 0x64 (enc_entry (Some (str ''o=x'')) (concat (map (\<lambda>a. tlv 0x30 (enc_attr a)) demo_attrs)))\<rparr>)\<rparr>"

theorem ldap_objects_roundtrip_witness:
  "\<exists>first h. LBER_object_decode [1, 2] demo_results = Some (LDAP_RET_OK,
     Some ([object_zero\<lparr>o_name := str ''o=x'', o_object_class := str ''org'', o_alist := [(str ''cn'', [str ''a'', str ''b''])]\<rparr>], first, h),
     demo_results\<lparr>c_rber := None\<rparr>) \<and> ring h first [0..<1]"
proof -
  let ?bs = "concat (map (\<lambda>a. tlv 0x30 (enc_attr a)) demo_attrs)"
  have l: "length ?bs \<le> 131056" by (simp add: demo_attrs_def enc_attr_def length_tlv hdr_def len_octets_def INSERT_LENGTH_def)
  have f: "\<forall>a \<in> set demo_attrs. fits_attr a \<and> snd a \<noteq> []" "\<forall>a \<in> set demo_attrs. fits_object a" "demo_attrs \<noteq> []"
    by (simp_all add: demo_attrs_def fits_attr_def fits_object_def)
  have "sendable (str ''o=x'') demo_attrs" using f l by (simp add: sendable_def del: length_concat)
  moreover have "\<exists>b. LDAP_gen_ber_attrlist True demo_attrs None = Some (LDAP_RET_OK, Some b) \<and> b_data b = ?bs"
    by (rule gen_ber_attrlist_enc [OF f(3,1) l])
  moreover have "results demo_results = concat (map (\<lambda>(dn, as, bs). tlv 0x64 (enc_entry (Some dn) bs)) [(str ''o=x'', demo_attrs, ?bs)])"
    "c_rber demo_results \<noteq> None"
    by (simp_all add: demo_results_def results_def)
  ultimately obtain first h where "LBER_object_decode [1, 2] demo_results = Some (LDAP_RET_OK,
      Some (map (\<lambda>(dn, as, _). object_of dn as) [(str ''o=x'', demo_attrs, ?bs)], first, h), demo_results\<lparr>c_rber := None\<rparr>)"
    "ring h first [0..<length [(str ''o=x'', demo_attrs, ?bs)]]"
    using ldap_objects_roundtrip [of "[(str ''o=x'', demo_attrs, ?bs)]" demo_results "[1, 2]"] by auto
  then show ?thesis by (simp add: object_of_def demo_attrs_def)
qed

section \<open>Lists of attributes come back\<close>

lemma attrs_parts_enc:
  assumes d: "drop i m = enc_attr a @ r" and f: "fits_attr a" "0 \<notin> set (fst a)" "\<forall>v \<in> set (snd a). 0 \<notin> set v"
    and l: "length (enc_attr a) < 2 ^ 24"
  shows "attrs_parts m i (int (length (enc_attr a))) as vals = Some (i + length (enc_attr a), as @ [a], snd a)"
proof -
  obtain n vs where a: "a = (n, vs)" by fastforce
  let ?V = "concat (map (tlv 0x04) vs)"
  have e: "enc_attr a = tlv 0x04 n @ tlv 0x31 ?V" by (simp add: a enc_attr_def)
  have n: "length n < 256" "cstr n = n" "length n < 2 ^ 24" "length n \<le> 255"
    using f by (auto simp: a fits_attr_def cstr_id)
  have vs: "\<forall>v \<in> set vs. length v < ATTR_VALUE_SIZE \<and> 0 \<notin> set v" using f by (auto simp: a fits_attr_def)
  have d1: "drop i m = tlv 0x04 n @ (tlv 0x31 ?V @ r)" using d by (simp add: e)
  have d2: "drop (i + hdr (length n) + length n) m = tlv 0x31 ?V @ r" using step_over [OF d1] by (simp add: add.assoc)
  have V: "length ?V < 2 ^ 24" using l by (simp add: e length_tlv del: length_concat)
  let ?j = "i + hdr (length n) + length n"
  have v: "\<exists>b. obj_values ATTR_VALUE_SIZE True m (?j + hdr (length ?V)) (int (length ?V)) [] [] =
      Some (?j + hdr (length ?V) + length ?V, vs, b)"
    using obj_values_enc [OF step_in [OF d2] vs] by simp
  have L: "int (length (enc_attr a)) = int (hdr (length n)) + int (length n) + int (hdr (length ?V)) + int (length ?V)"
    by (simp add: e length_tlv del: length_concat)
  have pos: "\<not> int (hdr (length n)) + int (length n) + int (hdr (length ?V)) + int (length ?V) \<le> 0"
    using hdr_ge_2 [OF n(3)] by linarith
  have end_: "attrs_parts m q 0 as vals = Some (q, as, vals)" for q as vals
    by (simp add: attrs_parts.simps [of m q])
  have q: "i + length (enc_attr a) = ?j + hdr (length ?V) + length ?V" by (simp add: e length_tlv del: length_concat)
  show ?thesis
    unfolding attrs_parts.simps [of m i] Let_def q L
    using step_at [OF d1] step_find [OF d1 n(3)] step_copy [OF d1 n(1)] step_at [OF d2] step_find [OF d2 V] pos v
    by (auto simp: n(2,4) end_ a LBER_attrlist_add_def simp del: length_concat)
qed

lemma attrs_seqs_enc:
  assumes "drop i m = concat (map (\<lambda>a. tlv 0x30 (enc_attr a)) bs) @ r"
    "\<forall>a \<in> set bs. fits_attr a \<and> 0 \<notin> set (fst a) \<and> (\<forall>v \<in> set (snd a). 0 \<notin> set v)"
    "length (concat (map (\<lambda>a. tlv 0x30 (enc_attr a)) bs)) < 2 ^ 24"
  shows "attrs_seqs m i (int (length (concat (map (\<lambda>a. tlv 0x30 (enc_attr a)) bs)))) as vals = Some (as @ bs)"
  using assms
proof (induction bs arbitrary: i as vals)
  case Nil
  then show ?case by (simp add: attrs_seqs.simps [of m i])
next
  case (Cons a bs)
  let ?C = "concat (map (\<lambda>a. tlv 0x30 (enc_attr a)) bs)" and ?A = "enc_attr a"
  have d: "drop i m = tlv 0x30 ?A @ (?C @ r)" using Cons.prems(1) by simp
  have L: "length (concat (map (\<lambda>a. tlv 0x30 (enc_attr a)) (a # bs))) = hdr (length ?A) + length ?A + length ?C"
    by (simp add: length_tlv del: length_concat)
  then have A: "length ?A < 2 ^ 24" "length ?C < 2 ^ 24" using Cons.prems(3) by linarith+
  have f: "fits_attr a" "0 \<notin> set (fst a)" "\<forall>v \<in> set (snd a). 0 \<notin> set v"
    "\<forall>a \<in> set bs. fits_attr a \<and> 0 \<notin> set (fst a) \<and> (\<forall>v \<in> set (snd a). 0 \<notin> set v)"
    using Cons.prems(2) by simp_all
  note p = attrs_parts_enc [OF step_in [OF d] f(1-3) A(1)]
  have d': "drop (i + hdr (length ?A) + length ?A) m = ?C @ r" using step_over [OF d] by (simp add: add.assoc)
  note IH = Cons.IH [OF d' f(4) A(2), of "as @ [a]" "snd a"]
  have n: "int (hdr (length ?A) + length ?A + length ?C) - (int (length ?A) + int (i + hdr (length ?A)) - int i) = int (length ?C)"
    "\<not> int (hdr (length ?A) + length ?A + length ?C) \<le> 0" using hdr_ge_2 [OF A(1)] by simp_all
  show ?case unfolding L
    unfolding attrs_seqs.simps [of m i] n(1)
    using step_at [OF d] step_find [OF d A(1)] n(2) p IH by (simp add: add.assoc del: length_concat)
qed

text \<open>A list of attributes in a sequence is read as it was written, and a buffer without one is refused.\<close>

lemma ber_to_attrs_roundtrip:
  assumes "b_data b = tlv 0x30 (concat (map (\<lambda>a. tlv 0x30 (enc_attr a)) as))" "length (b_data b) < 2 ^ 24"
    "\<forall>a \<in> set as. fits_attr a \<and> 0 \<notin> set (fst a) \<and> (\<forall>v \<in> set (snd a). 0 \<notin> set v)"
  shows "ber_to_attrs behind (Some b) = Some (0, Some as)"
proof -
  let ?C = "concat (map (\<lambda>a. tlv 0x30 (enc_attr a)) as)"
  have d: "drop 0 (b_data b @ behind) = tlv 0x30 ?C @ behind" by (simp add: assms(1))
  have C: "length ?C < 2 ^ 24" using assms(2) unfolding assms(1) length_tlv by linarith
  have "b_data b \<noteq> []" by (simp add: assms(1) tlv_def)
  then show ?thesis
    using step_at [OF d] step_find [OF d C] attrs_seqs_enc [OF step_in [OF d] assms(3) C, of "[]" "[]"]
    by (simp add: ber_to_attrs_def Let_def del: length_concat)
qed

end
