(* ===== verification/LdapText.thy ===== *)
theory LdapText
  imports LdapAttrs
begin

text \<open>
  The results of a client as text: \<open>ber_attr_to_string\<close> of libs/stacks/ldap/ldap_common.c prints the
  collected search entries as LDIF or as JSON into the buffer \<open>bstring\<close> of the connection. For JSON the
  entries are first printed into one text for each class; these texts are a list here, in the order in
  which the code links them.
\<close>

section \<open>Early returns\<close>

text \<open>\<open>Inl\<close> is the return of the whole function, None what C leaves undefined.\<close>

type_synonym 'a result = "(int + 'a) option"

definition and_then :: "'a result \<Rightarrow> ('a \<Rightarrow> 'b result) \<Rightarrow> 'b result" where
  "and_then x f =
     (case x of
        None \<Rightarrow> None
      | Some (Inl r) \<Rightarrow> Some (Inl r)
      | Some (Inr a) \<Rightarrow> f a)"

lemma and_then_cong [fundef_cong]:
  "x = y \<Longrightarrow> (\<And>a. y = Some (Inr a) \<Longrightarrow> f a = g a) \<Longrightarrow> and_then x f = and_then y g"
  by (auto simp: and_then_def split: option.split sum.split)

lemma and_then_simps [simp]:
  "and_then None f = None" "and_then (Some (Inl r)) f = Some (Inl r)" "and_then (Some (Inr a)) f = f a"
  by (simp_all add: and_then_def)

lemma and_then_Inr: "and_then x f = Some (Inr b) \<longleftrightarrow> (\<exists>a. x = Some (Inr a) \<and> f a = Some (Inr b))"
  by (auto simp: and_then_def split: option.splits sum.splits)

section \<open>Printing\<close>

abbreviation (input) LDAP_MAX_STRING_SIZE :: int where "LDAP_MAX_STRING_SIZE \<equiv> 8192"

text \<open>The text of a class: its name, the text so far, the size of its block.\<close>

record olist =
  ol_name :: bytes
  ol_string :: bytes
  ol_size :: int

text \<open>The buffer, the texts of the classes, and which of them is the current one.\<close>

record texts =
  t_bstring :: BER
  t_olist :: "olist list"
  t_ol :: nat

text \<open>A text is printed to the array \<open>string\<close> first.\<close>

abbreviation (input) STRING_SIZE :: nat where "STRING_SIZE \<equiv> 131072"

definition PRINT_STRING :: "bytes \<Rightarrow> texts \<Rightarrow> texts result" where
  "PRINT_STRING s st =
     (let b = t_bstring st in
      if length s \<ge> STRING_SIZE \<or> int (length (b_data b) + length s) > b_room b then None
      else Some (Inr (st\<lparr>t_bstring := b\<lparr>b_data := b_data b @ s\<rparr>\<rparr>)))"

text \<open>\<open>memory\<close> tells for which sizes \<open>realloc\<close> finds a block.\<close>

definition grow :: "(int \<Rightarrow> bool) \<Rightarrow> olist \<Rightarrow> olist result" where
  "grow memory ol =
     (if int (length (ol_string ol)) + LDAP_MAX_STRING_SIZE > ol_size ol then
        let nlen = ADJUST_SIZE (int (length (ol_string ol)) + LDAP_MAX_STRING_SIZE) LDAP_MAX_STRING_SIZE in
        if \<not> memory nlen then Some (Inl LDAP_RET_ERR_MEMORY) else Some (Inr (ol\<lparr>ol_size := nlen\<rparr>))
      else Some (Inr ol))"

definition APPEND_STRING :: "(int \<Rightarrow> bool) \<Rightarrow> bytes \<Rightarrow> texts \<Rightarrow> texts result" where
  "APPEND_STRING memory s st = do {
     ol \<leftarrow> at (t_olist st) (t_ol st);
     if length s \<ge> STRING_SIZE then None else
     and_then (grow memory ol) (\<lambda>ol.
       if int (length (ol_string ol) + length s) \<ge> ol_size ol then None
       else Some (Inr (st\<lparr>t_olist := (t_olist st)[t_ol st := ol\<lparr>ol_string := ol_string ol @ s\<rparr>]\<rparr>)))
   }"

text \<open>\<open>ol->string[ol->len-1] = 0\<close>.\<close>

definition drop_last :: "texts \<Rightarrow> texts result" where
  "drop_last st = do {
     ol \<leftarrow> at (t_olist st) (t_ol st);
     if ol_string ol = [] then None
     else Some (Inr (st\<lparr>t_olist := (t_olist st)[t_ol st := ol\<lparr>ol_string := butlast (ol_string ol)\<rparr>]\<rparr>))
   }"

abbreviation (input) quoted :: "bytes \<Rightarrow> bytes" where "quoted s \<equiv> [0x22] @ s @ [0x22]"

section \<open>Entries\<close>

text \<open>The values of a set: whether there was one, and whether a JSON array has been opened.\<close>

function text_values ::
    "(int \<Rightarrow> bool) \<Rightarrow> bool \<Rightarrow> bytes \<Rightarrow> nat \<Rightarrow> int \<Rightarrow> bytes \<Rightarrow> bool \<Rightarrow> bool \<Rightarrow> texts \<Rightarrow> (nat \<times> bool \<times> bool \<times> texts) result" where
  "text_values memory json m i len attr exist array st =
     (if len \<le> 0 then Some (Inr (i, exist, array, st))
      else do {
        c \<leftarrow> at m i;
        if c = 0x04 then do {
          (n, k) \<leftarrow> FIND_LENGTH m (i + 1);
          buff \<leftarrow> copy_field 8192 m k (nat n);
          let len = len - (n + int k - int i);
          let buff = cstr buff;
          if json then
            and_then (if len > 0 \<and> \<not> array then APPEND_STRING memory (str ''['') st else Some (Inr st)) (\<lambda>st.
              and_then (APPEND_STRING memory (quoted buff @ str '','') st) (\<lambda>st.
                text_values memory json m (k + nat n) len attr True (array \<or> len > 0) st))
          else
            and_then (PRINT_STRING (attr @ str '': '' @ buff @ [0x0a]) st) (\<lambda>st.
              text_values memory json m (k + nat n) len attr True array st)
        }
        else text_values memory json m (i + 1) len attr True array st
      })"
  by pat_completeness auto
termination
  by (relation "measure (\<lambda>(memory, json, m, i, len, attr, exist, array, st). length m - i)")
    (auto simp: at_Some_iff dest!: FIND_LENGTH_next)

declare text_values.simps [simp del]

lemma text_values_next: "text_values memory json m i len attr exist array st = Some (Inr (k, r)) \<Longrightarrow> i \<le> k"
proof (induction "length m - i" arbitrary: i len exist array st rule: less_induct)
  case less
  have IH: "i < j \<Longrightarrow> i < length m \<Longrightarrow> text_values memory json m j len1 attr e1 a1 st1 = Some (Inr (k, r)) \<Longrightarrow> i \<le> k"
    for j len1 e1 a1 st1 using less.hyps [of j] by fastforce
  show ?case
    using less.prems [unfolded text_values.simps [of memory json m i len attr exist array st]]
    by (auto simp: bind_eq_Some_conv and_then_Inr Let_def at_Some_iff split: if_splits dest!: FIND_LENGTH_next intro: IH [rotated 2])
qed

text \<open>What follows the values.\<close>

definition text_set_end :: "(int \<Rightarrow> bool) \<Rightarrow> bool \<Rightarrow> bytes \<Rightarrow> bool \<Rightarrow> bool \<Rightarrow> texts \<Rightarrow> texts result" where
  "text_set_end memory json attr exist array st =
     (if exist then
        if json \<and> array then and_then (drop_last st) (APPEND_STRING memory (str ''],'')) else Some (Inr st)
      else if json then APPEND_STRING memory (quoted [] @ str '','') st
      else PRINT_STRING (attr @ str '':'' @ [0x0a]) st)"

function text_parts :: "(int \<Rightarrow> bool) \<Rightarrow> bool \<Rightarrow> bytes \<Rightarrow> nat \<Rightarrow> int \<Rightarrow> texts \<Rightarrow> (nat \<times> texts) result" where
  "text_parts memory json m i len st =
     (if len \<le> 0 then Some (Inr (i, st))
      else do {
        c \<leftarrow> at m i;
        if c \<noteq> 0x04 then text_parts memory json m (i + 1) len st
        else do {
          (n, k) \<leftarrow> FIND_LENGTH m (i + 1);
          attr \<leftarrow> copy_field 8192 m k (nat n);
          let attr = cstr attr;
          let len = len - (n + int k - int i);
          let j = k + nat n;
          and_then (if json then APPEND_STRING memory (quoted attr @ str '':'') st else Some (Inr st)) (\<lambda>st. do {
            c \<leftarrow> at m j;
            if c \<noteq> 0x31 then text_parts memory json m (j + 1) len st
            else do {
              (n, k) \<leftarrow> FIND_LENGTH m (j + 1);
              let len = len - (n + int k - int j);
              and_then (text_values memory json m k n attr False False st) (\<lambda>(q, exist, array, st).
                and_then (text_set_end memory json attr exist array st) (\<lambda>st.
                  text_parts memory json m q len st))
            }
          })
        }
      })"
  by pat_completeness auto
termination
  by (relation "measure (\<lambda>(memory, json, m, i, len, st). length m - i)")
    (auto simp: at_Some_iff dest!: FIND_LENGTH_next text_values_next)

declare text_parts.simps [simp del]

lemma text_parts_next: "text_parts memory json m i len st = Some (Inr (k, st')) \<Longrightarrow> i \<le> k"
proof (induction "length m - i" arbitrary: i len st rule: less_induct)
  case less
  have IH: "i < j \<Longrightarrow> i < length m \<Longrightarrow> text_parts memory json m j len1 st1 = Some (Inr (k, st')) \<Longrightarrow> i \<le> k" for j len1 st1
    using less.hyps [of j] by fastforce
  show ?case
    using less.prems [unfolded text_parts.simps [of memory json m i len st]]
    by (auto simp: bind_eq_Some_conv and_then_Inr Let_def at_Some_iff split: if_splits
        dest!: FIND_LENGTH_next text_values_next intro: IH [rotated 2])
qed

function text_attrs :: "(int \<Rightarrow> bool) \<Rightarrow> bool \<Rightarrow> bytes \<Rightarrow> nat \<Rightarrow> int \<Rightarrow> texts \<Rightarrow> (nat \<times> texts) result" where
  "text_attrs memory json m i len st =
     (if len \<le> 0 then Some (Inr (i, st))
      else do {
        c \<leftarrow> at m i;
        if c = 0x30 then do {
          (n, k) \<leftarrow> FIND_LENGTH m (i + 1);
          and_then (text_parts memory json m k n st) (\<lambda>(q, st).
            text_attrs memory json m q (len - (n + int k - int i)) st)
        }
        else text_attrs memory json m (i + 1) len st
      })"
  by pat_completeness auto
termination
  by (relation "measure (\<lambda>(memory, json, m, i, len, st). length m - i)")
    (auto simp: at_Some_iff dest!: FIND_LENGTH_next text_parts_next)

declare text_attrs.simps [simp del]

lemma text_attrs_next: "text_attrs memory json m i len st = Some (Inr (k, st')) \<Longrightarrow> i \<le> k"
proof (induction "length m - i" arbitrary: i len st rule: less_induct)
  case less
  have IH: "i < j \<Longrightarrow> i < length m \<Longrightarrow> text_attrs memory json m j len1 st1 = Some (Inr (k, st')) \<Longrightarrow> i \<le> k" for j len1 st1
    using less.hyps [of j] by fastforce
  show ?case
    using less.prems [unfolded text_attrs.simps [of memory json m i len st]]
    by (auto simp: bind_eq_Some_conv and_then_Inr Let_def at_Some_iff split: if_splits
        dest!: FIND_LENGTH_next text_parts_next intro: IH [rotated 2])
qed


text \<open>
  \<open>memchr\<close> of \<open>n\<close> bytes from \<open>l\<close> on: where the byte is, if it is there; the memory must not end before it
  or before the \<open>n\<close> bytes.
\<close>

definition memchr :: "bytes \<Rightarrow> nat \<Rightarrow> byte \<Rightarrow> nat \<Rightarrow> nat option option" where
  "memchr m l c n =
     (let k = l + length (takeWhile (\<lambda>x. x \<noteq> c) (drop l m)) in
      if k < length m \<and> k - l < n then Some (Some k)
      else if l + n \<le> length m then Some None
      else None)"

lemma memchr_bounds: "memchr m l c n = Some (Some k) \<Longrightarrow> l \<le> k \<and> k < length m"
  by (auto simp: memchr_def Let_def split: if_splits)

text \<open>\<open>scan_key\<close>: the length and the name of the class attribute, and the tag of a set.\<close>

definition scan_key :: bytes where
  "scan_key = [0x0b] @ str ''objectClass1''"

definition key_at :: "bytes \<Rightarrow> nat \<Rightarrow> bool option" where
  "key_at m p =
     (if take (length scan_key) (drop p m) = scan_key then Some True
      else if p + length scan_key \<le> length m \<or> take (length m - p) scan_key \<noteq> drop p m then Some False
      else None)"

text \<open>
  The class that is found in advance, at first \<open>scan_len\<close> bytes from \<open>i\<close> on; a negative number of bytes is
  a large one for \<open>memchr\<close>. \<open>object_name\<close> has 64 bytes.
\<close>

function class_scan :: "bytes \<Rightarrow> nat \<Rightarrow> int \<Rightarrow> bytes option" where
  "class_scan m l scan_len = do {
     r \<leftarrow> memchr m l 0x0b (nat (scan_len mod 2 ^ 64));
     case r of
       None \<Rightarrow> Some []
     | Some p \<Rightarrow> do {
         k \<leftarrow> key_at m p;
         if k then do {
           c \<leftarrow> at m (p + 15);
           if sint c < 0 then None
           else map_option cstr (copy_field 64 m (p + 16) (nat (sint c)))
         }
         else class_scan m (p + 1) (scan_len - (int l - int p))
       }
   }"
  by pat_completeness auto
termination
  by (relation "measure (\<lambda>(m, l, n). length m - l)") (auto dest!: memchr_bounds)

declare class_scan.simps [simp del]

text \<open>The text of the class, a new one if there is none.\<close>

definition class_text :: "bytes \<Rightarrow> texts \<Rightarrow> texts" where
  "class_text name st =
     (let k = length (takeWhile (\<lambda>ol. ol_name ol \<noteq> name) (t_olist st)) in
      if k < length (t_olist st) then st\<lparr>t_ol := k\<rparr>
      else st\<lparr>t_olist := t_olist st @ [\<lparr>ol_name = name, ol_string = [], ol_size = 2 * LDAP_MAX_STRING_SIZE\<rparr>], t_ol := k\<rparr>)"

definition grow_current :: "(int \<Rightarrow> bool) \<Rightarrow> texts \<Rightarrow> texts result" where
  "grow_current memory st = do {
     ol \<leftarrow> at (t_olist st) (t_ol st);
     and_then (grow memory ol) (\<lambda>ol. Some (Inr (st\<lparr>t_olist := (t_olist st)[t_ol st := ol]\<rparr>)))
   }"

text \<open>The name of an entry, of which \<open>rest\<close> bytes follow at \<open>j\<close>.\<close>

definition text_head :: "(int \<Rightarrow> bool) \<Rightarrow> bool \<Rightarrow> bytes \<Rightarrow> nat \<Rightarrow> int \<Rightarrow> bytes \<Rightarrow> texts \<Rightarrow> texts result" where
  "text_head memory json m j rest buff st =
     (if json then do {
        name \<leftarrow> class_scan m j (rest - 20);
        and_then (grow_current memory (class_text name st))
          (APPEND_STRING memory (if name \<noteq> [] then str ''{'' @ quoted (str ''dn'') @ str '':'' @ quoted buff @ str '','' else str ''{''))
      }
      else PRINT_STRING (str ''dn: '' @ buff @ [0x0a]) st)"

definition text_tail :: "(int \<Rightarrow> bool) \<Rightarrow> bool \<Rightarrow> texts \<Rightarrow> texts result" where
  "text_tail memory json st =
     (if json then and_then (drop_last st) (APPEND_STRING memory (str ''},'')) else PRINT_STRING [0x0a] st)"

text \<open>An entry of \<open>optLen\<close> bytes from behind its length on.\<close>

definition text_entry :: "(int \<Rightarrow> bool) \<Rightarrow> bool \<Rightarrow> bytes \<Rightarrow> nat \<Rightarrow> int \<Rightarrow> texts \<Rightarrow> (nat \<times> texts) result" where
  "text_entry memory json m i optLen st = do {
     c \<leftarrow> at m i;
     if c = 0x04 then do {
       (n, k) \<leftarrow> FIND_LENGTH m (i + 1);
       buff \<leftarrow> copy_field 8192 m k (nat n);
       let buff = cstr buff;
       let j = k + nat n;
       and_then (text_head memory json m j (optLen - n) buff st)
         (\<lambda>st. do {
           c \<leftarrow> at m j;
           and_then
             (if c = 0x30 then do {
                (n, k) \<leftarrow> FIND_LENGTH m (j + 1);
                text_attrs memory json m k n st
              }
              else Some (Inr (j + 1, st)))
             (\<lambda>(q, st).
               and_then (text_tail memory json st) (\<lambda>st. Some (Inr (q, st))))
         })
     }
     else Some (Inr (i + 1, st))
   }"

lemma text_entry_next: "text_entry memory json m i n st = Some (Inr (k, st')) \<Longrightarrow> i \<le> k"
  by (auto simp: text_entry_def bind_eq_Some_conv and_then_Inr Let_def split: if_splits
      dest!: FIND_LENGTH_next text_attrs_next)

text \<open>The results one by one; the buffer is made to hold another 128 KB before each.\<close>

function text_elements :: "(int \<Rightarrow> bool) \<Rightarrow> bool \<Rightarrow> bytes \<Rightarrow> nat \<Rightarrow> int \<Rightarrow> texts \<Rightarrow> texts result" where
  "text_elements memory json m i len st =
     (if len \<le> 0 then Some (Inr st)
      else do {
        let st = st\<lparr>t_bstring := ber_alloc_buffer (Some (t_bstring st)) 131072\<rparr>;
        c \<leftarrow> at m i;
        if c = 0x64 then do {
          (n, k) \<leftarrow> FIND_LENGTH m (i + 1);
          and_then (text_entry memory json m k n st) (\<lambda>(q, st).
            text_elements memory json m q (len - (n + int k - int i)) st)
        }
        else text_elements memory json m (i + 1) len st
      })"
  by pat_completeness auto
termination
  by (relation "measure (\<lambda>(memory, json, m, i, len, st). length m - i)")
    (auto simp: at_Some_iff dest!: FIND_LENGTH_next text_entry_next)

declare text_elements.simps [simp del]

text \<open>The last byte of the buffer is taken back.\<close>

definition unprint :: "texts \<Rightarrow> texts result" where
  "unprint st =
     (if b_data (t_bstring st) = [] then None
      else Some (Inr (st\<lparr>t_bstring := (t_bstring st)\<lparr>b_data := butlast (b_data (t_bstring st))\<rparr>\<rparr>)))"

fun text_classes :: "olist list \<Rightarrow> texts \<Rightarrow> texts result" where
  "text_classes [] st = Some (Inr st)"
| "text_classes (ol # ols) st =
     and_then (PRINT_STRING (quoted (ol_name ol) @ str '':['' @ ol_string ol) st) (\<lambda>st.
       and_then (unprint st) (\<lambda>st.
         and_then (PRINT_STRING (str ''],'') st) (text_classes ols)))"

text \<open>The byte behind the text is set to 0, which needs room as well.\<close>

definition end_string :: "texts \<Rightarrow> texts result" where
  "end_string st =
     (if int (length (b_data (t_bstring st))) < b_room (t_bstring st) then Some (Inr st) else None)"

definition ber_attr_to_string :: "(int \<Rightarrow> bool) \<Rightarrow> bool \<Rightarrow> bytes \<Rightarrow> LDAP_CLNT \<Rightarrow> (int \<times> LDAP_CLNT) option" where
  "ber_attr_to_string memory json behind lc =
     (case c_rber lc of
        None \<Rightarrow> Some (LDAP_RET_ERR_DECODE, lc)
      | Some r \<Rightarrow> do {
          let b = (ber_alloc_buffer (c_bstring lc) 131072)\<lparr>b_data := []\<rparr>;
          let st = \<lparr>t_bstring = b, t_olist = [], t_ol = 0\<rparr>;
          x \<leftarrow> and_then (if json then PRINT_STRING (str ''{'') st else Some (Inr st)) (\<lambda>st.
            and_then (text_elements memory json (b_data r @ behind) 0 (int (length (b_data r))) st) (\<lambda>st.
              and_then
                (if json then
                   and_then (text_classes (t_olist st) st) (\<lambda>st. and_then (unprint st) (PRINT_STRING (str ''}'')))
                 else Some (Inr st))
                end_string));
          case x of
            Inl e \<Rightarrow> Some (e, lc)
          | Inr st \<Rightarrow> Some (LDAP_RET_OK, lc\<lparr>c_bstring := Some (t_bstring st)\<rparr>)
        })"

text \<open>The return value of the printer is not looked at.\<close>

definition LBER_attr_decode :: "(int \<Rightarrow> bool) \<Rightarrow> bool \<Rightarrow> bytes \<Rightarrow> LDAP_CLNT \<Rightarrow> (int \<times> LDAP_CLNT) option" where
  "LBER_attr_decode memory json behind lc = do {
     (_, lc) \<leftarrow> ber_attr_to_string memory json behind lc;
     Some (LDAP_RET_OK, lc\<lparr>c_rber := None\<rparr>)
   }"

section \<open>Texts of entries\<close>

definition ldif_attr :: "bytes \<times> bytes list \<Rightarrow> bytes" where
  "ldif_attr a =
     (if snd a = [] then fst a @ str '':'' @ [0x0a]
      else concat (map (\<lambda>v. fst a @ str '': '' @ v @ [0x0a]) (snd a)))"

definition ldif_entry :: "bytes \<times> (bytes \<times> bytes list) list \<Rightarrow> bytes" where
  "ldif_entry e = str ''dn: '' @ fst e @ [0x0a] @ concat (map ldif_attr (snd e)) @ [0x0a]"

text \<open>There is room for a text in the buffer.\<close>

definition put_text :: "bytes \<Rightarrow> texts \<Rightarrow> texts" where
  "put_text s st = st\<lparr>t_bstring := (t_bstring st)\<lparr>b_data := b_data (t_bstring st) @ s\<rparr>\<rparr>"

definition room :: "texts \<Rightarrow> int" where
  "room st = b_room (t_bstring st) - int (length (b_data (t_bstring st)))"

lemma print_room: "int (length s) \<le> room st \<Longrightarrow> length s < STRING_SIZE \<Longrightarrow> PRINT_STRING s st = Some (Inr (put_text s st))"
  by (simp add: PRINT_STRING_def room_def put_text_def Let_def)

lemma room_put [simp]: "room (put_text s st) = room st - int (length s)"
  by (simp add: room_def put_text_def)

lemma put_put [simp]: "put_text t (put_text s st) = put_text (s @ t) st" "put_text [] st = st"
  by (simp_all add: put_text_def)

lemma text_values_enc:
  assumes "drop i m = concat (map (tlv 0x04) vs) @ r" "\<forall>v \<in> set vs. length v < 8192 \<and> 0 \<notin> set v" "length attr < 8192"
    "int (length (concat (map (\<lambda>v. attr @ str '': '' @ v @ [0x0a]) vs))) \<le> room st"
  shows "text_values memory False m i (int (length (concat (map (tlv 0x04) vs)))) attr exist array st =
    Some (Inr (i + length (concat (map (tlv 0x04) vs)), exist \<or> vs \<noteq> [], array,
      put_text (concat (map (\<lambda>v. attr @ str '': '' @ v @ [0x0a]) vs)) st))"
  using assms
proof (induction vs arbitrary: i st exist)
  case Nil
  then show ?case by (simp add: text_values.simps [of memory False m i])
next
  case (Cons v vs)
  let ?C = "concat (map (tlv 0x04) vs)" and ?L = "attr @ str '': '' @ v @ [0x0a]"
  have d: "drop i m = tlv 0x04 v @ (?C @ r)" using Cons.prems(1) by simp
  have v: "length v < 2 ^ 24" "length v < 8192" "cstr v = v" using Cons.prems(2) by (simp_all add: cstr_id)
  have n: "int (length (concat (map (tlv 0x04) (v # vs)))) - (int (length v) + int (i + hdr (length v)) - int i) = int (length ?C)"
    "\<not> int (length (concat (map (tlv 0x04) (v # vs)))) \<le> 0"
    using hdr_ge_2 [OF v(1)] by (simp_all add: length_tlv)
  have d': "drop (i + hdr (length v) + length v) m = ?C @ r" using step_over [OF d] by (simp add: add.assoc)
  have vs: "\<forall>v \<in> set vs. length v < 8192 \<and> 0 \<notin> set v" using Cons.prems(2) by simp
  have p: "PRINT_STRING ?L st = Some (Inr (put_text ?L st))"
    by (rule print_room) (use Cons.prems(3,4) v(2) in simp_all)
  have "int (length (concat (map (\<lambda>v. attr @ str '': '' @ v @ [0x0a]) vs))) \<le> room (put_text ?L st)" using Cons.prems(4) by simp
  note IH = Cons.IH [OF d' vs Cons.prems(3) this, of True]
  show ?case
    unfolding text_values.simps [of memory False m i] n(1)
    using step_at [OF d] step_find [OF d v(1)] step_copy [OF d v(2)] n(2) IH p
    by (simp add: v(3) length_tlv add.assoc Let_def del: length_concat)
qed


definition fits_text :: "bytes \<times> bytes list \<Rightarrow> bool" where
  "fits_text a \<longleftrightarrow> length (fst a) < 8192 \<and> 0 \<notin> set (fst a) \<and> (\<forall>v \<in> set (snd a). length v < 8192 \<and> 0 \<notin> set v)"

lemma text_parts_enc:
  assumes d: "drop i m = enc_attr a @ r" and f: "fits_text a" and l: "length (enc_attr a) < 2 ^ 24"
    and room: "int (length (ldif_attr a)) \<le> room st"
  shows "text_parts memory False m i (int (length (enc_attr a))) st =
    Some (Inr (i + length (enc_attr a), put_text (ldif_attr a) st))"
proof -
  obtain n vs where a: "a = (n, vs)" by fastforce
  let ?V = "concat (map (tlv 0x04) vs)" and ?L = "concat (map (\<lambda>v. n @ str '': '' @ v @ [0x0a]) vs)"
  have e: "enc_attr a = tlv 0x04 n @ tlv 0x31 ?V" by (simp add: a enc_attr_def)
  have n: "length n < 8192" "cstr n = n" "length n < 2 ^ 24" using f by (auto simp: a fits_text_def cstr_id)
  have vs: "\<forall>v \<in> set vs. length v < 8192 \<and> 0 \<notin> set v" using f by (auto simp: a fits_text_def)
  have d1: "drop i m = tlv 0x04 n @ (tlv 0x31 ?V @ r)" using d by (simp add: e)
  have d2: "drop (i + hdr (length n) + length n) m = tlv 0x31 ?V @ r" using step_over [OF d1] by (simp add: add.assoc)
  have V: "length ?V < 2 ^ 24" using l by (simp add: e length_tlv del: length_concat)
  let ?j = "i + hdr (length n) + length n"
  have L: "int (length ?L) \<le> room st"
  proof (cases "vs = []")
    case True
    have "0 \<le> room st" using room by simp
    with True show ?thesis by simp
  qed (use room in \<open>simp add: ldif_attr_def a\<close>)
  have v: "text_values memory False m (?j + hdr (length ?V)) (int (length ?V)) n False False st =
      Some (Inr (?j + hdr (length ?V) + length ?V, vs \<noteq> [], False, put_text ?L st))"
    using text_values_enc [OF step_in [OF d2] vs n(1) L, of memory False False] by simp
  have t: "text_set_end memory False n (vs \<noteq> []) False (put_text ?L st) = Some (Inr (put_text (ldif_attr a) st))"
  proof (cases "vs = []")
    case True
    with room n(1) have "PRINT_STRING (n @ str '':'' @ [0x0a]) st = Some (Inr (put_text (ldif_attr a) st))"
      by (subst print_room) (simp_all add: ldif_attr_def a)
    with True show ?thesis by (simp add: text_set_end_def)
  next
    case False
    then show ?thesis by (simp add: text_set_end_def ldif_attr_def a)
  qed
  have le: "int (length (enc_attr a)) = int (hdr (length n)) + int (length n) + int (hdr (length ?V)) + int (length ?V)"
    by (simp add: e length_tlv del: length_concat)
  have pos: "\<not> int (hdr (length n)) + int (length n) + int (hdr (length ?V)) + int (length ?V) \<le> 0"
    using hdr_ge_2 [OF n(3)] by linarith
  have end_: "text_parts memory False m q 0 st = Some (Inr (q, st))" for q st by (simp add: text_parts.simps [of memory False m q])
  have q: "i + length (enc_attr a) = ?j + hdr (length ?V) + length ?V" by (simp add: e length_tlv del: length_concat)
  show ?thesis
    unfolding text_parts.simps [of memory False m i] Let_def q le
    using step_at [OF d1] step_find [OF d1 n(3)] step_copy [OF d1 n(1)] step_at [OF d2] step_find [OF d2 V] pos v t
    by (simp add: n(2) end_ del: length_concat)
qed

lemma text_attrs_enc:
  assumes "drop i m = concat (map (\<lambda>a. tlv 0x30 (enc_attr a)) as) @ r" "\<forall>a \<in> set as. fits_text a"
    "length (concat (map (\<lambda>a. tlv 0x30 (enc_attr a)) as)) < 2 ^ 24" "int (length (concat (map ldif_attr as))) \<le> room st"
  shows "text_attrs memory False m i (int (length (concat (map (\<lambda>a. tlv 0x30 (enc_attr a)) as)))) st =
    Some (Inr (i + length (concat (map (\<lambda>a. tlv 0x30 (enc_attr a)) as)), put_text (concat (map ldif_attr as)) st))"
  using assms
proof (induction as arbitrary: i st)
  case Nil
  then show ?case by (simp add: text_attrs.simps [of memory False m i])
next
  case (Cons a as)
  let ?C = "concat (map (\<lambda>a. tlv 0x30 (enc_attr a)) as)" and ?A = "enc_attr a"
  have d: "drop i m = tlv 0x30 ?A @ (?C @ r)" using Cons.prems(1) by simp
  have L: "length (concat (map (\<lambda>a. tlv 0x30 (enc_attr a)) (a # as))) = hdr (length ?A) + length ?A + length ?C"
    by (simp add: length_tlv del: length_concat)
  then have A: "length ?A < 2 ^ 24" "length ?C < 2 ^ 24" using Cons.prems(3) by linarith+
  have f: "fits_text a" "\<forall>a \<in> set as. fits_text a" using Cons.prems(2) by simp_all
  have ro: "int (length (ldif_attr a)) \<le> room st" "int (length (concat (map ldif_attr as))) \<le> room (put_text (ldif_attr a) st)"
    using Cons.prems(4) by (simp_all del: length_concat)
  note p = text_parts_enc [OF step_in [OF d] f(1) A(1) ro(1), of memory]
  have d': "drop (i + hdr (length ?A) + length ?A) m = ?C @ r" using step_over [OF d] by (simp add: add.assoc)
  note IH = Cons.IH [OF d' f(2) A(2) ro(2)]
  have n: "int (hdr (length ?A) + length ?A + length ?C) - (int (length ?A) + int (i + hdr (length ?A)) - int i) = int (length ?C)"
    "\<not> int (hdr (length ?A) + length ?A + length ?C) \<le> 0" using hdr_ge_2 [OF A(1)] by simp_all
  show ?case unfolding L
    unfolding text_attrs.simps [of memory False m i] n(1)
    using step_at [OF d] step_find [OF d A(1)] n(2) p IH by (simp add: add.assoc del: length_concat)
qed

definition printable :: "bytes \<times> (bytes \<times> bytes list) list \<Rightarrow> bool" where
  "printable e \<longleftrightarrow> length (fst e) < 8192 \<and> 0 \<notin> set (fst e) \<and> (\<forall>a \<in> set (snd e). fits_text a) \<and>
     length (ldif_entry e) < 131056 \<and> length (concat (map (\<lambda>a. tlv 0x30 (enc_attr a)) (snd e))) < 2 ^ 23"

lemma text_entry_enc:
  assumes d: "drop i m = enc_entry (Some (fst e)) (concat (map (\<lambda>a. tlv 0x30 (enc_attr a)) (snd e))) @ r"
    and e: "printable e" and room: "int (length (ldif_entry e)) \<le> room st"
  shows "text_entry memory False m i n st =
    Some (Inr (i + length (enc_entry (Some (fst e)) (concat (map (\<lambda>a. tlv 0x30 (enc_attr a)) (snd e)))), put_text (ldif_entry e) st))"
proof -
  obtain dn as where e': "e = (dn, as)" by fastforce
  let ?A = "concat (map (\<lambda>a. tlv 0x30 (enc_attr a)) as)" and ?D = "str ''dn: '' @ dn @ [0x0a]"
  have d1: "drop i m = tlv 0x04 dn @ (tlv 0x30 ?A @ r)" using d by (simp add: enc_entry_def or_empty_def e')
  have d2: "drop (i + hdr (length dn) + length dn) m = tlv 0x30 ?A @ r" using step_over [OF d1] by (simp add: add.assoc)
  have dn: "length dn < 2 ^ 24" "length dn < 8192" "cstr dn = dn" "\<forall>a \<in> set as. fits_text a" "length ?A < 2 ^ 24"
    using e by (simp_all add: printable_def e' cstr_id del: length_concat)
  have len: "length (ldif_entry e) = length ?D + length (concat (map ldif_attr as)) + 1"
    by (simp add: ldif_entry_def e' del: length_concat)
  have h: "PRINT_STRING ?D st = Some (Inr (put_text ?D st))"
    by (rule print_room) (use room dn(2) in \<open>simp_all add: len del: length_concat\<close>)
  have ro: "int (length (concat (map ldif_attr as))) \<le> room (put_text ?D st)" using room by (simp add: len del: length_concat)
  let ?j = "i + hdr (length dn) + length dn"
  note a = text_attrs_enc [OF step_in [OF d2] dn(4,5) ro, of memory]
  have t: "PRINT_STRING [0x0a] (put_text (concat (map ldif_attr as)) (put_text ?D st)) =
      Some (Inr (put_text [0x0a] (put_text (concat (map ldif_attr as)) (put_text ?D st))))"
    by (rule print_room) (use room in \<open>simp_all add: len del: length_concat\<close>)
  have L: "length (enc_entry (Some dn) ?A) = hdr (length dn) + length dn + (hdr (length ?A) + length ?A)"
    by (simp add: enc_entry_def or_empty_def length_tlv del: length_concat)
  have p: "put_text [0x0a] (put_text (concat (map ldif_attr as)) (put_text ?D st)) = put_text (ldif_entry e) st"
    by (simp add: ldif_entry_def e')
  show ?thesis unfolding e' fst_conv snd_conv L
    using step_at [OF d1] step_find [OF d1 dn(1)] step_copy [OF d1 dn(2)] step_at [OF d2] step_find [OF d2 dn(5)] a h t
    unfolding text_entry_def Let_def text_head_def text_tail_def
    by (simp add: dn(3) p [unfolded e', symmetric] add.assoc del: length_concat put_put)
qed

text \<open>The buffer has always nearly as much room as its size says.\<close>

definition bstring_ok :: "BER \<Rightarrow> bool" where
  "bstring_ok b \<longleftrightarrow> b_size b \<le> b_room b + 16"

lemma alloc_room:
  assumes "bstring_ok b"
  shows "bstring_ok (ber_alloc_buffer (Some b) 131072)" "b_data (ber_alloc_buffer (Some b) 131072) = b_data b"
    "131056 \<le> b_room (ber_alloc_buffer (Some b) 131072) - int (length (b_data b))"
proof -
  have a: "l \<le> ADJUST_SIZE l 131072" for l :: int
  proof -
    have "l mod 131072 < 131072" by (rule pos_mod_bound) simp
    then have "l \<le> l + (131072 - l mod 131072)" by linarith
    then show ?thesis unfolding ADJUST_SIZE_def by (cases "l mod 131072 > 0") (simp_all only: if_True if_False order_refl)
  qed
  show "bstring_ok (ber_alloc_buffer (Some b) 131072)" "b_data (ber_alloc_buffer (Some b) 131072) = b_data b"
    "131056 \<le> b_room (ber_alloc_buffer (Some b) 131072) - int (length (b_data b))"
    using assms a [of "131072 + int (length (b_data b))"] by (auto simp: ber_alloc_buffer_def Let_def bstring_ok_def)
qed

lemma text_elements_enc:
  assumes "drop i m = concat (map entry_bytes es) @ r" "\<forall>e \<in> set es. printable e" "bstring_ok (t_bstring st)" "0 < room st"
  shows "\<exists>st'. text_elements memory False m i (int (length (concat (map entry_bytes es)))) st = Some (Inr st') \<and>
    b_data (t_bstring st') = b_data (t_bstring st) @ concat (map ldif_entry es) \<and> 0 < room st'"
  using assms
proof (induction es arbitrary: i st)
  case Nil
  then show ?case by (simp add: text_elements.simps [of memory False m i])
next
  case (Cons e es)
  let ?E = "enc_entry (Some (fst e)) (concat (map (\<lambda>a. tlv 0x30 (enc_attr a)) (snd e)))" and ?C = "concat (map entry_bytes es)"
  define st1 where "st1 = st\<lparr>t_bstring := ber_alloc_buffer (Some (t_bstring st)) 131072\<rparr>"
  have d: "drop i m = tlv 0x64 ?E @ (?C @ r)" using Cons.prems(1) by (simp add: entry_bytes_def [of e])
  have e: "printable e" "\<forall>e \<in> set es. printable e" using Cons.prems(2) by simp_all
  note al = alloc_room [OF Cons.prems(3)]
  have room: "int (length (ldif_entry e)) < room st1" using e(1) al by (simp add: st1_def room_def printable_def)
  let ?A = "concat (map (\<lambda>a. tlv 0x30 (enc_attr a)) (snd e))"
  have b: "length (tlv 0x04 (fst e)) \<le> length (fst e) + 5" "length (tlv 0x30 ?A) \<le> length ?A + 5" "length ?A < 2 ^ 23" "length (fst e) < 8192"
    using e(1) by (simp_all add: printable_def length_tlv_le del: length_concat)
  have E: "length ?E < 2 ^ 24" using b by (simp add: enc_entry_def or_empty_def del: length_concat)
  note t = text_entry_enc [OF step_in [OF d] e(1) less_imp_le [OF room], of memory]
  have d': "drop (i + hdr (length ?E) + length ?E) m = ?C @ r" using step_over [OF d] by (simp add: add.assoc)
  have ok: "bstring_ok (t_bstring (put_text (ldif_entry e) st1))"
    using al(1) by (simp add: put_text_def st1_def bstring_ok_def)
  obtain st2 where 2: "text_elements memory False m (i + hdr (length ?E) + length ?E) (int (length ?C)) (put_text (ldif_entry e) st1) = Some (Inr st2)"
    "b_data (t_bstring st2) = b_data (t_bstring (put_text (ldif_entry e) st1)) @ concat (map ldif_entry es)" "0 < room st2"
    using Cons.IH [OF d' e(2) ok] room by auto
  have L: "length (concat (map entry_bytes (e # es))) = hdr (length ?E) + length ?E + length ?C"
    by (simp add: entry_bytes_def [of e] length_tlv del: length_concat)
  have n: "int (hdr (length ?E) + length ?E + length ?C) - (int (length ?E) + int (i + hdr (length ?E)) - int i) = int (length ?C)"
    "\<not> int (hdr (length ?E) + length ?E + length ?C) \<le> 0" using hdr_ge_2 [OF E] by simp_all
  have "b_data (t_bstring (put_text (ldif_entry e) st1)) = b_data (t_bstring st) @ ldif_entry e"
    using al(2) by (simp add: put_text_def st1_def)
  with 2 show ?case unfolding L
    unfolding text_elements.simps [of memory False m i] n(1)
    using step_at [OF d] step_find [OF d E] n(2) t by (simp add: st1_def [symmetric] add.assoc del: length_concat)
qed

text \<open>
  C16. When the results that a client has collected are search entries as the server encodes them,
  decoding them as text gives one LDIF record for each, in their order: the name, a line for every
  value and for every attribute without one, and an empty line. The entries are those whose
  names and values have no 0 and less than 8192 bytes, and whose text leaves a byte of the buffer for
  its end (less than 131056 bytes). What the buffer held before, what the
  memory holds behind the results, and the number of the entries make no difference.
\<close>

theorem ldap_ldif_text:
  assumes "\<forall>e \<in> set es. printable e" "c_rber lc = Some r" "b_data r = concat (map entry_bytes es)"
    "case c_bstring lc of None \<Rightarrow> True | Some b \<Rightarrow> bstring_ok b"
  shows "\<exists>b. LBER_attr_decode memory False behind lc =
      Some (LDAP_RET_OK, lc\<lparr>c_bstring := Some b, c_rber := None\<rparr>) \<and> b_data b = concat (map ldif_entry es)"
proof -
  let ?b = "(ber_alloc_buffer (c_bstring lc) 131072)\<lparr>b_data := []\<rparr>"
  have b: "bstring_ok ?b"
  proof (cases "c_bstring lc")
    case None
    then show ?thesis by (simp add: bstring_ok_def ber_alloc_buffer_def ADJUST_SIZE_def Let_def)
  next
    case (Some x)
    with assms(4) alloc_room (1) [of x] show ?thesis by (simp add: bstring_ok_def)
  qed
  have room: "0 < b_room ?b"
  proof (cases "c_bstring lc")
    case None
    then show ?thesis by (simp add: ber_alloc_buffer_def ADJUST_SIZE_def Let_def)
  next
    case (Some x)
    with assms(4) alloc_room (3) [of x] show ?thesis by simp
  qed
  let ?st = "\<lparr>t_bstring = ?b, t_olist = [], t_ol = 0\<rparr>"
  obtain st where "text_elements memory False (b_data r @ behind) 0 (int (length (b_data r))) ?st = Some (Inr st)"
    "b_data (t_bstring st) = concat (map ldif_entry es)" "0 < room st"
    using text_elements_enc [of 0 "b_data r @ behind" es behind ?st memory] assms(1,3) b room
    by (auto simp: room_def)
  then show ?thesis
    by (intro exI [of _ "t_bstring st"]) (simp add: LBER_attr_decode_def ber_attr_to_string_def end_string_def room_def assms(2) Let_def)
qed

theorem ldap_ldif_text_witness:
  "\<exists>b. LBER_attr_decode (\<lambda>n. True) False [1, 2] demo_results =
      Some (LDAP_RET_OK, demo_results\<lparr>c_bstring := Some b, c_rber := None\<rparr>) \<and>
    b_data b = str ''dn: o=x'' @ [0x0a] @ str ''objectClass: top'' @ [0x0a] @ str ''objectClass: org'' @ [0x0a] @
      str ''cn: a'' @ [0x0a] @ str ''cn: b'' @ [0x0a, 0x0a]"
proof -
  let ?e = "(str ''o=x'', demo_attrs)"
  have l: "length (ldif_entry ?e) < 131056" by (simp add: ldif_entry_def ldif_attr_def demo_attrs_def)
  have s: "length (concat (map (\<lambda>a. tlv 0x30 (enc_attr a)) demo_attrs)) < 2 ^ 23"
    by (simp add: demo_attrs_def enc_attr_def length_tlv hdr_def len_octets_def INSERT_LENGTH_def)
  have f: "\<forall>a \<in> set demo_attrs. fits_text a" by (simp add: demo_attrs_def fits_text_def)
  have "printable ?e" using f s l by (simp add: printable_def del: length_concat)
  then have p: "\<forall>e \<in> set [?e]. printable e" by simp
  obtain r where r: "c_rber demo_results = Some r" "b_data r = concat (map entry_bytes [?e])"
    by (simp add: demo_results_def entry_bytes_def)
  have "case c_bstring demo_results of None \<Rightarrow> True | Some b \<Rightarrow> bstring_ok b"
    by (simp add: demo_results_def demo_client_def)
  from ldap_ldif_text [OF p r this] show ?thesis by (simp add: ldif_entry_def ldif_attr_def demo_attrs_def)
qed

section \<open>JSON\<close>

text \<open>Without results the opening brace is taken for a comma and removed.\<close>

lemma json_of_nothing:
  assumes "c_rber lc = Some r" "b_data r = []" "c_bstring lc = None"
  shows "\<exists>b. ber_attr_to_string memory True behind lc = Some (LDAP_RET_OK, lc\<lparr>c_bstring := Some b\<rparr>) \<and> b_data b = str ''}''"
  using assms
  by (intro exI [of _ "\<lparr>b_size = 131072, b_room = 131056, b_data = str ''}''\<rparr>"])
    (simp add: ber_attr_to_string_def end_string_def text_elements.simps PRINT_STRING_def unprint_def ber_alloc_buffer_def ADJUST_SIZE_def Let_def)

text \<open>The text of a class is only grown when fewer than 8192 bytes are free, whatever is printed to it.\<close>

lemma append_overrun:
  assumes "at (t_olist st) (t_ol st) = Some ol" "int (length (ol_string ol)) + 8192 \<le> ol_size ol"
    "ol_size ol \<le> int (length (ol_string ol) + length s)"
  shows "APPEND_STRING memory s st = None"
  using assms by (simp add: APPEND_STRING_def grow_def)

end
