(* ===== verification/SdfXml.thy ===== *)
theory SdfXml
  imports CBase
begin

text \<open>
  The XML reader of libs/sdf/sdfxml.c: entities, elements and attributes. An element is given by
  pointers into the data, here by offsets; the reads inside the \<open>len\<close> bytes of the data are reads of
  a list of that length. Where the code reads on behind them, the memory there is a parameter.
\<close>

section \<open>Entities\<close>

text \<open>
  \<open>memcmp (p, s, n) == 0\<close> where \<open>xs\<close> is the memory from \<open>p\<close> on: it is looked at up to the first
  difference.
\<close>

fun memcmp_eq :: "bytes \<Rightarrow> bytes \<Rightarrow> bool option" where
  "memcmp_eq [] xs = Some True"
| "memcmp_eq (c # cs) [] = None"
| "memcmp_eq (c # cs) (x # xs) = (if c = x then memcmp_eq cs xs else Some False)"

text \<open>The entities in the order in which both functions compare them.\<close>

definition entities :: "(bytes \<times> byte) list" where
  "entities = [(str ''&lt;'', 0x3c), (str ''&gt;'', 0x3e), (str ''&amp;'', 0x26), (str ''&apos;'', 0x27),
     (str ''&quot;'', 0x22)]"

fun find_entity :: "(bytes \<times> byte) list \<Rightarrow> bytes \<Rightarrow> (bytes \<times> byte) option option" where
  "find_entity [] xs = Some None"
| "find_entity ((e, c) # es) xs = do {
     b \<leftarrow> memcmp_eq e xs;
     if b then Some (Some (e, c)) else find_entity es xs
   }"

lemma find_entity_member: "find_entity es xs = Some (Some r) \<Longrightarrow> r \<in> set es"
  by (induction es) (auto simp: bind_eq_Some_conv split: if_splits)

lemma entity_not_empty: "find_entity entities xs = Some (Some (e, c)) \<Longrightarrow> e \<noteq> []"
  by (drule find_entity_member) (auto simp: entities_def)

text \<open>\<open>xs\<close> is the memory from \<open>s\<close> on. The result is what is stored before the final NUL.\<close>

function SDF_xml_decode_data :: "bytes \<Rightarrow> int \<Rightarrow> bytes option" where
  "SDF_xml_decode_data xs len =
     (if len \<le> 0 then Some []
      else
        case xs of
          [] \<Rightarrow> None
        | x # ys \<Rightarrow> do {
            en \<leftarrow> (if x = 0x26 then find_entity entities xs else Some None);
            case en of
              Some (e, c) \<Rightarrow>
                map_option ((#) c) (SDF_xml_decode_data (drop (length e) xs) (len - int (length e)))
            | None \<Rightarrow> map_option ((#) x) (SDF_xml_decode_data ys (len - 1))
          })"
  by pat_completeness auto
termination
  by (relation "measure (\<lambda>(xs, len). length xs)") (auto split: if_splits dest!: entity_not_empty)

declare SDF_xml_decode_data.simps [simp del]

text \<open>One character; an ampersand that starts an entity stays as it is.\<close>

definition encode_char :: "byte \<Rightarrow> bytes \<Rightarrow> bytes option" where
  "encode_char x xs =
     (if x = 0x3c then Some (str ''&lt;'')
      else if x = 0x3e then Some (str ''&gt;'')
      else if x = 0x26 then do {
        en \<leftarrow> find_entity entities xs;
        Some (if en \<noteq> None then [x] else str ''&amp;'')
      }
      else if x = 0x27 then Some (str ''&apos;'')
      else if x = 0x22 then Some (str ''&quot;'')
      else Some [x])"

fun SDF_xml_encode_data :: "bytes \<Rightarrow> nat \<Rightarrow> bytes option" where
  "SDF_xml_encode_data xs 0 = Some []"
| "SDF_xml_encode_data [] (Suc n) = None"
| "SDF_xml_encode_data (x # xs) (Suc n) = do {
     e \<leftarrow> encode_char x (x # xs);
     r \<leftarrow> SDF_xml_encode_data xs n;
     Some (e @ r)
   }"

section \<open>Elements\<close>

abbreviation (input) SDF_XML_RET_ERROR :: int where "SDF_XML_RET_ERROR \<equiv> -1000"
abbreviation (input) SDF_XML_RET_EOF :: int where "SDF_XML_RET_EOF \<equiv> 1"

text \<open>
  Pointers are offsets in the data. \<open>data_len\<close> is only set for an empty element and by the search
  for the end.
\<close>

record SDF_XML =
  x_element :: nat
  x_element_len :: nat
  x_element_close :: bool
  x_attr :: nat
  x_attr_len :: nat
  x_content :: "nat option"
  x_content_len :: nat
  x_data :: nat
  x_data_len :: nat

definition IS_SPACE :: "byte \<Rightarrow> bool" where
  "IS_SPACE c \<longleftrightarrow> c \<in> {0x20, 0x0a, 0x09, 0x0d}"

definition IS_CONST_STR :: "bytes \<Rightarrow> nat \<Rightarrow> bytes \<Rightarrow> bool" where
  "IS_CONST_STR d i s \<longleftrightarrow> take (length s) (drop i d) = s"

definition IS_BEGIN_ELEMENT1 :: "bytes \<Rightarrow> nat \<Rightarrow> bool" where
  "IS_BEGIN_ELEMENT1 d i \<longleftrightarrow> i + 2 \<le> length d \<and> d ! i = 0x3c \<and> d ! (i + 1) \<noteq> 0x2f"

definition IS_BEGIN_ELEMENT2 :: "bytes \<Rightarrow> nat \<Rightarrow> bool" where
  "IS_BEGIN_ELEMENT2 d i \<longleftrightarrow> i + 2 \<le> length d \<and> d ! i = 0x3c \<and> d ! (i + 1) = 0x2f"

definition IS_END_ELEMENT1 :: "bytes \<Rightarrow> nat \<Rightarrow> bool" where
  "IS_END_ELEMENT1 d i \<longleftrightarrow> d ! i = 0x3e"

definition IS_END_ELEMENT2 :: "bytes \<Rightarrow> nat \<Rightarrow> bool" where
  "IS_END_ELEMENT2 d i \<longleftrightarrow> i + 2 \<le> length d \<and> d ! i = 0x2f \<and> d ! (i + 1) = 0x3e"

text \<open>\<open>memchr\<close> from \<open>i\<close> to the end of the data.\<close>

definition mem_chr :: "bytes \<Rightarrow> nat \<Rightarrow> byte \<Rightarrow> nat option" where
  "mem_chr d i c =
     (let k = i + length (takeWhile (\<lambda>x. x \<noteq> c) (drop i d)) in if k < length d then Some k else None)"

lemma mem_chr_bounds: "mem_chr d i c = Some k \<Longrightarrow> i \<le> k \<and> k < length d"
  by (auto simp: mem_chr_def Let_def split: if_splits)

text \<open>The loops \<open>while (i < len && ...) ++i\<close>.\<close>

function scan_while :: "(nat \<Rightarrow> bool) \<Rightarrow> bytes \<Rightarrow> nat \<Rightarrow> nat" where
  "scan_while P d i = (if i < length d \<and> P i then scan_while P d (i + 1) else i)"
  by pat_completeness auto
termination by (relation "measure (\<lambda>(P, d, i). length d - i)") auto

declare scan_while.simps [simp del]

text \<open>The end of a comment, behind its last character.\<close>

function comment_end :: "bytes \<Rightarrow> nat \<Rightarrow> nat option" where
  "comment_end d i =
     (case mem_chr d i 0x3e of
        None \<Rightarrow> None
      | Some k \<Rightarrow> if IS_CONST_STR d (k - 2) (str ''-->'') then Some (k + 1) else comment_end d (k + 1))"
  by pat_completeness auto
termination by (relation "measure (\<lambda>(d, i). length d - i)") (auto dest!: mem_chr_bounds)

declare comment_end.simps [simp del]

lemma comment_end_next: "comment_end d i = Some k \<Longrightarrow> i < k \<and> k \<le> length d"
proof (induction d i rule: comment_end.induct)
  case (1 d i)
  then show ?case using "1.prems" [unfolded comment_end.simps [of d i]]
    by (fastforce split: option.splits if_splits dest: mem_chr_bounds)
qed

text \<open>The next tag that is not a comment, or a return value.\<close>

function find_tag :: "bytes \<Rightarrow> nat \<Rightarrow> int + nat" where
  "find_tag d i =
     (case mem_chr d i 0x3c of
        None \<Rightarrow> Inl SDF_XML_RET_EOF
      | Some k \<Rightarrow>
          if \<not> IS_CONST_STR d k (str ''<!--'') then Inr k
          else
            case comment_end d k of
              None \<Rightarrow> Inl SDF_XML_RET_ERROR
            | Some k \<Rightarrow> find_tag d k)"
  by pat_completeness auto
termination
  by (relation "measure (\<lambda>(d, i). length d - i)") (auto dest!: mem_chr_bounds comment_end_next)

declare find_tag.simps [simp del]

text \<open>\<open>sdf_xml_find_start_element\<close>: the position behind the start tag or before the next tag.\<close>

definition start_element :: "bytes \<Rightarrow> nat \<Rightarrow> int + nat \<times> SDF_XML" where
  "start_element d i =
     (case find_tag d i of
        Inl r \<Rightarrow> Inl r
      | Inr i \<Rightarrow>
          let tag_close = IS_BEGIN_ELEMENT2 d i;
              e = i + 1;
              i = scan_while (\<lambda>i. \<not> IS_SPACE (d ! i) \<and> \<not> IS_END_ELEMENT1 d i \<and> \<not> IS_END_ELEMENT2 d i) d e
          in
          if i \<ge> length d then Inl SDF_XML_RET_ERROR
          else if i - e = 0 then Inl SDF_XML_RET_ERROR
          else
            let elen = i - e;
                a = scan_while (\<lambda>i. IS_SPACE (d ! i)) d i;
                i = scan_while (\<lambda>i. \<not> IS_END_ELEMENT1 d i \<and> \<not> IS_END_ELEMENT2 d i) d a
            in
            if i \<ge> length d then Inl SDF_XML_RET_ERROR
            else
              let close = (\<not> IS_END_ELEMENT1 d i);
                  alen = i - a;
                  i = (if close then i + 2 else i + 1);
                  x = \<lparr>x_element = e, x_element_len = elen, x_element_close = close, x_attr = a, x_attr_len = alen,
                    x_content = None, x_content_len = 0, x_data = i, x_data_len = 0\<rparr>
              in
              if \<not> tag_close \<and> \<not> close then
                let k = scan_while (\<lambda>i. \<not> IS_BEGIN_ELEMENT1 d i \<and> \<not> IS_BEGIN_ELEMENT2 d i) d i in
                if k \<ge> length d then Inl SDF_XML_RET_ERROR
                else if IS_BEGIN_ELEMENT1 d k then Inr (k, x\<lparr>x_data := k\<rparr>)
                else Inr (k, x\<lparr>x_content := Some i, x_content_len := k - i, x_data := k\<rparr>)
              else Inr (i, x))"

text \<open>
  \<open>sdf_xml_find_end_element\<close> for an element of the given name: the position behind the end tag, and
  where that tag starts.
\<close>

definition name_of :: "bytes \<Rightarrow> SDF_XML \<Rightarrow> bytes" where
  "name_of d x = take (x_element_len x) (drop (x_element x) d)"

function (domintros) end_element :: "bytes \<Rightarrow> nat \<Rightarrow> bytes \<Rightarrow> int + nat \<times> nat" where
  "end_element d i nm =
     (case start_element d i of
        Inl r \<Rightarrow> if r < 0 then Inl r else Inl SDF_XML_RET_ERROR
      | Inr (k, x) \<Rightarrow>
          if x_element_close x then end_element d k nm
          else if d ! x_element x = 0x2f then
            if x_element_len x - 1 = length nm \<and> drop 1 (name_of d x) = nm then Inr (k, x_element x - 1)
            else Inl SDF_XML_RET_ERROR
          else
            case end_element d k (name_of d x) of
              Inl r \<Rightarrow> Inl r
            | Inr (j, _) \<Rightarrow> end_element d j nm)"
  by pat_completeness auto

lemma scan_while_ge: "i \<le> scan_while P d i"
  by (induction P d i rule: scan_while.induct) (subst scan_while.simps, auto)

lemma find_tag_next: "find_tag d i = Inr k \<Longrightarrow> i \<le> k \<and> k < length d"
proof (induction d i rule: find_tag.induct)
  case (1 d i)
  then show ?case using "1.prems" [unfolded find_tag.simps [of d i]]
    by (fastforce split: option.splits if_splits dest: mem_chr_bounds comment_end_next)
qed

lemma start_element_next: "start_element d i = Inr (k, x) \<Longrightarrow> i < k \<and> i < length d"
proof -
  assume s: "start_element d i = Inr (k, x)"
  then obtain t where t: "find_tag d i = Inr t" by (auto simp: start_element_def split: sum.splits)
  define e where "e = scan_while (\<lambda>i. \<not> IS_SPACE (d ! i) \<and> \<not> IS_END_ELEMENT1 d i \<and> \<not> IS_END_ELEMENT2 d i) d (t + 1)"
  define a where "a = scan_while (\<lambda>i. IS_SPACE (d ! i)) d e"
  define f where "f = scan_while (\<lambda>i. \<not> IS_END_ELEMENT1 d i \<and> \<not> IS_END_ELEMENT2 d i) d a"
  have le: "t + 1 \<le> e" "e \<le> a" "a \<le> f" by (simp_all only: e_def a_def f_def scan_while_ge)
  define j where "j = (if \<not> IS_END_ELEMENT1 d f then f + 2 else f + 1)"
  define l where "l = scan_while (\<lambda>i. \<not> IS_BEGIN_ELEMENT1 d i \<and> \<not> IS_BEGIN_ELEMENT2 d i) d j"
  have "j \<le> l" unfolding l_def by (rule scan_while_ge)
  moreover have "k = j \<or> k = l"
    using s unfolding start_element_def t sum.case Let_def e_def [symmetric] a_def [symmetric] f_def [symmetric]
      j_def [symmetric] l_def [symmetric]
    by (simp split: if_splits)
  moreover have "f < j" by (simp add: j_def)
  ultimately have "f < k" by auto
  then show ?thesis using le find_tag_next [OF t] by simp
qed

lemma end_element_next: "end_element_dom (d, i, nm) \<Longrightarrow> end_element d i nm = Inr (k, e) \<Longrightarrow> i < k"
proof (induction arbitrary: k e rule: end_element.pinduct)
  case (1 d i nm)
  note s = 1(5) [unfolded end_element.psimps [OF 1(1)]]
  then obtain j x where j: "start_element d i = Inr (j, x)" by (auto split: sum.splits if_splits)
  note n = start_element_next [OF j]
  show ?case
  proof (cases "x_element_close x")
    case True
    with s j 1(2) [OF j refl] n show ?thesis by fastforce
  next
    case close: False
    show ?thesis
    proof (cases "d ! x_element x = 0x2f")
      case True
      with s j close n show ?thesis by (auto split: if_splits)
    next
      case False
      then obtain l c where l: "end_element d j (name_of d x) = Inr (l, c)" "end_element d l nm = Inr (k, e)"
        using s j close by (auto split: sum.splits)
      with 1(3) [OF j refl close False, of l c] 1(4) [OF j refl close False l(1) refl] n show ?thesis by fastforce
    qed
  qed
qed

termination end_element
proof (relation "measure (\<lambda>(d, i, nm). length d - i)", goal_cases)
  case (2 d i nm j)
  then show ?case by (auto dest: start_element_next)
next
  case (3 d i nm j)
  then show ?case by (auto dest: start_element_next)
next
  case (4 d i nm j k x l)
  then show ?case by (auto dest!: start_element_next end_element_next)
qed simp

declare end_element.simps [simp del]


text \<open>
  The loop of the public searches: the XML declaration and the document type are passed over. The
  first component of the result is the new \<open>*curr\<close>, which stays where it was when the search fails.
\<close>

function SDF_xml_find_start_element :: "bytes \<Rightarrow> nat \<Rightarrow> nat \<times> (int + SDF_XML)" where
  "SDF_xml_find_start_element d cur =
     (case start_element d cur of
        Inl r \<Rightarrow> (cur, Inl r)
      | Inr (k, x) \<Rightarrow>
          if name_of d x = str ''?xml'' \<or> name_of d x = str ''!DOCTYPE'' then SDF_xml_find_start_element d k
          else (k, Inr x))"
  by pat_completeness auto
termination
  by (relation "measure (\<lambda>(d, i). length d - i)") (auto dest: start_element_next)

declare SDF_xml_find_start_element.simps [simp del]

definition SDF_xml_find_element :: "bytes \<Rightarrow> nat \<Rightarrow> nat \<times> (int + SDF_XML)" where
  "SDF_xml_find_element d cur =
     (case SDF_xml_find_start_element d cur of
        (k, Inl r) \<Rightarrow> (k, Inl r)
      | (k, Inr x) \<Rightarrow>
          if x_element_close x then (k, Inr x)
          else
            case end_element d k (name_of d x) of
              Inl r \<Rightarrow> (k, Inl r)
            | Inr (j, e) \<Rightarrow> (j, Inr (x\<lparr>x_data_len := e - x_data x\<rparr>)))"

section \<open>Elements by name\<close>

text \<open>
  \<open>close_tag\<close> has 50 bytes. The tag is compared up to its end, which may be behind the data, where
  the bytes \<open>m\<close> are.
\<close>

function end_by_name :: "bytes \<Rightarrow> bytes \<Rightarrow> bytes \<Rightarrow> nat \<Rightarrow> bool \<Rightarrow> (int + nat) option" where
  "end_by_name name m d i tag_close =
     (case mem_chr d i 0x3e of
        None \<Rightarrow> Some (Inl SDF_XML_RET_ERROR)
      | Some i \<Rightarrow>
          if \<not> tag_close \<and> IS_CONST_STR d (i - 1) (str ''/>'') then Some (Inr (i + 2))
          else if length name + 4 > 50 then None
          else
            let close = str ''</'' @ name @ str ''>'' in
            case mem_chr d i 0x3c of
              None \<Rightarrow> Some (Inl SDF_XML_RET_ERROR)
            | Some i \<Rightarrow> do {
                b \<leftarrow> (if length d - i \<ge> length close - 1 then memcmp_eq close (drop i (d @ m)) else Some False);
                if b then Some (Inr (i + length close)) else end_by_name name m d (i + 1) True
              })"
  by pat_completeness auto
termination
  by (relation "measure (\<lambda>(name, m, d, i, t). length d - i)") (auto dest!: mem_chr_bounds)

declare end_by_name.simps [simp del]

text \<open>\<open>strncmp\<close> compares the name with what is in memory from the element's name on.\<close>

function start_by_name :: "bytes \<Rightarrow> bytes \<Rightarrow> bytes \<Rightarrow> nat \<Rightarrow> (nat \<times> (int + SDF_XML)) option" where
  "start_by_name name m d cur =
     (case start_element d cur of
        Inl r \<Rightarrow> Some (cur, Inl r)
      | Inr (k, x) \<Rightarrow>
          if name_of d x = str ''?xml'' then start_by_name name m d k
          else do {
            b \<leftarrow> memcmp_eq name (drop (x_element x) (d @ m));
            if b then Some (k, Inr x) else start_by_name name m d k
          })"
  by pat_completeness auto
termination
  by (relation "measure (\<lambda>(name, m, d, i). length d - i)") (auto dest: start_element_next)

declare start_by_name.simps [simp del]

definition SDF_xml_find_element_by_name :: "bytes \<Rightarrow> bytes \<Rightarrow> bytes \<Rightarrow> nat \<Rightarrow> (nat \<times> (int + SDF_XML)) option" where
  "SDF_xml_find_element_by_name name m d cur = do {
     (cur, r) \<leftarrow> start_by_name name m d cur;
     case r of
       Inl r \<Rightarrow> Some (cur, Inl r)
     | Inr x \<Rightarrow> do {
         let cur = x_attr x + x_attr_len x - 1;
         e \<leftarrow> end_by_name name m d cur False;
         Some (case e of Inl r \<Rightarrow> (cur, Inl r) | Inr i \<Rightarrow> (i, Inr x))
       }
   }"

section \<open>Attributes\<close>

text \<open>The new position, and where the name and the value are.\<close>

definition SDF_xml_find_attribute :: "bytes \<Rightarrow> nat \<Rightarrow> int + nat \<times> (nat \<times> nat) \<times> (nat \<times> nat)" where
  "SDF_xml_find_attribute d cur =
     (let n = scan_while (\<lambda>i. IS_SPACE (d ! i)) d cur in
      if n \<ge> length d then Inl SDF_XML_RET_EOF
      else
        let i = scan_while (\<lambda>i. \<not> IS_SPACE (d ! i) \<and> d ! i \<noteq> 0x3d) d n;
            nlen = i - n;
            i = scan_while (\<lambda>i. IS_SPACE (d ! i)) d i
        in
        if i \<ge> length d \<or> nlen = 0 \<or> d ! i \<noteq> 0x3d then Inl SDF_XML_RET_ERROR
        else
          let i = scan_while (\<lambda>i. IS_SPACE (d ! i)) d (i + 1) in
          if i \<ge> length d \<or> \<not> (d ! i = 0x27 \<or> d ! i = 0x22) then Inl SDF_XML_RET_ERROR
          else
            let q = d ! i;
                v = i + 1;
                i = scan_while (\<lambda>i. d ! i \<noteq> q) d v
            in
            if i \<ge> length d then Inl SDF_XML_RET_ERROR
            else
              let vlen = i - v;
                  i = i + 1
              in
              if i < length d \<and> \<not> IS_SPACE (d ! i) then Inl SDF_XML_RET_ERROR
              else Inr (i, (n, nlen), (v, vlen)))"

section \<open>What the code does\<close>

text \<open>The name is only compared as a prefix.\<close>

lemma by_name_prefix:
  "map_option fst (SDF_xml_find_element_by_name (str ''a'') [0] (str ''<ab></ab><a></a>'') 0) = Some 16"
  by code_simp
section \<open>Where elements are\<close>

lemma scan_while_le: "i \<le> length d \<Longrightarrow> scan_while P d i \<le> length d"
  by (induction P d i rule: scan_while.induct) (subst scan_while.simps, auto)

lemma scan_while_stop: "scan_while P d i < length d \<Longrightarrow> \<not> P (scan_while P d i)"
proof (induction P d i rule: scan_while.induct)
  case (1 P d i)
  then show ?case by (cases "i < length d \<and> P i") (simp_all add: scan_while.simps [of P d i])
qed

lemma find_tag_open: "find_tag d i = Inr k \<Longrightarrow> d ! k = 0x3c"
proof (induction d i rule: find_tag.induct)
  case (1 d i)
  have "mem_chr d i c = Some j \<Longrightarrow> d ! j = c" for i c j
    using nth_length_takeWhile [of "\<lambda>x. x \<noteq> c" "drop i d"]
    by (cases "i \<le> length d") (auto simp: mem_chr_def Let_def split: if_splits)
  then show ?case using "1" "1.prems" [unfolded find_tag.simps [of d i]]
    by (fastforce split: option.splits if_splits)
qed

lemma start_element_within:
  assumes "start_element d i = Inr (k, x)"
  shows "i < x_element x" "d ! (x_element x - 1) = 0x3c" "0 < x_element_len x"
    "x_element x + x_element_len x \<le> x_attr x" "x_attr x + x_attr_len x < x_data x" "x_data x = k" "k \<le> length d"
    "x_data_len x = 0" "\<And>c. x_content x = Some c \<Longrightarrow> x_attr x + x_attr_len x < c \<and> c + x_content_len x = k"
proof -
  obtain t where t: "find_tag d i = Inr t" using assms by (auto simp: start_element_def split: sum.splits)
  define e where "e = scan_while (\<lambda>i. \<not> IS_SPACE (d ! i) \<and> \<not> IS_END_ELEMENT1 d i \<and> \<not> IS_END_ELEMENT2 d i) d (t + 1)"
  define a where "a = scan_while (\<lambda>i. IS_SPACE (d ! i)) d e"
  define f where "f = scan_while (\<lambda>i. \<not> IS_END_ELEMENT1 d i \<and> \<not> IS_END_ELEMENT2 d i) d a"
  define j where "j = (if \<not> IS_END_ELEMENT1 d f then f + 2 else f + 1)"
  define l where "l = scan_while (\<lambda>i. \<not> IS_BEGIN_ELEMENT1 d i \<and> \<not> IS_BEGIN_ELEMENT2 d i) d j"
  note s = assms [unfolded start_element_def t sum.case Let_def e_def [symmetric] a_def [symmetric] f_def [symmetric]
      j_def [symmetric] l_def [symmetric]]
  have le: "t + 1 \<le> e" "e \<le> a" "a \<le> f" "j \<le> l" by (simp_all only: e_def a_def f_def l_def scan_while_ge)
  have f: "f < length d" using s by (auto split: if_splits)
  have j: "f < j \<and> j \<le> length d"
    using scan_while_stop [OF f [unfolded f_def]] f unfolding f_def [symmetric] by (auto simp: j_def IS_END_ELEMENT2_def)
  note tag = find_tag_next [OF t] find_tag_open [OF t]
  show "i < x_element x" "d ! (x_element x - 1) = 0x3c" "0 < x_element_len x"
    "x_element x + x_element_len x \<le> x_attr x" "x_attr x + x_attr_len x < x_data x" "x_data x = k" "k \<le> length d"
    "x_data_len x = 0" "\<And>c. x_content x = Some c \<Longrightarrow> x_attr x + x_attr_len x < c \<and> c + x_content_len x = k"
    using s tag le f j by (auto split: if_splits)
qed

lemma start_element_code: "start_element d i = Inl r \<Longrightarrow> r = SDF_XML_RET_ERROR \<or> r = SDF_XML_RET_EOF"
proof -
  have "find_tag d i = Inl r \<Longrightarrow> r = SDF_XML_RET_ERROR \<or> r = SDF_XML_RET_EOF"
  proof (induction d i rule: find_tag.induct)
    case (1 d i)
    then show ?case using "1.prems" [unfolded find_tag.simps [of d i]] by (auto split: option.splits if_splits)
  qed
  then show "start_element d i = Inl r \<Longrightarrow> ?thesis"
    by (auto simp: start_element_def Let_def split: sum.splits if_splits)
qed

lemma end_element_within:
  "end_element d i nm = Inr (k, e) \<Longrightarrow>
     i \<le> e \<and> e < k \<and> k \<le> length d \<and> take (length nm + 2) (drop e d) = str ''</'' @ nm"
proof (induction d i nm arbitrary: k e rule: end_element.induct)
  case (1 d i nm)
  note s = 1(4) [unfolded end_element.simps [of d i nm]]
  then obtain j x where j: "start_element d i = Inr (j, x)" by (auto split: sum.splits if_splits)
  note n = start_element_within [OF j]
  show ?case
  proof (cases "x_element_close x")
    case True
    with s j 1(1) [OF j refl] n show ?thesis by fastforce
  next
    case close: False
    show ?thesis
    proof (cases "d ! x_element x = 0x2f")
      case True
      then have nm: "x_element_len x = length nm + 1" "drop 1 (name_of d x) = nm" "k = j" "e = x_element x - 1"
        using s j close n(3) by (auto split: if_splits)
      have len: "x_element x + x_element_len x < length d" using n(4-7) by linarith
      have "x_element x = Suc e" using n(1) nm by simp
      then have dr: "drop e d = d ! e # d ! (e + 1) # drop (e + 2) d" using len by (simp add: Cons_nth_drop_Suc)
      have "nm = take (length nm) (drop (e + 2) d)" using n(1) nm by (simp add: name_of_def drop_take)
      then have nm': "take (length nm) (drop (e + 2) d) = nm" by (rule sym)
      have "i \<le> e \<and> e < k \<and> k \<le> length d" using n(1,4-7) nm(3,4) by auto
      moreover have "d ! e = 0x3c" "d ! (e + 1) = 0x2f" using n(2) True \<open>x_element x = Suc e\<close> by simp_all
      ultimately show ?thesis using nm' by (simp add: dr)
    next
      case False
      then obtain l c where l: "end_element d j (name_of d x) = Inr (l, c)" "end_element d l nm = Inr (k, e)"
        using s j close by (auto split: sum.splits)
      with 1(2) [OF j refl close False, of l c] 1(3) [OF j refl close False l(1) refl] n show ?thesis by fastforce
    qed
  qed
qed

lemma find_start_within:
  "SDF_xml_find_start_element d i = (k, Inr x) \<Longrightarrow> \<exists>j \<ge> i. start_element d j = Inr (k, x)"
proof (induction d i rule: SDF_xml_find_start_element.induct)
  case (1 d i)
  show ?case
  proof (cases "start_element d i")
    case (Inr p)
    then obtain j y where j: "start_element d i = Inr (j, y)" by (cases p) auto
    note s = "1.prems" [unfolded SDF_xml_find_start_element.simps [of d i] j sum.case prod.case]
    show ?thesis
    proof (cases "name_of d y = str ''?xml'' \<or> name_of d y = str ''!DOCTYPE''")
      case True
      with s have "SDF_xml_find_start_element d j = (k, Inr x)" by simp
      with "1.IH" [OF j refl True] start_element_next [OF j] show ?thesis by (meson le_trans less_imp_le_nat)
    next
      case False
      with s j show ?thesis by auto
    qed
  qed (use "1.prems" SDF_xml_find_start_element.simps [of d i] in simp)
qed

lemma find_start_code:
  "SDF_xml_find_start_element d i = (k, Inl r) \<Longrightarrow> r = SDF_XML_RET_ERROR \<or> r = SDF_XML_RET_EOF"
proof (induction d i rule: SDF_xml_find_start_element.induct)
  case (1 d i)
  show ?case using "1" "1.prems" [unfolded SDF_xml_find_start_element.simps [of d i]]
    by (auto split: sum.splits prod.splits if_splits dest!: start_element_code)
qed

lemma end_element_code: "end_element d i nm = Inl r \<Longrightarrow> r = SDF_XML_RET_ERROR"
proof (induction d i nm rule: end_element.induct)
  case (1 d i nm)
  note s = "1.prems" [unfolded end_element.simps [of d i nm]]
  show ?case
  proof (cases "start_element d i")
    case (Inl c)
    with s start_element_code [OF Inl] show ?thesis by (auto split: if_splits)
  next
    case (Inr p)
    then obtain j x where j: "start_element d i = Inr (j, x)" by (cases p) auto
    show ?thesis
    proof (cases "x_element_close x \<or> d ! x_element x = 0x2f")
      case True
      with s j "1.IH"(1) [OF j refl] show ?thesis by (auto split: if_splits)
    next
      case False
      show ?thesis
      proof (cases "end_element d j (name_of d x)")
        case (Inl c)
        with s j False have "c = r" by simp
        with False "1.IH"(2) [OF j refl] Inl show ?thesis by simp
      next
        case (Inr q)
        with s j False "1.IH"(3) [OF j refl, of q "fst q" "snd q"] show ?thesis by (cases q) simp
      qed
    qed
  qed
qed

text \<open>
  C26. On any data \<open>SDF_xml_find_element\<close> ends with an error, the end of the data, or an element that
  lies in the data behind the place where the search began: its name, not empty and behind an opening
  bracket, its attributes, its content and what is in it follow one another up to the new position; an
  element that is not empty is followed there by the end tag of its own name.
\<close>

lemma sdf_find_element_within:
  "case SDF_xml_find_element d i of
     (k, Inl r) \<Rightarrow> r = SDF_XML_RET_ERROR \<or> r = SDF_XML_RET_EOF
   | (k, Inr x) \<Rightarrow>
       i < x_element x \<and> d ! (x_element x - 1) = 0x3c \<and> name_of d x \<noteq> [] \<and>
       x_element x + x_element_len x \<le> x_attr x \<and> x_attr x + x_attr_len x < x_data x \<and>
       x_data x + x_data_len x \<le> k \<and> k \<le> length d \<and>
       (case x_content x of None \<Rightarrow> True | Some c \<Rightarrow> x_attr x + x_attr_len x < c \<and> c + x_content_len x = x_data x) \<and>
       (if x_element_close x then x_data_len x = 0
        else take (x_element_len x + 2) (drop (x_data x + x_data_len x) d) = str ''</'' @ name_of d x)"
proof -
  obtain k r where f: "SDF_xml_find_start_element d i = (k, r)" by (cases "SDF_xml_find_start_element d i")
  show ?thesis
  proof (cases r)
    case (Inl c)
    with f show ?thesis using find_start_code [of d i k c] by (simp add: SDF_xml_find_element_def)
  next
    case (Inr x)
    then obtain j where j: "i \<le> j" "start_element d j = Inr (k, x)" using f find_start_within by blast
    note w = start_element_within [OF j(2)]
    have len: "length (name_of d x) = x_element_len x" using w(4-7) by (simp add: name_of_def)
    show ?thesis
    proof (cases "end_element d k (name_of d x)")
      case (Inl c)
      with f Inr j w len end_element_code [OF Inl] show ?thesis
        by (auto simp: SDF_xml_find_element_def split: option.split)
    next
      case e: (Inr p)
      obtain l e where p: "p = (l, e)" by (cases p)
      note b = end_element_within [OF e [unfolded p]]
      have nm: "name_of d (x\<lparr>x_data_len := e - x_data x\<rparr>) = name_of d x" by (simp add: name_of_def)
      have "name_of d x \<noteq> []" using len w(3) by auto
      with f Inr j w len b e p nm show ?thesis
        by (auto simp: SDF_xml_find_element_def split: option.split)
    qed
  qed
qed

end
