(* ===== verification/SdfText.thy ===== *)
theory SdfText
  imports SdfXml "HOL-Library.Sublist"
begin

text \<open>
  The two text functions of libs/sdf/sdfxml.c compute an escaped form of a string and its inverse. A
  string is followed in memory by a NUL, or by the quote that ends an attribute: the comparisons with
  the entities stop there.
\<close>

section \<open>Encoding and decoding\<close>

lemma memcmp_eq_end: "t \<notin> set e \<Longrightarrow> memcmp_eq e (xs @ t # m) = Some (prefix e xs)"
  by (induction e xs rule: list_induct2') auto

lemma entity_chars: "(e, c) \<in> set entities \<Longrightarrow> t \<in> {0, 0x22, 0x27} \<Longrightarrow> t \<notin> set e"
  by (auto simp: entities_def)

text \<open>In a string that ends with a NUL or a quote the comparisons do not go past it.\<close>

lemma find_entity_end:
  "\<forall>(e, c) \<in> set es. t \<notin> set e \<Longrightarrow>
     find_entity es (xs @ t # m) = Some (List.find (\<lambda>(e, c). prefix e xs) es)"
  by (induction es) (auto simp: memcmp_eq_end)

definition is_entity :: "bytes \<Rightarrow> bool" where
  "is_entity xs \<longleftrightarrow> (\<exists>(e, c) \<in> set entities. prefix e xs)"

lemma is_entity_simps [simp]:
  "is_entity (c # xs) \<longleftrightarrow> c = 0x26 \<and>
     (\<exists>n \<in> {str ''lt;'', str ''gt;'', str ''amp;'', str ''apos;'', str ''quot;''}. prefix n xs)"
  by (auto simp: is_entity_def entities_def)

lemma find_entities:
  assumes "t \<in> {0, 0x22, 0x27}"
  shows "\<exists>r. find_entity entities (xs @ t # m) = Some r \<and> (r = None \<longleftrightarrow> \<not> is_entity xs)"
proof -
  have "\<forall>(e, c) \<in> set entities. t \<notin> set e" using assms entity_chars by blast
  from find_entity_end [OF this] show ?thesis
    by (auto simp: is_entity_def find_None_iff)
qed

text \<open>What the encoder makes of a string.\<close>

fun xml_text :: "bytes \<Rightarrow> bytes" where
  "xml_text [] = []"
| "xml_text (x # xs) =
     (if x = 0x3c then str ''&lt;''
      else if x = 0x3e then str ''&gt;''
      else if x = 0x26 then (if is_entity (x # xs) then [x] else str ''&amp;'')
      else if x = 0x27 then str ''&apos;''
      else if x = 0x22 then str ''&quot;''
      else [x]) @ xml_text xs"

lemma encode_data:
  assumes "t \<in> {0, 0x22, 0x27}"
  shows "SDF_xml_encode_data (xs @ t # m) (length xs) = Some (xml_text xs)"
proof (induction xs)
  case (Cons x xs)
  obtain r where "find_entity entities ((x # xs) @ t # m) = Some r" "r = None \<longleftrightarrow> \<not> is_entity (x # xs)"
    using find_entities [OF assms] by blast
  with Cons show ?case by (auto simp: encode_char_def simp del: is_entity_simps find_entity.simps)
qed simp

lemma xml_text_length: "length (xml_text xs) \<le> 6 * length xs"
  by (induction xs) auto

lemma xml_text_chars: "set (xml_text xs) \<inter> {0x3c, 0x3e, 0x27, 0x22} = {}"
  by (induction xs) auto

lemma xml_text_entity: "is_entity (0x26 # xs) \<Longrightarrow> is_entity (0x26 # xml_text xs)"
  by (auto simp: prefix_def)

lemma xml_text_idem: "xml_text (xml_text xs) = xml_text xs"
proof (induction xs)
  case (Cons x xs)
  then show ?case using xml_text_entity [of xs] by (simp del: is_entity_simps) simp
qed simp

text \<open>A string in which nothing looks like an entity is decoded to what it was.\<close>

fun plain :: "bytes \<Rightarrow> bool" where
  "plain [] \<longleftrightarrow> True"
| "plain (x # xs) \<longleftrightarrow> \<not> is_entity (x # xs) \<and> plain xs"

lemma decode_one:
  assumes "(e, c) \<in> set entities"
  shows "SDF_xml_decode_data (e @ ys) (int (length (e @ zs))) =
     map_option ((#) c) (SDF_xml_decode_data ys (int (length zs)))"
proof -
  have "find_entity entities (e @ ys) = Some (Some (e, c))" using assms by (auto simp: entities_def)
  then show ?thesis using assms
    by (subst SDF_xml_decode_data.simps) (auto simp: entities_def split: list.split)
qed

lemma decode_text:
  "plain xs \<Longrightarrow> SDF_xml_decode_data (xml_text xs @ m) (int (length (xml_text xs))) = Some xs"
proof (induction xs)
  case Nil
  then show ?case by (simp add: SDF_xml_decode_data.simps)
next
  case (Cons x xs)
  let ?ys = "xml_text xs"
  have ent: "e \<noteq> [] \<Longrightarrow> (e, x) \<in> set entities \<Longrightarrow> xml_text (x # xs) = e @ ?ys \<Longrightarrow> ?case" for e
    using decode_one [of e x "?ys @ m" ?ys] Cons by simp
  show ?case
  proof (cases "x \<in> {0x3c, 0x3e, 0x26, 0x27, 0x22}")
    case True
    with Cons.prems show ?thesis
      using ent [of "str ''&lt;''"] ent [of "str ''&gt;''"] ent [of "str ''&amp;''"] ent [of "str ''&apos;''"]
        ent [of "str ''&quot;''"]
      by (auto simp: entities_def simp del: is_entity_simps)
  next
    case False
    with Cons show ?thesis by (subst SDF_xml_decode_data.simps) (simp del: is_entity_simps)
  qed
qed

text \<open>
  C27. Encoding a string needs at most six times its room and leaves no bracket and no quote; encoding
  what is encoded changes nothing, and decoding gives the string back unless it held an entity before.
\<close>

lemma sdf_xml_data_roundtrip:
  "\<exists>ys. SDF_xml_encode_data (xs @ 0 # m) (length xs) = Some ys \<and>
     length ys \<le> 6 * length xs \<and> set ys \<inter> set (str ''<>'') = {} \<and> 0x22 \<notin> set ys \<and> 0x27 \<notin> set ys \<and>
     SDF_xml_encode_data (ys @ 0 # m) (length ys) = Some ys \<and>
     (plain xs \<longrightarrow> SDF_xml_decode_data (ys @ 0 # m) (int (length ys)) = Some xs)"
  using xml_text_length [of xs] xml_text_chars [of xs]
  by (intro exI [of _ "xml_text xs"]) (simp add: encode_data xml_text_idem decode_text disjoint_iff, blast)

lemma sdf_xml_data_roundtrip_witness:
  "\<exists>ys. SDF_xml_encode_data (str ''a<b&c'' @ 0 # []) (length (str ''a<b&c'')) = Some ys \<and>
     SDF_xml_decode_data (ys @ 0 # []) (int (length ys)) = Some (str ''a<b&c'')"
proof -
  have "plain (str ''a<b&c'')" by simp
  then show ?thesis using sdf_xml_data_roundtrip [of "str ''a<b&c''" "[]"] by blast
qed

text \<open>A text may hold an entity, which is then decoded to the character it names.\<close>

lemma entity_kept:
  "SDF_xml_encode_data (str ''&lt;'' @ [0]) 4 = Some (str ''&lt;'')"
  "SDF_xml_decode_data (str ''&lt;'' @ [0]) 4 = Some (str ''<'')"
  by code_simp+

text \<open>An entity is looked for behind the given length too, in both directions.\<close>

lemma entity_behind_length:
  "SDF_xml_encode_data (str ''a&lt;'' @ [0]) 2 = Some (str ''a&'')"
  "SDF_xml_decode_data (str ''&lt;'' @ [0]) 1 = Some (str ''<'')"
  by code_simp+

end
