(* ===== verification/SdfConfig.thy ===== *)
theory SdfConfig
  imports SdfText
begin

text \<open>
  The configuration files of libs/sdf/sdfconfig.c: loading one, and looking for elements and attributes
  in it or in an element that was found.
\<close>

abbreviation (input) SDF_CONFIG_RET_ERROR :: int where "SDF_CONFIG_RET_ERROR \<equiv> -1000"
abbreviation (input) SDF_CONFIG_RET_EOF :: int where "SDF_CONFIG_RET_EOF \<equiv> 1"

text \<open>\<open>data\<close> holds the \<open>len\<close> bytes from the pointer \<open>data\<close> on.\<close>

record SDF_CONFIG_MEM =
  cm_data :: bytes
  cm_curr :: nat

text \<open>
  Loading. The answers of the system: whether the file opens and can be locked, its size (None when
  \<open>fstat\<close> fails), whether there is memory, what \<open>read\<close> stores, and whether the file closes. \<open>SDF_MALLOC\<close>
  takes an \<open>int\<close>, and the record needs 16 bytes: the block has to hold what is read and the NUL. The
  result is the memory, if there is one, and the calls that give up a resource.
\<close>

definition block_size :: "nat \<Rightarrow> int" where
  "block_size st_size = sint (word_of_nat (16 + st_size + 1) :: 32 word)"

datatype release = Close | Free

definition SDF_config_load_file ::
  "bool \<Rightarrow> bool \<Rightarrow> nat option \<Rightarrow> (int \<Rightarrow> bool) \<Rightarrow> bytes option \<Rightarrow> bool \<Rightarrow> (SDF_CONFIG_MEM option \<times> release list) option" where
  "SDF_config_load_file opens locks stat memory rd closes =
     (if \<not> opens then Some (None, [])
      else if \<not> locks then Some (None, [Close])
      else
        case stat of
          None \<Rightarrow> Some (None, [Close])
        | Some st_size \<Rightarrow>
            let size = block_size st_size in
            if \<not> memory size then Some (None, [Close])
            else
              case rd of
                None \<Rightarrow> Some (None, [Free, Close])
              | Some bs \<Rightarrow>
                  if int (16 + length bs) > size then None
                  else if length bs \<noteq> st_size then Some (None, [Free, Close])
                  else if int (16 + length bs) \<ge> size then None
                  else if \<not> closes then Some (None, [Close, Free])
                  else Some (Some \<lparr>cm_data = bs, cm_curr = 0\<rparr>, [Close]))"

text \<open>A file of 4 GB and five bytes gets a block with room for six bytes.\<close>

lemma load_overrun:
  "SDF_config_load_file True True (Some (2 ^ 32 + 5)) (\<lambda>n. 0 \<le> n) (Some (replicate 7 c)) True = None"
  by (simp add: SDF_config_load_file_def Let_def block_size_def)

text \<open>
  What is loaded is the whole file, at its start; every other outcome gives back what it holds. The
  block is large enough whenever the size fits an \<open>int\<close> with the 17 bytes that are added.
\<close>

lemma load_file_outcomes:
  assumes "\<And>n bs. stat = Some n \<Longrightarrow> rd = Some bs \<Longrightarrow> n + 17 < 2 ^ 31 \<and> length bs \<le> n"
  shows "\<exists>m rel. SDF_config_load_file opens locks stat memory rd closes = Some (m, rel) \<and>
     (m \<noteq> None \<longleftrightarrow> opens \<and> locks \<and> closes \<and>
        (\<exists>n bs. stat = Some n \<and> rd = Some bs \<and> length bs = n \<and> memory (int n + 17))) \<and>
     (m \<noteq> None \<longrightarrow> map_option cm_data m = rd \<and> rel = [Close]) \<and>
     (m = None \<longrightarrow> (Close \<in> set rel \<longleftrightarrow> opens))"
proof -
  have size: "block_size n = int n + 17" if "n + 17 < 2 ^ 31" for n
  proof -
    have "sint (word_of_int (int (16 + n + 1)) :: 32 word) = int (16 + n + 1)"
      by (simp only: sint_sbintrunc') (use that in \<open>simp add: signed_take_bit_int_eq_self\<close>)
    then show ?thesis by (simp add: block_size_def)
  qed
  show ?thesis
  proof (cases "\<exists>n bs. stat = Some n \<and> rd = Some bs")
    case True
    then obtain n bs where r: "stat = Some n" "rd = Some bs" by blast
    with assms [OF r] show ?thesis by (auto simp: SDF_config_load_file_def Let_def size)
  next
    case False
    then show ?thesis by (auto simp: SDF_config_load_file_def Let_def split: option.split)
  qed
qed

text \<open>The loop that \<open>SDF_config_find_element\<close> and \<open>SDF_config_find_element_attr\<close> share.\<close>

lemma find_element_next: "SDF_xml_find_element d i = (k, Inr x) \<Longrightarrow> i < k \<and> k \<le> length d"
proof -
  assume f: "SDF_xml_find_element d i = (k, Inr x)"
  then obtain j y where j: "SDF_xml_find_start_element d i = (j, Inr y)"
    by (auto simp: SDF_xml_find_element_def split: prod.splits sum.splits if_splits)
  then obtain l where l: "l \<ge> i" "start_element d l = Inr (j, y)" using find_start_within by blast
  note w = start_element_within (1,4-7) [OF l(2)]
  show ?thesis using f j l w
    by (auto simp: SDF_xml_find_element_def dest!: end_element_within split: sum.splits if_splits)
qed

function element_named :: "bytes \<Rightarrow> nat \<Rightarrow> bytes \<Rightarrow> nat \<times> (int + SDF_XML)" where
  "element_named d cur element =
     (case SDF_xml_find_element d cur of
        (k, Inl r) \<Rightarrow> (k, Inl r)
      | (k, Inr x) \<Rightarrow> if name_of d x = element then (k, Inr x) else element_named d k element)"
  by pat_completeness auto
termination by (relation "measure (\<lambda>(d, i, e). length d - i)") (auto dest!: sym [THEN find_element_next])

declare element_named.simps [simp del]

definition config_code :: "int \<Rightarrow> bool \<Rightarrow> int" where
  "config_code r mandatory =
     (if r < 0 then SDF_CONFIG_RET_ERROR else if mandatory then SDF_CONFIG_RET_ERROR else SDF_CONFIG_RET_EOF)"

text \<open>The scope with its new position; the element and, as \<open>omem\<close>, what is in it.\<close>

definition SDF_config_find_element ::
  "SDF_CONFIG_MEM \<Rightarrow> bytes \<Rightarrow> bool \<Rightarrow> SDF_CONFIG_MEM \<times> (int + SDF_CONFIG_MEM \<times> SDF_XML)" where
  "SDF_config_find_element scope element mandatory =
     (let (k, r) = element_named (cm_data scope) (cm_curr scope) element; scope = scope\<lparr>cm_curr := k\<rparr> in
      case r of
        Inl r \<Rightarrow> (scope, Inl (config_code r mandatory))
      | Inr x \<Rightarrow>
          (scope, Inr (\<lparr>cm_data = take (x_data_len x) (drop (x_data x) (cm_data scope)), cm_curr = 0\<rparr>, x)))"

lemma find_attribute_next: "SDF_xml_find_attribute d i = Inr (k, nv) \<Longrightarrow> i < k \<and> i < length d"
proof -
  assume a: "SDF_xml_find_attribute d i = Inr (k, nv)"
  define n where "n = scan_while (\<lambda>i. IS_SPACE (d ! i)) d i"
  define e where "e = scan_while (\<lambda>i. \<not> IS_SPACE (d ! i) \<and> d ! i \<noteq> 0x3d) d n"
  define f where "f = scan_while (\<lambda>i. IS_SPACE (d ! i)) d e"
  define q where "q = scan_while (\<lambda>i. IS_SPACE (d ! i)) d (f + 1)"
  define v where "v = scan_while (\<lambda>i. d ! i \<noteq> d ! q) d (q + 1)"
  have "i \<le> n" "n \<le> e" "e \<le> f" "f + 1 \<le> q" "q + 1 \<le> v"
    unfolding n_def e_def f_def q_def v_def by (rule scan_while_ge)+
  then show ?thesis using a
    unfolding SDF_xml_find_attribute_def Let_def n_def [symmetric] e_def [symmetric] f_def [symmetric] q_def [symmetric]
      v_def [symmetric]
    by (auto split: if_splits)
qed

function attribute_named :: "bytes \<Rightarrow> nat \<Rightarrow> bytes \<Rightarrow> int + nat \<times> nat" where
  "attribute_named attr i name =
     (case SDF_xml_find_attribute attr i of
        Inl r \<Rightarrow> Inl r
      | Inr (k, (n, nlen), v) \<Rightarrow>
          if take nlen (drop n attr) = name then Inr v else attribute_named attr k name)"
  by pat_completeness auto
termination by (relation "measure (\<lambda>(d, i, e). length d - i)") (auto dest: find_attribute_next)

declare attribute_named.simps [simp del]

text \<open>\<open>d\<close> is the data that the element points into; the result is the value up to its NUL.\<close>

definition SDF_config_find_attr :: "bytes \<Rightarrow> SDF_XML \<Rightarrow> bytes \<Rightarrow> nat \<Rightarrow> bool \<Rightarrow> (int + bytes) option" where
  "SDF_config_find_attr d x name vsize mandatory =
     (case attribute_named (take (x_attr_len x) (drop (x_attr x) d)) 0 name of
        Inl r \<Rightarrow> Some (Inl (config_code r mandatory))
      | Inr (v, vlen) \<Rightarrow>
          if vsize \<le> vlen then Some (Inl SDF_CONFIG_RET_ERROR)
          else map_option Inr (SDF_xml_decode_data (drop (x_attr x + v) d) (int vlen)))"

definition SDF_config_find_element_attr ::
  "SDF_CONFIG_MEM \<Rightarrow> bytes \<Rightarrow> bytes \<Rightarrow> nat \<Rightarrow> bool \<Rightarrow> (SDF_CONFIG_MEM \<times> (int + bytes)) option" where
  "SDF_config_find_element_attr scope element name vsize mandatory =
     (let (k, r) = element_named (cm_data scope) (cm_curr scope) element; scope = scope\<lparr>cm_curr := k\<rparr> in
      case r of
        Inl r \<Rightarrow> Some (scope, Inl (config_code r mandatory))
      | Inr x \<Rightarrow> map_option (Pair scope) (SDF_config_find_attr (cm_data scope) x name vsize mandatory))"

end
