(* ===== verification/SdfDocument.thy ===== *)
theory SdfDocument
  imports SdfConfig
begin

text \<open>
  Documents as trees with their text, and what the functions of libs/sdf/sdfxml.c and
  libs/sdf/sdfconfig.c find in the text of a document.
\<close>

section \<open>Documents\<close>

datatype xml = Text bytes | Comment bytes | Elem bytes "(bytes \<times> bytes) list" "xml list"

fun attrs_text :: "(bytes \<times> bytes) list \<Rightarrow> bytes" where
  "attrs_text [] = []"
| "attrs_text ((n, v) # as) = str '' '' @ n @ [0x3d, 0x22] @ xml_text v @ [0x22] @ attrs_text as"

fun xml_print :: "xml \<Rightarrow> bytes" where
  "xml_print (Text t) = xml_text t"
| "xml_print (Comment c) = str ''<!--'' @ c @ str ''-->''"
| "xml_print (Elem n as cs) =
     0x3c # n @ attrs_text as @
     (if cs = [] then str ''/>'' else str ''>'' @ concat (map xml_print cs) @ str ''</'' @ n @ str ''>'')"

abbreviation spaces :: "byte set" where "spaces \<equiv> {0x20, 0x0a, 0x09, 0x0d}"

definition tag_name :: "bytes \<Rightarrow> bool" where
  "tag_name n \<longleftrightarrow> n \<noteq> [] \<and> set n \<inter> insert 0x3e spaces = {} \<and> last n \<noteq> 0x2f \<and> hd n \<noteq> 0x21"

definition element_name :: "bytes \<Rightarrow> bool" where
  "element_name n \<longleftrightarrow> tag_name n \<and> hd n \<notin> {0x3f, 0x2f}"

definition attr_name :: "bytes \<Rightarrow> bool" where
  "attr_name n \<longleftrightarrow> n \<noteq> [] \<and> set n \<inter> insert 0x3d (insert 0x3e spaces) = {}"

fun xml_ok :: "xml \<Rightarrow> bool" where
  "xml_ok (Text t) \<longleftrightarrow> True"
| "xml_ok (Comment c) \<longleftrightarrow> 0x3e \<notin> set c"
| "xml_ok (Elem n as cs) \<longleftrightarrow>
     element_name n \<and> (\<forall>(a, v) \<in> set as. attr_name a \<and> plain v) \<and> (\<forall>c \<in> set cs. xml_ok c)"

section \<open>Searching in a text\<close>

lemma scan_while_at:
  "\<lbrakk>\<And>j. i \<le> j \<Longrightarrow> j < k \<Longrightarrow> P j; i \<le> k; k < length d; \<not> P k\<rbrakk> \<Longrightarrow> scan_while P d i = k"
proof (induction "k - i" arbitrary: i)
  case 0
  then show ?case by (simp add: scan_while.simps)
next
  case (Suc n)
  then have "scan_while P d (i + 1) = k" by (intro Suc.hyps) auto
  with Suc show ?case by (subst scan_while.simps) auto
qed

lemma drop_nth: "drop i d = xs @ ys \<Longrightarrow> j < length xs \<Longrightarrow> d ! (i + j) = xs ! j"
  by (metis nth_append nth_drop length_append drop_all append_is_Nil_conv list.size(3) nat_le_linear not_less_zero)

lemma drop_nth_in:
  "drop i d = xs @ ys \<Longrightarrow> i \<le> l \<Longrightarrow> l < i + length xs \<Longrightarrow> d ! l \<in> set xs"
  using drop_nth [of i d xs ys "l - i"] by simp

lemma scan_bytes:
  assumes "drop i d = xs @ y # ys" "\<forall>x \<in> set xs. Q x" "\<not> Q y"
  shows "scan_while (\<lambda>i. Q (d ! i)) d i = i + length xs"
proof (rule scan_while_at)
  have len: "length d - i = length xs + 1 + length ys" using arg_cong [OF assms(1), of length] by simp
  then show "i + length xs < length d" by linarith
  show "\<not> Q (d ! (i + length xs))"
    using assms(3) drop_nth [of i d "xs @ [y]" ys "length xs"] assms(1) by simp
  fix j assume "i \<le> j" "j < i + length xs"
  then show "Q (d ! j)" using assms(2) drop_nth [OF assms(1), of "j - i"] by simp
qed simp

lemma drop_further: "drop i d = xs @ ys \<Longrightarrow> drop (i + length xs) d = ys"
  by (metis add.commute append_eq_conv_conj drop_drop)

text \<open>No tag ends in a text without brackets that does not end in a slash.\<close>

lemma no_end:
  assumes "drop i d = xs @ ys" "0x3e \<notin> set xs" "xs = [] \<or> last xs \<noteq> 0x2f" "i \<le> j" "j < i + length xs"
  shows "\<not> IS_END_ELEMENT1 d j" "\<not> IS_END_ELEMENT2 d j"
proof -
  have n: "l < length xs \<Longrightarrow> d ! (i + l) = xs ! l" for l by (rule drop_nth [OF assms(1)])
  obtain l where l: "j = i + l" "l < length xs" using assms(4,5) by (metis add_less_cancel_left le_Suc_ex)
  have m: "k < length xs \<Longrightarrow> xs ! k \<noteq> 0x3e" for k using assms(2) nth_mem by metis
  show "\<not> IS_END_ELEMENT1 d j" using n [of l] m [of l] l by (simp add: IS_END_ELEMENT1_def)
  show "\<not> IS_END_ELEMENT2 d j"
  proof (cases "l + 1 < length xs")
    case True
    then show ?thesis using n [of "l + 1"] m [of "l + 1"] l by (simp add: IS_END_ELEMENT2_def)
  next
    case False
    with l have "l = length xs - 1" "xs \<noteq> []" by auto
    with n [of l] l assms(3) have "d ! j \<noteq> 0x2f" by (simp add: last_conv_nth)
    then show ?thesis by (simp add: IS_END_ELEMENT2_def)
  qed
qed

lemma takeWhile_skip: "c \<notin> set xs \<Longrightarrow> takeWhile (\<lambda>x. x \<noteq> c) (xs @ ys) = xs @ takeWhile (\<lambda>x. x \<noteq> c) ys"
  by (induction xs) auto

lemma takeWhile_none: "c \<notin> set xs \<Longrightarrow> takeWhile (\<lambda>x. x \<noteq> c) xs = xs"
  by (induction xs) auto

lemma mem_chr_skip: "drop i d = xs @ ys \<Longrightarrow> ys \<noteq> [] \<Longrightarrow> c \<notin> set xs \<Longrightarrow> mem_chr d i c = mem_chr d (i + length xs) c"
  by (simp add: mem_chr_def drop_further takeWhile_skip add.assoc)

lemma mem_chr_here: "drop i d = c # ys \<Longrightarrow> mem_chr d i c = Some i"
  by (auto simp: mem_chr_def intro: ccontr)

lemma mem_chr_none: "c \<notin> set (drop i d) \<Longrightarrow> mem_chr d i c = None"
proof -
  assume c: "c \<notin> set (drop i d)"
  have t: "takeWhile (\<lambda>x. x \<noteq> c) (drop i d) = drop i d" using takeWhile_skip [OF c, of "[]"] by simp
  show ?thesis by (simp only: mem_chr_def t Let_def) simp
qed

lemma find_tag_here: "drop i d = 0x3c # c # ys \<Longrightarrow> c \<noteq> 0x21 \<Longrightarrow> find_tag d i = Inr i"
  by (simp add: find_tag.simps mem_chr_here IS_CONST_STR_def)

lemma find_tag_text: "drop i d = xs @ ys \<Longrightarrow> 0x3c \<notin> set xs \<Longrightarrow> find_tag d i = find_tag d (i + length xs)"
proof (cases "ys = []")
  case True
  moreover assume "drop i d = xs @ ys" "0x3c \<notin> set xs"
  ultimately show ?thesis by (simp add: find_tag.simps mem_chr_none drop_further)
next
  case False
  assume "drop i d = xs @ ys" "0x3c \<notin> set xs"
  from mem_chr_skip [OF this(1) False this(2)] show ?thesis
    by (simp add: find_tag.simps [of d i] find_tag.simps [of d "i + length xs"])
qed

lemma find_tag_comment:
  assumes "drop i d = str ''<!--'' @ c @ str ''-->'' @ ys" "0x3e \<notin> set c"
  shows "find_tag d i = find_tag d (i + length c + 7)"
proof -
  let ?p = "str ''<!--'' @ c @ str ''--''"
  have d: "drop i d = ?p @ 0x3e # ys" using assms(1) by simp
  have "mem_chr d i 0x3e = Some (i + length ?p)"
    using mem_chr_skip [OF d] mem_chr_here [OF drop_further [OF d]] assms(2) by simp
  moreover have "drop (i + length (str ''<!--'' @ c)) d = str ''-->'' @ ys" using assms(1) by (intro drop_further) simp
  ultimately have "comment_end d i = Some (i + length ?p + 1)"
    by (simp add: comment_end.simps IS_CONST_STR_def)
  moreover have "mem_chr d i 0x3c = Some i" "IS_CONST_STR d i (str ''<!--'')"
    using assms(1) by (auto simp: IS_CONST_STR_def intro!: mem_chr_here)
  ultimately show ?thesis by (subst find_tag.simps) (simp add: numeral_eq_Suc)
qed

lemma start_element_tag: "find_tag d i = find_tag d j \<Longrightarrow> start_element d i = start_element d j"
  by (simp add: start_element_def)


section \<open>Reading what is printed\<close>

lemma attrs_text_chars:
  "\<forall>(a, v) \<in> set as. attr_name a \<Longrightarrow> 0x3e \<notin> set (attrs_text as)"
  by (induction as rule: attrs_text.induct) (use xml_text_chars in \<open>auto simp: attr_name_def disjoint_iff\<close>)

lemma attrs_text_last: "as \<noteq> [] \<Longrightarrow> last (attrs_text as) = 0x22"
proof (induction as rule: attrs_text.induct)
  case (2 n v as)
  then show ?case by (cases as) auto
qed simp

definition tag_end :: "bool \<Rightarrow> bytes" where
  "tag_end close = (if close then str ''/>'' else str ''>'')"

lemma tag_end_at:
  assumes "drop i d = tag_end close @ ys"
  shows "i < length d" "\<not> IS_SPACE (d ! i)" "IS_END_ELEMENT1 d i \<longleftrightarrow> \<not> close" "close \<Longrightarrow> IS_END_ELEMENT2 d i"
proof -
  have len: "length d - i = length (tag_end close) + length ys" using arg_cong [OF assms, of length] by simp
  note n = drop_nth [OF assms]
  show "i < length d" "\<not> IS_SPACE (d ! i)" "IS_END_ELEMENT1 d i \<longleftrightarrow> \<not> close" "close \<Longrightarrow> IS_END_ELEMENT2 d i"
    using len n [of 0] n [of 1]
    by (auto simp: tag_end_def IS_SPACE_def IS_END_ELEMENT1_def IS_END_ELEMENT2_def split: if_splits)
qed

lemma start_element_text:
  assumes d: "drop i d = 0x3c # n @ attrs_text as @ tag_end close @ rest"
    and n: "tag_name n" and as: "\<forall>(a, v) \<in> set as. attr_name a"
  defines "f \<equiv> i + 1 + length n + length (attrs_text as)"
  defines "j \<equiv> f + length (tag_end close)"
  defines "a \<equiv> i + 1 + length n + (if as = [] then 0 else 1)"
  defines "x \<equiv> \<lparr>x_element = i + 1, x_element_len = length n, x_element_close = close, x_attr = a, x_attr_len = f - a,
    x_content = None, x_content_len = 0, x_data = j, x_data_len = 0\<rparr>"
  defines "k \<equiv> scan_while (\<lambda>i. \<not> IS_BEGIN_ELEMENT1 d i \<and> \<not> IS_BEGIN_ELEMENT2 d i) d j"
  shows "start_element d i =
    (if hd n \<noteq> 0x2f \<and> \<not> close then
       if k \<ge> length d then Inl SDF_XML_RET_ERROR
       else if IS_BEGIN_ELEMENT1 d k then Inr (k, x\<lparr>x_data := k\<rparr>)
       else Inr (k, x\<lparr>x_content := Some j, x_content_len := k - j, x_data := k\<rparr>)
     else Inr (j, x))"
proof -
  obtain c m where c: "n = c # m" "c \<noteq> 0x21" using n by (cases n) (auto simp: tag_name_def)
  have tag: "find_tag d i = Inr i" using d c by (intro find_tag_here) auto
  have close: "IS_BEGIN_ELEMENT2 d i \<longleftrightarrow> hd n = 0x2f"
  proof -
    have d2: "drop i d = [0x3c, c] @ m @ attrs_text as @ tag_end close @ rest" using d c by simp
    have "length d - i = length (n @ attrs_text as @ tag_end close @ rest) + 1" using arg_cong [OF d, of length] by simp
    then have "i + 2 \<le> length d" using c by simp
    then show ?thesis using drop_nth [OF d2, of 0] drop_nth [OF d2, of 1] c by (simp add: IS_BEGIN_ELEMENT2_def)
  qed
  have d1: "drop (i + 1) d = n @ attrs_text as @ tag_end close @ rest" using drop_further [of i d "[0x3c]"] d by simp
  note dn = drop_further [OF d1]
  have df: "drop f d = tag_end close @ rest" unfolding f_def using drop_further [OF dn] by simp
  note fe = tag_end_at [OF df]
  have e: "scan_while (\<lambda>i. \<not> IS_SPACE (d ! i) \<and> \<not> IS_END_ELEMENT1 d i \<and> \<not> IS_END_ELEMENT2 d i) d (i + 1) =
      i + 1 + length n"
  proof (rule scan_while_at)
    fix l assume l: "i + 1 \<le> l" "l < i + 1 + length n"
    have "d ! l = n ! (l - (i + 1))" "n ! (l - (i + 1)) \<in> set n" using drop_nth [OF d1, of "l - (i + 1)"] l by auto
    then have "\<not> IS_SPACE (d ! l)" using n by (auto simp: tag_name_def IS_SPACE_def)
    then show "\<not> IS_SPACE (d ! l) \<and> \<not> IS_END_ELEMENT1 d l \<and> \<not> IS_END_ELEMENT2 d l"
      using no_end [OF d1 _ _ l] n by (auto simp: tag_name_def)
  next
    show "i + 1 + length n < length d" using fe(1) by (simp add: f_def)
    show "\<not> (\<not> IS_SPACE (d ! (i + 1 + length n)) \<and> \<not> IS_END_ELEMENT1 d (i + 1 + length n) \<and>
        \<not> IS_END_ELEMENT2 d (i + 1 + length n))"
    proof (cases as)
      case Nil
      with fe show ?thesis by (cases close) (auto simp: f_def)
    next
      case (Cons p as')
      then have "d ! (i + 1 + length n) = 0x20" using drop_nth [OF dn, of 0] by (cases p) simp
      then show ?thesis by (simp add: IS_SPACE_def)
    qed
  qed simp
  have sp: "scan_while (\<lambda>i. IS_SPACE (d ! i)) d (i + 1 + length n) = a"
  proof (cases as)
    case Nil
    with fe have "\<not> IS_SPACE (d ! (i + 1 + length n))" by (simp add: f_def)
    with Nil show ?thesis by (simp add: scan_while.simps a_def)
  next
    case (Cons p as')
    obtain b v where p: "p = (b, v)" by (cases p)
    then obtain y ys where y: "b = y # ys" "\<not> IS_SPACE y"
      using as Cons by (cases b) (auto simp: attr_name_def IS_SPACE_def)
    have "drop (i + 1 + length n) d = [0x20] @ y # (ys @ [0x3d, 0x22] @ xml_text v @ [0x22] @ attrs_text as' @ tag_end close @ rest)"
      using dn Cons p y by simp
    from scan_bytes [OF this, of IS_SPACE] y Cons show ?thesis by (simp add: IS_SPACE_def a_def)
  qed
  have da: "drop a d = drop (a - (i + 1 + length n)) (attrs_text as) @ tag_end close @ rest"
    using dn drop_further [of "i + 1 + length n" d "[0x20]"] by (cases as rule: attrs_text.cases) (auto simp: a_def)
  have fa: "f = a + length (drop (a - (i + 1 + length n)) (attrs_text as))"
    by (cases as rule: attrs_text.cases) (auto simp: a_def f_def)
  have f: "scan_while (\<lambda>i. \<not> IS_END_ELEMENT1 d i \<and> \<not> IS_END_ELEMENT2 d i) d a = f"
  proof (rule scan_while_at)
    fix l assume l: "a \<le> l" "l < f"
    have "0x3e \<notin> set (drop (a - (i + 1 + length n)) (attrs_text as))"
      using attrs_text_chars [OF as] in_set_dropD by fast
    moreover have "drop (a - (i + 1 + length n)) (attrs_text as) = [] \<or>
        last (drop (a - (i + 1 + length n)) (attrs_text as)) \<noteq> 0x2f"
      using attrs_text_last [of as] by (cases "as = []") (auto simp: last_drop)
    ultimately show "\<not> IS_END_ELEMENT1 d l \<and> \<not> IS_END_ELEMENT2 d l"
      using no_end [OF da _ _ l(1)] l(2) fa by simp
  qed (use fe fa in auto)
  have j: "(if \<not> IS_END_ELEMENT1 d f then f + 2 else f + 1) = j" using fe by (simp add: j_def tag_end_def)
  show ?thesis
    unfolding start_element_def tag sum.case Let_def e sp f j close k_def [symmetric] x_def
    using fe n c by (simp add: f_def)
qed


text \<open>An element that is not empty, up to the next tag.\<close>

lemma start_element_open:
  assumes d: "drop i d = 0x3c # n @ attrs_text as @ tag_end False @ t @ 0x3c # c # rest"
    and n: "element_name n" and as: "\<forall>(a, v) \<in> set as. attr_name a" and t: "0x3c \<notin> set t"
  shows "start_element d i =
    (let a = i + 1 + length n + (if as = [] then 0 else 1); f = i + 1 + length n + length (attrs_text as) in
     Inr (f + 1 + length t, \<lparr>x_element = i + 1, x_element_len = length n, x_element_close = False, x_attr = a,
       x_attr_len = f - a, x_content = (if c = 0x2f then Some (f + 1) else None),
       x_content_len = (if c = 0x2f then length t else 0), x_data = f + 1 + length t, x_data_len = 0\<rparr>))"
proof -
  let ?j = "i + 1 + length n + length (attrs_text as) + 1" and ?k = "i + 1 + length n + length (attrs_text as) + 1 + length t"
  let ?P = "\<lambda>i. \<not> IS_BEGIN_ELEMENT1 d i \<and> \<not> IS_BEGIN_ELEMENT2 d i"
  have dj: "drop ?j d = t @ [0x3c, c] @ rest"
    using drop_further [of i d "0x3c # n @ attrs_text as @ tag_end False" "t @ 0x3c # c # rest"] d by (simp add: add.assoc tag_end_def)
  have te: "length (tag_end False) = 1" by (simp add: tag_end_def)
  have dk: "drop ?k d = [0x3c, c] @ rest" by (rule drop_further [OF dj])
  have "length d - ?k = length rest + 2" using arg_cong [OF dk, of length] by simp
  then have len: "?k + 2 \<le> length d" by linarith
  have at: "d ! ?k = 0x3c" "d ! (?k + 1) = c" using drop_nth [OF dk, of 0] drop_nth [OF dk, of 1] by simp_all
  have tags: "IS_BEGIN_ELEMENT1 d ?k \<longleftrightarrow> c \<noteq> 0x2f" "IS_BEGIN_ELEMENT2 d ?k \<longleftrightarrow> c = 0x2f"
    unfolding IS_BEGIN_ELEMENT1_def IS_BEGIN_ELEMENT2_def at using len by simp_all
  have s: "scan_while ?P d ?j = ?k"
  proof (rule scan_while_at)
    fix l assume l: "?j \<le> l" "l < ?k"
    have "d ! l \<in> set t" using drop_nth_in [OF dj l(1)] l(2) by simp
    with t show "?P l" by (auto simp: IS_BEGIN_ELEMENT1_def IS_BEGIN_ELEMENT2_def)
  qed (use len tags in auto)
  have "tag_name n" "hd n \<noteq> 0x2f" using n by (simp_all add: element_name_def)
  with start_element_text [OF d this(1) as, unfolded te] show ?thesis
    unfolding s using len tags by (simp add: Let_def tag_end_def)
qed

lemma xml_print_tags: "0x3c \<in> set (concat (map xml_print cs)) \<longleftrightarrow> (\<exists>c \<in> set cs. \<not> (\<exists>t. c = Text t))"
proof -
  have "0x3c \<in> set (xml_print c) \<longleftrightarrow> \<not> (\<exists>t. c = Text t)" for c
    using xml_text_chars by (cases c) (auto simp: disjoint_iff)
  then show ?thesis by auto
qed

text \<open>The text in front of the first tag.\<close>

lemma leading_text:
  obtains t c rest where "xs @ str ''</'' @ ys = t @ 0x3c # c # rest" "0x3c \<notin> set t"
    "t = takeWhile (\<lambda>x. x \<noteq> 0x3c) xs" "0x3c \<in> set xs \<or> c = 0x2f"
proof (cases "0x3c \<in> set xs")
  case True
  then obtain t u where tu: "xs = t @ 0x3c # u" "0x3c \<notin> set t" by (meson split_list_first)
  have "t = takeWhile (\<lambda>x. x \<noteq> 0x3c) xs" using tu by (simp add: takeWhile_skip)
  moreover have "u @ str ''</'' @ ys = hd (u @ str ''</'' @ ys) # tl (u @ str ''</'' @ ys)" by (cases u) simp_all
  ultimately show ?thesis using tu True
    by (intro that [of t "hd (u @ str ''</'' @ ys)" "tl (u @ str ''</'' @ ys)"]) simp_all
next
  case False
  show ?thesis
    by (rule that [of xs "0x2f" ys, OF _ False takeWhile_none [OF False, symmetric]]) simp_all
qed


section \<open>Elements in a document\<close>

abbreviation xml_prints :: "xml list \<Rightarrow> bytes" where
  "xml_prints cs \<equiv> concat (map xml_print cs)"

lemma xml_print_elem:
  "xml_print (Elem n as cs) @ rest =
     (if cs = [] then 0x3c # n @ attrs_text as @ tag_end True @ rest
      else 0x3c # n @ attrs_text as @ tag_end False @ xml_prints cs @ str ''</'' @ n @ str ''>'' @ rest)"
  by (simp add: tag_end_def)

lemma attrs_ok: "xml_ok (Elem n as cs) \<Longrightarrow> \<forall>(a, v) \<in> set as. attr_name a"
  by auto

lemma end_element_skip: "start_element d i = start_element d j \<Longrightarrow> end_element d i nm = end_element d j nm"
  by (simp add: end_element.simps)

lemma start_element_elem:
  assumes d: "drop i d = xml_print (Elem n as cs) @ rest" and ok: "xml_ok (Elem n as cs)" and cs: "cs \<noteq> []"
  defines "j \<equiv> i + 2 + length n + length (attrs_text as)"
  obtains k x where "start_element d i = Inr (k, x)" "x_element x = i + 1" "x_element_len x = length n"
    "\<not> x_element_close x" "x_attr x = i + 1 + length n + (if as = [] then 0 else 1)"
    "x_attr_len x = length (drop 1 (attrs_text as))" "x_data x = k"
    "k = j + length (takeWhile (\<lambda>c. c \<noteq> 0x3c) (xml_prints cs))" "start_element d j = start_element d k"
    "drop j d = xml_prints cs @ str ''</'' @ n @ str ''>'' @ rest"
    "0x3c \<notin> set (xml_prints cs) \<Longrightarrow> x_content x = Some j \<and> x_content_len x = length (xml_prints cs)"
proof -
  let ?r = "n @ str ''>'' @ rest"
  obtain t c u where t: "xml_prints cs @ str ''</'' @ ?r = t @ 0x3c # c # u" "0x3c \<notin> set t"
      "t = takeWhile (\<lambda>c. c \<noteq> 0x3c) (xml_prints cs)" "0x3c \<in> set (xml_prints cs) \<or> c = 0x2f"
    by (rule leading_text [of "xml_prints cs" ?r])
  have dt: "drop i d = 0x3c # n @ attrs_text as @ tag_end False @ t @ 0x3c # c # u"
    using d cs t(1) by (simp add: tag_end_def)
  have dj: "drop j d = t @ 0x3c # c # u"
    using drop_further [of i d "0x3c # n @ attrs_text as @ tag_end False" "t @ 0x3c # c # u"] dt
    by (simp add: tag_end_def j_def add.assoc)
  have n: "element_name n" using ok by simp
  note s = start_element_open [OF dt n attrs_ok [OF ok] t(2), unfolded Let_def]
  have skip: "start_element d j = start_element d (j + length t)"
    by (rule start_element_tag [OF find_tag_text [OF dj t(2)]])
  have nocontent: "0x3c \<notin> set (xml_prints cs) \<Longrightarrow> t = xml_prints cs \<and> c = 0x2f"
    using t(3,4) takeWhile_skip [of "0x3c" "xml_prints cs" "[]"] by (metis append_Nil2 takeWhile.simps(1))
  have k: "i + 1 + length n + length (attrs_text as) + 1 + length t = j + length t" by (simp add: j_def)
  have a: "i + 1 + length n + length (attrs_text as) - (i + 1 + length n + (if as = [] then 0 else 1)) =
      length (drop 1 (attrs_text as))" by simp
  from s obtain x where x: "start_element d i = Inr (j + length t, x)" "x_element x = i + 1" "x_element_len x = length n"
      "\<not> x_element_close x" "x_attr x = i + 1 + length n + (if as = [] then 0 else 1)"
      "x_attr_len x = length (drop 1 (attrs_text as))" "x_data x = j + length t"
      "x_content x = (if c = 0x2f then Some j else None)" "x_content_len x = (if c = 0x2f then length t else 0)"
    unfolding k a by (simp add: j_def)
  show ?thesis
    by (rule that [OF x(1-7) _ skip dj [unfolded t(1) [symmetric]]], simp only: t(3), simp only: x(8,9) nocontent if_True simp_thms)
qed


text \<open>An element without content.\<close>

lemma start_element_empty:
  assumes d: "drop i d = xml_print (Elem n as []) @ rest" and ok: "xml_ok (Elem n as [])"
  obtains x where "start_element d i = Inr (i + length (xml_print (Elem n as [])), x)" "x_element x = i + 1"
    "x_element_len x = length n" "x_element_close x" "x_attr x = i + 1 + length n + (if as = [] then 0 else 1)"
    "x_attr_len x = length (drop 1 (attrs_text as))" "x_data_len x = 0" "x_content x = None"
proof -
  have n: "tag_name n" using ok by (simp add: element_name_def)
  have dt: "drop i d = 0x3c # n @ attrs_text as @ tag_end True @ rest" using d by (simp add: tag_end_def)
  have k: "i + 1 + length n + length (attrs_text as) + length (tag_end True) = i + length (xml_print (Elem n as []))"
    by (simp add: tag_end_def)
  show ?thesis
    by (rule that [OF start_element_text [OF dt n attrs_ok [OF ok], unfolded k simp_thms if_False]]) simp_all
qed

text \<open>The end tag of an element.\<close>

lemma start_element_end:
  assumes d: "drop i d = str ''</'' @ n @ str ''>'' @ rest" and n: "element_name n"
  obtains x where "start_element d i = Inr (i + length n + 3, x)" "x_element x = i + 1"
    "x_element_len x = length n + 1" "\<not> x_element_close x" "d ! x_element x = 0x2f" "drop 1 (name_of d x) = n"
proof -
  have tn: "tag_name (0x2f # n)" using n by (auto simp: element_name_def tag_name_def)
  have dt: "drop i d = 0x3c # (0x2f # n) @ attrs_text [] @ tag_end False @ rest" using d by (simp add: tag_end_def)
  have d1: "drop (i + 1) d = 0x2f # n @ str ''>'' @ rest" using drop_further [of i d "[0x3c]"] d by simp
  have "d ! (i + 1) = 0x2f" using drop_nth [of "i + 1" d "[0x2f]" "n @ str ''>'' @ rest" 0] d1 by simp
  moreover have "name_of d \<lparr>x_element = i + 1, x_element_len = length (0x2f # n), x_element_close = c, x_attr = a,
      x_attr_len = al, x_content = ct, x_content_len = cl, x_data = k, x_data_len = dl\<rparr> = 0x2f # n" for c a al ct cl k dl
    using d1 by (simp add: name_of_def)
  moreover have k: "i + 1 + length (0x2f # n) + length (attrs_text []) + length (tag_end False) = i + length n + 3"
    by (simp add: tag_end_def)
  ultimately show ?thesis
    by (intro that [OF start_element_text [OF dt tn, unfolded k list.sel simp_thms if_False]]) simp_all
qed

lemma name_of_at: "drop i d = 0x3c # n @ ys \<Longrightarrow> x_element x = i + 1 \<Longrightarrow> x_element_len x = length n \<Longrightarrow> name_of d x = n"
  using drop_further [of i d "[0x3c]" "n @ ys"] by (simp add: name_of_def)

lemma end_element_print:
  "\<lbrakk>drop i d = xml_prints cs @ str ''</'' @ nm @ str ''>'' @ rest; \<forall>c \<in> set cs. xml_ok c; element_name nm\<rbrakk>
   \<Longrightarrow> end_element d i nm = Inr (i + length (xml_prints cs) + length nm + 3, i + length (xml_prints cs))"
proof (induction "size_list size cs" arbitrary: cs i nm rest rule: less_induct)
  case less
  note nm = less.prems(3)
  show ?case
  proof (cases cs)
    case Nil
    with less.prems(1) have d: "drop i d = str ''</'' @ nm @ str ''>'' @ rest" by simp
    obtain x where x: "start_element d i = Inr (i + length nm + 3, x)" "x_element x = i + 1"
      "x_element_len x = length nm + 1" "\<not> x_element_close x" "d ! x_element x = 0x2f" "drop 1 (name_of d x) = nm"
      by (rule start_element_end [OF d nm])
    with Nil show ?thesis by (simp add: end_element.simps [of d i])
  next
    case (Cons c cs')
    let ?tail = "xml_prints cs' @ str ''</'' @ nm @ str ''>'' @ rest"
    have d: "drop i d = xml_print c @ ?tail" using less.prems(1) Cons by simp
    note d' = drop_further [OF d]
    have IH: "end_element d (i + length (xml_print c)) nm =
        Inr (i + length (xml_prints cs) + length nm + 3, i + length (xml_prints cs))"
      using less.hyps [OF _ d' _ nm] less.prems(2) Cons by (simp add: add.assoc)
    show ?thesis
    proof (cases c)
      case (Text t)
      have "0x3c \<notin> set (xml_print c)" using Text xml_text_chars by (auto simp: disjoint_iff)
      from end_element_skip [OF start_element_tag [OF find_tag_text [OF d this]]] IH show ?thesis by simp
    next
      case (Comment t)
      then have "find_tag d i = find_tag d (i + length (xml_print c))"
        using find_tag_comment [of i d t] d less.prems(2) Cons by (simp add: numeral_eq_Suc)
      from end_element_skip [OF start_element_tag [OF this]] IH show ?thesis by simp
    next
      case (Elem n as es)
      have ok: "xml_ok (Elem n as es)" using less.prems(2) Cons Elem by simp
      then have n: "element_name n" by simp
      obtain ys where dn: "drop i d = 0x3c # n @ ys" using d Elem by (cases "es = []") auto
      show ?thesis
      proof (cases "es = []")
        case True
        obtain x where x: "start_element d i = Inr (i + length (xml_print c), x)" "x_element_close x"
          by (rule start_element_empty [of i d n as ?tail]) (use d Elem True ok in auto)
        with IH show ?thesis by (simp add: end_element.simps [of d i])
      next
        case False
        let ?j = "i + 2 + length n + length (attrs_text as)"
        obtain k x where x: "start_element d i = Inr (k, x)" "x_element x = i + 1" "x_element_len x = length n"
            "\<not> x_element_close x" "start_element d ?j = start_element d k"
            "drop ?j d = xml_prints es @ str ''</'' @ n @ str ''>'' @ ?tail"
          by (rule start_element_elem [of i d n as es ?tail]) (use d Elem False ok in auto)
        have name: "name_of d x = n" using name_of_at [OF dn x(2,3)] .
        have "d ! x_element x = hd n"
          using x(2) n drop_nth [of i d "0x3c # n" _ 1] dn by (cases n) (auto simp: element_name_def tag_name_def)
        with n have slash: "d ! x_element x \<noteq> 0x2f" by (simp add: element_name_def)
        have "end_element d ?j n = Inr (?j + length (xml_prints es) + length n + 3, ?j + length (xml_prints es))"
          using less.hyps [OF _ x(6) _ n] ok Cons Elem by simp
        moreover have "?j + length (xml_prints es) + length n + 3 = i + length (xml_print c)"
          using Elem False by simp
        ultimately have "end_element d k n = Inr (i + length (xml_print c), ?j + length (xml_prints es))"
          using end_element_skip [OF x(5)] by simp
        with x(1,4) name slash IH show ?thesis by (simp add: end_element.simps [of d i])
      qed
    qed
  qed
qed


section \<open>Looking up\<close>

text \<open>One attribute after the spaces in front of it.\<close>

lemma find_attribute_text:
  assumes d: "drop i d = s @ n @ [0x3d, 0x22] @ v @ [0x22] @ rest" and s: "set s \<subseteq> spaces"
    and n: "attr_name n" and v: "0x22 \<notin> set v" and rest: "rest = [] \<or> IS_SPACE (hd rest)"
  shows "SDF_xml_find_attribute d i =
    Inr (i + length s + length n + length v + 3, (i + length s, length n), (i + length s + length n + 2, length v))"
proof -
  obtain c m where c: "n = c # m" using n by (cases n) (auto simp: attr_name_def)
  have nsp: "\<forall>x \<in> set n. \<not> IS_SPACE x \<and> x \<noteq> 0x3d" using n by (auto simp: attr_name_def IS_SPACE_def)
  have d0: "drop i d = s @ c # (m @ [0x3d, 0x22] @ v @ [0x22] @ rest)" using d c by simp
  have s1: "scan_while (\<lambda>i. IS_SPACE (d ! i)) d i = i + length s"
    by (rule scan_bytes [OF d0]) (use s nsp c in \<open>auto simp: IS_SPACE_def\<close>)
  have d1: "drop (i + length s) d = n @ 0x3d # (0x22 # v @ [0x22] @ rest)" using drop_further [OF d0] c by simp
  have s2: "scan_while (\<lambda>i. \<not> IS_SPACE (d ! i) \<and> d ! i \<noteq> 0x3d) d (i + length s) = i + length s + length n"
    using scan_bytes [OF d1, of "\<lambda>x. \<not> IS_SPACE x \<and> x \<noteq> 0x3d"] nsp by simp
  have d2: "drop (i + length s + length n) d = [] @ 0x3d # (0x22 # v @ [0x22] @ rest)" using drop_further [OF d1] by simp
  have s3: "scan_while (\<lambda>i. IS_SPACE (d ! i)) d (i + length s + length n) = i + length s + length n"
    using scan_bytes [OF d2, of IS_SPACE] by (simp add: IS_SPACE_def)
  have d3: "drop (i + length s + length n + 1) d = [] @ 0x22 # (v @ [0x22] @ rest)"
    using drop_further [of "i + length s + length n" d "[0x3d]"] d2 by simp
  have s4: "scan_while (\<lambda>i. IS_SPACE (d ! i)) d (i + length s + length n + 1) = i + length s + length n + 1"
    using scan_bytes [OF d3, of IS_SPACE] by (simp add: IS_SPACE_def)
  have d4: "drop (i + length s + length n + 1 + 1) d = v @ 0x22 # rest"
    using drop_further [of "i + length s + length n + 1" d "[0x22]"] d3 by simp
  have s5: "scan_while (\<lambda>i. d ! i \<noteq> 0x22) d (i + length s + length n + 1 + 1) = i + length s + length n + 1 + 1 + length v"
    using scan_bytes [OF d4, of "\<lambda>x. x \<noteq> 0x22"] v by auto
  have at: "d ! (i + length s + length n) = 0x3d" "d ! (i + length s + length n + 1) = 0x22"
    using drop_nth [of "i + length s + length n" d "[0x3d, 0x22]" _ 0] drop_nth [of "i + length s + length n" d "[0x3d, 0x22]" _ 1] d2
    by simp_all
  have len: "length d = i + length s + length n + length v + 3 + length rest"
    using arg_cong [OF d4, of length] by simp
  have d5: "drop (i + length s + length n + length v + 3) d = rest"
    using drop_further [of "i + length s + length n + 1 + 1" d "v @ [0x22]" rest] d4 by (simp add: numeral_eq_Suc)
  have sp: "i + length s + length n + length v + 3 < length d \<Longrightarrow> IS_SPACE (d ! (i + length s + length n + length v + 3))"
    using rest len hd_drop_conv_nth [of "i + length s + length n + length v + 3" d] d5 by auto
  show ?thesis
    unfolding SDF_xml_find_attribute_def Let_def s1 s2 s3 s4 at s5
    using len sp n by (auto simp: attr_name_def numeral_eq_Suc)
qed

text \<open>The first attribute of a name.\<close>

lemma attribute_named_text:
  "\<lbrakk>drop i d = drop k (attrs_text as); k \<le> 1; \<forall>(a, v) \<in> set as. attr_name a\<rbrakk> \<Longrightarrow>
     case map_of as name of
       None \<Rightarrow> attribute_named d i name = Inl SDF_XML_RET_EOF
     | Some v \<Rightarrow> \<exists>p rest. attribute_named d i name = Inr (p, length (xml_text v)) \<and>
         drop p d = xml_text v @ 0x22 # rest"
proof (induction as arbitrary: i k)
  case Nil
  then have "length d \<le> i" by simp
  then show ?case
    by (simp add: attribute_named.simps [of d i] SDF_xml_find_attribute_def scan_while.simps)
next
  case (Cons p as)
  obtain n v where p: "p = (n, v)" by (cases p)
  define s where "s = drop k (str '' '')"
  define j where "j = i + length s + length n + length (xml_text v) + 3"
  have s: "set s \<subseteq> spaces" "drop i d = s @ n @ [0x3d, 0x22] @ xml_text v @ [0x22] @ attrs_text as"
    using Cons.prems(1,2) p by (cases k; auto simp: s_def)+
  have n: "attr_name n" using Cons.prems(3) p by simp
  have q: "0x22 \<notin> set (xml_text v)" using xml_text_chars by auto
  have "attrs_text as = [] \<or> IS_SPACE (hd (attrs_text as))" by (cases as) (auto simp: IS_SPACE_def split: prod.split)
  note f = find_attribute_text [OF s(2,1) n q this, folded j_def]
  have dn: "drop (i + length s) d = n @ [0x3d, 0x22] @ xml_text v @ [0x22] @ attrs_text as" using drop_further [OF s(2)] .
  then have name: "take (length n) (drop (i + length s) d) = n" by simp
  have dv: "drop (i + length s + length n + 2) d = xml_text v @ 0x22 # attrs_text as"
    using drop_further [of "i + length s" d "n @ [0x3d, 0x22]"] dn by simp
  have dj: "drop j d = drop 0 (attrs_text as)"
    using drop_further [of "i + length s + length n + 2" d "xml_text v @ [0x22]"] dv by (simp add: j_def numeral_eq_Suc)
  show ?case
  proof (cases "n = name")
    case True
    then show ?thesis using f name dv p by (simp add: attribute_named.simps [of d i])
  next
    case False
    then have "attribute_named d i name = attribute_named d j name"
      using f name by (simp add: attribute_named.simps [of d i])
    with Cons.IH [OF dj] Cons.prems(3) False p show ?thesis by (simp split: option.splits)
  qed
qed
definition is_text :: "xml \<Rightarrow> bool" where
  "is_text c \<longleftrightarrow> (\<exists>t. c = Text t)"

text \<open>The first element of a name: its attributes, what is in it, and what follows it.\<close>

fun find_elem :: "bytes \<Rightarrow> xml list \<Rightarrow> ((bytes \<times> bytes) list \<times> xml list \<times> xml list) option" where
  "find_elem el [] = None"
| "find_elem el (Elem n as es # cs) = (if n = el then Some (as, es, cs) else find_elem el cs)"
| "find_elem el (c # cs) = find_elem el cs"

text \<open>What the record of an element says: the text in front of its first tag is not part of its data.\<close>

definition element_at :: "bytes \<Rightarrow> SDF_XML \<Rightarrow> bytes \<Rightarrow> (bytes \<times> bytes) list \<Rightarrow> xml list \<Rightarrow> bool" where
  "element_at d x n as es \<longleftrightarrow>
     name_of d x = n \<and> x_element_close x = (es = []) \<and>
     take (x_attr_len x) (drop (x_attr x) d) = drop 1 (attrs_text as) \<and>
     take (x_data_len x) (drop (x_data x) d) = xml_prints (dropWhile is_text es) \<and>
     (es \<noteq> [] \<and> list_all is_text es \<longrightarrow>
       map_option (\<lambda>c. take (x_content_len x) (drop c d)) (x_content x) = Some (xml_prints es))"

lemma dropWhile_text: "dropWhile (\<lambda>c. c \<noteq> 0x3c) (xml_prints cs) = xml_prints (dropWhile is_text cs)"
proof (induction cs)
  case (Cons c cs)
  show ?case
  proof (cases c)
    case (Text t)
    then have "\<forall>x \<in> set (xml_print c). x \<noteq> 0x3c" using xml_text_chars by (auto simp: disjoint_iff)
    then have "dropWhile (\<lambda>c. c \<noteq> 0x3c) (xml_print c @ xml_prints cs) = dropWhile (\<lambda>c. c \<noteq> 0x3c) (xml_prints cs)"
      by (simp add: dropWhile_append2)
    with Cons Text show ?thesis by (simp add: is_text_def)
  qed (auto simp: is_text_def)
qed simp

lemma text_no_tag: "list_all is_text es \<Longrightarrow> 0x3c \<notin> set (xml_prints es)"
  by (auto simp: is_text_def list_all_iff xml_print_tags simp del: set_concat)

lemma find_start_here:
  "\<lbrakk>start_element d i = Inr (k, x); name_of d x = n; element_name n\<rbrakk> \<Longrightarrow>
     SDF_xml_find_start_element d i = (k, Inr x)"
  by (auto simp: SDF_xml_find_start_element.simps [of d i] element_name_def tag_name_def)

lemma attrs_at:
  "drop i d = 0x3c # n @ attrs_text as @ ys \<Longrightarrow>
     drop (i + 1 + length n + (if as = [] then 0 else 1)) d = drop 1 (attrs_text as) @ ys"
  using drop_further [of i d "0x3c # n" "attrs_text as @ ys"]
    drop_further [of i d "0x3c # n @ [0x20]" "drop 1 (attrs_text as) @ ys"]
  by (cases as rule: attrs_text.cases) auto

lemma find_element_here:
  assumes s: "start_element d i = start_element d j" and d: "drop j d = xml_print (Elem n as es) @ ys"
    and ok: "xml_ok (Elem n as es)"
  shows "\<exists>x. SDF_xml_find_element d i = (j + length (xml_print (Elem n as es)), Inr x) \<and> element_at d x n as es"
proof -
  have n: "element_name n" using ok by simp
  show ?thesis
  proof (cases "es = []")
    case True
    have dj: "drop j d = 0x3c # n @ attrs_text as @ tag_end True @ ys" using d True by (simp add: tag_end_def)
    obtain x where x: "start_element d j = Inr (j + length (xml_print (Elem n as es)), x)" "x_element x = j + 1"
        "x_element_len x = length n" "x_element_close x" "x_attr x = j + 1 + length n + (if as = [] then 0 else 1)"
        "x_attr_len x = length (drop 1 (attrs_text as))" "x_data_len x = 0" "x_content x = None"
      by (rule start_element_empty [of j d n as ys]) (use d ok True in auto)
    have name: "name_of d x = n" using name_of_at [OF dj x(2,3)] .
    have "element_at d x n as es"
      unfolding element_at_def x(5,6) attrs_at [OF dj] using x(4,7) name True by simp
    moreover have "SDF_xml_find_element d i = (j + length (xml_print (Elem n as es)), Inr x)"
      using x(4) by (simp only: SDF_xml_find_element_def find_start_here [OF trans [OF s x(1)] name n] prod.case sum.case if_True)
    ultimately show ?thesis by blast
  next
    case False
    let ?j = "j + 2 + length n + length (attrs_text as)" and ?ps = "xml_prints es"
    have dj: "drop j d = 0x3c # n @ attrs_text as @ tag_end False @ ?ps @ str ''</'' @ n @ str ''>'' @ ys"
      using d False by (simp add: tag_end_def)
    obtain k x where x: "start_element d j = Inr (k, x)" "x_element x = j + 1" "x_element_len x = length n"
        "\<not> x_element_close x" "x_attr x = j + 1 + length n + (if as = [] then 0 else 1)"
        "x_attr_len x = length (drop 1 (attrs_text as))" "x_data x = k"
        "k = ?j + length (takeWhile (\<lambda>c. c \<noteq> 0x3c) ?ps)" "start_element d ?j = start_element d k"
        "drop ?j d = ?ps @ str ''</'' @ n @ str ''>'' @ ys"
        "0x3c \<notin> set ?ps \<Longrightarrow> x_content x = Some ?j \<and> x_content_len x = length ?ps"
      by (rule start_element_elem [of j d n as es ys]) (use d ok False in auto)
    have name: "name_of d x = n" using name_of_at [OF dj x(2,3)] .
    have "end_element d ?j n = Inr (?j + length ?ps + length n + 3, ?j + length ?ps)"
      by (rule end_element_print [OF x(10) _ n]) (use ok in simp)
    then have e: "end_element d k n = Inr (j + length (xml_print (Elem n as es)), ?j + length ?ps)"
      using end_element_skip [OF x(9)] False by (simp add: numeral_eq_Suc)
    have tw: "takeWhile (\<lambda>c. c \<noteq> 0x3c) ?ps @ xml_prints (dropWhile is_text es) = ?ps"
      using takeWhile_dropWhile_id dropWhile_text by metis
    have "drop ?j d = takeWhile (\<lambda>c. c \<noteq> 0x3c) ?ps @ xml_prints (dropWhile is_text es) @ str ''</'' @ n @ str ''>'' @ ys"
      by (simp only: x(10) append_assoc [symmetric] tw)
    then have dk: "drop k d = xml_prints (dropWhile is_text es) @ str ''</'' @ n @ str ''>'' @ ys"
      unfolding x(8) by (rule drop_further)
    have "length ?ps = length (takeWhile (\<lambda>c. c \<noteq> 0x3c) ?ps) + length (xml_prints (dropWhile is_text es))"
      using arg_cong [OF tw, of length] by simp
    then have dl: "?j + length ?ps - k = length (xml_prints (dropWhile is_text es))" unfolding x(8) by linarith
    let ?x = "x\<lparr>x_data_len := ?j + length ?ps - x_data x\<rparr>"
    have nx: "name_of d ?x = n" using name by (simp add: name_of_def)
    have "element_at d ?x n as es"
    proof -
      have "take (x_attr_len ?x) (drop (x_attr ?x) d) = drop 1 (attrs_text as)"
        using attrs_at [OF dj] x(5,6) by simp
      moreover have "take (x_data_len ?x) (drop (x_data ?x) d) = xml_prints (dropWhile is_text es)"
        using dk dl x(7) by simp
      moreover have "list_all is_text es \<Longrightarrow> map_option (\<lambda>c. take (x_content_len ?x) (drop c d)) (x_content ?x) = Some ?ps"
        using x(11) [OF text_no_tag] x(10) by simp
      ultimately show ?thesis unfolding element_at_def using nx x(4) False by simp
    qed
    with find_start_here [OF _ name n, of i k] s x(1,4) e name show ?thesis
      by (simp add: SDF_xml_find_element_def)
  qed
qed


lemma find_element_end:
  assumes "start_element d i = start_element d j" "drop j d = []"
  shows "SDF_xml_find_element d i = (i, Inl SDF_XML_RET_EOF)"
proof -
  have "mem_chr d j 0x3c = None" using assms(2) by (intro mem_chr_none) simp
  then have "start_element d j = Inl SDF_XML_RET_EOF" by (simp add: start_element_def find_tag.simps [of d j])
  with assms(1) show ?thesis by (simp add: SDF_xml_find_element_def SDF_xml_find_start_element.simps [of d i])
qed

lemma element_named_print:
  "\<lbrakk>start_element d i = start_element d j; drop j d = xml_prints cs; \<forall>c \<in> set cs. xml_ok c\<rbrakk> \<Longrightarrow>
     case find_elem el cs of
       None \<Rightarrow> \<exists>k. element_named d i el = (k, Inl SDF_XML_RET_EOF)
     | Some (as, es, rest) \<Rightarrow>
         \<exists>k x. element_named d i el = (k, Inr x) \<and> drop k d = xml_prints rest \<and> element_at d x el as es"
proof (induction cs arbitrary: i j)
  case Nil
  then show ?case using find_element_end [of d i j] by (simp add: element_named.simps [of d i])
next
  case (Cons c cs)
  have d: "drop j d = xml_print c @ xml_prints cs" using Cons.prems(2) by simp
  note dj = drop_further [OF d]
  have skip: ?case if "find_tag d j = find_tag d (j + length (xml_print c))" "find_elem el (c # cs) = find_elem el cs"
    using Cons.IH [OF _ dj, of i] Cons.prems(1,3) start_element_tag [OF that(1)] that(2) by simp
  show ?case
  proof (cases c)
    case (Text t)
    then have "0x3c \<notin> set (xml_print c)" using xml_text_chars by (auto simp: disjoint_iff)
    with find_tag_text [OF d] Text show ?thesis by (intro skip) simp_all
  next
    case (Comment t)
    then have "find_tag d j = find_tag d (j + length (xml_print c))"
      using find_tag_comment [of j d t] d Cons.prems(3) by (simp add: numeral_eq_Suc)
    with Comment show ?thesis by (intro skip) simp_all
  next
    case (Elem n as es)
    obtain x where x: "SDF_xml_find_element d i = (j + length (xml_print c), Inr x)" "element_at d x n as es"
      using find_element_here [OF Cons.prems(1), of n as es "xml_prints cs"] d Cons.prems(3) Elem by auto
    have name: "name_of d x = n" using x(2) by (simp add: element_at_def)
    show ?thesis
    proof (cases "n = el")
      case True
      with x name dj Elem show ?thesis by (simp add: element_named.simps [of d i])
    next
      case False
      define l where "l = j + length (xml_print c)"
      have "element_named d i el = element_named d l el"
        using False x(1) name by (simp add: element_named.simps [of d i] l_def)
      moreover have "find_elem el (c # cs) = find_elem el cs" using False Elem by simp
      ultimately show ?thesis using Cons.IH [OF refl dj [folded l_def]] Cons.prems(3)
        by (simp split: option.splits prod.splits)
    qed
  qed
qed

text \<open>The value of an attribute of an element.\<close>

lemma config_find_attr_print:
  assumes x: "element_at d x el as es" and ok: "\<forall>(a, v) \<in> set as. attr_name a \<and> plain v"
  shows "SDF_config_find_attr d x name vsize mandatory =
    Some (case map_of as name of
            None \<Rightarrow> Inl (config_code SDF_XML_RET_EOF mandatory)
          | Some v \<Rightarrow> if vsize \<le> length (xml_text v) then Inl SDF_CONFIG_RET_ERROR else Inr v)"
proof -
  let ?ab = "take (x_attr_len x) (drop (x_attr x) d)"
  have ab: "drop 0 ?ab = drop 1 (attrs_text as)" using x by (simp add: element_at_def)
  have names: "\<forall>(a, v) \<in> set as. attr_name a" using ok by auto
  note a = attribute_named_text [OF ab _ names, of name]
  show ?thesis
  proof (cases "map_of as name")
    case None
    with a show ?thesis by (simp add: SDF_config_find_attr_def)
  next
    case (Some v)
    then obtain p rest where p: "attribute_named ?ab 0 name = Inr (p, length (xml_text v))"
        "drop p ?ab = xml_text v @ 0x22 # rest" using a by auto
    have v: "plain v" using map_of_SomeD [OF Some] ok by auto
    have "p \<le> length ?ab" using p(2) by (metis append_is_Nil_conv drop_all list.distinct(1) nat_le_linear)
    then have "drop p (?ab @ drop (x_attr_len x) (drop (x_attr x) d)) = drop p ?ab @ drop (x_attr_len x) (drop (x_attr x) d)"
      by simp
    then have "drop (x_attr x + p) d = xml_text v @ 0x22 # rest @ drop (x_attr_len x) (drop (x_attr x) d)"
      unfolding append_take_drop_id p(2) by (simp add: add.commute)
    then have "SDF_xml_decode_data (drop (x_attr x + p) d) (int (length (xml_text v))) = Some v"
      using decode_text [OF v] by simp
    with Some p(1) show ?thesis by (simp add: SDF_config_find_attr_def)
  qed
qed


lemma find_elem_ok:
  "find_elem el cs = Some (as, es, rest) \<Longrightarrow> \<forall>c \<in> set cs. xml_ok c \<Longrightarrow>
     (\<forall>(a, v) \<in> set as. attr_name a \<and> plain v) \<and> (\<forall>c \<in> set es. xml_ok c) \<and> (\<forall>c \<in> set rest. xml_ok c)"
  by (induction el cs rule: find_elem.induct) (auto split: if_splits)

text \<open>
  C17. In a scope that stands in front of the text of a document, looking for an element finds the first
  one of that name: its contents become a scope of their own, which stands in front of the text of what
  is in it from the first tag on, and the scope moves behind it. An attribute of the element is the first
  one of its name, decoded; the value is refused when the buffer cannot hold its encoded text. When there
  is no such element or attribute, the answer is the end, or an error if it was mandatory.
\<close>

lemma sdf_config_lookup:
  fixes mandatory :: bool
  assumes doc: "drop (cm_curr scope) (cm_data scope) = xml_prints cs" "\<forall>c \<in> set cs. xml_ok c"
  defines "missing \<equiv> if mandatory then SDF_CONFIG_RET_ERROR else SDF_CONFIG_RET_EOF"
  shows
    "case find_elem el cs of
       None \<Rightarrow>
         snd (SDF_config_find_element scope el mandatory) = Inl missing \<and>
         map_option snd (SDF_config_find_element_attr scope el name vsize mandatory) = Some (Inl missing)
     | Some (as, es, rest) \<Rightarrow>
         \<exists>scope' inner x.
           SDF_config_find_element scope el mandatory = (scope', Inr (inner, x)) \<and>
           cm_data scope' = cm_data scope \<and> drop (cm_curr scope') (cm_data scope') = xml_prints rest \<and>
           element_at (cm_data scope) x el as es \<and>
           inner = \<lparr>cm_data = xml_prints (dropWhile is_text es), cm_curr = 0\<rparr> \<and>
           SDF_config_find_element_attr scope el name vsize mandatory =
             Some (scope',
               case map_of as name of
                 None \<Rightarrow> Inl missing
               | Some v \<Rightarrow> if vsize \<le> length (xml_text v) then Inl SDF_CONFIG_RET_ERROR else Inr v)"
proof -
  let ?d = "cm_data scope" and ?i = "cm_curr scope"
  have m: "config_code SDF_XML_RET_EOF mandatory = missing" by (simp add: config_code_def missing_def)
  note e = element_named_print [OF refl doc, of el]
  show ?thesis
  proof (cases "find_elem el cs")
    case None
    with e obtain k where "element_named ?d ?i el = (k, Inl SDF_XML_RET_EOF)" by auto
    with None m show ?thesis by (simp add: SDF_config_find_element_def SDF_config_find_element_attr_def)
  next
    case (Some r)
    then obtain as es rest where r: "find_elem el cs = Some (as, es, rest)" by (cases r) auto
    with e obtain k x where k: "element_named ?d ?i el = (k, Inr x)" "drop k ?d = xml_prints rest"
        "element_at ?d x el as es" by auto
    have ok: "\<forall>(a, v) \<in> set as. attr_name a \<and> plain v" using find_elem_ok [OF r doc(2)] by blast
    have data: "take (x_data_len x) (drop (x_data x) ?d) = xml_prints (dropWhile is_text es)"
      using k(3) by (simp add: element_at_def)
    show ?thesis
      using r k data config_find_attr_print [OF k(3) ok, of name vsize mandatory, unfolded m]
      by (simp add: SDF_config_find_element_def SDF_config_find_element_attr_def Let_def)
  qed
qed

lemma sdf_config_lookup_witness:
  "map_option snd (SDF_config_find_element_attr
     \<lparr>cm_data = xml_prints [Comment (str ''c''), Elem (str ''a'') [] [], Elem (str ''b'') [(str ''k'', str ''1<2'')] [Text (str ''t'')]],
       cm_curr = 0\<rparr> (str ''b'') (str ''k'') 10 True) = Some (Inr (str ''1<2''))"
proof -
  let ?cs = "[Comment (str ''c''), Elem (str ''a'') [] [], Elem (str ''b'') [(str ''k'', str ''1<2'')] [Text (str ''t'')]]"
  have ok: "\<forall>c \<in> set ?cs. xml_ok c" by (simp add: element_name_def tag_name_def attr_name_def)
  define s where "s = \<lparr>cm_data = xml_prints ?cs, cm_curr = 0\<rparr>"
  have s: "drop (cm_curr s) (cm_data s) = xml_prints ?cs" by (simp add: s_def)
  have f: "find_elem (str ''b'') ?cs = Some ([(str ''k'', str ''1<2'')], [Text (str ''t'')], [])" by simp
  have m: "map_of [(str ''k'', str ''1<2'')] (str ''k'') = Some (str ''1<2'')" by simp
  have l: "\<not> 10 \<le> length (xml_text (str ''1<2''))" by simp
  from sdf_config_lookup [OF s ok, of "str ''b''" True "str ''k''" 10, unfolded f option.case prod.case m if_not_P [OF l]]
  have "\<exists>c. SDF_config_find_element_attr s (str ''b'') (str ''k'') 10 True = Some (c, Inr (str ''1<2''))" by blast
  then show ?thesis unfolding s_def [symmetric] by auto
qed

end
