(* ===== verification/SdfLog.thy ===== *)
theory SdfLog
  imports CBase
begin

text \<open>
  The log of libs/sdf/sdflog.c, as sdflog.h configures it (\<open>SDFLOG_SPLIT\<close>): its settings, the level given
  as a text, the names of the log files, and the records. The local time is a parameter.
\<close>

section \<open>Settings\<close>

abbreviation (input) SDFLOG_LEVEL_NONE :: int where "SDFLOG_LEVEL_NONE \<equiv> 0"
abbreviation (input) SDFLOG_LEVEL_FATAL :: int where "SDFLOG_LEVEL_FATAL \<equiv> 1"
abbreviation (input) SDFLOG_LEVEL_ERROR :: int where "SDFLOG_LEVEL_ERROR \<equiv> 2"
abbreviation (input) SDFLOG_LEVEL_WARN :: int where "SDFLOG_LEVEL_WARN \<equiv> 4"
abbreviation (input) SDFLOG_LEVEL_INFO :: int where "SDFLOG_LEVEL_INFO \<equiv> 8"
abbreviation (input) SDFLOG_LEVEL_DEBUG :: int where "SDFLOG_LEVEL_DEBUG \<equiv> 16"
abbreviation (input) SDFLOG_LEVEL_ALL :: int where "SDFLOG_LEVEL_ALL \<equiv> 31"
abbreviation (input) SDFLOG_MSG_SIZE :: nat where "SDFLOG_MSG_SIZE \<equiv> 32 * 1024"

record log_state =
  log_level :: int
  log_dir :: bytes
  log_name :: bytes
  log_split_interval :: int

definition log_start :: log_state where
  "log_start = \<lparr>log_level = SDFLOG_LEVEL_ALL, log_dir = [], log_name = [], log_split_interval = 5\<rparr>"

text \<open>The arrays hold 256 and 1024 bytes, of which the code uses all but two.\<close>

definition SDF_log_init :: "bytes \<Rightarrow> bytes \<Rightarrow> int \<Rightarrow> log_state \<Rightarrow> log_state" where
  "SDF_log_init name dir interval s =
     (let n = length name;
          n = (if n \<ge> 255 then 254 else n);
          m = length dir;
          m = (if m > 0 \<and> dir ! (m - 1) = of_char (CHR ''/'') then m - 1 else m);
          m = (if m \<ge> 1023 then 1022 else m)
      in s\<lparr>log_split_interval := interval, log_name := take n name, log_dir := take m dir\<rparr>)"

section \<open>The level as a text\<close>

definition TOU :: "byte \<Rightarrow> byte" where
  "TOU c = (if of_char (CHR ''a'') \<le> c \<and> c \<le> of_char (CHR ''z'') then c - of_char (CHR ''a'') + of_char (CHR ''A'') else c)"

text \<open>
  Whether \<open>memXcmp\<close> returns 0: it stops at the first difference, at the latest at the NUL behind the
  first string.
\<close>

fun memXcmp :: "bytes \<Rightarrow> bytes \<Rightarrow> bool" where
  "memXcmp m1 [] \<longleftrightarrow> True"
| "memXcmp [] (c # M2) \<longleftrightarrow> False"
| "memXcmp (x # m1) (c # M2) \<longleftrightarrow> (x = c \<or> TOU x = c) \<and> memXcmp m1 M2"

text \<open>\<open>_IS_DELIMITER\<close>: what follows the delimiter.\<close>

definition delimiter :: "bytes \<Rightarrow> bytes option" where
  "delimiter level =
     (case level of
        [] \<Rightarrow> Some []
      | c # r \<Rightarrow> if c \<in> set (str '' ,+|'') then Some r else None)"

text \<open>The branches of the loop in their order.\<close>

definition level_names :: "(string \<times> int) list" where
  "level_names =
     [(''NONE'', SDFLOG_LEVEL_NONE), (''FATAL'', SDFLOG_LEVEL_FATAL), (''ERROR'', SDFLOG_LEVEL_ERROR),
      (''WARN'', SDFLOG_LEVEL_WARN), (''WARNNING'', SDFLOG_LEVEL_WARN), (''INFO'', SDFLOG_LEVEL_INFO),
      (''DEBUG'', SDFLOG_LEVEL_DEBUG), (''ALL'', SDFLOG_LEVEL_ALL)]"

fun find_level :: "(string \<times> int) list \<Rightarrow> bytes \<Rightarrow> (string \<times> int) option" where
  "find_level [] level = None"
| "find_level ((n, v) # ns) level = (if memXcmp level (str n) then Some (n, v) else find_level ns level)"

lemma find_level_member: "find_level ns level = Some p \<Longrightarrow> p \<in> set ns"
  by (induction ns) (auto split: if_splits)

lemma memXcmp_length: "memXcmp m1 M2 \<Longrightarrow> length M2 \<le> length m1"
  by (induction m1 M2 rule: memXcmp.induct) auto

lemma delimiter_length: "delimiter level = Some r \<Longrightarrow> length r \<le> length level"
  by (auto simp: delimiter_def split: list.splits if_splits)

lemma level_names_length: "(n, v) \<in> set level_names \<Longrightarrow> 0 < length n"
  by (auto simp: level_names_def)

lemma find_level_length: "find_level ns level = Some (n, v) \<Longrightarrow> length n \<le> length level"
  by (induction ns) (use memXcmp_length [of level] in \<open>force split: if_splits\<close>)+

function level_loop :: "int \<Rightarrow> bytes \<Rightarrow> int + int" where
  "level_loop lev level =
     (if level = [] then Inr lev
      else
        case find_level level_names level of
          None \<Rightarrow> Inl (-3)
        | Some (n, v) \<Rightarrow>
            let lev = lev OR v in
            case delimiter (drop (length n) level) of
              None \<Rightarrow> Inl (-2)
            | Some r \<Rightarrow> level_loop (if n = ''NONE'' then SDFLOG_LEVEL_NONE else lev) r)"
  by pat_completeness auto
termination
proof (relation "measure (\<lambda>(lev, level). length level)", goal_cases)
  case (2 lev level p n v l r)
  then have "find_level level_names level = Some (n, v)" by simp
  note f = find_level_length [OF this] level_names_length [OF find_level_member [OF this]]
  have "length r \<le> length level - length n" using 2 by (auto dest: delimiter_length)
  with f have "length r < length level" by linarith
  then show ?case by simp
qed simp

declare level_loop.simps [simp del]

definition SDF_set_level_string :: "bytes \<Rightarrow> log_state \<Rightarrow> int \<times> log_state" where
  "SDF_set_level_string level s =
     (let level = dropWhile (\<lambda>c. c \<in> set (str '' '') \<union> {0x09, 0x0a, 0x0d}) level in
      if level = [] then (-1, s)
      else
        case level_loop SDFLOG_LEVEL_NONE level of
          Inl r \<Rightarrow> (r, s)
        | Inr lev \<Rightarrow> (0, s\<lparr>log_level := lev\<rparr>))"

definition level_to_string :: "int \<Rightarrow> bytes" where
  "level_to_string level =
     str (if level = SDFLOG_LEVEL_FATAL then ''FATAL''
      else if level = SDFLOG_LEVEL_ERROR then ''ERROR''
      else if level = SDFLOG_LEVEL_WARN then ''WARNING''
      else if level = SDFLOG_LEVEL_INFO then ''INFO''
      else if level = SDFLOG_LEVEL_DEBUG then ''DEBUG''
      else ''UNKNOWN'')"

section \<open>Log files and records\<close>

record tm =
  tm_year :: nat
  tm_mon :: nat
  tm_mday :: nat
  tm_hour :: nat
  tm_min :: nat
  tm_sec :: nat

text \<open>\<open>%0wd\<close>.\<close>

definition dec_pad :: "nat \<Rightarrow> nat \<Rightarrow> bytes" where
  "dec_pad w n = replicate (w - length (dec_nat n)) (of_char (CHR ''0'')) @ dec_nat n"

text \<open>The start of the interval in which a time lies, as hour and minute.\<close>

definition log_slot :: "int \<Rightarrow> tm \<Rightarrow> nat \<times> nat" where
  "log_slot interval tm =
     (let tmp = tm_hour tm * 60 + tm_min tm;
          tmp = tmp - tmp mod nat interval
      in (tmp div 60, tmp mod 60))"

definition date_text :: "tm \<Rightarrow> bytes" where
  "date_text tm = dec_pad 4 (1900 + tm_year tm) @ dec_pad 2 (tm_mon tm + 1) @ dec_pad 2 (tm_mday tm)"

definition get_file_name :: "log_state \<Rightarrow> tm \<Rightarrow> bytes" where
  "get_file_name s tm =
     (if log_split_interval s > 0 then
        let (hour, min) = log_slot (log_split_interval s) tm in
        log_dir s @ str ''/'' @ log_name s @ str ''_'' @ date_text tm @ str ''_'' @ dec_pad 2 hour @ dec_pad 2 min @ str ''.log''
      else log_dir s @ str ''/'' @ log_name s)"

definition get_file_message_name :: "log_state \<Rightarrow> tm \<Rightarrow> bytes" where
  "get_file_message_name s tm =
     log_dir s @ str ''/'' @ log_name s @ str ''_'' @ date_text tm @ str ''_message.log''"

text \<open>
  The file that is opened and what is written to it (when it opens) and to the standard error. The
  buffer has 2048 bytes more than the longest message.
\<close>

definition SDF_log_write_string ::
  "log_state \<Rightarrow> int \<Rightarrow> bytes \<Rightarrow> bytes \<Rightarrow> int \<Rightarrow> bytes \<Rightarrow> tm \<Rightarrow> nat \<Rightarrow> int \<Rightarrow> bool \<Rightarrow> (bytes \<times> bytes \<times> bytes) option" where
  "SDF_log_write_string s level file func line msg tm micro pid opens =
     (let name = get_file_name s tm;
          msg = (if length msg > SDFLOG_MSG_SIZE then take SDFLOG_MSG_SIZE msg else msg);
          buff = level_to_string level @ str ''|'' @ dec_pad 2 (tm_hour tm) @ str '':'' @ dec_pad 2 (tm_min tm) @ str '':'' @
            dec_pad 2 (tm_sec tm) @ str ''.'' @ dec_pad 6 micro @ str ''|'' @ dec_int pid @ str ''|'' @ file @ str ''|'' @
            func @ str ''|'' @ dec_int line @ str ''|'' @ msg @ [0x0a]
      in
      if length buff \<ge> 2 * 1024 + SDFLOG_MSG_SIZE then None
      else Some (name, if opens then buff else [], buff))"

text \<open>\<open>_SDFLOG_\<close>: a record is written when its level is set; the message is printed to a buffer of its own.\<close>

definition SDFLOG ::
  "log_state \<Rightarrow> int \<Rightarrow> bytes \<Rightarrow> bytes \<Rightarrow> int \<Rightarrow> bytes \<Rightarrow> tm \<Rightarrow> nat \<Rightarrow> int \<Rightarrow> bool \<Rightarrow> (bytes \<times> bytes \<times> bytes) option option" where
  "SDFLOG s lev file func line msg tm micro pid opens =
     (if log_level s AND lev \<noteq> 0 then
        if length msg \<ge> SDFLOG_MSG_SIZE then None
        else map_option Some (SDF_log_write_string s lev file func line msg tm micro pid opens)
      else Some None)"


section \<open>What the settings do\<close>

text \<open>The arrays are not overrun, and a name or directory that fits is kept.\<close>

lemma log_init_fits:
  "length (SdfLog.log_name (SDF_log_init name dir i s)) \<le> 254" "length (log_dir (SDF_log_init name dir i s)) \<le> 1022"
  "length name \<le> 254 \<Longrightarrow> SdfLog.log_name (SDF_log_init name dir i s) = name"
  "length dir \<le> 1022 \<Longrightarrow> log_dir (SDF_log_init name (dir @ str ''/'') i s) = dir"
  by (auto simp: SDF_log_init_def Let_def)

lemma memXcmp_upper:
  "map TOU M2 = M2 \<Longrightarrow> memXcmp m1 M2 \<longleftrightarrow> take (length M2) (map TOU m1) = M2"
  by (induction m1 M2 rule: memXcmp.induct) auto

lemma find_level_text:
  assumes "(n, v) \<in> set level_names" "n \<noteq> ''WARNNING''" "map TOU t = str n"
  shows "find_level level_names (t @ r) = Some (n, v)"
proof -
  have u: "memXcmp (t @ r) (str m) \<longleftrightarrow> take (length m) (str n @ map TOU r) = str m" if "(m, w) \<in> set level_names" for m w
  proof -
    have "map TOU (str m) = str m" using that by (auto simp: level_names_def TOU_def)
    then show ?thesis using assms(3) by (simp add: memXcmp_upper)
  qed
  have m: "(''NONE'', SDFLOG_LEVEL_NONE) \<in> set level_names" "(''FATAL'', SDFLOG_LEVEL_FATAL) \<in> set level_names"
    "(''ERROR'', SDFLOG_LEVEL_ERROR) \<in> set level_names" "(''WARN'', SDFLOG_LEVEL_WARN) \<in> set level_names"
    "(''WARNNING'', SDFLOG_LEVEL_WARN) \<in> set level_names" "(''INFO'', SDFLOG_LEVEL_INFO) \<in> set level_names"
    "(''DEBUG'', SDFLOG_LEVEL_DEBUG) \<in> set level_names" "(''ALL'', SDFLOG_LEVEL_ALL) \<in> set level_names"
    by (simp_all add: level_names_def)
  note us = u [OF m(1)] u [OF m(2)] u [OF m(3)] u [OF m(4)] u [OF m(5)] u [OF m(6)] u [OF m(7)] u [OF m(8)]
  have "find_level [(''NONE'', SDFLOG_LEVEL_NONE), (''FATAL'', SDFLOG_LEVEL_FATAL), (''ERROR'', SDFLOG_LEVEL_ERROR),
      (''WARN'', SDFLOG_LEVEL_WARN), (''WARNNING'', SDFLOG_LEVEL_WARN), (''INFO'', SDFLOG_LEVEL_INFO),
      (''DEBUG'', SDFLOG_LEVEL_DEBUG), (''ALL'', SDFLOG_LEVEL_ALL)] (t @ r) = Some (n, v)"
  proof -
    consider "(n, v) = (''NONE'', SDFLOG_LEVEL_NONE)" | "(n, v) = (''FATAL'', SDFLOG_LEVEL_FATAL)"
      | "(n, v) = (''ERROR'', SDFLOG_LEVEL_ERROR)" | "(n, v) = (''WARN'', SDFLOG_LEVEL_WARN)"
      | "(n, v) = (''INFO'', SDFLOG_LEVEL_INFO)" | "(n, v) = (''DEBUG'', SDFLOG_LEVEL_DEBUG)"
      | "(n, v) = (''ALL'', SDFLOG_LEVEL_ALL)" | "(n, v) = (''WARNNING'', SDFLOG_LEVEL_WARN)"
      using assms(1) unfolding level_names_def list.set insert_iff empty_iff simp_thms by (elim disjE)
    then show ?thesis unfolding find_level.simps us using assms(2) by cases simp_all
  qed
  then show ?thesis by (simp add: level_names_def)
qed

definition add_level :: "string \<times> int \<Rightarrow> int \<Rightarrow> int" where
  "add_level p lev = (if fst p = ''NONE'' then SDFLOG_LEVEL_NONE else lev OR snd p)"

text \<open>A word that names a level of the list, in any case.\<close>

definition level_word :: "bytes \<times> string \<times> int \<Rightarrow> bool" where
  "level_word = (\<lambda>(t, n, v). (n, v) \<in> set level_names \<and> map TOU t = str n)"

text \<open>Among the words is the spelling \<open>WARNNING\<close>, whose beginning the code takes for \<open>WARN\<close>.\<close>

definition misspelt :: "(bytes \<times> string \<times> int) list \<Rightarrow> bool" where
  "misspelt ws \<longleftrightarrow> (\<exists>w \<in> set ws. fst (snd w) = ''WARNNING'')"

definition delimited :: "(bytes \<times> string \<times> int) list \<Rightarrow> bytes \<Rightarrow> bytes" where
  "delimited ws ds = concat (map2 (\<lambda>w d. fst w @ [d]) ws ds)"

lemma level_loop_warnning:
  assumes "map TOU t = str ''WARNNING''"
  shows "level_loop lev (t @ r) = Inl (-2)"
proof -
  have f: "memXcmp (t @ r) (str m) \<longleftrightarrow> take (length m) (str ''WARNNING'' @ map TOU r) = str m" if "map TOU (str m) = str m" for m
    using assms that by (simp add: memXcmp_upper)
  have "find_level level_names (t @ r) = Some (''WARN'', SDFLOG_LEVEL_WARN)"
    by (simp add: level_names_def f [of "''NONE''", simplified] f [of "''FATAL''", simplified] f [of "''ERROR''", simplified]
        f [of "''WARN''", simplified] TOU_def)
  moreover have "drop (length ''WARN'') (map TOU t) = str ''NING''" using assms by simp
  then obtain c u where c: "drop (length ''WARN'') t = c # u" "TOU c = of_char (CHR ''N'')"
    by (cases "drop (length ''WARN'') t") (auto simp: drop_map)
  moreover have "length ''WARN'' \<le> length t" using arg_cong [OF assms, of length] by simp
  moreover have "c \<notin> set (str '' ,+|'')" using c(2) by (auto simp: TOU_def split: if_splits)
  moreover have "t \<noteq> []" using assms by auto
  ultimately show ?thesis by (subst level_loop.simps) (simp add: delimiter_def Let_def)
qed

lemma level_loop_word:
  assumes "(n, v) \<in> set level_names" "n \<noteq> ''WARNNING''" "map TOU t = str n" "d \<in> set (str '' ,+|'')"
  shows "level_loop lev (t @ d # r) = level_loop (add_level (n, v) lev) r"
  using find_level_text [OF assms(1-3)] arg_cong [OF assms(3), of length] assms(4)
  by (subst level_loop.simps) (auto simp: delimiter_def add_level_def Let_def)

lemma level_loop_words:
  "\<lbrakk>\<forall>w \<in> set ws. level_word w; length ds = length ws; set ds \<subseteq> set (str '' ,+|'')\<rbrakk> \<Longrightarrow>
     level_loop lev (delimited ws ds @ r) =
       (if misspelt ws then Inl (-2) else level_loop (fold add_level (map snd ws) lev) r)"
proof (induction ws arbitrary: lev ds)
  case Nil
  then show ?case by (simp add: delimited_def misspelt_def)
next
  case (Cons w ws)
  obtain t n v where w: "w = (t, n, v)" by (cases w)
  obtain d ds' where d: "ds = d # ds'" using Cons.prems(2) by (cases ds) auto
  have lw: "(n, v) \<in> set level_names" "map TOU t = str n" using Cons.prems(1) w by (simp_all add: level_word_def)
  have dl: "delimited (w # ws) ds @ r = t @ d # delimited ws ds' @ r" by (simp add: delimited_def w d)
  show ?case
  proof (cases "n = ''WARNNING''")
    case True
    with level_loop_warnning [of t] lw(2) show ?thesis unfolding dl by (simp add: misspelt_def w)
  next
    case False
    with level_loop_word [OF lw(1) _ lw(2), of d lev "delimited ws ds' @ r"] Cons.IH [of ds'] Cons.prems d
    show ?thesis unfolding dl by (simp add: misspelt_def w)
  qed
qed

text \<open>
  C29. Words that name levels of the list, in any case, separated by single blanks, commas, bars or
  plus signs after any white space, set the level to all of those that are named, from the last \<open>NONE\<close>
  on, unless one of them is \<open>WARNNING\<close>, a name of the list that the code never accepts: then the result is
  \<open>-2\<close> and the level stays what it was.
\<close>

lemma log_level_names:
  assumes "\<forall>w \<in> set (ws @ [w]). level_word w" "length ds = length ws" "set ds \<subseteq> set (str '' ,+|'')"
    "set sp \<subseteq> {0x20, 0x09, 0x0a, 0x0d}"
  shows "SDF_set_level_string (sp @ delimited ws ds @ fst w) s =
    (if misspelt (ws @ [w]) then (-2, s)
     else (0, s\<lparr>log_level := fold add_level (map snd (ws @ [w])) SDFLOG_LEVEL_NONE\<rparr>))"
proof -
  obtain t n v where w: "w = (t, n, v)" by (cases w)
  have lw: "(n, v) \<in> set level_names" "map TOU t = str n" using assms(1) w by (simp_all add: level_word_def)
  have ne: "level_word w' \<Longrightarrow> \<exists>c r. fst w' = c # r \<and> c \<notin> {0x20, 0x09, 0x0a, 0x0d}" for w'
    by (cases "fst w'") (auto simp: level_word_def level_names_def TOU_def split: if_splits)
  obtain c r where c: "delimited ws ds @ fst w = c # r" "c \<notin> {0x20, 0x09, 0x0a, 0x0d}"
  proof (cases ws)
    case Nil
    with ne [of w] assms(1) that show ?thesis by (auto simp: delimited_def)
  next
    case (Cons w' ws')
    then obtain d ds' where "ds = d # ds'" using assms(2) by (cases ds) auto
    with ne [of w'] assms(1) that Cons show ?thesis by (auto simp: delimited_def)
  qed
  have sp: "dropWhile (\<lambda>c. c \<in> set (str '' '') \<union> {0x09, 0x0a, 0x0d}) (sp @ c # r) = c # r"
    using assms(4) c(2) by (induction sp) auto
  have t: "level_loop lev t = (if n = ''WARNNING'' then Inl (-2) else Inr (add_level (n, v) lev))" for lev
  proof (cases "n = ''WARNNING''")
    case True
    with level_loop_warnning [of t lev "[]"] lw(2) show ?thesis by simp
  next
    case False
    with find_level_text [OF lw(1) _ lw(2), of "[]"] arg_cong [OF lw(2), of length] level_names_length [OF lw(1)]
    show ?thesis by (subst level_loop.simps) (auto simp: delimiter_def add_level_def Let_def level_loop.simps)
  qed
  have "level_loop SDFLOG_LEVEL_NONE (c # r) = (if misspelt (ws @ [w]) then Inl (-2)
      else Inr (fold add_level (map snd (ws @ [w])) SDFLOG_LEVEL_NONE))"
    using level_loop_words [of ws ds SDFLOG_LEVEL_NONE t] assms(1-3) t w c(1) by (simp add: misspelt_def)
  then show ?thesis by (simp only: SDF_set_level_string_def Let_def c(1) sp) simp
qed

lemma log_level_names_witness:
  "SDF_set_level_string (str '' '' @ delimited [(str ''error'', ''ERROR'', SDFLOG_LEVEL_ERROR)] (str '','') @
      fst (str ''Info'', ''INFO'', SDFLOG_LEVEL_INFO)) log_start = (0, log_start\<lparr>log_level := 10\<rparr>)"
  by (subst log_level_names) (simp_all add: level_word_def misspelt_def level_names_def TOU_def add_level_def)

text \<open>The spelling that the code gives for warnings is never reached; a blank behind a comma is an error.\<close>

lemma warnning_refused: "SDF_set_level_string (str ''WARNNING'') s = (-2, s)"
  by (simp add: SDF_set_level_string_def level_loop.simps level_names_def delimiter_def TOU_def)

lemma blank_after_comma: "SDF_set_level_string (str ''ERROR, WARN'') s = (-3, s)"
  by (simp add: SDF_set_level_string_def level_loop.simps level_names_def delimiter_def TOU_def)

text \<open>A log file starts with its interval, which is counted from midnight.\<close>

lemma log_slot_bounds:
  assumes "log_slot interval tm = (h, m)" "0 < interval"
  shows "m < 60" "h * 60 + m \<le> tm_hour tm * 60 + tm_min tm" "tm_hour tm * 60 + tm_min tm < h * 60 + m + nat interval"
    "(h * 60 + m) mod nat interval = 0"
proof -
  let ?t = "tm_hour tm * 60 + tm_min tm"
  have "h * 60 + m = ?t - ?t mod nat interval" "m < 60" using assms(1) by (auto simp: log_slot_def Let_def)
  moreover have "?t mod nat interval < nat interval" "?t mod nat interval \<le> ?t" using assms(2) by simp_all
  ultimately show "m < 60" "h * 60 + m \<le> ?t" "?t < h * 60 + m + nat interval" by linarith+
  show "(h * 60 + m) mod nat interval = 0" using \<open>h * 60 + m = _\<close> by (simp add: minus_mod_eq_mult_div)
qed

end
