(* ===== verification/SdfTrace.thy ===== *)
theory SdfTrace
  imports SdfLog
begin

text \<open>
  The message trace of libs/sdf/sdftrace.c: numbers that are traced, and the sessions of the messages
  that have named one of them. The two lists are arrays of 256 bytes each; a comparison with an array
  that holds no NUL leaves it and is \<open>None\<close>.
\<close>

section \<open>Numbers and sessions\<close>

abbreviation (input) SDFTRACE_NUMBER_SIZE :: nat where "SDFTRACE_NUMBER_SIZE \<equiv> 256"
abbreviation (input) SDFTRACE_SESSION_SIZE :: nat where "SDFTRACE_SESSION_SIZE \<equiv> 256"
abbreviation (input) SDFTRACE_MAX_SESSION_LIST :: nat where "SDFTRACE_MAX_SESSION_LIST \<equiv> 32"
abbreviation (input) SDFTRACE_MAX_NUMBER_LIST :: nat where "SDFTRACE_MAX_NUMBER_LIST \<equiv> 10"
abbreviation (input) SDFTRACE_RET_ERR_OPTION :: int where "SDFTRACE_RET_ERR_OPTION \<equiv> 0"
abbreviation (input) SDFTRACE_RET_SUCCESS :: int where "SDFTRACE_RET_SUCCESS \<equiv> 0"

datatype SDFTRACE_OPTION =
  SDFTRACE_OPTION_NONE | SDFTRACE_OPTION_SET | SDFTRACE_OPTION_REMOVE | SDFTRACE_OPTION_RESET

record MY_TRACE =
  num_size :: int
  session_index :: nat
  number_list :: "bytes list"
  session_list :: "bytes list"

definition trace_zero :: MY_TRACE where
  "trace_zero =
     \<lparr>num_size = 0, session_index = 0,
      number_list = replicate SDFTRACE_MAX_NUMBER_LIST (replicate SDFTRACE_NUMBER_SIZE 0),
      session_list = replicate SDFTRACE_MAX_SESSION_LIST (replicate SDFTRACE_SESSION_SIZE 0)\<rparr>"

text \<open>\<open>SDF_trace_init\<close>: the lists, the name and the directory.\<close>

definition SDF_trace_init :: "bytes \<Rightarrow> bytes \<Rightarrow> MY_TRACE \<times> bytes \<times> bytes" where
  "SDF_trace_init name dir =
     (let n = length name;
          n = (if n \<ge> 255 then 254 else n);
          m = length dir;
          m = (if m > 0 \<and> dir ! (m - 1) = of_char (CHR ''/'') then m - 1 else m);
          m = (if m \<ge> 1023 then 1022 else m)
      in (trace_zero, take n name, take m dir))"

definition strncpy :: "bytes \<Rightarrow> nat \<Rightarrow> bytes" where
  "strncpy s n = take n s @ replicate (n - length s) 0"

definition free_number :: "bytes list \<Rightarrow> nat" where
  "free_number ns = length (takeWhile (\<lambda>b. hd b \<noteq> 0) ns)"

definition SDF_trace_set_option :: "SDFTRACE_OPTION \<Rightarrow> bytes \<Rightarrow> MY_TRACE \<Rightarrow> int \<times> MY_TRACE" where
  "SDF_trace_set_option option number t =
     (case option of
        SDFTRACE_OPTION_SET \<Rightarrow>
          let i = free_number (number_list t) in
          if i < SDFTRACE_MAX_NUMBER_LIST then
            (SDFTRACE_RET_SUCCESS,
             t\<lparr>number_list := (number_list t)[i := strncpy number SDFTRACE_NUMBER_SIZE], num_size := num_size t + 1\<rparr>)
          else (SDFTRACE_RET_ERR_OPTION, t)
      | SDFTRACE_OPTION_REMOVE \<Rightarrow> (SDFTRACE_RET_ERR_OPTION, t)
      | SDFTRACE_OPTION_RESET \<Rightarrow> (SDFTRACE_RET_SUCCESS, trace_zero)
      | SDFTRACE_OPTION_NONE \<Rightarrow> (SDFTRACE_RET_ERR_OPTION, t))"

definition cstring :: "bytes \<Rightarrow> bytes option" where
  "cstring b = (if 0 \<in> set b then Some (cstr b) else None)"

text \<open>The first entry in use that occurs in the message.\<close>

fun find_entry :: "bytes list \<Rightarrow> bytes \<Rightarrow> bytes option option" where
  "find_entry [] msg = Some None"
| "find_entry (b # bs) msg =
     (if hd b \<noteq> 0 then do {
        s \<leftarrow> cstring b;
        if strstr msg s \<noteq> None then Some (Some s) else find_entry bs msg
      }
      else find_entry bs msg)"

text \<open>The entry that \<open>strncmp\<close> takes for the identifier.\<close>

fun find_session :: "bytes list \<Rightarrow> bytes \<Rightarrow> nat \<Rightarrow> nat option" where
  "find_session [] sid i = Some i"
| "find_session (b # bs) sid i =
     (if length sid > length b \<and> take (length b) sid = b then None
      else if take (length sid) b = sid then Some i
      else find_session bs sid (i + 1))"

text \<open>The identifier in the message; without a closing quote its length is not defined.\<close>

definition session_of :: "bytes \<Rightarrow> bytes option option" where
  "session_of msg =
     (case strstr msg (str '' session='' @ [0x22]) of
        None \<Rightarrow> Some None
      | Some i \<Rightarrow>
          let ptr = drop (i + 10) msg in
          if 0x22 \<in> set ptr then Some (Some (takeWhile (\<lambda>c. c \<noteq> 0x22) ptr)) else None)"

definition note_session :: "bytes \<Rightarrow> MY_TRACE \<Rightarrow> (MY_TRACE \<times> bytes) option" where
  "note_session sid t = do {
     i \<leftarrow> find_session (session_list t) sid 0;
     if i < length (session_list t) then Some (t, [])
     else if length sid > SDFTRACE_SESSION_SIZE then None
     else do {
       let k = session_index t;
       let b = sid @ drop (length sid) (session_list t ! k);
       s \<leftarrow> cstring b;
       let k' = (if k + 1 \<ge> SDFTRACE_MAX_SESSION_LIST then 0 else k + 1);
       Some (t\<lparr>session_list := (session_list t)[k := b], session_index := k'\<rparr>, s)
     }
   }"

section \<open>Messages\<close>

text \<open>Whether a message is written, and the number and the session that are shown with it.\<close>

definition trace_match :: "bytes \<Rightarrow> MY_TRACE \<Rightarrow> (MY_TRACE \<times> bool \<times> bytes \<times> bytes) option" where
  "trace_match msg t = do {
     number \<leftarrow> find_entry (number_list t) msg;
     case number of
       Some n \<Rightarrow> do {
         sid \<leftarrow> session_of msg;
         case sid of
           None \<Rightarrow> Some (t, True, n, [])
         | Some sid \<Rightarrow> do {
             (t, s) \<leftarrow> note_session sid t;
             Some (t, True, n, s)
           }
       }
     | None \<Rightarrow> do {
         s \<leftarrow> find_entry (session_list t) msg;
         Some (t, s \<noteq> None, [], case s of None \<Rightarrow> [] | Some s \<Rightarrow> s)
       }
   }"

definition trace_text :: "bool \<Rightarrow> tm \<Rightarrow> nat \<Rightarrow> bytes \<Rightarrow> bytes \<Rightarrow> bytes \<Rightarrow> bytes" where
  "trace_text input tm usec number session msg =
     (let bar = replicate 56 (of_char (if input then CHR ''<'' else CHR ''>'')) @ [0x0a]
      in bar @ str (if input then '' INPUT MESSAGE'' else '' OUTPUT MESSAGE'') @ [0x0a] @
         str ''        : Time '' @ dec_pad 2 (tm_mday tm) @ str ''.'' @ dec_pad 2 (tm_mon tm + 1) @ str ''.'' @
         dec_pad 4 (1900 + tm_year tm) @ str '' '' @ dec_pad 2 (tm_hour tm) @ str '':'' @ dec_pad 2 (tm_min tm) @ str '':'' @
         dec_pad 2 (tm_sec tm) @ str ''.'' @ dec_pad 6 usec @ [0x0a] @
         str ''        : Number '' @ number @ [0x0a] @
         str ''        : Session '' @ session @ [0x0a] @
         str ''        : Size '' @ dec_nat (length msg) @ [0x0a] @ bar @
         str ''['' @ msg @ str '']'' @ [0x0a, 0x0a])"

text \<open>
  \<open>SDF_trace_message\<close> for a message that is not \<open>NULL\<close>: the lists, and what is written to the trace file
  if anything is. The text is printed to a buffer with room for 1024 bytes and the message.
\<close>

definition SDF_trace_message ::
  "bool \<Rightarrow> bytes \<Rightarrow> tm \<Rightarrow> nat \<Rightarrow> bool \<Rightarrow> MY_TRACE \<Rightarrow> (MY_TRACE \<times> bytes option) option" where
  "SDF_trace_message input msg tm usec memory t =
     (if num_size t = 0 then Some (t, None)
      else do {
        (t, logging, number, session) \<leftarrow> trace_match msg t;
        let buff = trace_text input tm usec number session msg;
        if \<not> memory \<or> length buff \<ge> length msg + 1024 then None
        else Some (t, if logging then Some buff else None)
      })"

text \<open>The trace file of a day.\<close>

definition sf_trace_write_string :: "bytes \<Rightarrow> bytes \<Rightarrow> tm \<Rightarrow> bytes" where
  "sf_trace_write_string dir name tm =
     take 1023 (dir @ str ''/'' @ name @ str ''_'' @ date_text tm @ str ''.trace'')"


section \<open>What is traced\<close>

definition trace_ok :: "MY_TRACE \<Rightarrow> bool" where
  "trace_ok t \<longleftrightarrow>
     length (number_list t) = SDFTRACE_MAX_NUMBER_LIST \<and> length (session_list t) = SDFTRACE_MAX_SESSION_LIST \<and>
     session_index t < SDFTRACE_MAX_SESSION_LIST \<and>
     (\<forall>b \<in> set (number_list t) \<union> set (session_list t). length b = 256 \<and> last b = 0)"

lemma entry_ok: "length b = 256 \<Longrightarrow> last b = 0 \<Longrightarrow> 0 \<in> set b"
  by (metis last_in_set length_greater_0_conv zero_less_numeral)

lemma find_entry_ok:
  "\<forall>b \<in> set bs. length b = 256 \<and> last b = 0 \<Longrightarrow>
     \<exists>r. find_entry bs msg = Some r \<and> (r \<noteq> None \<longleftrightarrow> (\<exists>b \<in> set bs. hd b \<noteq> 0 \<and> strstr msg (cstr b) \<noteq> None))"
  by (induction bs) (auto simp: cstring_def entry_ok)

lemma find_session_ok:
  "\<lbrakk>\<forall>b \<in> set bs. length b = 256 \<and> last b = 0; length sid \<le> 255\<rbrakk> \<Longrightarrow>
     \<exists>r. find_session bs sid i = Some r \<and> r \<le> i + length bs \<and>
       (if r < i + length bs then i \<le> r \<and> take (length sid) (bs ! (r - i)) = sid
        else \<forall>b \<in> set bs. take (length sid) b \<noteq> sid)"
proof (induction bs arbitrary: i)
  case (Cons b bs)
  show ?case
  proof (cases "take (length sid) b = sid")
    case True
    with Cons.prems show ?thesis by auto
  next
    case False
    obtain r where r: "find_session bs sid (i + 1) = Some r" "r \<le> i + 1 + length bs"
      "if r < i + 1 + length bs then i + 1 \<le> r \<and> take (length sid) (bs ! (r - (i + 1))) = sid
       else \<forall>b \<in> set bs. take (length sid) b \<noteq> sid"
      using Cons.IH [of "i + 1"] Cons.prems by auto
    show ?thesis
    proof (cases "r < i + 1 + length bs")
      case True
      then have "r - i = Suc (r - (i + 1))" using r(3) by auto
      with True r False Cons.prems show ?thesis by auto
    next
      case False
      with r \<open>take (length sid) b \<noteq> sid\<close> Cons.prems show ?thesis by auto
    qed
  qed
qed simp

lemma update_ok:
  "\<lbrakk>\<forall>b \<in> set bs. length b = 256 \<and> last b = 0; length c = 256 \<and> last c = 0\<rbrakk> \<Longrightarrow>
     \<forall>b \<in> set (bs[k := c]). length b = 256 \<and> last b = 0"
  using set_update_subset_insert [of bs k c] by auto

lemma trace_zero_ok: "trace_ok trace_zero"
proof -
  have "length (replicate 256 (0 :: byte)) = 256 \<and> last (replicate 256 (0 :: byte)) = 0"
    by (simp)
  then show ?thesis unfolding trace_zero_def trace_ok_def by (auto simp: in_set_replicate)
qed

lemma options_keep_ok:
  assumes "trace_ok t" "length number < 256"
  shows "trace_ok (snd (SDF_trace_set_option option number t))"
proof -
  have "length (strncpy number 256) = 256 \<and> last (strncpy number 256) = 0"
    using assms(2) by (auto simp: strncpy_def)
  then have n: "\<forall>b \<in> set ((number_list t)[i := strncpy number 256]). length b = 256 \<and> last b = 0" for i
    using assms(1) by (intro update_ok) (simp_all add: trace_ok_def)
  show ?thesis
  proof (cases option)
    case SDFTRACE_OPTION_SET
    then show ?thesis using assms(1) n [of "free_number (number_list t)"]
      by (simp add: SDF_trace_set_option_def Let_def trace_ok_def ball_Un)
  next
    case SDFTRACE_OPTION_RESET
    then show ?thesis using trace_zero_ok by (simp add: SDF_trace_set_option_def)
  qed (use assms(1) in \<open>simp_all add: SDF_trace_set_option_def\<close>)
qed

text \<open>The state after messages.\<close>

fun trace_run :: "bytes list \<Rightarrow> MY_TRACE \<Rightarrow> MY_TRACE option" where
  "trace_run [] t = Some t"
| "trace_run (m # ms) t = do { (t, _, _, _) \<leftarrow> trace_match m t; trace_run ms t }"

definition has_number :: "bytes list \<Rightarrow> bytes \<Rightarrow> bool" where
  "has_number ns m \<longleftrightarrow> (\<exists>b \<in> set ns. hd b \<noteq> 0 \<and> strstr m (cstr b) \<noteq> None)"

text \<open>The sessions that messages with a traced number name.\<close>

definition named_by :: "bytes list \<Rightarrow> bytes \<Rightarrow> bytes list" where
  "named_by ns m = (if has_number ns m then case session_of m of Some (Some s) \<Rightarrow> [s] | _ \<Rightarrow> [] else [])"

definition named :: "bytes list \<Rightarrow> bytes list \<Rightarrow> bytes list" where
  "named ns ms = concat (map (named_by ns) ms)"

text \<open>As many as the list has places, each within its place, and none the beginning of another.\<close>

definition sessions_ok :: "bytes set \<Rightarrow> bool" where
  "sessions_ok S \<longleftrightarrow> finite S \<and> card S \<le> SDFTRACE_MAX_SESSION_LIST \<and> (\<forall>s \<in> S. s \<noteq> [] \<and> 0 \<notin> set s \<and> length s \<le> 255) \<and>
     (\<forall>a \<in> S. \<forall>b \<in> S. take (length a) b = a \<longrightarrow> a = b)"

definition entry :: "bytes \<Rightarrow> bytes" where
  "entry s = s @ replicate (256 - length s) 0"

text \<open>The list holds the sessions \<open>ids\<close> in the order in which they were first named.\<close>

definition listed :: "bytes list \<Rightarrow> MY_TRACE \<Rightarrow> bool" where
  "listed ids t \<longleftrightarrow> distinct ids \<and> length ids \<le> 32 \<and> session_index t = length ids mod 32 \<and>
     session_list t = map entry ids @ replicate (32 - length ids) (replicate 256 0)"

lemma entry_simps:
  assumes "s \<noteq> []" "0 \<notin> set s" "length s \<le> 255"
  shows "length (entry s) = 256 \<and> last (entry s) = 0" "cstr (entry s) = s" "hd (entry s) \<noteq> 0" "0 \<in> set (entry s)"
  using assms by (cases s; auto simp: entry_def cstr_def takeWhile_append)+

lemma entry_prefix:
  assumes "0 \<notin> set a" "take (length a) (entry b) = a"
  shows "take (length a) b = a"
proof (rule ccontr)
  assume n: "take (length a) b \<noteq> a"
  have l: "length b < length a" using n assms(2) by (cases "length b < length a") (simp_all add: entry_def)
  have "length b < 256" using n assms(2) by (cases "length b < 256") (simp_all add: entry_def)
  then have "entry b ! length b = 0" by (simp add: entry_def nth_append)
  then have "a ! length b = 0" using l assms(2) by (metis nth_take)
  with l assms(1) show False by (metis nth_mem)
qed

lemma entries_ok:
  assumes "listed ids t" "\<forall>s \<in> set ids. s \<noteq> [] \<and> 0 \<notin> set s \<and> length s \<le> 255"
  shows "\<forall>b \<in> set (session_list t). length b = 256 \<and> last b = 0" "length (session_list t) = 32"
proof -
  have "length (replicate 256 (0 :: byte)) = 256 \<and> last (replicate 256 (0 :: byte)) = 0" by simp
  with assms entry_simps(1) show "\<forall>b \<in> set (session_list t). length b = 256 \<and> last b = 0"
    by (auto simp: listed_def in_set_replicate simp del: length_replicate last_replicate)
  show "length (session_list t) = 32" using assms(1) by (simp add: listed_def)
qed

lemma listed_entry:
  assumes "listed ids t" "\<forall>s \<in> set ids. s \<noteq> [] \<and> 0 \<notin> set s \<and> length s \<le> 255"
  shows "\<exists>r. find_entry (session_list t) m = Some r \<and> (r \<noteq> None \<longleftrightarrow> (\<exists>s \<in> set ids. strstr m s \<noteq> None))"
proof -
  have "(\<exists>b \<in> set (session_list t). hd b \<noteq> 0 \<and> strstr m (cstr b) \<noteq> None) \<longleftrightarrow> (\<exists>s \<in> set ids. strstr m s \<noteq> None)"
  proof
    assume "\<exists>s \<in> set ids. strstr m s \<noteq> None"
    then obtain s where s: "s \<in> set ids" "strstr m s \<noteq> None" by blast
    then have "entry s \<in> set (session_list t)" using assms(1) by (simp add: listed_def)
    with s assms(2) entry_simps(2,3) [of s] show "\<exists>b \<in> set (session_list t). hd b \<noteq> 0 \<and> strstr m (cstr b) \<noteq> None"
      by (intro bexI [of _ "entry s"]) simp_all
  qed (use assms entry_simps(2) in \<open>auto simp: listed_def\<close>)
  with find_entry_ok [OF entries_ok(1) [OF assms], of m] show ?thesis by simp
qed

text \<open>A session that a message names is put into the first free place, or found in its own.\<close>

lemma note_session_listed:
  assumes l: "listed ids t" and ok: "sessions_ok (insert sid (set ids))"
  shows "\<exists>t' s. note_session sid t = Some (t', s) \<and> number_list t' = number_list t \<and>
    listed (if sid \<in> set ids then ids else ids @ [sid]) t'"
proof -
  have ids: "\<forall>s \<in> set ids. s \<noteq> [] \<and> 0 \<notin> set s \<and> length s \<le> 255" and sid: "sid \<noteq> []" "0 \<notin> set sid" "length sid \<le> 255"
    and pre: "\<And>b. b \<in> set ids \<Longrightarrow> take (length sid) b = sid \<Longrightarrow> sid = b"
    using ok unfolding sessions_ok_def by auto
  have len: "length (session_list t) = 32" by (rule entries_ok(2) [OF l ids])
  obtain r where r: "find_session (session_list t) sid 0 = Some r" "r \<le> 32"
      "if r < 32 then take (length sid) (session_list t ! r) = sid
       else \<forall>b \<in> set (session_list t). take (length sid) b \<noteq> sid"
    using find_session_ok [OF entries_ok(1) [OF l ids] sid(3), of 0] len by (metis add_0 diff_zero)
  have z: "take (length sid) (replicate 256 0) \<noteq> sid"
    using sid(1,2) by (cases sid) auto
  show ?thesis
  proof (cases "r < 32")
    case True
    then have "session_list t ! r \<in> set (session_list t)" using len by simp
    then have "session_list t ! r \<in> entry ` set ids"
      using l True r(3) z by (auto simp: listed_def)
    then obtain b where "b \<in> set ids" "take (length sid) (entry b) = sid" using True r(3) by auto
    with entry_prefix [OF sid(2)] pre have "sid \<in> set ids" by blast
    with True r(1) len l show ?thesis by (simp add: note_session_def)
  next
    case False
    have new: "sid \<notin> set ids"
    proof
      assume s: "sid \<in> set ids"
      then have "entry sid \<in> set (session_list t)" using l by (simp add: listed_def)
      moreover have "take (length sid) (entry sid) = sid" by (simp add: entry_def)
      ultimately show False using False r(3) by auto
    qed
    have "card (insert sid (set ids)) \<le> 32" using ok by (simp add: sessions_ok_def)
    with new l have k: "length ids < 32" by (simp add: listed_def distinct_card)
    then have i: "session_index t = length ids" using l by (simp add: listed_def)
    have free: "session_list t ! length ids = replicate 256 0" using l k by (simp add: listed_def nth_append)
    define t' where "t' = t\<lparr>session_list := (session_list t)[length ids := entry sid],
      session_index := if length ids + 1 \<ge> 32 then 0 else length ids + 1\<rparr>"
    have e: "sid @ drop (length sid) (session_list t ! length ids) = entry sid" unfolding free by (simp add: entry_def)
    have c: "cstring (entry sid) = Some sid" using entry_simps(2,4) [OF sid] by (simp only: cstring_def if_True)
    have "r = 32" "\<not> 256 < length sid" using False r(2) sid(3) by simp_all
    then have n: "note_session sid t = Some (t', sid)"
      using r(1) len e c by (simp add: note_session_def Let_def t'_def i)
    have up: "(map entry ids @ replicate (32 - length ids) (replicate 256 0))[length ids := entry sid] =
        map entry (ids @ [sid]) @ replicate (32 - length (ids @ [sid])) (replicate 256 0)"
    proof -
      have "replicate (32 - length ids) (replicate 256 (0 :: byte)) =
          replicate 256 0 # replicate (32 - length (ids @ [sid])) (replicate 256 0)"
        using k by (simp add: Suc_diff_Suc flip: replicate_Suc)
      then show ?thesis by (simp add: list_update_append)
    qed
    have "length ids = 31 \<or> Suc (length ids) < 32" using k by auto
    then have "listed (ids @ [sid]) t'"
      using l new k up by (auto simp: listed_def t'_def)
    with n new show ?thesis by (simp add: t'_def)
  qed
qed

lemma trace_match_listed:
  assumes t: "listed ids t" "number_list t = ns" and ns: "\<forall>b \<in> set ns. length b = 256 \<and> last b = 0"
    and m: "has_number ns m \<longrightarrow> session_of m \<noteq> None" and ok: "sessions_ok (set ids \<union> set (named_by ns m))"
  shows "\<exists>t' n s ids'. trace_match m t = Some (t', has_number ns m \<or> (\<exists>sid \<in> set ids. strstr m sid \<noteq> None), n, s) \<and>
    listed ids' t' \<and> number_list t' = ns \<and> set ids' = set ids \<union> set (named_by ns m)"
proof -
  obtain r where r: "find_entry ns m = Some r" "r \<noteq> None \<longleftrightarrow> has_number ns m"
    using find_entry_ok [OF ns, of m] by (auto simp: has_number_def)
  have ids: "\<forall>s \<in> set ids. s \<noteq> [] \<and> 0 \<notin> set s \<and> length s \<le> 255" using ok by (auto simp: sessions_ok_def)
  show ?thesis
  proof (cases r)
    case None
    obtain q where q: "find_entry (session_list t) m = Some q" "q \<noteq> None \<longleftrightarrow> (\<exists>s \<in> set ids. strstr m s \<noteq> None)"
      using listed_entry [OF t(1) ids, of m] by blast
    have "trace_match m t = Some (t, q \<noteq> None, [], case q of None \<Rightarrow> [] | Some s \<Rightarrow> s)" "\<not> has_number ns m"
      using None r t(2) q(1) by (simp_all add: trace_match_def)
    with q(2) t show ?thesis by (intro exI [of _ t] exI exI [of _ ids] conjI) (simp_all add: named_by_def)
  next
    case (Some n)
    with r m obtain q where q: "has_number ns m" "session_of m = Some q" by auto
    show ?thesis
    proof (cases q)
      case None
      with Some q r t show ?thesis by (auto simp: trace_match_def named_by_def)
    next
      case sid: (Some sid)
      with ok q have "sessions_ok (insert sid (set ids))" by (simp add: named_by_def)
      from note_session_listed [OF t(1) this] obtain t' s where "note_session sid t = Some (t', s)"
        "number_list t' = ns" "listed (if sid \<in> set ids then ids else ids @ [sid]) t'"
        using t(2) by auto
      with Some q r t sid show ?thesis
        by (intro exI [of _ t'] exI [of _ n] exI [of _ s] exI [of _ "if sid \<in> set ids then ids else ids @ [sid]"])
          (auto simp: trace_match_def named_by_def)
    qed
  qed
qed

lemma sessions_ok_subset: "sessions_ok S \<Longrightarrow> T \<subseteq> S \<Longrightarrow> sessions_ok T"
  unfolding sessions_ok_def by (meson card_mono finite_subset le_trans subsetD)

lemma trace_run_listed:
  assumes "listed ids t" "number_list t = ns" "\<forall>b \<in> set ns. length b = 256 \<and> last b = 0"
    "\<forall>m \<in> set ms. has_number ns m \<longrightarrow> session_of m \<noteq> None" "sessions_ok (set ids \<union> set (named ns ms))"
  shows "\<exists>t' ids'. trace_run ms t = Some t' \<and> listed ids' t' \<and> number_list t' = ns \<and> set ids' = set ids \<union> set (named ns ms)"
  using assms
proof (induction ms arbitrary: ids t)
  case Nil
  then show ?case by (auto simp: named_def)
next
  case (Cons m ms)
  have "sessions_ok (set ids \<union> set (named_by ns m))"
    by (rule sessions_ok_subset [OF Cons.prems(5)]) (auto simp: named_def)
  from trace_match_listed [OF Cons.prems(1,2,3) _ this] Cons.prems(4) obtain t1 w n s ids1 where
    1: "trace_match m t = Some (t1, w, n, s)" "listed ids1 t1" "number_list t1 = ns" "set ids1 = set ids \<union> set (named_by ns m)"
    by auto
  have "set ids1 \<union> set (named ns ms) = set ids \<union> set (named ns (m # ms))" using 1(4) by (auto simp: named_def)
  with Cons.IH [OF 1(2,3) Cons.prems(3)] Cons.prems(4,5) 1(1) show ?case by auto
qed



text \<open>An error has the number of success.\<close>

lemma option_results_equal: "fst (SDF_trace_set_option option number t) = SDFTRACE_RET_SUCCESS"
  by (simp add: SDF_trace_set_option_def Let_def split: SDFTRACE_OPTION.split)

text \<open>A session is taken for another one of which it is the beginning, and is not followed.\<close>

lemma session_prefix:
  "note_session (str ''a'') (trace_zero\<lparr>session_list := [strncpy (str ''ab'') 256]\<rparr>) =
     Some (trace_zero\<lparr>session_list := [strncpy (str ''ab'') 256]\<rparr>, [])"
  by (simp add: note_session_def strncpy_def)

text \<open>A place that is used again keeps the end of a longer identifier.\<close>

lemma session_tail:
  "map_option snd (note_session (str ''c'') (trace_zero\<lparr>session_list := [strncpy (str ''ab'') 256]\<rparr>)) = Some (str ''cb'')"
  by (simp add: note_session_def strncpy_def Let_def cstring_def cstr_def trace_zero_def)

text \<open>The session of one message more than the list has places is written over the oldest.\<close>

lemma session_forgotten:
  assumes "listed ids t" "length ids = SDFTRACE_MAX_SESSION_LIST" "length sid \<le> 255" "0 \<in> set (drop (length sid) (entry (hd ids)))"
    and "find_session (session_list t) sid 0 = Some SDFTRACE_MAX_SESSION_LIST"
  shows "\<exists>t' s. note_session sid t = Some (t', s) \<and>
    session_list t' = (sid @ drop (length sid) (entry (hd ids))) # map entry (tl ids)"
proof -
  obtain i js where i: "ids = i # js" "length js = 31" using assms(2) by (cases ids) auto
  with assms(1) have l: "session_list t = entry i # map entry js" "session_index t = 0" by (simp_all add: listed_def)
  obtain s where "cstring (sid @ drop (length sid) (entry i)) = Some s" using assms(4) i by (simp add: cstring_def)
  with assms(3,5) i l show ?thesis by (simp add: note_session_def Let_def)
qed

text \<open>A number that fills its array is not terminated.\<close>

lemma number_not_terminated: "\<forall>c \<in> set number. c \<noteq> 0 \<Longrightarrow> 256 \<le> length number \<Longrightarrow> cstring (strncpy number 256) = None"
  by (auto simp: strncpy_def cstring_def dest: in_set_takeD)

end
