(* ===== verification/SdfLib.thy ===== *)
theory SdfLib
  imports CBase
begin

text \<open>
  The functions of libs/sdf/sdflib.c that are compiled without \<open>MEM_DEBUG\<close>: the allocation with zeros,
  and the random bytes.
\<close>

section \<open>Allocation\<close>

text \<open>
  \<open>_malloc\<close> clears the block before anything looks at the pointer: when there is no memory, only an
  empty block is survived. The result is the block, if there is one.
\<close>

definition sdf_malloc :: "nat \<Rightarrow> bool \<Rightarrow> bytes option option" where
  "sdf_malloc n memory =
     (if memory then Some (Some (replicate n 0)) else if n = 0 then Some None else None)"

section \<open>Random bytes\<close>

text \<open>What \<open>read\<close> returns from /dev/urandom, until it has filled the data or returns nothing.\<close>

fun urandom :: "bytes list \<Rightarrow> bytes \<Rightarrow> nat \<Rightarrow> bytes" where
  "urandom [] data i = data"
| "urandom (c # cs) data i =
     (if i < length data then
        let r = take (length data - i) c in
        if r = [] then data
        else urandom cs (take i data @ r @ drop (i + length r) data) (i + length r)
      else data)"

text \<open>\<open>_FILL\<close> with the bytes of one structure: the data, the position and the number of times it has come round.\<close>

fun fill :: "bytes \<Rightarrow> bytes \<times> nat \<times> nat \<Rightarrow> (bytes \<times> nat \<times> nat) option" where
  "fill [] s = Some s"
| "fill (b # bs) (data, i, z) =
     (let (i, z) = (if i \<ge> length data then (0, z + 1) else (i, z)) in
      if i \<ge> length data then None
      else fill bs (data[i := data ! i XOR b], i + 1, z))"

abbreviation (input) gt_size :: nat where "gt_size \<equiv> 80"

lemma fill_next:
  "fill bs (data, i, z) = Some (data', i', z') \<Longrightarrow> z' = z \<Longrightarrow> i \<le> length data \<Longrightarrow>
     length data' = length data \<and> i' = i + length bs \<and> i' \<le> length data"
proof (induction bs "(data, i, z)" arbitrary: data i z rule: fill.induct)
  case (2 b bs data i z)
  have mono: "fill bs (d, j, y) = Some (d', j', y') \<Longrightarrow> y \<le> y'" for bs d j y d' j' y'
    by (induction bs "(d, j, y)" arbitrary: d j y rule: fill.induct)
      (fastforce split: if_splits)+
  show ?case
  proof (cases "i \<ge> length data")
    case True
    with 2(2,3) mono [of bs] show ?thesis by (fastforce simp: Let_def split: if_splits)
  next
    case False
    with 2(1) [of "(i, z)" i z] 2(2,3) show ?thesis by (auto simp: Let_def)
  qed
qed simp

text \<open>The structure \<open>gt\<close> of 80 bytes, filled again before each pass.\<close>

function random_loop :: "(nat \<Rightarrow> nat \<Rightarrow> byte) \<Rightarrow> nat \<Rightarrow> bytes \<Rightarrow> nat \<Rightarrow> bytes option" where
  "random_loop gt k data i =
     (if i > length data then None
      else
        case fill (map (gt k) [0..<gt_size]) (data, i, 0) of
          None \<Rightarrow> None
        | Some (data, i, z) \<Rightarrow> if z \<noteq> 0 then Some data else random_loop gt (k + 1) data i)"
  by pat_completeness auto
termination
proof (relation "measure (\<lambda>(gt, k, data, i). length data - i)", goal_cases)
  case (2 gt k data i p d q i' z)
  then have f: "fill (map (gt k) [0..<gt_size]) (data, i, 0) = Some (d, i', 0)" by auto
  from fill_next [OF f] 2 show ?case by auto
qed simp

declare random_loop.simps [simp del]

definition SDF_random :: "bytes list option \<Rightarrow> (nat \<Rightarrow> nat \<Rightarrow> byte) \<Rightarrow> bytes \<Rightarrow> bytes option" where
  "SDF_random dev gt data =
     random_loop gt 0 (case dev of None \<Rightarrow> data | Some cs \<Rightarrow> urandom cs data 0) 0"

text \<open>No bytes are asked for: one is changed.\<close>

lemma random_of_nothing: "SDF_random dev gt [] = None"
proof -
  have u: "urandom cs [] 0 = []" for cs by (cases cs) simp_all
  have "[0..<80] = 0 # [1..<80]" by (simp add: upt_conv_Cons)
  then show ?thesis by (cases dev) (simp_all add: SDF_random_def random_loop.simps u)
qed

lemma urandom_length [simp]: "length (urandom cs data i) = length data"
  by (induction cs data i rule: urandom.induct) (auto simp: Let_def)

lemma fill_total: "data \<noteq> [] \<Longrightarrow> \<exists>d i' z'. fill bs (data, i, z) = Some (d, i', z') \<and> length d = length data"
proof (induction bs arbitrary: data i z)
  case (Cons b bs)
  then show ?case using Cons.IH [of "data[0 := data ! 0 XOR b]" 1 "z + 1"] Cons.IH [of "data[i := data ! i XOR b]" "i + 1" z]
    by (auto simp: Let_def)
qed simp

text \<open>For any number of bytes but none the loop ends, and as many bytes are there as before.\<close>

lemma random_total:
  "data \<noteq> [] \<Longrightarrow> \<exists>d. SDF_random dev gt data = Some d \<and> length d = length data"
proof -
  have "data \<noteq> [] \<Longrightarrow> i \<le> length data \<Longrightarrow> \<exists>d. random_loop gt k data i = Some d \<and> length d = length data" for data k i
  proof (induction gt k data i rule: random_loop.induct)
    case (1 gt k data i)
    obtain d j z where f: "fill (map (gt k) [0..<80]) (data, i, 0) = Some (d, j, z)" "length d = length data"
      using fill_total [OF 1(2)] by blast
    show ?case
    proof (cases "z = 0")
      case True
      have "j \<le> length d" using fill_next [OF f(1) True 1(3)] f(2) by simp
      moreover have "d \<noteq> []" using f(2) 1(2) by auto
      ultimately show ?thesis using 1(1) [OF _ f(1) refl refl] True 1(3) f by (simp add: random_loop.simps [of gt k data i])
    next
      case False
      with f 1(3) show ?thesis by (simp add: random_loop.simps [of gt k data i])
    qed
  qed
  from this [of "case dev of None \<Rightarrow> data | Some cs \<Rightarrow> urandom cs data 0" 0 0]
  show "data \<noteq> [] \<Longrightarrow> ?thesis" by (cases dev) (auto simp: SDF_random_def simp flip: length_greater_0_conv)
qed

end
