(* ===== verification/Watch.thy ===== *)
theory Watch
  imports CBase
begin

text \<open>
  The stop watches of watch/watch.c: an array of start times, and the time that has passed since, which
  \<open>timeval_subtract\<close> computes after it has moved whole seconds between the fields of the start time, in
  the array itself. The clock is a parameter.
\<close>

section \<open>The watches\<close>

record timeval =
  tv_sec :: int
  tv_usec :: int

abbreviation (input) MAX_TIMER_COUNTER :: int where "MAX_TIMER_COUNTER \<equiv> 8"

text \<open>The result, the start time as it is left, and whether the end is before the start.\<close>

definition timeval_subtract :: "timeval \<Rightarrow> timeval \<Rightarrow> timeval \<times> timeval \<times> bool" where
  "timeval_subtract end1 start =
     (let start =
            (if tv_usec end1 < tv_usec start then
               let nsec = (tv_usec start - tv_usec end1) div 1000000 + 1
               in start\<lparr>tv_usec := tv_usec start - 1000000 * nsec, tv_sec := tv_sec start + nsec\<rparr>
             else start);
          start =
            (if tv_usec end1 - tv_usec start > 1000000 then
               let nsec = (tv_usec end1 - tv_usec start) div 1000000
               in start\<lparr>tv_usec := tv_usec start + 1000000 * nsec, tv_sec := tv_sec start - nsec\<rparr>
             else start)
      in (\<lparr>tv_sec = tv_sec end1 - tv_sec start, tv_usec = tv_usec end1 - tv_usec start\<rparr>, start,
          tv_sec end1 < tv_sec start))"

text \<open>\<open>now\<close> is None when \<open>gettimeofday\<close> fails, and then the code reads a time that nobody has set.\<close>

definition init_watch :: "int \<Rightarrow> timeval option \<Rightarrow> (int \<Rightarrow> timeval) \<Rightarrow> int \<times> (int \<Rightarrow> timeval)" where
  "init_watch counter now tm_counter =
     (if counter \<ge> 0 \<and> counter < MAX_TIMER_COUNTER then
        case now of
          None \<Rightarrow> (-1, tm_counter)
        | Some t \<Rightarrow> (0, tm_counter(counter := t))
      else (-1, tm_counter))"

definition reset_watch ::
  "int \<Rightarrow> timeval option \<Rightarrow> (int \<Rightarrow> timeval) \<Rightarrow> (int \<times> timeval option \<times> (int \<Rightarrow> timeval)) option" where
  "reset_watch counter now tm_counter =
     (if counter \<ge> 0 \<and> counter < MAX_TIMER_COUNTER then do {
        t \<leftarrow> now;
        let (r, s, b) = timeval_subtract t (tm_counter counter);
        Some (0, Some r, tm_counter(counter := s\<lparr>tv_sec := tv_sec t, tv_usec := tv_usec t\<rparr>))
      }
      else Some (-1, None, tm_counter))"

definition lap_watch ::
  "int \<Rightarrow> timeval option \<Rightarrow> (int \<Rightarrow> timeval) \<Rightarrow> (int \<times> timeval option \<times> (int \<Rightarrow> timeval)) option" where
  "lap_watch counter now tm_counter =
     (if counter \<ge> 0 \<and> counter < MAX_TIMER_COUNTER then do {
        t \<leftarrow> now;
        let (r, s, b) = timeval_subtract t (tm_counter counter);
        Some (0, Some r, tm_counter(counter := s))
      }
      else Some (-1, None, tm_counter))"

definition stop_watch ::
  "int \<Rightarrow> timeval option \<Rightarrow> (int \<Rightarrow> timeval) \<Rightarrow> (int \<times> timeval option \<times> (int \<Rightarrow> timeval)) option" where
  "stop_watch counter now tm_counter =
     (if counter \<ge> 0 \<and> counter < MAX_TIMER_COUNTER then do {
        t \<leftarrow> now;
        let (r, s, b) = timeval_subtract t (tm_counter counter);
        Some (0, Some r, tm_counter(counter := \<lparr>tv_sec = 0, tv_usec = 0\<rparr>))
      }
      else Some (-1, None, tm_counter))"

section \<open>What they measure\<close>

text \<open>A time in microseconds.\<close>

definition usecs :: "timeval \<Rightarrow> int" where
  "usecs t = tv_sec t * 1000000 + tv_usec t"

text \<open>The start time stays the same time, and the result is the difference, with less than two seconds in its fraction.\<close>

lemma timeval_subtract_diff:
  assumes "timeval_subtract e s = (r, s', b)"
  shows "usecs r = usecs e - usecs s" "usecs s' = usecs s" "0 \<le> tv_usec r" "tv_usec r \<le> 1000000"
    "b \<longleftrightarrow> tv_sec r < 0"
proof -
  define k where "k = (tv_usec s - tv_usec e) div 1000000"
  define s1 where "s1 = (if tv_usec e < tv_usec s then s\<lparr>tv_usec := tv_usec s - 1000000 * (k + 1), tv_sec := tv_sec s + (k + 1)\<rparr> else s)"
  define l where "l = (tv_usec e - tv_usec s1) div 1000000"
  define s2 where "s2 = (if tv_usec e - tv_usec s1 > 1000000 then s1\<lparr>tv_usec := tv_usec s1 + 1000000 * l, tv_sec := tv_sec s1 - l\<rparr> else s1)"
  have r: "r = \<lparr>tv_sec = tv_sec e - tv_sec s2, tv_usec = tv_usec e - tv_usec s2\<rparr>" "s' = s2" "b \<longleftrightarrow> tv_sec e < tv_sec s2"
    using assms by (auto simp: timeval_subtract_def Let_def s2_def s1_def k_def l_def)
  have div: "1000000 * (x div 1000000) \<le> x \<and> x < 1000000 * (x div 1000000 + 1)" for x :: int
    using div_mult_mod_eq [of x 1000000] pos_mod_bound [of 1000000 x] pos_mod_sign [of 1000000 x] by auto
  have k: "1000000 * k \<le> tv_usec s - tv_usec e" "tv_usec s - tv_usec e < 1000000 * (k + 1)"
    unfolding k_def using div by simp_all
  have l: "1000000 * l \<le> tv_usec e - tv_usec s1" "tv_usec e - tv_usec s1 < 1000000 * (l + 1)"
    unfolding l_def using div by simp_all
  have u: "usecs s1 = usecs s" "usecs s2 = usecs s1" by (simp_all add: usecs_def s1_def s2_def algebra_simps)
  have s1: "tv_usec s1 \<le> tv_usec e" using k by (auto simp: s1_def)
  then show "usecs r = usecs e - usecs s" "usecs s' = usecs s" "0 \<le> tv_usec r" "tv_usec r \<le> 1000000" "b \<longleftrightarrow> tv_sec r < 0"
    using u l by (auto simp: r usecs_def s2_def algebra_simps)
qed

text \<open>
  A watch in use: what it has been started with, and the sequence of laps that were read since. Laps do
  not move the start, although they change its fields.
\<close>

fun laps :: "int \<Rightarrow> timeval list \<Rightarrow> (int \<Rightarrow> timeval) \<Rightarrow> (timeval list \<times> (int \<Rightarrow> timeval)) option" where
  "laps counter [] w = Some ([], w)"
| "laps counter (t # ts) w = do {
     (c, r, w) \<leftarrow> lap_watch counter (Some t) w;
     r \<leftarrow> r;
     (rs, w) \<leftarrow> laps counter ts w;
     Some (r # rs, w)
   }"

lemma laps_keep:
  "0 \<le> c \<Longrightarrow> c < MAX_TIMER_COUNTER \<Longrightarrow>
     \<exists>rs w'. laps c ts w = Some (rs, w') \<and> map usecs rs = map (\<lambda>t. usecs t - usecs (w c)) ts \<and>
       usecs (w' c) = usecs (w c) \<and> (\<forall>d. d \<noteq> c \<longrightarrow> w' d = w d)"
proof (induction ts arbitrary: w)
  case (Cons t ts)
  obtain r s b where s: "timeval_subtract t (w c) = (r, s, b)" by (metis prod_cases3)
  from Cons.IH [of "w(c := s)"] Cons.prems timeval_subtract_diff (1,2) [OF s] show ?case
    by (fastforce simp: lap_watch_def s)
qed simp

text \<open>
  After a watch has been started, every lap and the final stop give the time since the start in
  microseconds, however many laps are read in between; the stop clears the watch, the other watches
  keep what they have, and a number without a watch is refused.
\<close>

lemma watch_measures:
  "if 0 \<le> c \<and> c < MAX_TIMER_COUNTER then
     \<exists>w1 rs w2 r. init_watch c (Some t0) w = (0, w1) \<and> laps c ts w1 = Some (rs, w2) \<and>
       stop_watch c (Some t) w2 = Some (0, Some r, w(c := \<lparr>tv_sec = 0, tv_usec = 0\<rparr>)) \<and>
       map usecs rs = map (\<lambda>t. usecs t - usecs t0) ts \<and> usecs r = usecs t - usecs t0
   else init_watch c now w = (-1, w) \<and> lap_watch c now w = Some (-1, None, w) \<and>
     reset_watch c now w = Some (-1, None, w) \<and> stop_watch c now w = Some (-1, None, w)"
proof (cases "0 \<le> c \<and> c < MAX_TIMER_COUNTER")
  case True
  obtain rs w2 where l: "laps c ts (w(c := t0)) = Some (rs, w2)" "map usecs rs = map (\<lambda>t. usecs t - usecs t0) ts"
      "usecs (w2 c) = usecs t0" "\<forall>d. d \<noteq> c \<longrightarrow> w2 d = (w(c := t0)) d"
    using laps_keep [of c ts "w(c := t0)"] True by auto
  obtain r s b where s: "timeval_subtract t (w2 c) = (r, s, b)" by (metis prod_cases3)
  have "w2(c := z) = w(c := z)" for z using l(4) by auto
  with l True timeval_subtract_diff (1) [OF s] s show ?thesis
    by (auto simp: init_watch_def stop_watch_def)
qed (auto simp: init_watch_def lap_watch_def reset_watch_def stop_watch_def)

text \<open>A fraction of exactly one second is left as it is.\<close>

lemma whole_second:
  "fst (timeval_subtract \<lparr>tv_sec = 1, tv_usec = 1000000\<rparr> \<lparr>tv_sec = 0, tv_usec = 0\<rparr>) = \<lparr>tv_sec = 1, tv_usec = 1000000\<rparr>"
  by (simp add: timeval_subtract_def)

end
