(* ===== verification/Xthread.thy ===== *)
theory Xthread
  imports CBase
begin

text \<open>
  The wrapper of libs/xthread/xthread.c around POSIX threads (without \<open>EQX_WIN32\<close>). What the thread
  library answers, its error numbers, is a parameter of each operation; the model says which status comes
  back, which handle is stored, and what happens to the memory that the wrapper has allocated. The
  header \<open>common.h\<close> of the status codes is not in the repository, so they are a data type.
\<close>

section \<open>Statuses and memory\<close>

datatype EQX_STATUS =
  EQX_STATUS_SUCCESS | EQX_STATUS_NOMEM | EQX_STATUS_INVALID_PARAMETER | EQX_STATUS_CREATE_THREAD_FAILED
| EQX_STATUS_DETACH_THREAD_FAILED | EQX_STATUS_WAIT_FAILED | EQX_STATUS_CREATE_MUTEX_FAILED
| EQX_STATUS_ENABLE_MUTEX_RECURSIVE_FAILED | EQX_STATUS_CREATE_MUTEX_ATTR_FAILED | EQX_STATUS_DESTROY_MUTEX_FAILED
| EQX_STATUS_LOCK_MUTEX_FAILED | EQX_STATUS_UNLOCK_MUTEX_FAILED | EQX_STATUS_ALLOC_TLS_FAILED
| EQX_STATUS_FREE_TLS_FAILED | EQX_STATUS_SET_TLS_VALUE_FAILED

datatype errno = OK | ESRCH | ENOMEM | EINVAL | Other

text \<open>
  What the wrapper holds: the blocks with the parameters of threads that have been created and not yet
  begun, the mutexes and the storages, by their addresses, and the blocks that nobody can reach any more.
\<close>

record ('r, 'p) xthreads =
  invokers :: "nat \<Rightarrow> ('r \<times> 'p) option"
  mutexes :: "nat set"
  storages :: "nat set"
  lost :: "nat set"

section \<open>Threads\<close>

text \<open>\<open>calloc\<close> answers with an address, or None. \<open>created\<close> tells what \<open>pthread_create\<close> answers.\<close>

definition xthread_create ::
  "'r \<Rightarrow> 'p \<Rightarrow> nat option \<Rightarrow> errno \<Rightarrow> ('r, 'p) xthreads \<Rightarrow> EQX_STATUS \<times> ('r, 'p) xthreads" where
  "xthread_create routine param addr created s =
     (case addr of
        None \<Rightarrow> (EQX_STATUS_NOMEM, s)
      | Some a \<Rightarrow>
          let s = s\<lparr>invokers := (invokers s)(a \<mapsto> (routine, param))\<rparr>;
              status = (if created = OK then EQX_STATUS_SUCCESS else EQX_STATUS_CREATE_THREAD_FAILED)
          in
          if status \<noteq> EQX_STATUS_SUCCESS then (status, s\<lparr>invokers := (invokers s)(a := None)\<rparr>)
          else (status, s))"

text \<open>\<open>thread_routine_invoker\<close> in the new thread: an \<open>int\<close> goes through \<open>intptr_t\<close> to the pointer it returns.\<close>

definition thread_routine_invoker ::
  "('r \<Rightarrow> 'p \<Rightarrow> 32 word) \<Rightarrow> nat \<Rightarrow> ('r, 'p) xthreads \<Rightarrow> (64 word \<times> ('r, 'p) xthreads) option" where
  "thread_routine_invoker run a s = do {
     (routine, param) \<leftarrow> invokers s a;
     let result = scast (run routine param);
     Some (result, s\<lparr>invokers := (invokers s)(a := None)\<rparr>)
   }"

definition xthread_detach :: "errno \<Rightarrow> EQX_STATUS" where
  "xthread_detach r =
     (case r of
        OK \<Rightarrow> EQX_STATUS_SUCCESS
      | ESRCH \<Rightarrow> EQX_STATUS_INVALID_PARAMETER
      | _ \<Rightarrow> EQX_STATUS_DETACH_THREAD_FAILED)"

definition xthread_is_running :: "errno \<Rightarrow> bool" where
  "xthread_is_running r = (r = OK)"

definition xthread_join :: "errno \<Rightarrow> 64 word \<Rightarrow> EQX_STATUS \<times> 32 word option" where
  "xthread_join r exit_code =
     (if r = OK then (EQX_STATUS_SUCCESS, Some (ucast exit_code)) else (EQX_STATUS_WAIT_FAILED, None))"

section \<open>Mutexes\<close>

text \<open>The answers of \<open>pthread_mutexattr_init\<close>, \<open>pthread_mutexattr_settype\<close> and \<open>pthread_mutex_init\<close>; the
  number of attribute objects that are left at the end is the last component.\<close>

definition xthread_mutex_create ::
  "nat option \<Rightarrow> errno \<Rightarrow> errno \<Rightarrow> errno \<Rightarrow> ('r, 'p) xthreads \<Rightarrow> EQX_STATUS \<times> nat option \<times> ('r, 'p) xthreads \<times> nat" where
  "xthread_mutex_create addr attr_init settype init s =
     (case addr of
        None \<Rightarrow> (EQX_STATUS_NOMEM, None, s, 0)
      | Some m \<Rightarrow>
          let s = s\<lparr>mutexes := insert m (mutexes s)\<rparr>;
              (status, attrs) =
                (if attr_init = OK then
                   let attrs = 1;
                       status =
                         (if settype = OK then
                            if init = OK then EQX_STATUS_SUCCESS else EQX_STATUS_CREATE_MUTEX_FAILED
                          else EQX_STATUS_ENABLE_MUTEX_RECURSIVE_FAILED)
                   in (status, attrs - 1)
                 else (EQX_STATUS_CREATE_MUTEX_ATTR_FAILED, 0))
          in
          if status = EQX_STATUS_SUCCESS then (status, Some m, s, attrs)
          else (status, None, s\<lparr>mutexes := mutexes s - {m}\<rparr>, attrs))"

definition xthread_mutex_destroy :: "errno \<Rightarrow> nat \<Rightarrow> ('r, 'p) xthreads \<Rightarrow> EQX_STATUS \<times> ('r, 'p) xthreads" where
  "xthread_mutex_destroy r m s =
     (let status = (if r = OK then EQX_STATUS_SUCCESS else EQX_STATUS_DESTROY_MUTEX_FAILED)
      in (status, if status = EQX_STATUS_SUCCESS then s\<lparr>mutexes := mutexes s - {m}\<rparr> else s))"

definition xthread_mutex_lock :: "errno \<Rightarrow> EQX_STATUS" where
  "xthread_mutex_lock r = (if r = OK then EQX_STATUS_SUCCESS else EQX_STATUS_LOCK_MUTEX_FAILED)"

definition xthread_mutex_unlock :: "errno \<Rightarrow> EQX_STATUS" where
  "xthread_mutex_unlock r = (if r = OK then EQX_STATUS_SUCCESS else EQX_STATUS_UNLOCK_MUTEX_FAILED)"

section \<open>Storage of a thread\<close>

definition xthread_storage_alloc ::
  "nat option \<Rightarrow> errno \<Rightarrow> ('r, 'p) xthreads \<Rightarrow> EQX_STATUS \<times> nat option \<times> ('r, 'p) xthreads" where
  "xthread_storage_alloc addr r s =
     (case addr of
        None \<Rightarrow> (EQX_STATUS_NOMEM, None, s)
      | Some a \<Rightarrow>
          let status =
                (case r of
                   OK \<Rightarrow> EQX_STATUS_SUCCESS
                 | ENOMEM \<Rightarrow> EQX_STATUS_NOMEM
                 | _ \<Rightarrow> EQX_STATUS_ALLOC_TLS_FAILED)
          in
          if status = EQX_STATUS_SUCCESS then (status, Some a, s\<lparr>storages := insert a (storages s)\<rparr>)
          else (status, None, s\<lparr>lost := insert a (lost s)\<rparr>))"

definition xthread_storage_free :: "errno \<Rightarrow> nat \<Rightarrow> ('r, 'p) xthreads \<Rightarrow> EQX_STATUS \<times> ('r, 'p) xthreads" where
  "xthread_storage_free r a s =
     (let status = (if r = OK then EQX_STATUS_SUCCESS else EQX_STATUS_FREE_TLS_FAILED)
      in (status, if status = EQX_STATUS_SUCCESS then s\<lparr>storages := storages s - {a}\<rparr> else s))"

text \<open>The values by key and thread, as the library keeps them; a value that was never set is 0.\<close>

definition xthread_storage_value_get :: "nat \<Rightarrow> nat \<Rightarrow> (nat \<times> nat \<Rightarrow> 64 word) \<Rightarrow> 64 word" where
  "xthread_storage_value_get key self vals = vals (key, self)"

definition xthread_storage_value_set ::
  "errno \<Rightarrow> nat \<Rightarrow> nat \<Rightarrow> 64 word \<Rightarrow> (nat \<times> nat \<Rightarrow> 64 word) \<Rightarrow> EQX_STATUS \<times> (nat \<times> nat \<Rightarrow> 64 word)" where
  "xthread_storage_value_set r key self v vals =
     (let status =
            (case r of
               OK \<Rightarrow> EQX_STATUS_SUCCESS
             | ENOMEM \<Rightarrow> EQX_STATUS_NOMEM
             | EINVAL \<Rightarrow> EQX_STATUS_INVALID_PARAMETER
             | _ \<Rightarrow> EQX_STATUS_SET_TLS_VALUE_FAILED)
      in (status, if r = OK then vals((key, self) := v) else vals))"

section \<open>What comes back\<close>

text \<open>The result of a routine survives the way through a pointer.\<close>

lemma join_result: "xthread_join OK (scast (r :: 32 word)) = (EQX_STATUS_SUCCESS, Some r)"
proof -
  have "ucast (scast r :: 64 word) = r"
    by (rule bit_word_eqI) (simp add: bit_simps)
  then show ?thesis by (simp add: xthread_join_def)
qed

text \<open>
  A thread runs its routine once with the parameter it was created with and gives back the block that
  held them; what it returns is what joining it returns.
\<close>

lemma thread_runs:
  "xthread_create routine param (Some a) OK s = (EQX_STATUS_SUCCESS, s') \<Longrightarrow> invokers s a = None \<Longrightarrow>
     \<exists>v. thread_routine_invoker run a s' = Some (v, s) \<and> xthread_join OK v = (EQX_STATUS_SUCCESS, Some (run routine param)) \<and>
       thread_routine_invoker run a s = None"
  by (auto simp: xthread_create_def thread_routine_invoker_def join_result Let_def fun_upd_idem)

text \<open>
  Creating a thread or a mutex that fails gives back all memory and every attribute object, and changes
  nothing; a mutex that is created is new, and destroying it gives its block back. Values of one thread
  are not seen by another.
\<close>

lemma xthread_failures:
  assumes "\<And>a. addr = Some a \<Longrightarrow> invokers s a = None \<and> a \<notin> mutexes s"
  shows
    "xthread_create routine param addr created s = (st, s') \<Longrightarrow> st \<noteq> EQX_STATUS_SUCCESS \<Longrightarrow> s' = s"
    "xthread_mutex_create addr i t n s = (st, m, s', attrs) \<Longrightarrow> attrs = 0 \<and>
       (if st = EQX_STATUS_SUCCESS then m = addr \<and> addr \<noteq> None \<and> i = OK \<and> t = OK \<and> n = OK \<and>
          xthread_mutex_destroy OK (the m) s' = (EQX_STATUS_SUCCESS, s)
        else m = None \<and> s' = s)"
    "snd (xthread_storage_value_set r key self v vals) (key, other) =
       (if other = self \<and> r = OK then v else vals (key, other))"
  using assms
  by (auto simp: xthread_create_def xthread_mutex_create_def xthread_mutex_destroy_def xthread_storage_value_set_def
      Let_def fun_upd_idem split: option.splits if_splits)

text \<open>A storage whose key is refused is not given back.\<close>

lemma storage_lost:
  "xthread_storage_alloc (Some a) ENOMEM s = (EQX_STATUS_NOMEM, None, s\<lparr>lost := insert a (lost s)\<rparr>)"
  by (simp add: xthread_storage_alloc_def)

end
