(* ===== verification/Cassandra.thy ===== *)
theory Cassandra
  imports SdfLog "HOL-Library.Signed_Division"
begin

text \<open>
  stacks/cassandra/cassandra_api.c: the results of a query printed as text, with or without the names of
  the columns, and the settings of a cluster. The driver is not in the repository: a result is the list
  of its rows, a value is opaque, and what the driver's functions say of a value is a parameter.
\<close>

section \<open>What the driver tells\<close>

datatype CassValueType =
  CASS_VALUE_TYPE_INT | CASS_VALUE_TYPE_BOOLEAN | CASS_VALUE_TYPE_DOUBLE | CASS_VALUE_TYPE_TEXT
| CASS_VALUE_TYPE_ASCII | CASS_VALUE_TYPE_VARCHAR | CASS_VALUE_TYPE_UUID | CASS_VALUE_TYPE_TIMESTAMP
| CASS_VALUE_TYPE_LIST | CASS_VALUE_TYPE_MAP | CASS_VALUE_TYPE_BLOB | CASS_VALUE_TYPE_OTHER

text \<open>A floating point number, by its sign; a finite one is \<open>m * 2 ^ e\<close>.\<close>

datatype double = Finite bool nat int | Infinite bool | NotANumber bool

text \<open>
  \<open>get_string\<close> is None when the function sets neither the pointer nor the length, \<open>collection\<close> when
  there is no iterator. \<open>uuid_string\<close> is \<open>cass_value_get_uuid\<close> with \<open>cass_uuid_string\<close>.
\<close>

record 'v driver =
  value_type :: "'v \<Rightarrow> CassValueType"
  is_null :: "'v \<Rightarrow> bool"
  get_string :: "'v \<Rightarrow> bytes option"
  get_int32 :: "'v \<Rightarrow> int"
  get_bool :: "'v \<Rightarrow> bool"
  get_double :: "'v \<Rightarrow> double"
  get_int64 :: "'v \<Rightarrow> int"
  uuid_string :: "'v \<Rightarrow> bytes"
  collection :: "'v \<Rightarrow> 'v list option"

text \<open>What \<open>localtime\<close> makes of a time: the date with its year, the hour, and the minutes east of Greenwich.\<close>

record local_time =
  lt_year :: int
  lt_mon :: nat
  lt_mday :: nat
  lt_hour :: nat
  lt_min :: nat
  lt_sec :: nat
  lt_gmtoff :: int

section \<open>Buffers\<close>

abbreviation (input) DATA_BUFFER :: int where "DATA_BUFFER \<equiv> 4096"
abbreviation (input) CASS_API_OK :: int where "CASS_API_OK \<equiv> 0"
abbreviation (input) nl :: bytes where "nl \<equiv> [0x0a]"

text \<open>
  The text in the buffer, up to its NUL, and how many bytes there are for it. The array of one byte at
  the end of the structure is at offset 28 of 32.
\<close>

record buffer =
  bf_size :: int
  bf_len :: int
  bf_text :: bytes
  bf_room :: int

definition ALLOCATE_BUFFER :: "bool \<Rightarrow> int \<Rightarrow> buffer option \<Rightarrow> buffer option" where
  "ALLOCATE_BUFFER memory l d =
     (case d of
        None \<Rightarrow> if memory then Some \<lparr>bf_size = l, bf_len = 0, bf_text = [], bf_room = l + 4\<rparr> else None
      | Some b \<Rightarrow>
          if bf_len b + l > bf_size b \<and> memory then
            let l = l + bf_len b
            in Some (b\<lparr>bf_size := l, bf_text := take (nat (bf_len b)) (bf_text b), bf_room := l + 4\<rparr>)
          else Some b)"

text \<open>\<open>i += sprintf (&buffer->data[i], ...)\<close>: the text behind what has been printed, and a NUL.\<close>

definition sprintf :: "int \<Rightarrow> bytes \<Rightarrow> bytes \<Rightarrow> bytes option" where
  "sprintf room t s = (if int (length s + length t) < room then Some (s @ t) else None)"

fun sprintf_all :: "int \<Rightarrow> bytes list \<Rightarrow> bytes \<Rightarrow> bytes option" where
  "sprintf_all room [] s = Some s"
| "sprintf_all room (t # ts) s = do { s \<leftarrow> sprintf room t s; sprintf_all room ts s }"

text \<open>\<open>"%.*s"\<close> in quotes.\<close>

definition quote :: "bytes \<Rightarrow> bytes" where
  "quote s = [0x22] @ cstr s @ [0x22]"

section \<open>Results without names\<close>

text \<open>The texts that are printed for the columns of a row. A value that is not a text has no pointer to print.\<close>

fun attribute_texts :: "'v driver \<Rightarrow> 'v list \<Rightarrow> bytes list option" where
  "attribute_texts d [] = Some []"
| "attribute_texts d (v # vs) = do {
     s \<leftarrow> get_string d v;
     ts \<leftarrow> attribute_texts d vs;
     Some ((quote (str ''attribute'') @ str '':'' @ quote s @ str '','' @ nl) # ts)
   }"

fun json_rows :: "'v driver \<Rightarrow> 'v list option list \<Rightarrow> bytes list option" where
  "json_rows d [] = Some []"
| "json_rows d (None # rows) = json_rows d rows"
| "json_rows d (Some row # rows) = do {
     cs \<leftarrow> attribute_texts d row;
     ts \<leftarrow> json_rows d rows;
     Some ([str ''{''] @ cs @ [str ''},'' @ nl] @ ts)
   }"

definition the_buffer :: "bool \<Rightarrow> buffer option \<Rightarrow> buffer option" where
  "the_buffer memory buffer = (if buffer = None then ALLOCATE_BUFFER memory DATA_BUFFER buffer else buffer)"

text \<open>The result, the buffer, and what is written to the standard output.\<close>

definition cass_api_get_result_json ::
  "'v driver \<Rightarrow> bool \<Rightarrow> 'v list option list \<Rightarrow> buffer option \<Rightarrow> (int \<times> buffer \<times> bytes) option" where
  "cass_api_get_result_json d memory result buffer = do {
     b \<leftarrow> the_buffer memory buffer;
     ts \<leftarrow> json_rows d result;
     s \<leftarrow> sprintf_all (bf_room b) ([str ''{'' @ nl] @ ts @ [str ''}'']) [];
     Some (CASS_API_OK, b\<lparr>bf_text := s\<rparr>, s @ nl)
   }"

section \<open>Results with the names of the columns\<close>

text \<open>\<open>"%f"\<close>: six digits behind the point, rounded to the nearest, and to the even one when there are two.\<close>

definition round_div :: "nat \<Rightarrow> nat \<Rightarrow> nat" where
  "round_div n k =
     (let q = n div k; r = 2 * (n mod k) in if r > k \<or> (r = k \<and> odd q) then q + 1 else q)"

definition sign :: "bool \<Rightarrow> bytes" where
  "sign negative = (if negative then str ''-'' else [])"

definition double_text :: "double \<Rightarrow> bytes" where
  "double_text x =
     (case x of
        Finite s m e \<Rightarrow>
          let n = (if e \<ge> 0 then m * 2 ^ nat e * 10 ^ 6 else round_div (m * 10 ^ 6) (2 ^ nat (- e)))
          in sign s @ dec_nat (n div 10 ^ 6) @ str ''.'' @ dec_pad 6 (n mod 10 ^ 6)
      | Infinite s \<Rightarrow> sign s @ str ''inf''
      | NotANumber s \<Rightarrow> sign s @ str ''nan'')"

text \<open>\<open>strftime\<close> with \<open>" %Y-%m-%d %H:%M:%S %z"\<close>.\<close>

definition time_text :: "local_time \<Rightarrow> bytes" where
  "time_text t =
     str '' '' @ dec_int (lt_year t) @ str ''-'' @ dec_pad 2 (lt_mon t) @ str ''-'' @ dec_pad 2 (lt_mday t) @ str '' '' @
     dec_pad 2 (lt_hour t) @ str '':'' @ dec_pad 2 (lt_min t) @ str '':'' @ dec_pad 2 (lt_sec t) @ str '' '' @
     (let z = nat \<bar>lt_gmtoff t\<bar> in
      str (if lt_gmtoff t < 0 then ''-'' else ''+'') @ dec_pad 2 (z div 60) @ dec_pad 2 (z mod 60))"

text \<open>
  The elements of a list: \<open>col_value\<close> is what the last element that is a text has left there. The second
  result is what is written to the standard output.
\<close>

fun list_texts :: "'v driver \<Rightarrow> bytes \<Rightarrow> bytes option \<Rightarrow> nat \<Rightarrow> 'v list \<Rightarrow> (bytes list \<times> bytes) option" where
  "list_texts d name col_value count_row [] = Some ([], [])"
| "list_texts d name col_value count_row (v # vs) = do {
     let count_row = count_row + 1;
     let col_value = (case get_string d v of None \<Rightarrow> col_value | Some s \<Rightarrow> Some s);
     s \<leftarrow> col_value;
     (ts, out) \<leftarrow> list_texts d name col_value count_row vs;
     Some ((if count_row = 1 then [quote name @ str '':'', str ''['' @ quote s] else [str '','' @ quote s]) @ ts,
       dec_nat count_row @ nl @ out)
   }"

definition named :: "bytes \<Rightarrow> bytes \<Rightarrow> (bytes list \<times> bytes) option" where
  "named name t = Some ([quote name @ str '':'', t], [])"

definition value_text :: "bytes \<Rightarrow> bytes" where
  "value_text s = [0x22] @ s @ [0x22] @ str '','' @ nl"

definition column_texts ::
  "'v driver \<Rightarrow> (int \<Rightarrow> local_time option) \<Rightarrow> bytes \<Rightarrow> 'v \<Rightarrow> (bytes list \<times> bytes) option" where
  "column_texts d localtime name v =
     (let or_null = (\<lambda>t. if is_null d v then named name (value_text (str ''NULL'')) else t) in
      case value_type d v of
        CASS_VALUE_TYPE_INT \<Rightarrow> or_null (named name (value_text (dec_int (get_int32 d v))))
      | CASS_VALUE_TYPE_BOOLEAN \<Rightarrow> or_null (named name (str (if get_bool d v then ''true'' else ''false'')))
      | CASS_VALUE_TYPE_DOUBLE \<Rightarrow> or_null (named name (value_text (double_text (get_double d v))))
      | CASS_VALUE_TYPE_UUID \<Rightarrow> or_null (named name (quote (uuid_string d v) @ str '','' @ nl))
      | CASS_VALUE_TYPE_TIMESTAMP \<Rightarrow>
          or_null (do {
            t \<leftarrow> localtime (get_int64 d v sdiv 1000);
            named name (value_text (time_text t))
          })
      | CASS_VALUE_TYPE_LIST \<Rightarrow> do {
          vs \<leftarrow> collection d v;
          (ts, out) \<leftarrow> list_texts d name None 0 vs;
          Some (ts @ [str ''],'' @ nl], out)
        }
      | CASS_VALUE_TYPE_MAP \<Rightarrow> Some ([], [])
      | CASS_VALUE_TYPE_BLOB \<Rightarrow> Some ([], [])
      | CASS_VALUE_TYPE_OTHER \<Rightarrow> or_null (named name (value_text (str ''<unhandled type>'')))
      | _ \<Rightarrow> or_null (do {
          s \<leftarrow> get_string d v;
          named name (quote s @ str '','' @ nl)
        }))"

text \<open>The names come from the table, the values from the row, until one of them ends.\<close>

fun columns_texts ::
  "'v driver \<Rightarrow> (int \<Rightarrow> local_time option) \<Rightarrow> bytes list \<Rightarrow> 'v list \<Rightarrow> (bytes list \<times> bytes) option" where
  "columns_texts d localtime (name # names) (v # vs) = do {
     (ts, out) \<leftarrow> column_texts d localtime name v;
     (us, out') \<leftarrow> columns_texts d localtime names vs;
     Some (ts @ us, out @ out')
   }"
| "columns_texts d localtime _ _ = Some ([], [])"

fun column_rows ::
  "'v driver \<Rightarrow> (int \<Rightarrow> local_time option) \<Rightarrow> bytes list option \<Rightarrow> 'v list option list \<Rightarrow> (bytes list \<times> bytes) option" where
  "column_rows d localtime table [] = Some ([], [])"
| "column_rows d localtime table (None # rows) = column_rows d localtime table rows"
| "column_rows d localtime table (Some row # rows) = do {
     names \<leftarrow> table;
     (cs, out) \<leftarrow> columns_texts d localtime names row;
     (ts, out') \<leftarrow> column_rows d localtime table rows;
     Some ([str ''{''] @ cs @ [str ''},'' @ nl] @ ts, out @ out')
   }"

text \<open>
  \<open>schema\<close> is what the session knows: for a keyspace that exists, the names of the columns of each of its
  tables. A keyspace that does not exist is \<open>NULL\<close> in the next call.
\<close>

definition cass_api_get_result_column ::
  "'v driver \<Rightarrow> (int \<Rightarrow> local_time option) \<Rightarrow> bool \<Rightarrow> (bytes \<Rightarrow> (bytes \<Rightarrow> bytes list option) option) \<Rightarrow>
     'v list option list \<Rightarrow> buffer option \<Rightarrow> (int \<times> buffer \<times> bytes) option" where
  "cass_api_get_result_column d localtime memory schema result buffer = do {
     keyspace \<leftarrow> schema (str ''peaw'');
     let table = keyspace (str ''dearall'');
     b \<leftarrow> the_buffer memory buffer;
     (ts, out) \<leftarrow> column_rows d localtime table result;
     s \<leftarrow> sprintf_all (bf_room b) ([str ''{'' @ nl] @ ts @ [str ''}'']) [];
     Some (CASS_API_OK, b\<lparr>bf_text := s\<rparr>, out @ s @ nl)
   }"

section \<open>Clusters\<close>

text \<open>The calls of the driver that set a cluster up, in their order; their results are not looked at.\<close>

datatype cluster_call =
  Contact_points bytes | Credentials bytes bytes | Num_threads_io int | Queue_size_io int
| Pending_requests_low_water_mark int | Pending_requests_high_water_mark int
| Core_connections_per_host int | Max_connections_per_host int | Max_requests_per_flush int

definition cass_api_create_cluster ::
  "bytes \<Rightarrow> bytes \<Rightarrow> bytes \<Rightarrow> int \<Rightarrow> int \<Rightarrow> int \<Rightarrow> int \<Rightarrow> cluster_call list" where
  "cass_api_create_cluster hosts user passwd n_worker queues init_connection max_connection =
     [Contact_points hosts, Credentials user passwd, Num_threads_io n_worker, Queue_size_io queues,
      Pending_requests_low_water_mark 5000, Pending_requests_high_water_mark 10000,
      Core_connections_per_host init_connection, Max_connections_per_host max_connection,
      Max_requests_per_flush 10000]"

section \<open>What is printed\<close>

text \<open>Printing in pieces succeeds exactly when the whole text and its NUL have room.\<close>

lemma sprintf_all_eq:
  "ts \<noteq> [] \<Longrightarrow>
     sprintf_all room ts s =
       (if int (length s + length (concat ts)) < room then Some (s @ concat ts) else None)"
proof (induction ts arbitrary: s)
  case (Cons t ts)
  then show ?case by (cases "ts = []") (auto simp: sprintf_def)
qed simp

text \<open>The cells of a table, as the driver tells them.\<close>

datatype cell =
  CellNull | CellInt int | CellBool bool | CellDouble double | CellText bytes | CellUuid bytes
| CellTime local_time | CellList "bytes list" | CellSilent | CellUnhandled

fun reads :: "'v driver \<Rightarrow> (int \<Rightarrow> local_time option) \<Rightarrow> 'v \<Rightarrow> cell \<Rightarrow> bool" where
  "reads d localtime v CellNull \<longleftrightarrow>
     is_null d v \<and> value_type d v \<notin> {CASS_VALUE_TYPE_LIST, CASS_VALUE_TYPE_MAP, CASS_VALUE_TYPE_BLOB}"
| "reads d localtime v (CellInt n) \<longleftrightarrow> \<not> is_null d v \<and> value_type d v = CASS_VALUE_TYPE_INT \<and> get_int32 d v = n"
| "reads d localtime v (CellBool b) \<longleftrightarrow> \<not> is_null d v \<and> value_type d v = CASS_VALUE_TYPE_BOOLEAN \<and> get_bool d v = b"
| "reads d localtime v (CellDouble x) \<longleftrightarrow> \<not> is_null d v \<and> value_type d v = CASS_VALUE_TYPE_DOUBLE \<and> get_double d v = x"
| "reads d localtime v (CellText s) \<longleftrightarrow>
     \<not> is_null d v \<and> value_type d v \<in> {CASS_VALUE_TYPE_TEXT, CASS_VALUE_TYPE_ASCII, CASS_VALUE_TYPE_VARCHAR} \<and>
     get_string d v = Some s"
| "reads d localtime v (CellUuid s) \<longleftrightarrow> \<not> is_null d v \<and> value_type d v = CASS_VALUE_TYPE_UUID \<and> uuid_string d v = s"
| "reads d localtime v (CellTime t) \<longleftrightarrow>
     \<not> is_null d v \<and> value_type d v = CASS_VALUE_TYPE_TIMESTAMP \<and> localtime (get_int64 d v sdiv 1000) = Some t"
| "reads d localtime v (CellList ss) \<longleftrightarrow>
     value_type d v = CASS_VALUE_TYPE_LIST \<and>
     (case collection d v of None \<Rightarrow> False | Some vs \<Rightarrow> map (get_string d) vs = map Some ss)"
| "reads d localtime v CellSilent \<longleftrightarrow> value_type d v \<in> {CASS_VALUE_TYPE_MAP, CASS_VALUE_TYPE_BLOB}"
| "reads d localtime v CellUnhandled \<longleftrightarrow> \<not> is_null d v \<and> value_type d v = CASS_VALUE_TYPE_OTHER"

text \<open>A value without quotes has no comma either; a list without elements has no name.\<close>

fun cell_text :: "bytes \<Rightarrow> cell \<Rightarrow> bytes" where
  "cell_text name CellNull = quote name @ str '':'' @ value_text (str ''NULL'')"
| "cell_text name (CellInt n) = quote name @ str '':'' @ value_text (dec_int n)"
| "cell_text name (CellBool b) = quote name @ str '':'' @ str (if b then ''true'' else ''false'')"
| "cell_text name (CellDouble x) = quote name @ str '':'' @ value_text (double_text x)"
| "cell_text name (CellText s) = quote name @ str '':'' @ quote s @ str '','' @ nl"
| "cell_text name (CellUuid s) = quote name @ str '':'' @ quote s @ str '','' @ nl"
| "cell_text name (CellTime t) = quote name @ str '':'' @ value_text (time_text t)"
| "cell_text name (CellList []) = str ''],'' @ nl"
| "cell_text name (CellList (s # ss)) =
     quote name @ str '':['' @ quote s @ concat (map (\<lambda>s. str '','' @ quote s) ss) @ str ''],'' @ nl"
| "cell_text name CellSilent = []"
| "cell_text name CellUnhandled = quote name @ str '':'' @ value_text (str ''<unhandled type>'')"

definition row_text :: "bytes list \<Rightarrow> cell list \<Rightarrow> bytes" where
  "row_text names cs = str ''{'' @ concat (map2 cell_text names cs) @ str ''},'' @ nl"

definition table_text :: "bytes list \<Rightarrow> cell list list \<Rightarrow> bytes" where
  "table_text names rows = str ''{'' @ nl @ concat (map (row_text names) rows) @ str ''}''"

text \<open>What goes to the standard output first: the elements of the lists, counted.\<close>

definition cell_counts :: "cell \<Rightarrow> bytes" where
  "cell_counts c =
     (case c of CellList ss \<Rightarrow> concat (map (\<lambda>k. dec_nat k @ nl) [1..<length ss + 1]) | _ \<Rightarrow> [])"

definition table_counts :: "bytes list \<Rightarrow> cell list list \<Rightarrow> bytes" where
  "table_counts names rows = concat (map (\<lambda>cs. concat (map cell_counts (take (length names) cs))) rows)"

lemma list_texts_more:
  "map (get_string d) vs = map Some ss \<Longrightarrow> 0 < n \<Longrightarrow>
     \<exists>ts. list_texts d name p n vs = Some (ts, concat (map (\<lambda>k. dec_nat k @ nl) [n + 1..<n + 1 + length ss])) \<and>
       concat ts = concat (map (\<lambda>s. str '','' @ quote s) ss)"
proof (induction vs arbitrary: ss p n)
  case (Cons v vs)
  then obtain s ss' where ss: "ss = s # ss'" "get_string d v = Some s" "map (get_string d) vs = map Some ss'"
    by (cases ss) auto
  obtain ts where ts: "list_texts d name (Some s) (n + 1) vs =
      Some (ts, concat (map (\<lambda>k. dec_nat k @ nl) [n + 2..<n + 2 + length ss']))"
      "concat ts = concat (map (\<lambda>s. str '','' @ quote s) ss')"
    using Cons.IH [of ss' "n + 1" "Some s"] ss(3) by (auto simp del: upt_Suc)
  have "[n + 1..<n + 1 + length ss] = (n + 1) # [n + 2..<n + 2 + length ss']" by (simp add: ss(1) upt_conv_Cons del: upt_Suc)
  with ts Cons.prems(2) show ?case by (simp add: ss del: upt_Suc)
qed simp

lemma column_texts_reads:
  "reads d localtime v c \<Longrightarrow>
     \<exists>ts. column_texts d localtime name v = Some (ts, cell_counts c) \<and> concat ts = cell_text name c"
proof (cases "\<exists>s ss. c = CellList (s # ss)")
  case True
  assume r: "reads d localtime v c"
  from True obtain s ss where c: "c = CellList (s # ss)" by blast
  with r obtain v1 vs where vs: "collection d v = Some (v1 # vs)" "get_string d v1 = Some s"
      "map (get_string d) vs = map Some ss" "value_type d v = CASS_VALUE_TYPE_LIST"
    by (auto split: option.splits simp: map_eq_Cons_conv)
  obtain ts where "list_texts d name (Some s) 1 vs =
      Some (ts, concat (map (\<lambda>k. dec_nat k @ nl) [2..<2 + length ss]))"
      "concat ts = concat (map (\<lambda>s. str '','' @ quote s) ss)"
    using list_texts_more [OF vs(3), of 1 name "Some s"] by (auto simp: numeral_2_eq_2 simp del: upt_Suc)
  then show ?thesis
    using vs by (simp add: c column_texts_def cell_counts_def upt_conv_Cons numeral_2_eq_2 del: upt_Suc)
next
  case False
  assume "reads d localtime v c"
  with False show ?thesis
    by (cases c; cases "case c of CellList ss \<Rightarrow> ss | _ \<Rightarrow> []")
      (auto simp: column_texts_def named_def cell_counts_def split: option.splits CassValueType.splits)
qed

lemma columns_texts_reads:
  "list_all2 (reads d localtime) row cs \<Longrightarrow>
     \<exists>ts. columns_texts d localtime names row = Some (ts, concat (map cell_counts (take (length names) cs))) \<and>
       concat ts = concat (map2 cell_text names cs)"
proof (induction d localtime names row arbitrary: cs rule: columns_texts.induct)
  case (1 d localtime name names v vs)
  then obtain c cs' where c: "cs = c # cs'" "reads d localtime v c" "list_all2 (reads d localtime) vs cs'"
    by (auto simp: list_all2_Cons1)
  from column_texts_reads [OF c(2), of name] "1.IH" [OF _ _ c(3)] show ?case by (fastforce simp: c(1))
qed simp_all

lemma column_rows_reads:
  "list_all2 (list_all2 (reads d localtime)) rows cells \<Longrightarrow>
     \<exists>ts. column_rows d localtime (Some names) (map Some rows) = Some (ts, table_counts names cells) \<and>
       concat ts = concat (map (row_text names) cells)"
proof (induction rows arbitrary: cells)
  case (Cons row rows)
  then obtain cs cells' where c: "cells = cs # cells'" "list_all2 (reads d localtime) row cs"
      "list_all2 (list_all2 (reads d localtime)) rows cells'"
    by (auto simp: list_all2_Cons1)
  from columns_texts_reads [OF c(2), of names] Cons.IH [OF c(3)] show ?case
    by (fastforce simp: c(1) table_counts_def row_text_def)
qed (simp add: table_counts_def)

text \<open>
  C18. The rows of a result are printed as one text for each cell with the name of its column, in the order
  of the table, into the buffer that was given or a new one; and this succeeds exactly when the buffer
  has room for the whole text, since the code does not look at the size of the buffer. The names are
  those of one fixed table, whatever was asked for.
\<close>

lemma cass_table_text:
  assumes "schema (str ''peaw'') = Some keyspace" "keyspace (str ''dearall'') = Some names"
    and "list_all2 (list_all2 (reads d localtime)) rows cells"
  shows "cass_api_get_result_column d localtime memory schema (map Some rows) buffer =
    (case the_buffer memory buffer of
       None \<Rightarrow> None
     | Some b \<Rightarrow>
         if int (length (table_text names cells)) < bf_room b then
           Some (CASS_API_OK, b\<lparr>bf_text := table_text names cells\<rparr>,
             table_counts names cells @ table_text names cells @ nl)
         else None)"
proof -
  obtain ts where ts: "column_rows d localtime (Some names) (map Some rows) = Some (ts, table_counts names cells)"
      "concat ts = concat (map (row_text names) cells)"
    using column_rows_reads [OF assms(3)] by blast
  then show ?thesis
    using assms(1,2)
    by (simp add: cass_api_get_result_column_def sprintf_all_eq table_text_def del: sprintf_all.simps split: option.split)
qed

text \<open>A driver whose values are the cells themselves.\<close>

definition cell_type :: "cell \<Rightarrow> CassValueType" where
  "cell_type c =
     (case c of
        CellNull \<Rightarrow> CASS_VALUE_TYPE_INT | CellInt n \<Rightarrow> CASS_VALUE_TYPE_INT | CellBool b \<Rightarrow> CASS_VALUE_TYPE_BOOLEAN
      | CellDouble x \<Rightarrow> CASS_VALUE_TYPE_DOUBLE | CellText s \<Rightarrow> CASS_VALUE_TYPE_VARCHAR | CellUuid s \<Rightarrow> CASS_VALUE_TYPE_UUID
      | CellTime t \<Rightarrow> CASS_VALUE_TYPE_TIMESTAMP | CellList ss \<Rightarrow> CASS_VALUE_TYPE_LIST | CellSilent \<Rightarrow> CASS_VALUE_TYPE_MAP
      | CellUnhandled \<Rightarrow> CASS_VALUE_TYPE_OTHER)"

definition cell_driver :: "cell driver" where
  "cell_driver =
     \<lparr>value_type = cell_type, is_null = (\<lambda>c. c = CellNull),
      get_string = (\<lambda>c. case c of CellText s \<Rightarrow> Some s | _ \<Rightarrow> None),
      get_int32 = (\<lambda>c. case c of CellInt n \<Rightarrow> n | _ \<Rightarrow> 0), get_bool = (\<lambda>c. c = CellBool True),
      get_double = (\<lambda>c. case c of CellDouble x \<Rightarrow> x | _ \<Rightarrow> NotANumber False), get_int64 = (\<lambda>c. 0),
      uuid_string = (\<lambda>c. case c of CellUuid s \<Rightarrow> s | _ \<Rightarrow> []),
      collection = (\<lambda>c. case c of CellList ss \<Rightarrow> Some (map CellText ss) | _ \<Rightarrow> None)\<rparr>"

definition demo_row :: "cell list" where
  "demo_row = [CellText (str ''Ann''), CellInt (-7), CellNull, CellList [str ''1'', str ''2''], CellDouble (Finite True 5 (-1))]"

definition demo_names :: "bytes list" where
  "demo_names = map str [''name'', ''n'', ''city'', ''phone'', ''x'']"

lemma dec_nat_digit: "n < 10 \<Longrightarrow> dec_nat n = [of_nat (48 + n)]"
  by (subst dec_nat.simps) simp

lemma cass_table_text_witness:
  "cass_api_get_result_column cell_driver (\<lambda>t. None) True (\<lambda>k. Some (\<lambda>t. Some demo_names)) [Some demo_row] None =
     Some (CASS_API_OK,
       \<lparr>bf_size = 4096, bf_len = 0, bf_text = table_text demo_names [demo_row], bf_room = 4100\<rparr>,
       table_counts demo_names [demo_row] @ table_text demo_names [demo_row] @ nl)"
proof -
  have r: "list_all2 (list_all2 (reads cell_driver (\<lambda>t. None))) [demo_row] [demo_row]"
    by (simp add: demo_row_def cell_driver_def cell_type_def)
  have n: "length (table_text demo_names [demo_row]) < 4100"
    by (simp add: table_text_def row_text_def demo_row_def demo_names_def quote_def cstr_def value_text_def
        double_text_def round_div_def sign_def dec_int_def dec_pad_def dec_nat_digit dec_nat.simps [of "numeral k" for k])
  show ?thesis
    using cass_table_text [OF _ _ r, of "\<lambda>k. Some (\<lambda>t. Some demo_names)" "\<lambda>t. Some demo_names" demo_names True None] n
    by (simp add: the_buffer_def ALLOCATE_BUFFER_def)
qed

text \<open>Without names, too: when every value is a text, and not at all when one is not.\<close>

lemma attribute_texts_strings:
  "map (get_string d) vs = map Some ss \<Longrightarrow>
     attribute_texts d vs =
       Some (map (\<lambda>s. quote (str ''attribute'') @ str '':'' @ quote s @ str '','' @ nl) ss)"
  by (induction vs arbitrary: ss) (auto simp: map_eq_Cons_conv Cons_eq_map_conv)

lemma attribute_null: "v \<in> set vs \<Longrightarrow> get_string d v = None \<Longrightarrow> attribute_texts d vs = None"
  by (induction vs) auto

text \<open>After a truth value comes the next name, and an empty list leaves its bracket alone.\<close>

lemma bool_runs_on:
  "row_text [str ''a'', str ''b''] [CellBool True, CellList []] = str ''{'' @ quote (str ''a'') @ str '':true],'' @ nl @ str ''},'' @ nl"
  by (simp add: row_text_def)

end
