(* ===== verification/Spec2Isabelle.thy ===== *)
theory Spec2Isabelle
  imports LinkedList Base64 Md5 BaseEpoll HttpServer LdapStream LdapClientSteps LdapText SdfDocument SdfTrace SdfLib Watch Xthread Cassandra
begin

text \<open>
  Verification library of the C code of the CassandraAPI repository: the network stacks under
  src/libs/stacks, the codecs under src/libs/codecs, the lists of src/include on which they rest, and
  the libraries beside them: the event loop, the configuration, log and trace of src/libs/sdf, the
  stop watches and the threads.

  \<^bold>\<open>The program and its parts.\<close> An application links the stacks as libraries and drives them from
  an event loop: it opens a server, accepts sessions from the listening socket, and calls the read,
  decode and write operations of a session when its socket is ready. The HTTP server
  (stacks/http) hands out requests as buffers; the directory server (stacks/ldap) queues decoded
  LDAP messages in its sessions and takes encoded responses to send. Both ask the host list
  (stacks/rauthen) before they keep a connection, and both keep their sessions in a table of slots.
  The directory client keeps connections to one server in two queues and hands them the messages
  of the application in turn. The SDF library stands beside the stacks: an application reads its
  configuration from an XML file and writes its log and its traces with it. The Cassandra API prints
  the results of queries.

  \<^bold>\<open>Theories.\<close>
  \<^item> \<^theory_text>\<open>CBase\<close>: bytes, reads of memory that may be out of bounds, C strings, decimal texts.
  \<^item> \<^theory_text>\<open>LinkedList\<close>: the macros of include/linkedlist.h on a heap of \<open>prev\<close> and \<open>next\<close> fields,
    refining operations on lists; a locale for queues, interpreted on the macros.
  \<^item> \<^theory_text>\<open>Base64\<close>, \<^theory_text>\<open>UrlEncode\<close>: codecs/base64/base64.c and codecs/urlencode/urlencode.c, with
    round trips, and bounds of what they read and write.
  \<^item> \<^theory_text>\<open>Md5\<close>: codecs/md5/md5.c, equivalent to RFC 1321 for a message in any pieces.
  \<^item> \<^theory_text>\<open>BaseEpoll\<close>: base_epoll/base_epoll.c, the table of descriptors beside the kernel's list, and
    the dispatch of events, as a step relation of several loops with the globals that they share.
  \<^item> \<^theory_text>\<open>Rauthen\<close>: stacks/rauthen/rauthen.c, the host file and the decision about a peer.
  \<^item> \<^theory_text>\<open>SessionTable\<close>: the contract of a table of slots, a locale interpreted on the HTTP server in
    \<^theory_text>\<open>HttpConn\<close> and on the directory server in \<^theory_text>\<open>LdapServer\<close>, and the events on descriptors.
  \<^item> \<^theory_text>\<open>Http\<close>, \<^theory_text>\<open>HttpConn\<close>, \<^theory_text>\<open>HttpDecode\<close>, \<^theory_text>\<open>HttpPage\<close>, \<^theory_text>\<open>HttpServer\<close>: stacks/http/http.c: data
    and options (\<open>HTTP_t\<close>, \<open>HSSESSION\<close>, \<open>HSDATA\<close> of http.h), connections, the request parser, the
    generated pages, and the server as a step relation with its invariant.
  \<^item> \<^theory_text>\<open>LdapBer\<close>: length octets, message ids and texts of stacks/ldap/ldap_common.c.
  \<^item> \<^theory_text>\<open>LdapFilter\<close>: \<open>LDAP_string_to_filter\<close> and \<open>LDAP_filter_to_string\<close>.
  \<^item> \<^theory_text>\<open>LdapRequest\<close>: \<open>ldap_decode_request\<close> with the messages of ldap.h.
  \<^item> \<^theory_text>\<open>LdapGen\<close>: the generators of responses.
  \<^item> \<^theory_text>\<open>LdapRequestGen\<close>: the generators of requests but the search, with their controls, and the
    encoders of attribute and modification lists; what they write the server decodes.
  \<^item> \<^theory_text>\<open>LdapSearch\<close>: the parser of textual filters and \<open>LDAP_gen_search_request\<close>.
  \<^item> \<^theory_text>\<open>LdapResponse\<close>: \<open>ldap_decode_response\<close> with the record \<open>LDAP_CLNT\<close> of a connection, and the
    generator of search entries.
  \<^item> \<^theory_text>\<open>LdapAttrs\<close>: \<open>ber_attr_to_obj\<close> and \<open>ber_to_attrs\<close>, which take collected results apart.
  \<^item> \<^theory_text>\<open>LdapText\<close>: \<open>ber_attr_to_string\<close> and \<open>LBER_attr_decode\<close>, which print them as LDIF or JSON.
  \<^item> \<^theory_text>\<open>LdapBind\<close>: the bind handshake on both sides, and the records \<open>DSSESSION\<close> and \<open>DS_t\<close>.
  \<^item> \<^theory_text>\<open>LdapServer\<close>, \<^theory_text>\<open>LdapTransfer\<close>, \<^theory_text>\<open>LdapState\<close>: stacks/ldap/ldap_server.c: sessions and their
    table, reading, decoding and writing, and the server as a step relation with its invariant.
  \<^item> \<^theory_text>\<open>LdapStream\<close>: the input of a session as a stream of messages, however it arrives.
  \<^item> \<^theory_text>\<open>LdapClient\<close>, \<^theory_text>\<open>LdapClientState\<close>, \<^theory_text>\<open>LdapClientSteps\<close>: stacks/ldap/ldap_client.c: the
    operations on \<open>LDAP_t\<close>, the queues of connections with the round robin that they implement, and
    the client as a step relation with its invariant.
  \<^item> \<^theory_text>\<open>SdfXml\<close>, \<^theory_text>\<open>SdfText\<close>: sdf/sdfxml.c, the reader of elements and attributes, and the characters
    that XML writes as entities.
  \<^item> \<^theory_text>\<open>SdfConfig\<close>, \<^theory_text>\<open>SdfDocument\<close>: sdf/sdfconfig.c, and what it finds in the text of a document given
    as a tree.
  \<^item> \<^theory_text>\<open>SdfLog\<close>, \<^theory_text>\<open>SdfTrace\<close>, \<^theory_text>\<open>SdfLib\<close>: sdf/sdflog.c, sdf/sdftrace.c and the random bytes and the
    allocation of sdf/sdflib.c.
  \<^item> \<^theory_text>\<open>Watch\<close>, \<^theory_text>\<open>Xthread\<close>: watch/watch.c and xthread/xthread.c.
  \<^item> \<^theory_text>\<open>Cassandra\<close>: stacks/cassandra/cassandra_api.c, the results of queries as text.

  \<^bold>\<open>Conventions.\<close> A byte is a value of type \<open>8 word\<close>, an \<open>int\<close> of C an integer with the overflow
  written out where it can happen, a counter that wraps a word of its width. The result \<open>None\<close>
  stands for what C leaves undefined or does not return from: a read or write outside an array or
  an allocation, a shift by the width, the overflow of a signed integer, the use of \<open>NULL\<close>, a loop
  that stays where it is. A theorem that has a result \<open>Some\<close> in its conclusion therefore also says
  that none of this happens. Pointer arguments that the code checks against \<open>NULL\<close> are not \<open>NULL\<close>
  here, and the texts written to \<open>error\<close> are left out. What the operating system answers (\<open>recv\<close>,
  \<open>send\<close>, \<open>accept\<close>, \<open>close\<close>, \<open>malloc\<close>, the time, the name service) is a parameter of each
  operation; the theorems hold for all answers that the named hypotheses admit. The nodes that the
  LDAP decoder allocates for the parts of a message are assumed to get their memory, since the code
  does not check them. Sizes of structures are those of a 64-bit system.

  \<^bold>\<open>What the lemmas show.\<close> The codecs and the encodings round trip within the sizes of their
  buffers, requests from the client to the server, from the text of a filter on, and the responses
  back included; digests are those of RFC 1321; list
  macros refine lists; an event loop agrees with the kernel, and stays in its table unless a
  longer one was made after it; the tables of sessions, and the two
  queues of connections of the client, stay consistent in every state that the operations reach, in
  any order; the client hands out messages as a round robin and its decoder ends; streams are neither reordered nor lost, for any fragmentation
  of the input and any partial sends; timeouts close the first expired session; a peer gets a
  session only if the host list lets it, and an LDAP request reaches the application only from an
  authenticated user. Collected results are printed as LDIF records; the configuration finds the first
  element and attribute of a name in any document, and on any other data stays inside it; the names of
  log levels are read as they are written; the trace follows the
  sessions that a traced number has named, while they are no more than its list has places; a
  watch measures the time since its start, whatever laps are read; the table of a query is printed cell
  by cell exactly when the buffer has room for it. Further lemmas show inputs on which the code
  fails.

  \<^bold>\<open>Bounds.\<close> Lengths of BER elements and message ids are below \<open>2 ^ 24\<close>, where the code of
  \<open>INSERT_LENGTH\<close> ends; the decoders' bounds are the sizes of the arrays in ldap.h. Loops are total
  functions whose measure is the unread part of the buffer; \<open>count_bytes\<close> alone counts its
  iterations, up to the width of its argument.

  \<^bold>\<open>Not modelled.\<close> The accounting of memory in sdf/sdflib.c under MEM_DEBUG, which cannot be compiled;
  the branches of sdf and xthread for Windows; the handlers of the alarm in the log and the trace; the
  driver that the Cassandra API calls, which is a parameter; the empty main program, tests, and the Java
  programs under kafka and spark. Two steps of the client, which the code gets wrong as \<open>LdapClientSteps\<close> shows, are marked: the
  failed allocation of a write buffer, and the answer to a keepalive on a waiting connection; the
  invariant of the client is that of the runs without them.
\<close>

end
